(* ===== verification/Prelude.thy ===== *)
theory Prelude
  imports
    "HOL-Library.Word"
    "HOL-Library.AList"
    "HOL-Library.Char_ord"
    "HOL-Library.List_Lexorder"
    "HOL-Library.Product_Lexorder"
begin

unbundle bit_operations_syntax

section \<open>Shared types, primitives and lemmas\<close>

text \<open>
  What every component shares: the machine types, the crate's error type
  (phinet-core/src/error.rs), the big- and little-endian codecs of the Rust integers,
  hash maps as association lists, the record of the cryptographic and encoding
  primitives that come from third-party crates, and the collections of facts the
  component proofs use.

  Error messages: the model keeps the literal text that identifies a message, and drops
  the formatted values.
\<close>

named_theorems phi_defs \<open>definitions that component proofs unfold freely\<close>
named_theorems codec \<open>round trips and lengths of encoders\<close>

subsection \<open>Machine types\<close>

type_synonym u8 = "8 word"
type_synonym u16 = "16 word"
type_synonym u32 = "32 word"
type_synonym u64 = "64 word"
type_synonym bytes = "u8 list"

text \<open>
  \<open>Instant\<close> and \<open>Duration\<close> are nanoseconds. \<open>Instant::duration_since\<close> saturates at
  zero, as subtraction on \<open>nat\<close> does.
\<close>

type_synonym instant = nat
type_synonym duration = nat

definition secs :: "nat \<Rightarrow> duration" where
  "secs n = n * 1000000000"

definition duration_since :: "instant \<Rightarrow> instant \<Rightarrow> duration" where
  "duration_since now earlier = now - earlier"

text \<open>\<open>u64\<close> saturating subtraction and addition.\<close>

definition sat_sub :: "'a::len word \<Rightarrow> 'a word \<Rightarrow> 'a word" where
  "sat_sub a b = (if a < b then 0 else a - b)"

definition sat_add :: "'a::len word \<Rightarrow> 'a word \<Rightarrow> 'a word" where
  "sat_add a b = (if unat a + unat b < 2 ^ LENGTH('a) then a + b else - 1)"

subsection \<open>Errors\<close>

datatype error =
    InvalidCert string
  | PowFailed string
  | Crypto string
  | AuthFailed
  | Handshake string
  | Onion string
  | Dht string
  | HiddenService string
  | Io string
  | Serde string
  | Closed
  | NotFound string
  | RateLimited
  | PuzzleRequired

type_synonym 'a result = "error + 'a"

text \<open>The early return of the \<open>?\<close> operator.\<close>

fun and_then :: "'a result \<Rightarrow> ('a \<Rightarrow> 'b result) \<Rightarrow> 'b result" where
  "and_then (Inl e) f = Inl e"
| "and_then (Inr x) f = f x"

fun ok_or :: "error \<Rightarrow> 'a option \<Rightarrow> 'a result" where
  "ok_or e None = Inl e"
| "ok_or e (Some x) = Inr x"

fun is_ok :: "'a result \<Rightarrow> bool" where
  "is_ok (Inl _) = False"
| "is_ok (Inr _) = True"

lemma and_then_Inr_iff: "and_then r f = Inr y \<longleftrightarrow> (\<exists>x. r = Inr x \<and> f x = Inr y)"
  by (cases r) auto

lemma and_then_assoc: "and_then (and_then r f) g = and_then r (\<lambda>x. and_then (f x) g)"
  by (cases r) auto

lemma ok_or_Inr_iff [simp]: "ok_or e r = Inr y \<longleftrightarrow> r = Some y"
  by (cases r) auto

lemma is_ok_iff: "is_ok r \<longleftrightarrow> (\<exists>x. r = Inr x)"
  by (cases r) auto

subsection \<open>Integer codecs\<close>

text \<open>
  \<open>to_be_bytes\<close>, \<open>from_be_bytes\<close>, \<open>to_le_bytes\<close> and \<open>from_le_bytes\<close> of the Rust
  integers, for every width that is a multiple of 8.
\<close>

definition to_be :: "'a::len word \<Rightarrow> bytes" where
  "to_be w = map (\<lambda>i. ucast (drop_bit (8 * i) w)) (rev [0..<LENGTH('a) div 8])"

definition of_be :: "bytes \<Rightarrow> 'a::len word" where
  "of_be bs = foldl (\<lambda>acc b. push_bit 8 acc OR ucast b) 0 bs"

definition to_le :: "'a::len word \<Rightarrow> bytes" where
  "to_le w = rev (to_be w)"

definition of_le :: "bytes \<Rightarrow> 'a::len word" where
  "of_le bs = of_be (rev bs)"

lemma length_to_be [simp, codec]: "length (to_be (w :: 'a::len word)) = LENGTH('a) div 8"
  by (simp add: to_be_def)

lemma length_to_le [simp, codec]: "length (to_le (w :: 'a::len word)) = LENGTH('a) div 8"
  by (simp add: to_le_def)

lemma of_be_snoc: "of_be (bs @ [b]) = push_bit 8 (of_be bs) OR ucast b"
  by (simp add: of_be_def)

lemma bit_of_be:
  "bit (of_be bs :: 'a::len word) n \<longleftrightarrow>
     n < LENGTH('a) \<and> n div 8 < length bs \<and> bit (rev bs ! (n div 8)) (n mod 8)"
proof (induction bs arbitrary: n rule: rev_induct)
  case Nil
  then show ?case by (simp add: of_be_def)
next
  case (snoc b bs)
  show ?case
  proof (cases "n < 8")
    case True
    then show ?thesis
      by (auto simp: of_be_snoc bit_or_iff bit_push_bit_iff bit_ucast_iff)
  next
    case False
    then have d: "n div 8 = Suc ((n - 8) div 8)" and m: "n mod 8 = (n - 8) mod 8"
      by (simp_all add: le_div_geq le_mod_geq)
    from False have nb: "\<not> bit b n"
      using bit_imp_le_length [of b n] by auto
    have "bit (of_be (bs @ [b]) :: 'a word) n \<longleftrightarrow> n < LENGTH('a) \<and> bit (of_be bs :: 'a word) (n - 8)"
      using False nb by (auto simp: of_be_snoc bit_or_iff bit_push_bit_iff bit_ucast_iff)
    also have "\<dots> \<longleftrightarrow> n < LENGTH('a) \<and> n div 8 < length (bs @ [b])
        \<and> bit (rev (bs @ [b]) ! (n div 8)) (n mod 8)"
      using False by (auto simp: snoc.IH d m)
    finally show ?thesis .
  qed
qed

lemma of_be_to_be [simp, codec]:
  assumes "8 dvd LENGTH('a::len)"
  shows "of_be (to_be (w :: 'a word)) = w"
proof (rule bit_word_eqI)
  fix n
  assume n: "n < LENGTH('a)"
  from assms obtain k where k: "LENGTH('a) = 8 * k" by (elim dvdE)
  from n k have nk: "n div 8 < k" by (simp add: less_mult_imp_div_less mult.commute)
  have "rev (to_be w) ! (n div 8) = ucast (drop_bit (8 * (n div 8)) w)"
    using nk k by (simp add: to_be_def rev_map)
  then show "bit (of_be (to_be w) :: 'a word) n = bit w n"
    using n nk k by (simp add: bit_of_be bit_ucast_iff bit_drop_bit_eq)
qed

lemma to_be_of_be [codec]:
  assumes len: "length bs = LENGTH('a::len) div 8" and dvd: "8 dvd LENGTH('a)"
  shows "to_be (of_be bs :: 'a word) = bs"
proof (rule nth_equalityI)
  show "length (to_be (of_be bs :: 'a word)) = length bs" by (simp add: len)
next
  fix i
  assume "i < length (to_be (of_be bs :: 'a word))"
  then have i: "i < length bs" by (simp add: len)
  define j where "j = length bs - Suc i"
  have j: "j < length bs" using i by (simp add: j_def)
  have nth: "to_be (of_be bs :: 'a word) ! i = ucast (drop_bit (8 * j) (of_be bs :: 'a word))"
    using i len by (simp add: to_be_def rev_nth j_def)
  have jL: "8 * j + n < LENGTH('a)" if "n < 8" for n
    using that j len dvd by (elim dvdE) simp
  show "to_be (of_be bs :: 'a word) ! i = bs ! i"
  proof (rule bit_word_eqI)
    fix n
    assume "n < LENGTH(8)"
    then have n: "n < 8" by simp
    have "bit (to_be (of_be bs :: 'a word) ! i) n \<longleftrightarrow> bit (of_be bs :: 'a word) (8 * j + n)"
      using n by (simp add: nth bit_ucast_iff bit_drop_bit_eq)
    also have "\<dots> \<longleftrightarrow> bit (rev bs ! j) n"
      using n j jL [OF n] by (simp add: bit_of_be)
    also have "rev bs ! j = bs ! i"
      using i by (simp add: j_def rev_nth)
    finally show "bit (to_be (of_be bs :: 'a word) ! i) n = bit (bs ! i) n" .
  qed
qed

lemma of_le_to_le [simp, codec]:
  "8 dvd LENGTH('a::len) \<Longrightarrow> of_le (to_le (w :: 'a word)) = w"
  by (simp add: of_le_def to_le_def)

lemma to_le_of_le [codec]:
  "length bs = LENGTH('a::len) div 8 \<Longrightarrow> 8 dvd LENGTH('a) \<Longrightarrow> to_le (of_le bs :: 'a word) = bs"
  by (simp add: of_le_def to_le_def to_be_of_be)

lemma to_be_inject [simp]:
  "8 dvd LENGTH('a::len) \<Longrightarrow> to_be (v :: 'a word) = to_be w \<longleftrightarrow> v = w"
  by (metis of_be_to_be)

text \<open>Length fields: a length that fits the width survives the cast to it.\<close>

lemma unat_of_nat_len [simp]:
  "n < 2 ^ LENGTH('a) \<Longrightarrow> unat (of_nat n :: 'a::len word) = n"
  by (simp add: unat_of_nat take_bit_nat_eq_self)

text \<open>The slice \<open>buf[a..b]\<close> of the source.\<close>

definition slice :: "nat \<Rightarrow> nat \<Rightarrow> 'a list \<Rightarrow> 'a list" where
  "slice a b xs = take (b - a) (drop a xs)"

lemma length_slice [simp]: "length (slice a b xs) = min (b - a) (length xs - a)"
  by (simp add: slice_def)

lemma slice_append1: "b \<le> length xs \<Longrightarrow> slice a b (xs @ ys) = slice a b xs"
  by (cases "a \<le> length xs") (auto simp: slice_def)

lemma slice_append2:
  "length xs \<le> a \<Longrightarrow> slice a b (xs @ ys) = slice (a - length xs) (b - length xs) ys"
  by (simp add: slice_def)

lemma slice_whole: "a = 0 \<Longrightarrow> length xs = b \<Longrightarrow> slice a b xs = xs"
  by (simp add: slice_def)

lemma slice_Cons: "0 < a \<Longrightarrow> slice a b (x # xs) = slice (a - 1) (b - 1) xs"
  by (simp add: slice_def drop_Cons')

lemmas slice_simps = slice_append1 slice_append2 slice_whole slice_Cons

text \<open>The index of the first element with a property (\<open>Iterator::position\<close>).\<close>

fun position :: "('a \<Rightarrow> bool) \<Rightarrow> 'a list \<Rightarrow> nat option" where
  "position P [] = None"
| "position P (x # xs) = (if P x then Some 0 else map_option Suc (position P xs))"

lemma position_None_iff: "position P xs = None \<longleftrightarrow> (\<forall>x \<in> set xs. \<not> P x)"
  by (induction xs) auto

lemma position_SomeD:
  "position P xs = Some i \<Longrightarrow> i < length xs \<and> P (xs ! i) \<and> (\<forall>j < i. \<not> P (xs ! j))"
proof (induction xs arbitrary: i)
  case Nil
  then show ?case by simp
next
  case (Cons x xs)
  show ?case
  proof (cases "P x")
    case True
    with Cons.prems show ?thesis by simp
  next
    case False
    with Cons.prems obtain j where j: "position P xs = Some j" "i = Suc j" by auto
    from Cons.IH [OF j(1)] False j(2) show ?thesis by (auto simp: less_Suc_eq_0_disj)
  qed
qed

text \<open>Remove the element at an index (\<open>VecDeque::remove\<close>).\<close>

definition remove_at :: "nat \<Rightarrow> 'a list \<Rightarrow> 'a list" where
  "remove_at i xs = take i xs @ drop (Suc i) xs"

lemma length_remove_at: "i < length xs \<Longrightarrow> length (remove_at i xs) = length xs - 1"
  by (simp add: remove_at_def)

lemma set_remove_at_subset: "set (remove_at i xs) \<subseteq> set xs"
  by (auto simp: remove_at_def dest: in_set_takeD in_set_dropD)

lemma distinct_map_remove_at:
  assumes "distinct (map f xs)" "i < length xs"
  shows "distinct (map f (remove_at i xs)) \<and> f (xs ! i) \<notin> f ` set (remove_at i xs)"
proof -
  have "xs = take i xs @ xs ! i # drop (Suc i) xs"
    using assms(2) by (rule id_take_nth_drop)
  then have "distinct (map f (take i xs @ xs ! i # drop (Suc i) xs))"
    using assms(1) by simp
  then show ?thesis by (auto simp: remove_at_def)
qed

text \<open>
  The contract of a wire codec: what is decoded from an encoding is the encoded value.
  Each message of the protocol interprets it on its own pair of functions.
\<close>

locale codec =
  fixes valid :: "'a \<Rightarrow> bool"
    and enc :: "'a \<Rightarrow> bytes"
    and dec :: "bytes \<Rightarrow> 'a result"
  assumes dec_enc: "valid x \<Longrightarrow> dec (enc x) = Inr x"
begin

lemma enc_inj: "valid x \<Longrightarrow> valid y \<Longrightarrow> enc x = enc y \<longleftrightarrow> x = y"
  using dec_enc by (metis sum.inject(2))

lemma dec_enc_iff: "valid x \<Longrightarrow> dec (enc x) = Inr y \<longleftrightarrow> y = x"
  by (auto simp: dec_enc)

lemma dec_enc_ok: "valid x \<Longrightarrow> is_ok (dec (enc x))"
  by (simp add: dec_enc)

end

subsection \<open>Hash maps\<close>

text \<open>
  A \<open>HashMap\<close> is an association list with distinct keys. Its iteration order is the
  order of the list, about which nothing is assumed; lookups, inserts and removals are
  those of \<open>HOL-Library.AList\<close>, \<open>retain\<close> is a filter.
\<close>

type_synonym ('k, 'v) hmap = "('k \<times> 'v) list"

abbreviation hm_get :: "('k, 'v) hmap \<Rightarrow> 'k \<Rightarrow> 'v option" where
  "hm_get m k \<equiv> map_of m k"

abbreviation hm_insert :: "'k \<Rightarrow> 'v \<Rightarrow> ('k, 'v) hmap \<Rightarrow> ('k, 'v) hmap" where
  "hm_insert k v m \<equiv> AList.update k v m"

abbreviation hm_remove :: "'k \<Rightarrow> ('k, 'v) hmap \<Rightarrow> ('k, 'v) hmap" where
  "hm_remove k m \<equiv> AList.delete k m"

abbreviation hm_keys :: "('k, 'v) hmap \<Rightarrow> 'k list" where
  "hm_keys m \<equiv> map fst m"

definition hm_retain :: "('k \<Rightarrow> 'v \<Rightarrow> bool) \<Rightarrow> ('k, 'v) hmap \<Rightarrow> ('k, 'v) hmap" where
  "hm_retain P m = filter (\<lambda>(k, v). P k v) m"

definition hm_wf :: "('k, 'v) hmap \<Rightarrow> bool" where
  "hm_wf m \<longleftrightarrow> distinct (map fst m)"

text \<open>The interface the components rely on, and its provider.\<close>

locale keyed_store =
  fixes wf :: "'m \<Rightarrow> bool"
    and get :: "'m \<Rightarrow> 'k \<Rightarrow> 'v option"
    and ins :: "'k \<Rightarrow> 'v \<Rightarrow> 'm \<Rightarrow> 'm"
    and rem :: "'k \<Rightarrow> 'm \<Rightarrow> 'm"
    and keep :: "('k \<Rightarrow> 'v \<Rightarrow> bool) \<Rightarrow> 'm \<Rightarrow> 'm"
  assumes wf_ins: "wf m \<Longrightarrow> wf (ins k v m)"
    and wf_rem: "wf m \<Longrightarrow> wf (rem k m)"
    and wf_keep: "wf m \<Longrightarrow> wf (keep P m)"
    and get_ins: "get (ins k v m) k' = (if k' = k then Some v else get m k')"
    and get_rem: "get (rem k m) k' = (if k' = k then None else get m k')"
    and get_keep: "wf m \<Longrightarrow>
      get (keep P m) k = (case get m k of None \<Rightarrow> None | Some v \<Rightarrow> if P k v then Some v else None)"
begin

lemma get_ins_same [simp]: "get (ins k v m) k = Some v"
  by (simp add: get_ins)

lemma get_rem_same [simp]: "get (rem k m) k = None"
  by (simp add: get_rem)

lemma get_rem_ins: "get (rem k (ins k v m)) = get (rem k m)"
  by (rule ext) (simp add: get_rem get_ins)

lemma get_keep_Some: "wf m \<Longrightarrow> get (keep P m) k = Some v \<longleftrightarrow> get m k = Some v \<and> P k v"
  by (auto simp: get_keep split: option.splits if_splits)

lemma keep_sub: "wf m \<Longrightarrow> get (keep P m) k = Some v \<Longrightarrow> get m k = Some v"
  by (simp add: get_keep_Some)

end

lemma map_of_filter_distinct:
  "distinct (map fst m) \<Longrightarrow>
   map_of (filter (\<lambda>(k, v). P k v) m) k =
     (case map_of m k of None \<Rightarrow> None | Some v \<Rightarrow> if P k v then Some v else None)"
proof (induction m)
  case Nil
  then show ?case by simp
next
  case (Cons a m)
  obtain k' v' where a: "a = (k', v')" by (cases a)
  have "map_of m k = None" if "k = k'"
    using that Cons.prems a by (simp add: map_of_eq_None_iff)
  then show ?case using Cons a by (auto split: option.splits)
qed

lemma distinct_map_filter_fst: "distinct (map f m) \<Longrightarrow> distinct (map f (filter P m))"
  by (rule distinct_map_filter)

interpretation hm: keyed_store hm_wf map_of AList.update AList.delete hm_retain
proof unfold_locales
  fix m :: "('a, 'b) hmap" and k k' :: 'a and v :: 'b and P :: "'a \<Rightarrow> 'b \<Rightarrow> bool"
  show "hm_wf m \<Longrightarrow> hm_wf (AList.update k v m)" by (simp add: hm_wf_def distinct_update)
  show "hm_wf m \<Longrightarrow> hm_wf (AList.delete k m)" by (simp add: hm_wf_def distinct_delete)
  show "hm_wf m \<Longrightarrow> hm_wf (hm_retain P m)"
    by (simp add: hm_wf_def hm_retain_def distinct_map_filter)
  show "map_of (AList.update k v m) k' = (if k' = k then Some v else map_of m k')"
    by (simp add: update_conv')
  show "map_of (AList.delete k m) k' = (if k' = k then None else map_of m k')"
    by (simp add: delete_conv')
  show "hm_wf m \<Longrightarrow> map_of (hm_retain P m) k =
      (case map_of m k of None \<Rightarrow> None | Some v \<Rightarrow> if P k v then Some v else None)"
    by (simp add: hm_wf_def hm_retain_def map_of_filter_distinct)
qed

lemma hm_wf_Nil [simp]: "hm_wf []"
  by (simp add: hm_wf_def)

lemmas hm_simps = hm.get_ins hm.get_rem hm.get_keep
lemmas hm_wf_intros = hm.wf_ins hm.wf_rem hm.wf_keep

subsection \<open>Third-party primitives\<close>

text \<open>
  The functions of the crates the code calls (sha2, chacha20, hex, x25519-dalek, hkdf,
  hmac, chacha20poly1305, ed25519-dalek) are a parameter of every definition that uses
  them. What a theorem relies on is one of the laws below, which state documented
  behaviour: output lengths, \<open>decode\<close> inverting \<open>encode\<close>, Diffie-Hellman agreement,
  the opening of a sealed message. \<open>p_chacha20 P key nonce i\<close> is byte \<open>i\<close> of the keystream.
\<close>

record prims =
  p_sha256 :: "bytes \<Rightarrow> bytes"
  p_chacha20 :: "bytes \<Rightarrow> bytes \<Rightarrow> nat \<Rightarrow> u8"
  p_hex_encode :: "bytes \<Rightarrow> string"
  p_hex_decode :: "string \<Rightarrow> bytes option"
  p_x25519 :: "bytes \<Rightarrow> bytes \<Rightarrow> bytes"
  p_x25519_pub :: "bytes \<Rightarrow> bytes"
  p_hkdf_extract :: "bytes \<Rightarrow> bytes \<Rightarrow> bytes"
  p_hkdf_expand :: "bytes \<Rightarrow> bytes \<Rightarrow> nat \<Rightarrow> bytes"
  p_hmac_sha256 :: "bytes \<Rightarrow> bytes \<Rightarrow> bytes"
  p_aead_seal :: "bytes \<Rightarrow> bytes \<Rightarrow> bytes \<Rightarrow> bytes \<Rightarrow> bytes"
  p_aead_open :: "bytes \<Rightarrow> bytes \<Rightarrow> bytes \<Rightarrow> bytes \<Rightarrow> bytes option"
  p_ed_key_ok :: "bytes \<Rightarrow> bool"
  p_ed_verify :: "bytes \<Rightarrow> bytes \<Rightarrow> bytes \<Rightarrow> bool"
  p_ed_public :: "bytes \<Rightarrow> bytes"
  p_ed_sign :: "bytes \<Rightarrow> bytes \<Rightarrow> bytes"

definition sha256_ok :: "prims \<Rightarrow> bool" where
  "sha256_ok P \<longleftrightarrow> (\<forall>m. length (p_sha256 P m) = 32)"

definition hex_ok :: "prims \<Rightarrow> bool" where
  "hex_ok P \<longleftrightarrow> (\<forall>b. p_hex_decode P (p_hex_encode P b) = Some b)
     \<and> (\<forall>b. length (p_hex_encode P b) = 2 * length b)"

definition hex_digits :: string where
  "hex_digits = ''0123456789abcdef''"

definition hex_lower :: "prims \<Rightarrow> bool" where
  "hex_lower P \<longleftrightarrow> (\<forall>b. set (p_hex_encode P b) \<subseteq> set hex_digits)"

definition dh_ok :: "prims \<Rightarrow> bool" where
  "dh_ok P \<longleftrightarrow> (\<forall>a b. p_x25519 P a (p_x25519_pub P b) = p_x25519 P b (p_x25519_pub P a))
     \<and> (\<forall>a. length (p_x25519_pub P a) = 32)"

definition kdf_ok :: "prims \<Rightarrow> bool" where
  "kdf_ok P \<longleftrightarrow> (\<forall>k i l. length (p_hkdf_expand P k i l) = l)
     \<and> (\<forall>s m. length (p_hkdf_extract P s m) = 32) \<and> (\<forall>k m. length (p_hmac_sha256 P k m) = 32)"

definition aead_ok :: "prims \<Rightarrow> bool" where
  "aead_ok P \<longleftrightarrow> (\<forall>k n a m. p_aead_open P k n a (p_aead_seal P k n a m) = Some m)
     \<and> (\<forall>k n a m. length (p_aead_seal P k n a m) = length m + 16)"

definition ed_ok :: "prims \<Rightarrow> bool" where
  "ed_ok P \<longleftrightarrow> (\<forall>k m. p_ed_key_ok P (p_ed_public P k) \<and> p_ed_verify P (p_ed_public P k) m (p_ed_sign P k m)
     \<and> length (p_ed_public P k) = 32 \<and> length (p_ed_sign P k m) = 64)"

text \<open>
  ChaCha20-Poly1305 is deterministic: what opens is the sealing of what it opens to. Used where
  a theorem says what an accepted message must look like.
\<close>

definition aead_exact :: "prims \<Rightarrow> bool" where
  "aead_exact P \<longleftrightarrow> (\<forall>k n a c m. p_aead_open P k n a c = Some m \<longrightarrow> c = p_aead_seal P k n a m)"

text \<open>ASCII text as bytes, for the protocol's literal tags.\<close>

definition ascii :: "string \<Rightarrow> bytes" where
  "ascii s = map (\<lambda>c. of_nat (of_char c)) s"

lemma length_ascii [simp]: "length (ascii s) = length s"
  by (simp add: ascii_def)

lemma ascii_append [simp]: "ascii (s @ t) = ascii s @ ascii t"
  by (simp add: ascii_def)

lemma ascii_inject: "ascii s = ascii t \<longleftrightarrow> s = t"
proof
  assume h: "ascii s = ascii t"
  have inj: "inj (\<lambda>c::char. (of_nat (of_char c) :: u8))"
  proof (rule injI)
    fix c d :: char
    assume "(of_nat (of_char c) :: u8) = of_nat (of_char d)"
    then have "unat (of_nat (of_char c) :: u8) = unat (of_nat (of_char d) :: u8)" by simp
    moreover have "(of_char x :: nat) < 2 ^ LENGTH(8)" for x :: char
      using nat_of_char_less_256 [of x] by simp
    ultimately show "c = d" by simp
  qed
  from h show "s = t" unfolding ascii_def using inj by (simp add: inj_map_eq_map)
qed simp

text \<open>A concrete instance of the primitives, at which the witnesses evaluate.\<close>

definition hex_digit :: "nat \<Rightarrow> char" where
  "hex_digit n = (if n < 10 then char_of (48 + n) else char_of (87 + n))"

definition hex_val :: "char \<Rightarrow> nat option" where
  "hex_val c = (let n = of_char c :: nat in
     if 48 \<le> n \<and> n \<le> 57 then Some (n - 48)
     else if 97 \<le> n \<and> n \<le> 102 then Some (n - 87)
     else if 65 \<le> n \<and> n \<le> 70 then Some (n - 55) else None)"

fun toy_hex_encode :: "bytes \<Rightarrow> string" where
  "toy_hex_encode [] = []"
| "toy_hex_encode (b # bs) = hex_digit (unat b div 16) # hex_digit (unat b mod 16) # toy_hex_encode bs"

fun toy_hex_decode :: "string \<Rightarrow> bytes option" where
  "toy_hex_decode [] = Some []"
| "toy_hex_decode [c] = None"
| "toy_hex_decode (c # d # s) =
     (case (hex_val c, hex_val d, toy_hex_decode s) of
        (Some h, Some l, Some bs) \<Rightarrow> Some (of_nat (16 * h + l) # bs)
      | _ \<Rightarrow> None)"

lemma hex_val_digit: "n < 16 \<Longrightarrow> hex_val (hex_digit n) = Some n"
  by (auto simp: hex_val_def hex_digit_def Let_def)

lemma toy_hex_decode_encode: "toy_hex_decode (toy_hex_encode bs) = Some bs"
proof (induction bs)
  case (Cons b bs)
  have "unat b < 256" using unsigned_less [of b, where ?'a = nat] by simp
  then have "unat b div 16 < 16" "unat b mod 16 < 16" by (simp_all add: less_mult_imp_div_less)
  then show ?case
    using Cons by (simp add: hex_val_digit)
qed simp

lemma hex_digit_lower: "n < 16 \<Longrightarrow> hex_digit n \<in> set hex_digits"
proof -
  have "\<forall>n \<in> set [0..<16]. hex_digit n \<in> set hex_digits" by code_simp
  then show "n < 16 \<Longrightarrow> hex_digit n \<in> set hex_digits" by simp
qed

lemma set_toy_hex_encode: "set (toy_hex_encode bs) \<subseteq> set hex_digits"
proof (induction bs)
  case (Cons b bs)
  have "unat b < 256" using unsigned_less [of b, where ?'a = nat] by simp
  then have "unat b div 16 < 16" "unat b mod 16 < 16" by (simp_all add: less_mult_imp_div_less)
  from this [THEN hex_digit_lower] Cons show ?case by simp
qed simp

lemma length_toy_hex_encode: "length (toy_hex_encode bs) = 2 * length bs"
  by (induction bs) simp_all

definition toy_prims :: prims where
  "toy_prims = \<lparr>
     p_sha256 = (\<lambda>m. replicate 31 0 @ [foldl (+) 0 m]),
     p_chacha20 = (\<lambda>k n i. foldl (+) (of_nat i + 1) (k @ n)),
     p_hex_encode = toy_hex_encode,
     p_hex_decode = toy_hex_decode,
     p_x25519 = (\<lambda>a b. [foldl (+) 0 a * foldl (+) 0 b]),
     p_x25519_pub = (\<lambda>a. foldl (+) 0 a # replicate 31 0),
     p_hkdf_extract = (\<lambda>s m. replicate 31 0 @ [foldl (+) 0 (s @ m)]),
     p_hkdf_expand = (\<lambda>k i l. replicate l (foldl (+) 0 (k @ i))),
     p_hmac_sha256 = (\<lambda>k m. replicate 31 0 @ [foldl (+) 0 (k @ m)]),
     p_aead_seal = (\<lambda>k n a m. m @ replicate 16 (foldl (+) 0 (k @ n @ a))),
     p_aead_open = (\<lambda>k n a c. if 16 \<le> length c
        \<and> drop (length c - 16) c = replicate 16 (foldl (+) 0 (k @ n @ a))
        then Some (take (length c - 16) c) else None),
     p_ed_key_ok = (\<lambda>k. True),
     p_ed_verify = (\<lambda>k m s. s = replicate 32 (foldl (+) 0 m) @ k),
     p_ed_public = (\<lambda>k. foldl (+) 0 k # replicate 31 0),
     p_ed_sign = (\<lambda>k m. replicate 32 (foldl (+) 0 m) @ foldl (+) 0 k # replicate 31 0)
   \<rparr>"

lemma foldl_plus_replicate0: "foldl (+) (x :: u8) (replicate n 0) = x"
  by (induction n arbitrary: x) auto

lemma toy_ok [simp]:
  "sha256_ok toy_prims" "hex_ok toy_prims" "dh_ok toy_prims"
  "kdf_ok toy_prims" "aead_ok toy_prims" "ed_ok toy_prims" "aead_exact toy_prims"
  "hex_lower toy_prims"
proof -
  show "sha256_ok toy_prims" by (simp add: sha256_ok_def toy_prims_def)
  show "hex_ok toy_prims"
    by (simp add: hex_ok_def toy_prims_def toy_hex_decode_encode length_toy_hex_encode)
  show "hex_lower toy_prims" using set_toy_hex_encode by (simp add: hex_lower_def toy_prims_def)
  show "dh_ok toy_prims"
    by (simp add: dh_ok_def toy_prims_def foldl_plus_replicate0 mult.commute)
  show "kdf_ok toy_prims" by (simp add: kdf_ok_def toy_prims_def)
  show "aead_ok toy_prims" by (simp add: aead_ok_def toy_prims_def)
  show "ed_ok toy_prims" by (simp add: ed_ok_def toy_prims_def)
  show "aead_exact toy_prims"
    by (auto simp: aead_exact_def toy_prims_def split: if_splits) (metis append_take_drop_id)
qed

end
