(* ===== verification/StdNet.thy ===== *)
theory StdNet
  imports Prelude
begin

section \<open>Text, numbers and addresses of the Rust standard library\<close>

text \<open>
  What the sources use of \<open>std\<close>: strings as their UTF-8 bytes and
  \<open>String::from_utf8_lossy\<close>, \<open>str::parse\<close> for unsigned integers, the text form of
  IPv4 and IPv6 addresses (\<open>Ipv4Addr\<close>, \<open>Ipv6Addr\<close>, \<open>IpAddr\<close>: \<open>FromStr\<close> and, for IPv4,
  \<open>Display\<close>), and their classification methods. The parsers follow the algorithm of
  \<open>core::net::parser\<close>.
\<close>

subsection \<open>Text\<close>

text \<open>A string is the list of its UTF-8 bytes, each as a \<open>char\<close>.\<close>

definition text_of :: "bytes \<Rightarrow> string" where
  "text_of bs = map (\<lambda>b. char_of (unat b)) bs"

lemma ascii_text_of [simp]: "ascii (text_of bs) = bs"
proof -
  have "(of_nat (of_char (char_of (unat b) :: char)) :: u8) = b" for b :: u8
    using unsigned_less [of b, where ?'a = nat] by simp
  then show ?thesis by (simp add: ascii_def text_of_def comp_def)
qed

lemma text_of_ascii [simp]: "text_of (ascii s) = s"
  by (metis ascii_inject ascii_text_of)

definition utf8_cont :: "u8 \<Rightarrow> bool" where
  "utf8_cont b \<longleftrightarrow> 0x80 \<le> b \<and> b \<le> 0xBF"

text \<open>
  The character that starts with \<open>b\<close>: whether it is well formed, and how many of the
  following bytes belong to it or to its longest valid prefix.
\<close>

definition utf8_step :: "u8 \<Rightarrow> bytes \<Rightarrow> bool \<times> nat" where
  "utf8_step b bs =
     (let c1 = (case bs of x # _ \<Rightarrow> utf8_cont x | _ \<Rightarrow> False);
          c2 = (case bs of _ # y # _ \<Rightarrow> utf8_cont y | _ \<Rightarrow> False);
          c3 = (case bs of _ # _ # z # _ \<Rightarrow> utf8_cont z | _ \<Rightarrow> False);
          x = (case bs of x # _ \<Rightarrow> x | _ \<Rightarrow> 0);
          ok3 = (c1 \<and> ((b = 0xE0 \<and> 0xA0 \<le> x) \<or> (0xE1 \<le> b \<and> b \<le> 0xEC)
                 \<or> (b = 0xED \<and> x \<le> 0x9F) \<or> b = 0xEE \<or> b = 0xEF));
          ok4 = (c1 \<and> ((b = 0xF0 \<and> 0x90 \<le> x) \<or> (0xF1 \<le> b \<and> b \<le> 0xF3)
                 \<or> (b = 0xF4 \<and> x \<le> 0x8F)))
      in if b < 0x80 then (True, 0)
         else if 0xC2 \<le> b \<and> b \<le> 0xDF then (if c1 then (True, 1) else (False, 0))
         else if 0xE0 \<le> b \<and> b \<le> 0xEF then
           (if \<not> ok3 then (False, 0) else if \<not> c2 then (False, 1) else (True, 2))
         else if 0xF0 \<le> b \<and> b \<le> 0xF4 then
           (if \<not> ok4 then (False, 0) else if \<not> c2 then (False, 1)
            else if \<not> c3 then (False, 2) else (True, 3))
         else (False, 0))"

fun utf8_lossy_bytes :: "bytes \<Rightarrow> bytes" where
  "utf8_lossy_bytes [] = []"
| "utf8_lossy_bytes (b # bs) =
     (case utf8_step b bs of (ok, n) \<Rightarrow>
        (if ok then b # take n bs else [0xEF, 0xBF, 0xBD]) @ utf8_lossy_bytes (drop n bs))"

definition from_utf8_lossy :: "bytes \<Rightarrow> string" where
  "from_utf8_lossy bs = text_of (utf8_lossy_bytes bs)"

lemma utf8_lossy_ascii: "\<forall>b \<in> set bs. b < 0x80 \<Longrightarrow> utf8_lossy_bytes bs = bs"
  by (induction bs) (simp_all add: utf8_step_def)

subsection \<open>Digits\<close>

definition digit_val :: "nat \<Rightarrow> char \<Rightarrow> nat option" where
  "digit_val radix c =
     (let n = of_char c :: nat;
          d = (if 48 \<le> n \<and> n \<le> 57 then n - 48
               else if 97 \<le> n \<and> n \<le> 122 then n - 87
               else if 65 \<le> n \<and> n \<le> 90 then n - 55 else 100)
      in if d < radix then Some d else None)"

fun span_digits :: "nat \<Rightarrow> string \<Rightarrow> nat list \<times> string" where
  "span_digits radix [] = ([], [])"
| "span_digits radix (c # s) =
     (case digit_val radix c of
        None \<Rightarrow> ([], c # s)
      | Some d \<Rightarrow> (let (ds, r) = span_digits radix s in (d # ds, r)))"

definition digits_value :: "nat \<Rightarrow> nat list \<Rightarrow> nat" where
  "digits_value radix ds = foldl (\<lambda>acc d. acc * radix + d) 0 ds"

text \<open>\<open>Parser::read_number\<close>: at most \<open>maxd\<close> digits, below \<open>bound\<close>.\<close>

definition read_number ::
  "nat \<Rightarrow> nat \<Rightarrow> bool \<Rightarrow> nat \<Rightarrow> string \<Rightarrow> (nat \<times> string) option" where
  "read_number radix maxd allow_zero_prefix bound s =
     (let (ds, r) = span_digits radix s in
      if ds = [] \<or> maxd < length ds \<or> bound \<le> digits_value radix ds
         \<or> (\<not> allow_zero_prefix \<and> hd ds = 0 \<and> 1 < length ds)
      then None else Some (digits_value radix ds, r))"

text \<open>\<open>str::parse\<close> to an unsigned integer below \<open>bound\<close>: an optional plus sign, then digits.\<close>

definition parse_uint :: "nat \<Rightarrow> string \<Rightarrow> nat option" where
  "parse_uint bound s =
     (let body = (case s of CHR ''+'' # r \<Rightarrow> r | _ \<Rightarrow> s);
          (ds, r) = span_digits 10 body
      in if ds = [] \<or> r \<noteq> [] \<or> bound \<le> digits_value 10 ds then None
         else Some (digits_value 10 ds))"

definition parse_u16 :: "string \<Rightarrow> u16 option" where
  "parse_u16 s = map_option of_nat (parse_uint 65536 s)"

definition parse_u8 :: "string \<Rightarrow> u8 option" where
  "parse_u8 s = map_option of_nat (parse_uint 256 s)"

definition digit_char :: "nat \<Rightarrow> char" where
  "digit_char d = char_of (48 + d)"

fun show_dec :: "nat \<Rightarrow> string" where
  "show_dec n = (if n < 10 then [digit_char n] else show_dec (n div 10) @ [digit_char (n mod 10)])"

declare show_dec.simps [simp del]

subsection \<open>IPv4\<close>

datatype ipv4 = Ipv4 (oct0: u8) (oct1: u8) (oct2: u8) (oct3: u8)

definition read_sep :: "char \<Rightarrow> nat \<Rightarrow> (string \<Rightarrow> ('a \<times> string) option) \<Rightarrow> string \<Rightarrow> ('a \<times> string) option" where
  "read_sep c i p s =
     (if i = 0 then p s
      else case s of [] \<Rightarrow> None | d # r \<Rightarrow> if d = c then p r else None)"

definition read_octet :: "string \<Rightarrow> (nat \<times> string) option" where
  "read_octet s = read_number 10 3 False 256 s"

definition read_ipv4 :: "string \<Rightarrow> (ipv4 \<times> string) option" where
  "read_ipv4 s =
     (case read_sep CHR ''.'' 0 read_octet s of None \<Rightarrow> None | Some (a, s1) \<Rightarrow>
      (case read_sep CHR ''.'' 1 read_octet s1 of None \<Rightarrow> None | Some (b, s2) \<Rightarrow>
       (case read_sep CHR ''.'' 2 read_octet s2 of None \<Rightarrow> None | Some (c, s3) \<Rightarrow>
        (case read_sep CHR ''.'' 3 read_octet s3 of None \<Rightarrow> None | Some (d, s4) \<Rightarrow>
           Some (Ipv4 (of_nat a) (of_nat b) (of_nat c) (of_nat d), s4)))))"

definition parse_ipv4 :: "string \<Rightarrow> ipv4 option" where
  "parse_ipv4 s = (if 15 < length s then None
     else case read_ipv4 s of Some (a, []) \<Rightarrow> Some a | _ \<Rightarrow> None)"

definition show_octet :: "u8 \<Rightarrow> string" where
  "show_octet b = show_dec (unat b)"

definition show_ipv4 :: "ipv4 \<Rightarrow> string" where
  "show_ipv4 a = show_octet (oct0 a) @ ''.'' @ show_octet (oct1 a) @ ''.''
     @ show_octet (oct2 a) @ ''.'' @ show_octet (oct3 a)"

definition octets :: "ipv4 \<Rightarrow> bytes" where
  "octets a = [oct0 a, oct1 a, oct2 a, oct3 a]"

subsection \<open>IPv6\<close>

text \<open>An \<open>Ipv6Addr\<close> is its eight 16-bit segments.\<close>

type_synonym ipv6 = "u16 list"

fun read_groups :: "nat \<Rightarrow> nat \<Rightarrow> string \<Rightarrow> u16 list \<times> bool \<times> string" where
  "read_groups 0 i s = ([], False, s)"
| "read_groups (Suc k) i s =
     (case (if 0 < k then read_sep CHR '':'' i read_ipv4 s else None) of
        Some (a, s') \<Rightarrow>
          ([push_bit 8 (ucast (oct0 a)) OR ucast (oct1 a),
            push_bit 8 (ucast (oct2 a)) OR ucast (oct3 a)], True, s')
      | None \<Rightarrow>
          (case read_sep CHR '':'' i (read_number 16 4 True 65536) s of
             Some (g, s') \<Rightarrow>
               (let (gs, v4, s'') = read_groups k (Suc i) s' in (of_nat g # gs, v4, s''))
           | None \<Rightarrow> ([], False, s)))"

definition read_ipv6 :: "string \<Rightarrow> (ipv6 \<times> string) option" where
  "read_ipv6 s =
     (let (hd8, v4, s1) = read_groups 8 0 s in
      if length hd8 = 8 then Some (hd8, s1)
      else if v4 then None
      else case s1 of
          CHR '':'' # CHR '':'' # s2 \<Rightarrow>
            (let (tl8, _, s3) = read_groups (8 - (length hd8 + 1)) 0 s2 in
             Some (hd8 @ replicate (8 - length hd8 - length tl8) 0 @ tl8, s3))
        | _ \<Rightarrow> None)"

definition parse_ipv6 :: "string \<Rightarrow> ipv6 option" where
  "parse_ipv6 s = (case read_ipv6 s of Some (a, []) \<Rightarrow> Some a | _ \<Rightarrow> None)"

datatype ip_addr = V4 ipv4 | V6 ipv6

definition parse_ip :: "string \<Rightarrow> ip_addr option" where
  "parse_ip s =
     (case read_ipv4 s of
        Some (a, r) \<Rightarrow> if r = [] then Some (V4 a) else None
      | None \<Rightarrow> (case read_ipv6 s of Some (a, []) \<Rightarrow> Some (V6 a) | _ \<Rightarrow> None))"

subsection \<open>Parsing what was printed\<close>

fun no_digit_head :: "string \<Rightarrow> bool" where
  "no_digit_head [] = True"
| "no_digit_head (c # s) = (digit_val 10 c = None)"

lemma span_digits_append:
  "span_digits 10 s = (ds, []) \<Longrightarrow> no_digit_head r \<Longrightarrow> span_digits 10 (s @ r) = (ds, r)"
proof (induction s arbitrary: ds)
  case Nil
  then show ?case by (cases r) auto
next
  case (Cons c s)
  then show ?case by (auto split: option.splits prod.splits)
qed

lemma digit_val_char [simp]: "d < 10 \<Longrightarrow> digit_val 10 (digit_char d) = Some d"
  by (simp add: digit_val_def digit_char_def Let_def)

lemma octet_digits:
  assumes "n < 256"
  obtains ds where "span_digits 10 (show_dec n) = (ds, [])" "ds \<noteq> []" "length ds \<le> 3"
    "digits_value 10 ds = n" "hd ds = 0 \<longrightarrow> length ds = 1" "length (show_dec n) \<le> 3"
proof -
  consider "n < 10" | "10 \<le> n" "n < 100" | "100 \<le> n" by linarith
  then show thesis
  proof cases
    case 1
    then have e: "show_dec n = [digit_char n]" by (subst show_dec.simps) simp
    show thesis by (rule that [of "[n]"]) (use 1 in \<open>simp_all add: e digits_value_def\<close>)
  next
    case 2
    then have q: "n div 10 < 10" "0 < n div 10" by auto
    then have "show_dec (n div 10) = [digit_char (n div 10)]" by (subst show_dec.simps) simp
    then have e: "show_dec n = [digit_char (n div 10), digit_char (n mod 10)]"
      using 2 by (subst show_dec.simps) simp
    show thesis
      by (rule that [of "[n div 10, n mod 10]"]) (use q in \<open>simp_all add: e digits_value_def\<close>)
  next
    case 3
    have q: "n div 10 div 10 < 10" "0 < n div 10 div 10" "10 \<le> n div 10"
      using 3 assms by auto
    then have "show_dec (n div 10 div 10) = [digit_char (n div 10 div 10)]"
      by (subst show_dec.simps) simp
    then have "show_dec (n div 10) = [digit_char (n div 10 div 10), digit_char (n div 10 mod 10)]"
      using q by (subst show_dec.simps) simp
    then have e: "show_dec n =
        [digit_char (n div 10 div 10), digit_char (n div 10 mod 10), digit_char (n mod 10)]"
      using 3 by (subst show_dec.simps) simp
    obtain x y z where xyz: "x = n div 10 div 10" "y = n div 10 mod 10" "z = n mod 10" by blast
    have v: "digits_value 10 [x, y, z] = n"
      unfolding xyz digits_value_def by simp
    have d: "x < 10" "y < 10" "z < 10" "x \<noteq> 0" using q unfolding xyz by simp_all
    note e = e [folded xyz]
    show thesis
      by (rule that [of "[x, y, z]", OF _ _ _ v]) (use d in \<open>simp_all add: e\<close>)
  qed
qed

lemma read_octet_show:
  assumes "no_digit_head r"
  shows "read_octet (show_octet b @ r) = Some (unat b, r)"
proof -
  have lt: "unat b < 256" using unsigned_less [of b, where ?'a = nat] by simp
  define n where "n = unat b"
  from lt have "n < 256" by (simp add: n_def)
  then obtain ds where ds: "span_digits 10 (show_dec n) = (ds, [])"
    and p: "ds \<noteq> []" "length ds \<le> 3" "digits_value 10 ds = n" "hd ds = 0 \<longrightarrow> length ds = 1"
    using octet_digits [of n] by metis
  from span_digits_append [OF ds assms] have e: "span_digits 10 (show_dec n @ r) = (ds, r)" .
  have "\<not> (hd ds = 0 \<and> 1 < length ds)" using p(4) by linarith
  then have "read_octet (show_dec n @ r) = Some (n, r)"
    using p \<open>n < 256\<close> unfolding read_octet_def read_number_def e Let_def prod.case by simp
  then show ?thesis by (simp add: show_octet_def n_def)
qed

lemma length_show_octet: "length (show_octet b) \<le> 3"
proof -
  have lt: "unat b < 256" using unsigned_less [of b, where ?'a = nat] by simp
  show ?thesis unfolding show_octet_def by (rule octet_digits [OF lt])
qed

lemma dot_no_digit: "no_digit_head (CHR ''.'' # s)"
  by (simp add: digit_val_def)

lemma read_ipv4_show:
  assumes "no_digit_head r"
  shows "read_ipv4 (show_ipv4 a @ r) = Some (a, r)"
proof -
  have o: "read_octet (show_octet b @ CHR ''.'' # s) = Some (unat b, CHR ''.'' # s)" for b s
    by (rule read_octet_show) (rule dot_no_digit)
  show ?thesis
    by (cases a) (simp add: read_ipv4_def show_ipv4_def read_sep_def o read_octet_show [OF assms])
qed

lemma parse_ipv4_show [simp]: "parse_ipv4 (show_ipv4 a) = Some a"
proof -
  have "length (show_ipv4 a) \<le> 15"
    using length_show_octet [of "oct0 a"] length_show_octet [of "oct1 a"]
      length_show_octet [of "oct2 a"] length_show_octet [of "oct3 a"]
    by (simp add: show_ipv4_def)
  with read_ipv4_show [of "[]" a] show ?thesis by (simp add: parse_ipv4_def)
qed

lemma parse_ip_show_v4 [simp]: "parse_ip (show_ipv4 a) = Some (V4 a)"
  using read_ipv4_show [of "[]" a] by (simp add: parse_ip_def)

lemma read_groups_length: "read_groups k i s = (gs, v, r) \<Longrightarrow> length gs \<le> k"
proof (induction k i s arbitrary: gs v r rule: read_groups.induct)
  case (1 i s)
  then show ?case by simp
next
  case (2 k i s)
  show ?case
  proof (cases "if 0 < k then read_sep CHR '':'' i read_ipv4 s else None")
    case None
    with 2 show ?thesis
      by (fastforce split: option.splits prod.splits if_splits)
  next
    case (Some p)
    then have "0 < k" by (auto split: if_splits)
    with 2 Some show ?thesis by (auto split: prod.splits)
  qed
qed

lemma read_ipv6_length: "read_ipv6 s = Some (a, r) \<Longrightarrow> length a = 8"
proof -
  assume h: "read_ipv6 s = Some (a, r)"
  obtain hd8 v4 s1 where g: "read_groups 8 0 s = (hd8, v4, s1)" by (metis prod_cases3)
  have le: "length hd8 \<le> 8" using read_groups_length [OF g] .
  show ?thesis
  proof (cases "length hd8 = 8")
    case True
    with h g show ?thesis by (simp add: read_ipv6_def)
  next
    case False
    then have lt: "length hd8 < 8" using le by simp
    from h g False obtain s2 where "\<not> v4" and s1: "s1 = CHR '':'' # CHR '':'' # s2"
      by (auto simp: read_ipv6_def split: if_splits list.splits char.splits bool.splits)
    obtain tl8 w s3 where t: "read_groups (8 - (length hd8 + 1)) 0 s2 = (tl8, w, s3)"
      by (metis prod_cases3)
    have "length tl8 \<le> 8 - (length hd8 + 1)" using read_groups_length [OF t] .
    with h g False s1 t \<open>\<not> v4\<close> lt show ?thesis by (auto simp: read_ipv6_def)
  qed
qed

subsection \<open>Address classes\<close>

text \<open>The classification methods of \<open>Ipv4Addr\<close> and \<open>Ipv6Addr\<close> that the code calls.\<close>

fun v4_is_loopback :: "ipv4 \<Rightarrow> bool" where
  "v4_is_loopback (Ipv4 a b c d) = (a = 127)"

fun v4_is_private :: "ipv4 \<Rightarrow> bool" where
  "v4_is_private (Ipv4 a b c d) =
     (a = 10 \<or> (a = 172 \<and> 16 \<le> b \<and> b \<le> 31) \<or> (a = 192 \<and> b = 168))"

fun v4_is_link_local :: "ipv4 \<Rightarrow> bool" where
  "v4_is_link_local (Ipv4 a b c d) = (a = 169 \<and> b = 254)"

fun v4_is_multicast :: "ipv4 \<Rightarrow> bool" where
  "v4_is_multicast (Ipv4 a b c d) = (224 \<le> a \<and> a \<le> 239)"

fun v4_is_broadcast :: "ipv4 \<Rightarrow> bool" where
  "v4_is_broadcast (Ipv4 a b c d) = (a = 255 \<and> b = 255 \<and> c = 255 \<and> d = 255)"

fun v4_is_documentation :: "ipv4 \<Rightarrow> bool" where
  "v4_is_documentation (Ipv4 a b c d) =
     ((a = 192 \<and> b = 0 \<and> c = 2) \<or> (a = 198 \<and> b = 51 \<and> c = 100) \<or> (a = 203 \<and> b = 0 \<and> c = 113))"

fun v4_is_unspecified :: "ipv4 \<Rightarrow> bool" where
  "v4_is_unspecified (Ipv4 a b c d) = (a = 0 \<and> b = 0 \<and> c = 0 \<and> d = 0)"

definition v6_is_loopback :: "ipv6 \<Rightarrow> bool" where
  "v6_is_loopback s \<longleftrightarrow> s = replicate 7 0 @ [1]"

definition v6_is_multicast :: "ipv6 \<Rightarrow> bool" where
  "v6_is_multicast s \<longleftrightarrow> (s ! 0) AND 0xFF00 = 0xFF00"

definition v6_is_unspecified :: "ipv6 \<Rightarrow> bool" where
  "v6_is_unspecified s \<longleftrightarrow> s = replicate 8 0"

end
