(* ===== verification/Circuit.thy ===== *)
theory Circuit
  imports StdNet
begin

section \<open>Cells, relay cells and onion layers\<close>

text \<open>
  phinet-core/src/circuit.rs: the 512-byte cell, the relay cell inside its payload with
  its rolling digest, the per-hop symmetric state and the ChaCha20 layers, and the
  EXTEND2 and EXTENDED2 payloads. A \<open>Sha256\<close> value is the list of bytes it has
  absorbed; its tag is \<open>p_sha256\<close> of them. \<open>Zeroizing\<close> wrappers are dropped.
\<close>

subsection \<open>Cells\<close>

definition CELL_SIZE :: nat where [simp]: "CELL_SIZE = 512"
definition CELL_HEADER :: nat where [simp]: "CELL_HEADER = 5"
definition CELL_PAYLOAD :: nat where [simp]: "CELL_PAYLOAD = CELL_SIZE - CELL_HEADER"
definition RELAY_HEADER :: nat where [simp]: "RELAY_HEADER = 11"
definition RELAY_DATA_MAX :: nat where [simp]: "RELAY_DATA_MAX = CELL_PAYLOAD - RELAY_HEADER"
definition MAX_HOPS :: nat where [simp]: "MAX_HOPS = 5"
definition CIRCUIT_IDLE_TIMEOUT :: duration where "CIRCUIT_IDLE_TIMEOUT = secs 3600"
definition MAX_RELAY_EARLY :: u32 where [simp]: "MAX_RELAY_EARLY = of_nat MAX_HOPS"

datatype cell_command =
  CPadding | CCreate | CCreated | CRelay | CDestroy | CRelayEarly | CVersions | CNetInfo

fun cell_command_byte :: "cell_command \<Rightarrow> u8" where
  "cell_command_byte CPadding = 0"
| "cell_command_byte CCreate = 1"
| "cell_command_byte CCreated = 2"
| "cell_command_byte CRelay = 3"
| "cell_command_byte CDestroy = 4"
| "cell_command_byte CRelayEarly = 5"
| "cell_command_byte CVersions = 6"
| "cell_command_byte CNetInfo = 7"

definition cell_command_from_byte :: "u8 \<Rightarrow> cell_command result" where
  "cell_command_from_byte b =
     (if b = 0 then Inr CPadding
      else if b = 1 then Inr CCreate
      else if b = 2 then Inr CCreated
      else if b = 3 then Inr CRelay
      else if b = 4 then Inr CDestroy
      else if b = 5 then Inr CRelayEarly
      else if b = 6 then Inr CVersions
      else if b = 7 then Inr CNetInfo
      else Inl (Crypto ''unknown cell cmd: ''))"

datatype circuit_id = CircuitId (cid_val: u32)

definition cid_NONE :: circuit_id where "cid_NONE = CircuitId 0"

definition cid_is_valid :: "circuit_id \<Rightarrow> bool" where
  "cid_is_valid c \<longleftrightarrow> cid_val c \<noteq> 0"

instantiation circuit_id :: linorder
begin

definition less_eq_circuit_id :: "circuit_id \<Rightarrow> circuit_id \<Rightarrow> bool" where
  "less_eq_circuit_id a b \<longleftrightarrow> cid_val a \<le> cid_val b"

definition less_circuit_id :: "circuit_id \<Rightarrow> circuit_id \<Rightarrow> bool" where
  "less_circuit_id a b \<longleftrightarrow> cid_val a < cid_val b"

instance
  by standard
    (auto simp: less_eq_circuit_id_def less_circuit_id_def circuit_id.expand)

end

record cell =
  c_circ_id :: circuit_id
  c_command :: cell_command
  c_payload :: bytes

definition cell_wf :: "cell \<Rightarrow> bool" where
  "cell_wf c \<longleftrightarrow> length (c_payload c) = CELL_PAYLOAD"

definition cell_new :: "circuit_id \<Rightarrow> cell_command \<Rightarrow> cell" where
  "cell_new cid cmd = \<lparr> c_circ_id = cid, c_command = cmd, c_payload = replicate CELL_PAYLOAD 0 \<rparr>"

definition cell_with_payload :: "circuit_id \<Rightarrow> cell_command \<Rightarrow> bytes \<Rightarrow> cell result" where
  "cell_with_payload cid cmd data =
     (if CELL_PAYLOAD < length data then Inl (Crypto ''cell payload too large: '')
      else Inr \<lparr> c_circ_id = cid, c_command = cmd,
                 c_payload = data @ replicate (CELL_PAYLOAD - length data) 0 \<rparr>)"

definition cell_to_bytes :: "cell \<Rightarrow> bytes" where
  "cell_to_bytes c = to_le (cid_val (c_circ_id c)) @ [cell_command_byte (c_command c)] @ c_payload c"

definition cell_from_bytes :: "bytes \<Rightarrow> cell result" where
  "cell_from_bytes buf =
     and_then (cell_command_from_byte (buf ! 4)) (\<lambda>command.
       Inr \<lparr> c_circ_id = CircuitId (of_le (slice 0 4 buf)), c_command = command,
             c_payload = drop 5 buf \<rparr>)"

subsection \<open>Relay cells\<close>

datatype relay_command =
  RBegin | RData | REnd | RConnected | RSendMe | RExtend2 | RExtended2 | RTruncate
  | RTruncated | RDrop | RComInject | REstablishIntro | REstablishRendezvous | RIntroduce1
  | RIntroduce2 | RRendezvous1 | RRendezvous2 | RIntroEstablished | RRendezvousEstablished
  | RIntroduceAck

fun relay_command_byte :: "relay_command \<Rightarrow> u8" where
  "relay_command_byte RBegin = 1"
| "relay_command_byte RData = 2"
| "relay_command_byte REnd = 3"
| "relay_command_byte RConnected = 4"
| "relay_command_byte RSendMe = 5"
| "relay_command_byte RExtend2 = 6"
| "relay_command_byte RExtended2 = 7"
| "relay_command_byte RTruncate = 8"
| "relay_command_byte RTruncated = 9"
| "relay_command_byte RDrop = 10"
| "relay_command_byte RComInject = 11"
| "relay_command_byte REstablishIntro = 32"
| "relay_command_byte REstablishRendezvous = 33"
| "relay_command_byte RIntroduce1 = 34"
| "relay_command_byte RIntroduce2 = 35"
| "relay_command_byte RRendezvous1 = 36"
| "relay_command_byte RRendezvous2 = 37"
| "relay_command_byte RIntroEstablished = 38"
| "relay_command_byte RRendezvousEstablished = 39"
| "relay_command_byte RIntroduceAck = 40"

definition relay_command_from_byte :: "u8 \<Rightarrow> relay_command result" where
  "relay_command_from_byte b =
     (if b = 1 then Inr RBegin
      else if b = 2 then Inr RData
      else if b = 3 then Inr REnd
      else if b = 4 then Inr RConnected
      else if b = 5 then Inr RSendMe
      else if b = 6 then Inr RExtend2
      else if b = 7 then Inr RExtended2
      else if b = 8 then Inr RTruncate
      else if b = 9 then Inr RTruncated
      else if b = 10 then Inr RDrop
      else if b = 11 then Inr RComInject
      else if b = 32 then Inr REstablishIntro
      else if b = 33 then Inr REstablishRendezvous
      else if b = 34 then Inr RIntroduce1
      else if b = 35 then Inr RIntroduce2
      else if b = 36 then Inr RRendezvous1
      else if b = 37 then Inr RRendezvous2
      else if b = 38 then Inr RIntroEstablished
      else if b = 39 then Inr RRendezvousEstablished
      else if b = 40 then Inr RIntroduceAck
      else Inl (Crypto ''unknown relay cmd: ''))"

record relay_cell =
  r_command :: relay_command
  r_recognized :: u16
  r_stream_id :: u16
  r_digest :: u32
  r_data :: bytes

text \<open>Every relay cell the code builds or parses satisfies this bound.\<close>

definition relay_wf :: "relay_cell \<Rightarrow> bool" where
  "relay_wf r \<longleftrightarrow> length (r_data r) \<le> RELAY_DATA_MAX"

definition relay_new :: "relay_command \<Rightarrow> u16 \<Rightarrow> bytes \<Rightarrow> relay_cell result" where
  "relay_new cmd sid data =
     (if RELAY_DATA_MAX < length data then Inl (Crypto ''relay data too large: '')
      else Inr \<lparr> r_command = cmd, r_recognized = 0, r_stream_id = sid, r_digest = 0, r_data = data \<rparr>)"

text \<open>\<open>to_payload\<close> panics on data above \<open>RELAY_DATA_MAX\<close>; the model speaks of \<open>relay_wf\<close> cells.\<close>

definition relay_to_payload :: "relay_cell \<Rightarrow> bytes" where
  "relay_to_payload r =
     [relay_command_byte (r_command r)] @ to_be (r_recognized r) @ to_be (r_stream_id r)
     @ to_be (r_digest r) @ to_be (of_nat (length (r_data r)) :: u16) @ r_data r
     @ replicate (CELL_PAYLOAD - RELAY_HEADER - length (r_data r)) 0"

definition relay_from_payload :: "bytes \<Rightarrow> relay_cell result" where
  "relay_from_payload buf =
     and_then (relay_command_from_byte (buf ! 0)) (\<lambda>command.
       let recognized = of_be (slice 1 3 buf);
           stream_id = of_be (slice 3 5 buf);
           digest = of_be (slice 5 9 buf);
           len = unat (of_be (slice 9 11 buf) :: u16)
       in if RELAY_DATA_MAX < len then Inl (Crypto ''relay length field out of range: '')
          else Inr \<lparr> r_command = command, r_recognized = recognized, r_stream_id = stream_id,
                     r_digest = digest, r_data = slice 11 (11 + len) buf \<rparr>)"

text \<open>The cell's payload with the digest field (bytes 5 to 8) zeroed.\<close>

definition zero_digest :: "bytes \<Rightarrow> bytes" where
  "zero_digest buf = buf[5 := 0, 6 := 0, 7 := 0, 8 := 0]"

definition tag32 :: "prims \<Rightarrow> bytes \<Rightarrow> u32" where
  "tag32 P absorbed = of_be (take 4 (p_sha256 P absorbed))"

definition is_recognized_at :: "prims \<Rightarrow> relay_cell \<Rightarrow> bytes \<Rightarrow> bytes \<Rightarrow> bool" where
  "is_recognized_at P r payload running \<longleftrightarrow>
     r_recognized r = 0 \<and> tag32 P (running @ zero_digest payload) = r_digest r"

definition stamp_digest :: "prims \<Rightarrow> relay_cell \<Rightarrow> bytes \<Rightarrow> relay_cell \<times> bytes" where
  "stamp_digest P r running =
     (let r0 = r \<lparr> r_digest := 0 \<rparr>;
          running' = running @ zero_digest (relay_to_payload r0)
      in (r0 \<lparr> r_digest := tag32 P running' \<rparr>, running'))"


subsection \<open>Per-hop state and layers\<close>

text \<open>\<open>ntor::NtorKeys\<close> and \<open>rendezvous::E2EKeys\<close>, the two sources of a hop's keys.\<close>

record ntor_keys =
  k_forward_key :: bytes
  k_backward_key :: bytes
  k_forward_digest_seed :: bytes
  k_backward_digest_seed :: bytes

record e2e_keys =
  k_client_to_hs_key :: bytes
  k_hs_to_client_key :: bytes
  k_c2h_digest_seed :: bytes
  k_h2c_digest_seed :: bytes

record hop_state =
  h_forward_key :: bytes
  h_backward_key :: bytes
  h_forward_nonce :: u64
  h_backward_nonce :: u64
  h_forward_digest :: bytes
  h_backward_digest :: bytes

definition hop_from_ntor :: "ntor_keys \<Rightarrow> hop_state" where
  "hop_from_ntor keys = \<lparr>
     h_forward_key = k_forward_key keys, h_backward_key = k_backward_key keys,
     h_forward_nonce = 0, h_backward_nonce = 0,
     h_forward_digest = k_forward_digest_seed keys,
     h_backward_digest = k_backward_digest_seed keys \<rparr>"

definition hop_from_e2e_keys :: "e2e_keys \<Rightarrow> bool \<Rightarrow> hop_state" where
  "hop_from_e2e_keys keys is_client =
     (let (fwd_key, bwd_key, fwd_seed, bwd_seed) =
        (if is_client
         then (k_client_to_hs_key keys, k_hs_to_client_key keys,
               k_c2h_digest_seed keys, k_h2c_digest_seed keys)
         else (k_hs_to_client_key keys, k_client_to_hs_key keys,
               k_h2c_digest_seed keys, k_c2h_digest_seed keys))
      in \<lparr> h_forward_key = fwd_key, h_backward_key = bwd_key,
           h_forward_nonce = 0, h_backward_nonce = 0,
           h_forward_digest = fwd_seed, h_backward_digest = bwd_seed \<rparr>)"

definition nonce96 :: "u64 \<Rightarrow> bytes" where
  "nonce96 ctr = replicate 4 0 @ to_le ctr"

definition crypt_in_place :: "prims \<Rightarrow> bytes \<Rightarrow> u64 \<Rightarrow> bytes \<Rightarrow> bytes" where
  "crypt_in_place P key ctr buf =
     map2 (XOR) buf (map (p_chacha20 P key (nonce96 ctr)) [0..<length buf])"

definition onion_encrypt_forward :: "prims \<Rightarrow> hop_state \<Rightarrow> bytes \<Rightarrow> hop_state \<times> bytes" where
  "onion_encrypt_forward P hop payload =
     (hop \<lparr> h_forward_nonce := h_forward_nonce hop + 1 \<rparr>,
      crypt_in_place P (h_forward_key hop) (h_forward_nonce hop) payload)"

definition onion_decrypt_forward :: "prims \<Rightarrow> hop_state \<Rightarrow> bytes \<Rightarrow> hop_state \<times> bytes" where
  "onion_decrypt_forward P hop payload =
     (hop \<lparr> h_forward_nonce := h_forward_nonce hop + 1 \<rparr>,
      crypt_in_place P (h_forward_key hop) (h_forward_nonce hop) payload)"

definition onion_encrypt_backward :: "prims \<Rightarrow> hop_state \<Rightarrow> bytes \<Rightarrow> hop_state \<times> bytes" where
  "onion_encrypt_backward P hop payload =
     (hop \<lparr> h_backward_nonce := h_backward_nonce hop + 1 \<rparr>,
      crypt_in_place P (h_backward_key hop) (h_backward_nonce hop) payload)"

definition onion_decrypt_backward :: "prims \<Rightarrow> hop_state \<Rightarrow> bytes \<Rightarrow> hop_state \<times> bytes" where
  "onion_decrypt_backward P hop payload =
     (hop \<lparr> h_backward_nonce := h_backward_nonce hop + 1 \<rparr>,
      crypt_in_place P (h_backward_key hop) (h_backward_nonce hop) payload)"

subsection \<open>EXTEND2 and EXTENDED2\<close>

definition LSPEC_IPV4 :: u8 where [simp]: "LSPEC_IPV4 = 0"
definition LSPEC_NODE_ID :: u8 where [simp]: "LSPEC_NODE_ID = 2"
definition LSPEC_STATIC_PUB :: u8 where [simp]: "LSPEC_STATIC_PUB = 3"
definition HTYPE_NTOR :: u16 where [simp]: "HTYPE_NTOR = 2"

record link_spec =
  ls_host :: string
  ls_port :: u16
  ls_node_id :: bytes
  ls_static_pub :: bytes

definition link_spec_wf :: "link_spec \<Rightarrow> bool" where
  "link_spec_wf l \<longleftrightarrow> length (ls_node_id l) = 32 \<and> length (ls_static_pub l) = 32"

definition build_extend2 :: "link_spec \<Rightarrow> bytes \<Rightarrow> bytes" where
  "build_extend2 nxt ntor_client_msg =
     (let addr = (case parse_ipv4 (ls_host nxt) of Some a \<Rightarrow> a | None \<Rightarrow> Ipv4 127 0 0 1)
      in [3] @ [LSPEC_IPV4, 6] @ octets addr @ to_be (ls_port nxt)
         @ [LSPEC_NODE_ID, 32] @ ls_node_id nxt
         @ [LSPEC_STATIC_PUB, 32] @ ls_static_pub nxt
         @ to_be HTYPE_NTOR @ to_be (of_nat (length ntor_client_msg) :: u16) @ ntor_client_msg)"

text \<open>The locals of \<open>parse_extend2\<close> its loop over the specifiers assigns.\<close>

record ext2_acc =
  e_host :: string
  e_port :: u16
  e_node_id :: bytes
  e_static_pub :: bytes
  e_have_addr :: bool
  e_have_id :: bool

definition ext2_init :: ext2_acc where
  "ext2_init = \<lparr> e_host = [], e_port = 0, e_node_id = replicate 32 0,
     e_static_pub = replicate 32 0, e_have_addr = False, e_have_id = False \<rparr>"

definition ext2_spec :: "u8 \<Rightarrow> bytes \<Rightarrow> ext2_acc \<Rightarrow> ext2_acc" where
  "ext2_spec ty body acc =
     (if ty = LSPEC_IPV4 \<and> length body = 6 then
        acc \<lparr> e_host := show_octet (body ! 0) @ ''.'' @ show_octet (body ! 1) @ ''.''
                        @ show_octet (body ! 2) @ ''.'' @ show_octet (body ! 3),
              e_port := of_be [body ! 4, body ! 5], e_have_addr := True \<rparr>
      else if ty = LSPEC_NODE_ID \<and> length body = 32 then
        acc \<lparr> e_node_id := body, e_have_id := True \<rparr>
      else if ty = LSPEC_STATIC_PUB \<and> length body = 32 then
        acc \<lparr> e_static_pub := body \<rparr>
      else acc)"

text \<open>The loop; the list is \<open>&buf[i..]\<close>, the result also the rest after the last specifier.\<close>

fun ext2_specs :: "nat \<Rightarrow> bytes \<Rightarrow> ext2_acc \<Rightarrow> (ext2_acc \<times> bytes) result" where
  "ext2_specs 0 rest acc = Inr (acc, rest)"
| "ext2_specs (Suc n) rest acc =
     (case rest of
        ty # ln # rest' \<Rightarrow>
          if length rest' < unat ln then Inl (Crypto ''extend2: truncated spec body'')
          else ext2_specs n (drop (unat ln) rest') (ext2_spec ty (take (unat ln) rest') acc)
      | _ \<Rightarrow> Inl (Crypto ''extend2: truncated spec header''))"

definition parse_extend2 :: "bytes \<Rightarrow> (link_spec \<times> bytes) result" where
  "parse_extend2 buf =
     (case buf of
        [] \<Rightarrow> Inl (Crypto ''extend2: empty'')
      | nspec # rest0 \<Rightarrow>
          if unat nspec = 0 \<or> 8 < unat nspec then Inl (Crypto ''extend2: bad nspec '')
          else and_then (ext2_specs (unat nspec) rest0 ext2_init) (\<lambda>(acc, rest).
            if \<not> e_have_addr acc \<or> \<not> e_have_id acc
            then Inl (Crypto ''extend2: missing IPv4 or node_id spec'')
            else if length rest < 4 then Inl (Crypto ''extend2: truncated htype/hlen'')
            else (let htype = of_be (slice 0 2 rest) :: u16;
                      hlen = unat (of_be (slice 2 4 rest) :: u16)
                  in if htype \<noteq> HTYPE_NTOR then Inl (Crypto ''extend2: unknown htype '')
                     else if length rest < 4 + hlen then Inl (Crypto ''extend2: truncated hdata'')
                     else Inr (\<lparr> ls_host = e_host acc, ls_port = e_port acc,
                                 ls_node_id = e_node_id acc, ls_static_pub = e_static_pub acc \<rparr>,
                               slice 4 (4 + hlen) rest))))"

definition build_extended2 :: "bytes \<Rightarrow> bytes" where
  "build_extended2 reply = to_be (of_nat (length reply) :: u16) @ reply"

definition parse_extended2 :: "bytes \<Rightarrow> bytes result" where
  "parse_extended2 buf =
     (if length buf < 2 then Inl (Crypto ''extended2: too short'')
      else (let n = unat (of_be (slice 0 2 buf) :: u16)
            in if length buf < 2 + n then Inl (Crypto ''extended2: truncated hdata'')
               else Inr (slice 2 (2 + n) buf)))"

subsection \<open>Codec lemmas\<close>

lemma cell_command_roundtrip [simp]: "cell_command_from_byte (cell_command_byte c) = Inr c"
  by (cases c) (simp_all add: cell_command_from_byte_def)

lemma cell_command_from_byteD: "cell_command_from_byte b = Inr c \<Longrightarrow> cell_command_byte c = b"
  by (auto simp: cell_command_from_byte_def split: if_splits)

lemma relay_command_roundtrip [simp]: "relay_command_from_byte (relay_command_byte c) = Inr c"
  by (cases c) (simp_all add: relay_command_from_byte_def)

lemma relay_command_from_byteD: "relay_command_from_byte b = Inr c \<Longrightarrow> relay_command_byte c = b"
  by (auto simp: relay_command_from_byte_def split: if_splits)

lemma cell_to_bytes_length [simp]: "cell_wf c \<Longrightarrow> length (cell_to_bytes c) = CELL_SIZE"
  by (simp add: cell_to_bytes_def cell_wf_def)

interpretation cellc: codec cell_wf cell_to_bytes cell_from_bytes
  by unfold_locales
    (simp add: cell_to_bytes_def cell_from_bytes_def nth_append slice_simps)

lemma cell_with_payload_wf: "cell_with_payload i m d = Inr c \<Longrightarrow> cell_wf c"
  by (auto simp: cell_with_payload_def cell_wf_def split: if_splits)

lemma relay_new_wf: "relay_new m i d = Inr r \<Longrightarrow> relay_wf r"
  by (auto simp: relay_new_def relay_wf_def split: if_splits)

lemma relay_from_payload_wf: "relay_from_payload buf = Inr r \<Longrightarrow> relay_wf r"
  by (auto simp: relay_from_payload_def and_then_Inr_iff relay_wf_def Let_def split: if_splits)

lemma relay_to_payload_length [simp]: "relay_wf r \<Longrightarrow> length (relay_to_payload r) = CELL_PAYLOAD"
  by (simp add: relay_to_payload_def relay_wf_def)

interpretation relayc: codec relay_wf relay_to_payload relay_from_payload
proof
  fix r
  assume "relay_wf r"
  then have l: "length (r_data r) \<le> 496" by (simp add: relay_wf_def)
  then have u: "unat (of_nat (length (r_data r)) :: u16) = length (r_data r)" by simp
  show "relay_from_payload (relay_to_payload r) = Inr r"
    using l by (simp add: relay_from_payload_def relay_to_payload_def slice_simps u)
qed


lemma cell_from_bytes_wf: "length buf = CELL_SIZE \<Longrightarrow> cell_from_bytes buf = Inr c \<Longrightarrow> cell_wf c"
  by (auto simp: cell_from_bytes_def and_then_Inr_iff cell_wf_def)

text \<open>Decoding loses nothing: the cell re-encodes to the bytes it came from.\<close>

lemma cell_to_bytes_from_bytes:
  assumes "length buf = CELL_SIZE" "cell_from_bytes buf = Inr c"
  shows "cell_to_bytes c = buf"
proof -
  have s: "to_le (of_le (slice 0 4 buf) :: u32) = slice 0 4 buf"
    using assms(1) by (intro to_le_of_le) simp_all
  from assms have c: "c_circ_id c = CircuitId (of_le (slice 0 4 buf))"
    "cell_command_byte (c_command c) = buf ! 4" "c_payload c = drop 5 buf"
    by (auto simp: cell_from_bytes_def and_then_Inr_iff dest: cell_command_from_byteD)
  have "take 4 buf @ buf ! 4 # drop (Suc 4) buf = buf"
    by (rule id_take_nth_drop [symmetric]) (simp add: assms(1))
  then have "slice 0 4 buf @ buf ! 4 # drop 5 buf = buf" by (simp add: slice_def)
  then show ?thesis by (simp add: cell_to_bytes_def c s)
qed

lemma length_zero_digest [simp]: "length (zero_digest b) = length b"
  by (simp add: zero_digest_def)

lemma zero_digest_append:
  assumes "length xs = 5" "length d = 4"
  shows "zero_digest (xs @ d @ ys) = xs @ replicate 4 0 @ ys"
proof -
  from assms(2) obtain a b c e where d: "d = [a, b, c, e]"
    by (auto simp: numeral_eq_Suc length_Suc_conv)
  have u: "(xs @ zs)[5 := v] = xs @ zs[0 := v]" "(xs @ zs)[6 := v] = xs @ zs[Suc 0 := v]"
    "(xs @ zs)[7 := v] = xs @ zs[Suc (Suc 0) := v]"
    "(xs @ zs)[8 := v] = xs @ zs[Suc (Suc (Suc 0)) := v]" for zs v
    using assms(1) by (simp_all add: list_update_append numeral_2_eq_2 numeral_3_eq_3)
  show ?thesis
    unfolding zero_digest_def d u by (simp add: u eval_nat_numeral)
qed

lemma zero_digest_payload:
  "zero_digest (relay_to_payload r) = relay_to_payload (r \<lparr> r_digest := 0 \<rparr>)"
proof -
  have z: "to_be (0 :: u32) = replicate 4 0"
    by (rule nth_equalityI) (simp_all add: to_be_def)
  define xs where "xs = [relay_command_byte (r_command r)] @ to_be (r_recognized r) @ to_be (r_stream_id r)"
  define ys where "ys = to_be (of_nat (length (r_data r)) :: u16) @ r_data r
     @ replicate (CELL_PAYLOAD - RELAY_HEADER - length (r_data r)) 0"
  have l: "length xs = 5" by (simp add: xs_def)
  have "relay_to_payload q = xs @ to_be (r_digest q) @ ys"
    if "r_command q = r_command r" "r_recognized q = r_recognized r"
      "r_stream_id q = r_stream_id r" "r_data q = r_data r" for q
    using that by (simp add: relay_to_payload_def xs_def ys_def)
  then have e: "relay_to_payload r = xs @ to_be (r_digest r) @ ys"
    "relay_to_payload (r \<lparr> r_digest := 0 \<rparr>) = xs @ to_be (0 :: u32) @ ys" by simp_all
  show ?thesis unfolding e z by (rule zero_digest_append) (simp_all add: l)
qed

lemma stamp_digest_fields:
  "stamp_digest P r running = (r', running') \<Longrightarrow>
     r_command r' = r_command r \<and> r_recognized r' = r_recognized r
     \<and> r_stream_id r' = r_stream_id r \<and> r_data r' = r_data r"
  by (auto simp: stamp_digest_def Let_def)

lemma stamp_digest_absorbs:
  "stamp_digest P r running = (r', running') \<Longrightarrow>
     running' = running @ zero_digest (relay_to_payload r') \<and> r_digest r' = tag32 P running'"
  unfolding stamp_digest_def Let_def zero_digest_payload
  by (elim Pair_inject, hypsubst) simp

text \<open>A stamped cell is recognised at a hop whose hash absorbed the same prefix.\<close>

lemma stamped_recognized:
  assumes "stamp_digest P r running = (r', running')" "r_recognized r = 0"
  shows "is_recognized_at P r' (relay_to_payload r') running"
  using assms stamp_digest_absorbs [OF assms(1)] stamp_digest_fields [OF assms(1)]
  by (simp add: is_recognized_at_def)

subsection \<open>The stream cipher\<close>

text \<open>
  What the onion layers need of the cipher: it keeps lengths and undoes itself, and
  layers commute.
\<close>

locale stream_cipher =
  fixes app :: "'k \<Rightarrow> bytes \<Rightarrow> bytes"
  assumes app_length: "length (app k b) = length b"
    and app_involution: "app k (app k b) = b"
    and app_commute: "app k (app k' b) = app k' (app k b)"
begin

lemma layers_length: "length (fold app ks b) = length b"
  by (induction ks arbitrary: b) (simp_all add: app_length)

lemma layers_app: "fold app ks (app k b) = app k (fold app ks b)"
proof (induction ks arbitrary: b)
  case (Cons a ks)
  then show ?case by (simp add: app_commute [of a k])
qed simp

lemma layers_peel: "fold app ks (fold app ks b) = b"
  by (induction ks arbitrary: b) (simp_all add: layers_app app_involution)

lemma layers_rev: "fold app (rev ks) b = fold app ks b"
  by (induction ks arbitrary: b) (simp_all add: fold_append layers_app)

lemma layers_onion: "foldr app ks b = fold app ks b"
  by (simp add: foldr_conv_fold layers_rev)

lemma app_inj: "app k b = app k b' \<longleftrightarrow> b = b'"
  by (metis app_involution)

end

lemma length_crypt_in_place [simp]: "length (crypt_in_place P k n b) = length b"
  by (simp add: crypt_in_place_def)

lemma nth_crypt_in_place:
  "i < length b \<Longrightarrow> crypt_in_place P k n b ! i = b ! i XOR p_chacha20 P k (nonce96 n) i"
  by (simp add: crypt_in_place_def)

interpretation chacha: stream_cipher "\<lambda>kn. crypt_in_place P (fst kn) (snd kn)" for P
proof
  fix x y :: "bytes \<times> u64" and b :: bytes
  let ?c = "\<lambda>kn. crypt_in_place P (fst kn) (snd kn)"
  show "length (?c x b) = length b" by simp
  show "?c x (?c x b) = b"
    by (rule nth_equalityI) (simp_all add: nth_crypt_in_place xor.assoc)
  show "?c x (?c y b) = ?c y (?c x b)"
    by (rule nth_equalityI) (simp_all add: nth_crypt_in_place ac_simps)
qed

lemma crypt_involution [simp]: "crypt_in_place P k n (crypt_in_place P k n b) = b"
  using chacha.app_involution [of P "(k, n)"] by simp


subsection \<open>Round trips of the circuit-extension payloads\<close>

lemma parse_extended2_build:
  assumes "length reply < 65536"
  shows "parse_extended2 (build_extended2 reply) = Inr reply"
proof -
  have u: "unat (of_nat (length reply) :: u16) = length reply" using assms by simp
  show ?thesis by (simp add: parse_extended2_def build_extended2_def slice_simps u)
qed

interpretation ext2c: codec "\<lambda>b. length b < 65536" build_extended2 parse_extended2
  by unfold_locales (rule parse_extended2_build)

lemma parse_extended2_length:
  "parse_extended2 buf = Inr d \<Longrightarrow> length d \<le> length buf - 2 \<and> length d < 65536"
  using unsigned_less [of "of_be (slice 0 2 buf) :: u16", where ?'a = nat]
  by (auto simp: parse_extended2_def Let_def split: if_splits)

lemma ext2_spec_ipv4 [simp]:
  "ext2_spec LSPEC_IPV4 [a, b, c, d, p, q] acc =
     acc \<lparr> e_host := show_ipv4 (Ipv4 a b c d), e_port := of_be [p, q], e_have_addr := True \<rparr>"
  by (simp add: ext2_spec_def show_ipv4_def)

lemma ext2_spec_id [simp]:
  "length body = 32 \<Longrightarrow>
   ext2_spec LSPEC_NODE_ID body acc = acc \<lparr> e_node_id := body, e_have_id := True \<rparr>"
  by (simp add: ext2_spec_def)

lemma ext2_spec_pub [simp]:
  "length body = 32 \<Longrightarrow> ext2_spec LSPEC_STATIC_PUB body acc = acc \<lparr> e_static_pub := body \<rparr>"
  by (simp add: ext2_spec_def)

lemma to_be_u16_pair: obtains p q where "to_be (w :: u16) = [p, q]"
proof -
  have "length (to_be w) = 2" by simp
  then show thesis using that by (auto simp only: numeral_2_eq_2 length_Suc_conv length_0_conv)
qed

lemma ext2_specs_one:
  "unat ln = length body \<Longrightarrow>
   ext2_specs (Suc n) (ty # ln # body @ rest) acc = ext2_specs n rest (ext2_spec ty body acc)"
  by simp

lemma parse_extend2_build_specs:
  assumes "link_spec_wf l" "parse_ipv4 (ls_host l) = Some a"
  shows "ext2_specs 3 (LSPEC_IPV4 # 6 # octets a @ to_be (ls_port l)
            @ LSPEC_NODE_ID # 32 # ls_node_id l @ LSPEC_STATIC_PUB # 32 # ls_static_pub l @ rest) ext2_init
     = Inr (\<lparr> e_host = show_ipv4 a, e_port = ls_port l, e_node_id = ls_node_id l,
              e_static_pub = ls_static_pub l, e_have_addr = True, e_have_id = True \<rparr>, rest)"
proof -
  obtain p q where pq: "to_be (ls_port l) = [p, q]" by (rule to_be_u16_pair)
  then have port: "of_be [p, q] = ls_port l" using of_be_to_be [of "ls_port l"] by simp
  from assms(1) have len: "length (ls_node_id l) = 32" "length (ls_static_pub l) = 32"
    by (simp_all add: link_spec_wf_def)
  have s: "ext2_specs 3 = ext2_specs (Suc (Suc (Suc 0)))" by (simp add: numeral_3_eq_3)
  obtain w x y z where a: "a = Ipv4 w x y z" by (cases a)
  have 1: "ext2_specs (Suc (Suc (Suc 0))) (LSPEC_IPV4 # 6 # octets a @ to_be (ls_port l) @ r) acc
      = ext2_specs (Suc (Suc 0)) r (ext2_spec LSPEC_IPV4 [w, x, y, z, p, q] acc)" for r acc
    using ext2_specs_one [of 6 "[w, x, y, z, p, q]" "Suc (Suc 0)" LSPEC_IPV4 r acc]
    by (simp only: a octets_def pq ipv4.sel append.simps) simp
  have 2: "ext2_specs (Suc m) (ty # 32 # ls_node_id l @ r) acc
      = ext2_specs m r (ext2_spec ty (ls_node_id l) acc)" for m ty r acc
    by (rule ext2_specs_one) (simp add: len)
  have 3: "ext2_specs (Suc m) (ty # 32 # ls_static_pub l @ r) acc
      = ext2_specs m r (ext2_spec ty (ls_static_pub l) acc)" for m ty r acc
    by (rule ext2_specs_one) (simp add: len)
  show ?thesis
    unfolding s 1 2 3 ext2_spec_ipv4 ext2_spec_id [OF len(1)] ext2_spec_pub [OF len(2)]
    by (simp add: ext2_init_def port a)
qed

lemma parse_extend2_build:
  assumes "link_spec_wf l" "parse_ipv4 (ls_host l) = Some a" "length msg < 65536"
  shows "parse_extend2 (build_extend2 l msg) = Inr (l \<lparr> ls_host := show_ipv4 a \<rparr>, msg)"
proof -
  have u: "unat (of_nat (length msg) :: u16) = length msg" using assms(3) by simp
  have h: "(of_be (to_be HTYPE_NTOR) :: u16) = HTYPE_NTOR" by (rule of_be_to_be) simp
  let ?tail = "to_be HTYPE_NTOR @ to_be (of_nat (length msg) :: u16) @ msg"
  have b: "build_extend2 l msg = 3 # LSPEC_IPV4 # 6 # octets a @ to_be (ls_port l)
      @ LSPEC_NODE_ID # 32 # ls_node_id l @ LSPEC_STATIC_PUB # 32 # ls_static_pub l @ ?tail"
    by (simp add: build_extend2_def assms(2) del: LSPEC_IPV4_def LSPEC_NODE_ID_def LSPEC_STATIC_PUB_def HTYPE_NTOR_def)
  have t: "slice 0 2 ?tail = to_be HTYPE_NTOR" "slice 2 4 ?tail = to_be (of_nat (length msg) :: u16)"
    "slice 4 (4 + length msg) ?tail = msg"
    by (simp_all add: slice_simps del: HTYPE_NTOR_def)
  show ?thesis
    unfolding b parse_extend2_def list.case
    by (simp add: parse_extend2_build_specs [OF assms(1,2)] t h u
        del: LSPEC_IPV4_def LSPEC_NODE_ID_def LSPEC_STATIC_PUB_def HTYPE_NTOR_def)
qed

subsection \<open>Properties\<close>

text \<open>the 512-byte wire format of cells is exact in both directions: a cell whose payload
  fills the cell is read back from its bytes, every accepted buffer of 512 bytes is the encoding
  of the cell it parses to, and a buffer whose command byte is unknown is refused.\<close>

theorem cell_wire_roundtrip:
  "(length (c_payload c) = CELL_PAYLOAD \<longrightarrow> cell_from_bytes (cell_to_bytes c) = Inr c)
    \<and> (length buf = CELL_SIZE \<longrightarrow> (case cell_from_bytes buf of
         Inr c' \<Rightarrow> cell_to_bytes c' = buf
       | Inl e \<Rightarrow> \<not> is_ok (cell_command_from_byte (buf ! 4))))"
proof -
  have "\<not> is_ok (cell_command_from_byte (buf ! 4))" if "cell_from_bytes buf = Inl e" "length buf = CELL_SIZE" for e
    using that by (cases "cell_command_from_byte (buf ! 4)") (auto simp: cell_from_bytes_def)
  then show ?thesis
    using cellc.dec_enc [of c] cell_to_bytes_from_bytes [of buf] by (auto simp: cell_wf_def split: sum.split)
qed

theorem cell_wire_roundtrip_witness:
  "cell_from_bytes (cell_to_bytes (cell_new (CircuitId 7) CPadding)) = Inr (cell_new (CircuitId 7) CPadding)"
  using cell_wire_roundtrip [of "cell_new (CircuitId 7) CPadding" "[]"] by (simp add: cell_new_def)

text \<open>the EXTEND2 body that \<open>build_extend2\<close> writes for a relay at an IPv4 address is parsed by
  \<open>parse_extend2\<close> to the same link specifiers and handshake message, and the EXTENDED2 body to the
  same reply.\<close>

theorem extend_codec_roundtrip:
  assumes "link_spec_wf l" "parse_ipv4 (ls_host l) = Some a" "length msg < 65536" "length reply < 65536"
  shows "parse_extend2 (build_extend2 l msg) = Inr (l \<lparr> ls_host := show_ipv4 a \<rparr>, msg)
    \<and> parse_extended2 (build_extended2 reply) = Inr reply"
  using parse_extend2_build [OF assms(1-3)] parse_extended2_build [OF assms(4)] by blast

theorem extend_codec_roundtrip_witness:
  "parse_extended2 (build_extended2 [1, 2]) = Inr [1, 2]
    \<and> parse_ipv4 (show_ipv4 (Ipv4 10 0 0 1)) = Some (Ipv4 10 0 0 1)"
  using extend_codec_roundtrip [of "\<lparr> ls_host = show_ipv4 (Ipv4 10 0 0 1), ls_port = 7700,
      ls_node_id = replicate 32 1, ls_static_pub = replicate 32 2 \<rparr>" "Ipv4 10 0 0 1" "[5]" "[1, 2]"]
  by (simp add: link_spec_wf_def)

end
