(* ===== verification/Ntor.thy ===== *)
theory Ntor
  imports Circuit
begin

section \<open>The ntor handshake\<close>

text \<open>
  phinet-core/src/ntor.rs: the one-way authenticated key agreement of one hop. The
  ephemeral secrets the code draws from \<open>OsRng\<close> are arguments. The HKDF calls have
  lengths the crate accepts, so their error branches cannot be taken and are left out;
  \<open>timing::ct_eq_32\<close> is equality.
\<close>

definition PROTOID :: bytes where "PROTOID = ascii ''ntor-x25519-chacha20-phinet-v1''"
definition T_KEY :: bytes where "T_KEY = ascii ''phinet:ntor:t_key''"
definition T_VERIFY :: bytes where "T_VERIFY = ascii ''phinet:ntor:t_verify''"
definition T_EXPAND :: bytes where "T_EXPAND = ascii ''phinet:ntor:t_expand''"
definition M_SERVER :: bytes where "M_SERVER = ascii ''Server''"
definition NTOR_KEYS_BYTES :: nat where [simp]: "NTOR_KEYS_BYTES = 104"
definition CLIENT_HANDSHAKE_LEN :: nat where [simp]: "CLIENT_HANDSHAKE_LEN = 32 + 32 + 32"
definition SERVER_HANDSHAKE_LEN :: nat where [simp]: "SERVER_HANDSHAKE_LEN = 32 + 32"

definition ntor_keys_from_bytes :: "bytes \<Rightarrow> ntor_keys" where
  "ntor_keys_from_bytes km = \<lparr>
     k_forward_key = slice 40 72 km, k_backward_key = slice 72 104 km,
     k_forward_digest_seed = slice 0 20 km, k_backward_digest_seed = slice 20 40 km \<rparr>"

record client_handshake =
  ch_x_priv :: bytes
  ch_x_pub :: bytes
  ch_server_id :: bytes
  ch_server_b :: bytes

definition derive_seed_verify ::
  "prims \<Rightarrow> bytes \<Rightarrow> bytes \<Rightarrow> bytes \<Rightarrow> bytes \<Rightarrow> bytes \<Rightarrow> bytes \<Rightarrow> bytes \<times> bytes" where
  "derive_seed_verify P ss_ephem ss_static server_id server_b x_pub y_pub =
     (let secret = ss_ephem @ ss_static @ server_id @ server_b @ x_pub @ y_pub @ PROTOID;
          key_seed = p_hkdf_extract P T_KEY secret;
          verify = p_hkdf_expand P key_seed T_VERIFY 32
      in (key_seed, verify))"

definition compute_auth ::
  "prims \<Rightarrow> bytes \<Rightarrow> bytes \<Rightarrow> bytes \<Rightarrow> bytes \<Rightarrow> bytes \<Rightarrow> bytes" where
  "compute_auth P verify server_id server_b y_pub x_pub =
     p_hmac_sha256 P verify (server_id @ server_b @ y_pub @ x_pub @ PROTOID @ M_SERVER)"

definition client_handshake_start ::
  "prims \<Rightarrow> bytes \<Rightarrow> bytes \<Rightarrow> bytes \<Rightarrow> client_handshake \<times> bytes" where
  "client_handshake_start P x_priv server_id server_b =
     (let x_pub = p_x25519_pub P x_priv
      in (\<lparr> ch_x_priv = x_priv, ch_x_pub = x_pub, ch_server_id = server_id, ch_server_b = server_b \<rparr>,
          server_id @ server_b @ x_pub))"

definition client_handshake_finish ::
  "prims \<Rightarrow> client_handshake \<Rightarrow> bytes \<Rightarrow> ntor_keys result" where
  "client_handshake_finish P hs server_msg =
     (let y_pub = slice 0 32 server_msg;
          auth_recv = slice 32 64 server_msg;
          ss_yx = p_x25519 P (ch_x_priv hs) y_pub;
          ss_bx = p_x25519 P (ch_x_priv hs) (ch_server_b hs);
          (key_seed, verify) =
            derive_seed_verify P ss_yx ss_bx (ch_server_id hs) (ch_server_b hs) (ch_x_pub hs) y_pub;
          auth_expect = compute_auth P verify (ch_server_id hs) (ch_server_b hs) y_pub (ch_x_pub hs)
      in if auth_recv \<noteq> auth_expect then Inl AuthFailed
         else Inr (ntor_keys_from_bytes (p_hkdf_expand P key_seed T_EXPAND NTOR_KEYS_BYTES)))"

definition server_handshake ::
  "prims \<Rightarrow> bytes \<Rightarrow> bytes \<Rightarrow> bytes \<Rightarrow> bytes \<Rightarrow> bytes \<Rightarrow> (ntor_keys \<times> bytes) result" where
  "server_handshake P y_priv server_id server_b_pub server_b_secret client_msg =
     (if slice 0 32 client_msg \<noteq> server_id \<or> slice 32 64 client_msg \<noteq> server_b_pub
      then Inl (Handshake ''ntor: wrong server_id or B'')
      else
        (let x_pub = slice 64 96 client_msg;
             y_pub = p_x25519_pub P y_priv;
             ss_xy = p_x25519 P y_priv x_pub;
             ss_xb = p_x25519 P server_b_secret x_pub;
             (key_seed, verify) =
               derive_seed_verify P ss_xy ss_xb server_id server_b_pub x_pub y_pub;
             auth = compute_auth P verify server_id server_b_pub y_pub x_pub
         in Inr (ntor_keys_from_bytes (p_hkdf_expand P key_seed T_EXPAND NTOR_KEYS_BYTES),
                 y_pub @ auth)))"

subsection \<open>Lengths and agreement\<close>

lemma dh_pub_length [simp]: "dh_ok P \<Longrightarrow> length (p_x25519_pub P a) = 32"
  by (simp add: dh_ok_def)

lemma dh_commute: "dh_ok P \<Longrightarrow> p_x25519 P a (p_x25519_pub P b) = p_x25519 P b (p_x25519_pub P a)"
  by (simp add: dh_ok_def)

lemma hmac_length [simp]: "kdf_ok P \<Longrightarrow> length (p_hmac_sha256 P k m) = 32"
  by (simp add: kdf_ok_def)

lemma compute_auth_length [simp]: "kdf_ok P \<Longrightarrow> length (compute_auth P v i b y x) = 32"
  by (simp add: compute_auth_def)

text \<open>The parts of the two messages, as the receiver slices them.\<close>

lemma client_msg_slices:
  assumes "length sid = 32" "length b = 32" "length x = 32"
  shows "slice 0 32 (sid @ b @ x) = sid" "slice 32 64 (sid @ b @ x) = b"
    "slice 64 96 (sid @ b @ x) = x"
  using assms by (simp_all add: slice_simps)

lemma server_msg_slices:
  assumes "length y = 32" "length a = 32"
  shows "slice 0 32 (y @ a) = y" "slice 32 64 (y @ a) = a"
  using assms by (simp_all add: slice_simps)

lemma ntor_agreement_aux:
  assumes dh: "dh_ok P" and kdf: "kdf_ok P" and sid: "length sid = 32"
    and start: "client_handshake_start P x sid (p_x25519_pub P b) = (hs, msg)"
  shows "\<exists>keys reply. server_handshake P y sid (p_x25519_pub P b) b msg = Inr (keys, reply)
    \<and> client_handshake_finish P hs reply = Inr keys \<and> length reply = SERVER_HANDSHAKE_LEN"
proof -
  let ?B = "p_x25519_pub P b" and ?X = "p_x25519_pub P x" and ?Y = "p_x25519_pub P y"
  from start have hs: "hs = \<lparr> ch_x_priv = x, ch_x_pub = ?X, ch_server_id = sid, ch_server_b = ?B \<rparr>"
    and msg: "msg = sid @ ?B @ ?X" by (simp_all add: client_handshake_start_def Let_def)
  note s = client_msg_slices [OF sid dh_pub_length [OF dh] dh_pub_length [OF dh]]
  note t = server_msg_slices [OF dh_pub_length [OF dh] compute_auth_length [OF kdf]]
  show ?thesis
    by (simp add: server_handshake_def msg s hs client_handshake_finish_def t Let_def
        dh_commute [OF dh, of x y] dh_commute [OF dh, of x b] split_beta dh kdf)
qed

text \<open>What a client accepts is exactly a reply with the right MAC.\<close>

lemma client_finish_iff:
  "is_ok (client_handshake_finish P hs reply) \<longleftrightarrow>
     slice 32 64 reply =
       compute_auth P
         (snd (derive_seed_verify P (p_x25519 P (ch_x_priv hs) (slice 0 32 reply))
            (p_x25519 P (ch_x_priv hs) (ch_server_b hs)) (ch_server_id hs) (ch_server_b hs)
            (ch_x_pub hs) (slice 0 32 reply)))
         (ch_server_id hs) (ch_server_b hs) (slice 0 32 reply) (ch_x_pub hs)"
  by (simp add: client_handshake_finish_def Let_def split_beta)

lemma server_handshake_wrong_identity:
  "slice 0 32 msg \<noteq> sid \<or> slice 32 64 msg \<noteq> bp \<Longrightarrow>
   server_handshake P y sid bp b msg = Inl (Handshake ''ntor: wrong server_id or B'')"
  by (auto simp: server_handshake_def)

subsection \<open>Properties\<close>

text \<open>C11: a client that starts the ntor handshake with a server's identity and onion key, the
  server that answers with its matching secret, and the client that finishes on the 64-byte answer
  derive the same keys; a server with another identity or onion key refuses the message.\<close>

theorem ntor_agreement:
  assumes "dh_ok P" "kdf_ok P" "length sid = 32"
    and "client_handshake_start P x sid (p_x25519_pub P b) = (hs, msg)"
  shows "(\<exists>keys reply. server_handshake P y sid (p_x25519_pub P b) b msg = Inr (keys, reply)
      \<and> client_handshake_finish P hs reply = Inr keys \<and> length reply = SERVER_HANDSHAKE_LEN)
    \<and> (sid' \<noteq> sid \<or> bp \<noteq> p_x25519_pub P b \<longrightarrow>
        server_handshake P y sid' bp b' msg = Inl (Handshake ''ntor: wrong server_id or B''))"
proof (intro conjI impI)
  show "\<exists>keys reply. server_handshake P y sid (p_x25519_pub P b) b msg = Inr (keys, reply)
      \<and> client_handshake_finish P hs reply = Inr keys \<and> length reply = SERVER_HANDSHAKE_LEN"
    using assms by (rule ntor_agreement_aux)
next
  assume "sid' \<noteq> sid \<or> bp \<noteq> p_x25519_pub P b"
  moreover have "slice 0 32 msg = sid" "slice 32 64 msg = p_x25519_pub P b"
    using assms client_msg_slices [of sid "p_x25519_pub P b" "p_x25519_pub P x"]
    by (auto simp: client_handshake_start_def Let_def)
  ultimately show "server_handshake P y sid' bp b' msg = Inl (Handshake ''ntor: wrong server_id or B'')"
    by (intro server_handshake_wrong_identity) auto
qed

theorem ntor_agreement_witness:
  "\<exists>keys reply. server_handshake toy_prims [5] (replicate 32 8) (p_x25519_pub toy_prims [3]) [3]
      (snd (client_handshake_start toy_prims [2] (replicate 32 8) (p_x25519_pub toy_prims [3]))) = Inr (keys, reply)
    \<and> client_handshake_finish toy_prims
      (fst (client_handshake_start toy_prims [2] (replicate 32 8) (p_x25519_pub toy_prims [3]))) reply = Inr keys"
proof -
  let ?st = "client_handshake_start toy_prims [2] (replicate 32 8) (p_x25519_pub toy_prims [3])"
  have l: "length (replicate 32 (8 :: u8)) = 32" by simp
  have st: "?st = (fst ?st, snd ?st)" by simp
  from ntor_agreement [OF toy_ok(3,4) l st, of "[5]"] show ?thesis by blast
qed

text \<open>the client accepts a server's answer exactly when its second half is the authenticator
  over the seed of the two shared secrets, the server's identity and onion key, and both ephemeral
  keys; anything else is an error and yields no keys.\<close>

theorem client_finish_authenticates:
  "is_ok (client_handshake_finish P hs reply) \<longleftrightarrow>
     slice 32 64 reply =
       compute_auth P
         (snd (derive_seed_verify P (p_x25519 P (ch_x_priv hs) (slice 0 32 reply))
            (p_x25519 P (ch_x_priv hs) (ch_server_b hs)) (ch_server_id hs) (ch_server_b hs)
            (ch_x_pub hs) (slice 0 32 reply)))
         (ch_server_id hs) (ch_server_b hs) (slice 0 32 reply) (ch_x_pub hs)"
  by (rule client_finish_iff)

end
