(* ===== verification/Rendezvous.thy ===== *)
theory Rendezvous
  imports Ntor
begin

section \<open>The rendezvous protocol\<close>

text \<open>
  phinet-core/src/rendezvous.rs: the five rendezvous payloads and their codecs, the
  encrypted INTRODUCE1 blob, and the end-to-end key agreement between client and hidden
  service. The ephemeral secrets drawn from \<open>OsRng\<close> are arguments.
\<close>

definition HS_PROTOID :: bytes where "HS_PROTOID = ascii ''phinet-hs-rendezvous-v1''"
definition COOKIE_LEN :: nat where [simp]: "COOKIE_LEN = 20"
definition INTRO1_PLAINTEXT_LEN :: nat where [simp]: "INTRO1_PLAINTEXT_LEN = 32 + COOKIE_LEN + 20 + 2"
definition HS_AUTH_LEN :: nat where [simp]: "HS_AUTH_LEN = 32"

subsection \<open>Payloads\<close>

record establish_intro =
  ei_auth_key_pub :: bytes
  ei_sig :: bytes

definition ei_wf :: "establish_intro \<Rightarrow> bool" where
  "ei_wf e \<longleftrightarrow> length (ei_auth_key_pub e) = 32 \<and> length (ei_sig e) = 32"

definition ei_encode :: "establish_intro \<Rightarrow> bytes" where
  "ei_encode e = [2] @ to_be (32 :: u16) @ ei_auth_key_pub e @ to_be (0 :: u32)
     @ to_be (32 :: u16) @ ei_sig e"

definition ei_decode :: "bytes \<Rightarrow> establish_intro result" where
  "ei_decode buf =
     (if length buf < 2 + 32 + 4 + 2 + 32 then Inl (Crypto ''establish_intro: too short'')
      else if buf ! 0 \<noteq> 2 then Inl (Crypto ''establish_intro: unsupported auth type'')
      else (let key_len = unat (of_be (slice 1 3 buf) :: u16)
            in if key_len \<noteq> 32 \<or> length buf < 3 + 32 + 4 + 2 + 32
               then Inl (Crypto ''establish_intro: bad auth_key_len'')
               else (let sig_len = unat (of_be (slice 39 41 buf) :: u16)
                     in if sig_len \<noteq> 32 \<or> length buf < 41 + 32
                        then Inl (Crypto ''establish_intro: bad sig_len'')
                        else Inr \<lparr> ei_auth_key_pub = slice 3 35 buf, ei_sig = slice 41 73 buf \<rparr>)))"

record establish_rendezvous = er_cookie :: bytes

definition er_encode :: "establish_rendezvous \<Rightarrow> bytes" where
  "er_encode e = er_cookie e"

definition er_decode :: "bytes \<Rightarrow> establish_rendezvous result" where
  "er_decode buf =
     (if length buf < COOKIE_LEN then Inl (Crypto ''establish_rendezvous: too short'')
      else Inr \<lparr> er_cookie = slice 0 COOKIE_LEN buf \<rparr>)"

record introduce =
  i_auth_key_pub :: bytes
  i_client_ntor_x :: bytes
  i_enc_payload :: bytes
  i_mac :: bytes

definition intro_wf :: "introduce \<Rightarrow> bool" where
  "intro_wf i \<longleftrightarrow> length (i_auth_key_pub i) = 32 \<and> length (i_client_ntor_x i) = 32
     \<and> length (i_mac i) = 32 \<and> length (i_enc_payload i) < 65536"

record introduce_plaintext =
  ip_rp_node_id :: bytes
  ip_rp_host :: string
  ip_rp_port :: u16
  ip_cookie :: bytes

definition intro_encode :: "introduce \<Rightarrow> bytes" where
  "intro_encode i = i_auth_key_pub i @ i_client_ntor_x i
     @ to_be (of_nat (length (i_enc_payload i)) :: u16) @ i_enc_payload i @ i_mac i"

definition intro_decode :: "bytes \<Rightarrow> introduce result" where
  "intro_decode buf =
     (if length buf < 32 + 32 + 2 + 32 then Inl (Crypto ''introduce: too short'')
      else (let enc_len = unat (of_be (slice 64 66 buf) :: u16)
            in if length buf < 66 + enc_len + 32 then Inl (Crypto ''introduce: truncated'')
               else Inr \<lparr> i_auth_key_pub = slice 0 32 buf, i_client_ntor_x = slice 32 64 buf,
                          i_enc_payload = slice 66 (66 + enc_len) buf,
                          i_mac = slice (66 + enc_len) (66 + enc_len + 32) buf \<rparr>))"

record rendezvous1 =
  r1_cookie :: bytes
  r1_server_y :: bytes
  r1_auth :: bytes

definition r1_wf :: "rendezvous1 \<Rightarrow> bool" where
  "r1_wf r \<longleftrightarrow> length (r1_cookie r) = 20 \<and> length (r1_server_y r) = 32 \<and> length (r1_auth r) = 32"

definition r1_encode :: "rendezvous1 \<Rightarrow> bytes" where
  "r1_encode r = r1_cookie r @ r1_server_y r @ r1_auth r"

definition r1_decode :: "bytes \<Rightarrow> rendezvous1 result" where
  "r1_decode buf =
     (if length buf < COOKIE_LEN + 32 + HS_AUTH_LEN then Inl (Crypto ''rendezvous1: too short'')
      else Inr \<lparr> r1_cookie = slice 0 COOKIE_LEN buf,
                 r1_server_y = slice COOKIE_LEN (COOKIE_LEN + 32) buf,
                 r1_auth = slice (COOKIE_LEN + 32) (COOKIE_LEN + 32 + HS_AUTH_LEN) buf \<rparr>)"

record rendezvous2 =
  r2_server_y :: bytes
  r2_auth :: bytes

definition r2_encode :: "rendezvous2 \<Rightarrow> bytes" where
  "r2_encode r = r2_server_y r @ r2_auth r"

definition r2_decode :: "bytes \<Rightarrow> rendezvous2 result" where
  "r2_decode buf =
     (if length buf < 32 + HS_AUTH_LEN then Inl (Crypto ''rendezvous2: too short'')
      else Inr \<lparr> r2_server_y = slice 0 32 buf, r2_auth = slice 32 (32 + HS_AUTH_LEN) buf \<rparr>)"

subsection \<open>The INTRODUCE1 blob\<close>

definition encode_intro_plaintext :: "introduce_plaintext \<Rightarrow> bytes" where
  "encode_intro_plaintext p =
     (let hb = ascii (ip_rp_host p); hlen = min (length hb) 20
      in ip_rp_node_id p @ ip_cookie p @ (take hlen hb @ replicate (20 - hlen) 0)
         @ to_be (ip_rp_port p))"

definition decode_intro_plaintext :: "bytes \<Rightarrow> introduce_plaintext result" where
  "decode_intro_plaintext buf =
     (if length buf < INTRO1_PLAINTEXT_LEN then Inl (Crypto ''intro plaintext: too short'')
      else (let host_raw = slice 52 72 buf;
                hlen = (case position (\<lambda>b. b = 0) host_raw of Some i \<Rightarrow> i | None \<Rightarrow> 20)
            in Inr \<lparr> ip_rp_node_id = slice 0 32 buf, ip_rp_host = from_utf8_lossy (take hlen host_raw),
                     ip_rp_port = of_be (slice 72 74 buf), ip_cookie = slice 32 52 buf \<rparr>))"

definition derive_intro_keys :: "prims \<Rightarrow> bytes \<Rightarrow> bytes \<Rightarrow> bytes \<Rightarrow> bytes \<times> bytes" where
  "derive_intro_keys P shared client_x hs_b =
     (let salt = HS_PROTOID @ ascii '':intro:'' @ client_x @ hs_b;
          keys = p_hkdf_expand P (p_hkdf_extract P salt shared) (ascii ''intro-keys'') 64
      in (slice 0 32 keys, slice 32 64 keys))"

definition hmac_intro :: "prims \<Rightarrow> bytes \<Rightarrow> bytes \<Rightarrow> bytes \<Rightarrow> bytes \<Rightarrow> bytes" where
  "hmac_intro P mac_key auth_pub client_x ct =
     p_hmac_sha256 P mac_key (HS_PROTOID @ ascii '':intro-mac:'' @ auth_pub @ client_x @ ct)"

definition apply_chacha20 :: "prims \<Rightarrow> bytes \<Rightarrow> bytes \<Rightarrow> bytes" where
  "apply_chacha20 P key buf = map2 (XOR) buf (map (p_chacha20 P key (replicate 12 0)) [0..<length buf])"

definition build_for_hs_with_ephemeral ::
  "prims \<Rightarrow> bytes \<Rightarrow> bytes \<Rightarrow> introduce_plaintext \<Rightarrow> bytes \<Rightarrow> introduce \<times> bytes" where
  "build_for_hs_with_ephemeral P hs_static_b_pub auth_key_pub plaintext client_sk =
     (let client_x = p_x25519_pub P client_sk;
          shared = p_x25519 P client_sk hs_static_b_pub;
          (stream_key, mac_key) = derive_intro_keys P shared client_x hs_static_b_pub;
          ct = apply_chacha20 P stream_key (encode_intro_plaintext plaintext);
          mac = hmac_intro P mac_key auth_key_pub client_x ct
      in (\<lparr> i_auth_key_pub = auth_key_pub, i_client_ntor_x = client_x,
            i_enc_payload = ct, i_mac = mac \<rparr>, client_sk))"

definition open_at_hs :: "prims \<Rightarrow> introduce \<Rightarrow> bytes \<Rightarrow> bytes \<Rightarrow> introduce_plaintext result" where
  "open_at_hs P i hs_b_secret hs_static_b_pub =
     (let shared = p_x25519 P hs_b_secret (i_client_ntor_x i);
          (stream_key, mac_key) = derive_intro_keys P shared (i_client_ntor_x i) hs_static_b_pub;
          expected = hmac_intro P mac_key (i_auth_key_pub i) (i_client_ntor_x i) (i_enc_payload i)
      in if expected \<noteq> i_mac i then Inl AuthFailed
         else decode_intro_plaintext (apply_chacha20 P stream_key (i_enc_payload i)))"

subsection \<open>End-to-end keys\<close>

definition expand_e2e :: "prims \<Rightarrow> bytes \<Rightarrow> bytes \<Rightarrow> bytes \<Rightarrow> bytes \<Rightarrow> bytes \<Rightarrow> e2e_keys" where
  "expand_e2e P ss_xy ss_xb x_pub y_pub b_pub =
     (let ikm = ss_xy @ ss_xb @ x_pub @ y_pub @ b_pub @ HS_PROTOID;
          km = p_hkdf_expand P (p_hkdf_extract P (ascii ''phinet-hs-e2e-salt'') ikm)
                 (ascii ''e2e-expand'') (32 + 32 + 20 + 20)
      in \<lparr> k_client_to_hs_key = slice 0 32 km, k_hs_to_client_key = slice 32 64 km,
           k_c2h_digest_seed = slice 64 84 km, k_h2c_digest_seed = slice 84 104 km \<rparr>)"

definition compute_e2e_auth :: "prims \<Rightarrow> e2e_keys \<Rightarrow> bytes \<Rightarrow> bytes \<Rightarrow> bytes \<Rightarrow> bool \<Rightarrow> bytes" where
  "compute_e2e_auth P keys x_pub y_pub b_pub server =
     take HS_AUTH_LEN (p_hmac_sha256 P (k_client_to_hs_key keys)
       (HS_PROTOID @ ascii '':e2e-auth:'' @ x_pub @ y_pub @ b_pub))"

definition hs_finalize ::
  "prims \<Rightarrow> bytes \<Rightarrow> bytes \<Rightarrow> bytes \<Rightarrow> bytes \<Rightarrow> e2e_keys \<times> bytes \<times> bytes" where
  "hs_finalize P y_sk hs_b_secret hs_b_pub client_x_pub =
     (let y_pub = p_x25519_pub P y_sk;
          ss_xy = p_x25519 P y_sk client_x_pub;
          ss_xb = p_x25519 P hs_b_secret client_x_pub;
          keys = expand_e2e P ss_xy ss_xb client_x_pub y_pub hs_b_pub;
          auth = compute_e2e_auth P keys client_x_pub y_pub hs_b_pub True
      in (keys, y_pub, auth))"

definition client_finalize ::
  "prims \<Rightarrow> bytes \<Rightarrow> bytes \<Rightarrow> bytes \<Rightarrow> bytes \<Rightarrow> bytes \<Rightarrow> e2e_keys result" where
  "client_finalize P client_x_sk client_x_pub hs_b_pub server_y_pub received_auth =
     (let ss_xy = p_x25519 P client_x_sk server_y_pub;
          ss_xb = p_x25519 P client_x_sk hs_b_pub;
          keys = expand_e2e P ss_xy ss_xb client_x_pub server_y_pub hs_b_pub;
          expected = compute_e2e_auth P keys client_x_pub server_y_pub hs_b_pub True
      in if expected \<noteq> received_auth then Inl AuthFailed else Inr keys)"

subsection \<open>Round trips and agreement\<close>

lemma be16_32 [simp]: "(of_be (to_be (32 :: u16)) :: u16) = 32"
  by (rule of_be_to_be) simp

interpretation eic: codec ei_wf ei_encode ei_decode
  by unfold_locales (simp add: ei_wf_def ei_encode_def ei_decode_def slice_simps)

interpretation erc: codec "\<lambda>e. length (er_cookie e) = 20" er_encode er_decode
  by unfold_locales (simp add: er_encode_def er_decode_def slice_simps)

interpretation introc: codec intro_wf intro_encode intro_decode
proof
  fix i
  assume w: "intro_wf i"
  then have u: "unat (of_nat (length (i_enc_payload i)) :: u16) = length (i_enc_payload i)"
    by (simp add: intro_wf_def)
  from w show "intro_decode (intro_encode i) = Inr i"
    by (simp add: intro_wf_def intro_encode_def intro_decode_def slice_simps u)
qed

interpretation r1c: codec r1_wf r1_encode r1_decode
  by unfold_locales (simp add: r1_wf_def r1_encode_def r1_decode_def slice_simps)

interpretation r2c: codec "\<lambda>r. length (r2_server_y r) = 32 \<and> length (r2_auth r) = 32" r2_encode r2_decode
  by unfold_locales (simp add: r2_encode_def r2_decode_def slice_simps)

text \<open>Plaintexts the encoder loses nothing of: an ASCII host of at most 20 bytes.\<close>

definition ip_wf :: "introduce_plaintext \<Rightarrow> bool" where
  "ip_wf p \<longleftrightarrow> length (ip_rp_node_id p) = 32 \<and> length (ip_cookie p) = 20
     \<and> length (ip_rp_host p) \<le> 20
     \<and> (\<forall>b \<in> set (ascii (ip_rp_host p)). 0 < b \<and> b < 0x80)"

lemma position_padded:
  "\<forall>x \<in> set xs. \<not> Q x \<Longrightarrow> Q z \<Longrightarrow>
   position Q (xs @ replicate n z) = (if n = 0 then None else Some (length xs))"
  by (induction xs) (cases n, auto)

lemma encode_intro_length:
  "length (ip_rp_node_id p) = 32 \<Longrightarrow> length (ip_cookie p) = 20 \<Longrightarrow>
   length (encode_intro_plaintext p) = INTRO1_PLAINTEXT_LEN"
  by (simp add: encode_intro_plaintext_def Let_def)

lemma decode_encode_intro:
  assumes "ip_wf p"
  shows "decode_intro_plaintext (encode_intro_plaintext p) = Inr p"
proof -
  let ?hb = "ascii (ip_rp_host p)"
  from assms have l: "length (ip_rp_node_id p) = 32" "length (ip_cookie p) = 20"
    "length (ip_rp_host p) \<le> 20" and b: "\<forall>b \<in> set ?hb. b \<noteq> 0" "\<forall>b \<in> set ?hb. b < 0x80"
    by (auto simp: ip_wf_def)
  let ?hr = "?hb @ replicate (20 - length ?hb) 0"
  have enc: "encode_intro_plaintext p = ip_rp_node_id p @ ip_cookie p @ ?hr @ to_be (ip_rp_port p)"
    using l by (simp add: encode_intro_plaintext_def Let_def min_absorb1)
  have hr: "slice 52 72 (encode_intro_plaintext p) = ?hr"
    using l by (simp add: enc slice_def)
  have pos: "position (\<lambda>b. b = 0) ?hr = (if 20 - length ?hb = 0 then None else Some (length ?hb))"
    using b(1) by (intro position_padded) auto
  have host: "from_utf8_lossy ?hb = ip_rp_host p"
    using b(2) by (simp add: from_utf8_lossy_def utf8_lossy_ascii)
  have tk: "take (case position (\<lambda>b. b = 0) ?hr of Some i \<Rightarrow> i | None \<Rightarrow> 20) ?hr = ?hb"
    unfolding pos using l by auto
  have rest: "slice 0 32 (encode_intro_plaintext p) = ip_rp_node_id p"
    "slice 32 52 (encode_intro_plaintext p) = ip_cookie p"
    "slice 72 74 (encode_intro_plaintext p) = to_be (ip_rp_port p)"
    using l by (simp_all add: enc slice_simps)
  show ?thesis
    using encode_intro_length [OF l(1,2)]
    by (simp only: decode_intro_plaintext_def Let_def hr tk host rest) simp
qed

lemma apply_chacha20_length [simp]: "length (apply_chacha20 P k b) = length b"
  by (simp add: apply_chacha20_def)

interpretation rvchacha: stream_cipher "apply_chacha20 P" for P
proof
  fix x y b :: bytes
  show "length (apply_chacha20 P x b) = length b" by simp
  show "apply_chacha20 P x (apply_chacha20 P x b) = b"
    by (rule nth_equalityI) (simp_all add: apply_chacha20_def xor.assoc)
  show "apply_chacha20 P x (apply_chacha20 P y b) = apply_chacha20 P y (apply_chacha20 P x b)"
    by (rule nth_equalityI) (simp_all add: apply_chacha20_def ac_simps)
qed

lemma open_build_aux:
  assumes "dh_ok P" "ip_wf p"
  shows "open_at_hs P (fst (build_for_hs_with_ephemeral P (p_x25519_pub P b) auth p sk)) b (p_x25519_pub P b)
    = Inr p"
  using assms
  by (simp add: build_for_hs_with_ephemeral_def open_at_hs_def Let_def split_beta
      dh_commute [OF assms(1), of sk b] rvchacha.app_involution decode_encode_intro)

lemma e2e_agreement_aux:
  assumes dh: "dh_ok P"
    and hs: "hs_finalize P y b (p_x25519_pub P b) (p_x25519_pub P x) = (keys, y_pub, auth)"
  shows "client_finalize P x (p_x25519_pub P x) (p_x25519_pub P b) y_pub auth = Inr keys"
  using hs
  by (auto simp: hs_finalize_def client_finalize_def Let_def
      dh_commute [OF dh, of x y] dh_commute [OF dh, of x b])

text \<open>The two ends of an agreed key set hold mirrored hop states.\<close>

lemma hop_e2e_mirror:
  "h_forward_key (hop_from_e2e_keys k c) = h_backward_key (hop_from_e2e_keys k (\<not> c))"
  "h_forward_digest (hop_from_e2e_keys k c) = h_backward_digest (hop_from_e2e_keys k (\<not> c))"
  "h_forward_nonce (hop_from_e2e_keys k c) = 0" "h_backward_nonce (hop_from_e2e_keys k c) = 0"
  by (cases c; simp add: hop_from_e2e_keys_def)+

subsection \<open>Properties\<close>

text \<open>the INTRODUCE1 cell a client builds for a service is opened by the holder of the
  service's static key to exactly the plaintext the client put in.\<close>

theorem introduce_opens:
  assumes "dh_ok P" "ip_wf p"
  shows "open_at_hs P (fst (build_for_hs_with_ephemeral P (p_x25519_pub P b) auth p sk)) b (p_x25519_pub P b)
    = Inr p"
  using assms by (rule open_build_aux)

theorem introduce_opens_witness:
  "is_ok (open_at_hs toy_prims (fst (build_for_hs_with_ephemeral toy_prims (p_x25519_pub toy_prims [3]) [1]
      \<lparr> ip_rp_node_id = replicate 32 1, ip_rp_host = ''a.b'', ip_rp_port = 7700, ip_cookie = replicate 20 2 \<rparr> [4]))
    [3] (p_x25519_pub toy_prims [3]))"
  by (subst introduce_opens) (simp_all add: ip_wf_def ascii_def)

text \<open>the service's answer to a rendezvous lets the client derive the service's end-to-end
  keys, and the two hop states built from them mirror each other: what one side sends is what
  the other receives.\<close>

theorem rendezvous_keys_agree:
  assumes "dh_ok P" "hs_finalize P y b (p_x25519_pub P b) (p_x25519_pub P x) = (keys, y_pub, auth)"
  shows "client_finalize P x (p_x25519_pub P x) (p_x25519_pub P b) y_pub auth = Inr keys
    \<and> h_forward_key (hop_from_e2e_keys keys True) = h_backward_key (hop_from_e2e_keys keys False)
    \<and> h_backward_key (hop_from_e2e_keys keys True) = h_forward_key (hop_from_e2e_keys keys False)
    \<and> h_forward_digest (hop_from_e2e_keys keys True) = h_backward_digest (hop_from_e2e_keys keys False)
    \<and> h_backward_digest (hop_from_e2e_keys keys True) = h_forward_digest (hop_from_e2e_keys keys False)"
  using e2e_agreement_aux [OF assms] by (simp add: hop_from_e2e_keys_def)

theorem rendezvous_keys_agree_witness:
  "client_finalize toy_prims [2] (p_x25519_pub toy_prims [2]) (p_x25519_pub toy_prims [3])
      (fst (snd (hs_finalize toy_prims [5] [3] (p_x25519_pub toy_prims [3]) (p_x25519_pub toy_prims [2]))))
      (snd (snd (hs_finalize toy_prims [5] [3] (p_x25519_pub toy_prims [3]) (p_x25519_pub toy_prims [2]))))
    = Inr (fst (hs_finalize toy_prims [5] [3] (p_x25519_pub toy_prims [3]) (p_x25519_pub toy_prims [2])))"
proof -
  obtain k y a where h: "hs_finalize toy_prims [5] [3] (p_x25519_pub toy_prims [3]) (p_x25519_pub toy_prims [2])
    = (k, y, a)" using prod_cases3 by blast
  from rendezvous_keys_agree [OF _ h] show ?thesis by (simp add: h)
qed

end
