(* ===== verification/Streams.thy ===== *)
theory Streams
  imports Circuit
begin

section \<open>Multiplexed streams\<close>

text \<open>
  phinet-core/src/stream.rs: the stream state machine with its send window and delivery
  counter, and the per-circuit table of streams. \<open>i32\<close> counters are integers (the
  invariant \<open>stream_wf\<close> bounds them), the channel to the application is the list of the
  chunks put into it, and whether tokio's \<open>try_send\<close> accepts a chunk is an argument.
\<close>

definition STREAM_WINDOW_START :: int where [simp]: "STREAM_WINDOW_START = 500"
definition STREAM_SENDME_INC :: int where [simp]: "STREAM_SENDME_INC = 50"
definition STREAM_SENDME_DELIVERED :: int where [simp]: "STREAM_SENDME_DELIVERED = 50"
definition STREAM_BUFFER_MAX :: nat where [simp]: "STREAM_BUFFER_MAX = 64 * 1024"
definition CIRCUIT_WINDOW_START :: int where [simp]: "CIRCUIT_WINDOW_START = 1000"
definition CIRCUIT_SENDME_INC :: int where [simp]: "CIRCUIT_SENDME_INC = 100"
definition CIRCUIT_SENDME_DELIVERED :: int where [simp]: "CIRCUIT_SENDME_DELIVERED = 100"

datatype end_reason = ErDone | ErUnreachable | ErExitPolicy | ErDestroyed | ErTimeout | ErInternal

fun end_reason_byte :: "end_reason \<Rightarrow> u8" where
  "end_reason_byte ErDone = 0"
| "end_reason_byte ErUnreachable = 1"
| "end_reason_byte ErExitPolicy = 2"
| "end_reason_byte ErDestroyed = 3"
| "end_reason_byte ErTimeout = 4"
| "end_reason_byte ErInternal = 5"

definition end_reason_from_byte :: "u8 \<Rightarrow> end_reason" where
  "end_reason_from_byte b =
     (if b = 0 then ErDone
      else if b = 1 then ErUnreachable
      else if b = 2 then ErExitPolicy
      else if b = 3 then ErDestroyed
      else if b = 4 then ErTimeout
      else ErInternal)"

datatype stream_state = SConnecting | SOpen | SClosed

record stream =
  s_id :: u16
  s_state :: stream_state
  s_target :: string
  s_send_window :: int
  s_delivered_since_sendme :: int
  s_inbound_buffered :: nat
  s_inbound_tx :: "bytes list option"
  s_end_reason :: "end_reason option"
  s_ready_tx :: bool

definition stream_on_connected :: "stream \<Rightarrow> stream \<times> unit result" where
  "stream_on_connected s =
     (if s_state s \<noteq> SConnecting then (s, Inl (Handshake ''stream : CONNECTED in state ''))
      else (s \<lparr> s_state := SOpen, s_ready_tx := False \<rparr>, Inr ()))"

definition stream_on_data :: "bool \<Rightarrow> bytes \<Rightarrow> stream \<Rightarrow> stream \<times> bool result" where
  "stream_on_data accept bs s =
     (if s_state s \<noteq> SOpen then (s, Inl (Handshake ''stream : DATA in state ''))
      else if STREAM_BUFFER_MAX < s_inbound_buffered s + length bs
      then (s, Inl (Handshake ''stream : inbound buffer full''))
      else if s_inbound_tx s \<noteq> None \<and> \<not> accept
      then (s, Inl (Handshake ''stream : app buffer full''))
      else
        (let s1 = s \<lparr> s_inbound_tx := map_option (\<lambda>q. q @ [bs]) (s_inbound_tx s),
                     s_inbound_buffered := s_inbound_buffered s + length bs,
                     s_delivered_since_sendme := s_delivered_since_sendme s + 1 \<rparr>;
             should_sendme = (STREAM_SENDME_DELIVERED \<le> s_delivered_since_sendme s1);
             s2 = (if should_sendme
                   then s1 \<lparr> s_delivered_since_sendme := 0, s_inbound_buffered := 0 \<rparr> else s1)
         in (s2, Inr should_sendme)))"

definition stream_on_sendme :: "stream \<Rightarrow> stream" where
  "stream_on_sendme s =
     (let w = s_send_window s + STREAM_SENDME_INC
      in s \<lparr> s_send_window := if STREAM_WINDOW_START * 2 < w then STREAM_WINDOW_START * 2 else w \<rparr>)"

definition stream_try_consume_window :: "stream \<Rightarrow> stream \<times> unit result" where
  "stream_try_consume_window s =
     (if s_state s \<noteq> SOpen then (s, Inl (Handshake ''stream : send in state ''))
      else if s_send_window s \<le> 0 then (s, Inl (Handshake ''stream : window exhausted''))
      else (s \<lparr> s_send_window := s_send_window s - 1 \<rparr>, Inr ()))"

definition stream_close :: "end_reason \<Rightarrow> stream \<Rightarrow> stream" where
  "stream_close reason s =
     s \<lparr> s_state := SClosed, s_end_reason := Some reason, s_inbound_tx := None \<rparr>"

definition stream_is_open :: "stream \<Rightarrow> bool" where
  "stream_is_open s \<longleftrightarrow> s_state s = SOpen"

subsection \<open>The table of streams\<close>

record stream_mux =
  mux_streams :: "(u16, stream) hmap"
  mux_next_stream_id :: u16

definition mux_new :: stream_mux where
  "mux_new = \<lparr> mux_streams = [], mux_next_stream_id = 1 \<rparr>"

text \<open>\<open>fetch_add\<close> returns the old value and wraps.\<close>

definition mux_fresh_id :: "stream_mux \<Rightarrow> stream_mux \<times> u16" where
  "mux_fresh_id m =
     (let i = mux_next_stream_id m; m1 = m \<lparr> mux_next_stream_id := i + 1 \<rparr>
      in if i = 0
         then (m1 \<lparr> mux_next_stream_id := mux_next_stream_id m1 + 1 \<rparr>, mux_next_stream_id m1)
         else (m1, i))"

definition stream_connecting :: "u16 \<Rightarrow> string \<Rightarrow> stream" where
  "stream_connecting i target = \<lparr> s_id = i, s_state = SConnecting, s_target = target,
     s_send_window = STREAM_WINDOW_START, s_delivered_since_sendme = 0, s_inbound_buffered = 0,
     s_inbound_tx = Some [], s_end_reason = None, s_ready_tx = True \<rparr>"

definition mux_open_stream :: "string \<Rightarrow> stream_mux \<Rightarrow> stream_mux \<times> u16" where
  "mux_open_stream target m =
     (let (m1, i) = mux_fresh_id m
      in (m1 \<lparr> mux_streams := hm_insert i (stream_connecting i target) (mux_streams m1) \<rparr>, i))"

definition stream_accepted :: "u16 \<Rightarrow> string \<Rightarrow> stream" where
  "stream_accepted i target = \<lparr> s_id = i, s_state = SOpen, s_target = target,
     s_send_window = STREAM_WINDOW_START, s_delivered_since_sendme = 0, s_inbound_buffered = 0,
     s_inbound_tx = Some [], s_end_reason = None, s_ready_tx = False \<rparr>"

definition mux_accept_stream :: "u16 \<Rightarrow> string \<Rightarrow> stream_mux \<Rightarrow> stream_mux" where
  "mux_accept_stream i target m =
     m \<lparr> mux_streams := hm_insert i (stream_accepted i target) (mux_streams m) \<rparr>"

definition mux_with_stream ::
  "u16 \<Rightarrow> (stream \<Rightarrow> stream \<times> 'a) \<Rightarrow> stream_mux \<Rightarrow> stream_mux \<times> 'a option" where
  "mux_with_stream i f m =
     (case hm_get (mux_streams m) i of
        None \<Rightarrow> (m, None)
      | Some s \<Rightarrow> (let (s', r) = f s
                  in (m \<lparr> mux_streams := hm_insert i s' (mux_streams m) \<rparr>, Some r)))"

definition mux_remove :: "u16 \<Rightarrow> stream_mux \<Rightarrow> stream_mux" where
  "mux_remove i m = m \<lparr> mux_streams := hm_remove i (mux_streams m) \<rparr>"

definition mux_active_ids :: "stream_mux \<Rightarrow> u16 list" where
  "mux_active_ids m = hm_keys (mux_streams m)"

definition mux_len :: "stream_mux \<Rightarrow> nat" where
  "mux_len m = length (mux_streams m)"

definition mux_is_empty :: "stream_mux \<Rightarrow> bool" where
  "mux_is_empty m \<longleftrightarrow> mux_streams m = []"

subsection \<open>The state machine of one stream\<close>

datatype stream_event =
  EvConnected | EvData bool bytes | EvSendme | EvSend | EvClose end_reason

fun stream_apply :: "stream_event \<Rightarrow> stream \<Rightarrow> stream" where
  "stream_apply EvConnected s = fst (stream_on_connected s)"
| "stream_apply (EvData a bs) s = fst (stream_on_data a bs s)"
| "stream_apply EvSendme s = stream_on_sendme s"
| "stream_apply EvSend s = fst (stream_try_consume_window s)"
| "stream_apply (EvClose r) s = stream_close r s"

definition stream_run :: "stream_event list \<Rightarrow> stream \<Rightarrow> stream" where
  "stream_run evs s = fold stream_apply evs s"

text \<open>The invariant. A relay cell carries at most \<open>RELAY_DATA_MAX\<close> bytes of data.\<close>

definition stream_wf :: "stream \<Rightarrow> bool" where
  "stream_wf s \<longleftrightarrow>
     0 \<le> s_send_window s \<and> s_send_window s \<le> 2 * STREAM_WINDOW_START
     \<and> 0 \<le> s_delivered_since_sendme s \<and> s_delivered_since_sendme s < STREAM_SENDME_DELIVERED
     \<and> s_inbound_buffered s \<le> nat (s_delivered_since_sendme s) * RELAY_DATA_MAX
     \<and> (s_state s = SClosed \<longleftrightarrow> s_end_reason s \<noteq> None)
     \<and> (s_state s = SClosed \<longleftrightarrow> s_inbound_tx s = None)
     \<and> (s_state s = SOpen \<longrightarrow> \<not> s_ready_tx s)"

fun event_fits :: "stream_event \<Rightarrow> bool" where
  "event_fits (EvData a bs) \<longleftrightarrow> length bs \<le> RELAY_DATA_MAX"
| "event_fits _ \<longleftrightarrow> True"

lemma stream_wf_init [simp]: "stream_wf (stream_connecting i t)" "stream_wf (stream_accepted i t)"
  by (simp_all add: stream_wf_def stream_connecting_def stream_accepted_def)

lemma buffered_bound:
  assumes "stream_wf s" "length bs \<le> RELAY_DATA_MAX"
  shows "s_inbound_buffered s + length bs \<le> STREAM_BUFFER_MAX"
proof -
  have "nat (s_delivered_since_sendme s) \<le> 49"
    using assms(1) unfolding stream_wf_def STREAM_SENDME_DELIVERED_def by linarith
  then have "nat (s_delivered_since_sendme s) * 496 \<le> 49 * 496" by (rule mult_le_mono1)
  with assms show ?thesis by (simp add: stream_wf_def)
qed

lemma on_data_wf:
  assumes "stream_wf s" "length bs \<le> RELAY_DATA_MAX"
  shows "stream_wf (fst (stream_on_data a bs s))"
proof (cases "s_state s = SOpen \<and> (s_inbound_tx s = None \<or> a)")
  case True
  have n: "nat (s_delivered_since_sendme s + 1) = Suc (nat (s_delivered_since_sendme s))"
    using assms(1) unfolding stream_wf_def by linarith
  show ?thesis
    using True assms buffered_bound [OF assms] n
    by (auto simp: stream_on_data_def stream_wf_def Let_def)
next
  case False
  then have "fst (stream_on_data a bs s) = s"
    by (auto simp: stream_on_data_def)
  with assms show ?thesis by simp
qed

lemma stream_apply_wf: "stream_wf s \<Longrightarrow> event_fits e \<Longrightarrow> stream_wf (stream_apply e s)"
proof (cases e)
  case EvConnected
  assume "stream_wf s"
  with EvConnected show ?thesis
    by (auto simp: stream_on_connected_def stream_wf_def split: stream_state.splits)
next
  case (EvData a bs)
  assume "stream_wf s" "event_fits e"
  with EvData show ?thesis by (simp add: on_data_wf)
next
  case EvSendme
  assume "stream_wf s"
  with EvSendme show ?thesis by (auto simp: stream_on_sendme_def stream_wf_def Let_def)
next
  case EvSend
  assume "stream_wf s"
  with EvSend show ?thesis by (auto simp: stream_try_consume_window_def stream_wf_def)
next
  case (EvClose r)
  assume "stream_wf s"
  with EvClose show ?thesis by (auto simp: stream_close_def stream_wf_def)
qed

lemma stream_run_wf:
  "stream_wf s \<Longrightarrow> list_all event_fits evs \<Longrightarrow> stream_wf (stream_run evs s)"
  unfolding stream_run_def
  by (induction evs arbitrary: s) (simp_all add: stream_apply_wf)

text \<open>Once closed, a stream stays closed, and it accepts and sends nothing.\<close>

lemma closed_absorbing: "s_state s = SClosed \<Longrightarrow> s_state (stream_run evs s) = SClosed"
  unfolding stream_run_def
proof (induction evs arbitrary: s)
  case (Cons e evs)
  then show ?case
    by (cases e) (simp_all add: stream_on_connected_def stream_on_data_def stream_on_sendme_def
        stream_try_consume_window_def stream_close_def Let_def)
qed simp

lemma closed_rejects:
  assumes "s_state s = SClosed"
  shows "\<not> is_ok (snd (stream_on_data a bs s))" "\<not> is_ok (snd (stream_try_consume_window s))"
    "\<not> is_ok (snd (stream_on_connected s))"
  using assms by (simp_all add: stream_on_data_def stream_try_consume_window_def stream_on_connected_def)

text \<open>Well-formed streams never fill the 64 KiB buffer with relay data.\<close>

lemma on_data_open:
  assumes "stream_wf s" "s_state s = SOpen" "length bs \<le> RELAY_DATA_MAX"
  shows "snd (stream_on_data a bs s) =
    (if a then Inr (s_delivered_since_sendme s = STREAM_SENDME_DELIVERED - 1)
     else Inl (Handshake ''stream : app buffer full''))"
proof -
  have "s_inbound_tx s \<noteq> None" using assms by (auto simp: stream_wf_def)
  then show ?thesis
    using assms buffered_bound [OF assms(1,3)]
    by (auto simp: stream_on_data_def stream_wf_def Let_def)
qed

subsection \<open>Stream identifiers\<close>

lemma fresh_id_nonzero: "snd (mux_fresh_id m) \<noteq> 0"
  by (simp add: mux_fresh_id_def Let_def)

lemma fresh_id_next: "mux_next_stream_id (fst (mux_fresh_id m)) = snd (mux_fresh_id m) + 1"
  by (simp add: mux_fresh_id_def Let_def)

definition mux_wf :: "stream_mux \<Rightarrow> bool" where
  "mux_wf m \<longleftrightarrow> hm_wf (mux_streams m)
     \<and> (\<forall>i s. hm_get (mux_streams m) i = Some s \<longrightarrow> s_id s = i \<and> stream_wf s)"

lemma mux_wf_new [simp]: "mux_wf mux_new"
  by (simp add: mux_wf_def mux_new_def)

lemma mux_wf_insert:
  "mux_wf m \<Longrightarrow> s_id s = i \<Longrightarrow> stream_wf s \<Longrightarrow>
   mux_wf (m \<lparr> mux_streams := hm_insert i s (mux_streams m) \<rparr>)"
  by (auto simp: mux_wf_def hm.wf_ins hm.get_ins)

lemma mux_wf_open: "mux_wf m \<Longrightarrow> mux_wf (fst (mux_open_stream t m))"
proof -
  assume w: "mux_wf m"
  have "mux_streams (fst (mux_fresh_id m)) = mux_streams m"
    by (simp add: mux_fresh_id_def Let_def)
  with w have "mux_wf (fst (mux_fresh_id m))" by (simp add: mux_wf_def)
  then show ?thesis
    by (simp add: mux_open_stream_def split_beta mux_wf_insert stream_connecting_def [of _ t, THEN arg_cong [where f = s_id]])
qed

lemma mux_wf_accept: "mux_wf m \<Longrightarrow> mux_wf (mux_accept_stream i t m)"
  by (simp add: mux_accept_stream_def mux_wf_insert stream_accepted_def
      stream_wf_init(2) [unfolded stream_accepted_def, simplified])

lemma mux_wf_remove: "mux_wf m \<Longrightarrow> mux_wf (mux_remove i m)"
  by (auto simp: mux_wf_def mux_remove_def hm.wf_rem hm.get_rem split: if_splits)

lemma mux_wf_with:
  assumes "mux_wf m" "\<And>s. stream_wf s \<Longrightarrow> stream_wf (fst (f s)) \<and> s_id (fst (f s)) = s_id s"
  shows "mux_wf (fst (mux_with_stream i f m))"
proof (cases "hm_get (mux_streams m) i")
  case None
  with assms(1) show ?thesis by (simp add: mux_with_stream_def)
next
  case (Some s)
  with assms(1) have "s_id s = i" "stream_wf s" by (auto simp: mux_wf_def)
  with assms Some show ?thesis by (simp add: mux_with_stream_def split_beta mux_wf_insert)
qed


lemma open_stream_lookup:
  "mux_open_stream t m = (m', i) \<Longrightarrow>
   hm_get (mux_streams m') i = Some (stream_connecting i t) \<and> i \<noteq> 0
   \<and> (\<forall>j. j \<noteq> i \<longrightarrow> hm_get (mux_streams m') j = hm_get (mux_streams m) j)"
  using fresh_id_nonzero [of m]
  by (auto simp: mux_open_stream_def split_beta hm.get_ins mux_fresh_id_def Let_def)

subsection \<open>Flow control between two ends\<close>

text \<open>
  One direction of one stream: the sender's and the receiver's \<open>Stream\<close>, the DATA cells
  and the stream-level SENDMEs between them. The steps are the operations above, with the
  cells delivered in order; \<open>l_lost\<close> counts the cells the receiver refused.
\<close>

record link =
  l_sender :: stream
  l_receiver :: stream
  l_data :: "bytes list"
  l_acks :: nat
  l_lost :: nat

inductive link_step :: "link \<Rightarrow> link \<Rightarrow> bool" where
  send: "stream_try_consume_window (l_sender l) = (s', Inr ()) \<Longrightarrow> length bs \<le> RELAY_DATA_MAX \<Longrightarrow>
    link_step l (l \<lparr> l_sender := s', l_data := l_data l @ [bs] \<rparr>)"
| deliver: "l_data l = bs # rest \<Longrightarrow> stream_on_data a bs (l_receiver l) = (r', Inr due) \<Longrightarrow>
    link_step l (l \<lparr> l_receiver := r', l_data := rest, l_acks := l_acks l + (if due then 1 else 0) \<rparr>)"
| refuse: "l_data l = bs # rest \<Longrightarrow> stream_on_data a bs (l_receiver l) = (r', Inl e) \<Longrightarrow>
    link_step l (l \<lparr> l_receiver := r', l_data := rest, l_lost := l_lost l + 1 \<rparr>)"
| ack: "l_acks l = Suc n \<Longrightarrow>
    link_step l (l \<lparr> l_sender := stream_on_sendme (l_sender l), l_acks := n \<rparr>)"

inductive_cases link_stepE: "link_step l l'"

definition link_init :: "stream \<Rightarrow> stream \<Rightarrow> link" where
  "link_init s r = \<lparr> l_sender = s, l_receiver = r, l_data = [], l_acks = 0, l_lost = 0 \<rparr>"

definition link_inv :: "link \<Rightarrow> bool" where
  "link_inv l \<longleftrightarrow> stream_wf (l_sender l) \<and> stream_wf (l_receiver l)
     \<and> (\<forall>bs \<in> set (l_data l). length bs \<le> RELAY_DATA_MAX)
     \<and> s_send_window (l_sender l) + int (length (l_data l)) + s_delivered_since_sendme (l_receiver l)
       + STREAM_SENDME_INC * int (l_acks l) + int (l_lost l) = STREAM_WINDOW_START"

lemma on_data_counter:
  assumes "stream_on_data a bs s = (s', r)"
  shows "case r of Inl e \<Rightarrow> s' = s
    | Inr due \<Rightarrow> s_delivered_since_sendme s' + (if due then STREAM_SENDME_DELIVERED else 0)
        = s_delivered_since_sendme s + 1 \<or> s_delivered_since_sendme s \<ge> STREAM_SENDME_DELIVERED"
  using assms by (auto simp: stream_on_data_def Let_def split: if_splits)

lemma link_inv_step:
  assumes "link_step l l'" "link_inv l"
  shows "link_inv l'"
  using assms
proof (cases rule: link_step.cases)
  case (send s' bs)
  have "stream_wf s'"
    using stream_apply_wf [of "l_sender l" EvSend] send(2) assms(2) by (simp add: link_inv_def)
  moreover have "s_send_window s' = s_send_window (l_sender l) - 1"
    using send(2) by (auto simp: stream_try_consume_window_def split: if_splits)
  ultimately show ?thesis using assms(2) send(1,3) by (simp add: link_inv_def)
next
  case (deliver bs rest a r' due)
  have bs: "length bs \<le> RELAY_DATA_MAX" using assms(2) deliver(2) by (simp add: link_inv_def)
  then have "stream_wf r'"
    using on_data_wf [of "l_receiver l" bs a] deliver(3) assms(2) by (simp add: link_inv_def)
  moreover have "s_delivered_since_sendme r' + (if due then STREAM_SENDME_DELIVERED else 0)
      = s_delivered_since_sendme (l_receiver l) + 1"
    using on_data_counter [OF deliver(3)] assms(2) by (auto simp: link_inv_def stream_wf_def)
  ultimately show ?thesis using assms(2) deliver(1,2) by (auto simp: link_inv_def split: if_splits)
next
  case (refuse bs rest a r' e)
  then have "r' = l_receiver l" using on_data_counter [OF refuse(3)] by simp
  then show ?thesis using assms(2) refuse(1,2) by (simp add: link_inv_def)
next
  case (ack n)
  have "stream_wf (stream_on_sendme (l_sender l))"
    using stream_apply_wf [of "l_sender l" EvSendme] assms(2) by (simp add: link_inv_def)
  moreover have "0 \<le> s_delivered_since_sendme (l_receiver l)"
    using assms(2) by (simp add: link_inv_def stream_wf_def)
  then have "s_send_window (stream_on_sendme (l_sender l)) = s_send_window (l_sender l) + STREAM_SENDME_INC"
    using assms(2) ack(2) by (auto simp: link_inv_def stream_on_sendme_def Let_def)
  ultimately show ?thesis using assms(2) ack(1,2) by (simp add: link_inv_def)
qed

lemma link_inv_reachable:
  "link_step\<^sup>*\<^sup>* l l' \<Longrightarrow> link_inv l \<Longrightarrow> link_inv l'"
  by (induction rule: rtranclp_induct) (auto intro: link_inv_step)

lemma link_inv_init:
  "link_inv (link_init (stream_connecting i t) (stream_accepted j u))"
  "link_inv (link_init (stream_accepted i t) (stream_accepted j u))"
  by (simp_all add: link_inv_def link_init_def) (simp_all add: stream_connecting_def stream_accepted_def)

subsection \<open>Properties\<close>

text \<open>whatever cells and application calls a stream sees (DATA of at most one cell each), its
  send window stays within 0 and twice the initial window, its delivered counter below the SENDME
  threshold, its buffer within its bound, and it is closed exactly when it has an end reason and no
  channel to the application.\<close>

theorem stream_invariant:
  assumes "list_all event_fits evs" "s = stream_connecting i t \<or> s = stream_accepted i t"
  shows "stream_wf (stream_run evs s)"
  using assms stream_run_wf stream_wf_init by blast

theorem stream_invariant_witness:
  "stream_wf (stream_run [EvConnected, EvData True [1, 2], EvSend, EvSendme, EvClose ErDone] (stream_connecting 3 ''a:80''))"
  by (rule stream_invariant) (simp_all, blast)

text \<open>a closed stream stays closed whatever happens to it, and refuses DATA, sends and
  CONNECTED with an error.\<close>

theorem stream_closed_final:
  assumes "s_state s = SClosed"
  shows "s_state (stream_run evs s) = SClosed \<and> \<not> is_ok (snd (stream_on_data a bs (stream_run evs s)))
    \<and> \<not> is_ok (snd (stream_try_consume_window (stream_run evs s)))
    \<and> \<not> is_ok (snd (stream_on_connected (stream_run evs s)))"
  using closed_absorbing [OF assms, of evs] closed_rejects by blast

theorem stream_closed_final_witness:
  "s_state (stream_run [EvConnected, EvSendme] (stream_close ErTimeout (stream_connecting 3 ''a:80''))) = SClosed"
  by (rule stream_closed_final [where a = True and bs = "[]", THEN conjunct1]) (simp add: stream_close_def)

text \<open>C12: between the two ends of a stream no credit is created: send window, cells in flight,
  cells delivered since the last SENDME, SENDMEs under way and refused cells always add up to the
  initial window, so a sender never has more than 500 cells unacknowledged.\<close>

theorem stream_credit_conserved:
  assumes "link_step\<^sup>*\<^sup>* (link_init (stream_accepted i t) (stream_accepted j u)) l"
  shows "s_send_window (l_sender l) + int (length (l_data l)) + s_delivered_since_sendme (l_receiver l)
      + STREAM_SENDME_INC * int (l_acks l) + int (l_lost l) = STREAM_WINDOW_START
    \<and> length (l_data l) \<le> 500 \<and> 0 \<le> s_send_window (l_sender l)"
proof -
  have "link_inv l" by (rule link_inv_reachable [OF assms link_inv_init(2)])
  then show ?thesis by (auto simp: link_inv_def stream_wf_def)
qed

theorem stream_credit_conserved_witness:
  "\<exists>l. link_step\<^sup>*\<^sup>* (link_init (stream_accepted 1 ''a'') (stream_accepted 1 ''b'')) l
    \<and> length (l_data l) = 1 \<and> s_send_window (l_sender l) = 499"
proof -
  let ?l = "link_init (stream_accepted 1 ''a'') (stream_accepted 1 ''b'')"
  have w: "stream_try_consume_window (l_sender ?l) = (stream_accepted 1 ''a'' \<lparr> s_send_window := 499 \<rparr>, Inr ())"
    by (simp add: link_init_def stream_accepted_def stream_try_consume_window_def)
  let ?k = "?l \<lparr> l_sender := stream_accepted 1 ''a'' \<lparr> s_send_window := 499 \<rparr>, l_data := l_data ?l @ [[7]] \<rparr>"
  have s: "link_step\<^sup>*\<^sup>* ?l ?k"
    by (rule r_into_rtranclp) (rule link_step.send [OF w], simp)
  have q: "s_send_window (l_sender ?k) = 499"
    using stream_credit_conserved [OF s] by (simp add: link_init_def stream_accepted_def)
  show ?thesis
  proof (intro exI conjI)
    show "link_step\<^sup>*\<^sup>* ?l ?k" by (rule s)
    show "length (l_data ?k) = 1" by (simp add: link_init_def)
    show "s_send_window (l_sender ?k) = 499" by (rule q)
  qed
qed

end
