(* ===== verification/Congestion.thy ===== *)
theory Congestion
  imports Prelude
begin

section \<open>Vegas congestion control\<close>

text \<open>
  phinet-core/src/congestion.rs: the per-circuit congestion window. Counters keep their
  widths; the \<open>u128\<close> products of the source cannot overflow and are computed on \<open>nat\<close>.
  The caller's \<open>Instant::now()\<close> is an argument.
\<close>

definition CC_SENDME_INC :: u32 where [simp]: "CC_SENDME_INC = 31"
definition CC_CWND_MIN :: u32 where [simp]: "CC_CWND_MIN = 124"
definition CC_CWND_MAX :: u32 where [simp]: "CC_CWND_MAX = 20000"
definition CC_CWND_INIT :: u32 where [simp]: "CC_CWND_INIT = 4 * CC_SENDME_INC"
definition CC_CWND_INC :: u32 where [simp]: "CC_CWND_INC = CC_SENDME_INC"
definition CC_CWND_INC_RATE :: u32 where [simp]: "CC_CWND_INC_RATE = 1"
definition CC_VEGAS_ALPHA :: u32 where [simp]: "CC_VEGAS_ALPHA = 3 * CC_SENDME_INC"
definition CC_VEGAS_BETA :: u32 where [simp]: "CC_VEGAS_BETA = 6 * CC_SENDME_INC"
definition CC_VEGAS_GAMMA :: u32 where [simp]: "CC_VEGAS_GAMMA = 5 * CC_SENDME_INC"
definition CC_SS_BACKOFF_NUM :: u32 where [simp]: "CC_SS_BACKOFF_NUM = 3"
definition CC_SS_BACKOFF_DEN :: u32 where [simp]: "CC_SS_BACKOFF_DEN = 4"
definition RTT_EWMA_OLD_NUM :: nat where [simp]: "RTT_EWMA_OLD_NUM = 7"
definition RTT_EWMA_OLD_DEN :: nat where [simp]: "RTT_EWMA_OLD_DEN = 8"

record vegas =
  v_cwnd :: u32
  v_inflight :: u32
  v_slow_start :: bool
  v_rtt_min :: "duration option"
  v_rtt_ewma :: "duration option"
  v_sendme_trigger_sent :: "instant option"
  v_total_sent :: u64
  v_acks_since_inc :: u32

definition vegas_new :: vegas where
  "vegas_new = \<lparr> v_cwnd = CC_CWND_INIT, v_inflight = 0, v_slow_start = True, v_rtt_min = None,
     v_rtt_ewma = None, v_sendme_trigger_sent = None, v_total_sent = 0, v_acks_since_inc = 0 \<rparr>"

definition vegas_can_send :: "vegas \<Rightarrow> bool" where
  "vegas_can_send v \<longleftrightarrow> v_inflight v < v_cwnd v"

definition vegas_send_allowance :: "vegas \<Rightarrow> u32" where
  "vegas_send_allowance v = sat_sub (v_cwnd v) (v_inflight v)"

definition vegas_on_send :: "instant \<Rightarrow> vegas \<Rightarrow> vegas" where
  "vegas_on_send now v =
     (let v1 = v \<lparr> v_inflight := sat_add (v_inflight v) 1, v_total_sent := v_total_sent v + 1 \<rparr>
      in if v_total_sent v1 mod ucast CC_SENDME_INC = 0
         then v1 \<lparr> v_sendme_trigger_sent := Some now \<rparr> else v1)"

definition vegas_fold_rtt :: "duration \<Rightarrow> vegas \<Rightarrow> vegas" where
  "vegas_fold_rtt sample v = v \<lparr>
     v_rtt_min := Some (case v_rtt_min v of Some m \<Rightarrow> min m sample | None \<Rightarrow> sample),
     v_rtt_ewma := Some (case v_rtt_ewma v of
         None \<Rightarrow> sample
       | Some old \<Rightarrow>
           (let mixed = (old * RTT_EWMA_OLD_NUM + sample * (RTT_EWMA_OLD_DEN - RTT_EWMA_OLD_NUM))
                        div RTT_EWMA_OLD_DEN
            in unat (of_nat mixed :: u64))) \<rparr>"

definition vegas_queue_estimate :: "vegas \<Rightarrow> u32" where
  "vegas_queue_estimate v =
     (case (v_rtt_ewma v, v_rtt_min v) of
        (Some rtt, Some mn) \<Rightarrow>
          if rtt = 0 then 0
          else (let excess = rtt - mn; q = (unat (v_cwnd v) * excess) div rtt
                in of_nat (min q (2 ^ 32 - 1)))
      | _ \<Rightarrow> 0)"

definition vegas_set_cwnd :: "u32 \<Rightarrow> vegas \<Rightarrow> vegas" where
  "vegas_set_cwnd target v = v \<lparr> v_cwnd := max CC_CWND_MIN (min target CC_CWND_MAX) \<rparr>"

definition vegas_update_cwnd :: "vegas \<Rightarrow> vegas" where
  "vegas_update_cwnd v =
     (let queue = vegas_queue_estimate v
      in if v_slow_start v then
           (if CC_VEGAS_GAMMA < queue then
              (let backed = (of_nat (unat (v_cwnd v) * unat CC_SS_BACKOFF_NUM
                                      div unat CC_SS_BACKOFF_DEN) :: u32)
               in vegas_set_cwnd backed (v \<lparr> v_slow_start := False \<rparr>))
            else vegas_set_cwnd (sat_add (v_cwnd v) CC_SENDME_INC) v)
         else
           (let v1 = v \<lparr> v_acks_since_inc := v_acks_since_inc v + 1 \<rparr>
            in if queue < CC_VEGAS_ALPHA then
                 (if CC_CWND_INC_RATE \<le> v_acks_since_inc v1
                  then vegas_set_cwnd (sat_add (v_cwnd v1) CC_CWND_INC) (v1 \<lparr> v_acks_since_inc := 0 \<rparr>)
                  else v1)
               else if CC_VEGAS_BETA < queue then
                 vegas_set_cwnd (sat_sub (v_cwnd v1) CC_CWND_INC) (v1 \<lparr> v_acks_since_inc := 0 \<rparr>)
               else v1))"

definition vegas_on_sendme :: "instant \<Rightarrow> vegas \<Rightarrow> vegas \<times> duration option" where
  "vegas_on_sendme now v =
     (let acked = min CC_SENDME_INC (v_inflight v);
          v1 = v \<lparr> v_inflight := v_inflight v - acked \<rparr>;
          (v2, rtt) = (case v_sendme_trigger_sent v1 of
              None \<Rightarrow> (v1, None)
            | Some sent \<Rightarrow>
                (let sample = duration_since now sent
                 in (vegas_fold_rtt sample (v1 \<lparr> v_sendme_trigger_sent := None \<rparr>), Some sample)));
          v3 = (if v_rtt_ewma v2 \<noteq> None then vegas_update_cwnd v2 else v2)
      in (v3, rtt))"

subsection \<open>The window stays in its range\<close>

text \<open>
  The invariant: the window within its clamp, both RTT estimates present or absent
  together and ordered, and representable in 64 bits of nanoseconds.
\<close>

definition vegas_wf :: "vegas \<Rightarrow> bool" where
  "vegas_wf v \<longleftrightarrow> CC_CWND_MIN \<le> v_cwnd v \<and> v_cwnd v \<le> CC_CWND_MAX
     \<and> (case (v_rtt_min v, v_rtt_ewma v) of
          (None, None) \<Rightarrow> True
        | (Some m, Some e) \<Rightarrow> m \<le> e \<and> e < 2 ^ 64
        | _ \<Rightarrow> False)"

lemma vegas_wf_new [simp]: "vegas_wf vegas_new"
  by (simp add: vegas_wf_def vegas_new_def word_le_nat_alt)

lemma set_cwnd_range:
  "CC_CWND_MIN \<le> v_cwnd (vegas_set_cwnd t v) \<and> v_cwnd (vegas_set_cwnd t v) \<le> CC_CWND_MAX"
  by (auto simp: vegas_set_cwnd_def max_def min_def word_le_nat_alt)

lemma set_cwnd_other [simp]:
  "v_rtt_min (vegas_set_cwnd t v) = v_rtt_min v" "v_rtt_ewma (vegas_set_cwnd t v) = v_rtt_ewma v"
  "v_inflight (vegas_set_cwnd t v) = v_inflight v"
  by (simp_all add: vegas_set_cwnd_def)

lemma set_cwnd_wf: "vegas_wf v \<Longrightarrow> vegas_wf (vegas_set_cwnd t v)"
  using set_cwnd_range [of t v] by (simp add: vegas_wf_def)

lemma vegas_wf_fields:
  "vegas_wf (v \<lparr> v_slow_start := b \<rparr>) = vegas_wf v" "vegas_wf (v \<lparr> v_acks_since_inc := n \<rparr>) = vegas_wf v"
  "vegas_wf (v \<lparr> v_inflight := i \<rparr>) = vegas_wf v" "vegas_wf (v \<lparr> v_total_sent := c \<rparr>) = vegas_wf v"
  "vegas_wf (v \<lparr> v_sendme_trigger_sent := x \<rparr>) = vegas_wf v"
  by (simp_all add: vegas_wf_def)

lemma update_cwnd_wf: "vegas_wf v \<Longrightarrow> vegas_wf (vegas_update_cwnd v)"
  by (simp add: vegas_update_cwnd_def Let_def set_cwnd_wf vegas_wf_fields
      del: CC_CWND_INC_RATE_def CC_VEGAS_ALPHA_def CC_VEGAS_BETA_def CC_VEGAS_GAMMA_def)

lemma mix_between:
  assumes "(m :: nat) \<le> old" "m \<le> sample" "old < b" "sample < b"
  shows "m \<le> (old * 7 + sample * 1) div 8 \<and> (old * 7 + sample * 1) div 8 < b"
  using assms by (auto simp: less_mult_imp_div_less)

lemma fold_rtt_wf:
  assumes "vegas_wf v" "sample < 2 ^ 64"
  shows "vegas_wf (vegas_fold_rtt sample v)"
proof (cases "v_rtt_ewma v")
  case None
  with assms show ?thesis
    by (auto simp: vegas_wf_def vegas_fold_rtt_def split: option.splits)
next
  case (Some old)
  with assms(1) obtain m where m: "v_rtt_min v = Some m" "m \<le> old" "old < 2 ^ 64"
    by (auto simp: vegas_wf_def split: option.splits)
  have mix: "min m sample \<le> (old * 7 + sample * 1) div 8 \<and> (old * 7 + sample * 1) div 8 < 2 ^ 64"
    by (rule mix_between) (use m assms(2) in auto)
  then have u: "unat (of_nat ((old * 7 + sample * 1) div 8) :: u64) = (old * 7 + sample * 1) div 8"
    by (intro unat_of_nat_len) simp
  have e: "v_rtt_ewma (vegas_fold_rtt sample v) = Some ((old * 7 + sample * 1) div 8)"
    using Some u by (simp add: vegas_fold_rtt_def)
  have n: "v_rtt_min (vegas_fold_rtt sample v) = Some (min m sample)"
    "v_cwnd (vegas_fold_rtt sample v) = v_cwnd v"
    using m by (simp_all add: vegas_fold_rtt_def)
  show ?thesis using assms(1) mix unfolding vegas_wf_def e n by simp
qed

lemma on_send_wf: "vegas_wf v \<Longrightarrow> vegas_wf (vegas_on_send t v)"
  by (simp add: vegas_on_send_def Let_def vegas_wf_fields)

lemma on_sendme_wf:
  assumes "vegas_wf v" "now < 2 ^ 64"
  shows "vegas_wf (fst (vegas_on_sendme now v))"
proof -
  have s: "duration_since now x < 2 ^ 64" for x using assms(2) by (simp add: duration_since_def)
  show ?thesis
    using assms(1) s
    by (auto simp: vegas_on_sendme_def Let_def vegas_wf_fields update_cwnd_wf fold_rtt_wf
        split: option.splits)
qed

text \<open>The queue estimate never exceeds the window, so its cap never applies.\<close>

lemma queue_le_cwnd:
  assumes "vegas_wf v"
  shows "vegas_queue_estimate v \<le> v_cwnd v"
proof (cases "v_rtt_ewma v")
  case (Some rtt)
  with assms obtain mn where mn: "v_rtt_min v = Some mn" by (auto simp: vegas_wf_def split: option.splits)
  define q where "q = unat (v_cwnd v) * (rtt - mn) div rtt"
  have "rtt \<noteq> 0 \<Longrightarrow> unat (v_cwnd v) * (rtt - mn) \<le> unat (v_cwnd v) * rtt" by simp
  then have q: "rtt \<noteq> 0 \<Longrightarrow> q \<le> unat (v_cwnd v)"
    unfolding q_def by (metis div_le_mono nonzero_mult_div_cancel_right)
  have "unat (v_cwnd v) < 2 ^ 32" using unsigned_less [of "v_cwnd v", where ?'a = nat] by simp
  then have "rtt \<noteq> 0 \<Longrightarrow> unat (of_nat (min q (2 ^ 32 - 1)) :: u32) = q"
    using q by (subst unat_of_nat_len) auto
  then show ?thesis
    using Some mn q by (auto simp: vegas_queue_estimate_def Let_def word_le_nat_alt q_def)
qed (simp add: vegas_queue_estimate_def)


subsection \<open>A paced sender\<close>

text \<open>
  The events of a circuit's sender: a send that is attempted (and made when the window
  allows it, as \<open>try_consume_circ_window\<close> of the circuit manager does) and a SENDME.
\<close>

datatype vegas_event = VSend instant | VAck instant

fun vegas_apply :: "vegas_event \<Rightarrow> vegas \<Rightarrow> vegas" where
  "vegas_apply (VSend t) v = (if vegas_can_send v then vegas_on_send t v else v)"
| "vegas_apply (VAck t) v = fst (vegas_on_sendme t v)"

fun vegas_event_time :: "vegas_event \<Rightarrow> instant" where
  "vegas_event_time (VSend t) = t"
| "vegas_event_time (VAck t) = t"

definition vegas_run :: "vegas_event list \<Rightarrow> vegas \<Rightarrow> vegas" where
  "vegas_run evs v = fold vegas_apply evs v"

definition vegas_paced :: "vegas \<Rightarrow> bool" where
  "vegas_paced v \<longleftrightarrow> vegas_wf v \<and> v_inflight v \<le> CC_CWND_MAX"

lemma on_send_inflight:
  assumes "v_inflight v < v_cwnd v"
  shows "unat (v_inflight (vegas_on_send t v)) = unat (v_inflight v) + 1"
proof -
  have "unat (v_inflight v) + 1 < 2 ^ LENGTH(32)"
    using assms unsigned_less [of "v_cwnd v", where ?'a = nat] by (simp add: word_less_nat_alt)
  then show ?thesis
    by (simp add: vegas_on_send_def Let_def sat_add_def unat_word_ariths)
qed

lemma fold_rtt_inflight [simp]: "v_inflight (vegas_fold_rtt x v) = v_inflight v"
  by (simp add: vegas_fold_rtt_def)

lemma update_cwnd_inflight [simp]: "v_inflight (vegas_update_cwnd v) = v_inflight v"
  by (simp add: vegas_update_cwnd_def Let_def)

lemma on_sendme_inflight:
  "unat (v_inflight (fst (vegas_on_sendme t v))) = unat (v_inflight v) - unat CC_SENDME_INC"
proof -
  have "v_inflight (fst (vegas_on_sendme t v)) = v_inflight v - min CC_SENDME_INC (v_inflight v)"
    by (simp add: vegas_on_sendme_def Let_def split: option.split)
  then show ?thesis
    by (auto simp: min_def word_le_nat_alt unat_sub_if_size split: if_splits)
qed

lemma vegas_apply_paced:
  assumes "vegas_paced v" "vegas_event_time e < 2 ^ 64"
  shows "vegas_paced (vegas_apply e v)"
proof (cases e)
  case (VSend t)
  have "unat (v_cwnd v) \<le> 20000"
    using assms(1) by (simp add: vegas_paced_def vegas_wf_def word_le_nat_alt)
  then show ?thesis
    using assms VSend on_send_inflight [of v t]
    by (auto simp: vegas_paced_def vegas_can_send_def on_send_wf word_le_nat_alt word_less_nat_alt)
next
  case (VAck t)
  then show ?thesis
    using assms on_sendme_inflight [of t v]
    by (auto simp: vegas_paced_def on_sendme_wf word_le_nat_alt)
qed

lemma vegas_run_paced:
  "vegas_paced v \<Longrightarrow> \<forall>e \<in> set evs. vegas_event_time e < 2 ^ 64 \<Longrightarrow> vegas_paced (vegas_run evs v)"
  unfolding vegas_run_def
  by (induction evs arbitrary: v) (simp_all add: vegas_apply_paced)

lemma vegas_paced_new: "vegas_paced vegas_new"
  by (simp add: vegas_paced_def) (simp add: vegas_new_def)

subsection \<open>Properties\<close>

text \<open>starting from a new controller, any sequence of sends (gated by \<open>can_send\<close>) and SENDMEs
  keeps the congestion window between its minimum and maximum, the smallest RTT at most the
  smoothed one, the cells in flight at most the maximal window and the queue estimate at most the
  window, so no operation over- or underflows.\<close>

theorem vegas_bounds:
  assumes "\<forall>e \<in> set evs. vegas_event_time e < 2 ^ 64"
  shows "vegas_wf (vegas_run evs vegas_new) \<and> v_inflight (vegas_run evs vegas_new) \<le> CC_CWND_MAX
    \<and> vegas_queue_estimate (vegas_run evs vegas_new) \<le> v_cwnd (vegas_run evs vegas_new)"
  using vegas_run_paced [OF vegas_paced_new assms] queue_le_cwnd by (auto simp: vegas_paced_def)

theorem vegas_bounds_witness:
  "vegas_wf (vegas_run [VSend 5, VSend 9, VAck 20] vegas_new)"
  using vegas_bounds [of "[VSend 5, VSend 9, VAck 20]"] by simp

end
