(* ===== verification/Padding.thy ===== *)
theory Padding
  imports Prelude
begin

section \<open>Padding schedulers\<close>

text \<open>
  phinet-core/src/padding.rs: the \<open>PaddingScheduler\<close> trait and its three implementations,
  and the pump of phinet-core/src/node.rs (\<open>padding_pump_loop\<close>) that polls one. The trait
  object is the datatype \<open>pad_sched\<close>; the state inside the mutex is passed explicitly.
\<close>

datatype pad_decision = PadNow | PadSleepFor duration | PadNever

record constant_rate =
  cr_interval :: duration
  cr_last_padding :: instant

definition cr_new :: "duration \<Rightarrow> instant \<Rightarrow> constant_rate" where
  "cr_new interval now = \<lparr> cr_interval = interval, cr_last_padding = now \<rparr>"

definition cr_should_pad_now :: "instant \<Rightarrow> constant_rate \<Rightarrow> pad_decision" where
  "cr_should_pad_now now c =
     (let elapsed = duration_since now (cr_last_padding c)
      in if cr_interval c \<le> elapsed then PadNow else PadSleepFor (cr_interval c - elapsed))"

definition cr_on_padding_cell :: "instant \<Rightarrow> constant_rate \<Rightarrow> constant_rate" where
  "cr_on_padding_cell now c = c \<lparr> cr_last_padding := now \<rparr>"

record adaptive_burst =
  ab_idle_threshold :: duration
  ab_padding_interval :: duration
  ab_last_real :: instant
  ab_last_padding :: instant

definition ab_new :: "duration \<Rightarrow> duration \<Rightarrow> instant \<Rightarrow> adaptive_burst" where
  "ab_new idle interval now = \<lparr> ab_idle_threshold = idle, ab_padding_interval = interval,
     ab_last_real = now, ab_last_padding = now \<rparr>"

definition ab_should_pad_now :: "instant \<Rightarrow> adaptive_burst \<Rightarrow> pad_decision" where
  "ab_should_pad_now now s =
     (let real_idle = duration_since now (ab_last_real s)
      in if real_idle < ab_idle_threshold s then PadSleepFor (ab_idle_threshold s - real_idle)
         else (let padding_idle = duration_since now (ab_last_padding s)
               in if ab_padding_interval s \<le> padding_idle then PadNow
                  else PadSleepFor (ab_padding_interval s - padding_idle)))"

definition ab_on_real_cell :: "instant \<Rightarrow> adaptive_burst \<Rightarrow> adaptive_burst" where
  "ab_on_real_cell now s = s \<lparr> ab_last_real := now \<rparr>"

definition ab_on_padding_cell :: "instant \<Rightarrow> adaptive_burst \<Rightarrow> adaptive_burst" where
  "ab_on_padding_cell now s = s \<lparr> ab_last_padding := now \<rparr>"

text \<open>The trait object.\<close>

datatype pad_sched = NoPadding | ConstantRate constant_rate | AdaptiveBurst adaptive_burst

fun ps_name :: "pad_sched \<Rightarrow> string" where
  "ps_name NoPadding = ''none''"
| "ps_name (ConstantRate _) = ''constant-rate''"
| "ps_name (AdaptiveBurst _) = ''adaptive-burst''"

fun ps_should_pad_now :: "instant \<Rightarrow> pad_sched \<Rightarrow> pad_decision" where
  "ps_should_pad_now now NoPadding = PadNever"
| "ps_should_pad_now now (ConstantRate c) = cr_should_pad_now now c"
| "ps_should_pad_now now (AdaptiveBurst s) = ab_should_pad_now now s"

fun ps_on_real_cell :: "instant \<Rightarrow> pad_sched \<Rightarrow> pad_sched" where
  "ps_on_real_cell now NoPadding = NoPadding"
| "ps_on_real_cell now (ConstantRate c) = ConstantRate c"
| "ps_on_real_cell now (AdaptiveBurst s) = AdaptiveBurst (ab_on_real_cell now s)"

fun ps_on_padding_cell :: "instant \<Rightarrow> pad_sched \<Rightarrow> pad_sched" where
  "ps_on_padding_cell now NoPadding = NoPadding"
| "ps_on_padding_cell now (ConstantRate c) = ConstantRate (cr_on_padding_cell now c)"
| "ps_on_padding_cell now (AdaptiveBurst s) = AdaptiveBurst (ab_on_padding_cell now s)"

subsection \<open>The contract of the trait\<close>

text \<open>
  \<open>gap\<close> is the scheduler's padding interval: no padding is due sooner than that after a
  padding cell, and a sleep that is asked for is never longer than the time until the
  next decision to pad.
\<close>

locale padding_scheduler =
  fixes decide :: "instant \<Rightarrow> 's \<Rightarrow> pad_decision"
    and on_real :: "instant \<Rightarrow> 's \<Rightarrow> 's"
    and on_pad :: "instant \<Rightarrow> 's \<Rightarrow> 's"
    and gap :: "'s \<Rightarrow> duration"
    and last_pad :: "'s \<Rightarrow> instant"
  assumes gap_real: "gap (on_real t s) = gap s"
    and gap_pad: "gap (on_pad t s) = gap s"
    and last_real: "last_pad (on_real t s) = last_pad s"
    and last_pad_pad: "decide t s = PadNow \<Longrightarrow> last_pad (on_pad t s) = t"
    and now_spaced: "decide t s = PadNow \<Longrightarrow> gap s = 0 \<or> last_pad s + gap s \<le> t"
    and sleep_safe: "decide t s = PadSleepFor d \<Longrightarrow> t \<le> t' \<Longrightarrow> t' < t + d \<Longrightarrow> decide t' s \<noteq> PadNow"
begin

lemma pad_then_pad:
  "decide t s = PadNow \<Longrightarrow> decide t' (on_pad t s) = PadNow \<Longrightarrow> gap s = 0 \<or> t + gap s \<le> t'"
  using now_spaced [of t' "on_pad t s"] by (auto simp: gap_pad last_pad_pad)

lemma sleep_wakes_in_time:
  "decide t s = PadSleepFor d \<Longrightarrow> decide t' s = PadNow \<Longrightarrow> t \<le> t' \<Longrightarrow> t + d \<le> t'"
  using sleep_safe [of t s d t'] by fastforce

end

interpretation cr: padding_scheduler cr_should_pad_now "\<lambda>t c. c" cr_on_padding_cell cr_interval cr_last_padding
  by unfold_locales
    (auto simp: cr_should_pad_now_def cr_on_padding_cell_def duration_since_def Let_def split: if_splits)

interpretation ab: padding_scheduler ab_should_pad_now ab_on_real_cell ab_on_padding_cell
  ab_padding_interval ab_last_padding
  by unfold_locales
    (auto simp: ab_should_pad_now_def ab_on_padding_cell_def ab_on_real_cell_def duration_since_def
        Let_def split: if_splits)

fun ps_gap :: "pad_sched \<Rightarrow> duration" where
  "ps_gap NoPadding = 0"
| "ps_gap (ConstantRate c) = cr_interval c"
| "ps_gap (AdaptiveBurst s) = ab_padding_interval s"

fun ps_last :: "pad_sched \<Rightarrow> instant" where
  "ps_last NoPadding = 0"
| "ps_last (ConstantRate c) = cr_last_padding c"
| "ps_last (AdaptiveBurst s) = ab_last_padding s"

interpretation ps: padding_scheduler ps_should_pad_now ps_on_real_cell ps_on_padding_cell ps_gap ps_last
proof
  fix t t' s d
  show "ps_gap (ps_on_real_cell t s) = ps_gap s" by (cases s) (simp_all add: ab.gap_real)
  show "ps_gap (ps_on_padding_cell t s) = ps_gap s" by (cases s) (simp_all add: ab.gap_pad cr.gap_pad)
  show "ps_last (ps_on_real_cell t s) = ps_last s" by (cases s) (simp_all add: ab.last_real)
  show "ps_should_pad_now t s = PadNow \<Longrightarrow> ps_last (ps_on_padding_cell t s) = t"
    by (cases s) (simp_all add: ab.last_pad_pad cr.last_pad_pad)
  show "ps_should_pad_now t s = PadNow \<Longrightarrow> ps_gap s = 0 \<or> ps_last s + ps_gap s \<le> t"
    by (cases s) (auto dest: ab.now_spaced cr.now_spaced)
  show "ps_should_pad_now t s = PadSleepFor d \<Longrightarrow> t \<le> t' \<Longrightarrow> t' < t + d
      \<Longrightarrow> ps_should_pad_now t' s \<noteq> PadNow"
    by (cases s) (simp_all add: ab.sleep_safe cr.sleep_safe)
qed

subsection \<open>The pump\<close>

definition PUMP_MAX_SLEEP :: duration where "PUMP_MAX_SLEEP = secs 5"
definition PUMP_MIN_SLEEP :: duration where "PUMP_MIN_SLEEP = 50000000"

datatype pump_outcome = PoReturn | PoSleep duration | PoEmit duration

text \<open>One turn of the loop: leave it, sleep, or send a DROP cell and then sleep.\<close>

definition pump_turn :: "instant \<Rightarrow> pad_sched \<Rightarrow> pump_outcome" where
  "pump_turn now s =
     (if ps_name s = ''none'' then PoSleep PUMP_MAX_SLEEP
      else case ps_should_pad_now now s of
          PadNever \<Rightarrow> PoReturn
        | PadSleepFor d \<Rightarrow> PoSleep (max PUMP_MIN_SLEEP (min d PUMP_MAX_SLEEP))
        | PadNow \<Rightarrow> PoEmit PUMP_MIN_SLEEP)"

text \<open>
  The loop, for as many turns as the list has elements: element \<open>l\<close> is the time the turn
  itself and the wake-up take beyond the sleep, during which the real cells of \<open>rs\<close> are
  reported to the scheduler. The result lists the instants of the DROP cells.
\<close>

fun padding_pump_loop :: "(nat \<times> instant list) list \<Rightarrow> instant \<Rightarrow> pad_sched \<Rightarrow> instant list" where
  "padding_pump_loop [] now s = []"
| "padding_pump_loop ((l, rs) # turns) now s =
     (case pump_turn now s of
        PoReturn \<Rightarrow> []
      | PoSleep d \<Rightarrow> padding_pump_loop turns (now + d + l) (fold ps_on_real_cell rs s)
      | PoEmit d \<Rightarrow> now # padding_pump_loop turns (now + d + l)
                          (fold ps_on_real_cell rs (ps_on_padding_cell now s)))"

lemma fold_real_gap [simp]: "ps_gap (fold ps_on_real_cell rs s) = ps_gap s"
  by (induction rs arbitrary: s) (simp_all add: ps.gap_real)

lemma fold_real_last [simp]: "ps_last (fold ps_on_real_cell rs s) = ps_last s"
  by (induction rs arbitrary: s) (simp_all add: ps.last_real)

lemma pump_turn_emit: "pump_turn now s = PoEmit d \<longleftrightarrow>
    ps_name s \<noteq> ''none'' \<and> ps_should_pad_now now s = PadNow \<and> d = PUMP_MIN_SLEEP"
  by (auto simp: pump_turn_def split: pad_decision.splits)

lemma pump_first_after:
  "t \<in> set (padding_pump_loop turns now s) \<Longrightarrow> now \<le> t \<and> (ps_gap s = 0 \<or> ps_last s + ps_gap s \<le> t)"
proof (induction turns now s rule: padding_pump_loop.induct)
  case (1 now s)
  then show ?case by simp
next
  case (2 l rs turns now s)
  show ?case
  proof (cases "pump_turn now s")
    case PoReturn
    with 2 show ?thesis by simp
  next
    case (PoSleep d)
    with 2 show ?thesis by fastforce
  next
    case (PoEmit d)
    then have n: "ps_should_pad_now now s = PadNow" by (simp add: pump_turn_emit)
    let ?s' = "fold ps_on_real_cell rs (ps_on_padding_cell now s)"
    have g: "ps_gap ?s' = ps_gap s" "ps_last ?s' = now"
      by (simp_all add: ps.gap_pad ps.last_pad_pad [OF n])
    from PoEmit "2.prems" consider "t = now" | "t \<in> set (padding_pump_loop turns (now + d + l) ?s')"
      by auto
    then show ?thesis
    proof cases
      case 1
      with ps.now_spaced [OF n] show ?thesis by simp
    next
      case 2
      from "2.IH"(2) [OF PoEmit 2] g ps.now_spaced [OF n] show ?thesis by auto
    qed
  qed
qed

lemma pump_spaced:
  "sorted_wrt (\<lambda>a b. a + max (ps_gap s) PUMP_MIN_SLEEP \<le> b) (padding_pump_loop turns now s)"
proof (induction turns now s rule: padding_pump_loop.induct)
  case (1 now s)
  then show ?case by simp
next
  case (2 l rs turns now s)
  show ?case
  proof (cases "pump_turn now s")
    case PoReturn
    then show ?thesis by simp
  next
    case (PoSleep d)
    with 2 show ?thesis by simp
  next
    case (PoEmit d)
    then have n: "ps_should_pad_now now s = PadNow" and d: "d = PUMP_MIN_SLEEP"
      by (simp_all add: pump_turn_emit)
    let ?s' = "fold ps_on_real_cell rs (ps_on_padding_cell now s)"
    have g: "ps_gap ?s' = ps_gap s" "ps_last ?s' = now"
      by (simp_all add: ps.gap_pad ps.last_pad_pad [OF n])
    have "now + max (ps_gap s) PUMP_MIN_SLEEP \<le> t"
      if "t \<in> set (padding_pump_loop turns (now + d + l) ?s')" for t
      using pump_first_after [OF that] g d by auto
    then show ?thesis using "2.IH"(2) [OF PoEmit] g PoEmit by simp
  qed
qed

subsection \<open>Properties\<close>

text \<open>the padding pump of a circuit never bursts: consecutive DROP cells are at least the
  scheduler's gap and at least the pump's minimal sleep apart, the first one comes no earlier than a
  gap after the scheduler's last cell, and the pump emits at most one cell per turn.\<close>

theorem padding_rate_bounded:
  "sorted_wrt (\<lambda>a b. a + max (ps_gap s) PUMP_MIN_SLEEP \<le> b) (padding_pump_loop turns now s)
    \<and> list_all (\<lambda>t. now \<le> t) (padding_pump_loop turns now s)
    \<and> length (padding_pump_loop turns now s) \<le> length turns"
proof -
  have "length (padding_pump_loop turns now s) \<le> length turns"
    by (induction turns now s rule: padding_pump_loop.induct) (auto split: pump_outcome.split)
  then show ?thesis using pump_spaced pump_first_after by (auto simp: list_all_iff)
qed

end
