(* ===== verification/CircuitMgr.thy ===== *)
theory CircuitMgr
  imports Rendezvous Streams Congestion Padding
begin

section \<open>The circuit manager\<close>

text \<open>
  phinet-core/src/circuit_mgr.rs: origin circuits, relay circuits, and the manager that
  routes cells between them. Every operation returns the manager it leaves behind, also
  when it fails half way. \<open>Instant::now()\<close> and the secrets drawn from \<open>OsRng\<close> are
  arguments; a peer id is its bytes; the shared \<open>StreamMux\<close> of a circuit is a field of it.
\<close>

type_synonym peer_id = bytes
type_synonym leg = "peer_id \<times> circuit_id"

subsection \<open>Layers\<close>

text \<open>What a hop makes of a payload it has decrypted: the cell addressed to it, if any,
  with the digest that cell leaves.\<close>

definition recognize :: "prims \<Rightarrow> bytes \<Rightarrow> bytes \<Rightarrow> (relay_cell \<times> bytes) option" where
  "recognize P payload running =
     (case relay_from_payload payload of
        Inl _ \<Rightarrow> None
      | Inr rc \<Rightarrow> if is_recognized_at P rc payload running
                 then Some (rc, running @ zero_digest payload) else None)"

text \<open>The loop of \<open>encrypt_outbound\<close>: the last hop of the list encrypts first.\<close>

fun encrypt_hops :: "prims \<Rightarrow> hop_state list \<Rightarrow> bytes \<Rightarrow> hop_state list \<times> bytes" where
  "encrypt_hops P [] payload = ([], payload)"
| "encrypt_hops P (h # hs) payload =
     (let (hs', p1) = encrypt_hops P hs payload;
          (h', p2) = onion_encrypt_forward P h p1
      in (h' # hs', p2))"

text \<open>
  The loop of \<open>decrypt_inbound\<close> from hop \<open>i\<close> on: the hops it leaves, the payload, and the
  index and cell when a hop recognised it.
\<close>

fun peel_hops ::
  "prims \<Rightarrow> nat \<Rightarrow> hop_state list \<Rightarrow> bytes \<Rightarrow> hop_state list \<times> bytes \<times> (nat \<times> relay_cell) option" where
  "peel_hops P i [] payload = ([], payload, None)"
| "peel_hops P i (h # hs) payload =
     (let (h1, p1) = onion_decrypt_backward P h payload
      in case recognize P p1 (h_backward_digest h1) of
           Some (rc, d) \<Rightarrow> (h1 \<lparr> h_backward_digest := d \<rparr> # hs, p1, Some (i, rc))
         | None \<Rightarrow> (let (hs', p2, r) = peel_hops P (Suc i) hs p1 in (h1 # hs', p2, r)))"

subsection \<open>Origin circuits\<close>

text \<open>The counter of delivered cells is an \<open>i32\<close>: a word that is compared as a signed number.\<close>

record origin_circuit =
  o_id :: circuit_id
  o_peer :: peer_id
  o_hops :: "hop_state list"
  o_pending :: "client_handshake option"
  o_relay_early_used :: u32
  o_streams :: stream_mux
  o_cc :: vegas
  o_circ_delivered :: "32 word"
  o_last_activity :: instant
  o_padding_scheduler :: pad_sched
  o_e2e :: "hop_state option"

definition origin_new :: "circuit_id \<Rightarrow> peer_id \<Rightarrow> instant \<Rightarrow> origin_circuit" where
  "origin_new cid peer now = \<lparr> o_id = cid, o_peer = peer, o_hops = [], o_pending = None,
     o_relay_early_used = 0, o_streams = mux_new, o_cc = vegas_new, o_circ_delivered = 0,
     o_last_activity = now, o_padding_scheduler = NoPadding, o_e2e = None \<rparr>"

definition origin_touch :: "instant \<Rightarrow> origin_circuit \<Rightarrow> origin_circuit" where
  "origin_touch now c = c \<lparr> o_last_activity := now \<rparr>"

definition origin_try_consume_circ_window ::
  "instant \<Rightarrow> origin_circuit \<Rightarrow> origin_circuit \<times> unit result" where
  "origin_try_consume_circ_window now c =
     (if \<not> vegas_can_send (o_cc c)
      then (c, Inl (Handshake ''circuit : congestion window full''))
      else (c \<lparr> o_cc := vegas_on_send now (o_cc c) \<rparr>, Inr ()))"

definition origin_on_circ_sendme :: "instant \<Rightarrow> origin_circuit \<Rightarrow> origin_circuit" where
  "origin_on_circ_sendme now c = c \<lparr> o_cc := fst (vegas_on_sendme now (o_cc c)) \<rparr>"

definition origin_note_circ_delivered :: "origin_circuit \<Rightarrow> origin_circuit \<times> bool" where
  "origin_note_circ_delivered c =
     (let c1 = c \<lparr> o_circ_delivered := o_circ_delivered c + 1 \<rparr>
      in (c1, sint CC_SENDME_INC \<le> sint (o_circ_delivered c1)))"

definition origin_reset_circ_delivered :: "origin_circuit \<Rightarrow> origin_circuit" where
  "origin_reset_circ_delivered c = c \<lparr> o_circ_delivered := 0 \<rparr>"

definition encrypt_outbound ::
  "prims \<Rightarrow> instant \<Rightarrow> nat \<Rightarrow> relay_cell \<Rightarrow> origin_circuit \<Rightarrow> origin_circuit \<times> bytes result" where
  "encrypt_outbound P now target_hop relay c =
     (if length (o_hops c) \<le> target_hop
      then (c, Inl (Crypto ''encrypt_outbound: target_hop >= hops.len()''))
      else
        (let (c1, payload) =
           (case o_e2e c of
              Some e2e \<Rightarrow>
                (let (r, d) = stamp_digest P relay (h_forward_digest e2e);
                     (e2e', p) = onion_encrypt_forward P (e2e \<lparr> h_forward_digest := d \<rparr>) (relay_to_payload r)
                 in (c \<lparr> o_e2e := Some e2e' \<rparr>, p))
            | None \<Rightarrow>
                (let h = o_hops c ! target_hop;
                     (r, d) = stamp_digest P relay (h_forward_digest h)
                 in (c \<lparr> o_hops := (o_hops c)[target_hop := h \<lparr> h_forward_digest := d \<rparr>] \<rparr>,
                     relay_to_payload r)));
             (hs, p) = encrypt_hops P (take (Suc target_hop) (o_hops c1)) payload
         in (c1 \<lparr> o_hops := hs @ drop (Suc target_hop) (o_hops c1), o_last_activity := now \<rparr>, Inr p)))"

definition USIZE_MAX :: nat where "USIZE_MAX = 2 ^ 64 - 1"

definition decrypt_inbound ::
  "prims \<Rightarrow> instant \<Rightarrow> bytes \<Rightarrow> origin_circuit \<Rightarrow> origin_circuit \<times> (nat \<times> relay_cell) option" where
  "decrypt_inbound P now cell_payload c =
     (let (hs, payload, r) = peel_hops P 0 (o_hops c) cell_payload;
          c1 = c \<lparr> o_hops := hs \<rparr>
      in case r of
           Some hit \<Rightarrow> (c1 \<lparr> o_last_activity := now \<rparr>, Some hit)
         | None \<Rightarrow>
             (case o_e2e c1 of
                None \<Rightarrow> (c1, None)
              | Some e2e \<Rightarrow>
                  (let (e1, p1) = onion_decrypt_backward P e2e payload
                   in case recognize P p1 (h_backward_digest e1) of
                        None \<Rightarrow> (c1 \<lparr> o_e2e := Some e1 \<rparr>, None)
                      | Some (rc, d) \<Rightarrow>
                          (c1 \<lparr> o_e2e := Some (e1 \<lparr> h_backward_digest := d \<rparr>), o_last_activity := now \<rparr>,
                           Some (USIZE_MAX, rc)))))"

subsection \<open>Relay circuits\<close>

record relay_circuit =
  rc_prev_peer :: peer_id
  rc_prev_circ_id :: circuit_id
  rc_next_peer :: "peer_id option"
  rc_next_circ_id :: "circuit_id option"
  rc_hop :: hop_state
  rc_awaiting_extended :: bool
  rc_exit_streams :: stream_mux
  rc_cc :: vegas
  rc_circ_delivered :: "32 word"
  rc_last_activity :: instant

definition relay_try_consume_circ_window ::
  "instant \<Rightarrow> relay_circuit \<Rightarrow> relay_circuit \<times> unit result" where
  "relay_try_consume_circ_window now c =
     (if \<not> vegas_can_send (rc_cc c)
      then (c, Inl (Handshake ''relay circuit: congestion window full''))
      else (c \<lparr> rc_cc := vegas_on_send now (rc_cc c) \<rparr>, Inr ()))"

definition relay_on_circ_sendme :: "instant \<Rightarrow> relay_circuit \<Rightarrow> relay_circuit" where
  "relay_on_circ_sendme now c = c \<lparr> rc_cc := fst (vegas_on_sendme now (rc_cc c)) \<rparr>"

definition relay_note_circ_delivered :: "relay_circuit \<Rightarrow> relay_circuit \<times> bool" where
  "relay_note_circ_delivered c =
     (let c1 = c \<lparr> rc_circ_delivered := rc_circ_delivered c + 1 \<rparr>
      in (c1, sint CC_SENDME_INC \<le> sint (rc_circ_delivered c1)))"

definition relay_reset_circ_delivered :: "relay_circuit \<Rightarrow> relay_circuit" where
  "relay_reset_circ_delivered c = c \<lparr> rc_circ_delivered := 0 \<rparr>"

definition relay_touch :: "instant \<Rightarrow> relay_circuit \<Rightarrow> relay_circuit" where
  "relay_touch now c = c \<lparr> rc_last_activity := now \<rparr>"

subsection \<open>The manager's state\<close>

record circuit_manager =
  m_origins :: "(circuit_id, origin_circuit) hmap"
  m_relays :: "(leg, relay_circuit) hmap"
  m_relay_by_next :: "(leg, leg) hmap"
  m_next_origin_id :: u32
  m_intro_circuits :: "(bytes, circuit_id) hmap"
  m_intro_registered :: "(leg, bytes) hmap"
  m_rendezvous_cookies :: "(bytes, leg) hmap"
  m_rendezvous_bridges :: "(leg, leg) hmap"
  m_pending_rendezvous :: "(bytes, circuit_id \<times> bytes \<times> bytes \<times> bytes) hmap"
  m_e2e_keys :: "(circuit_id, e2e_keys) hmap"

definition mgr_new :: circuit_manager where
  "mgr_new = \<lparr> m_origins = [], m_relays = [], m_relay_by_next = [], m_next_origin_id = 0x80000000,
     m_intro_circuits = [], m_intro_registered = [], m_rendezvous_cookies = [],
     m_rendezvous_bridges = [], m_pending_rendezvous = [], m_e2e_keys = [] \<rparr>"

definition fresh_origin_id :: "circuit_manager \<Rightarrow> circuit_manager \<times> circuit_id" where
  "fresh_origin_id m =
     (m \<lparr> m_next_origin_id := m_next_origin_id m + 1 \<rparr>, CircuitId (m_next_origin_id m))"

definition set_padding_scheduler ::
  "circuit_id \<Rightarrow> pad_sched \<Rightarrow> circuit_manager \<Rightarrow> circuit_manager \<times> bool" where
  "set_padding_scheduler cid s m =
     (case hm_get (m_origins m) cid of
        Some oc \<Rightarrow> (m \<lparr> m_origins := hm_insert cid (oc \<lparr> o_padding_scheduler := s \<rparr>) (m_origins m) \<rparr>, True)
      | None \<Rightarrow> (m, False))"

subsection \<open>Rendezvous tables\<close>

definition register_intro_circuit :: "circuit_id \<Rightarrow> bytes \<Rightarrow> circuit_manager \<Rightarrow> circuit_manager" where
  "register_intro_circuit cid auth m =
     m \<lparr> m_intro_circuits := hm_insert auth cid (m_intro_circuits m) \<rparr>"

definition register_intro_relay ::
  "peer_id \<Rightarrow> circuit_id \<Rightarrow> bytes \<Rightarrow> circuit_manager \<Rightarrow> circuit_manager" where
  "register_intro_relay from_peer cid auth m =
     m \<lparr> m_intro_registered := hm_insert (from_peer, cid) auth (m_intro_registered m) \<rparr>"

definition find_intro_target :: "bytes \<Rightarrow> circuit_manager \<Rightarrow> leg option" where
  "find_intro_target auth m =
     map_option fst (List.find (\<lambda>(_, k). k = auth) (m_intro_registered m))"

definition register_rendezvous_cookie ::
  "bytes \<Rightarrow> peer_id \<Rightarrow> circuit_id \<Rightarrow> circuit_manager \<Rightarrow> circuit_manager" where
  "register_rendezvous_cookie cookie peer cid m =
     m \<lparr> m_rendezvous_cookies := hm_insert cookie (peer, cid) (m_rendezvous_cookies m) \<rparr>"

definition consume_rendezvous_cookie ::
  "bytes \<Rightarrow> circuit_manager \<Rightarrow> circuit_manager \<times> leg option" where
  "consume_rendezvous_cookie cookie m =
     (m \<lparr> m_rendezvous_cookies := hm_remove cookie (m_rendezvous_cookies m) \<rparr>,
      hm_get (m_rendezvous_cookies m) cookie)"

definition bridge_rendezvous :: "leg \<Rightarrow> leg \<Rightarrow> circuit_manager \<Rightarrow> circuit_manager" where
  "bridge_rendezvous client_leg hs_leg m =
     m \<lparr> m_rendezvous_bridges :=
           hm_insert hs_leg client_leg (hm_insert client_leg hs_leg (m_rendezvous_bridges m)) \<rparr>"

definition bridge_partner :: "leg \<Rightarrow> circuit_manager \<Rightarrow> leg option" where
  "bridge_partner l m = hm_get (m_rendezvous_bridges m) l"

definition unbridge_rendezvous :: "leg \<Rightarrow> circuit_manager \<Rightarrow> circuit_manager \<times> leg option" where
  "unbridge_rendezvous l m =
     (case hm_get (m_rendezvous_bridges m) l of
        Some partner \<Rightarrow>
          (m \<lparr> m_rendezvous_bridges := hm_remove partner (hm_remove l (m_rendezvous_bridges m)) \<rparr>,
           Some partner)
      | None \<Rightarrow> (m, None))"

definition register_pending_rendezvous ::
  "bytes \<Rightarrow> circuit_id \<Rightarrow> bytes \<Rightarrow> bytes \<Rightarrow> bytes \<Rightarrow> circuit_manager \<Rightarrow> circuit_manager" where
  "register_pending_rendezvous cookie cid client_sk client_x_pub hs_static_pub m =
     m \<lparr> m_pending_rendezvous :=
           hm_insert cookie (cid, client_sk, client_x_pub, hs_static_pub) (m_pending_rendezvous m) \<rparr>"

definition complete_rendezvous ::
  "prims \<Rightarrow> bytes \<Rightarrow> bytes \<Rightarrow> bytes \<Rightarrow> circuit_manager \<Rightarrow> circuit_manager \<times> circuit_id result" where
  "complete_rendezvous P cookie server_y auth m =
     (case hm_get (m_pending_rendezvous m) cookie of
        None \<Rightarrow> (m, Inl (Handshake ''no pending rendezvous for cookie''))
      | Some (cid, client_sk, client_x_pub, hs_b_pub) \<Rightarrow>
          (let m1 = m \<lparr> m_pending_rendezvous := hm_remove cookie (m_pending_rendezvous m) \<rparr>
           in case client_finalize P client_sk client_x_pub hs_b_pub server_y auth of
                Inl e \<Rightarrow> (m1, Inl e)
              | Inr keys \<Rightarrow>
                  (let m2 = (case hm_get (m_origins m1) cid of
                       Some oc \<Rightarrow> m1 \<lparr> m_origins :=
                          hm_insert cid (oc \<lparr> o_e2e := Some (hop_from_e2e_keys keys True) \<rparr>) (m_origins m1) \<rparr>
                     | None \<Rightarrow> m1)
                   in (m2 \<lparr> m_e2e_keys := hm_insert cid keys (m_e2e_keys m2) \<rparr>, Inr cid))))"


subsection \<open>Eviction and teardown\<close>

text \<open>One dead origin circuit, and one dead relay circuit, of the two loops.\<close>

definition evict_origin :: "circuit_id \<Rightarrow> circuit_manager \<Rightarrow> circuit_manager" where
  "evict_origin cid m = m \<lparr>
     m_origins := hm_remove cid (m_origins m),
     m_intro_circuits := hm_retain (\<lambda>_ v. v \<noteq> cid) (m_intro_circuits m),
     m_pending_rendezvous := hm_retain (\<lambda>_ (rp_cid, _, _, _). rp_cid \<noteq> cid) (m_pending_rendezvous m),
     m_e2e_keys := hm_remove cid (m_e2e_keys m) \<rparr>"

definition remove_relay :: "leg \<Rightarrow> circuit_manager \<Rightarrow> circuit_manager" where
  "remove_relay key m =
     (case hm_get (m_relays m) key of
        None \<Rightarrow> m
      | Some rc \<Rightarrow>
          (let m1 = m \<lparr> m_relays := hm_remove key (m_relays m) \<rparr>
           in case (rc_next_peer rc, rc_next_circ_id rc) of
                (Some np, Some nc) \<Rightarrow> m1 \<lparr> m_relay_by_next := hm_remove (np, nc) (m_relay_by_next m1) \<rparr>
              | _ \<Rightarrow> m1))"

definition evict_relay :: "leg \<Rightarrow> circuit_manager \<Rightarrow> circuit_manager" where
  "evict_relay key m =
     (let m1 = remove_relay key m;
          m2 = m1 \<lparr> m_intro_registered := hm_retain (\<lambda>k _. k \<noteq> key) (m_intro_registered m1),
                    m_rendezvous_cookies := hm_retain (\<lambda>_ l. l \<noteq> key) (m_rendezvous_cookies m1) \<rparr>
      in fst (unbridge_rendezvous key m2))"

definition evict_idle_circuits :: "instant \<Rightarrow> circuit_manager \<Rightarrow> circuit_manager \<times> (nat \<times> nat)" where
  "evict_idle_circuits now m =
     (let dead_origins = map fst (filter (\<lambda>(_, c).
            CIRCUIT_IDLE_TIMEOUT < duration_since now (o_last_activity c)) (m_origins m));
          m1 = fold evict_origin dead_origins m;
          dead_relays = map fst (filter (\<lambda>(_, rc).
            CIRCUIT_IDLE_TIMEOUT < duration_since now (rc_last_activity rc)) (m_relays m1));
          m2 = fold evict_relay dead_relays m1
      in (m2, (length dead_origins, length dead_relays)))"

definition mgr_destroy :: "peer_id \<Rightarrow> circuit_id \<Rightarrow> circuit_manager \<Rightarrow> circuit_manager" where
  "mgr_destroy from_peer cid m =
     (let m1 = remove_relay (from_peer, cid) m;
          m2 = fst (unbridge_rendezvous (from_peer, cid) m1)
      in m2 \<lparr> m_origins := hm_remove cid (m_origins m2),
              m_e2e_keys := hm_remove cid (m_e2e_keys m2),
              m_intro_circuits := hm_retain (\<lambda>_ c. c \<noteq> cid) (m_intro_circuits m2),
              m_intro_registered := hm_remove (from_peer, cid) (m_intro_registered m2) \<rparr>)"

subsection \<open>Origin side\<close>

definition start_circuit ::
  "prims \<Rightarrow> instant \<Rightarrow> bytes \<Rightarrow> peer_id \<Rightarrow> bytes \<Rightarrow> bytes \<Rightarrow> circuit_manager
     \<Rightarrow> circuit_manager \<times> (circuit_id \<times> bytes) result" where
  "start_circuit P now x_priv guard_peer guard_id guard_b m =
     (let (m1, cid) = fresh_origin_id m;
          c = origin_new cid guard_peer now;
          (hs, client_msg) = client_handshake_start P x_priv guard_id guard_b;
          m2 = m1 \<lparr> m_origins := hm_insert cid (c \<lparr> o_pending := Some hs \<rparr>) (m_origins m1) \<rparr>
      in (m2, and_then (cell_with_payload cid CCreate client_msg) (\<lambda>cell.
                Inr (cid, cell_to_bytes cell))))"

definition update_origin :: "circuit_id \<Rightarrow> origin_circuit \<Rightarrow> circuit_manager \<Rightarrow> circuit_manager" where
  "update_origin cid c m = m \<lparr> m_origins := hm_insert cid c (m_origins m) \<rparr>"

text \<open>Finish the pending handshake of a circuit with a reply and install the hop.\<close>

definition finish_pending ::
  "prims \<Rightarrow> string \<Rightarrow> bytes \<Rightarrow> origin_circuit \<Rightarrow> origin_circuit \<times> unit result" where
  "finish_pending P none_msg reply c =
     (case o_pending c of
        None \<Rightarrow> (c, Inl (Handshake none_msg))
      | Some hs \<Rightarrow>
          (let c1 = c \<lparr> o_pending := None \<rparr>
           in case client_handshake_finish P hs reply of
                Inl e \<Rightarrow> (c1, Inl e)
              | Inr keys \<Rightarrow> (c1 \<lparr> o_hops := o_hops c1 @ [hop_from_ntor keys] \<rparr>, Inr ())))"

definition handle_created ::
  "prims \<Rightarrow> circuit_id \<Rightarrow> bytes \<Rightarrow> circuit_manager \<Rightarrow> circuit_manager \<times> unit result" where
  "handle_created P cid server_reply m =
     (case hm_get (m_origins m) cid of
        None \<Rightarrow> (m, Inl (Handshake ''unknown origin circ ''))
      | Some c \<Rightarrow> (let (c', r) = finish_pending P ''no pending handshake'' server_reply c
                  in (update_origin cid c' m, r)))"

definition extend_origin ::
  "prims \<Rightarrow> instant \<Rightarrow> bytes \<Rightarrow> link_spec \<Rightarrow> origin_circuit \<Rightarrow> origin_circuit \<times> bytes result" where
  "extend_origin P now x_priv nxt c =
     (if o_hops c = [] then (c, Inl (Handshake ''extend: circuit has no hops''))
      else if MAX_RELAY_EARLY \<le> o_relay_early_used c
      then (c, Inl (Handshake ''extend: RELAY_EARLY budget exhausted''))
      else
        (let (hs, client_msg) = client_handshake_start P x_priv (ls_node_id nxt) (ls_static_pub nxt);
             c1 = c \<lparr> o_pending := Some hs \<rparr>;
             terminal = length (o_hops c1) - 1
         in case relay_new RExtend2 0 (build_extend2 nxt client_msg) of
              Inl e \<Rightarrow> (c1, Inl e)
            | Inr relay \<Rightarrow>
                (case encrypt_outbound P now terminal relay c1 of
                   (c2, Inl e) \<Rightarrow> (c2, Inl e)
                 | (c2, Inr payload) \<Rightarrow>
                     (c2 \<lparr> o_relay_early_used := o_relay_early_used c2 + 1 \<rparr>, Inr payload))))"

definition extend_circuit ::
  "prims \<Rightarrow> instant \<Rightarrow> bytes \<Rightarrow> circuit_id \<Rightarrow> link_spec \<Rightarrow> circuit_manager
     \<Rightarrow> circuit_manager \<times> bytes result" where
  "extend_circuit P now x_priv cid nxt m =
     (case hm_get (m_origins m) cid of
        None \<Rightarrow> (m, Inl (Handshake ''extend: unknown circ''))
      | Some c \<Rightarrow>
          (case extend_origin P now x_priv nxt c of
             (c', Inl e) \<Rightarrow> (update_origin cid c' m, Inl e)
           | (c', Inr payload) \<Rightarrow>
               (update_origin cid c' m,
                Inr (cell_to_bytes \<lparr> c_circ_id = cid, c_command = CRelayEarly, c_payload = payload \<rparr>))))"

definition origin_relay ::
  "prims \<Rightarrow> instant \<Rightarrow> bytes \<Rightarrow> origin_circuit \<Rightarrow> origin_circuit \<times> (nat \<times> relay_cell) option result" where
  "origin_relay P now payload c =
     (case decrypt_inbound P now payload c of
        (c1, None) \<Rightarrow> (c1, Inl AuthFailed)
      | (c1, Some (hop_idx, rc)) \<Rightarrow>
          if r_command rc = RExtended2 then
            (case parse_extended2 (r_data rc) of
               Inl e \<Rightarrow> (c1, Inl e)
             | Inr reply_bytes \<Rightarrow>
                 if length reply_bytes \<noteq> SERVER_HANDSHAKE_LEN
                 then (c1, Inl (Handshake ''extended2: wrong reply length''))
                 else (case finish_pending P ''extended2: no pending ntor'' reply_bytes c1 of
                         (c2, Inl e) \<Rightarrow> (c2, Inl e)
                       | (c2, Inr _) \<Rightarrow> (c2, Inr None)))
          else (c1, Inr (Some (hop_idx, rc))))"

definition handle_origin_relay ::
  "prims \<Rightarrow> instant \<Rightarrow> circuit_id \<Rightarrow> bytes \<Rightarrow> circuit_manager
     \<Rightarrow> circuit_manager \<times> (nat \<times> relay_cell) option result" where
  "handle_origin_relay P now cid payload m =
     (case hm_get (m_origins m) cid of
        None \<Rightarrow> (m, Inl (Handshake ''relay: unknown circ''))
      | Some c \<Rightarrow> (let (c', r) = origin_relay P now payload c in (update_origin cid c' m, r)))"

subsection \<open>Relay side\<close>

definition update_relay :: "leg \<Rightarrow> relay_circuit \<Rightarrow> circuit_manager \<Rightarrow> circuit_manager" where
  "update_relay key rc m = m \<lparr> m_relays := hm_insert key rc (m_relays m) \<rparr>"

definition handle_create ::
  "prims \<Rightarrow> instant \<Rightarrow> bytes \<Rightarrow> peer_id \<Rightarrow> circuit_id \<Rightarrow> bytes \<Rightarrow> bytes \<Rightarrow> bytes \<Rightarrow> bytes
     \<Rightarrow> circuit_manager \<Rightarrow> circuit_manager \<times> bytes result" where
  "handle_create P now y_priv from_peer cid my_id my_b_pub my_b_sec client_msg m =
     (case server_handshake P y_priv my_id my_b_pub my_b_sec client_msg of
        Inl e \<Rightarrow> (m, Inl e)
      | Inr (keys, reply) \<Rightarrow>
          (let rc = \<lparr> rc_prev_peer = from_peer, rc_prev_circ_id = cid, rc_next_peer = None,
                      rc_next_circ_id = None, rc_hop = hop_from_ntor keys,
                      rc_awaiting_extended = False, rc_exit_streams = mux_new, rc_cc = vegas_new,
                      rc_circ_delivered = 0, rc_last_activity = now \<rparr>
           in (update_relay (from_peer, cid) rc m,
               and_then (cell_with_payload cid CCreated reply) (\<lambda>cell. Inr (cell_to_bytes cell)))))"

datatype relay_action =
    RaHandle relay_cell
  | RaForward peer_id bytes
  | RaDrop

definition handle_forward_relay ::
  "prims \<Rightarrow> instant \<Rightarrow> peer_id \<Rightarrow> circuit_id \<Rightarrow> cell \<Rightarrow> circuit_manager
     \<Rightarrow> circuit_manager \<times> relay_action" where
  "handle_forward_relay P now from_peer cid cell m =
     (case hm_get (m_relays m) (from_peer, cid) of
        None \<Rightarrow> (m, RaDrop)
      | Some rc0 \<Rightarrow>
          (let (hop, payload) = onion_decrypt_forward P (rc_hop rc0) (c_payload cell);
               rc = rc0 \<lparr> rc_hop := hop, rc_last_activity := now \<rparr>;
               m1 = update_relay (from_peer, cid) rc m
           in case recognize P payload (h_forward_digest hop) of
                Some (relay, d) \<Rightarrow>
                  (update_relay (from_peer, cid) (rc \<lparr> rc_hop := hop \<lparr> h_forward_digest := d \<rparr> \<rparr>) m,
                   RaHandle relay)
              | None \<Rightarrow>
                  (case (rc_next_peer rc, rc_next_circ_id rc) of
                     (Some np, Some ncid) \<Rightarrow>
                       (m1, RaForward np (cell_to_bytes
                          \<lparr> c_circ_id = ncid, c_command = c_command cell, c_payload = payload \<rparr>))
                   | _ \<Rightarrow>
                       (case hm_get (m_rendezvous_bridges m1) (from_peer, cid) of
                          None \<Rightarrow> (m1, RaDrop)
                        | Some partner \<Rightarrow>
                            (case hm_get (m_relays m1) partner of
                               None \<Rightarrow> (m1, RaDrop)
                             | Some prc \<Rightarrow>
                                 (let (phop, p2) = onion_encrypt_backward P (rc_hop prc) payload;
                                      prc' = prc \<lparr> rc_hop := phop, rc_last_activity := now \<rparr>
                                  in (update_relay partner prc' m1,
                                      RaForward (rc_prev_peer prc) (cell_to_bytes
                                        \<lparr> c_circ_id = rc_prev_circ_id prc, c_command = c_command cell,
                                          c_payload = p2 \<rparr>))))))))"

definition begin_extend ::
  "peer_id \<Rightarrow> circuit_id \<Rightarrow> peer_id \<Rightarrow> circuit_id \<Rightarrow> bytes \<Rightarrow> circuit_manager
     \<Rightarrow> circuit_manager \<times> bytes result" where
  "begin_extend from_peer prev_cid next_peer next_cid extend_data m =
     (case hm_get (m_relays m) (from_peer, prev_cid) of
        None \<Rightarrow> (m, Inl (Handshake ''begin_extend: unknown circ''))
      | Some rc \<Rightarrow>
          if rc_next_peer rc \<noteq> None then (m, Inl (Handshake ''begin_extend: already extended''))
          else (case parse_extend2 extend_data of
                  Inl e \<Rightarrow> (m, Inl e)
                | Inr (_, client_msg) \<Rightarrow>
                    if length client_msg \<noteq> CLIENT_HANDSHAKE_LEN
                    then (m, Inl (Handshake ''extend2: wrong hdata length''))
                    else
                      (let rc' = rc \<lparr> rc_next_peer := Some next_peer, rc_next_circ_id := Some next_cid,
                                      rc_awaiting_extended := True \<rparr>;
                           m1 = update_relay (from_peer, prev_cid) rc' m;
                           m2 = m1 \<lparr> m_relay_by_next :=
                                  hm_insert (next_peer, next_cid) (from_peer, prev_cid) (m_relay_by_next m1) \<rparr>
                       in (m2, and_then (cell_with_payload next_cid CCreate client_msg)
                                 (\<lambda>cell. Inr (cell_to_bytes cell))))))"

definition handle_created_from_next ::
  "prims \<Rightarrow> peer_id \<Rightarrow> circuit_id \<Rightarrow> bytes \<Rightarrow> circuit_manager
     \<Rightarrow> circuit_manager \<times> (peer_id \<times> bytes) result" where
  "handle_created_from_next P from_next next_cid reply m =
     (case hm_get (m_relay_by_next m) (from_next, next_cid) of
        None \<Rightarrow> (m, Inl (Handshake ''created_from_next: no matching relay''))
      | Some prev_key \<Rightarrow>
          (case hm_get (m_relays m) prev_key of
             None \<Rightarrow> (m, Inl (Handshake ''created_from_next: gone''))
           | Some rc \<Rightarrow>
               if \<not> rc_awaiting_extended rc
               then (m, Inl (Handshake ''created_from_next: not expecting''))
               else
                 (let rc1 = rc \<lparr> rc_awaiting_extended := False \<rparr>
                  in case relay_new RExtended2 0 (build_extended2 reply) of
                       Inl e \<Rightarrow> (update_relay prev_key rc1 m, Inl e)
                     | Inr relay \<Rightarrow>
                         (let (r, d) = stamp_digest P relay (h_backward_digest (rc_hop rc1));
                              (hop, payload) = onion_encrypt_backward P
                                 (rc_hop rc1 \<lparr> h_backward_digest := d \<rparr>) (relay_to_payload r)
                          in (update_relay prev_key (rc1 \<lparr> rc_hop := hop \<rparr>) m,
                              Inr (rc_prev_peer rc1, cell_to_bytes
                                \<lparr> c_circ_id = rc_prev_circ_id rc1, c_command = CRelay,
                                  c_payload = payload \<rparr>))))))"

definition handle_backward_relay ::
  "prims \<Rightarrow> peer_id \<Rightarrow> circuit_id \<Rightarrow> cell \<Rightarrow> circuit_manager
     \<Rightarrow> circuit_manager \<times> (peer_id \<times> bytes) option" where
  "handle_backward_relay P from_next next_cid cell m =
     (case hm_get (m_relay_by_next m) (from_next, next_cid) of
        None \<Rightarrow> (m, None)
      | Some prev_key \<Rightarrow>
          (case hm_get (m_relays m) prev_key of
             None \<Rightarrow> (m, None)
           | Some rc \<Rightarrow>
               (let (hop, payload) = onion_encrypt_backward P (rc_hop rc) (c_payload cell)
                in (update_relay prev_key (rc \<lparr> rc_hop := hop \<rparr>) m,
                    Some (rc_prev_peer rc, cell_to_bytes
                      \<lparr> c_circ_id = rc_prev_circ_id rc, c_command = c_command cell,
                        c_payload = payload \<rparr>)))))"

text \<open>How the node (phinet-core/src/node.rs) tells which of the three tables a RELAY cell is for.\<close>

datatype relay_route = RouteOrigin | RouteBackward | RouteForward | RouteNone

definition relay_route_of :: "peer_id \<Rightarrow> circuit_id \<Rightarrow> circuit_manager \<Rightarrow> relay_route" where
  "relay_route_of from_peer cid m =
     (if hm_get (m_origins m) cid \<noteq> None then RouteOrigin
      else if hm_get (m_relay_by_next m) (from_peer, cid) \<noteq> None then RouteBackward
      else if hm_get (m_relays m) (from_peer, cid) \<noteq> None then RouteForward
      else RouteNone)"

end
