(* ===== verification/MgrInv.thy ===== *)
theory MgrInv
  imports CircuitMgr
begin

section \<open>Invariants of the circuit manager\<close>

text \<open>
  What the operations of the manager keep. Whatever arrives, every relay circuit is filed under
  its previous leg with a next leg that is whole or absent, and an origin circuit has at most
  one hop more than it has sent RELAY_EARLY cells. As long as no circuit id or leg is used
  again while its first use lives, which the code does not check (the flag \<open>s\<close> of the
  definitions below), relay circuits and the reverse routing table moreover describe each other
  and rendezvous bridges are symmetric.
\<close>

subsection \<open>Routing tables\<close>

definition next_leg :: "relay_circuit \<Rightarrow> leg option" where
  "next_leg rc = (case (rc_next_peer rc, rc_next_circ_id rc) of
     (Some p, Some c) \<Rightarrow> Some (p, c) | _ \<Rightarrow> None)"

text \<open>A relay circuit is filed under its previous leg, and its next leg is whole or absent.\<close>

definition keyed :: "leg \<Rightarrow> relay_circuit \<Rightarrow> bool" where
  "keyed k rc \<longleftrightarrow> rc_prev_peer rc = fst k \<and> rc_prev_circ_id rc = snd k
     \<and> (rc_next_peer rc = None \<longleftrightarrow> rc_next_circ_id rc = None)"

text \<open>The reverse table holds exactly the next legs of the relay circuits.\<close>

definition inverse_of :: "('k \<Rightarrow> 'k option) \<Rightarrow> ('k \<Rightarrow> 'k option) \<Rightarrow> bool" where
  "inverse_of f g \<longleftrightarrow> (\<forall>x y. g y = Some x \<longleftrightarrow> f x = Some y)"

definition next_of :: "(leg, relay_circuit) hmap \<Rightarrow> leg \<Rightarrow> leg option" where
  "next_of R k = Option.bind (hm_get R k) next_leg"

definition routes_wf :: "bool \<Rightarrow> (leg, relay_circuit) hmap \<Rightarrow> (leg, leg) hmap \<Rightarrow> bool" where
  "routes_wf s R N \<longleftrightarrow> hm_wf R \<and> hm_wf N
     \<and> (\<forall>k rc. hm_get R k = Some rc \<longrightarrow> keyed k rc)
     \<and> (s \<longrightarrow> inverse_of (next_of R) (hm_get N))"

lemma inverse_upd:
  "inverse_of f g \<Longrightarrow> f x = None \<Longrightarrow> g y = None \<Longrightarrow> inverse_of (f(x \<mapsto> y)) (g(y \<mapsto> x))"
  unfolding inverse_of_def fun_upd_apply by (metis option.distinct(1) option.inject)

lemma inverse_del:
  "inverse_of f g \<Longrightarrow> f x = Some y \<Longrightarrow> inverse_of (f(x := None)) (g(y := None))"
  unfolding inverse_of_def fun_upd_apply by (metis option.distinct(1) option.inject)

lemma next_of_insert: "next_of (hm_insert k rc R) = (next_of R)(k := next_leg rc)"
  by (rule ext) (simp add: next_of_def hm.get_ins)

lemma next_of_remove: "next_of (hm_remove k R) = (next_of R)(k := None)"
  by (rule ext) (simp add: next_of_def hm.get_rem)

lemma hm_get_insert: "hm_get (hm_insert k v m) = (hm_get m)(k \<mapsto> v)"
  by (rule update_conv')

lemma hm_get_remove: "hm_get (hm_remove k m) = (hm_get m)(k := None)"
  by (rule delete_conv')

lemma keyed_insert:
  "\<forall>k rc. hm_get R k = Some rc \<longrightarrow> keyed k rc \<Longrightarrow> keyed k rc \<Longrightarrow>
   \<forall>k' x. hm_get (hm_insert k rc R) k' = Some x \<longrightarrow> keyed k' x"
  by (metis hm.get_ins option.inject)

lemma keyed_remove:
  "\<forall>k rc. hm_get R k = Some rc \<longrightarrow> keyed k rc \<Longrightarrow>
   \<forall>k' x. hm_get (hm_remove k R) k' = Some x \<longrightarrow> keyed k' x"
  by (metis hm.get_rem option.distinct(1))

lemma routes_wf_relay: "routes_wf s R N \<Longrightarrow> hm_get R k = Some rc \<Longrightarrow> keyed k rc"
  by (metis routes_wf_def)

lemma routes_wf_next:
  "routes_wf True R N \<Longrightarrow> hm_get N nk = Some k \<longleftrightarrow> next_of R k = Some nk"
  unfolding routes_wf_def inverse_of_def by metis

lemma routes_wf_update:
  assumes "routes_wf s R N" "hm_get R k = Some rc" "keyed k rc'" "next_leg rc' = next_leg rc"
  shows "routes_wf s (hm_insert k rc' R) N"
proof -
  have "next_of (hm_insert k rc' R) = next_of R"
    using assms(2,4) by (auto simp: next_of_insert next_of_def)
  then show ?thesis
    using assms(1) keyed_insert [OF _ assms(3)] unfolding routes_wf_def by (metis hm.wf_ins)
qed

lemma routes_wf_fresh:
  assumes "routes_wf s R N" "s \<Longrightarrow> hm_get R k = None" "keyed k rc" "next_leg rc = None"
  shows "routes_wf s (hm_insert k rc R) N"
proof -
  have "next_of (hm_insert k rc R) = next_of R" if s
    using assms(2) [OF that] assms(4) by (auto simp: next_of_insert next_of_def)
  then show ?thesis
    using assms(1) keyed_insert [OF _ assms(3)] unfolding routes_wf_def by (metis hm.wf_ins)
qed

lemma routes_wf_extend:
  assumes "routes_wf s R N" "hm_get R k = Some rc" "next_leg rc = None" "s \<Longrightarrow> hm_get N nk = None"
    "keyed k rc'" "next_leg rc' = Some nk"
  shows "routes_wf s (hm_insert k rc' R) (hm_insert nk k N)"
proof -
  have "inverse_of ((next_of R)(k \<mapsto> nk)) ((hm_get N)(nk \<mapsto> k))" if s
    using assms that by (intro inverse_upd) (simp_all add: routes_wf_def next_of_def)
  then have "s \<longrightarrow> inverse_of (next_of (hm_insert k rc' R)) (hm_get (hm_insert nk k N))"
    unfolding next_of_insert hm_get_insert assms(6) by blast
  then show ?thesis
    using assms(1) keyed_insert [OF _ assms(5)] unfolding routes_wf_def by (metis hm.wf_ins)
qed

lemma routes_wf_remove_none:
  assumes "routes_wf s R N" "hm_get R k = Some rc" "next_leg rc = None"
  shows "routes_wf s (hm_remove k R) N"
proof -
  have "next_of (hm_remove k R) = next_of R"
    using assms(2,3) by (auto simp: next_of_remove next_of_def)
  then show ?thesis
    using assms(1) keyed_remove unfolding routes_wf_def by (metis hm.wf_rem)
qed

lemma routes_wf_remove_next:
  assumes "routes_wf s R N" "hm_get R k = Some rc" "next_leg rc = Some nk"
  shows "routes_wf s (hm_remove k R) (hm_remove nk N)"
proof -
  have "inverse_of ((next_of R)(k := None)) ((hm_get N)(nk := None))" if s
    using assms that by (intro inverse_del) (simp_all add: routes_wf_def next_of_def)
  then have "s \<longrightarrow> inverse_of (next_of (hm_remove k R)) (hm_get (hm_remove nk N))"
    unfolding next_of_remove hm_get_remove by blast
  then show ?thesis
    using assms(1) keyed_remove unfolding routes_wf_def by (metis hm.wf_rem)
qed

lemma remove_relay_routes:
  assumes "routes_wf s (m_relays m) (m_relay_by_next m)"
  shows "routes_wf s (m_relays (remove_relay k m)) (m_relay_by_next (remove_relay k m))"
proof (cases "hm_get (m_relays m) k")
  case None
  then show ?thesis using assms by (simp add: remove_relay_def)
next
  case (Some rc)
  show ?thesis
  proof (cases "next_leg rc")
    case None
    then have "routes_wf s (hm_remove k (m_relays m)) (m_relay_by_next m)"
      using routes_wf_remove_none [OF assms Some] by simp
    moreover have "m_relays (remove_relay k m) = hm_remove k (m_relays m)"
      "m_relay_by_next (remove_relay k m) = m_relay_by_next m"
      using Some None by (auto simp: remove_relay_def next_leg_def split: option.splits)
    ultimately show ?thesis by simp
  next
    case (Some nk)
    with \<open>hm_get (m_relays m) k = Some rc\<close>
    have "routes_wf s (hm_remove k (m_relays m)) (hm_remove nk (m_relay_by_next m))"
      using routes_wf_remove_next [OF assms] by simp
    moreover have "m_relays (remove_relay k m) = hm_remove k (m_relays m)"
      "m_relay_by_next (remove_relay k m) = hm_remove nk (m_relay_by_next m)"
      using Some \<open>hm_get (m_relays m) k = Some rc\<close>
      by (auto simp: remove_relay_def next_leg_def split: option.splits)
    ultimately show ?thesis by simp
  qed
qed

subsection \<open>Bridges\<close>

definition bridges_wf :: "bool \<Rightarrow> (leg, leg) hmap \<Rightarrow> bool" where
  "bridges_wf s B \<longleftrightarrow> hm_wf B \<and> (s \<longrightarrow> inverse_of (hm_get B) (hm_get B))"

lemma inverse_pair:
  assumes "inverse_of f f" "f a = None" "f b = None"
  shows "inverse_of (f(a \<mapsto> b, b \<mapsto> a)) (f(a \<mapsto> b, b \<mapsto> a))"
  unfolding inverse_of_def
proof (intro allI)
  fix x y
  have h: "f v = Some u \<longleftrightarrow> f u = Some v" for u v using assms(1) by (simp add: inverse_of_def)
  have n: "f u \<noteq> Some a" "f u \<noteq> Some b" for u using h [of u] assms(2,3) by auto
  show "(f(a \<mapsto> b, b \<mapsto> a)) y = Some x \<longleftrightarrow> (f(a \<mapsto> b, b \<mapsto> a)) x = Some y"
    using h [of x y] n [of x] n [of y] assms(2,3) by (auto simp: fun_upd_def)
qed

lemma inverse_unpair:
  assumes "inverse_of f f" "f a = Some b"
  shows "inverse_of (f(a := None, b := None)) (f(a := None, b := None))"
  unfolding inverse_of_def
proof (intro allI)
  fix x y
  have h: "f v = Some u \<longleftrightarrow> f u = Some v" for u v using assms(1) by (simp add: inverse_of_def)
  have "f b = Some a" using h [of a b] assms(2) by simp
  then show "(f(a := None, b := None)) y = Some x \<longleftrightarrow> (f(a := None, b := None)) x = Some y"
    using h [of x y] h [of a x] h [of a y] h [of b x] h [of b y] assms(2) by (auto simp: fun_upd_def)
qed

lemma bridges_wf_insert:
  "bridges_wf s B \<Longrightarrow> (s \<Longrightarrow> hm_get B a = None \<and> hm_get B b = None) \<Longrightarrow>
   bridges_wf s (hm_insert b a (hm_insert a b B))"
  unfolding bridges_wf_def hm_get_insert using inverse_pair [of "hm_get B" a b] by (simp only: hm.wf_ins simp_thms) blast

lemma unbridge_wf:
  assumes "bridges_wf s (m_rendezvous_bridges m)"
  shows "bridges_wf s (m_rendezvous_bridges (fst (unbridge_rendezvous l m)))"
proof (cases "hm_get (m_rendezvous_bridges m) l")
  case None
  then show ?thesis using assms by (simp add: unbridge_rendezvous_def)
next
  case (Some q)
  then have e: "m_rendezvous_bridges (fst (unbridge_rendezvous l m)) =
      hm_remove q (hm_remove l (m_rendezvous_bridges m))"
    by (simp add: unbridge_rendezvous_def)
  from Some assms show ?thesis
    unfolding e bridges_wf_def hm_get_remove by (simp add: hm.wf_rem inverse_unpair)
qed

lemma unbridge_gone:
  assumes "bridges_wf True (m_rendezvous_bridges m)" "unbridge_rendezvous l m = (m', r)"
  shows "bridge_partner l m' = None \<and> (\<forall>x. bridge_partner x m' \<noteq> Some l)
    \<and> r = bridge_partner l m \<and> (\<forall>x. x \<noteq> l \<and> r \<noteq> Some x \<longrightarrow> bridge_partner x m' = bridge_partner x m)"
proof -
  have inv: "\<And>x y. hm_get (m_rendezvous_bridges m) y = Some x \<longleftrightarrow> hm_get (m_rendezvous_bridges m) x = Some y"
    using assms(1) unfolding bridges_wf_def inverse_of_def by metis
  show ?thesis
  proof (cases "hm_get (m_rendezvous_bridges m) l")
    case None
    then have e: "m' = m" "r = None" using assms(2) by (simp_all add: unbridge_rendezvous_def)
    show ?thesis unfolding e bridge_partner_def using None inv by (metis option.distinct(1))
  next
    case (Some q)
    then have e: "m_rendezvous_bridges m' = hm_remove q (hm_remove l (m_rendezvous_bridges m))" "r = Some q"
      using assms(2) by (auto simp: unbridge_rendezvous_def)
    show ?thesis
      unfolding bridge_partner_def e hm.get_rem
      using Some inv by (metis option.distinct(1) option.inject)
  qed
qed

subsection \<open>Origin circuits\<close>

definition origin_wf :: "origin_circuit \<Rightarrow> bool" where
  "origin_wf c \<longleftrightarrow> o_relay_early_used c \<le> MAX_RELAY_EARLY
     \<and> length (o_hops c) + (if o_pending c = None then 0 else 1) \<le> 1 + unat (o_relay_early_used c)"

definition origins_wf :: "(circuit_id, origin_circuit) hmap \<Rightarrow> bool" where
  "origins_wf O' \<longleftrightarrow> hm_wf O' \<and> (\<forall>cid c. hm_get O' cid = Some c \<longrightarrow> o_id c = cid \<and> origin_wf c)"

lemma encrypt_hops_length: "length (fst (encrypt_hops P hs p)) = length hs"
  by (induction hs) (auto simp: split_beta Let_def)

lemma peel_hops_length: "length (fst (peel_hops P i hs p)) = length hs"
  by (induction hs arbitrary: i p) (auto simp: split_beta Let_def split: option.splits)

lemma encrypt_outbound_fields:
  assumes "encrypt_outbound P now t relay c = (c', r)"
  shows "length (o_hops c') = length (o_hops c)" "o_pending c' = o_pending c"
    "o_relay_early_used c' = o_relay_early_used c" "o_id c' = o_id c" "o_peer c' = o_peer c"
    "t < length (o_hops c) \<Longrightarrow> \<exists>p. r = Inr p"
proof -
  show "length (o_hops c') = length (o_hops c)" "o_pending c' = o_pending c"
    "o_relay_early_used c' = o_relay_early_used c" "o_id c' = o_id c" "o_peer c' = o_peer c"
    "t < length (o_hops c) \<Longrightarrow> \<exists>p. r = Inr p"
    using assms
    by (auto simp: encrypt_outbound_def Let_def split_beta encrypt_hops_length
        split: if_splits option.splits)
qed

lemma decrypt_inbound_fields:
  assumes "decrypt_inbound P now p c = (c', r)"
  shows "length (o_hops c') = length (o_hops c) \<and> o_pending c' = o_pending c
    \<and> o_relay_early_used c' = o_relay_early_used c \<and> o_id c' = o_id c \<and> o_peer c' = o_peer c"
  using assms
  by (auto simp: decrypt_inbound_def Let_def split_beta peel_hops_length split: option.splits)

lemma finish_pending_wf:
  "origin_wf c \<Longrightarrow> finish_pending P msg reply c = (c', r) \<Longrightarrow> origin_wf c' \<and> o_id c' = o_id c"
  by (auto simp: finish_pending_def origin_wf_def Let_def split: option.splits sum.splits)

lemma build_extend2_length:
  "link_spec_wf l \<Longrightarrow> length (build_extend2 l msg) = 81 + length msg"
  by (simp add: build_extend2_def Let_def octets_def link_spec_wf_def)

lemma extend_origin_wf:
  assumes "origin_wf c" "dh_ok P" "link_spec_wf nxt" "extend_origin P now x nxt c = (c', r)"
  shows "origin_wf c' \<and> o_id c' = o_id c"
proof (cases "o_hops c = [] \<or> MAX_RELAY_EARLY \<le> o_relay_early_used c")
  case True
  then have "c' = c"
    using assms(4) unfolding extend_origin_def by (auto split: if_splits)
  with assms(1) show ?thesis by simp
next
  case False
  obtain hs msg where hm: "client_handshake_start P x (ls_node_id nxt) (ls_static_pub nxt) = (hs, msg)"
    by fastforce
  then have "length msg = 96"
    using assms(2,3) by (auto simp: client_handshake_start_def Let_def link_spec_wf_def)
  then have "length (build_extend2 nxt msg) = 177" using build_extend2_length [OF assms(3)] by simp
  then obtain relay where relay: "relay_new RExtend2 0 (build_extend2 nxt msg) = Inr relay"
    by (simp add: relay_new_def)
  let ?c1 = "c \<lparr> o_pending := Some hs \<rparr>"
  obtain c2 r2 where enc: "encrypt_outbound P now (length (o_hops c) - 1) relay ?c1 = (c2, r2)"
    by fastforce
  note f = encrypt_outbound_fields [OF enc]
  have "length (o_hops c) - 1 < length (o_hops ?c1)" using False by simp
  then obtain p where r2: "r2 = Inr p" using f(6) by blast
  have c': "c' = c2 \<lparr> o_relay_early_used := o_relay_early_used c2 + 1 \<rparr>"
    using assms(4) False hm relay enc r2 by (simp add: extend_origin_def Let_def)
  have lt: "unat (o_relay_early_used c) < 5" using False by (simp add: word_le_nat_alt)
  then have "unat (o_relay_early_used c + 1) = unat (o_relay_early_used c) + 1"
    by (simp add: unat_word_ariths)
  with lt show ?thesis
    using assms(1) f(1-4) unfolding c' by (auto simp: origin_wf_def word_le_nat_alt split: if_splits)
qed

lemma origin_relay_wf:
  assumes "origin_wf c" "origin_relay P now p c = (c', r)"
  shows "origin_wf c' \<and> o_id c' = o_id c"
proof -
  obtain c1 hit where d: "decrypt_inbound P now p c = (c1, hit)" by fastforce
  have w: "origin_wf c1" "o_id c1 = o_id c"
    using decrypt_inbound_fields [OF d] assms(1) by (simp_all add: origin_wf_def)
  show ?thesis
    using assms(2) d w
    by (auto simp: origin_relay_def dest: finish_pending_wf [OF w(1)]
        split: option.splits if_splits sum.splits prod.splits)
qed

lemma origins_wf_insert:
  "origins_wf O' \<Longrightarrow> o_id c = cid \<Longrightarrow> origin_wf c \<Longrightarrow> origins_wf (hm_insert cid c O')"
  by (auto simp: origins_wf_def hm.get_ins hm.wf_ins split: if_splits)

lemma origins_wf_remove: "origins_wf O' \<Longrightarrow> origins_wf (hm_remove cid O')"
  by (auto simp: origins_wf_def hm.get_rem hm.wf_rem split: if_splits)


subsection \<open>Every operation keeps the invariant\<close>

definition mgr_wf :: "bool \<Rightarrow> circuit_manager \<Rightarrow> bool" where
  "mgr_wf s m \<longleftrightarrow> routes_wf s (m_relays m) (m_relay_by_next m) \<and> bridges_wf s (m_rendezvous_bridges m)
     \<and> origins_wf (m_origins m)"

lemma mgr_wfI:
  "routes_wf s (m_relays m) (m_relay_by_next m) \<Longrightarrow> bridges_wf s (m_rendezvous_bridges m) \<Longrightarrow>
   origins_wf (m_origins m) \<Longrightarrow> mgr_wf s m"
  by (simp add: mgr_wf_def)

lemma mgr_wf_new: "mgr_wf s mgr_new"
  by (simp add: mgr_wf_def mgr_new_def routes_wf_def bridges_wf_def origins_wf_def inverse_of_def
      next_of_def)

lemma mgr_wf_parts:
  "mgr_wf s m \<Longrightarrow> m_relays m' = m_relays m \<Longrightarrow> m_relay_by_next m' = m_relay_by_next m \<Longrightarrow>
   m_rendezvous_bridges m' = m_rendezvous_bridges m \<Longrightarrow> m_origins m' = m_origins m \<Longrightarrow> mgr_wf s m'"
  by (simp add: mgr_wf_def)

lemma mgr_wf_update_origin:
  "mgr_wf s m \<Longrightarrow> origin_wf c \<Longrightarrow> o_id c = cid \<Longrightarrow> mgr_wf s (update_origin cid c m)"
  by (simp add: mgr_wf_def update_origin_def origins_wf_insert)

lemma mgr_wf_origin:
  "mgr_wf s m \<Longrightarrow> hm_get (m_origins m) cid = Some c \<Longrightarrow> origin_wf c \<and> o_id c = cid"
  by (simp add: mgr_wf_def origins_wf_def)

lemma mgr_wf_relay: "mgr_wf s m \<Longrightarrow> hm_get (m_relays m) k = Some rc \<Longrightarrow> keyed k rc"
  by (auto simp: mgr_wf_def dest: routes_wf_relay)

lemma mgr_wf_update_relay:
  "mgr_wf s m \<Longrightarrow> hm_get (m_relays m) k = Some rc \<Longrightarrow> keyed k rc' \<Longrightarrow> next_leg rc' = next_leg rc \<Longrightarrow>
   mgr_wf s (update_relay k rc' m)"
  unfolding mgr_wf_def update_relay_def by (auto intro: routes_wf_update)

lemma keyed_hop [simp]:
  "keyed k (rc \<lparr> rc_hop := h \<rparr>) = keyed k rc" "keyed k (rc \<lparr> rc_last_activity := t \<rparr>) = keyed k rc"
  "keyed k (rc \<lparr> rc_awaiting_extended := b \<rparr>) = keyed k rc"
  by (simp_all add: keyed_def)

lemma next_leg_hop [simp]:
  "next_leg (rc \<lparr> rc_hop := h \<rparr>) = next_leg rc" "next_leg (rc \<lparr> rc_last_activity := t \<rparr>) = next_leg rc"
  "next_leg (rc \<lparr> rc_awaiting_extended := b \<rparr>) = next_leg rc"
  by (simp_all add: next_leg_def)

lemma start_circuit_wf:
  assumes "mgr_wf s m"
  shows "mgr_wf s (fst (start_circuit P now x g gid gb m))"
proof -
  have "origin_wf (origin_new cid g now \<lparr> o_pending := Some hs \<rparr>)" for cid hs
    by (simp add: origin_wf_def origin_new_def)
  then show ?thesis
    using assms
    by (auto simp: start_circuit_def fresh_origin_id_def Let_def split_beta mgr_wf_def
        origin_new_def intro!: origins_wf_insert)
qed

lemma finish_pending_wf':
  "origin_wf c \<Longrightarrow> origin_wf (fst (finish_pending P msg reply c))
     \<and> o_id (fst (finish_pending P msg reply c)) = o_id c"
  using finish_pending_wf [of c P msg reply] by (cases "finish_pending P msg reply c") simp

lemma origin_relay_wf':
  "origin_wf c \<Longrightarrow> origin_wf (fst (origin_relay P now p c)) \<and> o_id (fst (origin_relay P now p c)) = o_id c"
  using origin_relay_wf [of c P now p] by (cases "origin_relay P now p c") simp

lemma handle_created_wf: "mgr_wf s m \<Longrightarrow> mgr_wf s (fst (handle_created P cid reply m))"
  by (auto simp: handle_created_def split_beta finish_pending_wf' dest: mgr_wf_origin
      intro!: mgr_wf_update_origin split: option.split)

lemma fst_extend_circuit:
  "hm_get (m_origins m) cid = Some c \<Longrightarrow>
   fst (extend_circuit P now x cid nxt m) = update_origin cid (fst (extend_origin P now x nxt c)) m"
  by (simp add: extend_circuit_def split: prod.split sum.split)

lemma extend_circuit_wf:
  assumes "mgr_wf s m" "dh_ok P" "link_spec_wf nxt"
  shows "mgr_wf s (fst (extend_circuit P now x cid nxt m))"
proof (cases "hm_get (m_origins m) cid")
  case None
  then show ?thesis using assms by (simp add: extend_circuit_def)
next
  case (Some c)
  obtain c' r where e: "extend_origin P now x nxt c = (c', r)" by fastforce
  have "origin_wf c' \<and> o_id c' = cid"
    using extend_origin_wf [OF _ assms(2,3) e] mgr_wf_origin [OF assms(1) Some] by simp
  then show ?thesis
    using assms(1) by (simp add: fst_extend_circuit [OF Some] e mgr_wf_update_origin)
qed

lemma handle_origin_relay_wf: "mgr_wf s m \<Longrightarrow> mgr_wf s (fst (handle_origin_relay P now cid p m))"
  by (auto simp: handle_origin_relay_def split_beta origin_relay_wf' dest: mgr_wf_origin
      intro!: mgr_wf_update_origin split: option.split)

lemma handle_create_wf:
  assumes "mgr_wf s m" "s \<Longrightarrow> hm_get (m_relays m) (p, cid) = None"
  shows "mgr_wf s (fst (handle_create P now y p cid i b sec msg m))"
  using assms
  by (auto simp: handle_create_def mgr_wf_def update_relay_def Let_def keyed_def next_leg_def
      split: sum.split intro!: routes_wf_fresh)

lemma handle_forward_relay_wf:
  assumes "mgr_wf s m"
  shows "mgr_wf s (fst (handle_forward_relay P now p cid cell m))"
proof (cases "hm_get (m_relays m) (p, cid)")
  case None
  then show ?thesis using assms by (simp add: handle_forward_relay_def)
next
  case (Some rc0)
  have k: "keyed (p, cid) rc0" using mgr_wf_relay [OF assms Some] .
  obtain hop payload where d: "onion_decrypt_forward P (rc_hop rc0) (c_payload cell) = (hop, payload)"
    by fastforce
  let ?rc = "rc0 \<lparr> rc_hop := hop, rc_last_activity := now \<rparr>"
  have m1: "mgr_wf s (update_relay (p, cid) ?rc m)"
    by (rule mgr_wf_update_relay [OF assms Some]) (simp_all add: k)
  have h: "mgr_wf s (update_relay (p, cid) (?rc \<lparr> rc_hop := h \<rparr>) m)" for h
    by (rule mgr_wf_update_relay [OF assms Some]) (simp_all add: k)
  have b: "mgr_wf s (update_relay q (prc \<lparr> rc_hop := h, rc_last_activity := now \<rparr>) (update_relay (p, cid) ?rc m))"
    if "hm_get (m_relays (update_relay (p, cid) ?rc m)) q = Some prc" for q prc h
    by (rule mgr_wf_update_relay [OF m1 that]) (simp_all add: mgr_wf_relay [OF m1 that])
  show ?thesis
    using m1 h b
    by (simp add: handle_forward_relay_def Some d Let_def split_beta split: option.split)
qed

lemma begin_extend_wf:
  assumes "mgr_wf s m" "s \<Longrightarrow> hm_get (m_relay_by_next m) (np, nc) = None"
  shows "mgr_wf s (fst (begin_extend p cid np nc d m))"
proof (cases "hm_get (m_relays m) (p, cid)")
  case None
  then show ?thesis using assms by (simp add: begin_extend_def)
next
  case (Some rc)
  let ?rc = "rc \<lparr> rc_next_peer := Some np, rc_next_circ_id := Some nc, rc_awaiting_extended := True \<rparr>"
  have k: "keyed (p, cid) rc" using mgr_wf_relay [OF assms(1) Some] .
  have "routes_wf s (hm_insert (p, cid) ?rc (m_relays m)) (hm_insert (np, nc) (p, cid) (m_relay_by_next m))"
    if "rc_next_peer rc = None"
    by (rule routes_wf_extend [OF _ Some _ assms(2)])
      (use assms(1) that k in \<open>simp_all add: mgr_wf_def next_leg_def keyed_def\<close>)
  then show ?thesis
    using assms Some
    by (auto simp: begin_extend_def Let_def update_relay_def mgr_wf_def split: sum.split)
qed

lemma handle_created_from_next_wf:
  assumes "mgr_wf s m"
  shows "mgr_wf s (fst (handle_created_from_next P p cid reply m))"
proof -
  have u: "mgr_wf s (update_relay k (rc \<lparr> rc_awaiting_extended := False \<rparr>) m)"
    "mgr_wf s (update_relay k (rc \<lparr> rc_awaiting_extended := False, rc_hop := h \<rparr>) m)"
    if "hm_get (m_relays m) k = Some rc" for k rc h
    using mgr_wf_relay [OF assms that] by (auto intro!: mgr_wf_update_relay [OF assms that])
  show ?thesis
    using assms u
    by (auto simp: handle_created_from_next_def Let_def split_beta split: option.split sum.split)
qed

lemma handle_backward_relay_wf:
  assumes "mgr_wf s m"
  shows "mgr_wf s (fst (handle_backward_relay P p cid cell m))"
proof -
  have u: "mgr_wf s (update_relay k (rc \<lparr> rc_hop := h \<rparr>) m)"
    if "hm_get (m_relays m) k = Some rc" for k rc h
    using mgr_wf_relay [OF assms that] by (auto intro!: mgr_wf_update_relay [OF assms that])
  show ?thesis
    using assms u by (auto simp: handle_backward_relay_def Let_def split_beta split: option.split)
qed

lemma remove_relay_fields [simp]:
  "m_rendezvous_bridges (remove_relay k m) = m_rendezvous_bridges m"
  "m_origins (remove_relay k m) = m_origins m"
  by (simp_all add: remove_relay_def Let_def split: option.split)

lemma unbridge_fields [simp]:
  "m_relays (fst (unbridge_rendezvous l m)) = m_relays m"
  "m_relay_by_next (fst (unbridge_rendezvous l m)) = m_relay_by_next m"
  "m_origins (fst (unbridge_rendezvous l m)) = m_origins m"
  by (simp_all add: unbridge_rendezvous_def split: option.split)

lemma mgr_destroy_wf: "mgr_wf s m \<Longrightarrow> mgr_wf s (mgr_destroy p cid m)"
  using unbridge_wf [of s "remove_relay (p, cid) m" "(p, cid)"]
  by (simp add: mgr_destroy_def Let_def mgr_wf_def remove_relay_routes origins_wf_remove)

lemma evict_origin_wf: "mgr_wf s m \<Longrightarrow> mgr_wf s (evict_origin cid m)"
  by (simp add: evict_origin_def mgr_wf_def origins_wf_remove)

lemma evict_relay_wf:
  assumes "mgr_wf s m"
  shows "mgr_wf s (evict_relay k m)"
proof -
  define m2 where "m2 = remove_relay k m
      \<lparr> m_intro_registered := hm_retain (\<lambda>k' _. k' \<noteq> k) (m_intro_registered (remove_relay k m)),
        m_rendezvous_cookies := hm_retain (\<lambda>_ l. l \<noteq> k) (m_rendezvous_cookies (remove_relay k m)) \<rparr>"
  have "evict_relay k m = fst (unbridge_rendezvous k m2)" by (simp add: evict_relay_def Let_def m2_def)
  moreover have "routes_wf s (m_relays m2) (m_relay_by_next m2)" "bridges_wf s (m_rendezvous_bridges m2)"
    "origins_wf (m_origins m2)"
    using assms by (simp_all add: m2_def mgr_wf_def remove_relay_routes)
  ultimately show ?thesis by (simp add: mgr_wf_def unbridge_wf)
qed

lemma fold_evict_origin_wf: "mgr_wf s m \<Longrightarrow> mgr_wf s (fold evict_origin cids m)"
  by (induction cids arbitrary: m) (simp_all add: evict_origin_wf)

lemma fold_evict_relay_wf: "mgr_wf s m \<Longrightarrow> mgr_wf s (fold evict_relay ks m)"
  by (induction ks arbitrary: m) (simp_all add: evict_relay_wf)

lemma evict_idle_wf: "mgr_wf s m \<Longrightarrow> mgr_wf s (fst (evict_idle_circuits now m))"
  by (simp add: evict_idle_circuits_def Let_def fold_evict_origin_wf fold_evict_relay_wf)

lemma bridge_wf:
  "mgr_wf s m \<Longrightarrow> (s \<Longrightarrow> bridge_partner a m = None \<and> bridge_partner b m = None) \<Longrightarrow>
   mgr_wf s (bridge_rendezvous a b m)"
  by (simp add: mgr_wf_def bridge_rendezvous_def bridge_partner_def bridges_wf_insert)

lemma unbridge_mgr_wf: "mgr_wf s m \<Longrightarrow> mgr_wf s (fst (unbridge_rendezvous l m))"
  by (simp add: mgr_wf_def unbridge_wf)

lemma set_padding_wf: "mgr_wf s m \<Longrightarrow> mgr_wf s (fst (set_padding_scheduler cid ps m))"
  using mgr_wf_origin [of s m cid]
  by (auto simp: set_padding_scheduler_def mgr_wf_def origin_wf_def intro!: origins_wf_insert
      split: option.split)

lemma complete_rendezvous_wf: "mgr_wf s m \<Longrightarrow> mgr_wf s (fst (complete_rendezvous P ck y a m))"
  using mgr_wf_origin [of s m]
  by (auto simp: complete_rendezvous_def mgr_wf_def origin_wf_def Let_def intro!: origins_wf_insert
      split: option.split sum.split prod.split)


subsection \<open>What the node does with the manager's tables\<close>

text \<open>The callers in \<open>node.rs\<close> that write the tables themselves, under the lock of the manager.
  An origin circuit or a relay circuit that the map holds is updated in place.\<close>

definition with_origin :: "circuit_id \<Rightarrow> (origin_circuit \<Rightarrow> origin_circuit) \<Rightarrow> circuit_manager \<Rightarrow> circuit_manager" where
  "with_origin cid f m =
     (case hm_get (m_origins m) cid of None \<Rightarrow> m | Some c \<Rightarrow> update_origin cid (f c) m)"

definition with_relay :: "leg \<Rightarrow> (relay_circuit \<Rightarrow> relay_circuit) \<Rightarrow> circuit_manager \<Rightarrow> circuit_manager" where
  "with_relay k f m =
     (case hm_get (m_relays m) k of None \<Rightarrow> m | Some rc \<Rightarrow> update_relay k (f rc) m)"

text \<open>Cells that this node originates: \<open>send_origin_relay\<close>, and the stream cells of
  \<open>send_stream_relay\<close> (which \<open>stream_open\<close> sends the same way), sealed for the last hop without
  the end-to-end layer. The result is the guard and the bytes of the cell.\<close>

definition send_origin_relay ::
  "prims \<Rightarrow> instant \<Rightarrow> circuit_id \<Rightarrow> relay_command \<Rightarrow> bytes \<Rightarrow> circuit_manager
     \<Rightarrow> circuit_manager \<times> (peer_id \<times> bytes) result" where
  "send_origin_relay P now cid cmd d m =
     (case relay_new cmd 0 d of
        Inl e \<Rightarrow> (m, Inl e)
      | Inr relay \<Rightarrow>
          (case hm_get (m_origins m) cid of
             None \<Rightarrow> (m, Inl (Handshake ''send_origin_relay: unknown circuit''))
           | Some c \<Rightarrow>
               if o_hops c = [] then (m, Inl (Handshake ''send_origin_relay: no hops''))
               else (case encrypt_outbound P now (length (o_hops c) - 1) relay c of
                       (c', Inl e) \<Rightarrow> (update_origin cid c' m, Inl e)
                     | (c', Inr p) \<Rightarrow> (update_origin cid c' m, Inr (o_peer c, cell_to_bytes
                         \<lparr> c_circ_id = cid, c_command = CRelay, c_payload = p \<rparr>)))))"

definition send_stream_relay ::
  "prims \<Rightarrow> circuit_id \<Rightarrow> u16 \<Rightarrow> relay_command \<Rightarrow> bytes \<Rightarrow> circuit_manager
     \<Rightarrow> circuit_manager \<times> (peer_id \<times> bytes) result" where
  "send_stream_relay P cid sid cmd d m =
     (case relay_new cmd sid d of
        Inl e \<Rightarrow> (m, Inl e)
      | Inr relay0 \<Rightarrow>
          (case hm_get (m_origins m) cid of
             None \<Rightarrow> (m, Inl (Handshake ''send_stream_relay: no circuit''))
           | Some c \<Rightarrow>
               if o_hops c = [] then (m, Inl (Handshake ''send_stream_relay: no hops''))
               else
                 (let target = length (o_hops c) - 1;
                      h = o_hops c ! target;
                      (relay, dig) = stamp_digest P relay0 (h_forward_digest h);
                      (hs, p) = encrypt_hops P ((o_hops c)[target := h \<lparr> h_forward_digest := dig \<rparr>])
                                  (relay_to_payload relay)
                  in (update_origin cid (c \<lparr> o_hops := hs \<rparr>) m, Inr (o_peer c, cell_to_bytes
                        \<lparr> c_circ_id = cid, c_command = CRelay, c_payload = p \<rparr>)))))"

text \<open>Cells a relay answers with (\<open>send_backward_relay_stream\<close>, and \<open>send_backward_relay\<close> with
  stream 0); nothing is sent when the cell cannot be built or the circuit is gone.\<close>

definition send_backward_relay_stream ::
  "prims \<Rightarrow> peer_id \<Rightarrow> circuit_id \<Rightarrow> relay_command \<Rightarrow> u16 \<Rightarrow> bytes \<Rightarrow> circuit_manager
     \<Rightarrow> circuit_manager \<times> (peer_id \<times> bytes) option" where
  "send_backward_relay_stream P to_peer cid cmd sid d m =
     (case relay_new cmd sid d of
        Inl _ \<Rightarrow> (m, None)
      | Inr relay0 \<Rightarrow>
          (case hm_get (m_relays m) (to_peer, cid) of
             None \<Rightarrow> (m, None)
           | Some rc \<Rightarrow>
               (let (relay, dig) = stamp_digest P relay0 (h_backward_digest (rc_hop rc));
                    (hop, p) = onion_encrypt_backward P (rc_hop rc \<lparr> h_backward_digest := dig \<rparr>)
                                 (relay_to_payload relay)
                in (update_relay (to_peer, cid) (rc \<lparr> rc_hop := hop \<rparr>) m,
                    Some (rc_prev_peer rc, cell_to_bytes
                      \<lparr> c_circ_id = rc_prev_circ_id rc, c_command = CRelay, c_payload = p \<rparr>)))))"

text \<open>The counters of delivered cells, noted and reset in one critical section.\<close>

definition origin_count_delivered :: "origin_circuit \<Rightarrow> origin_circuit \<times> bool" where
  "origin_count_delivered oc =
     (let (oc1, due) = origin_note_circ_delivered oc
      in (if due then origin_reset_circ_delivered oc1 else oc1, due))"

definition relay_count_delivered :: "relay_circuit \<Rightarrow> relay_circuit \<times> bool" where
  "relay_count_delivered rc =
     (let (rc1, due) = relay_note_circ_delivered rc
      in (if due then relay_reset_circ_delivered rc1 else rc1, due))"

text \<open>The ends of a rendezvous: the service installs its direction of the keys
  (\<open>hs_rendezvous_drain_loop\<close>), and a client whose \<open>complete_rendezvous\<close> failed drops the circuit
  (\<open>handle_rendezvous2\<close>).\<close>

definition install_service_keys :: "circuit_id \<Rightarrow> e2e_keys \<Rightarrow> circuit_manager \<Rightarrow> circuit_manager" where
  "install_service_keys rp_cid keys m =
     (let m1 = with_origin rp_cid (\<lambda>oc. oc \<lparr> o_e2e := Some (hop_from_e2e_keys keys False) \<rparr>) m
      in m1 \<lparr> m_e2e_keys := hm_insert rp_cid keys (m_e2e_keys m1) \<rparr>)"

definition drop_rendezvous :: "circuit_id \<Rightarrow> circuit_manager \<Rightarrow> circuit_manager" where
  "drop_rendezvous rp_cid m =
     m \<lparr> m_origins := hm_remove rp_cid (m_origins m), m_e2e_keys := hm_remove rp_cid (m_e2e_keys m) \<rparr>"

lemma with_origin_wf:
  assumes "mgr_wf s m" "\<And>c. origin_wf c \<Longrightarrow> origin_wf (f c) \<and> o_id (f c) = o_id c"
  shows "mgr_wf s (with_origin cid f m)"
  using assms(1) mgr_wf_origin [OF assms(1)] assms(2)
  by (auto simp: with_origin_def intro!: mgr_wf_update_origin split: option.split)

lemma with_relay_wf:
  assumes "mgr_wf s m" "\<And>rc. keyed k rc \<Longrightarrow> keyed k (f rc) \<and> next_leg (f rc) = next_leg rc"
  shows "mgr_wf s (with_relay k f m)"
proof (cases "hm_get (m_relays m) k")
  case (Some rc)
  then show ?thesis
    using mgr_wf_relay [OF assms(1) Some] assms(2) mgr_wf_update_relay [OF assms(1) Some]
    by (simp add: with_relay_def)
qed (simp add: with_relay_def assms(1))

lemma send_origin_relay_wf:
  assumes "mgr_wf s m"
  shows "mgr_wf s (fst (send_origin_relay P now cid cmd d m))"
proof -
  have "mgr_wf s (update_origin cid c' m)"
    if c: "hm_get (m_origins m) cid = Some c" "encrypt_outbound P now t relay c = (c', r)" for t relay c c' r
    using encrypt_outbound_fields [OF c(2)] mgr_wf_origin [OF assms c(1)]
    by (intro mgr_wf_update_origin [OF assms]) (simp_all add: origin_wf_def)
  then show ?thesis
    using assms by (auto simp: send_origin_relay_def split: sum.split option.split prod.split)
qed

lemma send_stream_relay_wf:
  assumes "mgr_wf s m"
  shows "mgr_wf s (fst (send_stream_relay P cid sid cmd d m))"
proof -
  have "mgr_wf s (update_origin cid (c \<lparr> o_hops := hs \<rparr>) m)"
    if c: "hm_get (m_origins m) cid = Some c" "length hs = length (o_hops c)" for c hs
    using mgr_wf_origin [OF assms c(1)] c(2)
    by (intro mgr_wf_update_origin [OF assms]) (simp_all add: origin_wf_def)
  then show ?thesis
    using assms
    by (auto simp: send_stream_relay_def Let_def split_beta encrypt_hops_length split: sum.split option.split)
qed

lemma send_backward_relay_stream_wf:
  assumes "mgr_wf s m"
  shows "mgr_wf s (fst (send_backward_relay_stream P p cid cmd sid d m))"
proof -
  have u: "mgr_wf s (update_relay k (rc \<lparr> rc_hop := h \<rparr>) m)"
    if "hm_get (m_relays m) k = Some rc" for k rc h
    using mgr_wf_relay [OF assms that] by (auto intro!: mgr_wf_update_relay [OF assms that])
  then show ?thesis
    using assms by (auto simp: send_backward_relay_stream_def Let_def split_beta split: sum.split option.split)
qed

lemma origin_counters_wf:
  "origin_wf c \<Longrightarrow> origin_wf (fst (origin_try_consume_circ_window now c))
     \<and> o_id (fst (origin_try_consume_circ_window now c)) = o_id c"
  "origin_wf c \<Longrightarrow> origin_wf (origin_on_circ_sendme now c) \<and> o_id (origin_on_circ_sendme now c) = o_id c"
  "origin_wf c \<Longrightarrow> origin_wf (fst (origin_count_delivered c)) \<and> o_id (fst (origin_count_delivered c)) = o_id c"
  "origin_wf c \<Longrightarrow> origin_wf (c \<lparr> o_streams := mx, o_padding_scheduler := ps \<rparr>)
     \<and> o_id (c \<lparr> o_streams := mx, o_padding_scheduler := ps \<rparr>) = o_id c"
  by (auto simp: origin_wf_def origin_try_consume_circ_window_def origin_on_circ_sendme_def
      origin_count_delivered_def origin_note_circ_delivered_def origin_reset_circ_delivered_def Let_def)

lemma relay_counters_keyed:
  "keyed k c \<Longrightarrow> keyed k (fst (relay_try_consume_circ_window now c))
     \<and> next_leg (fst (relay_try_consume_circ_window now c)) = next_leg c"
  "keyed k c \<Longrightarrow> keyed k (relay_on_circ_sendme now c) \<and> next_leg (relay_on_circ_sendme now c) = next_leg c"
  "keyed k c \<Longrightarrow> keyed k (fst (relay_count_delivered c)) \<and> next_leg (fst (relay_count_delivered c)) = next_leg c"
  "keyed k c \<Longrightarrow> keyed k (c \<lparr> rc_exit_streams := x \<rparr>) \<and> next_leg (c \<lparr> rc_exit_streams := x \<rparr>) = next_leg c"
  by (auto simp: keyed_def next_leg_def relay_try_consume_circ_window_def relay_on_circ_sendme_def
      relay_count_delivered_def relay_note_circ_delivered_def relay_reset_circ_delivered_def Let_def)

lemma install_service_keys_wf: "mgr_wf s m \<Longrightarrow> mgr_wf s (install_service_keys cid keys m)"
  using with_origin_wf [of s m "\<lambda>oc. oc \<lparr> o_e2e := Some (hop_from_e2e_keys keys False) \<rparr>" cid]
  by (simp add: install_service_keys_def Let_def mgr_wf_def origin_wf_def)

lemma drop_rendezvous_wf: "mgr_wf s m \<Longrightarrow> mgr_wf s (drop_rendezvous cid m)"
  by (simp add: drop_rendezvous_def mgr_wf_def origins_wf_remove)

subsection \<open>Runs of the manager\<close>

text \<open>
  The operations a node performs on its manager, in any order and with any arguments. With
  \<open>s = False\<close> nothing is asked of them (that the identity and the key of a next hop have 32 bytes
  is their Rust type). With \<open>s = True\<close> three conditions hold that the code does not check and
  that are on its peers and on chance: a CREATE uses a circuit id that is free on its
  connection, the random id chosen for the next hop is free on that connection, and the
  two legs of a new bridge are not bridged already. The streams of a circuit and the state of
  its padding scheduler have locks of their own, and change in any way.
\<close>

inductive mgr_step :: "prims \<Rightarrow> bool \<Rightarrow> circuit_manager \<Rightarrow> circuit_manager \<Rightarrow> bool" for P s where
  st_start: "mgr_step P s m (fst (start_circuit P now x g gid gb m))"
| st_created: "mgr_step P s m (fst (handle_created P cid reply m))"
| st_extend: "link_spec_wf nxt \<Longrightarrow> mgr_step P s m (fst (extend_circuit P now x cid nxt m))"
| st_origin_relay: "mgr_step P s m (fst (handle_origin_relay P now cid pl m))"
| st_padding: "mgr_step P s m (fst (set_padding_scheduler cid ps m))"
| st_create: "(s \<Longrightarrow> hm_get (m_relays m) (p, cid) = None) \<Longrightarrow>
    mgr_step P s m (fst (handle_create P now y p cid i b sec msg m))"
| st_forward: "mgr_step P s m (fst (handle_forward_relay P now p cid cell m))"
| st_begin_extend: "(s \<Longrightarrow> hm_get (m_relay_by_next m) (np, nc) = None) \<Longrightarrow>
    mgr_step P s m (fst (begin_extend p cid np nc d m))"
| st_created_next: "mgr_step P s m (fst (handle_created_from_next P p cid reply m))"
| st_backward: "mgr_step P s m (fst (handle_backward_relay P p cid cell m))"
| st_destroy: "mgr_step P s m (mgr_destroy p cid m)"
| st_evict: "mgr_step P s m (fst (evict_idle_circuits now m))"
| st_intro_circuit: "mgr_step P s m (register_intro_circuit cid auth m)"
| st_intro_relay: "mgr_step P s m (register_intro_relay p cid auth m)"
| st_cookie: "mgr_step P s m (register_rendezvous_cookie ck p cid m)"
| st_consume: "mgr_step P s m (fst (consume_rendezvous_cookie ck m))"
| st_bridge: "(s \<Longrightarrow> bridge_partner l m = None \<and> bridge_partner l' m = None) \<Longrightarrow>
    mgr_step P s m (bridge_rendezvous l l' m)"
| st_unbridge: "mgr_step P s m (fst (unbridge_rendezvous l m))"
| st_pending: "mgr_step P s m (register_pending_rendezvous ck cid sk xp hp m)"
| st_complete: "mgr_step P s m (fst (complete_rendezvous P ck y auth m))"
| st_send: "mgr_step P s m (fst (send_origin_relay P now cid cmd d m))"
| st_stream_cell: "mgr_step P s m (fst (send_stream_relay P cid sid cmd d m))"
| st_answer: "mgr_step P s m (fst (send_backward_relay_stream P p cid cmd sid d m))"
| st_install: "mgr_step P s m (install_service_keys cid keys m)"
| st_drop: "mgr_step P s m (drop_rendezvous cid m)"
| st_origin_window: "mgr_step P s m (with_origin cid (fst \<circ> origin_try_consume_circ_window now) m)"
| st_origin_sendme: "mgr_step P s m (with_origin cid (origin_on_circ_sendme now) m)"
| st_origin_count: "mgr_step P s m (with_origin cid (fst \<circ> origin_count_delivered) m)"
| st_origin_streams: "mgr_step P s m (with_origin cid (\<lambda>c. c \<lparr> o_streams := mx, o_padding_scheduler := ps \<rparr>) m)"
| st_relay_window: "mgr_step P s m (with_relay k (fst \<circ> relay_try_consume_circ_window now) m)"
| st_relay_sendme: "mgr_step P s m (with_relay k (relay_on_circ_sendme now) m)"
| st_relay_count: "mgr_step P s m (with_relay k (fst \<circ> relay_count_delivered) m)"
| st_relay_streams: "mgr_step P s m (with_relay k (\<lambda>c. c \<lparr> rc_exit_streams := mx \<rparr>) m)"

inductive_cases mgr_stepE: "mgr_step P s m m'"

lemmas mgr_wf_steps =
  start_circuit_wf handle_created_wf extend_circuit_wf handle_origin_relay_wf set_padding_wf
  handle_create_wf handle_forward_relay_wf begin_extend_wf handle_created_from_next_wf
  handle_backward_relay_wf mgr_destroy_wf evict_idle_wf bridge_wf unbridge_mgr_wf
  complete_rendezvous_wf send_origin_relay_wf send_stream_relay_wf send_backward_relay_stream_wf
  install_service_keys_wf drop_rendezvous_wf

lemma mgr_wf_tables:
  "mgr_wf s m \<Longrightarrow> mgr_wf s (register_intro_circuit cid auth m)"
  "mgr_wf s m \<Longrightarrow> mgr_wf s (register_intro_relay p cid auth m)"
  "mgr_wf s m \<Longrightarrow> mgr_wf s (register_rendezvous_cookie ck p cid m)"
  "mgr_wf s m \<Longrightarrow> mgr_wf s (fst (consume_rendezvous_cookie ck m))"
  "mgr_wf s m \<Longrightarrow> mgr_wf s (register_pending_rendezvous ck cid sk xp hp m)"
  by (simp_all add: mgr_wf_def register_intro_circuit_def register_intro_relay_def
      register_rendezvous_cookie_def consume_rendezvous_cookie_def register_pending_rendezvous_def)

lemma mgr_wf_counters:
  "mgr_wf s m \<Longrightarrow> mgr_wf s (with_origin cid (fst \<circ> origin_try_consume_circ_window now) m)"
  "mgr_wf s m \<Longrightarrow> mgr_wf s (with_origin cid (origin_on_circ_sendme now) m)"
  "mgr_wf s m \<Longrightarrow> mgr_wf s (with_origin cid (fst \<circ> origin_count_delivered) m)"
  "mgr_wf s m \<Longrightarrow> mgr_wf s (with_origin cid (\<lambda>c. c \<lparr> o_streams := mx, o_padding_scheduler := ps \<rparr>) m)"
  "mgr_wf s m \<Longrightarrow> mgr_wf s (with_relay k (fst \<circ> relay_try_consume_circ_window now) m)"
  "mgr_wf s m \<Longrightarrow> mgr_wf s (with_relay k (relay_on_circ_sendme now) m)"
  "mgr_wf s m \<Longrightarrow> mgr_wf s (with_relay k (fst \<circ> relay_count_delivered) m)"
  "mgr_wf s m \<Longrightarrow> mgr_wf s (with_relay k (\<lambda>c. c \<lparr> rc_exit_streams := mx' \<rparr>) m)"
  by (simp_all add: with_origin_wf with_relay_wf origin_counters_wf relay_counters_keyed)

lemma mgr_step_wf: "mgr_step P s m m' \<Longrightarrow> dh_ok P \<Longrightarrow> mgr_wf s m \<Longrightarrow> mgr_wf s m'"
  by (induction rule: mgr_step.induct) (simp_all only: mgr_wf_steps mgr_wf_tables mgr_wf_counters simp_thms)

lemma mgr_run_wf: "(mgr_step P s)\<^sup>*\<^sup>* m m' \<Longrightarrow> dh_ok P \<Longrightarrow> mgr_wf s m \<Longrightarrow> mgr_wf s m'"
  by (induction rule: rtranclp_induct) (auto intro: mgr_step_wf)

lemma mgr_wf_hops:
  assumes "mgr_wf s m" "hm_get (m_origins m) cid = Some c"
  shows "length (o_hops c) \<le> 1 + unat (o_relay_early_used c)" "length (o_hops c) \<le> MAX_HOPS + 1"
proof -
  have w: "origin_wf c" using mgr_wf_origin [OF assms] by simp
  then show "length (o_hops c) \<le> 1 + unat (o_relay_early_used c)"
    by (auto simp: origin_wf_def split: if_splits)
  moreover have "unat (o_relay_early_used c) \<le> 5"
    using w by (simp add: origin_wf_def word_le_nat_alt)
  ultimately show "length (o_hops c) \<le> MAX_HOPS + 1" by simp
qed

subsection \<open>What a cell's sender can rely on\<close>

text \<open>A backward cell is routed to the relay circuit that was extended to that leg.\<close>

lemma backward_target:
  assumes "mgr_wf True m" "handle_backward_relay P p cid cell m = (m', Some (q, bytes))"
  shows "\<exists>k rc. hm_get (m_relays m) k = Some rc \<and> next_leg rc = Some (p, cid) \<and> q = fst k
    \<and> bytes = cell_to_bytes \<lparr> c_circ_id = snd k, c_command = c_command cell,
        c_payload = snd (onion_encrypt_backward P (rc_hop rc) (c_payload cell)) \<rparr>
    \<and> m' = update_relay k (rc \<lparr> rc_hop := fst (onion_encrypt_backward P (rc_hop rc) (c_payload cell)) \<rparr>) m"
proof -
  from assms(2) obtain k rc where k: "hm_get (m_relay_by_next m) (p, cid) = Some k"
    and rc: "hm_get (m_relays m) k = Some rc"
    by (auto simp: handle_backward_relay_def split: option.splits)
  have "next_of (m_relays m) k = Some (p, cid)"
    using assms(1) k routes_wf_next [of "m_relays m" "m_relay_by_next m"] by (auto simp: mgr_wf_def)
  then have "next_leg rc = Some (p, cid)" using rc by (simp add: next_of_def)
  moreover have "keyed k rc" using mgr_wf_relay [OF assms(1) rc] .
  moreover have "q = rc_prev_peer rc
    \<and> bytes = cell_to_bytes \<lparr> c_circ_id = rc_prev_circ_id rc, c_command = c_command cell,
        c_payload = snd (onion_encrypt_backward P (rc_hop rc) (c_payload cell)) \<rparr>
    \<and> m' = update_relay k (rc \<lparr> rc_hop := fst (onion_encrypt_backward P (rc_hop rc) (c_payload cell)) \<rparr>) m"
    using assms(2) k rc by (auto simp: handle_backward_relay_def split_beta Let_def)
  ultimately show ?thesis using rc unfolding keyed_def by metis
qed

text \<open>Idle eviction leaves no idle circuit, and no table entry of an evicted one.\<close>

lemma evict_origin_get:
  "hm_get (m_origins (fold evict_origin cids m)) c = (if c \<in> set cids then None else hm_get (m_origins m) c)"
  by (induction cids arbitrary: m) (auto simp: evict_origin_def hm.get_rem)

lemma evict_relay_get:
  "hm_get (m_relays (evict_relay k m)) k' = (if k' = k then None else hm_get (m_relays m) k')"
  by (auto simp: evict_relay_def remove_relay_def Let_def hm.get_rem split: option.split)

lemma fold_evict_relay_get:
  "hm_get (m_relays (fold evict_relay ks m)) k = (if k \<in> set ks then None else hm_get (m_relays m) k)"
  by (induction ks arbitrary: m) (auto simp: evict_relay_get)

lemma evict_origin_relays [simp]: "m_relays (fold evict_origin cids m) = m_relays m"
  by (induction cids arbitrary: m) (simp_all add: evict_origin_def)

lemma evict_relay_origins [simp]: "m_origins (fold evict_relay ks m) = m_origins m"
  by (induction ks arbitrary: m) (simp_all add: evict_relay_def Let_def)

lemma dead_keys:
  "hm_wf m \<Longrightarrow> k \<in> set (map fst (filter (\<lambda>(_, v). Q v) m)) \<longleftrightarrow> (\<exists>v. hm_get m k = Some v \<and> Q v)"
  unfolding hm_wf_def by (force simp: map_of_eq_Some_iff)

lemma evict_idle_origins:
  assumes "mgr_wf s m"
  shows "hm_get (m_origins (fst (evict_idle_circuits now m))) cid =
    (case hm_get (m_origins m) cid of None \<Rightarrow> None | Some c \<Rightarrow>
       if CIRCUIT_IDLE_TIMEOUT < duration_since now (o_last_activity c) then None else Some c)"
proof -
  have "hm_wf (m_origins m)" using assms by (simp add: mgr_wf_def origins_wf_def)
  then show ?thesis
    using dead_keys [of "m_origins m" cid "\<lambda>c. CIRCUIT_IDLE_TIMEOUT < duration_since now (o_last_activity c)"]
    by (auto simp: evict_idle_circuits_def Let_def evict_origin_get simp del: set_map split: option.split)
qed

lemma evict_idle_relays:
  assumes "mgr_wf s m"
  shows "hm_get (m_relays (fst (evict_idle_circuits now m))) k =
    (case hm_get (m_relays m) k of None \<Rightarrow> None | Some rc \<Rightarrow>
       if CIRCUIT_IDLE_TIMEOUT < duration_since now (rc_last_activity rc) then None else Some rc)"
proof -
  have "hm_wf (m_relays m)" using assms by (simp add: mgr_wf_def routes_wf_def)
  then show ?thesis
    using dead_keys [of "m_relays m" k "\<lambda>c. CIRCUIT_IDLE_TIMEOUT < duration_since now (rc_last_activity c)"]
    by (auto simp: evict_idle_circuits_def Let_def fold_evict_relay_get simp del: set_map split: option.split)
qed

subsection \<open>Properties\<close>

definition sample_hop :: hop_state where
  "sample_hop = hop_from_ntor \<lparr> k_forward_key = replicate 32 1, k_backward_key = replicate 32 2,
     k_forward_digest_seed = [3], k_backward_digest_seed = [4] \<rparr>"

definition sample_relay_circuit :: relay_circuit where
  "sample_relay_circuit = \<lparr> rc_prev_peer = [1], rc_prev_circ_id = CircuitId 5, rc_next_peer = Some [2],
     rc_next_circ_id = Some (CircuitId 9), rc_hop = sample_hop, rc_awaiting_extended = False,
     rc_exit_streams = mux_new, rc_cc = vegas_new, rc_circ_delivered = 0, rc_last_activity = 0 \<rparr>"

text \<open>A manager with one origin circuit, one relay circuit and a bridge.\<close>

definition sample_mgr :: circuit_manager where
  "sample_mgr = mgr_new \<lparr> m_origins := [(CircuitId 3, origin_new (CircuitId 3) [7] 0)],
     m_relays := [(([1], CircuitId 5), sample_relay_circuit)],
     m_relay_by_next := [(([2], CircuitId 9), ([1], CircuitId 5))],
     m_rendezvous_bridges := [(([1], CircuitId 5), ([6], CircuitId 6)), (([6], CircuitId 6), ([1], CircuitId 5))] \<rparr>"

lemma sample_mgr_wf: "mgr_wf True sample_mgr"
proof (rule mgr_wfI)
  show "routes_wf True (m_relays sample_mgr) (m_relay_by_next sample_mgr)"
    by (auto simp: routes_wf_def sample_mgr_def hm_wf_def keyed_def sample_relay_circuit_def
        inverse_of_def next_of_def next_leg_def split: if_splits)
  show "bridges_wf True (m_rendezvous_bridges sample_mgr)"
    by (auto simp: bridges_wf_def sample_mgr_def hm_wf_def inverse_of_def split: if_splits)
  show "origins_wf (m_origins sample_mgr)"
    by (auto simp: origins_wf_def sample_mgr_def hm_wf_def origin_wf_def origin_new_def split: if_splits)
qed

text \<open>A CREATE that repeats the id of an extended circuit, which nothing refuses: the reverse table
  goes on naming the new circuit for the next leg of the old one.\<close>

lemma repeated_create_stale:
  assumes "mgr_wf True m" "hm_get (m_relays m) (p, cid) = Some rc" "next_leg rc = Some nk"
    and "handle_create P now y p cid i b sec msg m = (m', Inr reply)"
  shows "hm_get (m_relay_by_next m') nk = Some (p, cid) \<and> next_of (m_relays m') (p, cid) = None
    \<and> \<not> mgr_wf True m'"
proof -
  have "hm_get (m_relay_by_next m) nk = Some (p, cid)"
    using assms(1-3) routes_wf_next [of "m_relays m" "m_relay_by_next m" nk "(p, cid)"]
    by (simp add: mgr_wf_def next_of_def)
  then have a: "hm_get (m_relay_by_next m') nk = Some (p, cid)" "next_of (m_relays m') (p, cid) = None"
    using assms(4)
    by (auto simp: handle_create_def Let_def update_relay_def next_of_insert next_leg_def split: sum.splits)
  then show ?thesis using routes_wf_next [of "m_relays m'" "m_relay_by_next m'" nk "(p, cid)"] by (auto simp: mgr_wf_def)
qed

text \<open>C3: from a fresh manager, after any sequence of local requests, cells from peers, evictions
  and rendezvous registrations with any arguments, every relay circuit is filed under its
  previous leg with a next leg that is whole or absent, and every origin circuit is filed under
  its id and has at most one hop more than the RELAY_EARLY cells it has sent, of which there are
  at most \<open>MAX_RELAY_EARLY\<close>; a handshake that is under way counts as a hop. In a run in which no
  peer repeats a circuit id that is in use, no chosen next id is in use and no bridged leg is
  bridged again (\<open>s\<close>, not checked by the code), the reverse table moreover is exactly the inverse
  of the next legs, and bridges are symmetric.\<close>

theorem manager_invariant:
  assumes "(mgr_step P s)\<^sup>*\<^sup>* mgr_new m" "dh_ok P"
  shows "hm_wf (m_relays m) \<and> hm_wf (m_relay_by_next m) \<and> hm_wf (m_rendezvous_bridges m)
    \<and> (\<forall>k rc. hm_get (m_relays m) k = Some rc \<longrightarrow> (rc_prev_peer rc, rc_prev_circ_id rc) = k
        \<and> (rc_next_peer rc = None \<longleftrightarrow> rc_next_circ_id rc = None))
    \<and> (\<forall>cid c. hm_get (m_origins m) cid = Some c \<longrightarrow> o_id c = cid
        \<and> length (o_hops c) + (if o_pending c = None then 0 else 1) \<le> 1 + unat (o_relay_early_used c)
        \<and> o_relay_early_used c \<le> MAX_RELAY_EARLY)
    \<and> (s \<longrightarrow> (\<forall>k nk. hm_get (m_relay_by_next m) nk = Some k \<longleftrightarrow> next_of (m_relays m) k = Some nk)
        \<and> (\<forall>a b. bridge_partner a m = Some b \<longleftrightarrow> bridge_partner b m = Some a))"
proof -
  have w: "mgr_wf s m" using mgr_run_wf [OF assms mgr_wf_new] .
  have "(\<forall>k nk. hm_get (m_relay_by_next m) nk = Some k \<longleftrightarrow> next_of (m_relays m) k = Some nk)
      \<and> (\<forall>a b. bridge_partner a m = Some b \<longleftrightarrow> bridge_partner b m = Some a)" if s
    using w that unfolding mgr_wf_def routes_wf_def bridges_wf_def inverse_of_def bridge_partner_def by blast
  moreover have "(rc_prev_peer rc, rc_prev_circ_id rc) = k \<and> (rc_next_peer rc = None \<longleftrightarrow> rc_next_circ_id rc = None)"
    if "hm_get (m_relays m) k = Some rc" for k rc
    using mgr_wf_relay [OF w that] by (auto simp: keyed_def)
  ultimately show ?thesis
    using w by (simp add: mgr_wf_def routes_wf_def bridges_wf_def origins_wf_def origin_wf_def)
qed

text \<open>A relay circuit that is created and extended, and a bridge.\<close>

definition sample_next :: link_spec where
  "sample_next = \<lparr> ls_host = show_ipv4 (Ipv4 10 0 0 1), ls_port = 7700, ls_node_id = replicate 32 8,
     ls_static_pub = p_x25519_pub toy_prims [3] \<rparr>"

definition sample_hello :: bytes where
  "sample_hello = snd (client_handshake_start toy_prims [2] (replicate 32 4) (p_x25519_pub toy_prims [3]))"

definition sample_created :: circuit_manager where
  "sample_created = fst (handle_create toy_prims 0 [6] [1] (CircuitId 5) (replicate 32 4)
     (p_x25519_pub toy_prims [3]) [3] sample_hello mgr_new)"

definition sample_extended :: circuit_manager where
  "sample_extended = bridge_rendezvous ([1], CircuitId 5) ([6], CircuitId 6)
     (fst (begin_extend [1] (CircuitId 5) [2] (CircuitId 9) (build_extend2 sample_next sample_hello) sample_created))"

lemma sample_hello_length: "length sample_hello = 96"
  by (simp add: sample_hello_def client_handshake_start_def Let_def toy_prims_def)

lemma sample_created_relay:
  "\<exists>rc. hm_get (m_relays sample_created) ([1], CircuitId 5) = Some rc \<and> rc_next_peer rc = None
    \<and> rc_next_circ_id rc = None \<and> m_relay_by_next sample_created = [] \<and> m_rendezvous_bridges sample_created = []"
proof -
  obtain hs where h: "client_handshake_start toy_prims [2] (replicate 32 4) (p_x25519_pub toy_prims [3])
      = (hs, sample_hello)" by (metis prod.collapse sample_hello_def)
  obtain keys reply where "server_handshake toy_prims [6] (replicate 32 4) (p_x25519_pub toy_prims [3]) [3] sample_hello
      = Inr (keys, reply)"
    using ntor_agreement_aux [OF toy_ok(3,4) length_replicate h, of "[6]"] by blast
  then show ?thesis
    by (simp add: sample_created_def handle_create_def Let_def update_relay_def hm.get_ins mgr_new_def)
qed

lemma sample_extended_routes:
  "hm_get (m_relay_by_next sample_extended) ([2], CircuitId 9) = Some ([1], CircuitId 5)"
proof -
  obtain rc where rc: "hm_get (m_relays sample_created) ([1], CircuitId 5) = Some rc" "rc_next_peer rc = None"
    using sample_created_relay by blast
  have "parse_extend2 (build_extend2 sample_next sample_hello)
      = Inr (sample_next \<lparr> ls_host := show_ipv4 (Ipv4 10 0 0 1) \<rparr>, sample_hello)"
    by (rule parse_extend2_build) (simp_all add: sample_next_def link_spec_wf_def sample_hello_length toy_prims_def)
  then show ?thesis
    using rc by (simp add: sample_extended_def begin_extend_def sample_hello_length Let_def update_relay_def
        bridge_rendezvous_def hm.get_ins)
qed

theorem manager_invariant_witness:
  "(mgr_step toy_prims True)\<^sup>*\<^sup>* mgr_new sample_extended
    \<and> hm_get (m_relay_by_next sample_extended) ([2], CircuitId 9) = Some ([1], CircuitId 5)
    \<and> next_of (m_relays sample_extended) ([1], CircuitId 5) = Some ([2], CircuitId 9)
    \<and> bridge_partner ([6], CircuitId 6) sample_extended = Some ([1], CircuitId 5)"
proof -
  let ?e = "fst (begin_extend [1] (CircuitId 5) [2] (CircuitId 9) (build_extend2 sample_next sample_hello) sample_created)"
  have n: "m_relay_by_next sample_created = []" "m_rendezvous_bridges sample_created = []"
    using sample_created_relay by auto
  have b: "m_rendezvous_bridges ?e = []"
    using n(2) by (simp add: begin_extend_def Let_def update_relay_def split: option.split sum.split)
  have "mgr_step toy_prims True mgr_new sample_created"
    unfolding sample_created_def by (rule st_create) (simp add: mgr_new_def)
  moreover have "mgr_step toy_prims True sample_created ?e" by (rule st_begin_extend) (simp add: n)
  moreover have "mgr_step toy_prims True ?e sample_extended"
    unfolding sample_extended_def by (rule st_bridge) (simp add: bridge_partner_def b)
  ultimately have run: "(mgr_step toy_prims True)\<^sup>*\<^sup>* mgr_new sample_extended"
    by (meson converse_rtranclp_into_rtranclp r_into_rtranclp)
  have br: "bridge_partner ([1], CircuitId 5) sample_extended = Some ([6], CircuitId 6)"
    by (simp add: sample_extended_def bridge_partner_def bridge_rendezvous_def hm.get_ins)
  have inv: "(\<forall>k nk. hm_get (m_relay_by_next sample_extended) nk = Some k
        \<longleftrightarrow> next_of (m_relays sample_extended) k = Some nk)
      \<and> (\<forall>a b. bridge_partner a sample_extended = Some b \<longleftrightarrow> bridge_partner b sample_extended = Some a)"
    using manager_invariant [OF run toy_ok(3)] by (elim conjE) (rule mp, assumption, rule TrueI)
  show ?thesis
    using run sample_extended_routes br inv [THEN conjunct1, rule_format, of "([2], CircuitId 9)" "([1], CircuitId 5)"]
      inv [THEN conjunct2, rule_format, of "([1], CircuitId 5)" "([6], CircuitId 6)"] by (intro conjI) simp_all
qed

text \<open>a backward cell is sent to the previous leg of the one relay circuit whose next leg it
  arrived on, with one more backward layer, and only that circuit's hop state changes.\<close>

theorem backward_cell_routed:
  assumes "mgr_wf True m" "handle_backward_relay P p cid cell m = (m', Some (q, bytes))"
  shows "\<exists>k rc. hm_get (m_relays m) k = Some rc \<and> next_leg rc = Some (p, cid) \<and> q = fst k
    \<and> bytes = cell_to_bytes \<lparr> c_circ_id = snd k, c_command = c_command cell,
        c_payload = snd (onion_encrypt_backward P (rc_hop rc) (c_payload cell)) \<rparr>
    \<and> m' = update_relay k (rc \<lparr> rc_hop := fst (onion_encrypt_backward P (rc_hop rc) (c_payload cell)) \<rparr>) m"
  using assms by (rule backward_target)

theorem backward_cell_routed_witness:
  "\<exists>m' q bytes cell k rc. handle_backward_relay toy_prims [2] (CircuitId 9) cell sample_mgr = (m', Some (q, bytes))
    \<and> hm_get (m_relays sample_mgr) k = Some rc \<and> q = fst k"
proof -
  let ?cell = "\<lparr> c_circ_id = CircuitId 9, c_command = CRelay, c_payload = replicate 504 0 \<rparr>"
  obtain m' q b where h: "handle_backward_relay toy_prims [2] (CircuitId 9) ?cell sample_mgr = (m', Some (q, b))"
    by (simp add: handle_backward_relay_def sample_mgr_def split_beta Let_def)
  from backward_cell_routed [OF sample_mgr_wf h] h show ?thesis by blast
qed

text \<open>tearing down one leg of a rendezvous removes both directions of its bridge, reports the
  partner, and leaves every other bridge alone.\<close>

theorem unbridge_removes_both:
  assumes "bridges_wf True (m_rendezvous_bridges m)" "unbridge_rendezvous l m = (m', r)"
  shows "bridge_partner l m' = None \<and> (\<forall>x. bridge_partner x m' \<noteq> Some l)
    \<and> r = bridge_partner l m \<and> (\<forall>x. x \<noteq> l \<and> r \<noteq> Some x \<longrightarrow> bridge_partner x m' = bridge_partner x m)"
  using assms by (rule unbridge_gone)

theorem unbridge_removes_both_witness:
  "bridge_partner ([1], CircuitId 5) sample_mgr = Some ([6], CircuitId 6)
    \<and> bridge_partner ([1], CircuitId 5) (fst (unbridge_rendezvous ([1], CircuitId 5) sample_mgr)) = None"
proof -
  obtain m' r where u: "unbridge_rendezvous ([1], CircuitId 5) sample_mgr = (m', r)" by force
  have "bridges_wf True (m_rendezvous_bridges sample_mgr)" using sample_mgr_wf by (simp add: mgr_wf_def)
  from unbridge_removes_both [OF this u] u show ?thesis
    by (simp add: bridge_partner_def sample_mgr_def)
qed

text \<open>eviction removes exactly the origin and relay circuits that were idle for longer than
  \<open>CIRCUIT_IDLE_TIMEOUT\<close>, and leaves the others unchanged.\<close>

theorem eviction_exact:
  assumes "mgr_wf s m"
  shows "hm_get (m_origins (fst (evict_idle_circuits now m))) cid =
      (case hm_get (m_origins m) cid of None \<Rightarrow> None | Some c \<Rightarrow>
         if CIRCUIT_IDLE_TIMEOUT < duration_since now (o_last_activity c) then None else Some c)
    \<and> hm_get (m_relays (fst (evict_idle_circuits now m))) k =
      (case hm_get (m_relays m) k of None \<Rightarrow> None | Some rc \<Rightarrow>
         if CIRCUIT_IDLE_TIMEOUT < duration_since now (rc_last_activity rc) then None else Some rc)"
  using evict_idle_origins [OF assms] evict_idle_relays [OF assms] by simp

theorem eviction_exact_witness:
  "hm_get (m_origins sample_mgr) (CircuitId 3) \<noteq> None
    \<and> hm_get (m_origins (fst (evict_idle_circuits (CIRCUIT_IDLE_TIMEOUT + 1) sample_mgr))) (CircuitId 3) = None
    \<and> hm_get (m_relays (fst (evict_idle_circuits 0 sample_mgr))) ([1], CircuitId 5) = Some sample_relay_circuit"
  using eviction_exact [OF sample_mgr_wf, of "CIRCUIT_IDLE_TIMEOUT + 1" "CircuitId 3" "([1], CircuitId 5)"]
    eviction_exact [OF sample_mgr_wf, of 0 "CircuitId 3" "([1], CircuitId 5)"]
  by (simp add: sample_mgr_def origin_new_def duration_since_def sample_relay_circuit_def)

text \<open>A DESTROY from any peer removes the origin circuit with that id.\<close>

lemma destroy_ignores_peer: "hm_get (m_origins (mgr_destroy p cid m)) cid = None"
  by (simp add: mgr_destroy_def Let_def hm_simps)

end
