(* ===== verification/OnionPath.thy ===== *)
theory OnionPath
  imports MgrInv
begin

section \<open>Cells along a path\<close>

text \<open>
  The circuit layer across nodes: an origin circuit and the relays of its path hold the
  same hop states, cells travel layer by layer in both directions, and every step keeps the
  two sides equal. The relays' part is that of \<open>handle_forward_relay\<close> and
  \<open>handle_backward_relay\<close> on their own hop (lemmas \<open>handle_forward_relay_peel\<close> and
  \<open>handle_backward_relay_wrap\<close>). That a relay takes a cell meant for another as its own
  (a collision of the 16-bit field and the 32-bit digest) is a separate outcome of each
  theorem.
\<close>

subsection \<open>One relay\<close>

text \<open>What \<open>handle_forward_relay\<close> does to the hop state and the payload.\<close>

definition relay_peel :: "prims \<Rightarrow> hop_state \<Rightarrow> bytes \<Rightarrow> hop_state \<times> bytes \<times> relay_cell option" where
  "relay_peel P h payload =
     (let (h1, p1) = onion_decrypt_forward P h payload
      in case recognize P p1 (h_forward_digest h1) of
           Some (rc, d) \<Rightarrow> (h1 \<lparr> h_forward_digest := d \<rparr>, p1, Some rc)
         | None \<Rightarrow> (h1, p1, None))"

lemma rc_update_order:
  "rc \<lparr> rc_last_activity := now, rc_hop := h \<rparr> = rc \<lparr> rc_hop := h, rc_last_activity := now \<rparr>"
  by (cases rc) simp

lemma handle_forward_relay_peel:
  assumes "hm_get (m_relays m) (p, cid) = Some rc" "relay_peel P (rc_hop rc) (c_payload cell) = (h, q, r)"
  shows "case r of
      Some relay \<Rightarrow> handle_forward_relay P now p cid cell m =
        (update_relay (p, cid) (rc \<lparr> rc_hop := h, rc_last_activity := now \<rparr>) m, RaHandle relay)
    | None \<Rightarrow> (\<forall>np nc. rc_next_peer rc = Some np \<longrightarrow> rc_next_circ_id rc = Some nc \<longrightarrow>
        handle_forward_relay P now p cid cell m =
          (update_relay (p, cid) (rc \<lparr> rc_hop := h, rc_last_activity := now \<rparr>) m,
           RaForward np (cell_to_bytes \<lparr> c_circ_id = nc, c_command = c_command cell, c_payload = q \<rparr>)))"
  using assms
  by (auto simp: relay_peel_def handle_forward_relay_def Let_def split_beta rc_update_order
      split: option.splits)

lemma handle_backward_relay_wrap:
  assumes "hm_get (m_relay_by_next m) (p, cid) = Some k" "hm_get (m_relays m) k = Some rc"
    "onion_encrypt_backward P (rc_hop rc) (c_payload cell) = (h, q)"
  shows "handle_backward_relay P p cid cell m =
    (update_relay k (rc \<lparr> rc_hop := h \<rparr>) m,
     Some (rc_prev_peer rc, cell_to_bytes
       \<lparr> c_circ_id = rc_prev_circ_id rc, c_command = c_command cell, c_payload = q \<rparr>))"
  using assms by (simp add: handle_backward_relay_def)

subsection \<open>Paths\<close>

text \<open>The relays from index \<open>i\<close> on, until one recognises the cell.\<close>

fun forward_path ::
  "prims \<Rightarrow> nat \<Rightarrow> hop_state list \<Rightarrow> bytes \<Rightarrow> hop_state list \<times> bytes \<times> (nat \<times> relay_cell) option" where
  "forward_path P i [] p = ([], p, None)"
| "forward_path P i (r # rs) p =
     (case relay_peel P r p of
        (r', p', Some rc) \<Rightarrow> (r' # rs, p', Some (i, rc))
      | (r', p', None) \<Rightarrow> (let (rs', q, hit) = forward_path P (Suc i) rs p' in (r' # rs', q, hit)))"

text \<open>The relays of a path adding their backward layers, the far end first.\<close>

fun wrap_backward :: "prims \<Rightarrow> hop_state list \<Rightarrow> bytes \<Rightarrow> hop_state list \<times> bytes" where
  "wrap_backward P [] p = ([], p)"
| "wrap_backward P (r # rs) p =
     (let (rs', p1) = wrap_backward P rs p;
          (r', p2) = onion_encrypt_backward P r p1
      in (r' # rs', p2))"

text \<open>A relay at the end of a path answering with a cell of its own.\<close>

definition relay_send_backward ::
  "prims \<Rightarrow> relay_cell \<Rightarrow> hop_state \<Rightarrow> hop_state \<times> bytes" where
  "relay_send_backward P relay h =
     (let (r, d) = stamp_digest P relay (h_backward_digest h)
      in onion_encrypt_backward P (h \<lparr> h_backward_digest := d \<rparr>) (relay_to_payload r))"

lemma decrypt_encrypt_forward [simp]:
  "onion_decrypt_forward P h (snd (onion_encrypt_forward P h p)) = (fst (onion_encrypt_forward P h p), p)"
  by (simp add: onion_decrypt_forward_def onion_encrypt_forward_def)

lemma decrypt_encrypt_backward [simp]:
  "onion_decrypt_backward P h (snd (onion_encrypt_backward P h p)) = (fst (onion_encrypt_backward P h p), p)"
  by (simp add: onion_decrypt_backward_def onion_encrypt_backward_def)

lemma forward_digest_encrypt [simp]:
  "h_forward_digest (fst (onion_encrypt_forward P h p)) = h_forward_digest h"
  by (simp add: onion_encrypt_forward_def)

lemma backward_digest_encrypt [simp]:
  "h_backward_digest (fst (onion_encrypt_backward P h p)) = h_backward_digest h"
  by (simp add: onion_encrypt_backward_def)

lemma encrypt_forward_digest_upd:
  "onion_encrypt_forward P (h \<lparr> h_forward_digest := d \<rparr>) p =
     ((fst (onion_encrypt_forward P h p)) \<lparr> h_forward_digest := d \<rparr>, snd (onion_encrypt_forward P h p))"
  by (simp add: onion_encrypt_forward_def)

lemma encrypt_backward_digest_upd:
  "onion_encrypt_backward P (h \<lparr> h_backward_digest := d \<rparr>) p =
     ((fst (onion_encrypt_backward P h p)) \<lparr> h_backward_digest := d \<rparr>, snd (onion_encrypt_backward P h p))"
  by (simp add: onion_encrypt_backward_def)

text \<open>A stamped cell is recognised under the digest it was stamped with.\<close>

lemma recognize_stamped:
  assumes "stamp_digest P r run = (r', d)" "r_recognized r = 0" "relay_wf r"
  shows "recognize P (relay_to_payload r') run = Some (r', d)"
proof -
  have "relay_wf r'" using stamp_digest_fields [OF assms(1)] assms(3) by (simp add: relay_wf_def)
  then have "relay_from_payload (relay_to_payload r') = Inr r'" by (rule relayc.dec_enc)
  moreover have "d = run @ zero_digest (relay_to_payload r')"
    using stamp_digest_absorbs [OF assms(1)] by simp
  ultimately show ?thesis
    using stamped_recognized [OF assms(1,2)] by (simp add: recognize_def)
qed

subsection \<open>Forward cells\<close>

lemma forward_path_delivers:
  assumes "recognize P q (h_forward_digest ht) = Some (rc, d)"
  shows "\<exists>rs' q' j x. forward_path P i (hs @ [ht]) (snd (encrypt_hops P (hs @ [ht \<lparr> h_forward_digest := d \<rparr>]) q))
      = (rs', q', Some (j, x)) \<and> i \<le> j \<and> j \<le> i + length hs
    \<and> (j = i + length hs \<longrightarrow> x = rc \<and> rs' = fst (encrypt_hops P (hs @ [ht \<lparr> h_forward_digest := d \<rparr>]) q))"
proof (induction hs arbitrary: i)
  case Nil
  show ?case
    using assms by (simp add: relay_peel_def split_beta Let_def encrypt_forward_digest_upd)
next
  case (Cons h hs)
  let ?E = "encrypt_hops P (hs @ [ht \<lparr> h_forward_digest := d \<rparr>]) q"
  have peel: "relay_peel P h (snd (onion_encrypt_forward P h (snd ?E))) =
     (case recognize P (snd ?E) (h_forward_digest h) of
        Some (y, e) \<Rightarrow> ((fst (onion_encrypt_forward P h (snd ?E))) \<lparr> h_forward_digest := e \<rparr>, snd ?E, Some y)
      | None \<Rightarrow> (fst (onion_encrypt_forward P h (snd ?E)), snd ?E, None))"
    by (simp add: relay_peel_def)
  obtain rs' q' j x where IH: "forward_path P (Suc i) (hs @ [ht]) (snd ?E) = (rs', q', Some (j, x))"
    "Suc i \<le> j" "j \<le> Suc i + length hs"
    "j = Suc i + length hs \<longrightarrow> x = rc \<and> rs' = fst ?E"
    using Cons.IH [of "Suc i"] by blast
  show ?case
  proof (cases "recognize P (snd ?E) (h_forward_digest h)")
    case None
    then show ?thesis using IH by (simp add: split_beta peel)
  next
    case (Some ye)
    then show ?thesis by (cases ye) (simp add: split_beta peel)
  qed
qed

lemma encrypt_hops_append_update:
  "n < length hs \<Longrightarrow>
   take (Suc n) (hs[n := h]) = take n hs @ [h] \<and> drop (Suc n) (hs[n := h]) = drop (Suc n) hs"
  by (simp add: take_Suc_conv_app_nth)

lemma forward_delivery:
  assumes enc: "encrypt_outbound P now t relay c = (c', Inr p)" and e2e: "o_e2e c = None"
    and r: "relay_wf relay" "r_recognized relay = 0"
    and st: "stamp_digest P relay (h_forward_digest (o_hops c ! t)) = (stamped, d)"
  shows "\<exists>rs' q j x. forward_path P 0 (take (Suc t) (o_hops c)) p = (rs', q, Some (j, x)) \<and> j \<le> t
    \<and> (j = t \<longrightarrow> x = stamped \<and> o_hops c' = rs' @ drop (Suc t) (o_hops c))"
proof -
  let ?h = "o_hops c ! t"
  have t: "t < length (o_hops c)" using enc by (auto simp: encrypt_outbound_def split: if_splits)
  let ?hs = "take t (o_hops c) @ [?h \<lparr> h_forward_digest := d \<rparr>]"
  note u = encrypt_hops_append_update [OF t, of "?h \<lparr> h_forward_digest := d \<rparr>"]
  have c': "o_hops c' = fst (encrypt_hops P ?hs (relay_to_payload stamped)) @ drop (Suc t) (o_hops c)"
    and p: "p = snd (encrypt_hops P ?hs (relay_to_payload stamped))"
    using enc t e2e st u by (auto simp: encrypt_outbound_def Let_def split_beta)
  have tk: "take (Suc t) (o_hops c) = take t (o_hops c) @ [?h]" using t by (rule take_Suc_conv_app_nth)
  have "length (take t (o_hops c)) = t" using t by simp
  then show ?thesis
    using forward_path_delivers [OF recognize_stamped [OF st r(2,1)], of 0 "take t (o_hops c)"]
    unfolding tk p c' by auto
qed

subsection \<open>Backward cells\<close>

lemma peel_hops_delivers:
  assumes "recognize P q (h_backward_digest ht) = Some (rc, d)"
  shows "\<exists>hs' q' j x. peel_hops P i (hs @ ht # rest) (snd (wrap_backward P (hs @ [ht \<lparr> h_backward_digest := d \<rparr>]) q))
      = (hs', q', Some (j, x)) \<and> i \<le> j \<and> j \<le> i + length hs
    \<and> (j = i + length hs \<longrightarrow> x = rc
        \<and> hs' = fst (wrap_backward P (hs @ [ht \<lparr> h_backward_digest := d \<rparr>]) q) @ rest)"
proof (induction hs arbitrary: i)
  case Nil
  show ?case
    using assms by (simp add: split_beta Let_def encrypt_backward_digest_upd)
next
  case (Cons h hs)
  let ?E = "wrap_backward P (hs @ [ht \<lparr> h_backward_digest := d \<rparr>]) q"
  obtain rs' q' j x where IH: "peel_hops P (Suc i) (hs @ ht # rest) (snd ?E) = (rs', q', Some (j, x))"
    "Suc i \<le> j" "j \<le> Suc i + length hs"
    "j = Suc i + length hs \<longrightarrow> x = rc \<and> rs' = fst ?E @ rest"
    using Cons.IH [of "Suc i"] by blast
  show ?case
  proof (cases "recognize P (snd ?E) (h_backward_digest h)")
    case None
    then show ?thesis using IH by (simp add: split_beta)
  next
    case (Some ye)
    then show ?thesis by (cases ye) (simp add: split_beta)
  qed
qed

text \<open>The path up to relay \<open>t\<close> when relay \<open>t\<close> sends \<open>relay\<close> towards the origin.\<close>

definition backward_send ::
  "prims \<Rightarrow> nat \<Rightarrow> relay_cell \<Rightarrow> hop_state list \<Rightarrow> hop_state list \<times> bytes" where
  "backward_send P t relay rs =
     (let (ht, p) = relay_send_backward P relay (rs ! t);
          (front, p') = wrap_backward P (take t rs) p
      in (front @ ht # drop (Suc t) rs, p'))"

lemma wrap_backward_append:
  "wrap_backward P (rs @ ss) p =
     (let (ss', p1) = wrap_backward P ss p; (rs', p2) = wrap_backward P rs p1 in (rs' @ ss', p2))"
  by (induction rs) (simp_all add: split_beta Let_def)

lemma backward_delivery:
  assumes t: "t < length (o_hops c)" and r: "relay_wf relay" "r_recognized relay = 0"
    and st: "stamp_digest P relay (h_backward_digest (o_hops c ! t)) = (stamped, d)"
    and send: "backward_send P t relay (o_hops c) = (rs', p)"
    and dec: "decrypt_inbound P now p c = (c', r')"
  shows "\<exists>j x. r' = Some (j, x) \<and> j \<le> t \<and> (j = t \<longrightarrow> x = stamped \<and> o_hops c' = rs')"
proof -
  let ?h = "o_hops c ! t" and ?f = "take t (o_hops c)" and ?tl = "drop (Suc t) (o_hops c)"
  have hops: "o_hops c = ?f @ ?h # ?tl" using t by (rule id_take_nth_drop)
  let ?W = "wrap_backward P (?f @ [?h \<lparr> h_backward_digest := d \<rparr>]) (relay_to_payload stamped)"
  have p: "p = snd ?W" and rs': "rs' = fst ?W @ ?tl"
    using send by (auto simp: backward_send_def relay_send_backward_def st wrap_backward_append
        Let_def split_beta)
  have len: "length ?f = t" using t by simp
  obtain hs' q' j x where pl: "peel_hops P 0 (?f @ ?h # ?tl) (snd ?W) = (hs', q', Some (j, x))"
    "j \<le> t" "j = t \<longrightarrow> x = stamped \<and> hs' = fst ?W @ ?tl"
    using peel_hops_delivers [OF recognize_stamped [OF st r(2,1)], of 0 ?f ?tl] len by auto
  then show ?thesis
    using dec unfolding decrypt_inbound_def p rs' hops [symmetric] by (auto simp: Let_def)
qed


subsection \<open>Building a circuit\<close>

text \<open>The CREATE and CREATED cells as the node cuts them (node.rs, \<open>handle_circuit_cell\<close>).\<close>

definition create_msg :: "cell \<Rightarrow> bytes" where
  "create_msg cell = take CLIENT_HANDSHAKE_LEN (c_payload cell)"

definition created_reply :: "cell \<Rightarrow> bytes" where
  "created_reply cell = take SERVER_HANDSHAKE_LEN (c_payload cell)"

lemma cell_with_payload_roundtrip:
  assumes "length d \<le> CELL_PAYLOAD"
  shows "\<exists>cell. cell_with_payload cid cmd d = Inr cell \<and> cell_from_bytes (cell_to_bytes cell) = Inr cell
    \<and> c_circ_id cell = cid \<and> c_command cell = cmd \<and> take (length d) (c_payload cell) = d"
proof -
  let ?c = "\<lparr> c_circ_id = cid, c_command = cmd, c_payload = d @ replicate (CELL_PAYLOAD - length d) 0 \<rparr>"
  have "cell_wf ?c" using assms by (simp add: cell_wf_def)
  then have "cell_from_bytes (cell_to_bytes ?c) = Inr ?c" by (rule cellc.dec_enc)
  then show ?thesis using assms by (simp add: cell_with_payload_def)
qed

text \<open>After CREATE and CREATED, the origin's first hop is the relay's hop.\<close>

lemma create_handshake:
  assumes dh: "dh_ok P" and kdf: "kdf_ok P" and gid: "length gid = 32"
    and start: "start_circuit P now x g gid (p_x25519_pub P b) m = (m1, out)"
  shows "\<exists>cid bs cell rbs rcell r1 m2 c rc. out = Inr (cid, bs) \<and> cell_from_bytes bs = Inr cell
    \<and> c_command cell = CCreate \<and> c_circ_id cell = cid
    \<and> handle_create P now' y from cid gid (p_x25519_pub P b) b (create_msg cell) r = (r1, Inr rbs)
    \<and> cell_from_bytes rbs = Inr rcell \<and> c_command rcell = CCreated \<and> c_circ_id rcell = cid
    \<and> handle_created P cid (created_reply rcell) m1 = (m2, Inr ())
    \<and> hm_get (m_origins m2) cid = Some c \<and> hm_get (m_relays r1) (from, cid) = Some rc
    \<and> o_hops c = [rc_hop rc] \<and> o_pending c = None \<and> o_e2e c = None"
proof -
  let ?B = "p_x25519_pub P b"
  obtain hs msg where hm: "client_handshake_start P x gid ?B = (hs, msg)" by fastforce
  then have lm: "length msg = 96" using dh gid by (auto simp: client_handshake_start_def Let_def)
  define cid where "cid = CircuitId (m_next_origin_id m)"
  obtain cell where cell: "cell_with_payload cid CCreate msg = Inr cell"
    "cell_from_bytes (cell_to_bytes cell) = Inr cell" "c_circ_id cell = cid" "c_command cell = CCreate"
    "create_msg cell = msg"
    using cell_with_payload_roundtrip [of msg cid CCreate] lm by (auto simp: create_msg_def)
  have out: "out = Inr (cid, cell_to_bytes cell)"
    and m1: "hm_get (m_origins m1) cid = Some (origin_new cid g now \<lparr> o_pending := Some hs \<rparr>)"
    using start hm cell(1)
    by (auto simp: start_circuit_def fresh_origin_id_def Let_def cid_def hm.get_ins)
  obtain keys reply where kr: "server_handshake P y gid ?B b msg = Inr (keys, reply)"
    "client_handshake_finish P hs reply = Inr keys" "length reply = 64"
    using ntor_agreement_aux [OF dh kdf gid hm, of y] by auto
  obtain rcell where rcell: "cell_with_payload cid CCreated reply = Inr rcell"
    "cell_from_bytes (cell_to_bytes rcell) = Inr rcell" "c_circ_id rcell = cid"
    "c_command rcell = CCreated" "created_reply rcell = reply"
    using cell_with_payload_roundtrip [of reply cid CCreated] kr(3) by (auto simp: created_reply_def)
  obtain r1 where r1: "handle_create P now' y from cid gid ?B b (create_msg cell) r = (r1, Inr (cell_to_bytes rcell))"
    and rc: "\<exists>rc. hm_get (m_relays r1) (from, cid) = Some rc \<and> rc_hop rc = hop_from_ntor keys"
    using kr(1) cell(5) rcell(1)
    by (auto simp: handle_create_def Let_def update_relay_def hm.get_ins)
  define c where "c = origin_new cid g now \<lparr> o_pending := None, o_hops := [hop_from_ntor keys] \<rparr>"
  have hc: "handle_created P cid (created_reply rcell) m1 = (update_origin cid c m1, Inr ())"
    using m1 kr(2) rcell(5) by (simp add: handle_created_def finish_pending_def Let_def origin_new_def c_def)
  have c: "o_hops c = [hop_from_ntor keys]" "o_pending c = None" "o_e2e c = None"
    by (simp_all add: c_def origin_new_def)
  have get: "hm_get (m_origins (update_origin cid c m1)) cid = Some c"
    by (simp add: update_origin_def hm.get_ins)
  from rc obtain rc where "hm_get (m_relays r1) (from, cid) = Some rc" "rc_hop rc = hop_from_ntor keys"
    by blast
  with out cell r1 rcell hc get c show ?thesis by metis
qed

text \<open>EXTEND2 reaches the last relay of the path, with a handshake the next relay answers.\<close>

lemma extend_request:
  assumes dh: "dh_ok P" and kdf: "kdf_ok P" and l: "link_spec_wf nxt"
    and b: "ls_static_pub nxt = p_x25519_pub P b" and host: "parse_ipv4 (ls_host nxt) = Some a"
    and e2e: "o_e2e c = None"
    and ext: "extend_origin P now x nxt c = (c1, Inr p)"
  shows "\<exists>rs q j cell. forward_path P 0 (o_hops c) p = (rs, q, Some (j, cell))
    \<and> (j < length (o_hops c) - 1
       \<or> (j = length (o_hops c) - 1 \<and> o_hops c1 = rs \<and> o_e2e c1 = None \<and> r_command cell = RExtend2
          \<and> (\<exists>msg hs. parse_extend2 (r_data cell) = Inr (nxt \<lparr> ls_host := show_ipv4 a \<rparr>, msg)
               \<and> length msg = CLIENT_HANDSHAKE_LEN \<and> o_pending c1 = Some hs
               \<and> (\<forall>y. \<exists>keys reply. server_handshake P y (ls_node_id nxt) (ls_static_pub nxt) b msg
                        = Inr (keys, reply)
                      \<and> client_handshake_finish P hs reply = Inr keys \<and> length reply = 64))))"
proof -
  obtain hs msg where hm: "client_handshake_start P x (ls_node_id nxt) (ls_static_pub nxt) = (hs, msg)"
    by fastforce
  then have lm: "length msg = 96"
    using dh l by (auto simp: client_handshake_start_def Let_def link_spec_wf_def)
  have ne: "o_hops c \<noteq> []" using ext by (auto simp: extend_origin_def)
  let ?t = "length (o_hops c) - 1"
  let ?relay = "\<lparr> r_command = RExtend2, r_recognized = 0, r_stream_id = 0, r_digest = 0,
     r_data = build_extend2 nxt msg \<rparr>"
  have relay: "relay_new RExtend2 0 (build_extend2 nxt msg) = Inr ?relay"
    using build_extend2_length [OF l, of msg] lm by (simp add: relay_new_def)
  then have rwf: "relay_wf ?relay" by (rule relay_new_wf)
  let ?c = "c \<lparr> o_pending := Some hs \<rparr>"
  obtain c2 where enc: "encrypt_outbound P now ?t ?relay ?c = (c2, Inr p)"
    and c1: "c1 = c2 \<lparr> o_relay_early_used := o_relay_early_used c2 + 1 \<rparr>"
    using ext ne hm relay by (auto simp: extend_origin_def Let_def split: if_splits prod.splits sum.splits)
  obtain stamped d where st: "stamp_digest P ?relay (h_forward_digest (o_hops ?c ! ?t)) = (stamped, d)"
    by fastforce
  have full: "take (Suc ?t) (o_hops ?c) = o_hops c" "drop (Suc ?t) (o_hops ?c) = []" using ne by simp_all
  obtain rs q j cell where f: "forward_path P 0 (o_hops c) p = (rs, q, Some (j, cell))" "j \<le> ?t"
    "j = ?t \<longrightarrow> cell = stamped \<and> o_hops c2 = rs"
    using forward_delivery [OF enc _ rwf _ st] e2e full by auto
  have e2: "o_e2e c2 = None" "o_pending c2 = Some hs"
    using enc e2e by (auto simp: encrypt_outbound_def Let_def split_beta split: if_splits)
  have sd: "r_command stamped = RExtend2" "r_data stamped = build_extend2 nxt msg"
    using stamp_digest_fields [OF st] by simp_all
  have px: "parse_extend2 (r_data stamped) = Inr (nxt \<lparr> ls_host := show_ipv4 a \<rparr>, msg)"
    unfolding sd by (rule parse_extend2_build [OF l host]) (simp add: lm)
  have "length (ls_node_id nxt) = 32" using l by (simp add: link_spec_wf_def)
  then have agree: "\<exists>keys reply. server_handshake P y (ls_node_id nxt) (ls_static_pub nxt) b msg = Inr (keys, reply)
      \<and> client_handshake_finish P hs reply = Inr keys \<and> length reply = 64" for y
    using ntor_agreement_aux [OF dh kdf _ hm [unfolded b], of y] unfolding b by auto
  show ?thesis
  proof (cases "j = ?t")
    case True
    then have "cell = stamped" "o_hops c1 = rs" using f(3) c1 by simp_all
    then show ?thesis using f(1) True e2 c1 sd(1) px lm agree by auto
  next
    case False
    then show ?thesis using f(1,2) by auto
  qed
qed

text \<open>EXTENDED2 from the last relay installs the hop the next relay holds.\<close>

lemma extend_reply:
  assumes ne: "o_hops c \<noteq> []" and len: "length reply = 64"
    and pend: "o_pending c = Some hs" "client_handshake_finish P hs reply = Inr keys"
    and rel: "relay_new RExtended2 0 (build_extended2 reply) = Inr relay"
    and send: "backward_send P (length (o_hops c) - 1) relay (o_hops c) = (rs, p)"
    and run: "origin_relay P now p c = (c', res)"
  shows "(\<exists>j x c1. decrypt_inbound P now p c = (c1, Some (j, x)) \<and> j < length (o_hops c) - 1)
    \<or> (res = Inr None \<and> o_hops c' = rs @ [hop_from_ntor keys] \<and> o_pending c' = None)"
proof -
  let ?t = "length (o_hops c) - 1"
  have r: "relay = \<lparr> r_command = RExtended2, r_recognized = 0, r_stream_id = 0, r_digest = 0,
      r_data = build_extended2 reply \<rparr>"
    using rel by (auto simp: relay_new_def split: if_splits)
  obtain stamped d where st: "stamp_digest P relay (h_backward_digest (o_hops c ! ?t)) = (stamped, d)"
    by fastforce
  obtain c1 r' where dec: "decrypt_inbound P now p c = (c1, r')" by fastforce
  have t: "?t < length (o_hops c)" using ne by simp
  obtain j x where jx: "r' = Some (j, x)" "j \<le> ?t" "j = ?t \<longrightarrow> x = stamped \<and> o_hops c1 = rs"
    using backward_delivery [OF t relay_new_wf [OF rel] _ st send dec] r by auto
  show ?thesis
  proof (cases "j = ?t")
    case False
    then show ?thesis using dec jx by auto
  next
    case True
    have x: "r_command x = RExtended2" "r_data x = build_extended2 reply" "o_hops c1 = rs"
      using jx True stamp_digest_fields [OF st] r by simp_all
    have p1: "o_pending c1 = Some hs" using decrypt_inbound_fields [OF dec] pend(1) by simp
    have "parse_extended2 (r_data x) = Inr reply" unfolding x(2) by (rule parse_extended2_build) (simp add: len)
    then show ?thesis
      using run dec jx(1) x p1 pend(2) len
      by (auto simp: origin_relay_def finish_pending_def Let_def)
  qed
qed

subsection \<open>Across a rendezvous point\<close>

text \<open>The other end's view of an end-to-end layer.\<close>

definition mirror :: "hop_state \<Rightarrow> hop_state" where
  "mirror h = \<lparr> h_forward_key = h_backward_key h, h_backward_key = h_forward_key h,
     h_forward_nonce = h_backward_nonce h, h_backward_nonce = h_forward_nonce h,
     h_forward_digest = h_backward_digest h, h_backward_digest = h_forward_digest h \<rparr>"

lemma mirror_e2e: "mirror (hop_from_e2e_keys k c) = hop_from_e2e_keys k (\<not> c)"
  by (cases c) (simp_all add: mirror_def hop_from_e2e_keys_def)

lemma decrypt_mirror:
  "onion_decrypt_backward P (mirror h) (snd (onion_encrypt_forward P h p)) =
     (mirror (fst (onion_encrypt_forward P h p)), p)"
  by (simp add: onion_decrypt_backward_def onion_encrypt_forward_def mirror_def)

lemma forward_path_none:
  "forward_path P i hs (snd (encrypt_hops P hs q)) = (rs, q', None) \<Longrightarrow>
   rs = fst (encrypt_hops P hs q) \<and> q' = q"
proof (induction hs arbitrary: i rs q')
  case (Cons h hs)
  obtain hs1 p1 where e: "encrypt_hops P hs q = (hs1, p1)" by fastforce
  obtain rs1 q1 r1 where f: "forward_path P (Suc i) hs p1 = (rs1, q1, r1)" by (metis prod_cases3)
  have n: "recognize P p1 (h_forward_digest h) = None"
    using Cons.prems e f by (auto simp: relay_peel_def split_beta Let_def split: option.splits)
  with Cons.prems e f have "r1 = None" "q' = q1"
    "rs = fst (onion_encrypt_forward P h p1) # rs1"
    by (auto simp: relay_peel_def split_beta Let_def)
  with Cons.IH [of "Suc i" rs1 q1] e f show ?case by (simp add: split_beta)
qed simp

lemma peel_hops_none:
  "peel_hops P i hs (snd (wrap_backward P hs q)) = (rs, q', None) \<Longrightarrow>
   rs = fst (wrap_backward P hs q) \<and> q' = q"
proof (induction hs arbitrary: i rs q')
  case (Cons h hs)
  obtain hs1 p1 where e: "wrap_backward P hs q = (hs1, p1)" by fastforce
  obtain rs1 q1 r1 where f: "peel_hops P (Suc i) hs p1 = (rs1, q1, r1)" by (metis prod_cases3)
  have n: "recognize P p1 (h_backward_digest h) = None"
    using Cons.prems e f by (auto simp: split_beta Let_def split: option.splits)
  with Cons.prems e f have "r1 = None" "q' = q1" "rs = fst (onion_encrypt_backward P h p1) # rs1"
    by (auto simp: split_beta Let_def)
  with Cons.IH [of "Suc i" rs1 q1] e f show ?case by (simp add: split_beta)
qed simp

lemma peel_hops_index:
  "peel_hops P i hs p = (rs, q, Some (j, x)) \<Longrightarrow> i \<le> j \<and> j < i + length hs"
proof (induction hs arbitrary: i p rs q)
  case (Cons h hs)
  obtain h1 p1 where d: "onion_decrypt_backward P h p = (h1, p1)" by fastforce
  obtain rs1 q1 r1 where f: "peel_hops P (Suc i) hs p1 = (rs1, q1, r1)" by (metis prod_cases3)
  have "i = j \<or> r1 = Some (j, x)"
    using Cons.prems d f by (auto simp: Let_def split: option.splits)
  with Cons.IH [of "Suc i" p1 rs1 q1] f show ?case by auto
qed simp

lemma rendezvous_delivery:
  assumes enc: "encrypt_outbound P now (length (o_hops c) - 1) relay c = (c', Inr p)"
    and e: "o_e2e c = Some e" and hs: "o_e2e hc = Some (mirror e)"
    and r: "relay_wf relay" "r_recognized relay = 0"
    and st: "stamp_digest P relay (h_forward_digest e) = (stamped, d)"
    and fw: "forward_path P 0 (o_hops c) p = (crs, q, hit)"
    and bw: "wrap_backward P (o_hops hc) q = (hrs, p2)"
    and dec: "decrypt_inbound P now' p2 hc = (hc', res)"
  shows "hit \<noteq> None \<or> (\<exists>j x. res = Some (j, x) \<and> j < length (o_hops hc))
    \<or> (res = Some (USIZE_MAX, stamped) \<and> o_hops c' = crs \<and> o_hops hc' = hrs
       \<and> o_e2e hc' = map_option mirror (o_e2e c'))"
proof -
  have ne: "o_hops c \<noteq> []" using enc by (auto simp: encrypt_outbound_def)
  then have n1: "\<not> length (o_hops c) \<le> length (o_hops c) - Suc 0"
    and n2: "Suc (length (o_hops c) - Suc 0) = length (o_hops c)" by (cases "o_hops c"; simp)+
  let ?q = "snd (onion_encrypt_forward P e (relay_to_payload stamped))"
  have p: "p = snd (encrypt_hops P (o_hops c) ?q)" and c': "o_hops c' = fst (encrypt_hops P (o_hops c) ?q)"
    "o_e2e c' = Some ((fst (onion_encrypt_forward P e (relay_to_payload stamped))) \<lparr> h_forward_digest := d \<rparr>)"
    using enc n1 n2 e st by (auto simp: encrypt_outbound_def Let_def split_beta encrypt_forward_digest_upd)
  show ?thesis
  proof (cases hit)
    case None
    from forward_path_none [OF fw [unfolded p None]] have q: "crs = o_hops c'" "q = ?q" using c' by simp_all
    obtain hs1 q1 r1 where pl: "peel_hops P 0 (o_hops hc) p2 = (hs1, q1, r1)" by (metis prod_cases3)
    show ?thesis
    proof (cases r1)
      case (Some jx)
      then obtain j x where jx: "r1 = Some (j, x)" by (cases jx) auto
      then have "j < length (o_hops hc)" using peel_hops_index [OF pl [unfolded jx]] by simp
      moreover have "res = Some (j, x)" using dec pl jx by (auto simp: decrypt_inbound_def Let_def)
      ultimately show ?thesis by blast
    next
      case None
      have h: "hs1 = hrs" "q1 = ?q"
        using peel_hops_none [of P 0 "o_hops hc" q hs1 q1] bw pl None q(2) by auto
      have dm: "onion_decrypt_backward P (mirror e) ?q =
          (mirror (fst (onion_encrypt_forward P e (relay_to_payload stamped))), relay_to_payload stamped)"
        by (rule decrypt_mirror)
      have dig: "h_backward_digest (mirror (fst (onion_encrypt_forward P e x))) = h_forward_digest e" for x
        by (simp add: mirror_def)
      have rec: "recognize P (relay_to_payload stamped) (h_forward_digest e) = Some (stamped, d)"
        by (rule recognize_stamped [OF st r(2,1)])
      have mu: "(mirror h) \<lparr> h_backward_digest := d \<rparr> = mirror (h \<lparr> h_forward_digest := d \<rparr>)" for h
        by (simp add: mirror_def)
      have "res = Some (USIZE_MAX, stamped) \<and> o_hops hc' = hrs
          \<and> o_e2e hc' = Some (mirror ((fst (onion_encrypt_forward P e (relay_to_payload stamped))) \<lparr> h_forward_digest := d \<rparr>))"
        using dec pl None h hs dm dig rec by (auto simp: decrypt_inbound_def Let_def mu)
      then show ?thesis using q(1) c' by simp
    qed
  qed simp
qed

text \<open>The rendezvous point's own step is the last relay of one path and the last of the other.\<close>

lemma handle_forward_relay_bridge:
  assumes "hm_get (m_relays m) (p, cid) = Some rc" "relay_peel P (rc_hop rc) (c_payload cell) = (h, q, None)"
    "rc_next_peer rc = None" "bridge_partner (p, cid) m = Some k" "k \<noteq> (p, cid)"
    "hm_get (m_relays m) k = Some prc" "onion_encrypt_backward P (rc_hop prc) q = (h2, q2)"
  shows "handle_forward_relay P now p cid cell m =
    (update_relay k (prc \<lparr> rc_hop := h2, rc_last_activity := now \<rparr>)
       (update_relay (p, cid) (rc \<lparr> rc_hop := h, rc_last_activity := now \<rparr>) m),
     RaForward (rc_prev_peer prc) (cell_to_bytes
       \<lparr> c_circ_id = rc_prev_circ_id prc, c_command = c_command cell, c_payload = q2 \<rparr>))"
  using assms
  by (auto simp: relay_peel_def handle_forward_relay_def Let_def split_beta bridge_partner_def
      update_relay_def hm.get_ins split: option.splits)

text \<open>One end of a joined rendezvous: its origin circuit, the hop states of the relays between it
  and the rendezvous point, and the leg under which the point knows its circuit. A cell that an
  end sends is sealed by its origin, peeled along its path, handled by the rendezvous point, read
  off the wire by the other path, wrapped there and opened by the other origin.\<close>

record rdv_end =
  re_origin :: origin_circuit
  re_path :: "hop_state list"
  re_leg :: leg

datatype rdv_result = RdvRead relay_cell | RdvCollided | RdvLost

type_synonym rdv_state = "rdv_end \<times> rdv_end \<times> circuit_manager"

definition rdv_deliver ::
  "prims \<Rightarrow> instant \<Rightarrow> peer_id \<Rightarrow> bytes \<Rightarrow> rdv_end \<Rightarrow> rdv_end \<times> rdv_result" where
  "rdv_deliver P now np bs b =
     (case cell_from_bytes bs of
        Inl _ \<Rightarrow> (b, RdvLost)
      | Inr cell \<Rightarrow>
          if (np, c_circ_id cell) \<noteq> re_leg b then (b, RdvLost)
          else
            (let (path, p) = wrap_backward P (re_path b) (c_payload cell);
                 (o', r) = decrypt_inbound P now p (re_origin b);
                 b' = b \<lparr> re_origin := o', re_path := path \<rparr>
             in case r of
                  None \<Rightarrow> (b', RdvLost)
                | Some (j, x) \<Rightarrow>
                    (b', if j < length (o_hops (re_origin b)) then RdvCollided else RdvRead x)))"

definition rdv_cross ::
  "prims \<Rightarrow> instant \<Rightarrow> relay_cell \<Rightarrow> rdv_state \<Rightarrow> rdv_state \<times> rdv_result" where
  "rdv_cross P now relay = (\<lambda>(a, b, m).
     (case encrypt_outbound P now (length (o_hops (re_origin a)) - 1) relay (re_origin a) of
        (o', Inl _) \<Rightarrow> ((a, b, m), RdvLost)
      | (o', Inr p) \<Rightarrow>
          (case forward_path P 0 (re_path a) p of
             (path, q, Some _) \<Rightarrow> ((a \<lparr> re_origin := o', re_path := path \<rparr>, b, m), RdvCollided)
           | (path, q, None) \<Rightarrow>
               (let a' = a \<lparr> re_origin := o', re_path := path \<rparr>;
                    (m', act) = handle_forward_relay P now (fst (re_leg a)) (snd (re_leg a))
                      \<lparr> c_circ_id = snd (re_leg a), c_command = CRelay, c_payload = q \<rparr> m
                in case act of
                     RaHandle _ \<Rightarrow> ((a', b, m'), RdvCollided)
                   | RaDrop \<Rightarrow> ((a', b, m'), RdvLost)
                   | RaForward np bs \<Rightarrow>
                       (let (b', r) = rdv_deliver P now np bs b in ((a', b', m'), r))))))"

text \<open>Cells of both ends in any order, until one is lost or taken by a relay in between.\<close>

fun rdv_run ::
  "prims \<Rightarrow> (instant \<times> bool \<times> relay_cell) list \<Rightarrow> rdv_state \<Rightarrow> rdv_result list" where
  "rdv_run P [] st = []"
| "rdv_run P ((now, from_client, relay) # msgs) (c, s, m) =
     (if from_client
      then (case rdv_cross P now relay (c, s, m) of
              ((c', s', m'), RdvRead x) \<Rightarrow> RdvRead x # rdv_run P msgs (c', s', m')
            | (_, r) \<Rightarrow> [r])
      else (case rdv_cross P now relay (s, c, m) of
              ((s', c', m'), RdvRead x) \<Rightarrow> RdvRead x # rdv_run P msgs (c', s', m')
            | (_, r) \<Rightarrow> [r]))"

text \<open>What the reading end hands on of a cell, and the outcome in these terms.\<close>

definition relay_content :: "relay_cell \<Rightarrow> relay_command \<times> u16 \<times> bytes" where
  "relay_content r = (r_command r, r_stream_id r, r_data r)"

fun rdv_read :: "rdv_result \<Rightarrow> (relay_command \<times> u16 \<times> bytes) option" where
  "rdv_read (RdvRead x) = Some (relay_content x)"
| "rdv_read _ = None"

text \<open>The two ends and the point in step.\<close>

definition leg_in_step :: "rdv_end \<Rightarrow> circuit_manager \<Rightarrow> bool" where
  "leg_in_step a m \<longleftrightarrow> (\<exists>rc. hm_get (m_relays m) (re_leg a) = Some rc \<and> rc_next_peer rc = None
     \<and> (rc_prev_peer rc, rc_prev_circ_id rc) = re_leg a \<and> o_hops (re_origin a) = re_path a @ [rc_hop rc])"

definition rdv_joined :: "rdv_state \<Rightarrow> bool" where
  "rdv_joined = (\<lambda>(a, b, m). re_leg a \<noteq> re_leg b
     \<and> bridge_partner (re_leg a) m = Some (re_leg b) \<and> bridge_partner (re_leg b) m = Some (re_leg a)
     \<and> leg_in_step a m \<and> leg_in_step b m
     \<and> (\<exists>e. o_e2e (re_origin a) = Some e \<and> o_e2e (re_origin b) = Some (mirror e)))"

lemma mirror_mirror [simp]: "mirror (mirror h) = h"
  by (simp add: mirror_def)

lemma rdv_joined_sym: "rdv_joined (a, b, m) \<Longrightarrow> rdv_joined (b, a, m)"
  by (auto simp: rdv_joined_def)

lemma forward_path_append:
  "forward_path P i (hs @ [h]) p =
     (case forward_path P i hs p of
        (rs, q, Some hit) \<Rightarrow> (rs @ [h], q, Some hit)
      | (rs, q, None) \<Rightarrow>
          (case relay_peel P h q of (h', q', r) \<Rightarrow> (rs @ [h'], q', map_option (Pair (i + length hs)) r)))"
  by (induction hs arbitrary: i p) (auto simp: Let_def split: prod.splits option.splits)

lemma wrap_backward_length: "length (snd (wrap_backward P hs p)) = length p"
  by (induction hs) (simp_all add: split_beta Let_def onion_encrypt_backward_def)

lemma forward_path_length: "forward_path P i hs p = (rs, q, hit) \<Longrightarrow> length q = length p"
  by (induction hs arbitrary: i p rs q hit)
    (fastforce simp: relay_peel_def onion_decrypt_forward_def Let_def split: prod.splits option.splits)+

lemma encrypt_hops_payload_length: "length (snd (encrypt_hops P hs p)) = length p"
  by (induction hs) (simp_all add: split_beta Let_def onion_encrypt_forward_def)

lemma encrypt_outbound_length:
  assumes "encrypt_outbound P now t relay c = (c', Inr p)" "relay_wf relay"
  shows "length p = CELL_PAYLOAD"
proof -
  have "length (relay_to_payload (fst (stamp_digest P relay d))) = CELL_PAYLOAD" for d
    using stamp_digest_fields [of P relay d "fst (stamp_digest P relay d)" "snd (stamp_digest P relay d)"] assms(2)
    by (intro relay_to_payload_length) (simp add: relay_wf_def)
  then show ?thesis using assms(1)
    by (auto simp: encrypt_outbound_def encrypt_hops_payload_length onion_encrypt_forward_def split_beta Let_def
        split: if_splits option.splits)
qed

lemma encrypt_outbound_total:
  "t < length (o_hops c) \<Longrightarrow> \<exists>c' p. encrypt_outbound P now t relay c = (c', Inr p)"
  by (simp add: encrypt_outbound_def split_beta Let_def)

text \<open>One cell across: read as it was sent, everything still in step, or taken by a relay.\<close>

lemma rdv_cross_joined:
  assumes j: "rdv_joined (a, b, m)" and r: "relay_wf relay" "r_recognized relay = 0"
    and run: "rdv_cross P now relay (a, b, m) = ((a', b', m'), res)"
  shows "res = RdvCollided
    \<or> (\<exists>x. res = RdvRead x \<and> relay_content x = relay_content relay \<and> rdv_joined (a', b', m'))"
proof -
  obtain rc sc e where
    rc: "hm_get (m_relays m) (re_leg a) = Some rc" "rc_next_peer rc = None"
      "(rc_prev_peer rc, rc_prev_circ_id rc) = re_leg a" "o_hops (re_origin a) = re_path a @ [rc_hop rc]" and
    sc: "hm_get (m_relays m) (re_leg b) = Some sc" "rc_next_peer sc = None"
      "(rc_prev_peer sc, rc_prev_circ_id sc) = re_leg b" "o_hops (re_origin b) = re_path b @ [rc_hop sc]" and
    e: "o_e2e (re_origin a) = Some e" "o_e2e (re_origin b) = Some (mirror e)" and
    br: "re_leg a \<noteq> re_leg b" "bridge_partner (re_leg a) m = Some (re_leg b)"
      "bridge_partner (re_leg b) m = Some (re_leg a)"
    using j unfolding rdv_joined_def leg_in_step_def by blast
  let ?t = "length (o_hops (re_origin a)) - 1"
  have "?t < length (o_hops (re_origin a))" using rc(4) by simp
  then obtain o' p where enc: "encrypt_outbound P now ?t relay (re_origin a) = (o', Inr p)"
    using encrypt_outbound_total by blast
  obtain path q hit where fp: "forward_path P 0 (re_path a) p = (path, q, hit)" by (metis prod_cases3)
  show ?thesis
  proof (cases hit)
    case (Some h)
    then show ?thesis using run enc fp by (auto simp: rdv_cross_def)
  next
    case None
    let ?cell = "\<lparr> c_circ_id = snd (re_leg a), c_command = CRelay, c_payload = q \<rparr>"
    obtain h1 q1 rec where peel: "relay_peel P (rc_hop rc) q = (h1, q1, rec)" by (metis prod_cases3)
    have fw: "forward_path P 0 (o_hops (re_origin a)) p
        = (path @ [h1], q1, map_option (Pair (length (re_path a))) rec)"
      using fp peel None by (simp add: rc(4) forward_path_append)
    show ?thesis
    proof (cases rec)
      case (Some x)
      have "handle_forward_relay P now (fst (re_leg a)) (snd (re_leg a)) ?cell m =
          (update_relay (re_leg a) (rc \<lparr> rc_hop := h1, rc_last_activity := now \<rparr>) m, RaHandle x)"
        using handle_forward_relay_peel [of m "fst (re_leg a)" "snd (re_leg a)" rc P ?cell] rc(1) peel Some
        by simp
      then show ?thesis using run enc fp None by (auto simp: rdv_cross_def)
    next
      case rec: None
      obtain h2 q2 where wr: "onion_encrypt_backward P (rc_hop sc) q1 = (h2, q2)" by fastforce
      let ?m1 = "update_relay (re_leg b) (sc \<lparr> rc_hop := h2, rc_last_activity := now \<rparr>)
          (update_relay (re_leg a) (rc \<lparr> rc_hop := h1, rc_last_activity := now \<rparr>) m)"
      let ?out = "\<lparr> c_circ_id = rc_prev_circ_id sc, c_command = CRelay, c_payload = q2 \<rparr>"
      have act: "handle_forward_relay P now (fst (re_leg a)) (snd (re_leg a)) ?cell m =
          (?m1, RaForward (rc_prev_peer sc) (cell_to_bytes ?out))"
        using handle_forward_relay_bridge [of m "fst (re_leg a)" "snd (re_leg a)" rc P ?cell h1 q1
            "re_leg b" sc h2 q2 now] rc(1,2) br sc(1) peel rec wr by simp
      have "length q2 = CELL_PAYLOAD"
        using encrypt_outbound_length [OF enc r(1)] forward_path_length [OF fw] wr
        by (auto simp: onion_encrypt_backward_def)
      then have wire: "cell_from_bytes (cell_to_bytes ?out) = Inr ?out"
        by (intro cellc.dec_enc) (simp add: cell_wf_def)
      obtain bpath p2 where bw: "wrap_backward P (re_path b) q2 = (bpath, p2)" by fastforce
      obtain s' out where dec: "decrypt_inbound P now p2 (re_origin b) = (s', out)" by fastforce
      have bw': "wrap_backward P (o_hops (re_origin b)) q1 = (bpath @ [h2], p2)"
        using bw wr by (simp add: sc(4) wrap_backward_append)
      obtain stamped d where st: "stamp_digest P relay (h_forward_digest e) = (stamped, d)" by fastforce
      have leg: "(rc_prev_peer sc, c_circ_id ?out) = re_leg b" using sc(3) by simp
      have eqs: "a' = a \<lparr> re_origin := o', re_path := path \<rparr>" "m' = ?m1"
          "b' = b \<lparr> re_origin := s', re_path := bpath \<rparr>"
          "res = (case out of None \<Rightarrow> RdvLost | Some (j, x) \<Rightarrow>
             if j < length (o_hops (re_origin b)) then RdvCollided else RdvRead x)"
        using run enc fp None act wire leg bw dec
        by (auto simp: rdv_cross_def rdv_deliver_def Let_def split: option.splits)
      from rendezvous_delivery [OF enc e r st fw bw' dec] rec
      consider i x where "out = Some (i, x)" "i < length (o_hops (re_origin b))"
        | "out = Some (USIZE_MAX, stamped)" "o_hops o' = path @ [h1]" "o_hops s' = bpath @ [h2]"
          "o_e2e s' = map_option mirror (o_e2e o')"
        by auto
      then show ?thesis
      proof cases
        case 1
        then show ?thesis using eqs(4) by simp
      next
        case 2
        have "o_e2e o' \<noteq> None"
          using enc e(1) by (auto simp: encrypt_outbound_def Let_def split_beta split: if_splits)
        moreover have "relay_content stamped = relay_content relay"
          using stamp_digest_fields [OF st] by (simp add: relay_content_def)
        moreover have "leg_in_step a' m'" "leg_in_step b' m'"
          using eqs(1-3) rc sc br(1) 2(2,3) by (auto simp: leg_in_step_def update_relay_def hm.get_ins)
        moreover have "bridge_partner l m' = bridge_partner l m" for l
          using eqs(2) by (simp add: bridge_partner_def update_relay_def)
        ultimately show ?thesis using 2(1,4) eqs(1,3,4) br by (auto simp: rdv_joined_def)
      qed
    qed
  qed
qed

lemma rdv_run_reads:
  assumes "rdv_joined (c, s, m)" "\<forall>(_, _, r)\<in>set msgs. relay_wf r \<and> r_recognized r = 0"
  shows "\<exists>n \<le> length msgs. map rdv_read (rdv_run P msgs (c, s, m))
      = map (\<lambda>(_, _, r). Some (relay_content r)) (take n msgs) @ (if n < length msgs then [None] else [])
    \<and> RdvLost \<notin> set (rdv_run P msgs (c, s, m))"
  using assms
proof (induction msgs arbitrary: c s m)
  case (Cons msg msgs)
  obtain now up r where msg: "msg = (now, up, r)" by (metis prod_cases3)
  have r: "relay_wf r" "r_recognized r = 0" using Cons.prems(2) msg by auto
  define st where "st = (if up then (c, s, m) else (s, c, m))"
  obtain a b m0 where st': "st = (a, b, m0)" by (metis prod_cases3)
  have j: "rdv_joined (a, b, m0)" using Cons.prems(1) rdv_joined_sym st' by (auto simp: st_def split: if_splits)
  obtain a' b' m' res where x: "rdv_cross P now r (a, b, m0) = ((a', b', m'), res)"
    by (metis surj_pair)
  have step: "rdv_run P (msg # msgs) (c, s, m) = (case res of
      RdvRead y \<Rightarrow> RdvRead y # rdv_run P msgs (if up then (a', b', m') else (b', a', m')) | _ \<Rightarrow> [res])"
    using x st' by (cases up) (simp_all add: msg st_def split: rdv_result.splits)
  from rdv_cross_joined [OF j r x] show ?case
  proof (elim disjE exE conjE)
    assume "res = RdvCollided"
    then show ?thesis unfolding step by (intro exI [of _ 0]) simp
  next
    fix y assume y: "res = RdvRead y" "relay_content y = relay_content r" and j': "rdv_joined (a', b', m')"
    obtain c1 s1 m1 where n: "(if up then (a', b', m') else (b', a', m')) = (c1, s1, m1)" by (metis prod_cases3)
    then have "rdv_joined (c1, s1, m1)" using j' rdv_joined_sym by (auto split: if_splits)
    from Cons.IH [OF this] Cons.prems(2) obtain k where k: "k \<le> length msgs"
      "map rdv_read (rdv_run P msgs (c1, s1, m1))
        = map (\<lambda>(_, _, r). Some (relay_content r)) (take k msgs) @ (if k < length msgs then [None] else [])"
      "RdvLost \<notin> set (rdv_run P msgs (c1, s1, m1))" by auto
    then show ?thesis unfolding step n using y msg by (intro exI [of _ "Suc k"]) simp
  qed
qed simp

text \<open>The handshake and the bridge leave the two ends joined.\<close>

lemma rendezvous_joins:
  assumes "dh_ok P"
    and "hs_finalize P y b (p_x25519_pub P b) (p_x25519_pub P x) = (keys, server_y, auth)"
    and "complete_rendezvous P cookie server_y auth
          (register_pending_rendezvous cookie cid x (p_x25519_pub P x) (p_x25519_pub P b) cm) = (cm', res)"
    and "hm_get (m_origins cm) cid = Some c" "hm_get (m_origins sm) sid = Some s"
    and "hm_get (m_relays rm) cl = Some rc" "rc_next_peer rc = None"
      "(rc_prev_peer rc, rc_prev_circ_id rc) = cl" "o_hops c = cp @ [rc_hop rc]"
    and "hm_get (m_relays rm) sl = Some sc" "rc_next_peer sc = None"
      "(rc_prev_peer sc, rc_prev_circ_id sc) = sl" "o_hops s = sp @ [rc_hop sc]"
    and "cl \<noteq> sl"
  shows "res = Inr cid \<and> (\<exists>c' s'. hm_get (m_origins cm') cid = Some c'
    \<and> hm_get (m_origins (install_service_keys sid keys sm)) sid = Some s'
    \<and> rdv_joined (\<lparr> re_origin = c', re_path = cp, re_leg = cl \<rparr>, \<lparr> re_origin = s', re_path = sp, re_leg = sl \<rparr>,
        bridge_rendezvous cl sl rm))"
proof -
  have "client_finalize P x (p_x25519_pub P x) (p_x25519_pub P b) server_y auth = Inr keys"
    using e2e_agreement_aux [OF assms(1,2)] .
  then have "res = Inr cid"
    "hm_get (m_origins cm') cid = Some (c \<lparr> o_e2e := Some (hop_from_e2e_keys keys True) \<rparr>)"
    using assms(3,4)
    by (auto simp: complete_rendezvous_def register_pending_rendezvous_def Let_def hm.get_ins)
  moreover have "hm_get (m_origins (install_service_keys sid keys sm)) sid
      = Some (s \<lparr> o_e2e := Some (hop_from_e2e_keys keys False) \<rparr>)"
    using assms(5) by (simp add: install_service_keys_def with_origin_def update_origin_def Let_def hm.get_ins)
  ultimately show ?thesis
    using assms(6-14)
    by (simp add: rdv_joined_def leg_in_step_def bridge_partner_def bridge_rendezvous_def hm.get_ins mirror_e2e)
qed

subsection \<open>Properties\<close>

text \<open>A circuit of two hops, at which the witnesses evaluate.\<close>

definition sample_keys :: "u8 \<Rightarrow> ntor_keys" where
  "sample_keys b = \<lparr> k_forward_key = replicate 32 b, k_backward_key = replicate 32 (b + 1),
     k_forward_digest_seed = [b], k_backward_digest_seed = [b + 1] \<rparr>"

definition sample_circuit :: origin_circuit where
  "sample_circuit = (origin_new (CircuitId 0x80000000) [9] 0)
     \<lparr> o_hops := [hop_from_ntor (sample_keys 1), hop_from_ntor (sample_keys 7)] \<rparr>"

definition sample_relay :: relay_cell where
  "sample_relay = \<lparr> r_command = RData, r_recognized = 0, r_stream_id = 4, r_digest = 0, r_data = [1, 2, 3] \<rparr>"

definition sample_e2e :: e2e_keys where
  "sample_e2e = \<lparr> k_client_to_hs_key = replicate 32 5, k_hs_to_client_key = replicate 32 6,
     k_c2h_digest_seed = [5], k_h2c_digest_seed = [6] \<rparr>"

definition sample_link :: link_spec where
  "sample_link = \<lparr> ls_host = show_ipv4 (Ipv4 10 0 0 1), ls_port = 7700, ls_node_id = replicate 32 8,
     ls_static_pub = p_x25519_pub toy_prims [3] \<rparr>"

lemma sample_facts [simp]:
  "length (o_hops sample_circuit) = 2" "o_e2e sample_circuit = None" "o_hops sample_circuit \<noteq> []"
  "relay_wf sample_relay" "r_recognized sample_relay = 0"
  by (simp_all add: sample_circuit_def sample_relay_def origin_new_def relay_wf_def)

text \<open>C1: a relay cell that the origin encrypts for hop \<open>t\<close> of its circuit, passed through the
  relays on the path, is taken by hop \<open>t\<close> exactly as it was stamped, and afterwards the origin's
  hop states (keystream positions and running digests) equal those of the relays; the only other
  outcome is that an earlier relay recognises the cell by a digest collision.\<close>

theorem forward_cell_delivered:
  assumes "encrypt_outbound P now t relay c = (c', Inr p)" "o_e2e c = None"
    and "relay_wf relay" "r_recognized relay = 0"
    and "stamp_digest P relay (h_forward_digest (o_hops c ! t)) = (stamped, d)"
  shows "\<exists>rs' q j x. forward_path P 0 (take (Suc t) (o_hops c)) p = (rs', q, Some (j, x)) \<and> j \<le> t
    \<and> (j = t \<longrightarrow> x = stamped \<and> o_hops c' = rs' @ drop (Suc t) (o_hops c))"
  using assms by (rule forward_delivery)

theorem forward_cell_delivered_witness:
  "\<exists>c' p rs' q j x. encrypt_outbound toy_prims 0 1 sample_relay sample_circuit = (c', Inr p)
    \<and> forward_path toy_prims 0 (take 2 (o_hops sample_circuit)) p = (rs', q, Some (j, x)) \<and> j \<le> 1"
proof -
  obtain c' p where e: "encrypt_outbound toy_prims 0 1 sample_relay sample_circuit = (c', Inr p)"
    using encrypt_outbound_total [of 1 sample_circuit] by fastforce
  obtain s d where "stamp_digest toy_prims sample_relay (h_forward_digest (o_hops sample_circuit ! 1)) = (s, d)"
    by force
  from forward_cell_delivered [OF e _ _ _ this] e show ?thesis by (fastforce simp: numeral_2_eq_2)
qed

text \<open>C2: a cell that relay \<open>t\<close> of a circuit sends back, wrapped by the relays before it, is
  decrypted by the origin to the cell as it was stamped, attributed to hop \<open>t\<close>, with equal hop
  states on both sides; otherwise it was attributed to an earlier hop by a digest collision. The
  origin never drops it.\<close>

theorem backward_cell_delivered:
  assumes "t < length (o_hops c)" "relay_wf relay" "r_recognized relay = 0"
    and "stamp_digest P relay (h_backward_digest (o_hops c ! t)) = (stamped, d)"
    and "backward_send P t relay (o_hops c) = (rs', p)"
    and "decrypt_inbound P now p c = (c', r')"
  shows "\<exists>j x. r' = Some (j, x) \<and> j \<le> t \<and> (j = t \<longrightarrow> x = stamped \<and> o_hops c' = rs')"
  using assms by (rule backward_delivery)

theorem backward_cell_delivered_witness:
  "\<exists>c' j x. decrypt_inbound toy_prims 5 (snd (backward_send toy_prims 1 sample_relay (o_hops sample_circuit)))
      sample_circuit = (c', Some (j, x)) \<and> j \<le> 1"
proof -
  obtain rs p where b: "backward_send toy_prims 1 sample_relay (o_hops sample_circuit) = (rs, p)" by force
  obtain c' r where d: "decrypt_inbound toy_prims 5 p sample_circuit = (c', r)" by force
  obtain s e where "stamp_digest toy_prims sample_relay (h_backward_digest (o_hops sample_circuit ! 1)) = (s, e)"
    by force
  from backward_cell_delivered [OF _ _ _ this b d] b d show ?thesis by fastforce
qed

text \<open>\<open>start_circuit\<close> at an origin, \<open>handle_create\<close> at the guard whose identity and onion key
  it used, and \<open>handle_created\<close> on the reply, all through the wire format of the cells, leave the
  origin with a one-hop circuit whose hop state is the one the guard stored for it.\<close>

theorem create_builds_first_hop:
  assumes "dh_ok P" "kdf_ok P" "length gid = 32"
    and "start_circuit P now x g gid (p_x25519_pub P b) m = (m1, out)"
  shows "\<exists>cid bs cell rbs rcell r1 m2 c rc. out = Inr (cid, bs) \<and> cell_from_bytes bs = Inr cell
    \<and> c_command cell = CCreate \<and> c_circ_id cell = cid
    \<and> handle_create P now' y from cid gid (p_x25519_pub P b) b (create_msg cell) r = (r1, Inr rbs)
    \<and> cell_from_bytes rbs = Inr rcell \<and> c_command rcell = CCreated \<and> c_circ_id rcell = cid
    \<and> handle_created P cid (created_reply rcell) m1 = (m2, Inr ())
    \<and> hm_get (m_origins m2) cid = Some c \<and> hm_get (m_relays r1) (from, cid) = Some rc
    \<and> o_hops c = [rc_hop rc] \<and> o_pending c = None \<and> o_e2e c = None"
  using assms by (rule create_handshake)

theorem create_builds_first_hop_witness:
  "\<exists>cid c (m2 :: circuit_manager) bs. snd (start_circuit toy_prims 0 [2] [9] (replicate 32 4) (p_x25519_pub toy_prims [3]) mgr_new)
      = Inr (cid, bs) \<and> hm_get (m_origins m2) cid = Some c \<and> length (o_hops c) = 1"
proof -
  obtain m1 out where s: "start_circuit toy_prims 0 [2] [9] (replicate 32 4) (p_x25519_pub toy_prims [3]) mgr_new
      = (m1, out)" by force
  from create_builds_first_hop [OF toy_ok(3,4) length_replicate s, of 1 "[6]" "[8]" mgr_new]
  obtain cid bs and m2 :: circuit_manager and c and rc :: relay_circuit where "out = Inr (cid, bs)" "hm_get (m_origins m2) cid = Some c" "o_hops c = [rc_hop rc]"
    by - (elim exE conjE, rule that, assumption+)
  then show ?thesis unfolding s by (intro exI [of _ cid] exI [of _ c] exI [of _ m2] exI [of _ bs]) simp
qed

text \<open>C9: extending a circuit sends an EXTEND2 that the last hop of the path parses back to the
  link specifiers of the next relay and its ntor message; any server holding the matching key
  answers it, and the origin's pending handshake accepts that answer and derives the same keys.\<close>

theorem extend_reaches_last_hop:
  assumes "dh_ok P" "kdf_ok P" "link_spec_wf nxt"
    and "ls_static_pub nxt = p_x25519_pub P b" "parse_ipv4 (ls_host nxt) = Some a"
    and "o_e2e c = None" "extend_origin P now x nxt c = (c1, Inr p)"
  shows "\<exists>rs q j cell. forward_path P 0 (o_hops c) p = (rs, q, Some (j, cell))
    \<and> (j < length (o_hops c) - 1
       \<or> (j = length (o_hops c) - 1 \<and> o_hops c1 = rs \<and> o_e2e c1 = None \<and> r_command cell = RExtend2
          \<and> (\<exists>msg hs. parse_extend2 (r_data cell) = Inr (nxt \<lparr> ls_host := show_ipv4 a \<rparr>, msg)
               \<and> length msg = CLIENT_HANDSHAKE_LEN \<and> o_pending c1 = Some hs
               \<and> (\<forall>y. \<exists>keys reply. server_handshake P y (ls_node_id nxt) (ls_static_pub nxt) b msg
                        = Inr (keys, reply)
                      \<and> client_handshake_finish P hs reply = Inr keys \<and> length reply = 64))))"
  using assms by (rule extend_request)

lemma extend_origin_total:
  assumes "o_hops c \<noteq> []" "o_relay_early_used c < MAX_RELAY_EARLY"
    "relay_new RExtend2 0 (build_extend2 nxt (snd (client_handshake_start P x (ls_node_id nxt) (ls_static_pub nxt))))
      = Inr r"
  shows "\<exists>c1 p. extend_origin P now x nxt c = (c1, Inr p)"
proof -
  obtain hs msg where h: "client_handshake_start P x (ls_node_id nxt) (ls_static_pub nxt) = (hs, msg)" by force
  obtain c2 p where "encrypt_outbound P now (length (o_hops c) - 1) r (c \<lparr>o_pending := Some hs\<rparr>) = (c2, Inr p)"
    using encrypt_outbound_total [of "length (o_hops c) - 1" "c \<lparr>o_pending := Some hs\<rparr>" P now r] assms(1)
    by (cases "o_hops c") auto
  with assms h show ?thesis by (simp add: extend_origin_def)
qed

lemma sample_extend: "\<exists>c1 p. extend_origin toy_prims 0 [2] sample_link sample_circuit = (c1, Inr p)"
proof (rule extend_origin_total)
  show "relay_new RExtend2 0 (build_extend2 sample_link (snd (client_handshake_start toy_prims [2]
      (ls_node_id sample_link) (ls_static_pub sample_link)))) = Inr
    \<lparr> r_command = RExtend2, r_recognized = 0, r_stream_id = 0, r_digest = 0,
      r_data = build_extend2 sample_link (snd (client_handshake_start toy_prims [2]
      (ls_node_id sample_link) (ls_static_pub sample_link))) \<rparr>"
    by (simp add: relay_new_def build_extend2_def sample_link_def client_handshake_start_def
        toy_prims_def octets_def Let_def)
qed (simp_all add: sample_circuit_def origin_new_def)

theorem extend_reaches_last_hop_witness:
  "\<exists>c1 p rs q j cell. extend_origin toy_prims 0 [2] sample_link sample_circuit = (c1, Inr p)
    \<and> forward_path toy_prims 0 (o_hops sample_circuit) p = (rs, q, Some (j, cell)) \<and> j \<le> 1"
proof -
  obtain c1 p where e: "extend_origin toy_prims 0 [2] sample_link sample_circuit = (c1, Inr p)"
    using sample_extend by blast
  have l: "link_spec_wf sample_link" "ls_static_pub sample_link = p_x25519_pub toy_prims [3]"
    "parse_ipv4 (ls_host sample_link) = Some (Ipv4 10 0 0 1)"
    by (simp_all add: sample_link_def link_spec_wf_def toy_prims_def)
  from extend_reaches_last_hop [OF _ _ l _ e] e show ?thesis by fastforce
qed

text \<open>when the last relay of a circuit sends back the ntor reply that completes the origin's
  pending handshake, the origin appends the new hop with the derived keys, clears the pending
  handshake and stays in step with the relays; the only other outcome is a digest collision at an
  earlier hop.\<close>

theorem extended_reply_adds_hop:
  assumes "o_hops c \<noteq> []" "length reply = 64"
    and "o_pending c = Some hs" "client_handshake_finish P hs reply = Inr keys"
    and "relay_new RExtended2 0 (build_extended2 reply) = Inr relay"
    and "backward_send P (length (o_hops c) - 1) relay (o_hops c) = (rs, p)"
    and "origin_relay P now p c = (c', res)"
  shows "(\<exists>j x c1. decrypt_inbound P now p c = (c1, Some (j, x)) \<and> j < length (o_hops c) - 1)
    \<or> (res = Inr None \<and> o_hops c' = rs @ [hop_from_ntor keys] \<and> o_pending c' = None)"
  using assms by (rule extend_reply)

theorem extended_reply_adds_hop_witness:
  "\<exists>hs p c' res. let c = sample_circuit \<lparr> o_pending := Some hs \<rparr> in
     origin_relay toy_prims 0 p c = (c', res)
     \<and> ((\<exists>j x c1. decrypt_inbound toy_prims 0 p c = (c1, Some (j, x)) \<and> j < 1) \<or> res = Inr None)"
proof -
  obtain hs msg where st: "client_handshake_start toy_prims [2] (replicate 32 8) (p_x25519_pub toy_prims [3])
      = (hs, msg)" by force
  obtain keys reply where k: "client_handshake_finish toy_prims hs reply = Inr keys"
      "length reply = SERVER_HANDSHAKE_LEN"
    using ntor_agreement_aux [OF _ _ _ st] by fastforce
  obtain relay where r: "relay_new RExtended2 0 (build_extended2 reply) = Inr relay"
    using k(2) by (simp add: relay_new_def build_extended2_def)
  let ?c = "sample_circuit \<lparr> o_pending := Some hs \<rparr>"
  obtain rs p where b: "backward_send toy_prims (length (o_hops ?c) - 1) relay (o_hops ?c) = (rs, p)" by force
  obtain c' res where o: "origin_relay toy_prims 0 p ?c = (c', res)" by force
  from extended_reply_adds_hop [OF _ _ _ k(1) r b o] k(2) o show ?thesis by (fastforce simp: Let_def)
qed

text \<open>C10: a rendezvous, from the handshake to the cells. The service answers the client's
  introduction with \<open>hs_finalize\<close>; \<open>complete_rendezvous\<close> accepts that answer and puts the keys
  on the client's circuit, the service puts its own on its circuit, and the rendezvous point
  bridges the two legs. From there on every cell that either end seals, in any order of the two
  directions, goes along the sender's path, through the point's \<open>handle_forward_relay\<close>, over the
  wire to the other leg and back along the reader's path, and is opened there with the command,
  the stream and the data it was sent with; no cell is lost or sent to another leg. The run can
  only end early with a cell that a relay on the way recognises by a digest collision.\<close>

theorem rendezvous_end_to_end:
  assumes "dh_ok P"
    and "hs_finalize P y b (p_x25519_pub P b) (p_x25519_pub P x) = (keys, server_y, auth)"
    and "complete_rendezvous P cookie server_y auth
          (register_pending_rendezvous cookie cid x (p_x25519_pub P x) (p_x25519_pub P b) cm) = (cm', res)"
    and "hm_get (m_origins cm) cid = Some c" "hm_get (m_origins sm) sid = Some s"
    and "hm_get (m_relays rm) cl = Some rc" "rc_next_peer rc = None"
      "(rc_prev_peer rc, rc_prev_circ_id rc) = cl" "o_hops c = cp @ [rc_hop rc]"
    and "hm_get (m_relays rm) sl = Some sc" "rc_next_peer sc = None"
      "(rc_prev_peer sc, rc_prev_circ_id sc) = sl" "o_hops s = sp @ [rc_hop sc]"
    and "cl \<noteq> sl" "\<forall>(_, _, r)\<in>set msgs. relay_wf r \<and> r_recognized r = 0"
  shows "res = Inr cid \<and> (\<exists>c' s' n. hm_get (m_origins cm') cid = Some c'
    \<and> hm_get (m_origins (install_service_keys sid keys sm)) sid = Some s'
    \<and> (let out = rdv_run P msgs (\<lparr> re_origin = c', re_path = cp, re_leg = cl \<rparr>,
                 \<lparr> re_origin = s', re_path = sp, re_leg = sl \<rparr>, bridge_rendezvous cl sl rm)
       in n \<le> length msgs \<and> RdvLost \<notin> set out
          \<and> map rdv_read out = map (\<lambda>(_, _, r). Some (relay_content r)) (take n msgs)
               @ (if n < length msgs then [None] else [])))"
proof -
  from rendezvous_joins [OF assms(1-14)] obtain c' s' where j: "res = Inr cid"
    "hm_get (m_origins cm') cid = Some c'" "hm_get (m_origins (install_service_keys sid keys sm)) sid = Some s'"
    "rdv_joined (\<lparr> re_origin = c', re_path = cp, re_leg = cl \<rparr>, \<lparr> re_origin = s', re_path = sp, re_leg = sl \<rparr>,
        bridge_rendezvous cl sl rm)" by blast
  from rdv_run_reads [OF j(4) assms(15), of P] j(1-3) show ?thesis unfolding Let_def by blast
qed

text \<open>A rendezvous of two one-hop circuits, over which both ends send.\<close>

definition sample_leg :: "peer_id \<Rightarrow> u8 \<Rightarrow> relay_circuit" where
  "sample_leg p k = \<lparr> rc_prev_peer = p, rc_prev_circ_id = CircuitId 5, rc_next_peer = None, rc_next_circ_id = None,
     rc_hop = hop_from_ntor (sample_keys k), rc_awaiting_extended = False, rc_exit_streams = mux_new,
     rc_cc = vegas_new, rc_circ_delivered = 0, rc_last_activity = 0 \<rparr>"

definition sample_end :: "u8 \<Rightarrow> origin_circuit" where
  "sample_end k = (origin_new (CircuitId 0x80000000) [9] 0) \<lparr> o_hops := [hop_from_ntor (sample_keys k)] \<rparr>"

definition sample_point :: circuit_manager where
  "sample_point = update_relay ([1], CircuitId 5) (sample_leg [1] 1)
     (update_relay ([2], CircuitId 5) (sample_leg [2] 7) mgr_new)"

definition sample_owner :: "u8 \<Rightarrow> circuit_manager" where
  "sample_owner k = mgr_new \<lparr> m_origins := hm_insert (CircuitId 0x80000000) (sample_end k) [] \<rparr>"

definition sample_answer :: "e2e_keys \<times> bytes \<times> bytes" where
  "sample_answer = hs_finalize toy_prims [5] [3] (p_x25519_pub toy_prims [3]) (p_x25519_pub toy_prims [2])"

definition sample_completed :: circuit_manager where
  "sample_completed = fst (complete_rendezvous toy_prims [7] (fst (snd sample_answer)) (snd (snd sample_answer))
     (register_pending_rendezvous [7] (CircuitId 0x80000000) [2] (p_x25519_pub toy_prims [2])
        (p_x25519_pub toy_prims [3]) (sample_owner 1)))"

definition sample_msgs :: "(instant \<times> bool \<times> relay_cell) list" where
  "sample_msgs = [(1, True, sample_relay), (2, False, sample_relay)]"

theorem rendezvous_end_to_end_witness:
  "\<exists>c s n. hm_get (m_origins sample_completed) (CircuitId 0x80000000) = Some c
    \<and> hm_get (m_origins (install_service_keys (CircuitId 0x80000000) (fst sample_answer) (sample_owner 7)))
        (CircuitId 0x80000000) = Some s
    \<and> (let out = rdv_run toy_prims sample_msgs
          (\<lparr> re_origin = c, re_path = [], re_leg = ([1], CircuitId 5) \<rparr>,
           \<lparr> re_origin = s, re_path = [], re_leg = ([2], CircuitId 5) \<rparr>,
           bridge_rendezvous ([1], CircuitId 5) ([2], CircuitId 5) sample_point)
       in n \<le> 2 \<and> RdvLost \<notin> set out
          \<and> map rdv_read out = map (\<lambda>(_, _, r). Some (relay_content r)) (take n sample_msgs)
               @ (if n < 2 then [None] else []))"
proof -
  obtain keys Y auth where h: "sample_answer = (keys, Y, auth)" using prod_cases3 by blast
  obtain cm res where d: "complete_rendezvous toy_prims [7] Y auth
      (register_pending_rendezvous [7] (CircuitId 0x80000000) [2] (p_x25519_pub toy_prims [2])
        (p_x25519_pub toy_prims [3]) (sample_owner 1)) = (cm, res)" by force
  have cm: "sample_completed = cm" using d by (simp add: sample_completed_def h)
  have g: "hm_get (m_relays sample_point) ([1], CircuitId 5) = Some (sample_leg [1] 1)"
    "hm_get (m_relays sample_point) ([2], CircuitId 5) = Some (sample_leg [2] 7)"
    by (simp_all add: sample_point_def update_relay_def hm.get_ins)
  have o: "hm_get (m_origins (sample_owner k)) (CircuitId 0x80000000) = Some (sample_end k)" for k
    by (simp add: sample_owner_def hm.get_ins)
  have l: "rc_next_peer (sample_leg p k) = None"
    "(rc_prev_peer (sample_leg p k), rc_prev_circ_id (sample_leg p k)) = (p, CircuitId 5)"
    "o_hops (sample_end k) = [] @ [rc_hop (sample_leg p k)]" for p k
    by (simp_all add: sample_leg_def sample_end_def)
  have m: "\<forall>(_, _, r)\<in>set sample_msgs. relay_wf r \<and> r_recognized r = 0" by (simp add: sample_msgs_def)
  have len: "length sample_msgs = 2" by (simp add: sample_msgs_def)
  have ne: "([1::u8], CircuitId 5) \<noteq> ([2], CircuitId 5)" by simp
  note run = rendezvous_end_to_end [OF toy_ok(3) h [unfolded sample_answer_def] d o o g(1) l g(2) l ne m]
  show ?thesis using run [THEN conjunct2] unfolding cm h fst_conv len .
qed

end
