(* ===== verification/SharedRandom.thy ===== *)
theory SharedRandom
  imports Prelude "HOL-Library.Multiset"
begin

section \<open>Canonical encodings and shared randomness\<close>

text \<open>
  phinet-core/src/shared_random.rs: commitments, and the shared value computed from the
  reveals. First the contract of the self-delimiting encodings its hash input and the
  directory's canonical bytes are made of. A Rust string is the list of its bytes; a
  \<open>BTreeMap\<close> is an association list with increasing keys.
\<close>

subsection \<open>Self-delimiting encodings\<close>

locale prefix_free =
  fixes valid :: "'a \<Rightarrow> bool"
    and enc :: "'a \<Rightarrow> bytes"
  assumes cancel: "valid a \<Longrightarrow> valid b \<Longrightarrow> enc a @ x = enc b @ y \<Longrightarrow> a = b \<and> x = y"
begin

lemma enc_inj: "valid a \<Longrightarrow> valid b \<Longrightarrow> enc a = enc b \<Longrightarrow> a = b"
  using cancel [of a b "[]" "[]"] by simp

lemma list_cancel:
  "length as = length bs \<Longrightarrow> \<forall>a \<in> set as. valid a \<Longrightarrow> \<forall>b \<in> set bs. valid b \<Longrightarrow>
   concat (map enc as) @ x = concat (map enc bs) @ y \<Longrightarrow> as = bs \<and> x = y"
proof (induction as bs rule: list_induct2)
  case (Cons a as b bs)
  have "a = b \<and> concat (map enc as) @ x = concat (map enc bs) @ y"
    by (rule cancel) (use Cons.prems in simp_all)
  with Cons show ?case by simp
qed simp

end

interpretation be16: prefix_free "\<lambda>_. True" "to_be :: u16 \<Rightarrow> bytes"
  by unfold_locales (simp add: append_eq_append_conv)

interpretation be32: prefix_free "\<lambda>_. True" "to_be :: u32 \<Rightarrow> bytes"
  by unfold_locales (simp add: append_eq_append_conv)

interpretation be64: prefix_free "\<lambda>_. True" "to_be :: u64 \<Rightarrow> bytes"
  by unfold_locales (simp add: append_eq_append_conv)

text \<open>A string with its length before it, as a 32-bit integer.\<close>

definition lp_string :: "string \<Rightarrow> bytes" where
  "lp_string s = to_be (of_nat (length s) :: u32) @ ascii s"

definition fits32 :: "'a list \<Rightarrow> bool" where
  "fits32 s \<longleftrightarrow> length s < 2 ^ 32"

lemma len32_inject:
  "fits32 s \<Longrightarrow> fits32 t \<Longrightarrow> (of_nat (length s) :: u32) = of_nat (length t) \<longleftrightarrow> length s = length t"
proof -
  assume f: "fits32 s" "fits32 t"
  have "unat (of_nat (length s) :: u32) = length s" "unat (of_nat (length t) :: u32) = length t"
    using f by (auto simp: fits32_def intro!: unat_of_nat_len)
  then show ?thesis by metis
qed

interpretation lp: prefix_free fits32 lp_string
proof
  fix a b :: string and x y
  assume f: "fits32 a" "fits32 b" and e: "lp_string a @ x = lp_string b @ y"
  from e have "to_be (of_nat (length a) :: u32) @ (ascii a @ x) = to_be (of_nat (length b) :: u32) @ (ascii b @ y)"
    by (simp add: lp_string_def)
  from be32.cancel [OF _ _ this] have l: "length a = length b" and r: "ascii a @ x = ascii b @ y"
    using len32_inject [OF f] by auto
  from l have "length (ascii a) = length (ascii b)" by simp
  with r show "a = b \<and> x = y" by (simp add: ascii_inject)
qed

subsection \<open>Ordered maps\<close>

fun bt_insert :: "'k::linorder \<Rightarrow> 'v \<Rightarrow> ('k \<times> 'v) list \<Rightarrow> ('k \<times> 'v) list" where
  "bt_insert k v [] = [(k, v)]"
| "bt_insert k v ((k', v') # m) =
     (if k < k' then (k, v) # (k', v') # m
      else if k = k' then (k, v) # m
      else (k', v') # bt_insert k v m)"

lemma bt_insert_keys: "set (map fst (bt_insert k v m)) = insert k (set (map fst m))"
  by (induction k v m rule: bt_insert.induct) auto

lemma bt_insert_sorted: "sorted_wrt (<) (map fst m) \<Longrightarrow> sorted_wrt (<) (map fst (bt_insert k v m))"
proof (induction k v m rule: bt_insert.induct)
  case (2 k v k' v' m)
  have "\<forall>x \<in> set (map fst (bt_insert k v m)). x = k \<or> x \<in> set (map fst m)"
    using bt_insert_keys [of k v m] by blast
  with 2 show ?case by fastforce
qed simp

lemma bt_insert_get:
  "sorted_wrt (<) (map fst m) \<Longrightarrow> map_of (bt_insert k v m) = (map_of m)(k \<mapsto> v)"
  by (induction k v m rule: bt_insert.induct) (auto simp: fun_eq_iff)

lemma sorted_map_eqI:
  assumes "sorted_wrt (<) (map fst m)" "sorted_wrt (<) (map fst m')" "map_of m = map_of m'"
  shows "m = (m' :: ('k::linorder \<times> 'v) list)"
proof -
  have d: "sorted (map fst m)" "distinct (map fst m)" "sorted (map fst m')" "distinct (map fst m')"
    using assms(1,2) by (simp_all add: strict_sorted_iff)
  then have "set m = set m'" using map_of_inject_set [of m m'] assms(3) by blast
  moreover have "inj_on fst (set m \<union> set m')"
    using d(2) calculation by (simp add: distinct_map)
  ultimately show ?thesis using map_sorted_distinct_set_unique [of fst m m'] d by blast
qed

text \<open>What a series of insertions leaves is the last value of each key.\<close>

definition bt_of :: "('k::linorder \<times> 'v) list \<Rightarrow> ('k \<times> 'v) list" where
  "bt_of xs = foldl (\<lambda>m (k, v). bt_insert k v m) [] xs"

lemma bt_of_sorted: "sorted_wrt (<) (map fst (bt_of xs))"
  unfolding bt_of_def by (induction xs rule: rev_induct) (auto simp: bt_insert_sorted split: prod.split)

lemma bt_of_get: "map_of (bt_of xs) = map_of (rev xs)"
proof (induction xs rule: rev_induct)
  case (snoc x xs)
  obtain k v where x: "x = (k, v)" by (cases x)
  have "bt_of (xs @ [x]) = bt_insert k v (bt_of xs)" by (simp add: bt_of_def x)
  then show ?case using snoc bt_insert_get [OF bt_of_sorted, of k v xs] x by simp
qed (simp add: bt_of_def)

lemma bt_of_keys: "set (map fst (bt_of xs)) = set (map fst xs)"
proof (induction xs rule: rev_induct)
  case (snoc x xs)
  obtain k v where x: "x = (k, v)" by (cases x)
  have "bt_of (xs @ [x]) = bt_insert k v (bt_of xs)" by (simp add: bt_of_def x)
  then show ?case using snoc bt_insert_keys [of k v "bt_of xs"] x by simp
qed (simp add: bt_of_def)

text \<open>With distinct keys the order of the insertions does not matter.\<close>

lemma map_of_mset_eq:
  assumes "mset xs = mset ys" "distinct (map fst xs)"
  shows "map_of xs = map_of ys"
proof -
  have "mset (map fst xs) = mset (map fst ys)" using assms(1) by simp
  then have "distinct (map fst ys)" using assms(2) by (metis mset_eq_imp_distinct_iff)
  moreover have "set xs = set ys" using assms(1) by (rule mset_eq_setD)
  ultimately show ?thesis using assms(2) map_of_inject_set by blast
qed

lemma bt_of_mset:
  assumes "mset xs = mset ys" "distinct (map fst xs)"
  shows "bt_of xs = bt_of ys"
proof -
  have "map_of (rev xs) = map_of (rev ys)"
    using map_of_mset_eq [of "rev xs" "rev ys"] assms by (simp add: rev_map [symmetric])
  then show ?thesis
    using sorted_map_eqI [OF bt_of_sorted bt_of_sorted, of xs ys] by (simp add: bt_of_get)
qed

subsection \<open>Commitments and the shared value\<close>

definition CONTRIBUTION_LEN :: nat where [simp]: "CONTRIBUTION_LEN = 32"

definition srv_commit_of :: "prims \<Rightarrow> string \<Rightarrow> bytes \<Rightarrow> u64 \<Rightarrow> string" where
  "srv_commit_of P authority_id value period =
     p_hex_encode P (p_sha256 P
       (ascii ''phinet-srv-commit-v1'' @ ascii authority_id @ to_be period @ value))"

definition check_reveal :: "prims \<Rightarrow> string \<Rightarrow> bytes \<Rightarrow> u64 \<Rightarrow> string \<Rightarrow> bool" where
  "check_reveal P authority_id value period commitment \<longleftrightarrow>
     srv_commit_of P authority_id value period = commitment"

record reveal =
  rv_authority_id :: string
  rv_value :: bytes

definition srv_entry :: "string \<times> bytes \<Rightarrow> bytes" where
  "srv_entry e = (case e of (i, v) \<Rightarrow> to_be (of_nat (length i) :: u32) @ ascii i @ v)"

definition compute_srv :: "prims \<Rightarrow> reveal list \<Rightarrow> u64 \<Rightarrow> nat \<Rightarrow> string option" where
  "compute_srv P reveals period min_reveals =
     (let sorted_m = bt_of (map (\<lambda>r. (rv_authority_id r, rv_value r)) reveals)
      in if length sorted_m < min_reveals then None
         else Some (p_hex_encode P (p_sha256 P
                (ascii ''phinet-srv-v1'' @ to_be period @ concat (map srv_entry sorted_m)))))"

lemma compute_srv_mset:
  assumes "mset rs = mset rs'" "distinct (map rv_authority_id rs)"
  shows "compute_srv P rs period k = compute_srv P rs' period k"
proof -
  let ?f = "\<lambda>r. (rv_authority_id r, rv_value r)"
  have "mset (map ?f rs) = mset (map ?f rs')" using assms(1) by simp
  moreover have "distinct (map fst (map ?f rs))" using assms(2) by (simp add: comp_def)
  ultimately have "bt_of (map ?f rs) = bt_of (map ?f rs')" by (rule bt_of_mset)
  then show ?thesis by (simp add: compute_srv_def)
qed

lemma bt_of_length: "length (bt_of xs) = card (set (map fst xs))"
proof -
  have "distinct (map fst (bt_of xs))" using bt_of_sorted [of xs] by (simp add: strict_sorted_iff)
  then show ?thesis by (metis bt_of_keys distinct_card length_map)
qed

lemma compute_srv_Some_iff:
  "compute_srv P rs period k \<noteq> None \<longleftrightarrow> k \<le> card (set (map rv_authority_id rs))"
proof -
  have e: "map fst (map (\<lambda>r. (rv_authority_id r, rv_value r)) rs) = map rv_authority_id rs" by simp
  show ?thesis
    unfolding compute_srv_def Let_def bt_of_length e by (simp add: not_less)
qed

text \<open>The hash input names the reveals it was computed from.\<close>

definition entry_ok :: "string \<times> bytes \<Rightarrow> bool" where
  "entry_ok e \<longleftrightarrow> fits32 (fst e) \<and> length (snd e) = CONTRIBUTION_LEN"

interpretation srv: prefix_free entry_ok srv_entry
proof
  fix a b :: "string \<times> bytes" and x y
  assume v: "entry_ok a" "entry_ok b" and e: "srv_entry a @ x = srv_entry b @ y"
  obtain i s j t where ab: "a = (i, s)" "b = (j, t)" by (cases a, cases b)
  from e have "lp_string i @ (s @ x) = lp_string j @ (t @ y)"
    by (simp add: srv_entry_def lp_string_def ab)
  from lp.cancel [OF _ _ this] v ab have "i = j" "s @ x = t @ y" by (simp_all add: entry_ok_def)
  then show "a = b \<and> x = y" using v ab by (simp add: entry_ok_def)
qed

subsection \<open>Properties\<close>

text \<open>the shared random value exists exactly when enough different authorities revealed, and
  with one reveal per authority it does not depend on the order of the reveals.\<close>

theorem shared_random_agreed:
  assumes "mset rs = mset rs'" "distinct (map rv_authority_id rs)"
  shows "compute_srv P rs period k = compute_srv P rs' period k
    \<and> (compute_srv P rs period k \<noteq> None \<longleftrightarrow> k \<le> length rs)"
  using compute_srv_mset [OF assms] compute_srv_Some_iff [of P rs period k] distinct_card [OF assms(2)] by simp

theorem shared_random_agreed_witness:
  "let a = \<lparr> rv_authority_id = ''a'', rv_value = replicate 32 1 \<rparr>; b = \<lparr> rv_authority_id = ''b'', rv_value = replicate 32 2 \<rparr> in
    compute_srv toy_prims [a, b] 7 2 = compute_srv toy_prims [b, a] 7 2 \<and> compute_srv toy_prims [a, b] 7 2 \<noteq> None"
proof -
  let ?a = "\<lparr> rv_authority_id = ''a'', rv_value = replicate 32 1 \<rparr>"
  let ?b = "\<lparr> rv_authority_id = ''b'', rv_value = replicate 32 2 \<rparr>"
  have "mset [?a, ?b] = mset [?b, ?a]" "distinct (map rv_authority_id [?a, ?b])" by simp_all
  note w = shared_random_agreed [OF this, of toy_prims 7 2]
  have "(2 :: nat) \<le> length [?a, ?b]" by simp
  with w have "compute_srv toy_prims [?a, ?b] 7 2 \<noteq> None" by blast
  with w show ?thesis unfolding Let_def by blast
qed

end
