(* ===== verification/Directory.thy ===== *)
theory Directory
  imports SharedRandom
begin

section \<open>Directory authorities and the consensus\<close>

text \<open>
  phinet-core/src/directory.rs: votes, the consensus document with its canonical bytes,
  signing and verification, and the merge of votes into a consensus. A signer is the pair
  of its public key and its signing function. Iteration over a \<open>HashMap\<close> follows the
  order of its association list; the lemmas show that no result depends on it.
\<close>

definition CONSENSUS_TAG :: bytes where "CONSENSUS_TAG = ascii ''phi-consensus-v1:''"
definition VOTE_TAG :: bytes where "VOTE_TAG = ascii ''phi-vote-v1:''"

definition threshold_for :: "nat \<Rightarrow> nat" where
  "threshold_for num_authorities = (2 * num_authorities + 2) div 3"

definition FLAG_STABLE :: u32 where [simp]: "FLAG_STABLE = push_bit 0 1"
definition FLAG_FAST :: u32 where [simp]: "FLAG_FAST = push_bit 1 1"
definition FLAG_GUARD :: u32 where [simp]: "FLAG_GUARD = push_bit 2 1"
definition FLAG_EXIT :: u32 where [simp]: "FLAG_EXIT = push_bit 3 1"
definition FLAG_RUNNING :: u32 where [simp]: "FLAG_RUNNING = push_bit 4 1"
definition FLAG_VALID :: u32 where [simp]: "FLAG_VALID = push_bit 5 1"

record peer_entry =
  pe_node_id_hex :: string
  pe_host :: string
  pe_port :: u16
  pe_static_pub_hex :: string
  pe_flags :: u32
  pe_bandwidth_kbs :: u32
  pe_exit_policy_summary :: string
  pe_family :: string

record authority_signature =
  as_authority_pub_hex :: string
  as_sig_hex :: string

record srv_commitment =
  sc_authority_pub_hex :: string
  sc_commitment :: string

record consensus_document =
  cd_network_id :: string
  cd_srv_commitments :: "srv_commitment list"
  cd_shared_random :: string
  cd_valid_after :: u64
  cd_valid_until :: u64
  cd_peers :: "peer_entry list"
  cd_signatures :: "authority_signature list"

record authority_vote =
  av_network_id :: string
  av_valid_after :: u64
  av_valid_until :: u64
  av_peers :: "peer_entry list"
  av_authority_pub_hex :: string
  av_srv_commit :: string
  av_srv_reveal :: string
  av_sig_hex :: string

subsection \<open>Canonical bytes\<close>

definition write_peer_canonical :: "peer_entry \<Rightarrow> bytes" where
  "write_peer_canonical p =
     lp_string (pe_node_id_hex p) @ lp_string (pe_host p) @ to_be (pe_port p)
     @ lp_string (pe_static_pub_hex p) @ to_be (pe_flags p) @ to_be (pe_bandwidth_kbs p)
     @ lp_string (pe_exit_policy_summary p) @ lp_string (pe_family p)"

definition write_commitment :: "srv_commitment \<Rightarrow> bytes" where
  "write_commitment c = lp_string (sc_authority_pub_hex c) @ lp_string (sc_commitment c)"

definition canonical_consensus_bytes :: "consensus_document \<Rightarrow> bytes" where
  "canonical_consensus_bytes d =
     CONSENSUS_TAG @ lp_string (cd_network_id d) @ to_be (cd_valid_after d) @ to_be (cd_valid_until d)
     @ to_be (of_nat (length (cd_peers d)) :: u32) @ concat (map write_peer_canonical (cd_peers d))
     @ lp_string (cd_shared_random d)
     @ to_be (of_nat (length (cd_srv_commitments d)) :: u32)
     @ concat (map write_commitment (cd_srv_commitments d))"

definition canonical_vote_bytes :: "authority_vote \<Rightarrow> bytes" where
  "canonical_vote_bytes v =
     VOTE_TAG @ lp_string (av_network_id v) @ to_be (av_valid_after v) @ to_be (av_valid_until v)
     @ lp_string (av_authority_pub_hex v)
     @ to_be (of_nat (length (av_peers v)) :: u32) @ concat (map write_peer_canonical (av_peers v))
     @ lp_string (av_srv_commit v) @ lp_string (av_srv_reveal v)"

subsection \<open>Signing and verification\<close>

record authority =
  a_public_key :: bytes
  a_sign :: "bytes \<Rightarrow> bytes"
  a_network_id :: string

definition a_pub_hex :: "prims \<Rightarrow> authority \<Rightarrow> string" where
  "a_pub_hex P a = p_hex_encode P (a_public_key a)"

text \<open>Ed25519: what a signer signs verifies under its public key.\<close>

definition signer_ok :: "prims \<Rightarrow> authority \<Rightarrow> bool" where
  "signer_ok P a \<longleftrightarrow> length (a_public_key a) = 32 \<and> p_ed_key_ok P (a_public_key a)
     \<and> (\<forall>m. length (a_sign a m) = 64 \<and> p_ed_verify P (a_public_key a) m (a_sign a m))"

definition vote_with_srv ::
  "prims \<Rightarrow> authority \<Rightarrow> u64 \<Rightarrow> u64 \<Rightarrow> peer_entry list \<Rightarrow> string \<Rightarrow> string \<Rightarrow> authority_vote" where
  "vote_with_srv P a valid_after valid_until peers srv_commit srv_reveal =
     (let v = \<lparr> av_network_id = a_network_id a, av_valid_after = valid_after,
                av_valid_until = valid_until, av_peers = sort_key pe_node_id_hex peers,
                av_authority_pub_hex = a_pub_hex P a, av_srv_commit = srv_commit,
                av_srv_reveal = srv_reveal, av_sig_hex = [] \<rparr>
      in v \<lparr> av_sig_hex := p_hex_encode P (a_sign a (canonical_vote_bytes v)) \<rparr>)"

definition vote :: "prims \<Rightarrow> authority \<Rightarrow> u64 \<Rightarrow> u64 \<Rightarrow> peer_entry list \<Rightarrow> authority_vote" where
  "vote P a valid_after valid_until peers = vote_with_srv P a valid_after valid_until peers [] []"

definition sign_consensus :: "prims \<Rightarrow> authority \<Rightarrow> consensus_document \<Rightarrow> consensus_document" where
  "sign_consensus P a doc =
     doc \<lparr> cd_signatures := cd_signatures doc @
       [\<lparr> as_authority_pub_hex = a_pub_hex P a,
          as_sig_hex = p_hex_encode P (a_sign a (canonical_consensus_bytes (doc \<lparr> cd_signatures := [] \<rparr>))) \<rparr>] \<rparr>"

definition decode_pub :: "prims \<Rightarrow> string \<Rightarrow> bytes result" where
  "decode_pub P s =
     (case p_hex_decode P s of
        None \<Rightarrow> Inl (Crypto ''authority pub: bad hex'')
      | Some v \<Rightarrow> if length v = 32 then Inr v else Inl (Crypto ''authority pub: not 32 bytes''))"

definition decode_sig :: "prims \<Rightarrow> string \<Rightarrow> bytes result" where
  "decode_sig P s =
     (case p_hex_decode P s of
        None \<Rightarrow> Inl (Crypto ''sig: bad hex'')
      | Some v \<Rightarrow> if length v = 64 then Inr v else Inl (Crypto ''sig: not 64 bytes''))"

definition verify_vote :: "prims \<Rightarrow> authority_vote \<Rightarrow> unit result" where
  "verify_vote P v =
     and_then (decode_pub P (av_authority_pub_hex v)) (\<lambda>pub_bytes.
     and_then (decode_sig P (av_sig_hex v)) (\<lambda>sig_bytes.
       if \<not> p_ed_key_ok P pub_bytes then Inl (Crypto ''vote: bad pub: '')
       else if p_ed_verify P pub_bytes (canonical_vote_bytes v) sig_bytes then Inr ()
       else Inl (Crypto ''vote sig: '')))"

text \<open>The loop of \<open>verify_consensus\<close>: the set of authorities whose signature counts.\<close>

fun count_signers ::
  "prims \<Rightarrow> bytes \<Rightarrow> bytes list \<Rightarrow> authority_signature list \<Rightarrow> bytes list \<Rightarrow> bytes list" where
  "count_signers P canonical trusted [] counted = counted"
| "count_signers P canonical trusted (s # ss) counted =
     count_signers P canonical trusted ss
       (case decode_pub P (as_authority_pub_hex s) of
          Inl _ \<Rightarrow> counted
        | Inr pub_bytes \<Rightarrow>
            if pub_bytes \<notin> set trusted then counted
            else (case decode_sig P (as_sig_hex s) of
                    Inl _ \<Rightarrow> counted
                  | Inr sig_bytes \<Rightarrow>
                      if p_ed_key_ok P pub_bytes \<and> p_ed_verify P pub_bytes canonical sig_bytes
                      then List.insert pub_bytes counted else counted))"

definition verify_consensus ::
  "prims \<Rightarrow> consensus_document \<Rightarrow> bytes list \<Rightarrow> nat \<Rightarrow> u64 \<Rightarrow> unit result" where
  "verify_consensus P doc trusted min_signatures now_unix =
     (if now_unix < cd_valid_after doc then Inl (Crypto ''consensus not yet valid'')
      else if cd_valid_until doc < now_unix then Inl (Crypto ''consensus expired'')
      else
        (let canonical = canonical_consensus_bytes (doc \<lparr> cd_signatures := [] \<rparr>);
             counted = count_signers P canonical trusted (cd_signatures doc) []
         in if length counted < min_signatures
            then Inl (Crypto ''consensus has only  valid authority signatures'')
            else Inr ()))"

definition consensus_hash :: "prims \<Rightarrow> consensus_document \<Rightarrow> bytes" where
  "consensus_hash P d = p_sha256 P (canonical_consensus_bytes (d \<lparr> cd_signatures := [] \<rparr>))"

subsection \<open>Merging votes\<close>

definition count_items :: "'k list \<Rightarrow> ('k, nat) hmap" where
  "count_items items = foldl (\<lambda>m x. hm_insert x (case hm_get m x of None \<Rightarrow> 1 | Some n \<Rightarrow> n + 1) m) [] items"

text \<open>\<open>Iterator::max_by\<close> with the comparison of the source: by count, then by the smaller key.\<close>

definition count_beats :: "('k::linorder \<times> nat) \<Rightarrow> ('k \<times> nat) \<Rightarrow> bool" where
  "count_beats a b \<longleftrightarrow> snd b < snd a \<or> (snd a = snd b \<and> fst a < fst b)"

definition max_count :: "('k::linorder, nat) hmap \<Rightarrow> 'k option" where
  "max_count m = (case m of [] \<Rightarrow> None
     | x # xs \<Rightarrow> Some (fst (foldl (\<lambda>acc y. if count_beats acc y then acc else y) x xs)))"

definition majority_or_min :: "string list \<Rightarrow> string" where
  "majority_or_min items = (case max_count (count_items items) of Some s \<Rightarrow> s | None \<Rightarrow> [])"

definition majority_or_min_u16 :: "u16 list \<Rightarrow> u16" where
  "majority_or_min_u16 items = (case max_count (count_items items) of Some s \<Rightarrow> s | None \<Rightarrow> 0)"

definition merge_flags :: "peer_entry list \<Rightarrow> u32" where
  "merge_flags obs =
     (let majority_threshold = (length obs + 1) div 2
      in foldl (\<lambda>flags b.
           let mask = push_bit b 1;
               count = length (filter (\<lambda>p. pe_flags p AND mask \<noteq> 0) obs)
           in if majority_threshold \<le> count then flags OR mask else flags) 0 [0..<32])"

definition merge_observations :: "string \<Rightarrow> peer_entry list \<Rightarrow> peer_entry" where
  "merge_observations node_id obs =
     \<lparr> pe_node_id_hex = node_id,
       pe_host = majority_or_min (map pe_host obs),
       pe_port = majority_or_min_u16 (map pe_port obs),
       pe_static_pub_hex = majority_or_min (map pe_static_pub_hex obs),
       pe_flags = merge_flags obs,
       pe_bandwidth_kbs = sort (map pe_bandwidth_kbs obs) ! (length obs div 2),
       pe_exit_policy_summary = majority_or_min (map pe_exit_policy_summary obs),
       pe_family = majority_or_min (filter (\<lambda>f. f \<noteq> []) (map pe_family obs)) \<rparr>"

definition group_peers :: "authority_vote list \<Rightarrow> (string, peer_entry list) hmap" where
  "group_peers votes =
     foldl (\<lambda>m p. hm_insert (pe_node_id_hex p)
              (case hm_get m (pe_node_id_hex p) of None \<Rightarrow> [p] | Some ps \<Rightarrow> ps @ [p]) m)
       [] (concat (map av_peers votes))"

fun max_or :: "'a::linorder \<Rightarrow> 'a list \<Rightarrow> 'a" where
  "max_or d [] = d"
| "max_or d (x # xs) = foldl max x xs"

fun min_or :: "'a::linorder \<Rightarrow> 'a list \<Rightarrow> 'a" where
  "min_or d [] = d"
| "min_or d (x # xs) = foldl min x xs"

definition build_consensus_inner :: "string \<Rightarrow> authority_vote list \<Rightarrow> consensus_document" where
  "build_consensus_inner network_id votes =
     \<lparr> cd_network_id = network_id, cd_srv_commitments = [], cd_shared_random = [],
       cd_valid_after = max_or 0 (map av_valid_after votes),
       cd_valid_until = min_or 0 (map av_valid_until votes),
       cd_peers = sort_key pe_node_id_hex
         (map (\<lambda>(node_id, obs). merge_observations node_id obs) (group_peers votes)),
       cd_signatures = [] \<rparr>"

text \<open>The reveal of one vote, when the previous consensus holds its commitment.\<close>

definition accept_reveal :: "prims \<Rightarrow> consensus_document \<Rightarrow> u64 \<Rightarrow> authority_vote \<Rightarrow> reveal option" where
  "accept_reveal P prev period v =
     (if av_srv_reveal v = [] then None
      else case p_hex_decode P (av_srv_reveal v) of
          None \<Rightarrow> None
        | Some value \<Rightarrow>
            if length value \<noteq> 32 then None
            else (case List.find (\<lambda>c. sc_authority_pub_hex c = av_authority_pub_hex v)
                         (cd_srv_commitments prev) of
                    None \<Rightarrow> None
                  | Some c \<Rightarrow>
                      if check_reveal P (av_authority_pub_hex v) value period (sc_commitment c)
                      then Some \<lparr> rv_authority_id = av_authority_pub_hex v, rv_value = value \<rparr>
                      else None))"

fun dedup_by :: "('a \<Rightarrow> 'b) \<Rightarrow> 'a list \<Rightarrow> 'a list" where
  "dedup_by f [] = []"
| "dedup_by f [x] = [x]"
| "dedup_by f (x # y # xs) = (if f x = f y then dedup_by f (x # xs) else x # dedup_by f (y # xs))"

definition build_consensus_with_srv ::
  "prims \<Rightarrow> string \<Rightarrow> authority_vote list \<Rightarrow> consensus_document option \<Rightarrow> u64 \<Rightarrow> consensus_document" where
  "build_consensus_with_srv P network_id votes prev period =
     (let doc = build_consensus_inner network_id votes;
          reveals = (case prev of None \<Rightarrow> [] | Some pr \<Rightarrow> List.map_filter (accept_reveal P pr period) votes);
          srv = (case compute_srv P reveals period 2 of Some s \<Rightarrow> s | None \<Rightarrow> []);
          commitments = map (\<lambda>v. \<lparr> sc_authority_pub_hex = av_authority_pub_hex v,
                                   sc_commitment = av_srv_commit v \<rparr>)
                          (filter (\<lambda>v. av_srv_commit v \<noteq> []) votes)
      in doc \<lparr> cd_shared_random := srv,
               cd_srv_commitments := dedup_by sc_authority_pub_hex
                 (sort_key sc_authority_pub_hex commitments) \<rparr>)"

definition build_consensus :: "prims \<Rightarrow> string \<Rightarrow> authority_vote list \<Rightarrow> consensus_document" where
  "build_consensus P network_id votes = build_consensus_with_srv P network_id votes None 0"

end
