(* ===== verification/Consensus.thy ===== *)
theory Consensus
  imports Directory
begin

section \<open>What the directory guarantees\<close>

text \<open>
  Lemmas about the model of directory.rs: the canonical bytes determine the document, a
  consensus is accepted exactly when enough distinct trusted authorities signed those
  bytes, and the merge of votes does not depend on the order in which votes, observations
  or hash tables are traversed.
\<close>

subsection \<open>Canonical bytes\<close>

definition peer_fits :: "peer_entry \<Rightarrow> bool" where
  "peer_fits p \<longleftrightarrow> fits32 (pe_node_id_hex p) \<and> fits32 (pe_host p) \<and> fits32 (pe_static_pub_hex p)
     \<and> fits32 (pe_exit_policy_summary p) \<and> fits32 (pe_family p)"

definition commitment_fits :: "srv_commitment \<Rightarrow> bool" where
  "commitment_fits c \<longleftrightarrow> fits32 (sc_authority_pub_hex c) \<and> fits32 (sc_commitment c)"

text \<open>Every length field fits its 32 bits.\<close>

definition doc_fits :: "consensus_document \<Rightarrow> bool" where
  "doc_fits d \<longleftrightarrow> fits32 (cd_network_id d) \<and> fits32 (cd_shared_random d)
     \<and> fits32 (cd_peers d) \<and> (\<forall>p \<in> set (cd_peers d). peer_fits p)
     \<and> fits32 (cd_srv_commitments d) \<and> (\<forall>c \<in> set (cd_srv_commitments d). commitment_fits c)"

interpretation peer: prefix_free peer_fits write_peer_canonical
proof
  fix a b x y
  assume v: "peer_fits a" "peer_fits b"
    and e: "write_peer_canonical a @ x = write_peer_canonical b @ y"
  note f = v [unfolded peer_fits_def]
  from e [unfolded write_peer_canonical_def append_assoc] f
  have 1: "pe_node_id_hex a = pe_node_id_hex b" "lp_string (pe_host a) @ to_be (pe_port a) @
      lp_string (pe_static_pub_hex a) @ to_be (pe_flags a) @ to_be (pe_bandwidth_kbs a) @
      lp_string (pe_exit_policy_summary a) @ lp_string (pe_family a) @ x =
    lp_string (pe_host b) @ to_be (pe_port b) @
      lp_string (pe_static_pub_hex b) @ to_be (pe_flags b) @ to_be (pe_bandwidth_kbs b) @
      lp_string (pe_exit_policy_summary b) @ lp_string (pe_family b) @ y"
    using lp.cancel by blast+
  from lp.cancel [OF _ _ 1(2)] f have 2: "pe_host a = pe_host b" "to_be (pe_port a) @
      lp_string (pe_static_pub_hex a) @ to_be (pe_flags a) @ to_be (pe_bandwidth_kbs a) @
      lp_string (pe_exit_policy_summary a) @ lp_string (pe_family a) @ x =
    to_be (pe_port b) @
      lp_string (pe_static_pub_hex b) @ to_be (pe_flags b) @ to_be (pe_bandwidth_kbs b) @
      lp_string (pe_exit_policy_summary b) @ lp_string (pe_family b) @ y" by auto
  from be16.cancel [OF _ _ 2(2)] have 3: "pe_port a = pe_port b"
    "lp_string (pe_static_pub_hex a) @ to_be (pe_flags a) @ to_be (pe_bandwidth_kbs a) @
      lp_string (pe_exit_policy_summary a) @ lp_string (pe_family a) @ x =
    lp_string (pe_static_pub_hex b) @ to_be (pe_flags b) @ to_be (pe_bandwidth_kbs b) @
      lp_string (pe_exit_policy_summary b) @ lp_string (pe_family b) @ y" by auto
  from lp.cancel [OF _ _ 3(2)] f have 4: "pe_static_pub_hex a = pe_static_pub_hex b"
    "to_be (pe_flags a) @ to_be (pe_bandwidth_kbs a) @
      lp_string (pe_exit_policy_summary a) @ lp_string (pe_family a) @ x =
    to_be (pe_flags b) @ to_be (pe_bandwidth_kbs b) @
      lp_string (pe_exit_policy_summary b) @ lp_string (pe_family b) @ y" by auto
  from be32.cancel [OF _ _ 4(2)] have 5: "pe_flags a = pe_flags b"
    "to_be (pe_bandwidth_kbs a) @ lp_string (pe_exit_policy_summary a) @ lp_string (pe_family a) @ x =
    to_be (pe_bandwidth_kbs b) @ lp_string (pe_exit_policy_summary b) @ lp_string (pe_family b) @ y" by auto
  from be32.cancel [OF _ _ 5(2)] have 6: "pe_bandwidth_kbs a = pe_bandwidth_kbs b"
    "lp_string (pe_exit_policy_summary a) @ lp_string (pe_family a) @ x =
    lp_string (pe_exit_policy_summary b) @ lp_string (pe_family b) @ y" by auto
  from lp.cancel [OF _ _ 6(2)] f have 7: "pe_exit_policy_summary a = pe_exit_policy_summary b"
    "lp_string (pe_family a) @ x = lp_string (pe_family b) @ y" by auto
  from lp.cancel [OF _ _ 7(2)] f have 8: "pe_family a = pe_family b" "x = y" by auto
  show "a = b \<and> x = y" using 1 2 3 4 5 6 7 8 by (simp add: peer_entry.equality)
qed

interpretation commitment: prefix_free commitment_fits write_commitment
proof
  fix a b x y
  assume v: "commitment_fits a" "commitment_fits b"
    and e: "write_commitment a @ x = write_commitment b @ y"
  note f = v [unfolded commitment_fits_def]
  from e have "lp_string (sc_authority_pub_hex a) @ (lp_string (sc_commitment a) @ x) =
      lp_string (sc_authority_pub_hex b) @ (lp_string (sc_commitment b) @ y)"
    by (simp add: write_commitment_def)
  from lp.cancel [OF _ _ this] f have 1: "sc_authority_pub_hex a = sc_authority_pub_hex b"
    "lp_string (sc_commitment a) @ x = lp_string (sc_commitment b) @ y" by auto
  from lp.cancel [OF _ _ 1(2)] f 1 show "a = b \<and> x = y" by (simp add: srv_commitment.equality)
qed

lemma canonical_inj:
  assumes v: "doc_fits d" "doc_fits e" and eq: "canonical_consensus_bytes d = canonical_consensus_bytes e"
  shows "d \<lparr> cd_signatures := [] \<rparr> = e \<lparr> cd_signatures := [] \<rparr>"
proof -
  note f = v [unfolded doc_fits_def]
  define td where "td = lp_string (cd_shared_random d) @ to_be (of_nat (length (cd_srv_commitments d)) :: u32)
     @ concat (map write_commitment (cd_srv_commitments d))"
  define te where "te = lp_string (cd_shared_random e) @ to_be (of_nat (length (cd_srv_commitments e)) :: u32)
     @ concat (map write_commitment (cd_srv_commitments e))"
  from eq have 0: "lp_string (cd_network_id d) @ to_be (cd_valid_after d) @ to_be (cd_valid_until d)
      @ to_be (of_nat (length (cd_peers d)) :: u32) @ concat (map write_peer_canonical (cd_peers d)) @ td
    = lp_string (cd_network_id e) @ to_be (cd_valid_after e) @ to_be (cd_valid_until e)
      @ to_be (of_nat (length (cd_peers e)) :: u32) @ concat (map write_peer_canonical (cd_peers e)) @ te"
    by (simp add: canonical_consensus_bytes_def td_def te_def)
  from lp.cancel [OF _ _ 0] f have 1: "cd_network_id d = cd_network_id e"
    "to_be (cd_valid_after d) @ to_be (cd_valid_until d)
      @ to_be (of_nat (length (cd_peers d)) :: u32) @ concat (map write_peer_canonical (cd_peers d)) @ td
    = to_be (cd_valid_after e) @ to_be (cd_valid_until e)
      @ to_be (of_nat (length (cd_peers e)) :: u32) @ concat (map write_peer_canonical (cd_peers e)) @ te" by auto
  from be64.cancel [OF _ _ 1(2)] have 2: "cd_valid_after d = cd_valid_after e" "to_be (cd_valid_until d)
      @ to_be (of_nat (length (cd_peers d)) :: u32) @ concat (map write_peer_canonical (cd_peers d)) @ td
    = to_be (cd_valid_until e)
      @ to_be (of_nat (length (cd_peers e)) :: u32) @ concat (map write_peer_canonical (cd_peers e)) @ te" by auto
  from be64.cancel [OF _ _ 2(2)] have 3: "cd_valid_until d = cd_valid_until e"
    "to_be (of_nat (length (cd_peers d)) :: u32) @ concat (map write_peer_canonical (cd_peers d)) @ td
    = to_be (of_nat (length (cd_peers e)) :: u32) @ concat (map write_peer_canonical (cd_peers e)) @ te" by auto
  from be32.cancel [OF _ _ 3(2)] len32_inject [of "cd_peers d" "cd_peers d"] f
  have 4: "(of_nat (length (cd_peers d)) :: u32) = of_nat (length (cd_peers e))"
    "concat (map write_peer_canonical (cd_peers d)) @ td = concat (map write_peer_canonical (cd_peers e)) @ te"
    by auto
  have l1: "length (cd_peers d) = length (cd_peers e)" using 4(1) f len32_inject by metis
  from peer.list_cancel [OF l1 _ _ 4(2)] f have 5: "cd_peers d = cd_peers e" "td = te" by auto
  from lp.cancel [OF _ _ 5(2) [unfolded td_def te_def]] f have 6: "cd_shared_random d = cd_shared_random e"
    "to_be (of_nat (length (cd_srv_commitments d)) :: u32) @ concat (map write_commitment (cd_srv_commitments d))
     = to_be (of_nat (length (cd_srv_commitments e)) :: u32) @ concat (map write_commitment (cd_srv_commitments e))"
    by auto
  from be32.cancel [OF _ _ 6(2)]
  have 7: "(of_nat (length (cd_srv_commitments d)) :: u32) = of_nat (length (cd_srv_commitments e))"
    "concat (map write_commitment (cd_srv_commitments d)) = concat (map write_commitment (cd_srv_commitments e))"
    by auto
  have l2: "length (cd_srv_commitments d) = length (cd_srv_commitments e)" using 7(1) f len32_inject by metis
  from commitment.list_cancel [OF l2, of "[]" "[]"] 7(2) f have 8: "cd_srv_commitments d = cd_srv_commitments e"
    by auto
  show ?thesis using 1(1) 2(1) 3(1) 5(1) 6(1) 8 by (simp add: consensus_document.equality)
qed

subsection \<open>Signatures\<close>

text \<open>An entry that counts for the authority \<open>pk\<close>.\<close>

definition signed_by :: "prims \<Rightarrow> bytes \<Rightarrow> bytes \<Rightarrow> authority_signature \<Rightarrow> bool" where
  "signed_by P canonical pk s \<longleftrightarrow> decode_pub P (as_authority_pub_hex s) = Inr pk
     \<and> (\<exists>sig. decode_sig P (as_sig_hex s) = Inr sig \<and> p_ed_key_ok P pk \<and> p_ed_verify P pk canonical sig)"

lemma count_signers_set:
  "set (count_signers P c trusted ss counted) =
     set counted \<union> {pk \<in> set trusted. \<exists>s \<in> set ss. signed_by P c pk s}"
proof (induction ss arbitrary: counted)
  case (Cons s ss)
  have "set (case decode_pub P (as_authority_pub_hex s) of
          Inl _ \<Rightarrow> counted
        | Inr pub_bytes \<Rightarrow>
            if pub_bytes \<notin> set trusted then counted
            else (case decode_sig P (as_sig_hex s) of
                    Inl _ \<Rightarrow> counted
                  | Inr sig_bytes \<Rightarrow>
                      if p_ed_key_ok P pub_bytes \<and> p_ed_verify P pub_bytes c sig_bytes
                      then List.insert pub_bytes counted else counted))
     = set counted \<union> {pk \<in> set trusted. signed_by P c pk s}"
    by (auto simp: signed_by_def split: sum.splits)
  then show ?case unfolding count_signers.simps Cons.IH by auto
qed simp

lemma count_signers_distinct:
  "distinct counted \<Longrightarrow> distinct (count_signers P c trusted ss counted)"
proof (induction ss arbitrary: counted)
  case (Cons s ss)
  then show ?case by (auto split: sum.split)
qed simp

definition signers :: "prims \<Rightarrow> consensus_document \<Rightarrow> bytes list \<Rightarrow> bytes set" where
  "signers P doc trusted = {pk \<in> set trusted. \<exists>s \<in> set (cd_signatures doc).
     signed_by P (canonical_consensus_bytes (doc \<lparr> cd_signatures := [] \<rparr>)) pk s}"

lemma verify_consensus_iff:
  "verify_consensus P doc trusted k now = Inr () \<longleftrightarrow>
     cd_valid_after doc \<le> now \<and> now \<le> cd_valid_until doc \<and> k \<le> card (signers P doc trusted)"
proof -
  let ?c = "count_signers P (canonical_consensus_bytes (doc \<lparr> cd_signatures := [] \<rparr>)) trusted (cd_signatures doc) []"
  have "length ?c = card (set ?c)"
    using count_signers_distinct [of "[]"] by (simp add: distinct_card)
  also have "set ?c = signers P doc trusted" by (simp add: count_signers_set signers_def)
  finally have "length ?c = card (signers P doc trusted)" .
  then show ?thesis by (auto simp: verify_consensus_def Let_def not_less)
qed

text \<open>Two quorums of \<open>threshold_for n\<close> out of \<open>n\<close> authorities share a third of them.\<close>

lemma quorum_overlap:
  assumes "finite T" "A \<subseteq> T" "B \<subseteq> T" "threshold_for (card T) \<le> card A" "threshold_for (card T) \<le> card B"
  shows "card T \<le> 3 * card (A \<inter> B)"
proof -
  have fin: "finite A" "finite B" using assms(1-3) finite_subset by auto
  have "card (A \<union> B) + card (A \<inter> B) = card A + card B" using fin by (rule card_Un_Int [symmetric])
  moreover have "card (A \<union> B) \<le> card T" using assms(1-3) by (simp add: card_mono)
  moreover have "2 * card T \<le> 3 * threshold_for (card T)" unfolding threshold_for_def by presburger
  ultimately show ?thesis using assms(4,5) by linarith
qed

lemma pub_hex_decodes: "hex_ok P \<Longrightarrow> length k = 32 \<Longrightarrow> decode_pub P (p_hex_encode P k) = Inr k"
  by (simp add: decode_pub_def hex_ok_def)

lemma sig_hex_decodes: "hex_ok P \<Longrightarrow> length k = 64 \<Longrightarrow> decode_sig P (p_hex_encode P k) = Inr k"
  by (simp add: decode_sig_def hex_ok_def)

lemma sign_all_signers:
  assumes hex: "hex_ok P" and ok: "\<forall>a \<in> set as. signer_ok P a" and un: "cd_signatures doc = []"
  shows "a_public_key ` set as \<inter> set trusted \<subseteq> signers P (fold (sign_consensus P) as doc) trusted
    \<and> (fold (sign_consensus P) as doc) \<lparr> cd_signatures := [] \<rparr> = doc"
proof -
  let ?c = "canonical_consensus_bytes doc"
  let ?s = "\<lambda>a. \<lparr> as_authority_pub_hex = a_pub_hex P a, as_sig_hex = p_hex_encode P (a_sign a ?c) \<rparr>"
  have d: "doc \<lparr> cd_signatures := [] \<rparr> = doc" using un by simp
  have step: "fold (sign_consensus P) as (doc \<lparr> cd_signatures := ss \<rparr>) = doc \<lparr> cd_signatures := ss @ map ?s as \<rparr>" for ss
    by (induction as arbitrary: ss) (simp_all add: sign_consensus_def d)
  have e: "fold (sign_consensus P) as doc = doc \<lparr> cd_signatures := map ?s as \<rparr>"
    using step [of "[]"] by (simp add: d)
  have "signed_by P ?c (a_public_key a) (?s a)" if "a \<in> set as" for a
    using ok that hex by (auto simp: signed_by_def signer_ok_def a_pub_hex_def pub_hex_decodes sig_hex_decodes)
  then show ?thesis by (auto simp: signers_def e d)
qed


subsection \<open>The merge of votes\<close>

lemma count_items_get:
  "hm_get (count_items xs) k = (if k \<in> set xs then Some (count_list xs k) else None)"
proof (induction xs rule: rev_induct)
  case (snoc x xs)
  have "count_items (xs @ [x]) = hm_insert x (case hm_get (count_items xs) x of None \<Rightarrow> 1 | Some n \<Rightarrow> n + 1)
      (count_items xs)"
    by (simp add: count_items_def)
  moreover have "x \<notin> set xs \<Longrightarrow> count_list xs x = 0" by (simp add: count_list_0_iff)
  ultimately show ?case using snoc by (auto simp: hm.get_ins)
qed (simp add: count_items_def)

lemma count_items_wf: "hm_wf (count_items xs)"
  unfolding count_items_def by (induction xs rule: rev_induct) (simp_all add: hm.wf_ins)

text \<open>The entry \<open>max_count\<close> chooses beats every other one, so it is the only one that does.\<close>

definition count_le :: "('k::linorder \<times> nat) \<Rightarrow> ('k \<times> nat) \<Rightarrow> bool" where
  "count_le a b \<longleftrightarrow> \<not> count_beats a b"

lemma count_le_total: "count_le a b \<or> count_le b a"
  by (auto simp: count_le_def count_beats_def)

lemma count_le_trans: "count_le a b \<Longrightarrow> count_le b c \<Longrightarrow> count_le a c"
  by (auto simp: count_le_def count_beats_def)

lemma count_le_antisym: "count_le a b \<Longrightarrow> count_le b a \<Longrightarrow> a = b"
  by (cases a, cases b) (auto simp: count_le_def count_beats_def)

lemma max_fold:
  "let r = foldl (\<lambda>acc y. if count_beats acc y then acc else y) x xs in
     r \<in> set (x # xs) \<and> (\<forall>y \<in> set (x # xs). count_le y r)"
proof (induction xs arbitrary: x)
  case Nil
  then show ?case using count_le_total [of x x] by simp
next
  case (Cons z zs)
  let ?n = "if count_beats x z then x else z"
  have n: "count_le x ?n" "count_le z ?n"
    using count_le_total by (auto simp: count_le_def count_beats_def)
  show ?case using Cons.IH [of ?n] n by (auto simp: Let_def intro: count_le_trans split: if_splits)
qed

lemma max_count_items:
  assumes "xs \<noteq> []"
  shows "\<exists>w. max_count (count_items xs) = Some w \<and> w \<in> set xs
    \<and> (\<forall>v \<in> set xs. count_list xs v < count_list xs w \<or> (count_list xs v = count_list xs w \<and> w \<le> v))"
proof -
  obtain y where "y \<in> set xs" using assms by (cases xs) auto
  then have "count_items xs \<noteq> []" using count_items_get [of xs y] by auto
  then obtain x m where m: "count_items xs = x # m" by (cases "count_items xs") auto
  let ?r = "foldl (\<lambda>acc y. if count_beats acc y then acc else y) x m"
  have r: "?r \<in> set (count_items xs)" "\<forall>y \<in> set (count_items xs). count_le y ?r"
    using max_fold [of x m] by (simp_all add: m Let_def)
  have mem: "(k, n) \<in> set (count_items xs) \<longleftrightarrow> k \<in> set xs \<and> n = count_list xs k" for k n
  proof -
    have "(k, n) \<in> set (count_items xs) \<longleftrightarrow> hm_get (count_items xs) k = Some n"
      using count_items_wf [of xs] map_of_eq_Some_iff unfolding hm_wf_def by metis
    then show ?thesis unfolding count_items_get by auto
  qed
  obtain w n where wn: "?r = (w, n)" by (cases ?r)
  have w: "w \<in> set xs" "n = count_list xs w" using r(1) mem by (auto simp: wn)
  have best: "count_list xs v < count_list xs w \<or> (count_list xs v = count_list xs w \<and> w \<le> v)"
    if v: "v \<in> set xs" for v
  proof -
    have "(v, count_list xs v) \<in> set (count_items xs)" using mem v by simp
    then have "count_le (v, count_list xs v) (w, n)" using r(2) wn by metis
    then show ?thesis unfolding count_le_def count_beats_def w(2) by auto
  qed
  have "max_count (count_items xs) = Some (fst ?r)" unfolding max_count_def m by simp
  then have "max_count (count_items xs) = Some w" unfolding wn by simp
  with w(1) best show ?thesis by blast
qed

lemma max_count_mset:
  assumes "mset xs = mset ys"
  shows "max_count (count_items xs) = max_count (count_items ys)"
proof (cases "xs = []")
  case True
  with assms show ?thesis by simp
next
  case False
  have s: "set xs = set ys" using assms by (rule mset_eq_setD)
  have c: "count_list xs v = count_list ys v" for v
    using assms by (metis count_mset)
  have "ys \<noteq> []" using False assms by auto
  then obtain w where w: "max_count (count_items ys) = Some w" "w \<in> set ys"
    "\<forall>v \<in> set ys. count_list ys v < count_list ys w \<or> (count_list ys v = count_list ys w \<and> w \<le> v)"
    using max_count_items by blast
  obtain u where u: "max_count (count_items xs) = Some u" "u \<in> set xs"
    "\<forall>v \<in> set xs. count_list xs v < count_list xs u \<or> (count_list xs v = count_list xs u \<and> u \<le> v)"
    using max_count_items [OF False] by blast
  have "count_list ys u < count_list ys w \<or> (count_list ys u = count_list ys w \<and> w \<le> u)"
    using w(3) u(2) s by simp
  moreover have "count_list ys w < count_list ys u \<or> (count_list ys w = count_list ys u \<and> u \<le> w)"
    using u(3) w(2) s c by simp
  ultimately have "u = w" by (metis less_not_sym less_irrefl order_antisym)
  then show ?thesis using u(1) w(1) by simp
qed

lemma majority_mset: "mset xs = mset ys \<Longrightarrow> majority_or_min xs = majority_or_min ys"
  unfolding majority_or_min_def using max_count_mset [of xs ys] by simp

lemma majority_mset_u16: "mset xs = mset ys \<Longrightarrow> majority_or_min_u16 xs = majority_or_min_u16 ys"
  unfolding majority_or_min_u16_def using max_count_mset [of xs ys] by simp

lemma sort_key_mset:
  assumes "mset xs = mset ys" "distinct (map f xs)"
  shows "sort_key f xs = sort_key f ys"
proof -
  have "mset (map f xs) = mset (map f ys)" using assms(1) by simp
  then have dy: "distinct (map f ys)" using assms(2) mset_eq_imp_distinct_iff by blast
  have s: "set xs = set ys" using assms(1) by (rule mset_eq_setD)
  have ds: "distinct (map f (sort_key f zs))" if "distinct (map f zs)" for zs
  proof -
    have "mset (map f (sort_key f zs)) = mset (map f zs)" by simp
    then show ?thesis using that mset_eq_imp_distinct_iff by blast
  qed
  have i: "inj_on f (set (sort_key f xs) \<union> set (sort_key f ys))"
    using assms(2) unfolding distinct_map set_sort s Un_absorb by simp
  show ?thesis
    by (rule map_sorted_distinct_set_unique [OF i sorted_sort_key ds [OF assms(2)] sorted_sort_key ds [OF dy]])
      (simp only: set_sort s)
qed

text \<open>Observations of a peer, and how they depend on the votes.\<close>

definition observations :: "authority_vote list \<Rightarrow> string \<Rightarrow> peer_entry list" where
  "observations votes i = filter (\<lambda>p. pe_node_id_hex p = i) (concat (map av_peers votes))"

lemma group_peers_get:
  "hm_get (group_peers votes) i = (if observations votes i = [] then None else Some (observations votes i))"
proof -
  have "hm_get (foldl (\<lambda>m p. hm_insert (pe_node_id_hex p)
              (case hm_get m (pe_node_id_hex p) of None \<Rightarrow> [p] | Some ps \<Rightarrow> ps @ [p]) m) [] ps) i
    = (if filter (\<lambda>p. pe_node_id_hex p = i) ps = [] then None
       else Some (filter (\<lambda>p. pe_node_id_hex p = i) ps))" for ps :: "peer_entry list"
    by (induction ps rule: rev_induct) (auto simp: hm.get_ins)
  then show ?thesis by (simp add: group_peers_def observations_def)
qed

lemma group_peers_wf: "hm_wf (group_peers votes)"
proof -
  have "hm_wf (foldl (\<lambda>m p. hm_insert (pe_node_id_hex p)
              (case hm_get m (pe_node_id_hex p) of None \<Rightarrow> [p] | Some ps \<Rightarrow> ps @ [p]) m) [] ps)" for ps :: "peer_entry list"
    by (induction ps rule: rev_induct) (simp_all add: hm.wf_ins)
  then show ?thesis by (simp add: group_peers_def)
qed

lemma merge_observations_id [simp]: "pe_node_id_hex (merge_observations i obs) = i"
  by (simp add: merge_observations_def)

lemma merge_flags_mset:
  assumes "mset xs = mset ys"
  shows "merge_flags xs = merge_flags ys"
proof -
  have "length (filter Q xs) = length (filter Q ys)" for Q
    using assms by (metis mset_filter size_mset)
  moreover have "length xs = length ys" using assms by (rule mset_eq_length)
  ultimately show ?thesis by (simp add: merge_flags_def)
qed

lemma merge_observations_mset:
  assumes "mset xs = mset ys"
  shows "merge_observations i xs = merge_observations i ys"
proof -
  have m: "mset (map f xs) = mset (map f ys)" for f :: "peer_entry \<Rightarrow> 'x" using assms by simp
  have b: "sort (map pe_bandwidth_kbs xs) = sort (map pe_bandwidth_kbs ys)"
    using m by (metis sorted_list_of_multiset_mset)
  have f: "mset (filter Q (map pe_family xs)) = mset (filter Q (map pe_family ys))" for Q
    using m by (metis mset_filter)
  show ?thesis
    unfolding merge_observations_def
    using majority_mset [OF m] majority_mset_u16 [OF m] majority_mset [OF f] b
      merge_flags_mset [OF assms] mset_eq_length [OF assms] by simp
qed

text \<open>The merged peers, whatever order a table iterates in.\<close>

lemma merged_peers_get:
  assumes "distinct (map fst g)" "hm_get g = hm_get (group_peers votes)"
  shows "set (map (\<lambda>(i, obs). merge_observations i obs) g)
    = {merge_observations i (observations votes i) | i. observations votes i \<noteq> []}"
proof -
  have "(i, obs) \<in> set g \<longleftrightarrow> obs = observations votes i \<and> obs \<noteq> []" for i obs
  proof -
    have "(i, obs) \<in> set g \<longleftrightarrow> hm_get (group_peers votes) i = Some obs"
      using map_of_eq_Some_iff [OF assms(1)] assms(2) by metis
    then show ?thesis unfolding group_peers_get by auto
  qed
  then have "set g = (\<lambda>i. (i, observations votes i)) ` {i. observations votes i \<noteq> []}" by auto
  then show ?thesis unfolding set_map by (simp add: image_image) blast
qed

lemma peers_mset:
  assumes "mset votes = mset votes'"
  shows "cd_peers (build_consensus_inner n votes) = cd_peers (build_consensus_inner n votes')"
proof -
  let ?P = "\<lambda>vs. map (\<lambda>(i, obs). merge_observations i obs) (group_peers vs)"
  have ids: "map pe_node_id_hex (?P vs) = map fst (group_peers vs)" for vs
    by (simp add: comp_def split_beta)
  have dist: "distinct (map pe_node_id_hex (?P vs))" for vs
    using group_peers_wf [of vs] unfolding ids hm_wf_def .
  have obs: "mset (observations votes i) = mset (observations votes' i)" for i
  proof -
    have "mset (concat (map av_peers votes)) = mset (concat (map av_peers votes'))"
      using assms unfolding mset_concat
      by (metis mset_map sum_mset_sum_list)
    then show ?thesis unfolding observations_def by (metis mset_filter)
  qed
  have "set (?P votes) = set (?P votes')"
    unfolding merged_peers_get [OF group_peers_wf [unfolded hm_wf_def] refl]
    using obs merge_observations_mset by (metis mset_zero_iff)
  moreover have "distinct (?P votes)" "distinct (?P votes')" using dist by (simp_all only: distinct_map)
  ultimately have "mset (?P votes) = mset (?P votes')"
    using set_eq_iff_mset_eq_distinct [of "?P votes" "?P votes'"] by blast
  then have "sort_key pe_node_id_hex (?P votes) = sort_key pe_node_id_hex (?P votes')"
    using dist by (rule sort_key_mset)
  then show ?thesis by (simp add: build_consensus_inner_def)
qed


lemma max_or_mset: "mset xs = mset ys \<Longrightarrow> max_or d xs = max_or d (ys :: 'a::linorder list)"
proof -
  assume m: "mset xs = mset ys"
  have "max_or d zs = (if zs = [] then d else Max (set zs))" for zs :: "'a list"
    by (cases zs) (simp_all add: Max.set_eq_fold foldl_conv_fold max.commute del: list.set)
  moreover have "set xs = set ys" "xs = [] \<longleftrightarrow> ys = []" using m by (auto dest: mset_eq_setD)
  ultimately show ?thesis by simp
qed

lemma min_or_mset: "mset xs = mset ys \<Longrightarrow> min_or d xs = min_or d (ys :: 'a::linorder list)"
proof -
  assume m: "mset xs = mset ys"
  have "min_or d zs = (if zs = [] then d else Min (set zs))" for zs :: "'a list"
    by (cases zs) (simp_all add: Min.set_eq_fold foldl_conv_fold min.commute del: list.set)
  moreover have "set xs = set ys" "xs = [] \<longleftrightarrow> ys = []" using m by (auto dest: mset_eq_setD)
  ultimately show ?thesis by simp
qed

lemma inner_mset:
  assumes "mset votes = mset votes'"
  shows "build_consensus_inner n votes = build_consensus_inner n votes'"
proof -
  have m: "mset (map f votes) = mset (map f votes')" for f :: "authority_vote \<Rightarrow> u64" using assms by simp
  show ?thesis
    using peers_mset [OF assms, of n] max_or_mset [OF m] min_or_mset [OF m]
    by (simp add: build_consensus_inner_def)
qed

lemma mset_map_filter: "mset xs = mset ys \<Longrightarrow> mset (List.map_filter f xs) = mset (List.map_filter f ys)"
  unfolding List.map_filter_def by (metis mset_filter mset_map)

lemma accept_reveal_id: "accept_reveal P pr t v = Some r \<Longrightarrow> rv_authority_id r = av_authority_pub_hex v"
  by (auto simp: accept_reveal_def split: if_splits option.splits)

lemma reveals_distinct:
  "distinct (map av_authority_pub_hex votes) \<Longrightarrow>
   distinct (map rv_authority_id (List.map_filter (accept_reveal P pr t) votes))"
proof (induction votes)
  case (Cons v vs)
  have "rv_authority_id ` set (List.map_filter (accept_reveal P pr t) vs) \<subseteq> av_authority_pub_hex ` set vs"
    using accept_reveal_id by (force simp: List.map_filter_def)
  with Cons show ?case
    by (auto simp: List.map_filter_simps accept_reveal_id split: option.splits)
qed (simp add: List.map_filter_simps)

lemma consensus_mset:
  assumes m: "mset votes = mset votes'" and d: "distinct (map av_authority_pub_hex votes)"
  shows "build_consensus_with_srv P n votes prev t = build_consensus_with_srv P n votes' prev t"
proof -
  let ?R = "\<lambda>vs. case prev of None \<Rightarrow> [] | Some pr \<Rightarrow> List.map_filter (accept_reveal P pr t) vs"
  have "mset (?R votes) = mset (?R votes')" "distinct (map rv_authority_id (?R votes))"
    using mset_map_filter [OF m] reveals_distinct [OF d] by (auto split: option.split)
  then have srv: "compute_srv P (?R votes) t 2 = compute_srv P (?R votes') t 2"
    by (rule compute_srv_mset)
  let ?c = "\<lambda>v. \<lparr> sc_authority_pub_hex = av_authority_pub_hex v, sc_commitment = av_srv_commit v \<rparr>"
  let ?C = "\<lambda>vs. map ?c (filter (\<lambda>v. av_srv_commit v \<noteq> []) vs)"
  have "mset (?C votes) = mset (?C votes')" by (simp only: mset_map mset_filter m)
  moreover have "distinct (map sc_authority_pub_hex (?C votes))"
    using distinct_map_filter [OF d] by (simp add: comp_def)
  ultimately have "sort_key sc_authority_pub_hex (?C votes) = sort_key sc_authority_pub_hex (?C votes')"
    by (rule sort_key_mset)
  then show ?thesis
    unfolding build_consensus_with_srv_def Let_def inner_mset [OF m, of n] srv by simp
qed

text \<open>The merged flags, bit by bit.\<close>

lemma bit_push_1: "bit (push_bit b 1 :: u32) n \<longleftrightarrow> n = b \<and> n < 32"
  by (auto simp: bit_push_bit_iff bit_1_iff simp del: push_bit_of_1)

lemma flags_fold_bit:
  "bit (foldl (\<lambda>flags b. if Q b then flags OR push_bit b 1 else flags) (a :: u32) bs) n \<longleftrightarrow>
     bit a n \<or> (n \<in> set bs \<and> Q n \<and> n < 32)"
proof (induction bs arbitrary: a)
  case (Cons b bs)
  have "bit (if Q b then a OR push_bit b 1 else a) n \<longleftrightarrow> bit a n \<or> (n = b \<and> Q n \<and> n < 32)"
    unfolding if_distrib [where f = "\<lambda>w. bit w n"] bit_or_iff bit_push_1 by auto
  then show ?case unfolding foldl_Cons Cons.IH by auto
qed simp

lemma mask_bit:
  assumes "n < 32"
  shows "(w :: u32) AND push_bit n 1 \<noteq> 0 \<longleftrightarrow> bit w n"
proof -
  have "w AND push_bit n 1 = 0 \<longleftrightarrow> \<not> bit w n"
    unfolding bit_eq_iff [where ?'a = u32] bit_and_iff bit_push_1 using assms by (auto simp: bit_0_eq)
  then show ?thesis by simp
qed

lemma merge_flags_bit:
  "bit (merge_flags obs) n \<longleftrightarrow>
     n < 32 \<and> (length obs + 1) div 2 \<le> length (filter (\<lambda>p. bit (pe_flags p) n) obs)"
proof -
  let ?Q = "\<lambda>b. (length obs + 1) div 2 \<le> length (filter (\<lambda>p. pe_flags p AND push_bit b 1 \<noteq> 0) obs)"
  have q: "bit (merge_flags obs) n \<longleftrightarrow> n < 32 \<and> ?Q n"
    unfolding merge_flags_def Let_def flags_fold_bit by (auto simp del: push_bit_of_1)
  have f: "filter (\<lambda>p. pe_flags p AND push_bit n 1 \<noteq> 0) obs = filter (\<lambda>p. bit (pe_flags p) n) obs" if "n < 32"
    using mask_bit [OF that] by simp
  show ?thesis
  proof (cases "n < 32")
    case True
    show ?thesis unfolding q f [OF True] ..
  next
    case False
    then show ?thesis unfolding q by simp
  qed
qed

text \<open>The peers of a consensus are sorted, each once, and each was observed.\<close>

lemma consensus_peers_sorted:
  "sorted_wrt (<) (map pe_node_id_hex (cd_peers (build_consensus_inner n votes)))"
proof -
  let ?P = "map (\<lambda>(i, obs). merge_observations i obs) (group_peers votes)"
  have ids: "map pe_node_id_hex ?P = map fst (group_peers votes)" by (simp add: comp_def split_beta)
  have d: "distinct (map pe_node_id_hex ?P)" using group_peers_wf [of votes] unfolding ids hm_wf_def .
  have "mset (map pe_node_id_hex (sort_key pe_node_id_hex ?P)) = mset (map pe_node_id_hex ?P)"
    by (simp only: mset_map mset_sort)
  then have "distinct (map pe_node_id_hex (sort_key pe_node_id_hex ?P))"
    using d mset_eq_imp_distinct_iff by blast
  then show ?thesis
    unfolding build_consensus_inner_def consensus_document.simps strict_sorted_iff by simp
qed

lemma consensus_peers_set:
  "set (cd_peers (build_consensus_inner n votes))
     = {merge_observations i (observations votes i) | i. observations votes i \<noteq> []}"
  using merged_peers_get [OF group_peers_wf [unfolded hm_wf_def] refl, of votes]
  by (simp add: build_consensus_inner_def)

text \<open>The merged bandwidth is one that was observed, with half the observations on each side.\<close>

lemma sorted_nth_counts:
  assumes "sorted xs" "k < length xs"
  shows "k < length (filter (\<lambda>x. x \<le> xs ! k) xs)" "length xs - k \<le> length (filter (\<lambda>x. xs ! k \<le> x) xs)"
proof -
  have "filter (\<lambda>x. x \<le> xs ! k) (take (Suc k) xs) = take (Suc k) xs"
    using assms by (auto simp: filter_id_conv in_set_conv_nth sorted_iff_nth_mono less_Suc_eq_le)
  moreover have "length (filter Q (take j xs)) \<le> length (filter Q xs)" for Q j
    by (metis append_take_drop_id filter_append length_append le_add1)
  ultimately have "length (take (Suc k) xs) \<le> length (filter (\<lambda>x. x \<le> xs ! k) xs)" by metis
  then show "k < length (filter (\<lambda>x. x \<le> xs ! k) xs)" using assms(2) by simp
  have "filter (\<lambda>x. xs ! k \<le> x) (drop k xs) = drop k xs"
    using assms by (auto simp: filter_id_conv in_set_conv_nth sorted_iff_nth_mono)
  moreover have "length (filter Q (drop j xs)) \<le> length (filter Q xs)" for Q j
    by (metis append_take_drop_id filter_append length_append le_add2)
  ultimately have "length (drop k xs) \<le> length (filter (\<lambda>x. xs ! k \<le> x) xs)" by metis
  then show "length xs - k \<le> length (filter (\<lambda>x. xs ! k \<le> x) xs)" by simp
qed

lemma merged_bandwidth_median:
  assumes "obs \<noteq> []"
  shows "let b = pe_bandwidth_kbs (merge_observations i obs) in
    length obs div 2 < length (filter (\<lambda>p. pe_bandwidth_kbs p \<le> b) obs)
    \<and> length obs - length obs div 2 \<le> length (filter (\<lambda>p. b \<le> pe_bandwidth_kbs p) obs)"
proof -
  let ?s = "sort (map pe_bandwidth_kbs obs)"
  have k: "length obs div 2 < length ?s" using assms by (cases obs) auto
  have f: "length (filter Q ?s) = length (filter (\<lambda>p. Q (pe_bandwidth_kbs p)) obs)" for Q
  proof -
    have "mset (filter Q ?s) = mset (filter Q (map pe_bandwidth_kbs obs))" by (simp add: mset_filter)
    then have "length (filter Q ?s) = length (filter Q (map pe_bandwidth_kbs obs))" by (rule mset_eq_length)
    then show ?thesis by (simp add: filter_map comp_def)
  qed
  show ?thesis
    using sorted_nth_counts [OF sorted_sort k] unfolding f
    by (simp add: merge_observations_def Let_def)
qed

subsection \<open>Properties\<close>

definition sample_peer :: "char \<Rightarrow> u32 \<Rightarrow> u32 \<Rightarrow> peer_entry" where
  "sample_peer c flags bw = \<lparr> pe_node_id_hex = [c], pe_host = ''10.0.0.1'', pe_port = 7700, pe_static_pub_hex = [],
     pe_flags = flags, pe_bandwidth_kbs = bw, pe_exit_policy_summary = [], pe_family = [] \<rparr>"

definition sample_doc :: consensus_document where
  "sample_doc = \<lparr> cd_network_id = ''net'', cd_srv_commitments = [], cd_shared_random = [], cd_valid_after = 5,
     cd_valid_until = 50, cd_peers = [sample_peer CHR ''a'' 1 9], cd_signatures = [] \<rparr>"

definition sample_authority :: "u8 \<Rightarrow> authority" where
  "sample_authority b = \<lparr> a_public_key = replicate 32 b, a_sign = (\<lambda>m. replicate 32 (foldl (+) 0 m) @ replicate 32 b),
     a_network_id = ''net'' \<rparr>"

definition sample_vote :: "char \<Rightarrow> authority_vote" where
  "sample_vote c = \<lparr> av_network_id = ''net'', av_valid_after = 5, av_valid_until = 50,
     av_peers = [sample_peer c 1 9], av_authority_pub_hex = [c], av_srv_commit = [], av_srv_reveal = [],
     av_sig_hex = [] \<rparr>"

lemma sample_authority_ok [simp]: "signer_ok toy_prims (sample_authority b)"
  by (simp add: signer_ok_def sample_authority_def toy_prims_def)

lemma sample_fields [simp]:
  "a_public_key (sample_authority b) = replicate 32 b" "cd_signatures sample_doc = []"
  "cd_valid_after sample_doc = 5" "cd_valid_until sample_doc = 50"
  by (simp_all add: sample_authority_def sample_doc_def)

text \<open>C7: the bytes an authority signs determine the document: two documents whose length fields
  fit 32 bits and whose canonical bytes agree differ in nothing but their signatures, so a signature
  cannot be moved to another document.\<close>

theorem canonical_bytes_injective:
  assumes "doc_fits d" "doc_fits e" "canonical_consensus_bytes d = canonical_consensus_bytes e"
  shows "d \<lparr> cd_signatures := [] \<rparr> = e \<lparr> cd_signatures := [] \<rparr>"
  using assms by (rule canonical_inj)

theorem canonical_bytes_injective_witness:
  "canonical_consensus_bytes sample_doc \<noteq> canonical_consensus_bytes (sample_doc \<lparr> cd_peers := [] \<rparr>)"
proof
  assume e: "canonical_consensus_bytes sample_doc = canonical_consensus_bytes (sample_doc \<lparr> cd_peers := [] \<rparr>)"
  have "doc_fits sample_doc" "doc_fits (sample_doc \<lparr> cd_peers := [] \<rparr>)"
    by (simp_all add: doc_fits_def sample_doc_def fits32_def peer_fits_def sample_peer_def)
  from canonical_bytes_injective [OF this e] show False by (simp add: sample_doc_def)
qed

text \<open>C4: a consensus verifies exactly when the time lies in its validity window and at least
  \<open>min_signatures\<close> different trusted authorities have a valid signature over its canonical bytes;
  repeated, foreign and malformed signatures count for nothing.\<close>

theorem verify_consensus_exact:
  "verify_consensus P doc trusted k now = Inr () \<longleftrightarrow>
     cd_valid_after doc \<le> now \<and> now \<le> cd_valid_until doc \<and> k \<le> card (signers P doc trusted)"
  by (rule verify_consensus_iff)

text \<open>two consensus documents that both verify with the threshold of the same authority set
  were signed by at least a third of the authorities in common.\<close>

theorem consensus_quorums_intersect:
  assumes "verify_consensus P d trusted (threshold_for (card (set trusted))) t = Inr ()"
    and "verify_consensus P e trusted (threshold_for (card (set trusted))) u = Inr ()"
  shows "card (set trusted) \<le> 3 * card (signers P d trusted \<inter> signers P e trusted)"
proof (rule quorum_overlap)
  show "signers P d trusted \<subseteq> set trusted" "signers P e trusted \<subseteq> set trusted"
    by (auto simp: signers_def)
qed (use assms in \<open>simp_all add: verify_consensus_iff\<close>)

theorem consensus_quorums_intersect_witness:
  "\<exists>d. verify_consensus toy_prims d [replicate 32 1] (threshold_for 1) 10 = Inr ()
    \<and> 1 \<le> 3 * card (signers toy_prims d [replicate 32 1])"
proof -
  let ?d = "fold (sign_consensus toy_prims) [sample_authority 1] sample_doc"
  have s: "{replicate 32 1} \<subseteq> signers toy_prims ?d [replicate 32 1]"
    using sign_all_signers [of toy_prims "[sample_authority 1]" sample_doc "[replicate 32 1]"]
    by simp
  have "finite (signers toy_prims ?d [replicate 32 1])" by (simp add: signers_def)
  from card_mono [OF this s] have "1 \<le> card (signers toy_prims ?d [replicate 32 1])" by simp
  then have v: "verify_consensus toy_prims ?d [replicate 32 1] (threshold_for (card (set [replicate 32 (1 :: u8)]))) 10 = Inr ()"
    by (simp add: verify_consensus_iff threshold_for_def sign_consensus_def)
  from consensus_quorums_intersect [OF v v] v show ?thesis by auto
qed

text \<open>an unsigned document within its validity window, signed one after the other by honest
  authorities, verifies for anyone who trusts at least \<open>k\<close> of them; signing changes nothing else.\<close>

theorem signed_consensus_verifies:
  assumes "hex_ok P" "\<forall>a \<in> set as. signer_ok P a" "cd_signatures doc = []"
    and "k \<le> card (a_public_key ` set as \<inter> set trusted)" "cd_valid_after doc \<le> now" "now \<le> cd_valid_until doc"
  shows "verify_consensus P (fold (sign_consensus P) as doc) trusted k now = Inr ()
    \<and> (fold (sign_consensus P) as doc) \<lparr> cd_signatures := [] \<rparr> = doc"
proof -
  let ?d = "fold (sign_consensus P) as doc"
  note s = sign_all_signers [OF assms(1-3), of trusted]
  have "finite (signers P ?d trusted)" by (simp add: signers_def)
  with s have "card (a_public_key ` set as \<inter> set trusted) \<le> card (signers P ?d trusted)"
    by (blast intro: card_mono)
  moreover from s have "cd_valid_after ?d = cd_valid_after doc" "cd_valid_until ?d = cd_valid_until doc"
    by (metis consensus_document.simps(14) consensus_document.select_convs(4) consensus_document.surjective
        consensus_document.update_convs(7), metis consensus_document.select_convs(5)
        consensus_document.surjective consensus_document.update_convs(7))
  ultimately show ?thesis using s assms(4-6) by (simp add: verify_consensus_iff)
qed

theorem signed_consensus_verifies_witness:
  "verify_consensus toy_prims (fold (sign_consensus toy_prims) [sample_authority 1, sample_authority 2] sample_doc)
     [replicate 32 1, replicate 32 2, replicate 32 3] (threshold_for 3) 10 = Inr ()"
proof -
  have k: "a_public_key ` set [sample_authority 1, sample_authority 2]
      \<inter> set [replicate 32 1, replicate 32 2, replicate 32 3] = {replicate 32 1, replicate 32 2}"
    by (auto simp: sample_authority_def)
  have "card {replicate 32 (1 :: u8), replicate 32 2} = 2" by (simp add: replicate_eq_replicate)
  with k show ?thesis
    by (intro signed_consensus_verifies [THEN conjunct1]) (simp_all add: threshold_for_def sample_doc_def)
qed

text \<open>the consensus is a function of the set of votes: as long as each authority votes once, the
  order in which the votes arrive changes nothing, so authorities that hold the same votes sign the
  same bytes.\<close>

theorem consensus_order_independent:
  assumes "mset votes = mset votes'" "distinct (map av_authority_pub_hex votes)"
  shows "canonical_consensus_bytes (build_consensus_with_srv P n votes prev t)
    = canonical_consensus_bytes (build_consensus_with_srv P n votes' prev t)"
  using consensus_mset [OF assms] by simp

theorem consensus_order_independent_witness:
  "canonical_consensus_bytes (build_consensus_with_srv toy_prims ''net'' [sample_vote CHR ''a'', sample_vote CHR ''b''] None 0)
   = canonical_consensus_bytes (build_consensus_with_srv toy_prims ''net'' [sample_vote CHR ''b'', sample_vote CHR ''a''] None 0)"
  by (rule consensus_order_independent) (simp_all add: sample_vote_def)

text \<open>the merged consensus lists each relay some vote observed exactly once, in the order of its
  id; a relay has a flag exactly when at least half of its observations (rounded up) have it, and
  its bandwidth is the median of the observed ones.\<close>

theorem consensus_merge_spec:
  "sorted_wrt (<) (map pe_node_id_hex (cd_peers (build_consensus_inner n votes)))
   \<and> set (cd_peers (build_consensus_inner n votes))
       = {merge_observations i (observations votes i) | i. observations votes i \<noteq> []}
   \<and> (bit (pe_flags (merge_observations i obs)) b \<longleftrightarrow>
       b < 32 \<and> (length obs + 1) div 2 \<le> length (filter (\<lambda>p. bit (pe_flags p) b) obs))
   \<and> (obs \<noteq> [] \<longrightarrow> (let m = pe_bandwidth_kbs (merge_observations i obs) in
       length obs div 2 < length (filter (\<lambda>p. pe_bandwidth_kbs p \<le> m) obs)
       \<and> length obs - length obs div 2 \<le> length (filter (\<lambda>p. m \<le> pe_bandwidth_kbs p) obs)))"
  using consensus_peers_sorted consensus_peers_set merge_flags_bit merged_bandwidth_median
  by (simp add: merge_observations_def)

theorem consensus_merge_spec_witness:
  "let m = pe_bandwidth_kbs (merge_observations ''a'' [sample_peer CHR ''a'' 1 9, sample_peer CHR ''a'' 3 20]) in
    1 < length (filter (\<lambda>p. pe_bandwidth_kbs p \<le> m) [sample_peer CHR ''a'' 1 9, sample_peer CHR ''a'' 3 20])"
  using consensus_merge_spec [of "[]" "[]" "''a''" "[sample_peer CHR ''a'' 1 9, sample_peer CHR ''a'' 3 20]" 0]
  by (simp add: Let_def)

end
