(* ===== verification/PathSelect.thy ===== *)
theory PathSelect
  imports Directory Circuit
begin

section \<open>Path selection\<close>

text \<open>
  phinet-core/src/path_select.rs: which relays may serve at a position, the
  bandwidth-weighted pick and the selection of guard, exit and middle. The random
  generator is a state \<open>'r\<close> with \<open>gen r n\<close>, the result of
  \<open>gen_range(0..n)\<close> and the next state; \<open>gen_ok\<close> states its contract. The
  \<open>u64\<close> sum of \<open>u32\<close> bandwidths cannot wrap for fewer than \<open>2 ^ 32\<close>
  candidates, so it is a \<open>nat\<close>.
\<close>

type_synonym 'r rng = "'r \<Rightarrow> nat \<Rightarrow> nat \<times> 'r"

definition gen_ok :: "'r rng \<Rightarrow> bool" where
  "gen_ok gen \<longleftrightarrow> (\<forall>r n. 0 < n \<longrightarrow> fst (gen r n) < n)"

record selected_hop =
  sh_node_id_hex :: string
  sh_host :: string
  sh_port :: u16
  sh_static_pub_hex :: string

record selected_path =
  sp_hops :: "selected_hop list"

datatype path_error = InsufficientRelays string

definition hop_of_peer :: "peer_entry \<Rightarrow> selected_hop" where
  "hop_of_peer p = \<lparr>sh_node_id_hex = pe_node_id_hex p, sh_host = pe_host p, sh_port = pe_port p,
     sh_static_pub_hex = pe_static_pub_hex p\<rparr>"

definition hex_to_32 :: "prims \<Rightarrow> string \<Rightarrow> bytes option" where
  "hex_to_32 P s =
     (case p_hex_decode P s of
        None \<Rightarrow> None
      | Some v \<Rightarrow> if length v \<noteq> 32 then None else Some v)"

definition to_link_spec :: "prims \<Rightarrow> selected_hop \<Rightarrow> path_error + link_spec" where
  "to_link_spec P h =
     (case hex_to_32 P (sh_node_id_hex h) of
        None \<Rightarrow> Inl (InsufficientRelays (''hop has malformed node_id_hex: '' @ sh_node_id_hex h))
      | Some node_id \<Rightarrow>
        (case hex_to_32 P (sh_static_pub_hex h) of
           None \<Rightarrow> Inl (InsufficientRelays (''hop has malformed static_pub_hex: '' @ sh_static_pub_hex h))
         | Some static_pub \<Rightarrow>
             Inr \<lparr>ls_host = sh_host h, ls_port = sh_port h, ls_node_id = node_id,
                  ls_static_pub = static_pub\<rparr>))"

text \<open>Collecting an iterator of results stops at the first error.\<close>

fun collect_results :: "('e + 'a) list \<Rightarrow> 'e + 'a list" where
  "collect_results [] = Inr []"
| "collect_results (Inl e # rs) = Inl e"
| "collect_results (Inr x # rs) =
     (case collect_results rs of Inl e \<Rightarrow> Inl e | Inr xs \<Rightarrow> Inr (x # xs))"

definition to_link_specs :: "prims \<Rightarrow> selected_path \<Rightarrow> path_error + link_spec list" where
  "to_link_specs P p = collect_results (map (to_link_spec P) (sp_hops p))"

subsection \<open>Positions\<close>

datatype position_kind = PosGuard | PosMiddle | PosExit

definition required_flags :: "position_kind \<Rightarrow> u32" where
  "required_flags pos =
     (case pos of
        PosGuard \<Rightarrow> FLAG_STABLE OR FLAG_FAST OR FLAG_GUARD OR FLAG_RUNNING OR FLAG_VALID
      | PosMiddle \<Rightarrow> FLAG_STABLE OR FLAG_FAST OR FLAG_RUNNING OR FLAG_VALID
      | PosExit \<Rightarrow> FLAG_STABLE OR FLAG_FAST OR FLAG_EXIT OR FLAG_RUNNING OR FLAG_VALID)"

definition serves :: "position_kind \<Rightarrow> peer_entry \<Rightarrow> bool" where
  "serves pos p \<longleftrightarrow> pe_flags p AND required_flags pos = required_flags pos \<and> 0 < pe_bandwidth_kbs p"

definition eligible_for_position :: "consensus_document \<Rightarrow> position_kind \<Rightarrow> peer_entry list" where
  "eligible_for_position consensus pos = filter (serves pos) (cd_peers consensus)"

subsection \<open>The weighted pick\<close>

definition bw :: "peer_entry \<Rightarrow> nat" where
  "bw p = unat (pe_bandwidth_kbs p)"

fun pick_walk :: "peer_entry list \<Rightarrow> nat \<Rightarrow> peer_entry option" where
  "pick_walk [] target = None"
| "pick_walk (p # ps) target = (if target < bw p then Some p else pick_walk ps (target - bw p))"

definition weighted_random_pick ::
  "'r rng \<Rightarrow> 'r \<Rightarrow> peer_entry list \<Rightarrow> peer_entry option \<times> 'r" where
  "weighted_random_pick gen r cs =
     (if cs = [] then (None, r)
      else let total = sum_list (map bw cs) in
        if total = 0 then let (idx, r') = gen r (length cs) in (Some (cs ! idx), r')
        else let (target, r') = gen r total in
          (case pick_walk cs target of
             Some p \<Rightarrow> (Some p, r')
           | None \<Rightarrow> (Some (last cs), r')))"

subsection \<open>Subnets and families\<close>

definition hex_digit :: "nat \<Rightarrow> char" where
  "hex_digit d = (if d < 10 then char_of (48 + d) else char_of (87 + d))"

fun show_hex :: "nat \<Rightarrow> string" where
  "show_hex n = (if n < 16 then [hex_digit n] else show_hex (n div 16) @ [hex_digit (n mod 16)])"

declare show_hex.simps [simp del]

definition subnet_key :: "string \<Rightarrow> string" where
  "subnet_key host =
     (case parse_ipv4 host of
        Some a \<Rightarrow> ''ipv4-'' @ show_dec (unat (oct0 a)) @ ''.'' @ show_dec (unat (oct1 a))
      | None \<Rightarrow>
        (case parse_ipv6 host of
           Some s \<Rightarrow> ''ipv6-'' @ show_hex (unat (s ! 0)) @ '':'' @ show_hex (unat (s ! 1)) @ '':''
                       @ show_hex (unat (s ! 2))
         | None \<Rightarrow> ''host-'' @ host))"

definition same_family :: "string \<Rightarrow> string \<Rightarrow> bool" where
  "same_family a b \<longleftrightarrow> a \<noteq> [] \<and> a = b"

subsection \<open>Selection\<close>

definition select_guard ::
  "'r rng \<Rightarrow> 'r \<Rightarrow> consensus_document \<Rightarrow> string list \<Rightarrow> peer_entry option \<Rightarrow> (path_error + peer_entry) \<times> 'r" where
  "select_guard gen r consensus excluded pinned =
     (case pinned of
        Some g \<Rightarrow> (Inr g, r)
      | None \<Rightarrow>
          let guards = filter (\<lambda>p. pe_node_id_hex p \<notin> set excluded)
                         (eligible_for_position consensus PosGuard) in
          (case weighted_random_pick gen r guards of
             (None, r') \<Rightarrow> (Inl (InsufficientRelays ''no relays with GUARD flag available''), r')
           | (Some g, r') \<Rightarrow> (Inr g, r')))"

definition exit_candidates :: "consensus_document \<Rightarrow> string list \<Rightarrow> peer_entry \<Rightarrow> peer_entry list" where
  "exit_candidates consensus excluded g =
     filter (\<lambda>p. \<not> same_family (pe_family p) (pe_family g))
      (filter (\<lambda>p. subnet_key (pe_host p) \<noteq> subnet_key (pe_host g))
        (filter (\<lambda>p. pe_node_id_hex p \<noteq> pe_node_id_hex g)
          (filter (\<lambda>p. pe_node_id_hex p \<notin> set excluded)
            (eligible_for_position consensus PosExit))))"

definition middle_candidates ::
  "consensus_document \<Rightarrow> string list \<Rightarrow> peer_entry \<Rightarrow> peer_entry \<Rightarrow> peer_entry list" where
  "middle_candidates consensus excluded g e =
     filter (\<lambda>p. \<not> same_family (pe_family p) (pe_family g) \<and> \<not> same_family (pe_family p) (pe_family e))
      (filter (\<lambda>p. subnet_key (pe_host p) \<noteq> subnet_key (pe_host g)
                 \<and> subnet_key (pe_host p) \<noteq> subnet_key (pe_host e))
        (filter (\<lambda>p. pe_node_id_hex p \<noteq> pe_node_id_hex g \<and> pe_node_id_hex p \<noteq> pe_node_id_hex e)
          (filter (\<lambda>p. pe_node_id_hex p \<notin> set excluded)
            (eligible_for_position consensus PosMiddle))))"

definition select_path ::
  "'r rng \<Rightarrow> 'r \<Rightarrow> consensus_document \<Rightarrow> string list \<Rightarrow> peer_entry option
     \<Rightarrow> (path_error + selected_path) \<times> 'r" where
  "select_path gen r consensus excluded pinned =
     (case select_guard gen r consensus excluded pinned of
        (Inl e, r1) \<Rightarrow> (Inl e, r1)
      | (Inr g, r1) \<Rightarrow>
        (case weighted_random_pick gen r1 (exit_candidates consensus excluded g) of
           (None, r2) \<Rightarrow> (Inl (InsufficientRelays ''no exit relays available''), r2)
         | (Some e, r2) \<Rightarrow>
           (case weighted_random_pick gen r2 (middle_candidates consensus excluded g e) of
              (None, r3) \<Rightarrow> (Inl (InsufficientRelays ''no middle relays available''), r3)
            | (Some m, r3) \<Rightarrow>
                (Inr \<lparr>sp_hops = [hop_of_peer g, hop_of_peer m, hop_of_peer e]\<rparr>, r3))))"

subsection \<open>The pick\<close>

lemma pick_walk_in: "pick_walk cs t = Some p \<Longrightarrow> p \<in> set cs"
  by (induction cs arbitrary: t) (auto split: if_splits)

lemma pick_walk_None_iff: "pick_walk cs t = None \<longleftrightarrow> sum_list (map bw cs) \<le> t"
proof (induction cs arbitrary: t)
  case (Cons p cs)
  show ?case
  proof (cases "t < bw p")
    case False
    then have "pick_walk (p # cs) t = pick_walk cs (t - bw p)" by simp
    with Cons.IH [of "t - bw p"] False show ?thesis
      by (simp only: list.map sum_list.Cons) linarith
  qed simp
qed simp

lemma pick_walk_weight:
  "card {t. t < sum_list (map bw cs) \<and> pick_walk cs t = Some q} = count_list cs q * bw q"
proof (induction cs)
  case (Cons p cs)
  let ?n = "sum_list (map bw cs)"
  let ?A = "{t. t < bw p \<and> p = q}" and ?C = "{t. t < ?n \<and> pick_walk cs t = Some q}"
  let ?B = "(+) (bw p) ` ?C"
  have "t \<in> ?A \<union> ?B" if "t < bw p + ?n" "pick_walk (p # cs) t = Some q" for t
  proof (cases "t < bw p")
    case False
    then have "t = bw p + (t - bw p)" "t - bw p \<in> ?C" using that by auto
    then show ?thesis by blast
  qed (use that in simp)
  moreover have "t < bw p + ?n \<and> pick_walk (p # cs) t = Some q" if "t \<in> ?A \<union> ?B" for t
    using that by fastforce
  ultimately have eq: "{t. t < sum_list (map bw (p # cs)) \<and> pick_walk (p # cs) t = Some q} = ?A \<union> ?B"
    unfolding list.map sum_list.Cons by blast
  have "card (?A \<union> ?B) = card ?A + card ?B"
    by (rule card_Un_disjoint) auto
  also have "card ?B = count_list cs q * bw q"
    using Cons by (subst card_image) simp_all
  finally show ?case unfolding eq by simp
qed simp

lemma weighted_random_pick_in:
  assumes "gen_ok gen" "weighted_random_pick gen r cs = (Some p, r')"
  shows "p \<in> set cs"
proof -
  have ne: "cs \<noteq> []" using assms(2) by (auto simp: weighted_random_pick_def)
  then have "fst (gen r (length cs)) < length cs" using assms(1) by (simp add: gen_ok_def)
  with ne assms(2) show ?thesis
    by (auto simp: weighted_random_pick_def Let_def split: if_splits prod.splits option.splits
        dest: pick_walk_in)
qed

lemma weighted_random_pick_None_iff: "fst (weighted_random_pick gen r cs) = None \<longleftrightarrow> cs = []"
  by (auto simp: weighted_random_pick_def Let_def split: prod.splits option.splits)

lemma weighted_random_pick_target:
  assumes "gen_ok gen" "0 < sum_list (map bw cs)"
  shows "fst (weighted_random_pick gen r cs) = pick_walk cs (fst (gen r (sum_list (map bw cs))))"
proof -
  have "cs \<noteq> []" using assms(2) by auto
  moreover have "fst (gen r (sum_list (map bw cs))) < sum_list (map bw cs)"
    using assms by (simp add: gen_ok_def)
  then have "pick_walk cs (fst (gen r (sum_list (map bw cs)))) \<noteq> None"
    using pick_walk_None_iff [of cs] by (metis not_le)
  ultimately show ?thesis
    using assms(2)
    by (auto simp: weighted_random_pick_def Let_def simp del: sum_list_eq_0_iff split: prod.splits)
qed

subsection \<open>What a selected path satisfies\<close>

definition diverse :: "peer_entry \<Rightarrow> peer_entry \<Rightarrow> bool" where
  "diverse p q \<longleftrightarrow> pe_node_id_hex p \<noteq> pe_node_id_hex q
     \<and> subnet_key (pe_host p) \<noteq> subnet_key (pe_host q)
     \<and> \<not> same_family (pe_family p) (pe_family q)"

definition usable :: "consensus_document \<Rightarrow> string list \<Rightarrow> position_kind \<Rightarrow> peer_entry \<Rightarrow> bool" where
  "usable c excluded pos p \<longleftrightarrow> p \<in> set (cd_peers c) \<and> serves pos p \<and> pe_node_id_hex p \<notin> set excluded"

lemma eligible_iff [simp]:
  "p \<in> set (eligible_for_position c pos) \<longleftrightarrow> p \<in> set (cd_peers c) \<and> serves pos p"
  by (simp add: eligible_for_position_def)

lemma exit_candidates_iff:
  "p \<in> set (exit_candidates c ex g) \<longleftrightarrow> usable c ex PosExit p \<and> diverse p g"
  by (auto simp: exit_candidates_def usable_def diverse_def)

lemma middle_candidates_iff:
  "p \<in> set (middle_candidates c ex g e) \<longleftrightarrow> usable c ex PosMiddle p \<and> diverse p g \<and> diverse p e"
  by (auto simp: middle_candidates_def usable_def diverse_def)



text \<open>When selection fails, some position has no candidate.\<close>

lemma select_path_fails:
  assumes "select_path gen r c ex pin = (Inl err, r')" "gen_ok gen"
  shows "pin = None \<and> (\<forall>p. \<not> usable c ex PosGuard p)
    \<or> (\<exists>g. \<forall>p. \<not> (usable c ex PosExit p \<and> diverse p g))
    \<or> (\<exists>g e. usable c ex PosExit e \<and> diverse e g
         \<and> (\<forall>p. \<not> (usable c ex PosMiddle p \<and> diverse p g \<and> diverse p e)))"
proof (cases "select_guard gen r c ex pin")
  case (Pair sg r1)
  show ?thesis
  proof (cases sg)
    case (Inl x)
    with Pair have pin: "pin = None"
      and w: "fst (weighted_random_pick gen r
        (filter (\<lambda>p. pe_node_id_hex p \<notin> set ex) (eligible_for_position c PosGuard))) = None"
      by (auto simp: select_guard_def Let_def split: option.splits prod.splits)
    from w have "filter (\<lambda>p. pe_node_id_hex p \<notin> set ex) (eligible_for_position c PosGuard) = []"
      by (simp only: weighted_random_pick_None_iff)
    then have "\<forall>p. \<not> usable c ex PosGuard p"
      by (auto simp: usable_def eligible_for_position_def filter_empty_conv)
    with pin show ?thesis by blast
  next
    case (Inr g)
    consider (noexit) "fst (weighted_random_pick gen r1 (exit_candidates c ex g)) = None"
      | (nomid) e r2 where "weighted_random_pick gen r1 (exit_candidates c ex g) = (Some e, r2)"
          "fst (weighted_random_pick gen r2 (middle_candidates c ex g e)) = None"
      using assms(1) Pair Inr by (auto simp: select_path_def split: prod.splits option.splits)
    then show ?thesis
    proof cases
      case noexit
      then have "exit_candidates c ex g = []" by (simp only: weighted_random_pick_None_iff)
      then show ?thesis by (metis exit_candidates_iff empty_iff list.set(1))
    next
      case (nomid e r2)
      from nomid(2) have "middle_candidates c ex g e = []" by (simp only: weighted_random_pick_None_iff)
      moreover have "usable c ex PosExit e \<and> diverse e g"
        using weighted_random_pick_in [OF assms(2) nomid(1)] by (simp add: exit_candidates_iff)
      ultimately show ?thesis by (metis middle_candidates_iff empty_iff list.set(1))
    qed
  qed
qed


subsection \<open>Properties\<close>

definition sample_relay_entry :: "char \<Rightarrow> ipv4 \<Rightarrow> u32 \<Rightarrow> peer_entry" where
  "sample_relay_entry c a w = \<lparr> pe_node_id_hex = [c], pe_host = show_ipv4 a, pe_port = 7700,
     pe_static_pub_hex = [], pe_flags = 63, pe_bandwidth_kbs = w, pe_exit_policy_summary = [], pe_family = [] \<rparr>"

lemma sample_relay_entry_fields [simp]:
  "pe_node_id_hex (sample_relay_entry c a w) = [c]" "pe_host (sample_relay_entry c a w) = show_ipv4 a"
  "pe_family (sample_relay_entry c a w) = []" "bw (sample_relay_entry c a w) = unat w"
  "serves pos (sample_relay_entry c a w) \<longleftrightarrow> 0 < w"
  by (cases pos; simp add: sample_relay_entry_def bw_def serves_def required_flags_def)+


definition low_gen :: "nat rng" where
  "low_gen r n = (0, Suc r)"

lemma low_gen_ok [simp]: "gen_ok low_gen"
  by (simp add: gen_ok_def low_gen_def)









lemma count_list_once: "distinct xs \<Longrightarrow> x \<in> set xs \<Longrightarrow> count_list xs x = 1"
  by (induction xs) (auto simp: count_list_0_iff)

text \<open>the pick is proportional to bandwidth: when \<open>gen_range\<close> draws a target below the total, the
  relay returned is the one the walk finds at that target, and exactly \<open>bandwidth\<close> targets lead to
  each listed relay.\<close>

theorem pick_proportional:
  assumes "gen_ok gen" "0 < sum_list (map bw cs)" "distinct cs" "p \<in> set cs"
  shows "fst (weighted_random_pick gen r cs) = pick_walk cs (fst (gen r (sum_list (map bw cs))))
    \<and> card {t. t < sum_list (map bw cs) \<and> pick_walk cs t = Some p} = bw p"
  using weighted_random_pick_target [OF assms(1,2)] pick_walk_weight [of cs p] assms(3,4)
    count_list_once [OF assms(3,4)]
  by simp

theorem pick_proportional_witness:
  "card {t. t < 12 \<and> pick_walk [sample_relay_entry CHR ''a'' (Ipv4 10 0 0 1) 5,
      sample_relay_entry CHR ''b'' (Ipv4 10 1 0 1) 7] t = Some (sample_relay_entry CHR ''b'' (Ipv4 10 1 0 1) 7)} = 7"
  using pick_proportional [OF low_gen_ok, of "[sample_relay_entry CHR ''a'' (Ipv4 10 0 0 1) 5,
      sample_relay_entry CHR ''b'' (Ipv4 10 1 0 1) 7]" "sample_relay_entry CHR ''b'' (Ipv4 10 1 0 1) 7"]
  by (simp add: sample_relay_entry_def bw_def)

end
