(* ===== verification/Guards.thy ===== *)
theory Guards
  imports Prelude
begin

section \<open>Guards, vanguards and the guard sample\<close>

text \<open>
  phinet-core/src/guards.rs, vanguards.rs and guard_sample.rs: the bounded relay sets that
  limit how many relays ever see a client. Unix times are \<open>nat\<close> (the code only
  subtracts them, saturating), the clock is an argument, and the files the sets are saved to
  are not modelled. The locale \<open>bounded_pool\<close> is the contract the guard set and the
  vanguard set share.
\<close>

text \<open>\<open>iter_mut().find(p)\<close> followed by an assignment: the first match is updated.\<close>

fun update_first :: "('a \<Rightarrow> bool) \<Rightarrow> ('a \<Rightarrow> 'a) \<Rightarrow> 'a list \<Rightarrow> 'a list" where
  "update_first p f [] = []"
| "update_first p f (x # xs) = (if p x then f x # xs else x # update_first p f xs)"

lemma length_update_first [simp]: "length (update_first p f xs) = length xs"
  by (induction xs) auto

lemma map_update_first: "(\<And>x. k (f x) = k x) \<Longrightarrow> map k (update_first p f xs) = map k xs"
  by (induction xs) auto

lemma update_first_keeps:
  "x \<in> set xs \<Longrightarrow> x \<in> set (update_first p f xs) \<or> f x \<in> set (update_first p f xs)"
  by (induction xs) auto

lemma update_first_set: "y \<in> set (update_first p f xs) \<Longrightarrow> y \<in> set xs \<or> (\<exists>x \<in> set xs. y = f x \<and> p x)"
  by (induction xs) (auto split: if_splits)

subsection \<open>The contract of a bounded set of relays\<close>

locale bounded_pool =
  fixes key :: "'e \<Rightarrow> string"
    and stale :: "'e \<Rightarrow> nat \<Rightarrow> bool"
    and cap :: nat
    and add :: "'e \<Rightarrow> nat \<Rightarrow> 'e list \<Rightarrow> bool \<times> 'e list"
  assumes add_present: "key e \<in> key ` set es \<Longrightarrow> add e now es = (False, es)"
    and add_full: "key e \<notin> key ` set es \<Longrightarrow> cap \<le> length (filter (\<lambda>x. \<not> stale x now) es)
      \<Longrightarrow> add e now es = (False, filter (\<lambda>x. \<not> stale x now) es)"
    and add_room: "key e \<notin> key ` set es \<Longrightarrow> length (filter (\<lambda>x. \<not> stale x now) es) < cap
      \<Longrightarrow> add e now es = (True, filter (\<lambda>x. \<not> stale x now) es @ [e])"
begin

definition pool_wf :: "'e list \<Rightarrow> bool" where
  "pool_wf es \<longleftrightarrow> distinct (map key es) \<and> length es \<le> cap"

lemma add_cases:
  obtains "add e now es = (False, es)" "key e \<in> key ` set es"
  | "add e now es = (False, filter (\<lambda>x. \<not> stale x now) es)" "key e \<notin> key ` set es"
  | "add e now es = (True, filter (\<lambda>x. \<not> stale x now) es @ [e])" "key e \<notin> key ` set es"
      "length (filter (\<lambda>x. \<not> stale x now) es) < cap"
  using add_present add_full add_room by (metis not_le)

lemma filter_wf: "pool_wf es \<Longrightarrow> pool_wf (filter p es)"
  by (auto simp: pool_wf_def distinct_map inj_on_def intro: le_trans [OF length_filter_le])

lemma add_wf: "pool_wf es \<Longrightarrow> pool_wf (snd (add e now es))"
proof (cases rule: add_cases [of e now es])
  case 3
  assume wf: "pool_wf es"
  have "pool_wf (filter (\<lambda>x. \<not> stale x now) es)" by (rule filter_wf [OF wf])
  with 3 show ?thesis by (auto simp: pool_wf_def)
qed (simp_all add: filter_wf)

lemma update_wf: "(\<And>x. key (f x) = key x) \<Longrightarrow> pool_wf es \<Longrightarrow> pool_wf (update_first p f es)"
  by (simp add: pool_wf_def map_update_first)

text \<open>A newcomer never displaces an entry that is not stale.\<close>

lemma add_keeps: "x \<in> set es \<Longrightarrow> \<not> stale x now \<Longrightarrow> x \<in> set (snd (add e now es))"
  by (cases rule: add_cases [of e now es]) auto

lemma add_adds: "fst (add e now es) \<Longrightarrow> e \<in> set (snd (add e now es))"
  by (cases rule: add_cases [of e now es]) auto

lemma add_subset: "set (snd (add e now es)) \<subseteq> insert e (set es)"
  by (cases rule: add_cases [of e now es]) auto

end

subsection \<open>Guards\<close>

definition MAX_GUARDS :: nat where "MAX_GUARDS = 3"
definition GUARD_LIFETIME :: nat where [simp]: "GUARD_LIFETIME = 60 * 24 * 3600"
definition GUARD_UNREACHABLE_BEFORE_DROP :: nat where
  [simp]: "GUARD_UNREACHABLE_BEFORE_DROP = 24 * 3600"
definition GUARD_RETRY_INTERVAL :: nat where [simp]: "GUARD_RETRY_INTERVAL = 300"

record guard_entry =
  ge_node_id :: string
  ge_host :: string
  ge_port :: u16
  ge_first_seen :: nat
  ge_last_tried :: nat
  ge_last_connected :: nat
  ge_unreachable_since :: "nat option"
  ge_confirmed :: bool

definition should_retire :: "guard_entry \<Rightarrow> nat \<Rightarrow> bool" where
  "should_retire e now \<longleftrightarrow>
     (if GUARD_LIFETIME \<le> now - ge_first_seen e then True
      else case ge_unreachable_since e of
          Some since \<Rightarrow> GUARD_UNREACHABLE_BEFORE_DROP \<le> now - since
        | None \<Rightarrow> False)"

definition should_try :: "guard_entry \<Rightarrow> nat \<Rightarrow> bool" where
  "should_try e now \<longleftrightarrow>
     (if should_retire e now then False
      else if ge_unreachable_since e \<noteq> None then GUARD_RETRY_INTERVAL \<le> now - ge_last_tried e
      else True)"

definition node_id_bytes :: "prims \<Rightarrow> guard_entry \<Rightarrow> bytes result" where
  "node_id_bytes P e =
     (case p_hex_decode P (ge_node_id e) of
        None \<Rightarrow> Inl (Crypto ''guards: bad hex'')
      | Some v \<Rightarrow> if length v \<noteq> 32 then Inl (Crypto ''guards: node_id length'') else Inr v)"

definition is_guard :: "prims \<Rightarrow> bytes \<Rightarrow> guard_entry list \<Rightarrow> bool" where
  "is_guard P node_id g \<longleftrightarrow> (\<exists>e \<in> set g. ge_node_id e = p_hex_encode P node_id)"

definition guard_active_count :: "nat \<Rightarrow> guard_entry list \<Rightarrow> nat" where
  "guard_active_count now g = length (filter (\<lambda>e. \<not> should_retire e now) g)"

definition new_guard :: "string \<Rightarrow> string \<Rightarrow> u16 \<Rightarrow> nat \<Rightarrow> guard_entry" where
  "new_guard hex host port now = \<lparr>ge_node_id = hex, ge_host = host, ge_port = port,
     ge_first_seen = now, ge_last_tried = 0, ge_last_connected = 0,
     ge_unreachable_since = None, ge_confirmed = False\<rparr>"

definition guard_push :: "guard_entry \<Rightarrow> nat \<Rightarrow> guard_entry list \<Rightarrow> bool \<times> guard_entry list" where
  "guard_push e now g =
     (if ge_node_id e \<in> set (map ge_node_id g) then (False, g)
      else let g' = filter (\<lambda>x. \<not> should_retire x now) g in
        if MAX_GUARDS \<le> length g' then (False, g') else (True, g' @ [e]))"

definition guard_add_candidate ::
  "prims \<Rightarrow> bytes \<Rightarrow> string \<Rightarrow> u16 \<Rightarrow> nat \<Rightarrow> guard_entry list \<Rightarrow> bool \<times> guard_entry list" where
  "guard_add_candidate P node_id host port now g =
     guard_push (new_guard (p_hex_encode P node_id) host port now) now g"

definition guard_retain_ids :: "prims \<Rightarrow> bytes list \<Rightarrow> guard_entry list \<Rightarrow> nat \<times> guard_entry list" where
  "guard_retain_ids P keep g =
     (let g' = filter (\<lambda>e. case p_hex_decode P (ge_node_id e) of
                  Some v \<Rightarrow> length v = 32 \<and> v \<in> set keep
                | None \<Rightarrow> False) g
      in (length g - length g', g'))"

definition succeeded :: "nat \<Rightarrow> guard_entry \<Rightarrow> guard_entry" where
  "succeeded now e = e\<lparr>ge_last_tried := now, ge_last_connected := now,
     ge_unreachable_since := None, ge_confirmed := True\<rparr>"

definition guard_mark_success :: "prims \<Rightarrow> bytes \<Rightarrow> nat \<Rightarrow> guard_entry list \<Rightarrow> guard_entry list" where
  "guard_mark_success P node_id now g =
     update_first (\<lambda>e. ge_node_id e = p_hex_encode P node_id) (succeeded now) g"

definition failed :: "nat \<Rightarrow> guard_entry \<Rightarrow> guard_entry" where
  "failed now e = (let e' = e\<lparr>ge_last_tried := now\<rparr> in
     if ge_unreachable_since e' = None then e'\<lparr>ge_unreachable_since := Some now\<rparr> else e')"

definition guard_mark_failure :: "prims \<Rightarrow> bytes \<Rightarrow> nat \<Rightarrow> guard_entry list \<Rightarrow> guard_entry list" where
  "guard_mark_failure P node_id now g =
     update_first (\<lambda>e. ge_node_id e = p_hex_encode P node_id) (failed now) g"

definition guard_prune :: "nat \<Rightarrow> guard_entry list \<Rightarrow> nat \<times> guard_entry list" where
  "guard_prune now g =
     (let g' = filter (\<lambda>e. \<not> should_retire e now) g in (length g - length g', g'))"

interpretation guards: bounded_pool ge_node_id should_retire MAX_GUARDS guard_push
  by unfold_locales (auto simp: guard_push_def Let_def)

datatype guard_event =
    AddCandidate bytes string u16
  | RetainIds "bytes list"
  | MarkSuccess bytes
  | MarkFailure bytes
  | PruneGuards

fun guard_apply :: "prims \<Rightarrow> nat \<times> guard_event \<Rightarrow> guard_entry list \<Rightarrow> guard_entry list" where
  "guard_apply P (now, AddCandidate i h p) g = snd (guard_add_candidate P i h p now g)"
| "guard_apply P (now, RetainIds keep) g = snd (guard_retain_ids P keep g)"
| "guard_apply P (now, MarkSuccess i) g = guard_mark_success P i now g"
| "guard_apply P (now, MarkFailure i) g = guard_mark_failure P i now g"
| "guard_apply P (now, PruneGuards) g = snd (guard_prune now g)"

definition guard_run :: "prims \<Rightarrow> (nat \<times> guard_event) list \<Rightarrow> guard_entry list \<Rightarrow> guard_entry list" where
  "guard_run P evs g = fold (guard_apply P) evs g"

lemma succeeded_key [simp]: "ge_node_id (succeeded now e) = ge_node_id e"
  by (simp add: succeeded_def)

lemma failed_key [simp]: "ge_node_id (failed now e) = ge_node_id e"
  by (simp add: failed_def Let_def)

lemma guard_apply_wf: "guards.pool_wf g \<Longrightarrow> guards.pool_wf (guard_apply P ev g)"
  by (cases "(P, ev, g)" rule: guard_apply.cases)
    (simp_all add: guard_add_candidate_def guard_retain_ids_def guard_mark_success_def
      guard_mark_failure_def guard_prune_def Let_def guards.add_wf guards.filter_wf guards.update_wf)

lemma guard_run_wf: "guards.pool_wf g \<Longrightarrow> guards.pool_wf (guard_run P evs g)"
  unfolding guard_run_def by (induction evs arbitrary: g) (simp_all add: guard_apply_wf)

text \<open>Churn resistance: for a day after it was chosen, no sequence of failures and
  candidates moves a guard out of the set.\<close>

definition young :: "string \<Rightarrow> nat \<Rightarrow> guard_entry list \<Rightarrow> bool" where
  "young k t0 g \<longleftrightarrow> (\<exists>e \<in> set g. ge_node_id e = k \<and> ge_first_seen e = t0
     \<and> (\<forall>s. ge_unreachable_since e = Some s \<longrightarrow> t0 \<le> s))"

lemma young_not_retired:
  assumes "ge_first_seen e = t0" "\<forall>s. ge_unreachable_since e = Some s \<longrightarrow> t0 \<le> s"
    "t0 \<le> now" "now < t0 + GUARD_UNREACHABLE_BEFORE_DROP"
  shows "\<not> should_retire e now"
  using assms by (auto simp: should_retire_def split: option.splits)

fun no_retain :: "guard_event \<Rightarrow> bool" where
  "no_retain (RetainIds _) = False"
| "no_retain _ = True"

lemma young_apply:
  assumes "young k t0 g" "t0 \<le> now" "now < t0 + GUARD_UNREACHABLE_BEFORE_DROP" "no_retain ev"
  shows "young k t0 (guard_apply P (now, ev) g)"
proof -
  obtain e where e: "e \<in> set g" "ge_node_id e = k" "ge_first_seen e = t0"
    "\<forall>s. ge_unreachable_since e = Some s \<longrightarrow> t0 \<le> s" using assms(1) by (auto simp: young_def)
  note nr = young_not_retired [OF e(3,4) assms(2,3)]
  show ?thesis
  proof (cases ev)
    case (AddCandidate i h p)
    have "e \<in> set (guard_apply P (now, ev) g)"
      unfolding AddCandidate guard_apply.simps guard_add_candidate_def
      by (rule guards.add_keeps [OF e(1) nr])
    with e show ?thesis by (auto simp: young_def)
  next
    case (MarkSuccess i)
    have "e \<in> set (guard_apply P (now, ev) g) \<or> succeeded now e \<in> set (guard_apply P (now, ev) g)"
      unfolding MarkSuccess guard_apply.simps guard_mark_success_def by (rule update_first_keeps [OF e(1)])
    moreover have "ge_node_id (succeeded now e) = k" "ge_first_seen (succeeded now e) = t0"
      "\<forall>s. ge_unreachable_since (succeeded now e) = Some s \<longrightarrow> t0 \<le> s"
      using e by (simp_all add: succeeded_def)
    ultimately show ?thesis using e unfolding young_def by blast
  next
    case (MarkFailure i)
    have "e \<in> set (guard_apply P (now, ev) g) \<or> failed now e \<in> set (guard_apply P (now, ev) g)"
      unfolding MarkFailure guard_apply.simps guard_mark_failure_def by (rule update_first_keeps [OF e(1)])
    moreover have "ge_node_id (failed now e) = k" "ge_first_seen (failed now e) = t0"
      "\<forall>s. ge_unreachable_since (failed now e) = Some s \<longrightarrow> t0 \<le> s"
      using e assms(2) by (auto simp: failed_def Let_def)
    ultimately show ?thesis using e unfolding young_def by blast
  next
    case PruneGuards
    then show ?thesis using e nr unfolding young_def by (auto simp: guard_prune_def Let_def)
  qed (use assms(4) in simp)
qed

lemma guard_run_young:
  assumes "young k t0 g"
    "\<forall>(now, ev) \<in> set evs. t0 \<le> now \<and> now < t0 + GUARD_UNREACHABLE_BEFORE_DROP \<and> no_retain ev"
  shows "young k t0 (guard_run P evs g)"
  using assms unfolding guard_run_def
proof (induction evs arbitrary: g)
  case (Cons x evs)
  obtain now ev where x: "x = (now, ev)" by (cases x)
  have "young k t0 (guard_apply P x g)"
    unfolding x by (rule young_apply) (use Cons.prems x in auto)
  with Cons show ?case by simp
qed simp

subsection \<open>Properties\<close>

text \<open>the guard set always holds at most \<open>MAX_GUARDS\<close> guards with different ids, and for a day
  after a guard was chosen no sequence of connection failures, successes, prunings and new
  candidates removes it, so an attacker who makes guards fail cannot force new draws; only
  \<open>retain_ids\<close> (the consensus dropped the relay) can.\<close>

theorem guards_resist_churn:
  assumes "guards.pool_wf g" "young k t0 g"
    "\<forall>(now, ev) \<in> set evs. t0 \<le> now \<and> now < t0 + GUARD_UNREACHABLE_BEFORE_DROP \<and> no_retain ev"
  shows "distinct (map ge_node_id (guard_run P evs g)) \<and> length (guard_run P evs g) \<le> MAX_GUARDS
    \<and> k \<in> set (map ge_node_id (guard_run P evs g))"
proof -
  have "guards.pool_wf (guard_run P evs g)" by (rule guard_run_wf [OF assms(1)])
  moreover have "young k t0 (guard_run P evs g)" by (rule guard_run_young [OF assms(2,3)])
  ultimately show ?thesis by (auto simp: guards.pool_wf_def young_def)
qed

theorem guards_resist_churn_witness:
  "''a'' \<in> set (map ge_node_id (guard_run toy_prims [(10, MarkFailure (ascii ''a'')), (20, AddCandidate (ascii ''b'') ''h'' 1),
     (3600, PruneGuards)] [new_guard ''a'' ''10.0.0.1'' 7700 5]))"
proof (rule guards_resist_churn [where ?t0.0 = 5, THEN conjunct2, THEN conjunct2])
  have "1 \<le> MAX_GUARDS" by (simp add: MAX_GUARDS_def)
  then show "guards.pool_wf [new_guard ''a'' ''10.0.0.1'' 7700 5]" by (simp add: guards.pool_wf_def)
qed (auto simp: young_def new_guard_def)

end
