(* ===== verification/Vanguards.thy ===== *)
theory Vanguards
  imports Guards
begin

section \<open>Layer-2 vanguards\<close>

text \<open>
  phinet-core/src/vanguards.rs, the second guard layer of hidden-service circuits. Unix
  times are \<open>nat\<close>, the clock is an argument; \<open>persist\<close> (the JSON file) is
  not modelled. The set is a \<open>bounded_pool\<close>.
\<close>

definition MAX_LAYER2 :: nat where "MAX_LAYER2 = 4"
definition LAYER2_LIFETIME :: nat where [simp]: "LAYER2_LIFETIME = 10 * 24 * 60 * 60"
definition LAYER2_MIN_LIFETIME :: nat where [simp]: "LAYER2_MIN_LIFETIME = 24 * 60 * 60"

record vanguard_entry =
  ve_node_id_hex :: string
  ve_host :: string
  ve_port :: u16
  ve_static_pub_hex :: string
  ve_added_at :: nat
  ve_last_used :: nat
  ve_unreachable_since :: nat

definition should_rotate :: "vanguard_entry \<Rightarrow> nat \<Rightarrow> bool" where
  "should_rotate e now \<longleftrightarrow> LAYER2_LIFETIME \<le> now - ve_added_at e"

definition should_remove_unreachable :: "vanguard_entry \<Rightarrow> nat \<Rightarrow> bool" where
  "should_remove_unreachable e now \<longleftrightarrow>
     (if ve_unreachable_since e = 0 then False
      else let age = now - ve_added_at e; unreachable_for = now - ve_unreachable_since e
        in LAYER2_MIN_LIFETIME \<le> age \<and> 3600 \<le> unreachable_for)"

definition dropped :: "vanguard_entry \<Rightarrow> nat \<Rightarrow> bool" where
  "dropped e now \<longleftrightarrow> should_rotate e now \<or> should_remove_unreachable e now"

definition vg_is_active :: "nat \<Rightarrow> vanguard_entry \<Rightarrow> bool" where
  "vg_is_active now e \<longleftrightarrow> \<not> should_rotate e now \<and> ve_unreachable_since e = 0"

definition vg_active_count :: "nat \<Rightarrow> vanguard_entry list \<Rightarrow> nat" where
  "vg_active_count now g = length (filter (vg_is_active now) g)"

definition new_vanguard :: "string \<Rightarrow> string \<Rightarrow> u16 \<Rightarrow> string \<Rightarrow> nat \<Rightarrow> vanguard_entry" where
  "new_vanguard i host port pk now = \<lparr>ve_node_id_hex = i, ve_host = host, ve_port = port,
     ve_static_pub_hex = pk, ve_added_at = now, ve_last_used = 0, ve_unreachable_since = 0\<rparr>"

definition vg_push :: "vanguard_entry \<Rightarrow> nat \<Rightarrow> vanguard_entry list \<Rightarrow> bool \<times> vanguard_entry list" where
  "vg_push e now g =
     (if ve_node_id_hex e \<in> set (map ve_node_id_hex g) then (False, g)
      else let g' = filter (\<lambda>x. \<not> dropped x now) g in
        if MAX_LAYER2 \<le> length g' then (False, g') else (True, g' @ [e]))"

definition vg_add_candidate ::
  "string \<Rightarrow> string \<Rightarrow> u16 \<Rightarrow> string \<Rightarrow> nat \<Rightarrow> vanguard_entry list \<Rightarrow> bool \<times> vanguard_entry list" where
  "vg_add_candidate i host port pk now g = vg_push (new_vanguard i host port pk now) now g"

text \<open>\<open>Iterator::max_by_key\<close> returns the last of the greatest elements.\<close>

fun max_by_key :: "('a \<Rightarrow> nat) \<Rightarrow> 'a list \<Rightarrow> 'a option" where
  "max_by_key f [] = None"
| "max_by_key f (x # xs) = Some (foldl (\<lambda>best y. if f best \<le> f y then y else best) x xs)"

definition pick_layer2 :: "nat \<Rightarrow> vanguard_entry list \<Rightarrow> vanguard_entry option" where
  "pick_layer2 now g =
     (let active = filter (vg_is_active now) g in
      if active = [] then None else max_by_key ve_last_used active)"

definition used :: "nat \<Rightarrow> vanguard_entry \<Rightarrow> vanguard_entry" where
  "used now e = e\<lparr>ve_last_used := now, ve_unreachable_since := 0\<rparr>"

definition vg_mark_used :: "string \<Rightarrow> nat \<Rightarrow> vanguard_entry list \<Rightarrow> vanguard_entry list" where
  "vg_mark_used i now g = update_first (\<lambda>e. ve_node_id_hex e = i) (used now) g"

definition unreached :: "nat \<Rightarrow> vanguard_entry \<Rightarrow> vanguard_entry" where
  "unreached now e = e\<lparr>ve_unreachable_since := now\<rparr>"

definition vg_mark_unreachable :: "string \<Rightarrow> nat \<Rightarrow> vanguard_entry list \<Rightarrow> vanguard_entry list" where
  "vg_mark_unreachable i now g =
     update_first (\<lambda>e. ve_node_id_hex e = i \<and> ve_unreachable_since e = 0) (unreached now) g"

definition vg_maintain :: "nat \<Rightarrow> vanguard_entry list \<Rightarrow> nat \<times> vanguard_entry list" where
  "vg_maintain now g =
     (let g' = filter (\<lambda>e. \<not> should_rotate e now \<and> \<not> should_remove_unreachable e now) g
      in (length g - length g', g'))"

interpretation vanguards: bounded_pool ve_node_id_hex dropped MAX_LAYER2 vg_push
  by unfold_locales (auto simp: vg_push_def Let_def)

subsection \<open>Runs\<close>

datatype vg_event =
    VgAdd string string u16 string
  | VgUsed string
  | VgUnreachable string
  | VgMaintain

fun vg_apply :: "nat \<times> vg_event \<Rightarrow> vanguard_entry list \<Rightarrow> vanguard_entry list" where
  "vg_apply (now, VgAdd i h p k) g = snd (vg_add_candidate i h p k now g)"
| "vg_apply (now, VgUsed i) g = vg_mark_used i now g"
| "vg_apply (now, VgUnreachable i) g = vg_mark_unreachable i now g"
| "vg_apply (now, VgMaintain) g = snd (vg_maintain now g)"

definition vg_run :: "(nat \<times> vg_event) list \<Rightarrow> vanguard_entry list \<Rightarrow> vanguard_entry list" where
  "vg_run evs g = fold vg_apply evs g"

lemma used_fields [simp]:
  "ve_node_id_hex (used now e) = ve_node_id_hex e" "ve_added_at (used now e) = ve_added_at e"
  by (simp_all add: used_def)

lemma unreached_fields [simp]:
  "ve_node_id_hex (unreached now e) = ve_node_id_hex e" "ve_added_at (unreached now e) = ve_added_at e"
  by (simp_all add: unreached_def)

lemma vg_apply_wf: "vanguards.pool_wf g \<Longrightarrow> vanguards.pool_wf (vg_apply ev g)"
  by (cases "(ev, g)" rule: vg_apply.cases)
    (simp_all add: vg_add_candidate_def vg_mark_used_def vg_mark_unreachable_def vg_maintain_def
      Let_def vanguards.add_wf vanguards.filter_wf vanguards.update_wf)

lemma vg_run_wf: "vanguards.pool_wf g \<Longrightarrow> vanguards.pool_wf (vg_run evs g)"
  unfolding vg_run_def by (induction evs arbitrary: g) (simp_all add: vg_apply_wf)

text \<open>Anti-churn: an entry stays for \<open>LAYER2_MIN_LIFETIME\<close> whatever is reported about it.\<close>

definition holds :: "string \<Rightarrow> nat \<Rightarrow> vanguard_entry list \<Rightarrow> bool" where
  "holds k t0 g \<longleftrightarrow> (\<exists>e \<in> set g. ve_node_id_hex e = k \<and> ve_added_at e = t0)"

lemma holds_update:
  assumes "holds k t0 g" "\<And>e. ve_node_id_hex (f e) = ve_node_id_hex e" "\<And>e. ve_added_at (f e) = ve_added_at e"
  shows "holds k t0 (update_first p f g)"
  using assms update_first_keeps [of _ g p f] unfolding holds_def by metis

lemma holds_apply:
  assumes "holds k t0 g" "now < t0 + LAYER2_MIN_LIFETIME"
  shows "holds k t0 (vg_apply (now, ev) g)"
proof -
  obtain e where e: "e \<in> set g" "ve_node_id_hex e = k" "ve_added_at e = t0"
    using assms(1) by (auto simp: holds_def)
  have nd: "\<not> dropped e now"
    using e(3) assms(2)
    by (auto simp: dropped_def should_rotate_def should_remove_unreachable_def Let_def)
  show ?thesis
  proof (cases ev)
    case (VgAdd i h p pk)
    with vanguards.add_keeps [OF e(1) nd] e show ?thesis by (auto simp: holds_def vg_add_candidate_def)
  next
    case VgMaintain
    with nd e show ?thesis by (auto simp: holds_def vg_maintain_def dropped_def Let_def)
  qed (simp_all add: vg_mark_used_def vg_mark_unreachable_def holds_update assms(1))
qed

lemma vg_run_holds:
  assumes "holds k t0 g" "\<forall>(now, ev) \<in> set evs. now < t0 + LAYER2_MIN_LIFETIME"
  shows "holds k t0 (vg_run evs g)"
  using assms unfolding vg_run_def
proof (induction evs arbitrary: g)
  case (Cons x evs)
  obtain now ev where x: "x = (now, ev)" by (cases x)
  have "holds k t0 (vg_apply x g)"
    unfolding x by (rule holds_apply) (use Cons.prems x in auto)
  with Cons show ?case by simp
qed simp

subsection \<open>The pick\<close>

lemma max_by_key_foldl:
  "let m = foldl (\<lambda>best y. if f best \<le> f y then y else best) x xs
   in m \<in> set (x # xs) \<and> (\<forall>y \<in> set (x # xs). f y \<le> (f m :: nat))"
proof (induction xs arbitrary: x)
  case (Cons y xs)
  show ?case using Cons [of "if f x \<le> f y then y else x"] by (auto simp: Let_def split: if_splits)
qed simp

lemma max_by_key_Some:
  "max_by_key f xs = Some m \<Longrightarrow> m \<in> set xs \<and> (\<forall>y \<in> set xs. f y \<le> f m)"
  using max_by_key_foldl [of f "hd xs" "tl xs"] by (cases xs) (auto simp: Let_def)

lemma pick_layer2_Some:
  assumes "pick_layer2 now g = Some e"
  shows "e \<in> set g \<and> vg_is_active now e
    \<and> (\<forall>x \<in> set g. vg_is_active now x \<longrightarrow> ve_last_used x \<le> ve_last_used e)"
proof -
  have "max_by_key ve_last_used (filter (vg_is_active now) g) = Some e"
    using assms by (simp add: pick_layer2_def Let_def split: if_splits)
  from max_by_key_Some [OF this] show ?thesis by simp
qed

lemma pick_layer2_None_iff: "pick_layer2 now g = None \<longleftrightarrow> vg_active_count now g = 0"
  by (cases "filter (vg_is_active now) g") (simp_all add: pick_layer2_def vg_active_count_def)

text \<open>Among vanguards never used the pick is the last one.\<close>

lemma pick_layer2_unused:
  assumes "\<forall>e \<in> set g. vg_is_active now e \<and> ve_last_used e = 0" "g \<noteq> []"
  shows "pick_layer2 now g = Some (last g)"
proof -
  have f: "foldl (\<lambda>best y. if ve_last_used best \<le> ve_last_used y then y else best) x xs = last (x # xs)"
    if "\<forall>e \<in> set (x # xs). ve_last_used e = 0" for x and xs :: "vanguard_entry list"
    using that by (induction xs arbitrary: x) auto
  have "filter (vg_is_active now) g = g" using assms(1) by simp
  then show ?thesis using assms f by (cases g) (simp_all add: pick_layer2_def)
qed

subsection \<open>Properties\<close>

text \<open>the vanguard set always holds at most \<open>MAX_LAYER2\<close> relays with different ids, and an
  entry stays for \<open>LAYER2_MIN_LIFETIME\<close> after it was added whatever is reported about it or
  offered in its place.\<close>

theorem vanguards_resist_churn:
  assumes "vanguards.pool_wf g" "holds k t0 g" "\<forall>(now, ev) \<in> set evs. now < t0 + LAYER2_MIN_LIFETIME"
  shows "distinct (map ve_node_id_hex (vg_run evs g)) \<and> length (vg_run evs g) \<le> MAX_LAYER2
    \<and> k \<in> set (map ve_node_id_hex (vg_run evs g))"
proof -
  have "vanguards.pool_wf (vg_run evs g)" by (rule vg_run_wf [OF assms(1)])
  moreover have "holds k t0 (vg_run evs g)" by (rule vg_run_holds [OF assms(2,3)])
  ultimately show ?thesis by (auto simp: vanguards.pool_wf_def holds_def)
qed

theorem vanguards_resist_churn_witness:
  "''a'' \<in> set (map ve_node_id_hex (vg_run [(10, VgUnreachable ''a''), (4000, VgMaintain)]
     [new_vanguard ''a'' ''10.0.0.1'' 7700 ''k'' 5]))"
proof (rule vanguards_resist_churn [where ?t0.0 = 5, THEN conjunct2, THEN conjunct2])
  have "1 \<le> MAX_LAYER2" by (simp add: MAX_LAYER2_def)
  then show "vanguards.pool_wf [new_vanguard ''a'' ''10.0.0.1'' 7700 ''k'' 5]" by (simp add: vanguards.pool_wf_def)
qed (auto simp: holds_def new_vanguard_def)

text \<open>\<open>pick_layer2\<close> returns an active vanguard that was used most recently among the active
  ones, and none exactly when no vanguard is active.\<close>

theorem pick_layer2_spec:
  "(case pick_layer2 now g of
     Some e \<Rightarrow> e \<in> set g \<and> vg_is_active now e
       \<and> list_all (\<lambda>x. vg_is_active now x \<longrightarrow> ve_last_used x \<le> ve_last_used e) g
   | None \<Rightarrow> vg_active_count now g = 0)"
  using pick_layer2_Some [of now g] pick_layer2_None_iff [of now g]
  by (auto simp: list_all_iff split: option.split)

theorem pick_layer2_spec_witness:
  "pick_layer2 10 [new_vanguard ''a'' ''h'' 1 ''k'' 5] = Some (new_vanguard ''a'' ''h'' 1 ''k'' 5)"
  using pick_layer2_spec [of 10 "[new_vanguard ''a'' ''h'' 1 ''k'' 5]"]
  by (simp add: pick_layer2_def vg_is_active_def new_vanguard_def should_rotate_def)

end
