(* ===== verification/GuardSample.thy ===== *)
theory GuardSample
  imports Guards "HOL-Library.Multiset"
begin

section \<open>The sampled guard set\<close>

text \<open>
  phinet-core/src/guard_sample.rs: the bounded draw of relays a client is ever willing to use
  as guards. \<open>shuffle\<close> is an argument, a permutation chosen by the random generator.
\<close>

definition SAMPLE_SIZE :: nat where "SAMPLE_SIZE = 20"
definition MIN_FILTERED :: nat where "MIN_FILTERED = 5"
definition SAMPLE_LIFETIME_SECS :: nat where [simp]: "SAMPLE_LIFETIME_SECS = 120 * 24 * 3600"
definition PRIMARY_COUNT :: nat where "PRIMARY_COUNT = 3"

record sampled_guard =
  sg_node_id_hex :: string
  sg_added :: nat
  sg_confirmed_at :: "nat option"

type_synonym sampled_set = "sampled_guard list"
type_synonym shuffle = "string list \<Rightarrow> string list"

definition sg_is_expired :: "sampled_guard \<Rightarrow> nat \<Rightarrow> bool" where
  "sg_is_expired g now \<longleftrightarrow> SAMPLE_LIFETIME_SECS < now - sg_added g"

definition sg_is_confirmed :: "sampled_guard \<Rightarrow> bool" where
  "sg_is_confirmed g \<longleftrightarrow> sg_confirmed_at g \<noteq> None"

definition ss_contains :: "sampled_set \<Rightarrow> string \<Rightarrow> bool" where
  "ss_contains s i \<longleftrightarrow> i \<in> set (map sg_node_id_hex s)"

definition ss_expire :: "nat \<Rightarrow> sampled_set \<Rightarrow> sampled_set" where
  "ss_expire now s = filter (\<lambda>g. \<not> sg_is_expired g now) s"

definition ss_filtered :: "sampled_set \<Rightarrow> string list \<Rightarrow> sampled_guard list" where
  "ss_filtered s live = filter (\<lambda>g. sg_node_id_hex g \<in> set live) s"

definition new_sample :: "nat \<Rightarrow> string \<Rightarrow> sampled_guard" where
  "new_sample now c = \<lparr>sg_node_id_hex = c, sg_added = now, sg_confirmed_at = None\<rparr>"

definition maybe_extend ::
  "shuffle \<Rightarrow> string list \<Rightarrow> string list \<Rightarrow> nat \<Rightarrow> sampled_set \<Rightarrow> nat \<times> sampled_set" where
  "maybe_extend shuffle candidates live now s =
     (let s1 = ss_expire now s in
      if MIN_FILTERED \<le> length (ss_filtered s1 live) \<and> s1 \<noteq> [] then (0, s1)
      else let pool = filter (\<lambda>c. \<not> ss_contains s1 c) candidates in
        if pool = [] then (0, s1)
        else let want = SAMPLE_SIZE - length s1;
                 new = map (new_sample now) (take want (shuffle pool))
             in (length new, s1 @ new))"

definition confirmed_now :: "nat \<Rightarrow> sampled_guard \<Rightarrow> sampled_guard" where
  "confirmed_now now g = (if sg_confirmed_at g = None then g\<lparr>sg_confirmed_at := Some now\<rparr> else g)"

definition ss_confirm :: "string \<Rightarrow> nat \<Rightarrow> sampled_set \<Rightarrow> sampled_set" where
  "ss_confirm i now s = update_first (\<lambda>g. sg_node_id_hex g = i) (confirmed_now now) s"

text \<open>\<open>u64::MAX\<close> is the key of an entry without a confirmation time; the sort is stable.\<close>

definition confirm_key :: "sampled_guard \<Rightarrow> nat" where
  "confirm_key g = (case sg_confirmed_at g of Some t \<Rightarrow> t | None \<Rightarrow> 2 ^ 64 - 1)"

definition primary_order :: "sampled_set \<Rightarrow> string list \<Rightarrow> sampled_guard list" where
  "primary_order s live =
     sort_key confirm_key (filter sg_is_confirmed (ss_filtered s live))
     @ filter (\<lambda>g. \<not> sg_is_confirmed g) (ss_filtered s live)"

definition ss_primary :: "sampled_set \<Rightarrow> string list \<Rightarrow> string list" where
  "ss_primary s live = take PRIMARY_COUNT (map sg_node_id_hex (primary_order s live))"

subsection \<open>The bound on draws\<close>

definition shuffle_ok :: "shuffle \<Rightarrow> bool" where
  "shuffle_ok f \<longleftrightarrow> (\<forall>xs. mset (f xs) = mset xs)"

lemma shuffle_set: "shuffle_ok f \<Longrightarrow> set (f xs) = set xs"
  unfolding shuffle_ok_def by (metis set_mset_mset)

definition ss_ids :: "sampled_set \<Rightarrow> string list" where
  "ss_ids s = map sg_node_id_hex s"

definition sample_wf :: "sampled_set \<Rightarrow> bool" where
  "sample_wf s \<longleftrightarrow> length s \<le> SAMPLE_SIZE"

lemma ss_expire_wf: "sample_wf s \<Longrightarrow> sample_wf (ss_expire now s)"
  unfolding sample_wf_def ss_expire_def by (rule le_trans [OF length_filter_le])

lemma maybe_extend_wf: "sample_wf s \<Longrightarrow> sample_wf (snd (maybe_extend f cs live now s))"
  using ss_expire_wf [of s now] by (auto simp: sample_wf_def maybe_extend_def Let_def)

lemma ss_confirm_ids [simp]: "ss_ids (ss_confirm i now s) = ss_ids s"
  by (simp add: ss_ids_def ss_confirm_def map_update_first confirmed_now_def)

text \<open>Enough usable guards: nothing is drawn, whatever the consensus offers.\<close>

lemma maybe_extend_enough:
  assumes "MIN_FILTERED \<le> length (ss_filtered (ss_expire now s) live)"
  shows "maybe_extend f cs live now s = (0, ss_expire now s)"
  using assms by (auto simp: maybe_extend_def ss_filtered_def Let_def MIN_FILTERED_def)

lemma maybe_extend_count:
  "length (snd (maybe_extend f cs live now s)) = length (ss_expire now s) + fst (maybe_extend f cs live now s)"
  by (simp add: maybe_extend_def Let_def)

text \<open>New entries are eligible relays that were not sampled, added now.\<close>

lemma maybe_extend_new:
  assumes "shuffle_ok f" "g \<in> set (snd (maybe_extend f cs live now s))" "g \<notin> set s"
  shows "sg_node_id_hex g \<in> set cs \<and> sg_node_id_hex g \<notin> set (ss_ids (ss_expire now s))
    \<and> sg_added g = now"
proof -
  let ?pool = "filter (\<lambda>c. \<not> ss_contains (ss_expire now s) c) cs"
  have "\<exists>c \<in> set (f ?pool). g = new_sample now c"
    using assms(2,3)
    by (auto simp: maybe_extend_def Let_def ss_expire_def split: if_splits dest: in_set_takeD)
  then obtain c where "c \<in> set ?pool" "g = new_sample now c" using shuffle_set [OF assms(1)] by metis
  then show ?thesis by (auto simp: new_sample_def ss_contains_def ss_ids_def)
qed

datatype sample_event = Extend shuffle "string list" "string list" | Confirm string

fun sample_apply :: "nat \<times> sample_event \<Rightarrow> sampled_set \<Rightarrow> sampled_set" where
  "sample_apply (now, Extend f cs live) s = snd (maybe_extend f cs live now s)"
| "sample_apply (now, Confirm i) s = ss_confirm i now s"

definition sample_run :: "(nat \<times> sample_event) list \<Rightarrow> sampled_set \<Rightarrow> sampled_set" where
  "sample_run evs s = fold sample_apply evs s"

lemma sample_apply_wf: "sample_wf s \<Longrightarrow> sample_wf (sample_apply ev s)"
  by (cases "(ev, s)" rule: sample_apply.cases)
    (simp_all add: maybe_extend_wf, simp add: sample_wf_def ss_confirm_def)

lemma sample_run_wf: "sample_wf s \<Longrightarrow> sample_wf (sample_run evs s)"
  unfolding sample_run_def by (induction evs arbitrary: s) (simp_all add: sample_apply_wf)

text \<open>Within one lifetime the sample only grows, so no more than \<open>SAMPLE_SIZE\<close>
  relays are ever drawn.\<close>

definition fresh_since :: "nat \<Rightarrow> sampled_set \<Rightarrow> bool" where
  "fresh_since t0 s \<longleftrightarrow> (\<forall>g \<in> set s. t0 \<le> sg_added g)"

lemma expire_fresh: "fresh_since t0 s \<Longrightarrow> now \<le> t0 + SAMPLE_LIFETIME_SECS \<Longrightarrow> ss_expire now s = s"
  by (fastforce simp: ss_expire_def fresh_since_def sg_is_expired_def filter_id_conv)

lemma confirmed_now_added [simp]: "sg_added (confirmed_now now g) = sg_added g"
  by (simp add: confirmed_now_def)

lemma sample_apply_grows:
  assumes "fresh_since t0 s" "t0 \<le> now" "now \<le> t0 + SAMPLE_LIFETIME_SECS"
  shows "fresh_since t0 (sample_apply (now, ev) s)
    \<and> set (ss_ids s) \<subseteq> set (ss_ids (sample_apply (now, ev) s))"
proof (cases ev)
  case (Extend f cs live)
  note e = expire_fresh [OF assms(1,3)]
  have "fresh_since t0 (map (new_sample now) xs)" for xs
    using assms(2) by (simp add: fresh_since_def new_sample_def)
  with Extend assms(1) e show ?thesis
    by (auto simp: maybe_extend_def Let_def ss_ids_def fresh_since_def)
next
  case (Confirm i)
  have "fresh_since t0 (ss_confirm i now s)"
    unfolding fresh_since_def ss_confirm_def
  proof
    fix g assume "g \<in> set (update_first (\<lambda>g. sg_node_id_hex g = i) (confirmed_now now) s)"
    with assms(1) show "t0 \<le> sg_added g"
      by (auto dest!: update_first_set simp: fresh_since_def)
  qed
  with Confirm show ?thesis by simp
qed

lemma sample_run_grows:
  assumes "fresh_since t0 s" "\<forall>(now, ev) \<in> set evs. t0 \<le> now \<and> now \<le> t0 + SAMPLE_LIFETIME_SECS"
  shows "fresh_since t0 (sample_run evs s) \<and> set (ss_ids s) \<subseteq> set (ss_ids (sample_run evs s))"
  using assms unfolding sample_run_def
proof (induction evs arbitrary: s)
  case (Cons x evs)
  obtain now ev where x: "x = (now, ev)" by (cases x)
  have "fresh_since t0 (sample_apply x s) \<and> set (ss_ids s) \<subseteq> set (ss_ids (sample_apply x s))"
    unfolding x by (rule sample_apply_grows) (use Cons.prems x in auto)
  with Cons.IH [of "sample_apply x s"] Cons.prems show ?case by auto
qed simp

lemma primary_in_sample: "set (ss_primary s live) \<subseteq> set (ss_ids s) \<inter> set live"
  by (auto simp: ss_primary_def primary_order_def ss_filtered_def ss_ids_def dest!: in_set_takeD)

lemma sample_draw_bound:
  assumes "\<forall>(now, ev) \<in> set (evs @ evs'). t0 \<le> now \<and> now \<le> t0 + SAMPLE_LIFETIME_SECS"
  shows "set (ss_primary (sample_run evs []) live) \<subseteq> set (ss_ids (sample_run (evs @ evs') []))
    \<and> length (ss_ids (sample_run (evs @ evs') [])) \<le> SAMPLE_SIZE"
proof -
  have f: "fresh_since t0 []" by (simp add: fresh_since_def)
  have "fresh_since t0 (sample_run evs [])" using sample_run_grows [OF f, of evs] assms by auto
  from sample_run_grows [OF this, of evs'] assms
  have "set (ss_ids (sample_run evs [])) \<subseteq> set (ss_ids (sample_run (evs @ evs') []))"
    by (auto simp: sample_run_def)
  moreover have "sample_wf (sample_run (evs @ evs') [])"
    by (rule sample_run_wf) (simp add: sample_wf_def)
  ultimately show ?thesis
    using primary_in_sample [of "sample_run evs []" live] by (auto simp: sample_wf_def ss_ids_def)
qed

subsection \<open>Preference order\<close>

lemma primary_order_confirmed_first:
  assumes "i < j" "j < length (primary_order s live)" "sg_is_confirmed (primary_order s live ! j)"
  shows "sg_is_confirmed (primary_order s live ! i)
    \<and> confirm_key (primary_order s live ! i) \<le> confirm_key (primary_order s live ! j)"
proof -
  define cs where "cs = sort_key confirm_key (filter sg_is_confirmed (ss_filtered s live))"
  define us where "us = filter (\<lambda>g. \<not> sg_is_confirmed g) (ss_filtered s live)"
  have po: "primary_order s live = cs @ us" by (simp add: primary_order_def cs_def us_def)
  have j: "j < length cs"
  proof (rule ccontr)
    assume "\<not> j < length cs"
    then have "(cs @ us) ! j \<in> set us" using assms(2) po by (simp add: nth_append)
    with assms(3) po show False by (simp add: us_def)
  qed
  have "sorted (map confirm_key cs)" unfolding cs_def by (rule sorted_sort_key)
  from sorted_nth_mono [OF this, of i j] j assms(1) have "confirm_key (cs ! i) \<le> confirm_key (cs ! j)"
    by simp
  moreover have "sg_is_confirmed (cs ! i)"
    using nth_mem [of i cs] j assms(1) by (auto simp: cs_def)
  ultimately show ?thesis using j assms(1) po by (simp add: nth_append)
qed

subsection \<open>Properties\<close>

text \<open>within one sample lifetime of its start the client uses only guards of one set of at most
  \<open>SAMPLE_SIZE\<close> relays: whatever the consensus offers and whichever relays look live, every primary
  guard at any time belongs to the sample reached later, which never exceeds the bound.\<close>

theorem sample_bounds_exposure:
  assumes "\<forall>(now, ev) \<in> set (evs @ evs'). t0 \<le> now \<and> now \<le> t0 + SAMPLE_LIFETIME_SECS"
  shows "set (ss_primary (sample_run evs []) live) \<subseteq> set (ss_ids (sample_run (evs @ evs') []))
    \<and> length (ss_ids (sample_run (evs @ evs') [])) \<le> SAMPLE_SIZE"
  using assms by (rule sample_draw_bound)

theorem sample_bounds_exposure_witness:
  "length (ss_ids (sample_run [(5, Extend (\<lambda>x. x) [''a'', ''b''] [''a'']), (9, Confirm ''a'')] [])) \<le> SAMPLE_SIZE"
  using sample_bounds_exposure [of "[]" "[(5, Extend (\<lambda>x. x) [''a'', ''b''] [''a'']), (9, Confirm ''a'')]" 5] by simp

text \<open>the sample is extended only when fewer than \<open>MIN_FILTERED\<close> sampled guards are usable, and
  then only with eligible relays that are not sampled yet, up to the bound.\<close>

theorem sample_extension_guarded:
  assumes "shuffle_ok f"
  shows "(MIN_FILTERED \<le> length (ss_filtered (ss_expire now s) live) \<longrightarrow>
      maybe_extend f cs live now s = (0, ss_expire now s))
    \<and> (g \<in> set (snd (maybe_extend f cs live now s)) \<and> g \<notin> set s \<longrightarrow>
        sg_node_id_hex g \<in> set cs \<and> sg_node_id_hex g \<notin> set (ss_ids (ss_expire now s)) \<and> sg_added g = now)
    \<and> (length s \<le> SAMPLE_SIZE \<longrightarrow> length (snd (maybe_extend f cs live now s)) \<le> SAMPLE_SIZE)"
  using maybe_extend_enough [of now s live f cs] maybe_extend_new [OF assms, of g cs live now s]
    maybe_extend_wf [of s f cs live now]
  by (auto simp: sample_wf_def)

theorem sample_extension_guarded_witness:
  "sg_added (new_sample 7 ''a'') = 7 \<and> new_sample 7 ''a'' \<in> set (snd (maybe_extend rev [''a''] [] 7 []))"
proof -
  have "shuffle_ok rev" by (simp add: shuffle_ok_def)
  moreover have "new_sample 7 ''a'' \<in> set (snd (maybe_extend rev [''a''] [] 7 []))"
    by (simp add: maybe_extend_def ss_expire_def ss_contains_def SAMPLE_SIZE_def)
  ultimately show ?thesis
    using sample_extension_guarded [of rev 7 "[]" "[]" "[''a'']" "new_sample 7 ''a''"] by simp
qed

end
