(* ===== verification/HsdirRing.thy ===== *)
theory HsdirRing
  imports Prelude "HOL-Library.Multiset"
begin

section \<open>The hidden-service directory ring\<close>

text \<open>
  phinet-core/src/hsdir_ring.rs: positions of relays and descriptors on the ring and the
  relays responsible for a descriptor. Arrays of 32 bytes compare lexicographically;
  \<open>partition_point\<close> of a sorted ring is the length of the prefix below the target.
\<close>

definition HSDIR_SPREAD :: nat where [simp]: "HSDIR_SPREAD = 3"
definition HSDIR_REPLICAS :: nat where [simp]: "HSDIR_REPLICAS = 2"

definition hsdir_index :: "prims \<Rightarrow> string \<Rightarrow> u64 \<Rightarrow> string \<Rightarrow> bytes" where
  "hsdir_index P node_id_hex period ring_salt =
     p_sha256 P (ascii ''phinet-hsdir-index-v1'' @ ascii node_id_hex @ to_be period @ ascii ring_salt)"

definition hs_index :: "prims \<Rightarrow> string \<Rightarrow> u8 \<Rightarrow> u64 \<Rightarrow> string \<Rightarrow> bytes" where
  "hs_index P hs_id replica period ring_salt =
     p_sha256 P (ascii ''phinet-hs-index-v1'' @ ascii hs_id @ [replica] @ to_be period @ ascii ring_salt)"

definition ring_of :: "prims \<Rightarrow> string list \<Rightarrow> u64 \<Rightarrow> string \<Rightarrow> (bytes \<times> string) list" where
  "ring_of P relays period ring_salt =
     sort_key fst (map (\<lambda>r. (hsdir_index P r period ring_salt, r)) relays)"

definition partition_point :: "('a \<Rightarrow> bool) \<Rightarrow> 'a list \<Rightarrow> nat" where
  "partition_point p xs = length (takeWhile p xs)"

text \<open>The inner loop over \<open>k\<close>; the flag says the function returned from inside it.\<close>

fun walk_spread ::
  "(bytes \<times> string) list \<Rightarrow> nat \<Rightarrow> nat \<Rightarrow> nat list \<Rightarrow> string list \<Rightarrow> bool \<times> string list" where
  "walk_spread ring cnt start [] out = (False, out)"
| "walk_spread ring cnt start (k # ks) out =
     (let i = snd (ring ! ((start + k) mod length ring));
          out' = (if i \<in> set out then out else out @ [i])
      in if cnt \<le> length out' then (True, out') else walk_spread ring cnt start ks out')"

fun walk_replicas ::
  "(nat \<Rightarrow> bytes) \<Rightarrow> (bytes \<times> string) list \<Rightarrow> nat \<Rightarrow> nat list \<Rightarrow> string list \<Rightarrow> string list" where
  "walk_replicas target ring cnt [] out = out"
| "walk_replicas target ring cnt (r # rs) out =
     (let start = partition_point (\<lambda>(idx, _). idx < target r) ring in
      case walk_spread ring cnt start [0..<HSDIR_SPREAD] out of
        (True, out') \<Rightarrow> out'
      | (False, out') \<Rightarrow> walk_replicas target ring cnt rs out')"

definition responsible_hsdirs :: "prims \<Rightarrow> string \<Rightarrow> string list \<Rightarrow> u64 \<Rightarrow> string \<Rightarrow> string list" where
  "responsible_hsdirs P hs_id relays period ring_salt =
     (if relays = [] then []
      else walk_replicas (\<lambda>r. hs_index P hs_id (of_nat r) period ring_salt)
             (ring_of P relays period ring_salt) (length relays) [0..<HSDIR_REPLICAS] [])"

definition is_responsible :: "prims \<Rightarrow> string \<Rightarrow> string \<Rightarrow> string list \<Rightarrow> u64 \<Rightarrow> string \<Rightarrow> bool" where
  "is_responsible P my hs_id relays period ring_salt \<longleftrightarrow>
     (\<exists>r \<in> set (responsible_hsdirs P hs_id relays period ring_salt). r = my)"

subsection \<open>The ring\<close>

lemma length_ring_of [simp]: "length (ring_of P relays t s) = length relays"
  by (simp add: ring_of_def)

lemma set_ring_of: "set (ring_of P relays t s) = (\<lambda>r. (hsdir_index P r t s, r)) ` set relays"
  by (simp add: ring_of_def)

lemma sorted_ring_of: "sorted (map fst (ring_of P relays t s))"
  by (simp add: ring_of_def)

text \<open>Without colliding positions the ring does not depend on the order of the consensus.\<close>

lemma ring_of_cong:
  assumes "mset relays = mset relays'" "inj_on (\<lambda>r. hsdir_index P r t s) (set relays)"
  shows "ring_of P relays t s = ring_of P relays' t s"
  unfolding ring_of_def
proof (rule sort_key_inj_key_eq)
  let ?m = "\<lambda>r. (hsdir_index P r t s, r)"
  show "mset (map ?m relays) = mset (sort_key fst (map ?m relays'))"
    using assms(1) by simp
  show "inj_on fst (set (map ?m relays))" using assms(2) by (auto simp: inj_on_def)
  show "sorted (map fst (sort_key fst (map ?m relays')))" by (rule sorted_sort_key)
qed

lemma responsible_cong:
  assumes "mset relays = mset relays'" "inj_on (\<lambda>r. hsdir_index P r t s) (set relays)"
  shows "responsible_hsdirs P h relays t s = responsible_hsdirs P h relays' t s"
  using ring_of_cong [OF assms] mset_eq_length [OF assms(1)] assms(1)
  by (auto simp: responsible_hsdirs_def)

subsection \<open>The walk\<close>

lemma walk_spread_props:
  assumes "ring \<noteq> []" "distinct out" "set out \<subseteq> snd ` set ring"
    "walk_spread ring cnt start ks out = (b, out')"
  shows "distinct out' \<and> set out' \<subseteq> snd ` set ring \<and> length out' \<le> length out + length ks
    \<and> (\<exists>zs. out' = out @ zs) \<and> (b \<longrightarrow> cnt \<le> length out')
    \<and> (\<not> b \<and> ks \<noteq> [] \<longrightarrow> length out' < cnt)
    \<and> (\<not> b \<longrightarrow> (\<forall>k \<in> set ks. snd (ring ! ((start + k) mod length ring)) \<in> set out'))"
  using assms
proof (induction ring cnt start ks out rule: walk_spread.induct)
  case (2 ring cnt start k ks out)
  let ?i = "snd (ring ! ((start + k) mod length ring))"
  let ?o = "if ?i \<in> set out then out else out @ [?i]"
  have "?i \<in> snd ` set ring" using 2(2) by simp
  then have o: "distinct ?o" "set ?o \<subseteq> snd ` set ring" "length ?o \<le> length out + 1"
    "\<exists>zs. ?o = out @ zs" "?i \<in> set ?o" using 2(3,4) by auto
  show ?case
  proof (cases "cnt \<le> length ?o")
    case True
    with 2(5) have "b" "out' = ?o" by (auto simp: Let_def)
    with o True show ?thesis by auto
  next
    case False
    with 2(5) have "walk_spread ring cnt start ks ?o = (b, out')" by (simp add: Let_def)
    with 2(1) [OF refl refl False 2(2) o(1,2)]
    have ih: "distinct out'" "set out' \<subseteq> snd ` set ring" "length out' \<le> length ?o + length ks"
      "\<exists>zs. out' = ?o @ zs" "b \<longrightarrow> cnt \<le> length out'" "\<not> b \<and> ks \<noteq> [] \<longrightarrow> length out' < cnt"
      "\<not> b \<longrightarrow> (\<forall>k \<in> set ks. snd (ring ! ((start + k) mod length ring)) \<in> set out')" by blast+
    have "\<not> b \<longrightarrow> length out' < cnt"
    proof (cases ks)
      case Nil
      with \<open>walk_spread ring cnt start ks ?o = (b, out')\<close> False show ?thesis by auto
    qed (use ih(6) in simp)
    moreover obtain zs ws where z: "?o = out @ zs" "out' = ?o @ ws" using o(4) ih(4) by blast
    then have "out' = out @ (zs @ ws)" "?i \<in> set out'" using o(5) by (simp, metis Un_iff set_append)
    ultimately show ?thesis using ih o(3) by auto
  qed
qed auto

lemma walk_replicas_props:
  assumes "ring \<noteq> []" "distinct out" "set out \<subseteq> snd ` set ring"
  shows "distinct (walk_replicas tg ring cnt rs out)
    \<and> (\<exists>zs. walk_replicas tg ring cnt rs out = out @ zs)
    \<and> set (walk_replicas tg ring cnt rs out) \<subseteq> snd ` set ring
    \<and> length (walk_replicas tg ring cnt rs out) \<le> length out + HSDIR_SPREAD * length rs"
  using assms
proof (induction tg ring cnt rs out rule: walk_replicas.induct)
  case (2 tg ring cnt r rs out)
  define start where "start = partition_point (\<lambda>(idx, _). idx < tg r) ring"
  obtain b out' where w: "walk_spread ring cnt start [0..<HSDIR_SPREAD] out = (b, out')" by force
  note p = walk_spread_props [OF 2(2,3,4) w]
  show ?case
  proof (cases b)
    case True
    with p w show ?thesis by (simp add: start_def Let_def)
  next
    case False
    obtain zs where z: "out' = out @ zs" using p by blast
    have eq: "walk_replicas tg ring cnt (r # rs) out = walk_replicas tg ring cnt rs out'"
      using w False by (simp add: start_def Let_def)
    have w2: "(False, out') = walk_spread ring cnt (partition_point (\<lambda>(idx, _). idx < tg r) ring)
        [0..<HSDIR_SPREAD] out" using w False by (simp add: start_def)
    from 2(1) [OF refl w2 refl 2(2)] p show ?thesis unfolding eq z by fastforce
  qed
qed simp

lemma responsible_props:
  "distinct (responsible_hsdirs P h relays t s)
    \<and> set (responsible_hsdirs P h relays t s) \<subseteq> set relays
    \<and> length (responsible_hsdirs P h relays t s) \<le> HSDIR_REPLICAS * HSDIR_SPREAD"
proof (cases "relays = []")
  case False
  then have ne: "ring_of P relays t s \<noteq> []" by (metis length_0_conv length_ring_of)
  have "snd ` set (ring_of P relays t s) = set relays" by (force simp: set_ring_of)
  with walk_replicas_props [OF ne, of "[]" "\<lambda>r. hs_index P h (of_nat r) t s" "length relays"
      "[0..<HSDIR_REPLICAS]"] False
  show ?thesis by (simp add: responsible_hsdirs_def)
qed (simp add: responsible_hsdirs_def)

text \<open>The first relay listed is the clockwise successor of the first replica's position.\<close>

definition ring_successor :: "prims \<Rightarrow> string list \<Rightarrow> u64 \<Rightarrow> string \<Rightarrow> bytes \<Rightarrow> string \<Rightarrow> bool" where
  "ring_successor P relays t s target r \<longleftrightarrow> r \<in> set relays \<and>
     (if \<exists>q \<in> set relays. target \<le> hsdir_index P q t s
      then target \<le> hsdir_index P r t s
        \<and> (\<forall>q \<in> set relays. target \<le> hsdir_index P q t s \<longrightarrow> hsdir_index P r t s \<le> hsdir_index P q t s)
      else \<forall>q \<in> set relays. hsdir_index P r t s \<le> hsdir_index P q t s)"

lemma sorted_partition_point:
  fixes ring :: "('a :: linorder \<times> 'b) list" and target :: 'a
  assumes "sorted (map fst ring)" "ring \<noteq> []"
  defines "m \<equiv> partition_point (\<lambda>(idx, _). idx < target) ring"
  shows "if \<exists>x \<in> set ring. target \<le> fst x
     then m < length ring \<and> target \<le> fst (ring ! m)
       \<and> (\<forall>x \<in> set ring. target \<le> fst x \<longrightarrow> fst (ring ! m) \<le> fst x)
     else m = length ring \<and> (\<forall>x \<in> set ring. fst (ring ! 0) \<le> fst x)"
proof -
  let ?p = "\<lambda>(idx, _). idx < target"
  have mono: "fst (ring ! i) \<le> fst (ring ! j)" if "i \<le> j" "j < length ring" for i j
    using sorted_nth_mono [OF assms(1), of i j] that by simp
  show ?thesis
  proof (cases "\<exists>x \<in> set ring. target \<le> fst x")
    case True
    then have "takeWhile ?p ring \<noteq> ring" by (auto simp: takeWhile_eq_all_conv not_less case_prod_beta' intro!: bexI)
    then have m: "m < length ring"
      unfolding m_def partition_point_def
      by (metis length_takeWhile_le nless_le takeWhile_eq_take take_all)
    then have t: "target \<le> fst (ring ! m)"
      using nth_length_takeWhile [of ?p ring] by (auto simp: m_def partition_point_def case_prod_beta')
    have "fst (ring ! m) \<le> fst x" if x: "x \<in> set ring" "target \<le> fst x" for x
    proof -
      obtain j where j: "j < length ring" "x = ring ! j" using x(1) by (auto simp: in_set_conv_nth)
      have "m \<le> j"
      proof (rule ccontr)
        assume "\<not> m \<le> j"
        then have "j < length (takeWhile ?p ring)" by (simp add: m_def partition_point_def)
        then have "?p (ring ! j)" by (metis nth_mem set_takeWhileD takeWhile_nth)
        with x(2) j show False by (auto simp: case_prod_beta')
      qed
      with mono j show ?thesis by simp
    qed
    with True m t show ?thesis by simp
  next
    case False
    then have "takeWhile ?p ring = ring"
      by (auto simp: takeWhile_eq_all_conv case_prod_beta' not_le)
    then have "m = length ring" unfolding m_def partition_point_def by (rule arg_cong)
    moreover have "fst (ring ! 0) \<le> fst x" if "x \<in> set ring" for x
      using that mono [of 0] by (auto simp: in_set_conv_nth)
    ultimately show ?thesis using False by simp
  qed
qed

lemma ring_successor_nth:
  fixes P :: prims and t :: u64 and s :: string and relays :: "string list" and target :: bytes
  assumes "relays \<noteq> []"
  defines "ring \<equiv> ring_of P relays t s"
  shows "ring_successor P relays t s target
    (snd (ring ! (partition_point (\<lambda>(idx, _). idx < target) ring mod length ring)))"
proof -
  define m where "m = partition_point (\<lambda>(idx, _). idx < target) ring"
  have ne: "ring \<noteq> []" using assms(1) unfolding ring_def by (metis length_0_conv length_ring_of)
  have S: "set ring = (\<lambda>r. (hsdir_index P r t s, r)) ` set relays" by (simp add: ring_def set_ring_of)
  have nth: "snd (ring ! i) \<in> set relays" "fst (ring ! i) = hsdir_index P (snd (ring ! i)) t s"
    if "i < length ring" for i
    using nth_mem [OF that] by (auto simp: S)
  have ex: "(\<exists>x \<in> set ring. target \<le> fst x) \<longleftrightarrow> (\<exists>q \<in> set relays. target \<le> hsdir_index P q t s)"
    by (auto simp: S)
  have sm: "sorted (map fst ring)" by (simp add: ring_def sorted_ring_of)
  note pp = sorted_partition_point [OF sm ne, of target, folded m_def]
  show ?thesis
  proof (cases "\<exists>q \<in> set relays. target \<le> hsdir_index P q t s")
    case True
    with pp ex have m: "m < length ring" "target \<le> fst (ring ! m)"
      "\<forall>x \<in> set ring. target \<le> fst x \<longrightarrow> fst (ring ! m) \<le> fst x" by simp_all
    from m nth [OF m(1)] True show ?thesis
      by (simp add: ring_successor_def m_def [symmetric] S)
  next
    case False
    with pp ex have m: "m = length ring" "\<forall>x \<in> set ring. fst (ring ! 0) \<le> fst x" by simp_all
    from m nth [of 0] ne False show ?thesis
      by (simp add: ring_successor_def m_def [symmetric] S)
  qed
qed

lemma responsible_head:
  assumes "relays \<noteq> []"
  shows "responsible_hsdirs P h relays t s \<noteq> []
    \<and> ring_successor P relays t s (hs_index P h 0 t s) (hd (responsible_hsdirs P h relays t s))"
proof -
  let ?ring = "ring_of P relays t s" and ?n = "length relays"
  define tg where "tg = (\<lambda>r. hs_index P h (of_nat r) t s)"
  define start where "start = partition_point (\<lambda>(idx, _). idx < tg 0) ?ring"
  define i where "i = snd (?ring ! (start mod ?n))"
  have ne: "?ring \<noteq> []" using assms by (metis length_0_conv length_ring_of)
  have "start mod ?n < length ?ring" using assms by simp
  then have iin: "set [i] \<subseteq> snd ` set ?ring" unfolding i_def by simp
  have "\<exists>zs. responsible_hsdirs P h relays t s = [i] @ zs"
  proof (cases "?n \<le> 1")
    case True
    then have "walk_spread ?ring ?n start [0..<HSDIR_SPREAD] [] = (True, [i])"
      by (simp add: upt_rec i_def)
    then show ?thesis using assms by (simp add: responsible_hsdirs_def upt_rec start_def tg_def)
  next
    case False
    then have eq: "walk_spread ?ring ?n start [0..<HSDIR_SPREAD] []
        = walk_spread ?ring ?n start [1, 2] [i]" by (simp add: upt_rec i_def numeral_2_eq_2 Let_def)
    obtain b out where w: "walk_spread ?ring ?n start [1, 2] [i] = (b, out)" by force
    from walk_spread_props [OF ne _ iin w]
    have o: "distinct out" "set out \<subseteq> snd ` set ?ring" "\<exists>zs. out = [i] @ zs" by simp_all
    have "responsible_hsdirs P h relays t s = walk_replicas tg ?ring ?n [0, 1] []"
      using assms by (simp add: responsible_hsdirs_def tg_def upt_rec)
    also have "\<dots> = (if b then out else walk_replicas tg ?ring ?n [1] out)"
      using w eq by (simp add: start_def [symmetric] del: One_nat_def split: bool.split)
    finally show ?thesis using o walk_replicas_props [OF ne o(1,2), of tg ?n "[1]"] by auto
  qed
  moreover have "ring_successor P relays t s (tg 0) i"
    using ring_successor_nth [OF assms, of P t s "tg 0"] by (simp add: i_def start_def)
  ultimately show ?thesis by (auto simp: tg_def)
qed

text \<open>On a network no larger than the spread every relay is responsible.\<close>

lemma mod_shift_surj: "i < n \<Longrightarrow> \<exists>k < n. (start + k) mod n = (i :: nat)"
proof -
  assume i: "i < n"
  have "(start + (i + (n - start mod n)) mod n) mod n = (start mod n + (i + (n - start mod n))) mod n"
    by (simp add: mod_simps)
  also have "start mod n + (i + (n - start mod n)) = i + n"
    using i mod_less_divisor [of n start] by linarith
  finally show ?thesis using i by (intro exI [of _ "(i + (n - start mod n)) mod n"]) simp
qed

lemma responsible_small:
  assumes "distinct relays" "length relays \<le> HSDIR_SPREAD"
  shows "set (responsible_hsdirs P h relays t s) = set relays"
proof (cases "relays = []")
  case False
  let ?ring = "ring_of P relays t s" and ?n = "length relays"
  define tg where "tg = (\<lambda>r. hs_index P h (of_nat r) t s)"
  define start where "start = partition_point (\<lambda>(idx, _). idx < tg 0) ?ring"
  have ne: "?ring \<noteq> []" using False by (metis length_0_conv length_ring_of)
  have sn: "snd ` set ?ring = set relays" by (force simp: set_ring_of)
  obtain b out where w: "walk_spread ?ring ?n start [0..<HSDIR_SPREAD] [] = (b, out)" by force
  have d0: "distinct ([] :: string list)" and s0: "set [] \<subseteq> snd ` set ?ring" by simp_all
  note p = walk_spread_props [OF ne d0 s0 w]
  from p have dst: "distinct out" and big: "b \<longrightarrow> ?n \<le> length out" by blast+
  from p have sub0: "set out \<subseteq> set relays" unfolding sn by blast
  have "[0..<HSDIR_SPREAD] \<noteq> []" by (simp add: upt_rec)
  with p have less: "\<not> b \<longrightarrow> length out < ?n" by blast
  from p have all: "\<not> b \<longrightarrow> (\<forall>k \<in> set [0..<HSDIR_SPREAD]. snd (?ring ! ((start + k) mod ?n)) \<in> set out)"
    unfolding length_ring_of by blast
  have "set relays \<subseteq> set out" if "\<not> b"
  proof
    fix r assume "r \<in> set relays"
    then obtain x where x: "x \<in> set ?ring" "snd x = r" unfolding sn [symmetric] by blast
    then obtain i where i: "i < ?n" "snd (?ring ! i) = r"
      using x(1) [unfolded in_set_conv_nth length_ring_of] by blast
    obtain k where k: "k < ?n" "(start + k) mod ?n = i" using mod_shift_surj [OF i(1)] by blast
    have "k \<in> set [0..<HSDIR_SPREAD]" using k(1) assms(2) by simp
    with all that k(2) i(2) show "r \<in> set out" by blast
  qed
  then have "?n \<le> card (set out)" if "\<not> b"
    using that distinct_card [OF assms(1)] card_mono [of "set out" "set relays"] by simp
  then have sub: "?n \<le> length out" if "\<not> b"
    using that card_length [of out] le_trans by blast
  have b: "b"
  proof (rule ccontr)
    assume nb: "\<not> b"
    with less have "length out < ?n" by blast
    with sub [OF nb] show False by simp
  qed
  have out: "set out = set relays"
  proof (rule card_seteq)
    show "set out \<subseteq> set relays" by (rule sub0)
    show "card (set relays) \<le> card (set out)"
      using b big distinct_card [OF assms(1)] distinct_card [OF dst] by simp
  qed simp
  have "responsible_hsdirs P h relays t s = walk_replicas tg ?ring ?n [0, 1] []"
    using False by (simp add: responsible_hsdirs_def tg_def upt_rec)
  also have "\<dots> = out"
    using w b unfolding walk_replicas.simps Let_def start_def [symmetric] by simp
  finally show ?thesis using out by simp
qed (simp add: responsible_hsdirs_def)

subsection \<open>Properties\<close>

text \<open>the relays responsible for a descriptor are different relays of the consensus, at most
  \<open>HSDIR_REPLICAS * HSDIR_SPREAD\<close> and never none; the first is the clockwise successor of the
  descriptor's position, and on a network no larger than the spread all relays are responsible.\<close>

theorem responsible_relays_spec:
  assumes "relays \<noteq> []"
  shows "distinct (responsible_hsdirs P h relays t s) \<and> set (responsible_hsdirs P h relays t s) \<subseteq> set relays
    \<and> length (responsible_hsdirs P h relays t s) \<le> HSDIR_REPLICAS * HSDIR_SPREAD
    \<and> responsible_hsdirs P h relays t s \<noteq> []
    \<and> ring_successor P relays t s (hs_index P h 0 t s) (hd (responsible_hsdirs P h relays t s))
    \<and> (distinct relays \<and> length relays \<le> HSDIR_SPREAD \<longrightarrow>
        set (responsible_hsdirs P h relays t s) = set relays)"
  using responsible_props [of P h relays t s] responsible_head [OF assms, of P h t s]
    responsible_small [of relays P h t s]
  by blast

theorem responsible_relays_spec_witness:
  "set (responsible_hsdirs toy_prims ''svc'' [''a'', ''b''] 3 ''salt'') = {''a'', ''b''}"
  using responsible_relays_spec [of "[''a'', ''b'']" toy_prims "''svc''" 3 "''salt''"] by simp

text \<open>a service and a client with the same consensus, in whatever order they hold its relays,
  compute the same responsible relays, provided no two relays collide on the ring.\<close>

theorem responsible_relays_agree:
  assumes "mset relays = mset relays'" "inj_on (\<lambda>r. hsdir_index P r t s) (set relays)"
  shows "responsible_hsdirs P h relays t s = responsible_hsdirs P h relays' t s"
  using assms by (rule responsible_cong)

theorem responsible_relays_agree_witness:
  "responsible_hsdirs toy_prims ''svc'' [''a'', ''b''] 3 ''salt'' = responsible_hsdirs toy_prims ''svc'' [''b'', ''a''] 3 ''salt''"
proof (rule responsible_relays_agree)
  have f: "foldl (+) x bs = foldl (+) y bs \<longleftrightarrow> x = y" for x y :: u8 and bs
    by (induction bs arbitrary: x y) auto
  have "hsdir_index toy_prims ''a'' 3 ''salt'' \<noteq> hsdir_index toy_prims ''b'' 3 ''salt''"
    by (simp add: hsdir_index_def toy_prims_def ascii_def f)
  then show "inj_on (\<lambda>r. hsdir_index toy_prims r 3 ''salt'') (set [''a'', ''b''])"
    by (auto simp: inj_on_def)
qed simp

end
