(* ===== verification/Dht.thy ===== *)
theory Dht
  imports Prelude
begin

section \<open>The DHT routing table and store\<close>

text \<open>
  phinet-core/src/dht.rs: k-buckets under the XOR metric, the lookup of the closest peers and
  the expiring key-value store. A bucket is the list of its queue, oldest first. The
  certificate of a peer and the stored values (JSON) stay abstract; times are the argument
  \<open>now\<close>, in milliseconds.
\<close>

definition DHT_K :: nat where [simp]: "DHT_K = 8"
definition NODE_ID_BITS :: nat where [simp]: "NODE_ID_BITS = 256"
definition DHT_VALUE_TTL :: nat where [simp]: "DHT_VALUE_TTL = 3600 * 1000"

record 'c peer_info =
  pi_node_id :: bytes
  pi_host :: string
  pi_port :: u16
  pi_cert :: 'c
  pi_static_pub :: string

type_synonym 'c kbucket = "'c peer_info list"

definition id_position :: "bytes \<Rightarrow> 'c kbucket \<Rightarrow> nat option" where
  "id_position i nodes = position (\<lambda>p. pi_node_id p = i) nodes"

definition kbucket_add :: "'c peer_info \<Rightarrow> 'c kbucket \<Rightarrow> 'c kbucket" where
  "kbucket_add peer nodes =
     (let n1 = (case id_position (pi_node_id peer) nodes of
                  Some pos \<Rightarrow> remove_at pos nodes
                | None \<Rightarrow> nodes);
          n2 = (if DHT_K \<le> length n1 then tl n1 else n1)
      in n2 @ [peer])"

definition kbucket_remove :: "bytes \<Rightarrow> 'c kbucket \<Rightarrow> bool \<times> 'c kbucket" where
  "kbucket_remove i nodes =
     (case id_position i nodes of
        Some pos \<Rightarrow> (True, remove_at pos nodes)
      | None \<Rightarrow> (False, nodes))"

record 'c routing_table =
  rt_own_id :: bytes
  rt_buckets :: "'c kbucket list"

definition rt_new :: "bytes \<Rightarrow> 'c routing_table" where
  "rt_new own = \<lparr>rt_own_id = own, rt_buckets = replicate NODE_ID_BITS []\<rparr>"

definition xor_dist :: "bytes \<Rightarrow> bytes \<Rightarrow> bytes" where
  "xor_dist a b = map2 (XOR) a b"

definition leading_zeros :: "u8 \<Rightarrow> nat" where
  "leading_zeros b = length (takeWhile (\<lambda>i. \<not> bit b i) [7, 6, 5, 4, 3, 2, 1, 0])"

fun first_set :: "nat \<Rightarrow> bytes \<Rightarrow> nat option" where
  "first_set i [] = None"
| "first_set i (b # bs) = (if b \<noteq> 0 then Some (i * 8 + leading_zeros b) else first_set (Suc i) bs)"

definition bucket_idx :: "bytes \<Rightarrow> bytes \<Rightarrow> nat" where
  "bucket_idx own i =
     (case first_set 0 (xor_dist own i) of
        Some z \<Rightarrow> NODE_ID_BITS - 1 - z
      | None \<Rightarrow> NODE_ID_BITS - 1)"

definition add_peer :: "'c peer_info \<Rightarrow> 'c routing_table \<Rightarrow> 'c routing_table" where
  "add_peer peer t =
     (if pi_node_id peer = rt_own_id t then t
      else let idx = bucket_idx (rt_own_id t) (pi_node_id peer) in
        t\<lparr>rt_buckets := (rt_buckets t)[idx := kbucket_add peer (rt_buckets t ! idx)]\<rparr>)"

definition remove_peer :: "bytes \<Rightarrow> 'c routing_table \<Rightarrow> bool \<times> 'c routing_table" where
  "remove_peer i t =
     (if i = rt_own_id t then (False, t)
      else let idx = bucket_idx (rt_own_id t) i;
               (r, b) = kbucket_remove i (rt_buckets t ! idx)
           in (r, t\<lparr>rt_buckets := (rt_buckets t)[idx := b]\<rparr>))"

definition all_peers :: "'c routing_table \<Rightarrow> 'c peer_info list" where
  "all_peers t = concat (rt_buckets t)"

definition closest :: "bytes \<Rightarrow> nat \<Rightarrow> 'c routing_table \<Rightarrow> 'c peer_info list" where
  "closest target k t = take k (sort_key (\<lambda>p. xor_dist target (pi_node_id p)) (all_peers t))"

definition peer_count :: "'c routing_table \<Rightarrow> nat" where
  "peer_count t = sum_list (map length (rt_buckets t))"

subsection \<open>The value store\<close>

type_synonym 'v dht_store = "(string, 'v \<times> nat) hmap"

definition store_put :: "string \<Rightarrow> 'v \<Rightarrow> nat \<Rightarrow> 'v dht_store \<Rightarrow> 'v dht_store" where
  "store_put key v now s = hm_insert key (v, now) s"

definition store_get :: "string \<Rightarrow> nat \<Rightarrow> 'v dht_store \<Rightarrow> 'v option" where
  "store_get key now s =
     (case hm_get s key of
        None \<Rightarrow> None
      | Some (v, stored) \<Rightarrow> if now - stored < DHT_VALUE_TTL then Some v else None)"

definition store_keys :: "'v dht_store \<Rightarrow> string list" where
  "store_keys s = hm_keys s"

definition store_evict_expired :: "nat \<Rightarrow> 'v dht_store \<Rightarrow> 'v dht_store" where
  "store_evict_expired now s = hm_retain (\<lambda>_ e. now - snd e < DHT_VALUE_TTL) s"

text \<open>\<open>serde_json::to_value\<close> and \<open>from_value\<close> on descriptors are arguments.\<close>

definition put_hs :: "('d \<Rightarrow> 'v) \<Rightarrow> string \<Rightarrow> 'd \<Rightarrow> nat \<Rightarrow> 'v dht_store \<Rightarrow> 'v dht_store" where
  "put_hs to_value hs_id desc now s = store_put (''hs:'' @ hs_id) (to_value desc) now s"

definition get_hs :: "('v \<Rightarrow> 'd option) \<Rightarrow> string \<Rightarrow> nat \<Rightarrow> 'v dht_store \<Rightarrow> 'd option" where
  "get_hs from_value hs_id now s =
     (case store_get (''hs:'' @ hs_id) now s of None \<Rightarrow> None | Some v \<Rightarrow> from_value v)"

subsection \<open>The bucket index is the length of the distance\<close>

definition be_nat :: "bytes \<Rightarrow> nat" where
  "be_nat bs = foldl (\<lambda>a b. a * 256 + unat b) 0 bs"

lemma be_nat_append: "foldl (\<lambda>a b. a * 256 + unat b) acc bs = acc * 256 ^ length bs + be_nat bs"
  for bs :: bytes
proof (induction bs arbitrary: acc)
  case (Cons b bs)
  show ?case
    using Cons [of "acc * 256 + unat b"] Cons [of "unat b"] by (simp add: be_nat_def algebra_simps)
qed (simp add: be_nat_def)

lemma be_nat_Cons: "be_nat (b # bs) = unat b * 256 ^ length bs + be_nat bs"
  using be_nat_append [of "unat b" bs] by (simp add: be_nat_def)

lemma step_up: "x * m + m \<le> y * m" if "x < y" for x y m :: nat
proof -
  have "(x + 1) * m \<le> y * m" using that by (intro mult_right_mono) auto
  then show ?thesis by (metis add_mult_distrib mult_1)
qed

lemma be_nat_less: "be_nat bs < 256 ^ length bs"
proof (induction bs)
  case (Cons b bs)
  have "unat b < 256" using unsigned_less [of b, where ?'a = nat] by simp
  from step_up [OF this, of "256 ^ length bs"] Cons show ?case
    unfolding be_nat_Cons list.size(4) add_Suc_right add_0_right power_Suc by linarith
qed (simp add: be_nat_def)

lemma leading_zeros_table:
  "list_all (\<lambda>n. leading_zeros (of_nat n) \<le> 7 \<and> 2 ^ (7 - leading_zeros (of_nat n)) \<le> n
     \<and> n < 2 ^ (8 - leading_zeros (of_nat n))) [1..<256]"
  by code_simp

lemma leading_zeros_bounds:
  assumes "b \<noteq> 0"
  shows "leading_zeros b \<le> 7" "2 ^ (7 - leading_zeros b) \<le> unat b" "unat b < 2 ^ (8 - leading_zeros b)"
proof -
  have "unat b < 256" using unsigned_less [of b, where ?'a = nat] by simp
  moreover have "0 < unat b" using assms by (simp add: unat_gt_0)
  ultimately have "unat b \<in> set [1..<256]" by simp
  with leading_zeros_table
  have "leading_zeros (of_nat (unat b)) \<le> 7 \<and> 2 ^ (7 - leading_zeros (of_nat (unat b))) \<le> unat b
     \<and> unat b < 2 ^ (8 - leading_zeros (of_nat (unat b)))"
    unfolding list_all_iff by blast
  then show "leading_zeros b \<le> 7" "2 ^ (7 - leading_zeros b) \<le> unat b" "unat b < 2 ^ (8 - leading_zeros b)"
    by simp_all
qed

lemma first_set_spec:
  "case first_set i bs of
     None \<Rightarrow> be_nat bs = 0
   | Some z \<Rightarrow> i * 8 \<le> z \<and> z < (i + length bs) * 8
       \<and> 2 ^ ((i + length bs) * 8 - 1 - z) \<le> be_nat bs
       \<and> be_nat bs < 2 ^ ((i + length bs) * 8 - z)"
proof (induction bs arbitrary: i)
  case (Cons b bs)
  show ?case
  proof (cases "b = 0")
    case True
    with Cons [of "Suc i"] show ?thesis by (auto simp: be_nat_Cons split: option.splits)
  next
    case False
    define L where "L = leading_zeros b"
    define n where "n = length bs"
    note b = leading_zeros_bounds [OF False, folded L_def]
    have e1: "(i + length (b # bs)) * 8 - 1 - (i * 8 + L) = n * 8 + (7 - L)"
      and e2: "(i + length (b # bs)) * 8 - (i * 8 + L) = n * 8 + (8 - L)"
      using b(1) by (simp_all add: n_def)
    have p: "(256 :: nat) ^ n = 2 ^ (n * 8)" by (simp add: power_mult mult.commute [of n 8])
    have lo: "2 ^ (n * 8 + (7 - L)) \<le> be_nat (b # bs)"
      using mult_right_mono [OF b(2) zero_le, of "256 ^ n"]
      by (simp only: be_nat_Cons n_def [symmetric] p power_add mult.commute [of "2 ^ (n * 8)"])
    have hi: "be_nat (b # bs) < 2 ^ (n * 8 + (8 - L))"
      using step_up [OF b(3), of "256 ^ n"] be_nat_less [of bs]
      by (simp only: be_nat_Cons n_def [symmetric] p power_add mult.commute [of "2 ^ (n * 8)"])
    have "first_set i (b # bs) = Some (i * 8 + L)" using False by (simp add: L_def)
    moreover have "i * 8 + L < (i + length (b # bs)) * 8" using b(1) by simp
    ultimately show ?thesis using lo hi unfolding e1 [symmetric] e2 [symmetric] by simp
  qed
qed (simp add: be_nat_def)

lemma length_xor_dist [simp]: "length (xor_dist a b) = min (length a) (length b)"
  by (simp add: xor_dist_def)

lemma bucket_idx_less: "bucket_idx own i < NODE_ID_BITS"
  by (auto simp: bucket_idx_def split: option.split)

lemma word_xor_eq_0: "a XOR b = 0 \<longleftrightarrow> a = b" for a b :: u8
proof
  assume "a XOR b = 0"
  then have "(a XOR b) XOR b = 0 XOR b" by (rule arg_cong)
  then show "a = b" by (simp only: xor.assoc xor_self_eq xor.left_neutral xor.right_neutral)
qed simp

lemma be_nat_eq_0: "be_nat bs = 0 \<longleftrightarrow> (\<forall>b \<in> set bs. b = 0)"
  by (induction bs) (simp_all add: be_nat_Cons unat_eq_zero, simp add: be_nat_def)

lemma xor_dist_zero: "length a = length b \<Longrightarrow> be_nat (xor_dist a b) = 0 \<longleftrightarrow> a = b"
proof (induction a b rule: list_induct2)
  case (Cons x xs y ys)
  then show ?case unfolding be_nat_eq_0 xor_dist_def by (simp add: word_xor_eq_0)
qed (simp add: be_nat_eq_0 xor_dist_def)

lemma bucket_idx_spec:
  assumes "length own = 32" "length i = 32" "own \<noteq> i"
  shows "2 ^ bucket_idx own i \<le> be_nat (xor_dist own i)
    \<and> be_nat (xor_dist own i) < 2 ^ (bucket_idx own i + 1)"
proof (cases "first_set 0 (xor_dist own i)")
  case None
  with first_set_spec [of "xor_dist own i" 0] assms show ?thesis by (simp add: xor_dist_zero)
next
  case (Some z)
  with first_set_spec [of "xor_dist own i" 0] assms
  have s: "z < 256" "2 ^ (255 - z) \<le> be_nat (xor_dist own i)" "be_nat (xor_dist own i) < 2 ^ (256 - z)"
    by simp_all
  have "bucket_idx own i = 255 - z" "256 - z = (255 - z) + 1" using Some s(1) by (simp_all add: bucket_idx_def)
  with s show ?thesis by metis
qed

subsection \<open>The table invariant\<close>

definition bucket_wf :: "bytes \<Rightarrow> nat \<Rightarrow> 'c kbucket \<Rightarrow> bool" where
  "bucket_wf own idx b \<longleftrightarrow> length b \<le> DHT_K \<and> distinct (map pi_node_id b)
     \<and> (\<forall>p \<in> set b. pi_node_id p \<noteq> own \<and> bucket_idx own (pi_node_id p) = idx)"

definition table_wf :: "'c routing_table \<Rightarrow> bool" where
  "table_wf t \<longleftrightarrow> length (rt_buckets t) = NODE_ID_BITS
     \<and> (\<forall>idx < NODE_ID_BITS. bucket_wf (rt_own_id t) idx (rt_buckets t ! idx))"

lemma id_position_Some:
  assumes "id_position i b = Some pos" "distinct (map pi_node_id b)"
  shows "set (remove_at pos b) = {p \<in> set b. pi_node_id p \<noteq> i}
    \<and> Suc (length (remove_at pos b)) = length b \<and> distinct (map pi_node_id (remove_at pos b))"
proof -
  from position_SomeD [OF assms(1) [unfolded id_position_def]]
  have p: "pos < length b" "pi_node_id (b ! pos) = i" by auto
  have d: "distinct (map pi_node_id (remove_at pos b))"
    "pi_node_id (b ! pos) \<notin> pi_node_id ` set (remove_at pos b)"
    using distinct_map_remove_at [OF assms(2) p(1)] by simp_all
  have "b = take pos b @ b ! pos # drop (Suc pos) b" using p(1) by (rule id_take_nth_drop)
  then have "set b = insert (b ! pos) (set (remove_at pos b))"
    by (metis Un_insert_right list.simps(15) remove_at_def set_append)
  then have "set (remove_at pos b) = {p \<in> set b. pi_node_id p \<noteq> i}" using d(2) p(2) by (auto intro: rev_image_eqI)
  with d p length_remove_at [OF p(1)] show ?thesis by simp
qed

lemma id_position_None: "id_position i b = None \<Longrightarrow> {p \<in> set b. pi_node_id p \<noteq> i} = set b"
  by (auto simp: id_position_def position_None_iff)

lemma bucket_drop:
  fixes b :: "'c kbucket" and i :: bytes
  assumes "bucket_wf own idx b"
  defines "b1 \<equiv> (case id_position i b of Some pos \<Rightarrow> remove_at pos b | None \<Rightarrow> b)"
  shows "bucket_wf own idx b1 \<and> set b1 = {p \<in> set b. pi_node_id p \<noteq> i}"
proof -
  have d: "distinct (map pi_node_id b)" using assms(1) by (simp add: bucket_wf_def)
  show ?thesis
  proof (cases "id_position i b")
    case None
    with assms(1) id_position_None [OF None] show ?thesis by (simp add: b1_def)
  next
    case (Some pos)
    from id_position_Some [OF Some d] Some assms(1) show ?thesis by (simp add: b1_def bucket_wf_def)
  qed
qed

lemma kbucket_add_wf:
  assumes "bucket_wf own idx b" "pi_node_id p \<noteq> own" "bucket_idx own (pi_node_id p) = idx"
  shows "bucket_wf own idx (kbucket_add p b) \<and> p \<in> set (kbucket_add p b)
    \<and> set (kbucket_add p b) \<subseteq> insert p {q \<in> set b. pi_node_id q \<noteq> pi_node_id p}
    \<and> (length b < DHT_K \<longrightarrow> set (kbucket_add p b) = insert p {q \<in> set b. pi_node_id q \<noteq> pi_node_id p})"
proof -
  define b1 where "b1 = (case id_position (pi_node_id p) b of Some pos \<Rightarrow> remove_at pos b | None \<Rightarrow> b)"
  define b2 where "b2 = (if DHT_K \<le> length b1 then tl b1 else b1)"
  have k: "kbucket_add p b = b2 @ [p]" by (simp add: kbucket_add_def b1_def b2_def Let_def)
  from bucket_drop [OF assms(1), of "pi_node_id p", folded b1_def]
  have b1: "bucket_wf own idx b1" and s1: "set b1 = {q \<in> set b. pi_node_id q \<noteq> pi_node_id p}" by simp_all
  have s2: "set b2 \<subseteq> set b1" by (cases b1) (auto simp: b2_def)
  have "length b2 < DHT_K" "distinct (map pi_node_id b2)"
    using b1 by (auto simp: bucket_wf_def b2_def map_tl distinct_tl)
  then have wf: "bucket_wf own idx (b2 @ [p])"
    using b1 s1 s2 assms(2,3) by (auto simp: bucket_wf_def)
  have "length b1 \<le> length b"
    using assms(1) id_position_Some [of "pi_node_id p" b]
    by (auto simp: b1_def bucket_wf_def split: option.split)
  then have "length b < DHT_K \<Longrightarrow> set b2 = set b1" by (simp add: b2_def)
  with wf s1 s2 show ?thesis unfolding k by auto
qed

lemma kbucket_remove_wf:
  assumes "bucket_wf own idx b" "kbucket_remove i b = (r, b')"
  shows "bucket_wf own idx b' \<and> set b' = {p \<in> set b. pi_node_id p \<noteq> i}
    \<and> (r \<longleftrightarrow> i \<in> pi_node_id ` set b)"
proof (cases "id_position i b")
  case None
  with assms(2) have "b' = b" "\<not> r" by (simp_all add: kbucket_remove_def)
  moreover have "i \<notin> pi_node_id ` set b"
    using None by (auto simp: id_position_def position_None_iff)
  ultimately show ?thesis using assms(1) id_position_None [OF None] by simp
next
  case (Some pos)
  then have "i \<in> pi_node_id ` set b"
    using position_SomeD [of "\<lambda>p. pi_node_id p = i" b pos] by (auto simp: id_position_def)
  with Some assms bucket_drop [OF assms(1), of i] show ?thesis by (simp add: kbucket_remove_def)
qed

lemma table_wf_new: "table_wf (rt_new own)"
  by (simp add: table_wf_def rt_new_def bucket_wf_def)

lemma all_peers_iff:
  assumes "table_wf t"
  shows "p \<in> set (all_peers t) \<longleftrightarrow>
    pi_node_id p \<noteq> rt_own_id t \<and> p \<in> set (rt_buckets t ! bucket_idx (rt_own_id t) (pi_node_id p))"
proof
  assume "p \<in> set (all_peers t)"
  then obtain idx where "idx < NODE_ID_BITS" "p \<in> set (rt_buckets t ! idx)"
    using assms by (auto simp: all_peers_def table_wf_def in_set_conv_nth [of _ "rt_buckets t"])
  with assms show "pi_node_id p \<noteq> rt_own_id t \<and> p \<in> set (rt_buckets t ! bucket_idx (rt_own_id t) (pi_node_id p))"
    by (auto simp: table_wf_def bucket_wf_def)
next
  assume a: "pi_node_id p \<noteq> rt_own_id t \<and> p \<in> set (rt_buckets t ! bucket_idx (rt_own_id t) (pi_node_id p))"
  have "bucket_idx (rt_own_id t) (pi_node_id p) < length (rt_buckets t)"
    using assms bucket_idx_less [of "rt_own_id t"] by (simp add: table_wf_def)
  with a show "p \<in> set (all_peers t)" unfolding all_peers_def by (auto intro: nth_mem)
qed

lemma add_peer_own [simp]: "rt_own_id (add_peer p t) = rt_own_id t"
  by (simp add: add_peer_def Let_def)

lemma add_peer_wf:
  assumes "table_wf t"
  shows "table_wf (add_peer p t)"
proof (cases "pi_node_id p = rt_own_id t")
  case False
  let ?i = "bucket_idx (rt_own_id t) (pi_node_id p)"
  have i: "?i < NODE_ID_BITS" by (rule bucket_idx_less)
  with assms have "bucket_wf (rt_own_id t) ?i (rt_buckets t ! ?i)" unfolding table_wf_def by blast
  from kbucket_add_wf [OF this False refl] assms i False show ?thesis
    by (auto simp: table_wf_def add_peer_def Let_def nth_list_update)
qed (use assms in \<open>simp add: add_peer_def\<close>)

lemma remove_peer_wf:
  assumes "table_wf t"
  shows "table_wf (snd (remove_peer i t))"
proof (cases "i = rt_own_id t")
  case False
  let ?i = "bucket_idx (rt_own_id t) i"
  obtain r b where kb: "kbucket_remove i (rt_buckets t ! ?i) = (r, b)" by force
  have i: "?i < NODE_ID_BITS" by (rule bucket_idx_less)
  with assms have "bucket_wf (rt_own_id t) ?i (rt_buckets t ! ?i)" unfolding table_wf_def by blast
  from kbucket_remove_wf [OF this kb] assms i False kb show ?thesis
    by (auto simp: table_wf_def remove_peer_def Let_def nth_list_update)
qed (use assms in \<open>simp add: remove_peer_def\<close>)

text \<open>A peer just seen is in the table, and no other peer is displaced from a bucket with room.\<close>

lemma add_peer_peers:
  assumes "table_wf t" "pi_node_id p \<noteq> rt_own_id t"
  shows "p \<in> set (all_peers (add_peer p t))"
    and "set (all_peers (add_peer p t)) \<subseteq> insert p (set (all_peers t))"
    and "\<lbrakk>q \<in> set (all_peers t); pi_node_id q \<noteq> pi_node_id p;
      length (rt_buckets t ! bucket_idx (rt_own_id t) (pi_node_id p)) < DHT_K\<rbrakk>
      \<Longrightarrow> q \<in> set (all_peers (add_peer p t))"
proof -
  let ?i = "bucket_idx (rt_own_id t) (pi_node_id p)"
  have i: "?i < NODE_ID_BITS" by (rule bucket_idx_less)
  then have il: "?i < length (rt_buckets t)" using assms(1) by (simp add: table_wf_def)
  from i assms(1) have "bucket_wf (rt_own_id t) ?i (rt_buckets t ! ?i)" unfolding table_wf_def by blast
  note ka = kbucket_add_wf [OF this assms(2) refl]
  have buckets: "rt_buckets (add_peer p t) ! j =
      (if j = ?i then kbucket_add p (rt_buckets t ! ?i) else rt_buckets t ! j)" for j
    using assms(2) il by (simp add: add_peer_def Let_def nth_list_update)
  have own: "rt_own_id (add_peer p t) = rt_own_id t" by simp
  have new: "q \<in> set (all_peers (add_peer p t)) \<longleftrightarrow> pi_node_id q \<noteq> rt_own_id t
    \<and> q \<in> set (if bucket_idx (rt_own_id t) (pi_node_id q) = ?i then kbucket_add p (rt_buckets t ! ?i)
             else rt_buckets t ! bucket_idx (rt_own_id t) (pi_node_id q))" for q
    using all_peers_iff [OF add_peer_wf [OF assms(1)], of q p] unfolding buckets own .
  show "p \<in> set (all_peers (add_peer p t))" using ka assms(2) unfolding new by simp
  show "set (all_peers (add_peer p t)) \<subseteq> insert p (set (all_peers t))"
  proof
    fix q assume "q \<in> set (all_peers (add_peer p t))"
    then show "q \<in> insert p (set (all_peers t))"
      using ka unfolding new insert_iff all_peers_iff [OF assms(1)]
      by (cases "bucket_idx (rt_own_id t) (pi_node_id q) = ?i") auto
  qed
  show "q \<in> set (all_peers (add_peer p t))" if "q \<in> set (all_peers t)" "pi_node_id q \<noteq> pi_node_id p"
      "length (rt_buckets t ! ?i) < DHT_K"
    using ka that unfolding new all_peers_iff [OF assms(1)]
    by (cases "bucket_idx (rt_own_id t) (pi_node_id q) = ?i") auto
qed

lemma remove_peer_gone:
  assumes "table_wf t"
  shows "i \<notin> pi_node_id ` set (all_peers (snd (remove_peer i t)))"
proof (cases "i = rt_own_id t")
  case True
  then show ?thesis using all_peers_iff [OF assms] by (auto simp: remove_peer_def)
next
  case False
  let ?i = "bucket_idx (rt_own_id t) i"
  obtain r b where kb: "kbucket_remove i (rt_buckets t ! ?i) = (r, b)" by force
  have i: "?i < NODE_ID_BITS" by (rule bucket_idx_less)
  with assms have "bucket_wf (rt_own_id t) ?i (rt_buckets t ! ?i)" unfolding table_wf_def by blast
  note kr = kbucket_remove_wf [OF this kb]
  have "?i < length (rt_buckets t)" using i assms by (simp add: table_wf_def)
  then have bk: "rt_buckets (snd (remove_peer i t)) ! ?i = b" and own: "rt_own_id (snd (remove_peer i t)) = rt_own_id t"
    using kb False by (simp_all add: remove_peer_def Let_def)
  have "q \<notin> set (all_peers (snd (remove_peer i t)))" if "pi_node_id q = i" for q
    using that kr unfolding all_peers_iff [OF remove_peer_wf [OF assms]] own by (simp add: bk)
  then show ?thesis by blast
qed

text \<open>The lookup returns the \<open>k\<close> closest peers, nearest first.\<close>

lemma closest_sorted: "sorted (map (\<lambda>p. xor_dist target (pi_node_id p)) (closest target k t))"
  unfolding closest_def take_map [symmetric] by (rule sorted_wrt_take) (rule sorted_sort_key)

lemma closest_best:
  assumes "p \<in> set (closest target k t)" "q \<in> set (all_peers t)" "q \<notin> set (closest target k t)"
  shows "xor_dist target (pi_node_id p) \<le> xor_dist target (pi_node_id q)"
proof -
  let ?f = "\<lambda>p. xor_dist target (pi_node_id p)"
  define ys where "ys = sort_key ?f (all_peers t)"
  have "sorted (map ?f (take k ys) @ map ?f (drop k ys))"
    unfolding map_append [symmetric] append_take_drop_id ys_def by (rule sorted_sort_key)
  moreover have "q \<in> set (take k ys) \<union> set (drop k ys)"
    using assms(2) unfolding set_append [symmetric] append_take_drop_id by (simp add: ys_def)
  ultimately show ?thesis using assms(1,3) by (auto simp: closest_def ys_def [symmetric] sorted_append)
qed

lemma closest_length: "length (closest target k t) = min k (length (all_peers t))"
  by (simp add: closest_def)

lemma length_all_peers: "length (all_peers t) = peer_count t"
  by (simp add: all_peers_def peer_count_def length_concat)

subsection \<open>The store\<close>

lemma store_get_put:
  "store_get k now' (store_put k' v now s) =
     (if k = k' then if now' - now < DHT_VALUE_TTL then Some v else None else store_get k now' s)"
  by (simp add: store_get_def store_put_def hm_simps)

lemma store_get_evict:
  assumes "hm_wf s" "now \<le> now'"
  shows "store_get k now' (store_evict_expired now s) = store_get k now' s"
  using assms by (auto simp: store_get_def store_evict_expired_def hm_simps split: option.split)

subsection \<open>Properties\<close>

text \<open>adding and removing peers keep the routing table well formed (256 buckets of at most
  \<open>K\<close> peers with different ids, each peer in the bucket of its distance, never the node itself);
  the added peer is in the table, nothing else enters it, and a removed id is gone.\<close>

theorem routing_table_invariant:
  assumes "table_wf t"
  shows "table_wf (add_peer p t) \<and> table_wf (snd (remove_peer i t))
    \<and> (pi_node_id p \<noteq> rt_own_id t \<longrightarrow> p \<in> set (all_peers (add_peer p t))
        \<and> set (all_peers (add_peer p t)) \<subseteq> insert p (set (all_peers t)))
    \<and> i \<notin> pi_node_id ` set (all_peers (snd (remove_peer i t)))"
  using add_peer_wf [OF assms] remove_peer_wf [OF assms] add_peer_peers(1,2) [OF assms]
    remove_peer_gone [OF assms]
  by blast

theorem routing_table_invariant_witness:
  "table_wf (add_peer \<lparr> pi_node_id = replicate 32 1, pi_host = ''h'', pi_port = 1, pi_cert = (), pi_static_pub = [] \<rparr>
     (rt_new (replicate 32 0)))"
  using routing_table_invariant [OF table_wf_new] by blast

text \<open>a peer's bucket index is the position of the highest bit in which its id differs from the
  node's own, that is, the XOR distance lies between \<open>2 ^ idx\<close> and \<open>2 ^ (idx + 1)\<close>.\<close>

theorem bucket_index_is_log_distance:
  assumes "length own = 32" "length i = 32" "own \<noteq> i"
  shows "2 ^ bucket_idx own i \<le> be_nat (xor_dist own i)
    \<and> be_nat (xor_dist own i) < 2 ^ (bucket_idx own i + 1) \<and> bucket_idx own i < NODE_ID_BITS"
  using bucket_idx_spec [OF assms] bucket_idx_less by blast

theorem bucket_index_is_log_distance_witness:
  "bucket_idx (replicate 32 0) (replicate 31 0 @ [5]) < 256"
proof -
  have "last (replicate 32 0) \<noteq> last (replicate 31 0 @ [5 :: u8])" by simp
  then have ne: "replicate 32 0 \<noteq> replicate 31 0 @ [5 :: u8]" by metis
  have l: "length (replicate 32 (0 :: u8)) = 32" "length (replicate 31 0 @ [5 :: u8]) = 32" by simp_all
  from bucket_index_is_log_distance [OF l ne] show ?thesis by simp
qed

text \<open>\<open>closest\<close> returns the \<open>k\<close> peers nearest to the target (all peers if there are fewer),
  nearest first: no peer left out is nearer than one returned.\<close>

theorem closest_peers_spec:
  "sorted (map (\<lambda>p. xor_dist target (pi_node_id p)) (closest target k t))
    \<and> length (closest target k t) = min k (peer_count t)
    \<and> (p \<in> set (closest target k t) \<and> q \<in> set (all_peers t) \<and> q \<notin> set (closest target k t) \<longrightarrow>
        xor_dist target (pi_node_id p) \<le> xor_dist target (pi_node_id q))"
  using closest_sorted closest_best closest_length length_all_peers by metis

theorem closest_peers_spec_witness:
  "length (closest [] 3 (add_peer \<lparr> pi_node_id = replicate 32 1, pi_host = ''h'', pi_port = 1, pi_cert = (), pi_static_pub = [] \<rparr>
     (rt_new (replicate 32 0)))) \<le> 3"
  using closest_peers_spec [of "[]" 3 "add_peer \<lparr> pi_node_id = replicate 32 1, pi_host = ''h'', pi_port = 1,
      pi_cert = (), pi_static_pub = [] \<rparr> (rt_new (replicate 32 0))"] by simp

end
