(* ===== verification/ExitPolicy.thy ===== *)
theory ExitPolicy
  imports StdNet
begin

section \<open>The exit policy\<close>

text \<open>
  phinet-core/src/exit_policy.rs: the checks before and after name resolution and the
  classification of reserved addresses. The lemmas give the classification of IPv4
  addresses as a table of address blocks.
\<close>

definition DEFAULT_BLOCKED_PORTS :: "u16 list" where
  "DEFAULT_BLOCKED_PORTS =
     [22, 25, 465, 587, 110, 143, 993, 995, 3306, 5432, 6379, 11211, 27017, 9200]"

datatype decision = Accept | Reject

record exit_policy =
  ep_blocked_ports :: "u16 list"
  ep_block_private :: bool

definition exit_policy_default :: exit_policy where
  "exit_policy_default = \<lparr>ep_blocked_ports = DEFAULT_BLOCKED_PORTS, ep_block_private = True\<rparr>"

definition exit_policy_permissive :: exit_policy where
  "exit_policy_permissive = \<lparr>ep_blocked_ports = [], ep_block_private = False\<rparr>"

definition is_private_v4 :: "ipv4 \<Rightarrow> bool" where
  "is_private_v4 ip \<longleftrightarrow>
     (if v4_is_loopback ip then True
      else if v4_is_private ip then True
      else if v4_is_link_local ip then True
      else if v4_is_multicast ip then True
      else if v4_is_broadcast ip then True
      else if v4_is_documentation ip then True
      else if v4_is_unspecified ip then True
      else if oct0 ip = 100 \<and> oct1 ip AND 0xC0 = 64 then True
      else if oct0 ip = 198 \<and> (oct1 ip = 18 \<or> oct1 ip = 19) then True
      else if oct0 ip AND 0xF0 = 0xF0 then True
      else False)"

definition embedded_v4 :: "ipv6 \<Rightarrow> ipv4" where
  "embedded_v4 seg = Ipv4 (ucast (drop_bit 8 (seg ! 6))) (ucast (seg ! 6 AND 0xFF))
     (ucast (drop_bit 8 (seg ! 7))) (ucast (seg ! 7 AND 0xFF))"

definition is_private_v6 :: "ipv6 \<Rightarrow> bool" where
  "is_private_v6 seg \<longleftrightarrow>
     (if v6_is_loopback seg then True
      else if v6_is_multicast seg then True
      else if v6_is_unspecified seg then True
      else if seg ! 0 AND 0xFE00 = 0xFC00 then True
      else if seg ! 0 AND 0xFFC0 = 0xFE80 then True
      else if seg ! 0 = 0 \<and> seg ! 1 = 0 \<and> seg ! 2 = 0 \<and> seg ! 3 = 0 \<and> seg ! 4 = 0 \<and> seg ! 5 = 0xFFFF
      then is_private_v4 (embedded_v4 seg)
      else if seg ! 0 = 0x2001 \<and> seg ! 1 = 0x0DB8 then True
      else False)"

fun is_private_ip :: "ip_addr \<Rightarrow> bool" where
  "is_private_ip (V4 v4) = is_private_v4 v4"
| "is_private_ip (V6 v6) = is_private_v6 v6"

text \<open>\<open>str::find\<close> and \<open>str::rsplit_once\<close> for one character.\<close>

fun split_first :: "char \<Rightarrow> string \<Rightarrow> (string \<times> string) option" where
  "split_first c [] = None"
| "split_first c (d # s) =
     (if d = c then Some ([], s)
      else case split_first c s of None \<Rightarrow> None | Some (a, b) \<Rightarrow> Some (d # a, b))"

fun rsplit_once :: "char \<Rightarrow> string \<Rightarrow> (string \<times> string) option" where
  "rsplit_once c [] = None"
| "rsplit_once c (d # s) =
     (case rsplit_once c s of
        Some (a, b) \<Rightarrow> Some (d # a, b)
      | None \<Rightarrow> if d = c then Some ([], s) else None)"

definition split_target :: "string \<Rightarrow> (string \<times> string) option" where
  "split_target target =
     (case target of
        CHR ''['' # rest \<Rightarrow>
          (case split_first CHR '']'' rest of
             None \<Rightarrow> None
           | Some (host, after) \<Rightarrow>
               (case after of CHR '':'' # port_str \<Rightarrow> Some (host, port_str) | _ \<Rightarrow> None))
      | _ \<Rightarrow> rsplit_once CHR '':'' target)"

definition check_pre_resolve :: "exit_policy \<Rightarrow> string \<Rightarrow> decision" where
  "check_pre_resolve p target =
     (case split_target target of
        None \<Rightarrow> Reject
      | Some (host, port_str) \<Rightarrow>
        (case parse_u16 port_str of
           None \<Rightarrow> Reject
         | Some port \<Rightarrow>
             if port \<in> set (ep_blocked_ports p) then Reject
             else
               (case parse_ip host of
                  Some ip \<Rightarrow> if ep_block_private p \<and> is_private_ip ip then Reject else Accept
                | None \<Rightarrow> Accept)))"

definition check_post_resolve :: "exit_policy \<Rightarrow> ip_addr \<Rightarrow> u16 \<Rightarrow> decision" where
  "check_post_resolve p ip port =
     (if port \<in> set (ep_blocked_ports p) then Reject
      else if ep_block_private p \<and> is_private_ip ip then Reject
      else Accept)"

subsection \<open>Reserved IPv4 blocks\<close>

definition v4_nat :: "ipv4 \<Rightarrow> nat" where
  "v4_nat ip = ((unat (oct0 ip) * 256 + unat (oct1 ip)) * 256 + unat (oct2 ip)) * 256 + unat (oct3 ip)"

text \<open>An address block: its network address and prefix length.\<close>

definition in_block :: "ipv4 \<Rightarrow> ipv4 \<times> nat \<Rightarrow> bool" where
  "in_block ip blk = (case blk of (net, len) \<Rightarrow>
     v4_nat ip div 2 ^ (32 - len) = v4_nat net div 2 ^ (32 - len))"

definition reserved_blocks :: "(ipv4 \<times> nat) list" where
  "reserved_blocks =
     [(Ipv4 127 0 0 0, 8), (Ipv4 10 0 0 0, 8), (Ipv4 172 16 0 0, 12), (Ipv4 192 168 0 0, 16),
      (Ipv4 169 254 0 0, 16), (Ipv4 224 0 0 0, 4), (Ipv4 240 0 0 0, 4), (Ipv4 0 0 0 0, 32),
      (Ipv4 192 0 2 0, 24), (Ipv4 198 51 100 0, 24), (Ipv4 203 0 113 0, 24),
      (Ipv4 100 64 0 0, 10), (Ipv4 198 18 0 0, 15)]"

lemma u8_all: "list_all (\<lambda>n. Q (of_nat n :: u8)) [0..<256] \<Longrightarrow> Q b"
proof -
  assume a: "list_all (\<lambda>n. Q (of_nat n :: u8)) [0..<256]"
  have "unat b \<in> set [0..<256]" using unsigned_less [of b, where ?'a = nat] by simp
  with a have "Q (of_nat (unat b))" unfolding list_all_iff by blast
  then show "Q b" by simp
qed

lemma mask_C0: "(b AND 0xC0 = (64 :: u8)) = (64 \<le> b \<and> b \<le> 127)"
  by (rule u8_all [where Q = "\<lambda>b. (b AND 0xC0 = 64) = (64 \<le> b \<and> b \<le> 127)"]) code_simp

lemma mask_F0: "(b AND 0xF0 = (0xF0 :: u8)) = (240 \<le> b)"
  by (rule u8_all [where Q = "\<lambda>b. (b AND 0xF0 = 0xF0) = (240 \<le> b)"]) code_simp

lemma oct_less: "unat (b :: u8) < 256"
  using unsigned_less [of b, where ?'a = nat] by simp

lemma oct_eq: "b = c \<longleftrightarrow> unat b = unat c" for b c :: u8
  by (rule word_unat_eq_iff)

lemma horner_div: "y < 256 \<Longrightarrow> (x * 256 + y) div (256 * m) = x div m" for x y m :: nat
  by (simp add: div_mult2_eq)

lemma v4_nat_split:
  "v4_nat ip div (256 * m) = ((unat (oct0 ip) * 256 + unat (oct1 ip)) * 256 + unat (oct2 ip)) div m"
  "v4_nat ip div (256 * (256 * m)) = (unat (oct0 ip) * 256 + unat (oct1 ip)) div m"
  "v4_nat ip div (256 * (256 * (256 * m))) = unat (oct0 ip) div m"
  unfolding v4_nat_def by (simp_all only: horner_div oct_less)

lemma oct_split:
  "(x * 256 + y) div 64 = x * 4 + y div 64" "(x * 256 + y) div 16 = x * 16 + y div 16"
  "(x * 256 + y) div 2 = x * 128 + y div 2" for x y :: nat
  by presburger+

lemma v4_nat_div:
  "v4_nat ip div 2 ^ 28 = unat (oct0 ip) div 16"
  "v4_nat ip div 2 ^ 24 = unat (oct0 ip)"
  "v4_nat ip div 2 ^ 22 = unat (oct0 ip) * 4 + unat (oct1 ip) div 64"
  "v4_nat ip div 2 ^ 20 = unat (oct0 ip) * 16 + unat (oct1 ip) div 16"
  "v4_nat ip div 2 ^ 17 = unat (oct0 ip) * 128 + unat (oct1 ip) div 2"
  "v4_nat ip div 2 ^ 16 = unat (oct0 ip) * 256 + unat (oct1 ip)"
  "v4_nat ip div 2 ^ 8 = (unat (oct0 ip) * 256 + unat (oct1 ip)) * 256 + unat (oct2 ip)"
proof -
  show "v4_nat ip div 2 ^ 28 = unat (oct0 ip) div 16" using v4_nat_split(3) [of ip 16] by simp
  show "v4_nat ip div 2 ^ 24 = unat (oct0 ip)" using v4_nat_split(3) [of ip 1] by simp
  show "v4_nat ip div 2 ^ 22 = unat (oct0 ip) * 4 + unat (oct1 ip) div 64"
    using v4_nat_split(2) [of ip 64, unfolded oct_split] by simp
  show "v4_nat ip div 2 ^ 20 = unat (oct0 ip) * 16 + unat (oct1 ip) div 16"
    using v4_nat_split(2) [of ip 16, unfolded oct_split] by simp
  show "v4_nat ip div 2 ^ 17 = unat (oct0 ip) * 128 + unat (oct1 ip) div 2"
    using v4_nat_split(2) [of ip 2, unfolded oct_split] by simp
  show "v4_nat ip div 2 ^ 16 = unat (oct0 ip) * 256 + unat (oct1 ip)"
    using v4_nat_split(2) [of ip 1] by simp
  show "v4_nat ip div 2 ^ 8 = (unat (oct0 ip) * 256 + unat (oct1 ip)) * 256 + unat (oct2 ip)"
    using v4_nat_split(1) [of ip 1] by simp
qed

lemma horner_eq: "y < m \<Longrightarrow> x * m + y = n \<longleftrightarrow> x = n div m \<and> y = n mod m" for x y m n :: nat
  by auto

lemma div_is: "0 < m \<Longrightarrow> y div m = q \<longleftrightarrow> q * m \<le> y \<and> y < Suc q * m" for y m q :: nat
  using div_nat_eqI [of m q y] dividend_less_div_times [of m y] div_times_less_eq_dividend [of y m]
  by (auto simp: mult.commute)

lemma is_private_v4_blocks:
  "is_private_v4 ip \<longleftrightarrow> (\<exists>blk \<in> set reserved_blocks. in_block ip blk)"
proof (cases ip)
  case (Ipv4 a b c d)
  have less: "unat a < 256" "unat b < 256" "unat c < 256" "unat d < 256" by (rule oct_less)+
  have blk: "in_block (Ipv4 a b c d) (net, len) \<longleftrightarrow>
      v4_nat (Ipv4 a b c d) div 2 ^ (32 - len) = v4_nat net div 2 ^ (32 - len)" for net len
    by (simp add: in_block_def)
  have blocks: "(\<exists>blk \<in> set reserved_blocks. in_block ip blk) \<longleftrightarrow>
     unat a = 127 \<or> unat a = 10 \<or> (unat a = 172 \<and> 16 \<le> unat b \<and> unat b \<le> 31)
     \<or> (unat a = 192 \<and> unat b = 168) \<or> (unat a = 169 \<and> unat b = 254)
     \<or> (224 \<le> unat a \<and> unat a \<le> 239) \<or> 240 \<le> unat a
     \<or> (unat a = 0 \<and> unat b = 0 \<and> unat c = 0 \<and> unat d = 0)
     \<or> (unat a = 192 \<and> unat b = 0 \<and> unat c = 2) \<or> (unat a = 198 \<and> unat b = 51 \<and> unat c = 100)
     \<or> (unat a = 203 \<and> unat b = 0 \<and> unat c = 113)
     \<or> (unat a = 100 \<and> 64 \<le> unat b \<and> unat b \<le> 127) \<or> (unat a = 198 \<and> (unat b = 18 \<or> unat b = 19))"
  proof -
    have lt: "unat b div 16 < 16" "unat b div 64 < 4" "unat b div 2 < 128" using less(2) by simp_all
    note div1 = div_is [of 16 "unat b" 1] div_is [of 64 "unat b" 1] div_is [of 2 "unat b" 9]
      div_is [of 16 "unat a" 14] div_is [of 16 "unat a" 15]
    have "unat a * 16 + unat b div 16 = 2753 \<longleftrightarrow> unat a = 172 \<and> 16 \<le> unat b \<and> unat b \<le> 31"
      "unat a * 4 + unat b div 64 = 401 \<longleftrightarrow> unat a = 100 \<and> 64 \<le> unat b \<and> unat b \<le> 127"
      "unat a * 128 + unat b div 2 = 25353 \<longleftrightarrow> unat a = 198 \<and> (unat b = 18 \<or> unat b = 19)"
      "unat a div 16 = 14 \<longleftrightarrow> 224 \<le> unat a \<and> unat a \<le> 239"
      "unat a div 16 = 15 \<longleftrightarrow> 240 \<le> unat a"
      "unat a * 256 + unat b = 49320 \<longleftrightarrow> unat a = 192 \<and> unat b = 168"
      "unat a * 256 + unat b = 43518 \<longleftrightarrow> unat a = 169 \<and> unat b = 254"
      using less(1) by (simp_all add: horner_eq lt less div1) linarith+
    moreover have "(unat a * 256 + unat b) * 256 + unat c = n \<longleftrightarrow>
        unat a = n div 256 div 256 \<and> unat b = n div 256 mod 256 \<and> unat c = n mod 256" for n
      using horner_eq [OF less(3), of "unat a * 256 + unat b" n] horner_eq [OF less(2), of "unat a" "n div 256"]
      by blast
    moreover have "v4_nat (Ipv4 a b c d) = v4_nat (Ipv4 0 0 0 0) \<longleftrightarrow>
        unat a = 0 \<and> unat b = 0 \<and> unat c = 0 \<and> unat d = 0"
      by (simp add: v4_nat_def)
    ultimately show ?thesis
      unfolding Ipv4 reserved_blocks_def list.set bex_simps blk
      by (simp add: v4_nat_div less del: power_numeral)
  qed
  have split: "(if P then True else Q) = (P \<or> Q)" for P Q by simp
  show ?thesis unfolding blocks is_private_v4_def mask_C0 mask_F0
    unfolding Ipv4 split ipv4.sel v4_is_loopback.simps v4_is_private.simps
      v4_is_link_local.simps v4_is_multicast.simps v4_is_broadcast.simps v4_is_documentation.simps
      v4_is_unspecified.simps word_le_nat_alt word_unat_eq_iff
    by (simp del: unat_eq_zero, rule iffI; elim disjE conjE; simp)
qed

subsection \<open>Properties\<close>

text \<open>the classification of IPv4 addresses by the code's cascade of range tests is exactly
  membership in a table of thirteen reserved address blocks (loopback, private, link-local,
  multicast, class E, documentation, carrier-grade NAT, benchmarking and the unspecified
  address).\<close>

theorem private_v4_is_reserved_blocks:
  "is_private_v4 ip \<longleftrightarrow> list_ex (in_block ip) reserved_blocks"
  by (simp add: is_private_v4_blocks list_ex_iff)

text \<open>under the default policy, a target that passes the check before resolution has a port that
  is not blocked and, when its host is an address, not a reserved one; a resolved address that
  passes the second check is not reserved either, so a hostname cannot be used to reach one.\<close>

theorem exit_policy_protects:
  assumes "check_pre_resolve exit_policy_default target = Accept"
  shows "\<exists>host port_str port. split_target target = Some (host, port_str) \<and> parse_u16 port_str = Some port
    \<and> port \<notin> set DEFAULT_BLOCKED_PORTS
    \<and> (case parse_ip host of Some ip \<Rightarrow> \<not> is_private_ip ip | None \<Rightarrow> True)
    \<and> (check_post_resolve exit_policy_default ip' port = Accept \<longleftrightarrow> \<not> is_private_ip ip')"
proof -
  let ?p = exit_policy_default
  obtain host port_str where st: "split_target target = Some (host, port_str)"
    using assms by (auto simp: check_pre_resolve_def split: option.splits)
  obtain port where pt: "parse_u16 port_str = Some port"
    using assms st by (auto simp: check_pre_resolve_def split: option.splits)
  have b: "port \<notin> set (ep_blocked_ports ?p)" and ip: "case parse_ip host of Some ip \<Rightarrow> \<not> is_private_ip ip | None \<Rightarrow> True"
    using assms st pt by (auto simp: check_pre_resolve_def exit_policy_default_def split: option.splits if_splits)
  from b have "check_post_resolve ?p ip' port = Accept \<longleftrightarrow> \<not> is_private_ip ip'"
    by (simp add: check_post_resolve_def exit_policy_default_def)
  with st pt b ip show ?thesis by (auto simp: exit_policy_default_def)
qed

theorem exit_policy_protects_witness:
  "\<exists>host port_str. split_target ''8.8.8.8:443'' = Some (host, port_str)"
proof -
  have "split_target ''8.8.8.8:443'' = Some (''8.8.8.8'', ''443'')" by (simp add: split_target_def)
  moreover have "parse_u16 ''443'' = Some 443"
    by (simp add: parse_u16_def parse_uint_def digit_val_def digits_value_def)
  moreover have "''8.8.8.8'' = show_ipv4 (Ipv4 8 8 8 8)"
    by code_simp
  then have "parse_ip ''8.8.8.8'' = Some (V4 (Ipv4 8 8 8 8))" by (simp only: parse_ip_show_v4)
  moreover have "\<not> is_private_ip (V4 (Ipv4 8 8 8 8))" by (simp add: is_private_v4_def)
  ultimately have "check_pre_resolve exit_policy_default ''8.8.8.8:443'' = Accept"
    by (simp add: check_pre_resolve_def exit_policy_default_def DEFAULT_BLOCKED_PORTS_def)
  from exit_policy_protects [OF this] show ?thesis by blast
qed

end
