(* ===== verification/Session.thy ===== *)
theory Session
  imports Prelude
begin

section \<open>Link sessions\<close>

text \<open>
  The encrypted connection between two nodes: the key schedule and AEAD wrappers of
  phinet-core/src/crypto.rs, the session of phinet-core/src/session.rs (two keys, two
  counters, a role), and the fixed-size link cells of phinet-core/src/wire.rs. The connection
  is a byte stream; a reader consumes a prefix of it.

  Shown: two sessions made from the same secret mirror each other, no nonce is reused under a
  key, every frame has the same size whatever it carries, and the connection refines a queue of
  messages: any interleaving of sends and receives delivers exactly the messages sent, in order.
\<close>

subsection \<open>Key derivation and authenticated encryption (crypto.rs)\<close>

definition hkdf_derive :: "prims \<Rightarrow> bytes \<Rightarrow> bytes \<Rightarrow> bytes \<Rightarrow> nat \<Rightarrow> bytes" where
  "hkdf_derive P ikm salt info len = p_hkdf_expand P (p_hkdf_extract P salt ikm) info len"

definition nonce96_ctr :: "u64 \<Rightarrow> bytes" where
  "nonce96_ctr ctr = replicate 4 0 @ to_le ctr"

definition aead_encrypt :: "prims \<Rightarrow> bytes \<Rightarrow> u64 \<Rightarrow> bytes \<Rightarrow> bytes \<Rightarrow> bytes" where
  "aead_encrypt P key nonce_ctr aad pt = p_aead_seal P key (nonce96_ctr nonce_ctr) aad pt"

definition aead_decrypt :: "prims \<Rightarrow> bytes \<Rightarrow> u64 \<Rightarrow> bytes \<Rightarrow> bytes \<Rightarrow> bytes result" where
  "aead_decrypt P key nonce_ctr aad ct = ok_or AuthFailed (p_aead_open P key (nonce96_ctr nonce_ctr) aad ct)"

lemma length_hkdf_derive [simp]: "kdf_ok P \<Longrightarrow> length (hkdf_derive P ikm salt info n) = n"
  by (simp add: hkdf_derive_def kdf_ok_def)

lemma aead_decrypt_encrypt [simp]:
  "aead_ok P \<Longrightarrow> aead_decrypt P k n a (aead_encrypt P k n a m) = Inr m"
  by (simp add: aead_decrypt_def aead_encrypt_def aead_ok_def)

lemma length_aead_encrypt [simp]: "aead_ok P \<Longrightarrow> length (aead_encrypt P k n a m) = length m + 16"
  by (simp add: aead_encrypt_def aead_ok_def)

lemma nonce96_ctr_inject [simp]: "nonce96_ctr m = nonce96_ctr n \<longleftrightarrow> m = n"
  by (simp add: nonce96_ctr_def to_le_def)

subsection \<open>Sessions (session.rs)\<close>

record session =
  se_send_key :: bytes
  se_recv_key :: bytes
  se_send_nonce :: u64
  se_recv_nonce :: u64
  se_session_id :: bytes
  se_is_initiator :: bool

definition session_new :: "prims \<Rightarrow> bytes \<Rightarrow> bool \<Rightarrow> session" where
  "session_new P shared initiator =
     (let km = hkdf_derive P shared (ascii ''phinet-session-v2'') (ascii ''keys'') 64;
          session_id = hkdf_derive P shared (ascii ''phinet-session-v2'') (ascii ''session-id'') 16;
          (sk, rk) = (if initiator then (take 32 km, drop 32 km) else (drop 32 km, take 32 km))
      in \<lparr> se_send_key = sk, se_recv_key = rk, se_send_nonce = 0, se_recv_nonce = 0,
           se_session_id = session_id, se_is_initiator = initiator \<rparr>)"

definition aad_send :: "session \<Rightarrow> bytes" where
  "aad_send s = se_session_id s @ [if se_is_initiator s then 0 else 1]"

definition aad_recv :: "session \<Rightarrow> bytes" where
  "aad_recv s = se_session_id s @ [if se_is_initiator s then 1 else 0]"

definition nonce_ctr_send :: "session \<Rightarrow> u64 \<Rightarrow> u64" where
  "nonce_ctr_send s ctr =
     ((ctr AND (push_bit 63 1 - 1)) OR (if se_is_initiator s then 0 else push_bit 63 1))"

definition nonce_ctr_recv :: "session \<Rightarrow> u64 \<Rightarrow> u64" where
  "nonce_ctr_recv s ctr =
     ((ctr AND (push_bit 63 1 - 1)) OR (if se_is_initiator s then push_bit 63 1 else 0))"

text \<open>The counters are atomics whose \<open>fetch_add\<close> wraps; it happens before the cipher runs.\<close>

definition session_encrypt :: "prims \<Rightarrow> session \<Rightarrow> bytes \<Rightarrow> session \<times> bytes" where
  "session_encrypt P s plaintext =
     (let n = se_send_nonce s in
      (s\<lparr>se_send_nonce := n + 1\<rparr>,
       aead_encrypt P (se_send_key s) (nonce_ctr_send s n) (aad_send s) plaintext))"

definition session_decrypt :: "prims \<Rightarrow> session \<Rightarrow> bytes \<Rightarrow> session \<times> bytes result" where
  "session_decrypt P s ciphertext =
     (let n = se_recv_nonce s in
      (s\<lparr>se_recv_nonce := n + 1\<rparr>,
       aead_decrypt P (se_recv_key s) (nonce_ctr_recv s n) (aad_recv s) ciphertext))"

text \<open>Slices of bytes compare lexicographically, as lists do here.\<close>

definition rotation_link_key :: "prims \<Rightarrow> session \<Rightarrow> bytes" where
  "rotation_link_key P s =
     (let a = se_send_key s; b = se_recv_key s;
          material = (if a < b then a @ b else b @ a)
      in hkdf_derive P material (ascii ''phinet-cert-rotate-v1'') (ascii ''link'') 32)"

definition DUMMY_CELL_SIZE :: nat where "DUMMY_CELL_SIZE = 512"

definition dummy_cell :: "bytes \<Rightarrow> bytes" where
  "dummy_cell random = 0xFF # take (DUMMY_CELL_SIZE - 1) random"

definition is_dummy :: "bytes \<Rightarrow> bool" where
  "is_dummy payload \<longleftrightarrow> (case payload of [] \<Rightarrow> False | b # _ \<Rightarrow> b = 0xFF)"

subsection \<open>Link cells (wire.rs)\<close>

definition MAX_FRAME_SIZE :: nat where "MAX_FRAME_SIZE = 16 * 1024 * 1024"
definition LINK_CELL :: nat where [simp]: "LINK_CELL = 2048"
definition CELL_HDR :: nat where [simp]: "CELL_HDR = 3"
definition CELL_DATA :: nat where [simp]: "CELL_DATA = LINK_CELL - CELL_HDR"

text \<open>\<open>slice::chunks\<close>.\<close>

function chunks :: "nat \<Rightarrow> 'a list \<Rightarrow> 'a list list" where
  "chunks n xs = (if xs = [] \<or> n = 0 then [] else take n xs # chunks n (drop n xs))"
  by auto
termination by (relation "measure (\<lambda>(n, xs). length xs)") auto

declare chunks.simps [simp del]

definition encrypt_cell :: "prims \<Rightarrow> session \<Rightarrow> u8 \<Rightarrow> bytes \<Rightarrow> session \<times> bytes" where
  "encrypt_cell P s more_flag chunk =
     (let plain = more_flag # to_le (of_nat (length chunk) :: u16) @ chunk
                    @ replicate (CELL_DATA - length chunk) 0;
          (s', ct) = session_encrypt P s plain
      in (s', to_le (of_nat (length ct) :: u32) @ ct))"

fun encode_chunks :: "prims \<Rightarrow> session \<Rightarrow> bytes list \<Rightarrow> session \<times> bytes" where
  "encode_chunks P s [] = (s, [])"
| "encode_chunks P s (c # cs) =
     (let (s1, out) = encrypt_cell P s (if cs \<noteq> [] then 1 else 0) c;
          (s2, rest) = encode_chunks P s1 cs
      in (s2, out @ rest))"

definition encode_cells :: "prims \<Rightarrow> session \<Rightarrow> bytes \<Rightarrow> session \<times> bytes" where
  "encode_cells P s payload =
     (let cs = chunks CELL_DATA payload in
      if cs = [] then encrypt_cell P s 0 [] else encode_chunks P s cs)"

text \<open>
  \<open>read_exact\<close> on the bytes that are still to come on the connection; it fails when the
  connection ends before that many bytes.
\<close>

definition read_exact :: "nat \<Rightarrow> bytes \<Rightarrow> (bytes \<times> bytes) option" where
  "read_exact n stream = (if length stream < n then None else Some (take n stream, drop n stream))"

definition read_cell :: "prims \<Rightarrow> session \<Rightarrow> bytes \<Rightarrow> session \<times> bytes \<times> (bool \<times> bytes) result" where
  "read_cell P s stream =
     (case read_exact 4 stream of
        None \<Rightarrow> (s, [], Inl Closed)
      | Some (lb, stream1) \<Rightarrow>
          let len = unat (of_le lb :: u32) in
          if len < LINK_CELL \<or> LINK_CELL + 64 < len
          then (s, stream1, Inl (Io ''link cell wrong size''))
          else
            (case read_exact len stream1 of
               None \<Rightarrow> (s, [], Inl Closed)
             | Some (buf, stream2) \<Rightarrow>
                 (case session_decrypt P s buf of
                    (s1, Inl e) \<Rightarrow> (s1, stream2, Inl e)
                  | (s1, Inr plain) \<Rightarrow>
                      if length plain \<noteq> LINK_CELL
                      then (s1, stream2, Inl (Io ''decrypted link cell wrong plaintext size''))
                      else
                        let more_flag = plain ! 0 \<noteq> 0;
                            clen = unat (of_le [plain ! 1, plain ! 2] :: u16)
                        in if LINK_CELL < CELL_HDR + clen
                           then (s1, stream2, Inl (Io ''link cell chunk_len exceeds cell''))
                           else (s1, stream2, Inr (more_flag, slice CELL_HDR (CELL_HDR + clen) plain)))))"

lemma read_exact_lengthD: "read_exact n stream = Some (a, b) \<Longrightarrow> length stream = n + length b"
  by (auto simp: read_exact_def split: if_splits)

lemma read_cell_consumes:
  "read_cell P s stream = (s', rest, Inr r) \<Longrightarrow> length rest < length stream"
  by (auto simp: read_cell_def Let_def dest!: read_exact_lengthD
      split: option.splits prod.splits sum.splits if_splits)

text \<open>The loop of \<open>recv_session\<close>; it ends because each round consumes a cell of the stream.\<close>

function recv_loop :: "prims \<Rightarrow> session \<Rightarrow> bytes \<Rightarrow> bytes \<Rightarrow> session \<times> bytes \<times> bytes result" where
  "recv_loop P s stream assembled =
     (case read_cell P s stream of
        (s1, rest, Inl e) \<Rightarrow> (s1, rest, Inl e)
      | (s1, rest, Inr (more_flag, chunk)) \<Rightarrow>
          let assembled' = assembled @ chunk in
          if MAX_FRAME_SIZE < length assembled'
          then (s1, rest, Inl (Io ''reassembled message exceeds MAX_FRAME_SIZE''))
          else if \<not> more_flag then (s1, rest, Inr assembled')
          else recv_loop P s1 rest assembled')"
  by pat_completeness auto
termination
  by (relation "measure (\<lambda>(P, s, stream, assembled). length stream)")
    (auto dest: read_cell_consumes [OF sym] read_cell_consumes)

declare recv_loop.simps [simp del]

text \<open>
  Serialisation (serde_json) is a parameter: \<open>enc\<close> is \<open>to_vec\<close>, which may fail, and \<open>dec\<close> is
  \<open>from_slice\<close>.
\<close>

definition send_session ::
  "prims \<Rightarrow> ('m \<Rightarrow> bytes result) \<Rightarrow> 'm \<Rightarrow> session \<Rightarrow> session \<times> bytes result" where
  "send_session P enc msg s =
     (case enc msg of
        Inl e \<Rightarrow> (s, Inl e)
      | Inr payload \<Rightarrow> (let (s', out) = encode_cells P s payload in (s', Inr out)))"

definition recv_session ::
  "prims \<Rightarrow> (bytes \<Rightarrow> 'm result) \<Rightarrow> session \<Rightarrow> bytes \<Rightarrow> session \<times> bytes \<times> 'm result" where
  "recv_session P dec s stream =
     (let (s', rest, r) = recv_loop P s stream [] in (s', rest, and_then r dec))"

text \<open>The unencrypted framing used before a session exists.\<close>

definition send_raw :: "('m \<Rightarrow> bytes result) \<Rightarrow> 'm \<Rightarrow> bytes result" where
  "send_raw enc msg =
     and_then (enc msg) (\<lambda>payload. Inr (to_le (of_nat (length payload) :: u32) @ payload))"

definition recv_raw :: "(bytes \<Rightarrow> 'm result) \<Rightarrow> bytes \<Rightarrow> bytes \<times> 'm result" where
  "recv_raw dec stream =
     (case read_exact 4 stream of
        None \<Rightarrow> ([], Inl Closed)
      | Some (lb, stream1) \<Rightarrow>
          let len = unat (of_le lb :: u32) in
          if MAX_FRAME_SIZE < len then (stream1, Inl (Io ''frame too large''))
          else (case read_exact len stream1 of
                  None \<Rightarrow> ([], Inl Closed)
                | Some (buf, rest) \<Rightarrow> (rest, dec buf)))"

subsection \<open>Fragmentation\<close>

lemma chunks_Nil [simp]: "chunks n [] = []"
  by (simp add: chunks.simps)

lemma concat_chunks [simp]: "0 < n \<Longrightarrow> concat (chunks n xs) = xs"
  by (induction n xs rule: chunks.induct) (subst chunks.simps, auto)

lemma chunks_eq_Nil [simp]: "0 < n \<Longrightarrow> chunks n xs = [] \<longleftrightarrow> xs = []"
  by (subst chunks.simps) auto

lemma chunks_lengths: "c \<in> set (chunks n xs) \<Longrightarrow> length c \<le> n"
proof (induction n xs rule: chunks.induct)
  case (1 n xs)
  show ?case
  proof (cases "xs = [] \<or> n = 0")
    case True
    with 1(2) show ?thesis by (simp add: chunks.simps)
  next
    case False
    then have "chunks n xs = take n xs # chunks n (drop n xs)" by (subst chunks.simps) simp
    with 1(2) have "c = take n xs \<or> c \<in> set (chunks n (drop n xs))" by simp
    with 1(1) [OF False] show ?thesis by auto
  qed
qed

lemma length_chunks: "0 < n \<Longrightarrow> length (chunks n xs) = (length xs + n - 1) div n"
proof (induction n xs rule: chunks.induct)
  case (1 n xs)
  show ?case
  proof (cases "xs = []")
    case True
    with 1(2) show ?thesis by simp
  next
    case False
    have "length (chunks n xs) = 1 + (length (drop n xs) + n - 1) div n"
      using 1 False by (subst chunks.simps) simp
    also have "\<dots> = (length xs + n - 1) div n"
    proof (cases "length xs \<le> n")
      case True
      from False have "0 < length xs" by simp
      then have e: "length xs + n - 1 = n + (length xs - 1)" by arith
      have "(length xs - 1) div n = 0" "(n - 1) div n = 0"
        using True False \<open>0 < n\<close> by (auto simp: Suc_le_eq [symmetric])
      then show ?thesis using True \<open>0 < n\<close> unfolding e by (simp del: add_diff_assoc add: div_add_self1)
    next
      case f: False
      then have e: "length xs + n - 1 = n + (length xs - n + n - 1)" by arith
      show ?thesis using \<open>0 < n\<close> unfolding e by (simp del: add_diff_assoc add: div_add_self1)
    qed
    finally show ?thesis .
  qed
qed

subsection \<open>One cell\<close>

text \<open>What one session sends, the other receives.\<close>

definition feeds :: "session \<Rightarrow> session \<Rightarrow> bool" where
  "feeds s r \<longleftrightarrow> se_send_key s = se_recv_key r \<and> se_session_id s = se_session_id r
     \<and> se_is_initiator s \<noteq> se_is_initiator r \<and> se_send_nonce s = se_recv_nonce r"

abbreviation sent_cells :: "nat \<Rightarrow> session \<Rightarrow> session" where
  "sent_cells n s \<equiv> s\<lparr>se_send_nonce := se_send_nonce s + of_nat n\<rparr>"

abbreviation got_cells :: "nat \<Rightarrow> session \<Rightarrow> session" where
  "got_cells n r \<equiv> r\<lparr>se_recv_nonce := se_recv_nonce r + of_nat n\<rparr>"

lemma feeds_advance [simp]: "feeds s r \<Longrightarrow> feeds (sent_cells n s) (got_cells n r)"
  by (simp add: feeds_def)

lemma feeds_aad: "feeds s r \<Longrightarrow> aad_send s = aad_recv r"
  by (auto simp: feeds_def aad_send_def aad_recv_def)

lemma feeds_nonce: "feeds s r \<Longrightarrow> nonce_ctr_send s n = nonce_ctr_recv r n"
  by (auto simp: feeds_def nonce_ctr_send_def nonce_ctr_recv_def)

lemma session_decrypt_encrypt:
  assumes "aead_ok P" "feeds s r"
  shows "session_decrypt P r (snd (session_encrypt P s m)) = (got_cells 1 r, Inr m)"
  using assms
  by (simp add: session_decrypt_def session_encrypt_def Let_def feeds_aad feeds_nonce)
    (simp add: feeds_def)

lemma encrypt_cell_session [simp]: "fst (encrypt_cell P s f c) = sent_cells 1 s"
  by (simp add: encrypt_cell_def session_encrypt_def Let_def)

lemma length_encrypt_cell:
  assumes "aead_ok P" "length c \<le> CELL_DATA"
  shows "length (snd (encrypt_cell P s f c)) = LINK_CELL + 20"
  using assms by (simp add: encrypt_cell_def session_encrypt_def Let_def)

lemma read_cell_encrypt_cell:
  assumes "aead_ok P" "feeds s r" "length c \<le> CELL_DATA"
  shows "read_cell P r (snd (encrypt_cell P s f c) @ rest) = (got_cells 1 r, rest, Inr (f \<noteq> 0, c))"
proof -
  let ?plain = "f # to_le (of_nat (length c) :: u16) @ c @ replicate (CELL_DATA - length c) 0"
  have plain: "length ?plain = LINK_CELL" using assms(3) by simp
  obtain ct where ct: "snd (session_encrypt P s ?plain) = ct" by blast
  have lct: "length ct = 2064"
    using plain assms(1) by (simp add: ct [symmetric] session_encrypt_def Let_def)
  have out: "snd (encrypt_cell P s f c) = to_le (of_nat (length ct) :: u32) @ ct"
    using ct by (simp add: encrypt_cell_def Let_def split_beta)
  have dec: "session_decrypt P r ct = (got_cells 1 r, Inr ?plain)"
    using session_decrypt_encrypt [OF assms(1,2), of ?plain] by (simp only: ct)
  have len: "unat (of_le (to_le (of_nat (length ct) :: u32)) :: u32) = 2064"
    by (simp add: lct)
  have l2: "[?plain ! 1, ?plain ! 2] = to_le (of_nat (length c) :: u16)"
  proof -
    have lw: "length (to_le (of_nat (length c) :: u16)) = 2" by simp
    have list_pair: "\<And>ys :: bytes. length ys = 2 \<Longrightarrow> \<exists>a b. ys = [a, b]"
      by (auto simp: numeral_2_eq_2 length_Suc_conv)
    obtain a b where ab: "to_le (of_nat (length c) :: u16) = [a, b]"
      using list_pair [OF lw] by blast
    show ?thesis by (simp add: ab)
  qed
  have clen: "unat (of_le [?plain ! 1, ?plain ! 2] :: u16) = length c"
    unfolding l2 using assms(3) by simp
  have sl: "slice CELL_HDR (CELL_HDR + length c) ?plain = c"
    using assms(3) by (simp add: slice_def)
  have r1: "read_exact 4 (to_le (of_nat (length ct) :: u32) @ ct @ rest)
      = Some (to_le (of_nat (length ct) :: u32), ct @ rest)"
    by (simp add: read_exact_def)
  have r2: "read_exact 2064 (ct @ rest) = Some (ct, rest)"
    by (simp add: read_exact_def lct)
  show ?thesis
    unfolding out read_cell_def append_assoc r1 option.case prod.case Let_def len r2 dec sum.case clen plain
    using sl assms(3) by simp
qed
subsection \<open>Messages\<close>

lemma encode_chunks_length:
  assumes "aead_ok P" "\<forall>c \<in> set cs. length c \<le> CELL_DATA"
  shows "length (snd (encode_chunks P s cs)) = length cs * (LINK_CELL + 20)"
  using assms
proof (induction cs arbitrary: s)
  case (Cons c cs)
  then show ?case by (simp add: split_beta length_encrypt_cell del: LINK_CELL_def CELL_DATA_def)
qed simp

lemma encode_chunks_session: "fst (encode_chunks P s cs) = sent_cells (length cs) s"
  by (induction cs arbitrary: s) (simp_all add: split_beta add.assoc)

lemma recv_loop_encode_chunks:
  assumes "aead_ok P" "feeds s r" "cs \<noteq> []" "\<forall>c \<in> set cs. length c \<le> CELL_DATA"
    and "length acc + length (concat cs) \<le> MAX_FRAME_SIZE"
  shows "recv_loop P r (snd (encode_chunks P s cs) @ rest) acc
    = (got_cells (length cs) r, rest, Inr (acc @ concat cs))"
  using assms(2-)
proof (induction cs arbitrary: s r acc)
  case (Cons c cs)
  let ?s = "sent_cells 1 s" and ?r = "got_cells 1 r"
  let ?f = "if cs \<noteq> [] then 1 else 0 :: u8"
  have out: "snd (encode_chunks P s (c # cs)) @ rest
      = snd (encrypt_cell P s ?f c) @ (snd (encode_chunks P ?s cs) @ rest)"
    by (simp add: split_beta)
  have cell: "read_cell P r (snd (encrypt_cell P s ?f c) @ (snd (encode_chunks P ?s cs) @ rest))
      = (?r, snd (encode_chunks P ?s cs) @ rest, Inr (cs \<noteq> [], c))"
    using read_cell_encrypt_cell [OF assms(1) Cons.prems(1), of c ?f] Cons.prems(3) by simp
  have fits: "\<not> MAX_FRAME_SIZE < length (acc @ c)" using Cons.prems(4) by simp
  show ?case
  proof (cases "cs = []")
    case True
    show ?thesis
      unfolding out by (subst recv_loop.simps, subst cell) (use True fits in simp)
  next
    case False
    have "recv_loop P ?r (snd (encode_chunks P ?s cs) @ rest) (acc @ c)
        = (got_cells (length cs) ?r, rest, Inr ((acc @ c) @ concat cs))"
      using Cons.prems False feeds_advance [OF Cons.prems(1), of 1] by (intro Cons.IH) auto
    then show ?thesis
      unfolding out by (subst recv_loop.simps, subst cell) (use False fits in \<open>simp add: add.assoc\<close>)
  qed
qed simp

definition cells_for :: "nat \<Rightarrow> nat" where
  "cells_for n = max 1 ((n + CELL_DATA - 1) div CELL_DATA)"

lemma encode_cells_as_chunks:
  "\<exists>cs. cs \<noteq> [] \<and> concat cs = payload \<and> (\<forall>c \<in> set cs. length c \<le> CELL_DATA)
     \<and> length cs = cells_for (length payload) \<and> encode_cells P s payload = encode_chunks P s cs"
proof (cases "payload = []")
  case True
  then show ?thesis
    by (intro exI [of _ "[[]]"]) (simp add: encode_cells_def cells_for_def split_beta prod_eq_iff)
next
  case False
  have "0 < (length payload + CELL_DATA - 1) div CELL_DATA"
    using False by (simp add: div_greater_zero_iff Suc_le_eq)
  then show ?thesis
    using False
    by (intro exI [of _ "chunks CELL_DATA payload"])
      (auto simp: encode_cells_def cells_for_def length_chunks dest: chunks_lengths)
qed

lemma encode_cells_session [simp]:
  "fst (encode_cells P s payload) = sent_cells (cells_for (length payload)) s"
  using encode_cells_as_chunks [of payload P s] encode_chunks_session by metis

lemma recv_loop_encode_cells:
  assumes "aead_ok P" "feeds s r" "length payload \<le> MAX_FRAME_SIZE"
  shows "recv_loop P r (snd (encode_cells P s payload) @ rest) []
    = (got_cells (cells_for (length payload)) r, rest, Inr payload)"
  using encode_cells_as_chunks [of payload P s] recv_loop_encode_chunks [OF assms(1,2), of _ "[]"] assms(3)
  by auto


subsection \<open>Properties of a session\<close>

lemma session_new_feeds [simp]:
  "kdf_ok P \<Longrightarrow> i \<noteq> j \<Longrightarrow> feeds (session_new P shared i) (session_new P shared j)"
  by (auto simp: feeds_def session_new_def Let_def)

lemma nonce_ctr_send_bit:
  "bit (nonce_ctr_send s n) k \<longleftrightarrow> (if k = 63 then \<not> se_is_initiator s else k < 63 \<and> bit n k)"
proof -
  have m: "push_bit 63 1 - 1 = (mask 63 :: u64)" by (simp add: mask_eq_exp_minus_1)
  have top: "bit (push_bit 63 1 :: u64) k \<longleftrightarrow> k = 63"
    unfolding bit_push_bit_iff by (auto simp: bit_1_iff)
  show ?thesis
    unfolding nonce_ctr_send_def m bit_or_iff bit_and_iff bit_mask_iff
    using top by (cases "se_is_initiator s") auto
qed

lemma nonce_ctr_send_inj:
  assumes "unat i < 2 ^ 63" "unat j < 2 ^ 63" "nonce_ctr_send s i = nonce_ctr_send s j"
  shows "i = j"
proof (rule bit_word_eqI)
  fix k
  assume k: "k < LENGTH(64)"
  have hi: "\<not> bit x 63" if "unat x < 2 ^ 63" for x :: u64
  proof -
    have "x AND mask 63 = x"
      unfolding take_bit_eq_mask [symmetric] word_unat_eq_iff unsigned_take_bit_eq
      using that by (intro take_bit_nat_eq_self)
    then show ?thesis by (metis bit_and_iff bit_mask_iff less_irrefl)
  qed
  show "bit i k = bit j k"
  proof (cases "k = 63")
    case True
    with hi assms show ?thesis by simp
  next
    case False
    with k have "k < 63" by simp
    with assms(3) nonce_ctr_send_bit [of s i k] nonce_ctr_send_bit [of s j k] show ?thesis by simp
  qed
qed

lemma nonce_ctr_send_roles:
  "se_is_initiator s \<noteq> se_is_initiator r \<Longrightarrow> nonce_ctr_send s i \<noteq> nonce_ctr_send r j"
  by (metis nonce_ctr_send_bit)

lemma rotation_link_key_agrees:
  "se_send_key s = se_recv_key r \<Longrightarrow> se_recv_key s = se_send_key r \<Longrightarrow>
   rotation_link_key P s = rotation_link_key P r"
  by (auto simp: rotation_link_key_def Let_def not_less)

subsection \<open>A connection as a queue of messages\<close>

record 'm link =
  lk_sender :: session
  lk_receiver :: session
  lk_wire :: bytes
  lk_sent :: "'m list"
  lk_got :: "'m result list"

datatype 'm link_event = LinkSend 'm | LinkRecv

definition link_new :: "session \<Rightarrow> session \<Rightarrow> 'm link" where
  "link_new s r = \<lparr> lk_sender = s, lk_receiver = r, lk_wire = [], lk_sent = [], lk_got = [] \<rparr>"

text \<open>A receive on an empty connection waits, which is no step.\<close>

fun link_io ::
  "prims \<Rightarrow> ('m \<Rightarrow> bytes result) \<Rightarrow> (bytes \<Rightarrow> 'm result) \<Rightarrow> 'm link_event \<Rightarrow> 'm link \<Rightarrow> 'm link" where
  "link_io P enc dec (LinkSend m) l =
     (case send_session P enc m (lk_sender l) of
        (s', Inl e) \<Rightarrow> l\<lparr>lk_sender := s'\<rparr>
      | (s', Inr out) \<Rightarrow> l\<lparr>lk_sender := s', lk_wire := lk_wire l @ out, lk_sent := lk_sent l @ [m]\<rparr>)"
| "link_io P enc dec LinkRecv l =
     (if lk_wire l = [] then l
      else (case recv_session P dec (lk_receiver l) (lk_wire l) of
              (r', rest, res) \<Rightarrow> l\<lparr>lk_receiver := r', lk_wire := rest, lk_got := lk_got l @ [res]\<rparr>))"

definition link_io_run where
  "link_io_run P enc dec evs l = fold (link_io P enc dec) evs l"

text \<open>A message the serialiser handles within the frame limit.\<close>

definition serde_fits :: "('m \<Rightarrow> bytes result) \<Rightarrow> (bytes \<Rightarrow> 'm result) \<Rightarrow> 'm \<Rightarrow> bool" where
  "serde_fits enc dec m \<longleftrightarrow> (\<exists>b. enc m = Inr b \<and> length b \<le> MAX_FRAME_SIZE \<and> dec b = Inr m)"

text \<open>The bytes a session produces for a queue of messages.\<close>

fun wire_of :: "prims \<Rightarrow> ('m \<Rightarrow> bytes result) \<Rightarrow> session \<Rightarrow> 'm list \<Rightarrow> session \<times> bytes" where
  "wire_of P enc s [] = (s, [])"
| "wire_of P enc s (m # ms) =
     (case send_session P enc m s of
        (s', Inl e) \<Rightarrow> wire_of P enc s' ms
      | (s', Inr out) \<Rightarrow> (let (s2, rest) = wire_of P enc s' ms in (s2, out @ rest)))"

lemma wire_of_snoc:
  "wire_of P enc s (ms @ [m]) =
     (let (s1, w) = wire_of P enc s ms in
      case send_session P enc m s1 of (s2, Inl e) \<Rightarrow> (s2, w) | (s2, Inr out) \<Rightarrow> (s2, w @ out))"
  by (induction ms arbitrary: s) (auto simp: split_beta split: sum.splits prod.splits)

text \<open>The abstraction: the queue of messages under way.\<close>

definition link_queue ::
  "prims \<Rightarrow> ('m \<Rightarrow> bytes result) \<Rightarrow> 'm list \<Rightarrow> 'm link \<Rightarrow> bool" where
  "link_queue P enc q l \<longleftrightarrow>
     (\<exists>s. feeds s (lk_receiver l) \<and> wire_of P enc s q = (lk_sender l, lk_wire l))"

lemma link_queue_new: "feeds s r \<Longrightarrow> link_queue P enc [] (link_new s r)"
  by (auto simp: link_queue_def link_new_def)

lemma link_queue_send:
  assumes "link_queue P enc q l" "serde_fits enc dec m"
  shows "link_queue P enc (q @ [m]) (link_io P enc dec (LinkSend m) l)
    \<and> lk_sent (link_io P enc dec (LinkSend m) l) = lk_sent l @ [m]
    \<and> lk_got (link_io P enc dec (LinkSend m) l) = lk_got l"
  using assms by (auto simp: link_queue_def serde_fits_def wire_of_snoc send_session_def split_beta)

lemma to_le_nonempty: "to_le (w :: u32) \<noteq> []"
  using length_to_le [of w] by fastforce

lemma encode_cells_nonempty: "snd (encode_cells P s payload) \<noteq> []"
proof -
  obtain c cs where "encode_cells P s payload = encode_chunks P s (c # cs)"
    using encode_cells_as_chunks [of payload P s] by (metis neq_Nil_conv)
  moreover have "snd (encrypt_cell P s f c) \<noteq> []" for f
    by (simp add: encrypt_cell_def split_beta Let_def to_le_nonempty)
  ultimately show ?thesis by (simp add: split_beta)
qed

lemma link_queue_wire_empty:
  assumes "link_queue P enc q l" "\<forall>m \<in> set q. serde_fits enc dec m"
  shows "lk_wire l = [] \<longleftrightarrow> q = []"
  using assms encode_cells_nonempty
  by (cases q) (auto simp: link_queue_def serde_fits_def send_session_def split_beta)

lemma link_queue_recv:
  assumes "aead_ok P" "link_queue P enc (m # q) l" "serde_fits enc dec m"
  shows "link_queue P enc q (link_io P enc dec LinkRecv l)
    \<and> lk_sent (link_io P enc dec LinkRecv l) = lk_sent l
    \<and> lk_got (link_io P enc dec LinkRecv l) = lk_got l @ [Inr m]"
proof -
  from assms(3) obtain b where b: "enc m = Inr b" "length b \<le> MAX_FRAME_SIZE" "dec b = Inr m"
    by (auto simp: serde_fits_def)
  from assms(2) obtain s where s: "feeds s (lk_receiver l)"
      "wire_of P enc s (m # q) = (lk_sender l, lk_wire l)"
    by (auto simp: link_queue_def)
  let ?n = "cells_for (length b)"
  define w where "w = snd (wire_of P enc (sent_cells ?n s) q)"
  have w: "wire_of P enc (sent_cells ?n s) q = (lk_sender l, w)"
      and wire: "lk_wire l = snd (encode_cells P s b) @ w"
    using s(2) b(1) by (auto simp: w_def send_session_def split_beta prod_eq_iff)
  have "recv_session P dec (lk_receiver l) (lk_wire l) = (got_cells ?n (lk_receiver l), w, Inr m)"
    unfolding recv_session_def wire recv_loop_encode_cells [OF assms(1) s(1) b(2)] using b(3) by simp
  moreover have "lk_wire l \<noteq> []" using wire encode_cells_nonempty by simp
  ultimately show ?thesis
    using w feeds_advance [OF s(1), of ?n] by (auto simp: link_queue_def)
qed

subsection \<open>Properties\<close>

lemma link_run_queue:
  assumes "aead_ok P" "link_queue P enc q l" "\<forall>m \<in> set q. serde_fits enc dec m"
    and "\<forall>m. LinkSend m \<in> set evs \<longrightarrow> serde_fits enc dec m"
  shows "\<exists>q' ds. link_queue P enc q' (link_io_run P enc dec evs l)
    \<and> (\<forall>m \<in> set q'. serde_fits enc dec m)
    \<and> lk_got (link_io_run P enc dec evs l) = lk_got l @ map Inr ds
    \<and> (\<exists>ms. lk_sent (link_io_run P enc dec evs l) = lk_sent l @ ms \<and> q @ ms = ds @ q')"
  using assms(2-)
proof (induction evs arbitrary: q l)
  case Nil
  then show ?case by (intro exI [of _ q] exI [of _ "[]"]) (simp add: link_io_run_def)
next
  case (Cons ev evs)
  let ?l = "link_io P enc dec ev l"
  have run: "link_io_run P enc dec (ev # evs) l = link_io_run P enc dec evs ?l"
    by (simp add: link_io_run_def)
  have evs: "\<forall>m. LinkSend m \<in> set evs \<longrightarrow> serde_fits enc dec m" using Cons.prems(3) by simp
  consider (send) m where "ev = LinkSend m" | (wait) "ev = LinkRecv" "q = []"
    | (recv) m q0 where "ev = LinkRecv" "q = m # q0"
    by (metis link_event.exhaust neq_Nil_conv)
  then show ?case
  proof cases
    case send
    then have fits: "serde_fits enc dec m" using Cons.prems(3) by simp
    note st = link_queue_send [OF Cons.prems(1) fits, folded send]
    from Cons.IH [of "q @ [m]" ?l] st fits Cons.prems(2) evs show ?thesis
      unfolding run by fastforce
  next
    case wait
    then have "?l = l" using link_queue_wire_empty [OF Cons.prems(1,2)] by simp
    with Cons.IH [OF Cons.prems(1,2) evs] show ?thesis unfolding run by simp
  next
    case recv
    have st: "link_queue P enc q0 ?l \<and> lk_sent ?l = lk_sent l \<and> lk_got ?l = lk_got l @ [Inr m]"
      using link_queue_recv [OF assms(1), of enc m q0 l dec] Cons.prems(1,2) recv by simp
    have q0: "\<forall>m \<in> set q0. serde_fits enc dec m" using Cons.prems(2) recv by simp
    obtain q' ds ms where ih: "link_queue P enc q' (link_io_run P enc dec evs ?l)"
        "\<forall>m \<in> set q'. serde_fits enc dec m"
        "lk_got (link_io_run P enc dec evs ?l) = lk_got ?l @ map Inr ds"
        "lk_sent (link_io_run P enc dec evs ?l) = lk_sent ?l @ ms" "q0 @ ms = ds @ q'"
      using Cons.IH [of q0 ?l] st q0 evs by blast
    show ?thesis
      unfolding run
      by (rule exI [of _ q'], rule exI [of _ "m # ds"]) (use ih st recv in auto)
  qed
qed

text \<open>C6: the encrypted connection is a faithful queue: however sends and receives interleave, the
  receiver gets exactly the messages that were sent, in their order and without an error, and what
  it has not got yet is what the bytes under way carry.\<close>

theorem link_refines_queue:
  assumes "aead_ok P" "feeds s r" "\<forall>m. LinkSend m \<in> set evs \<longrightarrow> serde_fits enc dec m"
  shows "\<exists>got under_way. lk_got (link_io_run P enc dec evs (link_new s r)) = map Inr got
    \<and> lk_sent (link_io_run P enc dec evs (link_new s r)) = got @ under_way
    \<and> link_queue P enc under_way (link_io_run P enc dec evs (link_new s r))
    \<and> (lk_wire (link_io_run P enc dec evs (link_new s r)) = [] \<longleftrightarrow> under_way = [])"
proof -
  let ?l = "link_io_run P enc dec evs (link_new s r)"
  obtain q ds where q: "link_queue P enc q ?l" "\<forall>m \<in> set q. serde_fits enc dec m"
      "lk_got ?l = lk_got (link_new s r) @ map Inr ds"
      "\<exists>ms. lk_sent ?l = lk_sent (link_new s r) @ ms \<and> [] @ ms = ds @ q"
    using link_run_queue [OF assms(1) link_queue_new [OF assms(2)] _ assms(3)] by auto
  show ?thesis
    by (rule exI [of _ ds], rule exI [of _ q])
      (use q link_queue_wire_empty [OF q(1,2)] in \<open>auto simp: link_new_def\<close>)
qed

theorem link_refines_queue_witness:
  "\<exists>got under_way. lk_got (link_io_run toy_prims Inr Inr [LinkSend [1, 2], LinkSend [], LinkRecv]
      (link_new (session_new toy_prims [7] True) (session_new toy_prims [7] False))) = map Inr got
    \<and> lk_sent (link_io_run toy_prims Inr Inr [LinkSend [1, 2], LinkSend [], LinkRecv]
      (link_new (session_new toy_prims [7] True) (session_new toy_prims [7] False))) = got @ under_way"
proof -
  have "serde_fits Inr Inr m" if "m \<in> {[1, 2], [] :: bytes}" for m
    using that by (auto simp: serde_fits_def MAX_FRAME_SIZE_def)
  then show ?thesis
    using link_refines_queue [of toy_prims "session_new toy_prims [7] True"
        "session_new toy_prims [7] False" "[LinkSend [1, 2], LinkSend [], LinkRecv]" Inr Inr]
    by auto
qed

text \<open>what an observer of a connection can count does not depend on the content: a payload of
  \<open>n\<close> bytes is sent as \<open>cells_for n\<close> frames of one fixed size, so payloads that need the same number
  of cells have encodings of the same length.\<close>

theorem link_frames_uniform:
  assumes "aead_ok P"
  shows "length (snd (encode_cells P s payload)) = cells_for (length payload) * (LINK_CELL + 20)"
proof -
  obtain cs where cs: "\<forall>c \<in> set cs. length c \<le> CELL_DATA" "length cs = cells_for (length payload)"
      "encode_cells P s payload = encode_chunks P s cs"
    using encode_cells_as_chunks [of payload P s] by blast
  from encode_chunks_length [OF assms cs(1), of s] cs(2,3) show ?thesis
    by (simp del: LINK_CELL_def CELL_DATA_def)
qed

theorem link_frames_uniform_witness:
  "length (snd (encode_cells toy_prims (session_new toy_prims [] True) [1, 2, 3])) = 2068"
  using link_frames_uniform [of toy_prims "session_new toy_prims [] True" "[1, 2, 3]"]
  by (simp add: cells_for_def)

text \<open>
  The two ends of a link encrypting in any order: \<open>True\<close> is the initiator. What comes out are the ciphertexts, in
  the order they were made.
\<close>

fun seal_run :: "prims \<Rightarrow> session \<times> session \<Rightarrow> (bool \<times> bytes) list \<Rightarrow> bytes list" where
  "seal_run P (a, b) [] = []"
| "seal_run P (a, b) ((initiator, m) # evs) =
     (if initiator then (case session_encrypt P a m of (a', c) \<Rightarrow> c # seal_run P (a', b) evs)
      else (case session_encrypt P b m of (b', c) \<Rightarrow> c # seal_run P (a, b') evs))"

text \<open>How often the sender of the \<open>i\<close>-th message sealed before, and the nonce that is to be used then.\<close>

definition sealed_before :: "(bool \<times> bytes) list \<Rightarrow> nat \<Rightarrow> nat" where
  "sealed_before evs i = length (filter (\<lambda>e. fst e = fst (evs ! i)) (take i evs))"

definition nonce_value :: "bool \<Rightarrow> nat \<Rightarrow> u64" where
  "nonce_value initiator k = of_nat (k + (if initiator then 0 else 2 ^ 63))"

lemma no_top_bit: "unat x < 2 ^ 63 \<Longrightarrow> \<not> bit x 63" for x :: u64
  by (metis bit_and_iff bit_mask_iff less_irrefl take_bit_eq_mask take_bit_nat_eq_self unsigned_take_bit_eq word_unat_eq_iff)

lemma nonce_ctr_send_value:
  assumes "k < 2 ^ 63"
  shows "nonce_ctr_send s (of_nat k) = nonce_value (se_is_initiator s) k"
proof -
  let ?x = "of_nat k :: u64" and ?top = "push_bit 63 1 :: u64"
  have "unat ?x < 2 ^ 63" using assms by (simp add: unat_of_nat take_bit_nat_eq_self)
  note hi = no_top_bit [OF this]
  have top: "bit ?top n \<longleftrightarrow> n = 63" for n unfolding bit_push_bit_iff by (auto simp: bit_1_iff)
  have small: "bit ?x n \<Longrightarrow> n < 63" for n
    using hi bit_imp_le_length [of ?x n] by (cases "n = 63") (simp_all del: bit_of_nat_iff)
  have "\<not> bit (?x AND ?top) n" for n unfolding bit_and_iff top using hi by blast
  then have "?x AND ?top = 0" by (intro bit_word_eqI) (simp del: bit_of_nat_iff)
  then have "?x OR ?top = ?x + ?top" using word_plus_and_or [of ?x ?top] by simp
  also have "\<dots> = nonce_value False k" by (simp add: nonce_value_def)
  finally have sum: "?x OR ?top = nonce_value False k" .
  show ?thesis
  proof (cases "se_is_initiator s")
    case True
    then have "bit (nonce_ctr_send s ?x) n = bit ?x n" for n
      unfolding nonce_ctr_send_bit using small [of n] hi by auto
    then have "nonce_ctr_send s ?x = ?x" by (intro bit_word_eqI)
    then show ?thesis by (simp add: True nonce_value_def)
  next
    case False
    have "bit (nonce_ctr_send s ?x) n = bit (?x OR ?top) n" for n
      unfolding nonce_ctr_send_bit bit_or_iff top using False small [of n] by auto
    then have "nonce_ctr_send s ?x = ?x OR ?top" by (intro bit_word_eqI)
    then show ?thesis using False sum by simp
  qed
qed

lemma nonce_value_inject:
  assumes "k < 2 ^ 63" "l < 2 ^ 63"
  shows "nonce_value i k = nonce_value j l \<longleftrightarrow> i = j \<and> k = l"
proof -
  have v: "unat (nonce_value b n) = n + (if b then 0 else 2 ^ 63)" if "n < 2 ^ 63" for b n
    using that by (simp add: nonce_value_def unat_of_nat take_bit_nat_eq_self del: of_nat_add)
  have "nonce_value i k = nonce_value j l \<longleftrightarrow> k + (if i then 0 else 2 ^ 63) = l + (if j then 0 else 2 ^ 63 :: nat)"
    unfolding word_unat_eq_iff v [OF assms(1)] v [OF assms(2)] ..
  also have "\<dots> \<longleftrightarrow> i = j \<and> k = l" using assms by (cases i; cases j) auto
  finally show ?thesis .
qed

lemma seal_run_nth:
  assumes "i < length evs" "x + length evs \<le> 2 ^ 63" "y + length evs \<le> 2 ^ 63"
    and "se_is_initiator a" "\<not> se_is_initiator b"
    and "se_send_nonce a = of_nat x" "se_send_nonce b = of_nat y"
  shows "seal_run P (a, b) evs ! i =
    (let e = evs ! i; s = (if fst e then a else b) in
     p_aead_seal P (se_send_key s)
       (nonce96_ctr (nonce_value (fst e) ((if fst e then x else y) + sealed_before evs i))) (aad_send s) (snd e))"
  using assms
proof (induction evs arbitrary: i x y a b)
  case (Cons e evs)
  obtain d m where e: "e = (d, m)" by (cases e)
  show ?case
  proof (cases i)
    case 0
    then show ?thesis
      using Cons.prems nonce_ctr_send_value [of x a] nonce_ctr_send_value [of y b]
      by (simp add: e session_encrypt_def aead_encrypt_def Let_def sealed_before_def)
  next
    case (Suc k)
    have b: "sealed_before ((d, m) # evs) (Suc k) = (if d = fst (evs ! k) then 1 else 0) + sealed_before evs k" for d
      by (simp add: sealed_before_def)
    let ?a = "a\<lparr>se_send_nonce := of_nat (Suc x)\<rparr>" and ?b = "b\<lparr>se_send_nonce := of_nat (Suc y)\<rparr>"
    show ?thesis
    proof (cases d)
      case True
      from Cons.IH [of k "Suc x" y ?a b] Cons.prems Suc
      have "seal_run P (?a, b) evs ! k = (let e = evs ! k; s = (if fst e then ?a else b) in
         p_aead_seal P (se_send_key s)
           (nonce96_ctr (nonce_value (fst e) ((if fst e then Suc x else y) + sealed_before evs k))) (aad_send s) (snd e))"
        by simp
      with Cons.prems True show ?thesis
        by (simp add: e Suc b session_encrypt_def aead_encrypt_def Let_def aad_send_def add.commute)
    next
      case False
      from Cons.IH [of k x "Suc y" a ?b] Cons.prems Suc
      have "seal_run P (a, ?b) evs ! k = (let e = evs ! k; s = (if fst e then a else ?b) in
         p_aead_seal P (se_send_key s)
           (nonce96_ctr (nonce_value (fst e) ((if fst e then x else Suc y) + sealed_before evs k))) (aad_send s) (snd e))"
        by simp
      with Cons.prems False show ?thesis
        by (simp add: e Suc b session_encrypt_def aead_encrypt_def Let_def aad_send_def add.commute)
    qed
  qed
qed simp

lemma sealed_before_mono:
  assumes "i < j" "j \<le> length evs" "fst (evs ! i) = fst (evs ! j)"
  shows "sealed_before evs i < sealed_before evs j"
proof -
  from id_take_nth_drop [of i "take j evs"] assms
  have "take j evs = take i evs @ evs ! i # drop (Suc i) (take j evs)" by (simp add: min_absorb1)
  then have "length (filter P (take j evs)) = length (filter P (take i evs @ evs ! i # drop (Suc i) (take j evs)))" for P
    by (rule arg_cong)
  then show ?thesis using assms(3) by (simp add: sealed_before_def)
qed

lemma sealed_before_le: "sealed_before evs i \<le> i"
  unfolding sealed_before_def by (rule order_trans [OF length_filter_le]) simp

text \<open>C13: no nonce is used twice on a link. Let the two ends of a fresh session encrypt up to \<open>2 ^ 63\<close> messages in
  any order. Then the \<open>i\<close>-th of all ciphertexts is the AEAD, under the sender's key and direction tag, with the
  nonce of \<open>4\<close> zero bytes and the number of messages the same end encrypted before, plus \<open>2 ^ 63\<close> for the
  responder; and any two of the ciphertexts are made with different nonces.\<close>

theorem session_nonces_unique:
  assumes "length evs \<le> 2 ^ 63"
  shows "(\<forall>i < length evs. seal_run P (session_new P shared True, session_new P shared False) evs ! i =
      (let s = session_new P shared (fst (evs ! i))
       in p_aead_seal P (se_send_key s) (nonce96_ctr (nonce_value (fst (evs ! i)) (sealed_before evs i)))
            (aad_send s) (snd (evs ! i)))) \<and>
    (\<forall>i < length evs. \<forall>j < length evs. i \<noteq> j \<longrightarrow>
      nonce96_ctr (nonce_value (fst (evs ! i)) (sealed_before evs i))
        \<noteq> nonce96_ctr (nonce_value (fst (evs ! j)) (sealed_before evs j)))"
proof (intro conjI)
  let ?s = "\<lambda>i. session_new P shared i"
  have new: "se_send_nonce (?s i) = 0" "se_is_initiator (?s i) = i" for i
    by (simp_all add: session_new_def Let_def)
  show "\<forall>i < length evs. seal_run P (?s True, ?s False) evs ! i =
      (let s = ?s (fst (evs ! i))
       in p_aead_seal P (se_send_key s) (nonce96_ctr (nonce_value (fst (evs ! i)) (sealed_before evs i)))
            (aad_send s) (snd (evs ! i)))"
  proof (intro allI impI)
    fix i assume "i < length evs"
    from seal_run_nth [OF this, of 0 0 "?s True" "?s False" P] assms new
    show "seal_run P (?s True, ?s False) evs ! i =
      (let s = ?s (fst (evs ! i))
       in p_aead_seal P (se_send_key s) (nonce96_ctr (nonce_value (fst (evs ! i)) (sealed_before evs i)))
            (aad_send s) (snd (evs ! i)))"
      by (cases "fst (evs ! i)") (simp_all add: Let_def)
  qed
  have small: "sealed_before evs i < 2 ^ 63" if "i < length evs" for i
    using sealed_before_le [of evs i] that assms by linarith
  have ne: "nonce_value (fst (evs ! i)) (sealed_before evs i) \<noteq> nonce_value (fst (evs ! j)) (sealed_before evs j)"
    if "i < j" "j < length evs" for i j
  proof -
    have "i < length evs" using that by simp
    note inj = nonce_value_inject [OF small [OF this] small [OF that(2)]]
    show ?thesis using sealed_before_mono [of i j evs] that unfolding inj by fastforce
  qed
  show "\<forall>i < length evs. \<forall>j < length evs. i \<noteq> j \<longrightarrow>
      nonce96_ctr (nonce_value (fst (evs ! i)) (sealed_before evs i))
        \<noteq> nonce96_ctr (nonce_value (fst (evs ! j)) (sealed_before evs j))"
  proof (intro allI impI)
    fix i j assume "i < length evs" "j < length evs" "i \<noteq> j"
    then show "nonce96_ctr (nonce_value (fst (evs ! i)) (sealed_before evs i))
        \<noteq> nonce96_ctr (nonce_value (fst (evs ! j)) (sealed_before evs j))"
      using ne [of i j] ne [of j i] by (cases "i < j") auto
  qed
qed

theorem session_nonces_unique_witness:
  "nonce96_ctr (nonce_value True (sealed_before [(True, [1]), (False, [2]), (True, [1])] 0))
     \<noteq> nonce96_ctr (nonce_value True (sealed_before [(True, [1]), (False, [2]), (True, [1])] 2))"
proof -
  have "length [(True, [1 :: u8]), (False, [2]), (True, [1])] \<le> 2 ^ 63" by simp
  from session_nonces_unique [OF this, of toy_prims "[]", THEN conjunct2, rule_format, of 0 2]
  show ?thesis by simp
qed

end
