(* ===== verification/Utf8.thy ===== *)
theory Utf8
  imports StdNet
begin

section \<open>Text as bytes\<close>

text \<open>
  The part of \<open>std::string\<close> the messaging code uses beside \<open>from_utf8_lossy\<close>: well-formed UTF-8,
  \<open>str::strip_prefix\<close>, \<open>str::trim\<close>, slicing at a byte index, and fixed-size arrays.
\<close>

lemma text_of_inject [simp]: "text_of a = text_of b \<longleftrightarrow> a = b"
  by (metis ascii_text_of)

function utf8_valid :: "bytes \<Rightarrow> bool" where
  "utf8_valid [] \<longleftrightarrow> True"
| "utf8_valid (b # rest) \<longleftrightarrow>
     (let (ok, k) = utf8_step b rest in ok \<and> utf8_valid (drop k rest))"
  by pat_completeness auto
termination by (relation "measure length") auto

lemma utf8_lossy_valid [simp]: "utf8_valid bs \<Longrightarrow> utf8_lossy_bytes bs = bs"
proof (induction bs rule: utf8_valid.induct)
  case (2 b rest)
  then show ?case by (cases "utf8_step b rest") auto
qed simp

lemma utf8_valid_ascii: "\<forall>b \<in> set bs. b < 0x80 \<Longrightarrow> utf8_valid bs"
  by (induction bs) (simp_all add: utf8_step_def)

lemma from_utf8_lossy_string: "utf8_valid (ascii s) \<Longrightarrow> from_utf8_lossy (ascii s) = s"
  by (simp add: from_utf8_lossy_def)

text \<open>A Rust string holds well-formed UTF-8.\<close>

definition rust_string :: "string \<Rightarrow> bool" where
  "rust_string s \<longleftrightarrow> utf8_valid (ascii s)"

fun strip_prefix :: "'a list \<Rightarrow> 'a list \<Rightarrow> 'a list option" where
  "strip_prefix [] xs = Some xs"
| "strip_prefix (p # ps) [] = None"
| "strip_prefix (p # ps) (x # xs) = (if p = x then strip_prefix ps xs else None)"

lemma strip_prefix_Some: "strip_prefix ps xs = Some r \<longleftrightarrow> xs = ps @ r"
  by (induction ps xs rule: strip_prefix.induct) auto

lemma strip_prefix_append [simp]: "strip_prefix ps (ps @ r) = Some r"
  by (simp add: strip_prefix_Some)

text \<open>\<open>try_into\<close> a fixed-size array.\<close>

definition to_array :: "nat \<Rightarrow> bytes \<Rightarrow> bytes option" where
  "to_array n bs = (if length bs = n then Some bs else None)"

definition hex_array :: "prims \<Rightarrow> nat \<Rightarrow> string \<Rightarrow> bytes option" where
  "hex_array P n s = Option.bind (p_hex_decode P s) (to_array n)"

lemma hex_array_encode [simp]: "hex_ok P \<Longrightarrow> length b = n \<Longrightarrow> hex_array P n (p_hex_encode P b) = Some b"
  by (simp add: hex_array_def hex_ok_def to_array_def)

lemma hex_array_Some: "hex_array P n s = Some b \<longleftrightarrow> p_hex_decode P s = Some b \<and> length b = n"
  by (auto simp: hex_array_def to_array_def bind_eq_Some_conv)

text \<open>
  \<open>str::trim\<close>: the encodings of the Unicode white space characters are removed from both ends.
\<close>

definition ws_seqs :: "bytes list" where
  "ws_seqs = map (\<lambda>b. [b]) [9, 10, 11, 12, 13, 32] @ [[0xC2, 0x85], [0xC2, 0xA0], [0xE1, 0x9A, 0x80]]
     @ map (\<lambda>b. [0xE2, 0x80, b])
         [0x80, 0x81, 0x82, 0x83, 0x84, 0x85, 0x86, 0x87, 0x88, 0x89, 0x8A, 0xA8, 0xA9, 0xAF]
     @ [[0xE2, 0x81, 0x9F], [0xE3, 0x80, 0x80]]"

fun strip_seqs :: "nat \<Rightarrow> bytes list \<Rightarrow> bytes \<Rightarrow> bytes" where
  "strip_seqs 0 ws bs = bs"
| "strip_seqs (Suc n) ws bs =
     (case List.find (\<lambda>w. strip_prefix w bs \<noteq> None) ws of
        None \<Rightarrow> bs
      | Some w \<Rightarrow> strip_seqs n ws (drop (length w) bs))"

definition trim_bytes :: "bytes \<Rightarrow> bytes" where
  "trim_bytes bs =
     (let front = strip_seqs (length bs) ws_seqs bs
      in rev (strip_seqs (length front) (map rev ws_seqs) (rev front)))"

definition str_trim :: "string \<Rightarrow> string" where
  "str_trim s = text_of (trim_bytes (ascii s))"

lemma strip_seqs_none: "\<forall>w \<in> set ws. strip_prefix w bs = None \<Longrightarrow> strip_seqs n ws bs = bs"
  by (cases n) (auto simp: find_None_iff find_Some_iff split: option.splits)

text \<open>A visible ASCII character at both ends: nothing to trim.\<close>

lemma trim_bytes_id:
  assumes "bs \<noteq> []" "0x21 \<le> hd bs" "hd bs < 0x80" "0x21 \<le> last bs" "last bs < 0x80"
  shows "trim_bytes bs = bs"
proof -
  have at_front: "strip_prefix w (x # xs) = None"
    if "w \<in> set ws_seqs" "0x21 \<le> x" "x < 0x80" for w xs and x :: u8
    using that by (auto simp: ws_seqs_def)
  have at_back: "strip_prefix (rev w) (x # xs) = None"
    if "w \<in> set ws_seqs" "0x21 \<le> x" "x < 0x80" for w xs and x :: u8
    using that by (auto simp: ws_seqs_def)
  have "strip_seqs n ws_seqs bs = bs" for n
    using at_front [of _ "hd bs" "tl bs"] assms by (intro strip_seqs_none) auto
  moreover have "strip_seqs n (map rev ws_seqs) (rev bs) = rev bs" for n
  proof (rule strip_seqs_none, rule ballI)
    fix w
    assume "w \<in> set (map rev ws_seqs)"
    then obtain v where v: "w = rev v" "v \<in> set ws_seqs" by auto
    have "rev bs = last bs # rev (butlast bs)" using assms(1) by (metis append_butlast_last_id rev_eq_Cons_iff rev_rev_ident)
    then show "strip_prefix w (rev bs) = None" using at_back [OF v(2) assms(4,5)] v(1) by metis
  qed
  ultimately show ?thesis by (simp add: trim_bytes_def)
qed

text \<open>
  Slicing a string at a byte index panics unless the index is a character boundary
  (\<open>str::is_char_boundary\<close>). A computation that may panic returns an outcome.
\<close>

datatype 'a outcome = Returns 'a | Panics

definition is_char_boundary :: "string \<Rightarrow> nat \<Rightarrow> bool" where
  "is_char_boundary s i \<longleftrightarrow>
     i = 0 \<or> i = length s \<or> (i < length s \<and> \<not> utf8_cont (ascii s ! i))"

end
