(* ===== verification/Com.thy ===== *)
theory Com
  imports Session Utf8 "HOL-Library.Multiset"
begin

section \<open>End-to-end messages\<close>

text \<open>
  The messaging layer of phinet-core/src/com.rs: sealed one-to-one envelopes, signed group
  envelopes, contact addresses, unsend markers, the inbox of a recipient and the mailbox of a
  relay that holds envelopes for others.

  Shown: what is sealed is what the recipient opens, attributed to the sender; whatever opens was
  made with the static key it names; group messages round trip and carry a valid signature; an
  address is read back as written; the inbox stores a message id once and never again after a
  removal; a mailbox accepts an id once and keeps its boxes bounded.
\<close>

definition EPOCH_SECS :: u64 where [simp]: "EPOCH_SECS = 86400"

definition epoch_of :: "u64 \<Rightarrow> u64" where
  "epoch_of now = now div EPOCH_SECS"

definition blinded_addr :: "prims \<Rightarrow> bytes \<Rightarrow> u64 \<Rightarrow> string" where
  "blinded_addr P recipient_pub epoch =
     p_hex_encode P (hkdf_derive P recipient_pub (to_le epoch) (ascii ''com-mailbox-blind'') 32)"

subsection \<open>Envelopes\<close>

record com_envelope =
  ce_msg_id :: string
  ce_blinded_to :: string
  ce_epoch :: u64
  ce_ephem_pub :: string
  ce_timestamp :: u64
  ce_ciphertext :: string
  ce_auth_tag :: string

definition to_compact :: "prims \<Rightarrow> com_envelope \<Rightarrow> bytes option" where
  "to_compact P e =
     Option.bind (p_hex_decode P (ce_msg_id e)) (\<lambda>msg_id.
     Option.bind (p_hex_decode P (ce_blinded_to e)) (\<lambda>blinded.
     Option.bind (p_hex_decode P (ce_ephem_pub e)) (\<lambda>ephem.
     Option.bind (p_hex_decode P (ce_auth_tag e)) (\<lambda>tag.
     Option.bind (p_hex_decode P (ce_ciphertext e)) (\<lambda>ct.
       if length msg_id \<noteq> 16 \<or> length blinded \<noteq> 32 \<or> length ephem \<noteq> 32 \<or> length tag \<noteq> 16 then None
       else Some (msg_id @ blinded @ to_le (ce_epoch e) @ ephem @ to_le (ce_timestamp e) @ tag @ ct))))))"

definition from_compact :: "prims \<Rightarrow> bytes \<Rightarrow> com_envelope option" where
  "from_compact P b =
     (if length b < 112 then None
      else Some \<lparr>
        ce_msg_id = p_hex_encode P (slice 0 16 b),
        ce_blinded_to = p_hex_encode P (slice 16 48 b),
        ce_epoch = of_le (slice 48 56 b),
        ce_ephem_pub = p_hex_encode P (slice 56 88 b),
        ce_timestamp = of_le (slice 88 96 b),
        ce_ciphertext = p_hex_encode P (drop 112 b),
        ce_auth_tag = p_hex_encode P (slice 96 112 b) \<rparr>)"

record opened_message =
  om_msg_id :: bytes
  om_sender_id :: bytes
  om_sender_pub :: bytes
  om_timestamp :: u64
  om_body :: string

definition conf_key :: "prims \<Rightarrow> bytes \<Rightarrow> bytes \<Rightarrow> bytes" where
  "conf_key P ss ephem_pub = hkdf_derive P ss ephem_pub (ascii ''com-seal-conf'') 32"

definition auth_key :: "prims \<Rightarrow> bytes \<Rightarrow> bytes \<Rightarrow> bytes" where
  "auth_key P ss ephem_pub = hkdf_derive P ss ephem_pub (ascii ''com-seal-auth'') 32"

definition seal_aad :: "bytes \<Rightarrow> u64 \<Rightarrow> bytes" where
  "seal_aad ephem_pub ts = ephem_pub @ to_le ts"

text \<open>The ephemeral secret and the message id are the random draws of the source.\<close>

definition seal ::
  "prims \<Rightarrow> bytes \<Rightarrow> bytes \<Rightarrow> bytes \<Rightarrow> bytes \<Rightarrow> bytes \<Rightarrow> bytes \<Rightarrow> u64 \<Rightarrow> u64 \<Rightarrow> bytes \<Rightarrow> com_envelope" where
  "seal P e msg_id sender_secret sender_id sender_pub recipient_pub epoch timestamp plaintext =
     (let e_pub = p_x25519_pub P e;
          k_conf = conf_key P (p_x25519 P e recipient_pub) e_pub;
          inner = sender_id @ sender_pub @ plaintext;
          ct = aead_encrypt P k_conf 0 (seal_aad e_pub timestamp) inner;
          k_auth = auth_key P (p_x25519 P sender_secret recipient_pub) e_pub;
          tag = aead_encrypt P k_auth 0 ct []
      in \<lparr> ce_msg_id = p_hex_encode P msg_id, ce_blinded_to = blinded_addr P recipient_pub epoch,
           ce_epoch = epoch, ce_ephem_pub = p_hex_encode P e_pub, ce_timestamp = timestamp,
           ce_ciphertext = p_hex_encode P ct, ce_auth_tag = p_hex_encode P tag \<rparr>)"

definition addressed_to_us :: "prims \<Rightarrow> bytes \<Rightarrow> com_envelope \<Rightarrow> bool" where
  "addressed_to_us P our_pub env =
     (let e = ce_epoch env in
      list_ex (\<lambda>ep. blinded_addr P our_pub ep = ce_blinded_to env) [e - 1, e, e + 1])"

definition my_blinded_addrs :: "prims \<Rightarrow> bytes \<Rightarrow> u64 \<Rightarrow> string list" where
  "my_blinded_addrs P our_pub now =
     (let e = epoch_of now in
      [blinded_addr P our_pub (e - 1), blinded_addr P our_pub e, blinded_addr P our_pub (e + 1)])"

definition open_com :: "prims \<Rightarrow> bytes \<Rightarrow> bytes \<Rightarrow> com_envelope \<Rightarrow> opened_message result" where
  "open_com P our_secret our_pub env =
     (if \<not> addressed_to_us P our_pub env then Inl (Crypto ''com: not addressed to us'')
      else
        and_then (ok_or (Crypto ''com: bad ephem_pub'') (hex_array P 32 (ce_ephem_pub env))) (\<lambda>ephem_pub.
        and_then (ok_or (Crypto ''com: bad msg_id'') (hex_array P 16 (ce_msg_id env))) (\<lambda>msg_id.
        and_then (ok_or (Crypto ''com: bad ciphertext hex'') (p_hex_decode P (ce_ciphertext env))) (\<lambda>ct.
        and_then (ok_or (Crypto ''com: bad auth_tag hex'') (p_hex_decode P (ce_auth_tag env))) (\<lambda>tag.
        let k_conf = conf_key P (p_x25519 P our_secret ephem_pub) ephem_pub;
            aad = seal_aad ephem_pub (ce_timestamp env)
        in and_then (aead_decrypt P k_conf 0 aad ct) (\<lambda>inner.
             if length inner < 64 then Inl (Crypto ''com: inner too short'')
             else
               let sender_id = slice 0 32 inner;
                   sender_pub = slice 32 64 inner;
                   body = from_utf8_lossy (drop 64 inner);
                   k_auth = auth_key P (p_x25519 P our_secret sender_pub) ephem_pub
               in case aead_decrypt P k_auth 0 ct tag of
                    Inl _ \<Rightarrow> Inl (Crypto ''com: sender authentication failed'')
                  | Inr _ \<Rightarrow>
                      Inr \<lparr> om_msg_id = msg_id, om_sender_id = sender_id, om_sender_pub = sender_pub,
                            om_timestamp = ce_timestamp env, om_body = body \<rparr>))))))"

subsection \<open>Groups\<close>

record com_group =
  gr_id :: bytes
  gr_name :: string
  gr_key :: bytes
  gr_members :: "bytes list"
  gr_is_channel :: bool
  gr_admins :: "bytes list"
  gr_signer_keys :: "(bytes \<times> bytes) list"

definition group_create :: "bytes \<Rightarrow> bytes \<Rightarrow> string \<Rightarrow> bytes \<Rightarrow> bytes \<Rightarrow> bool \<Rightarrow> com_group" where
  "group_create group_id key name creator creator_sign_pub is_channel =
     \<lparr> gr_id = group_id, gr_name = name, gr_key = key, gr_members = [creator],
       gr_is_channel = is_channel, gr_admins = [creator],
       gr_signer_keys = [(creator, creator_sign_pub)] \<rparr>"

text \<open>The first entry of the id; the list is searched from its start.\<close>

definition signer_of :: "com_group \<Rightarrow> bytes \<Rightarrow> bytes option" where
  "signer_of g node_id = map_of (gr_signer_keys g) node_id"

definition bind_signer :: "bytes \<Rightarrow> bytes \<Rightarrow> com_group \<Rightarrow> com_group \<times> bool result" where
  "bind_signer node_id sign_pub g =
     (case signer_of g node_id of
        Some existing \<Rightarrow>
          if existing = sign_pub then (g, Inr False)
          else (g, Inl (Crypto ''com: group signer key conflict''))
      | None \<Rightarrow> (g\<lparr>gr_signer_keys := gr_signer_keys g @ [(node_id, sign_pub)]\<rparr>, Inr True))"

definition group_blinded_addr :: "prims \<Rightarrow> com_group \<Rightarrow> u64 \<Rightarrow> string" where
  "group_blinded_addr P g epoch =
     p_hex_encode P (hkdf_derive P (gr_id g) (to_le epoch) (ascii ''com-group-blind'') 32)"

definition group_blinded_addrs :: "prims \<Rightarrow> com_group \<Rightarrow> u64 \<Rightarrow> string list" where
  "group_blinded_addrs P g now =
     (let e = epoch_of now in
      [group_blinded_addr P g (e - 1), group_blinded_addr P g e, group_blinded_addr P g (e + 1)])"

definition group_signer :: "prims \<Rightarrow> bytes \<Rightarrow> bytes" where
  "group_signer P static_secret =
     hkdf_derive P static_secret (ascii ''com-group-signer'') (ascii ''phinet-com-v1'') 32"

definition group_sign_pub :: "prims \<Rightarrow> bytes \<Rightarrow> bytes" where
  "group_sign_pub P static_secret = p_ed_public P (group_signer P static_secret)"

definition group_sig_transcript :: "bytes \<Rightarrow> bytes \<Rightarrow> u64 \<Rightarrow> bytes \<Rightarrow> bytes \<Rightarrow> bytes" where
  "group_sig_transcript group_id salt ts sender_id body = group_id @ salt @ to_le ts @ sender_id @ body"

record group_envelope =
  ge_msg_id :: string
  ge_group_id :: string
  ge_blinded_to :: string
  ge_epoch :: u64
  ge_timestamp :: u64
  ge_ciphertext :: string
  ge_signature :: string

definition group_msg_key :: "prims \<Rightarrow> bytes \<Rightarrow> bytes \<Rightarrow> bytes" where
  "group_msg_key P group_key salt = hkdf_derive P group_key salt (ascii ''com-group-msg'') 32"

definition seal_group ::
  "prims \<Rightarrow> bytes \<Rightarrow> com_group \<Rightarrow> bytes \<Rightarrow> bytes \<Rightarrow> u64 \<Rightarrow> u64 \<Rightarrow> bytes \<Rightarrow> group_envelope" where
  "seal_group P salt g sender_id signer epoch timestamp plaintext =
     (let sign_pub = p_ed_public P signer;
          inner = sender_id @ sign_pub @ plaintext;
          mk = group_msg_key P (gr_key g) salt;
          ct = aead_encrypt P mk 0 (gr_id g @ to_le timestamp) inner;
          sig = p_ed_sign P signer (group_sig_transcript (gr_id g) salt timestamp sender_id plaintext)
      in \<lparr> ge_msg_id = p_hex_encode P salt, ge_group_id = p_hex_encode P (gr_id g),
           ge_blinded_to = group_blinded_addr P g epoch, ge_epoch = epoch, ge_timestamp = timestamp,
           ge_ciphertext = p_hex_encode P ct, ge_signature = p_hex_encode P sig \<rparr>)"

definition open_group :: "prims \<Rightarrow> com_group \<Rightarrow> group_envelope \<Rightarrow> (bytes \<times> bytes \<times> string) result" where
  "open_group P g env =
     and_then (ok_or (Crypto ''com: bad group msg salt'') (hex_array P 16 (ge_msg_id env))) (\<lambda>salt.
     and_then (ok_or (Crypto ''com: bad group ciphertext'') (p_hex_decode P (ge_ciphertext env))) (\<lambda>ct.
     let mk = group_msg_key P (gr_key g) salt in
     and_then (aead_decrypt P mk 0 (gr_id g @ to_le (ge_timestamp env)) ct) (\<lambda>inner.
       if length inner < 64 then Inl (Crypto ''com: group inner too short'')
       else
         let sender_id = slice 0 32 inner;
             sign_pub = slice 32 64 inner;
             body = drop 64 inner
         in if \<not> p_ed_key_ok P sign_pub then Inl (Crypto ''com: bad group sign_pub'')
            else and_then (ok_or (Crypto ''com: bad group signature'') (hex_array P 64 (ge_signature env))) (\<lambda>sig.
              if p_ed_verify P sign_pub (group_sig_transcript (gr_id g) salt (ge_timestamp env) sender_id body) sig
              then Inr (sender_id, sign_pub, from_utf8_lossy body)
              else Inl (Crypto ''com: group signature verify failed'')))))"

text \<open>
  The invite is serialised by serde_json (\<open>enc\<close>, \<open>dec\<close>), with the kind beside the group.
\<close>

definition encode_invite :: "(string \<times> com_group \<Rightarrow> string option) \<Rightarrow> com_group \<Rightarrow> string" where
  "encode_invite enc g = (case enc (''group-invite'', g) of None \<Rightarrow> [] | Some s \<Rightarrow> s)"

definition decode_invite :: "(string \<Rightarrow> (string \<times> com_group) option) \<Rightarrow> string \<Rightarrow> com_group option" where
  "decode_invite dec body =
     Option.bind (dec body) (\<lambda>(kind, g). if kind = ''group-invite'' then Some g else None)"

subsection \<open>Addresses and unsend markers\<close>

definition address_encode :: "prims \<Rightarrow> bytes \<Rightarrow> bytes \<Rightarrow> string" where
  "address_encode P node_id static_pub = ''phi:'' @ p_hex_encode P node_id @ p_hex_encode P static_pub"

definition address_decode :: "prims \<Rightarrow> string \<Rightarrow> (bytes \<times> bytes) option outcome" where
  "address_decode P text =
     (let s0 = str_trim text;
          s = (case strip_prefix ''phi:'' s0 of Some r \<Rightarrow> r | None \<Rightarrow> s0)
      in if length s \<noteq> 128 then Returns None
         else if \<not> is_char_boundary s 64 then Panics
         else Returns
           (Option.bind (hex_array P 32 (take 64 s)) (\<lambda>node_id.
            Option.bind (hex_array P 32 (drop 64 s)) (\<lambda>static_pub.
              Some (node_id, static_pub)))))"

definition DELETE_PREFIX :: string where
  "DELETE_PREFIX = CHR 0x01 # ''com-delete'' @ [CHR 0x01]"

definition encode_delete :: "prims \<Rightarrow> bytes \<Rightarrow> string" where
  "encode_delete P msg_id = DELETE_PREFIX @ p_hex_encode P msg_id"

definition decode_delete :: "prims \<Rightarrow> string \<Rightarrow> bytes option" where
  "decode_delete P body = Option.bind (strip_prefix DELETE_PREFIX body) (hex_array P 16)"

subsection \<open>Inbox\<close>

record stored_message =
  sm_msg_id :: bytes
  sm_peer_id :: bytes
  sm_outgoing :: bool
  sm_timestamp :: u64
  sm_body :: string

record inbox =
  ib_messages :: "stored_message list"
  ib_seen :: "bytes set"

definition inbox_new :: inbox where
  "inbox_new = \<lparr> ib_messages = [], ib_seen = {} \<rparr>"

definition inbox_record :: "stored_message \<Rightarrow> inbox \<Rightarrow> bool \<times> inbox" where
  "inbox_record m b =
     (if sm_msg_id m \<in> ib_seen b then (False, b)
      else (True, b\<lparr>ib_messages := ib_messages b @ [m], ib_seen := insert (sm_msg_id m) (ib_seen b)\<rparr>))"

definition inbox_conversation :: "bytes \<Rightarrow> inbox \<Rightarrow> stored_message list" where
  "inbox_conversation peer b =
     sort_key sm_timestamp (filter (\<lambda>m. sm_peer_id m = peer) (ib_messages b))"

definition inbox_remove :: "bytes \<Rightarrow> inbox \<Rightarrow> bool \<times> inbox" where
  "inbox_remove msg_id b =
     (let kept = filter (\<lambda>m. sm_msg_id m \<noteq> msg_id) (ib_messages b)
      in (length (ib_messages b) \<noteq> length kept,
          b\<lparr>ib_messages := kept, ib_seen := insert msg_id (ib_seen b)\<rparr>))"

text \<open>
  \<open>threads\<close> iterates over a hash map of its own; the order of the iteration is the parameter
  \<open>iter\<close>. The sort is stable and descending.
\<close>

definition last_active :: "stored_message list \<Rightarrow> (bytes, u64) hmap" where
  "last_active ms =
     foldl (\<lambda>m x. hm_insert (sm_peer_id x)
              (max (case hm_get m (sm_peer_id x) of None \<Rightarrow> 0 | Some t \<Rightarrow> t) (sm_timestamp x)) m) [] ms"

definition inbox_threads ::
  "((bytes \<times> u64) list \<Rightarrow> (bytes \<times> u64) list) \<Rightarrow> inbox \<Rightarrow> bytes list" where
  "inbox_threads iter b =
     map fst (sort_key (\<lambda>p. - int (unat (snd p))) (iter (last_active (ib_messages b))))"

definition inbox_len :: "inbox \<Rightarrow> nat" where
  "inbox_len b = length (ib_messages b)"

definition inbox_is_empty :: "inbox \<Rightarrow> bool" where
  "inbox_is_empty b \<longleftrightarrow> ib_messages b = []"

text \<open>Persistence: the messages go through serde_json, the set of seen ids is rebuilt from them.\<close>

definition inbox_to_json :: "(stored_message list \<Rightarrow> string option) \<Rightarrow> inbox \<Rightarrow> string" where
  "inbox_to_json enc b = (case enc (ib_messages b) of None \<Rightarrow> ''[]'' | Some s \<Rightarrow> s)"

definition inbox_from_json :: "(string \<Rightarrow> stored_message list option) \<Rightarrow> string \<Rightarrow> inbox" where
  "inbox_from_json dec s =
     (let messages = (case dec s of None \<Rightarrow> [] | Some ms \<Rightarrow> ms)
      in \<lparr> ib_messages = messages, ib_seen = sm_msg_id ` set messages \<rparr>)"

subsection \<open>Mailbox\<close>

record mailbox =
  mb_boxes :: "(string, (u64 \<times> com_envelope) list) hmap"
  mb_gboxes :: "(string, (u64 \<times> group_envelope) list) hmap"
  mb_seen :: "string set"
  mb_ttl_secs :: u64
  mb_max_per_box :: nat

definition mailbox_new :: "u64 \<Rightarrow> mailbox" where
  "mailbox_new ttl_secs =
     \<lparr> mb_boxes = [], mb_gboxes = [], mb_seen = {}, mb_ttl_secs = ttl_secs, mb_max_per_box = 256 \<rparr>"

text \<open>Append to the box of an address (\<open>entry().or_default()\<close>) and drop the oldest overflow.\<close>

definition box_push ::
  "nat \<Rightarrow> string \<Rightarrow> u64 \<times> 'e \<Rightarrow> (string, (u64 \<times> 'e) list) hmap \<Rightarrow> (string, (u64 \<times> 'e) list) hmap" where
  "box_push cap addr x boxes =
     (let b = (case hm_get boxes addr of None \<Rightarrow> [] | Some b \<Rightarrow> b) @ [x]
      in hm_insert addr (if cap < length b then drop (length b - cap) b else b) boxes)"

definition mailbox_store :: "com_envelope \<Rightarrow> u64 \<Rightarrow> mailbox \<Rightarrow> bool \<times> mailbox" where
  "mailbox_store env now mb =
     (if ce_msg_id env \<in> mb_seen mb then (False, mb)
      else (True, mb\<lparr>mb_seen := insert (ce_msg_id env) (mb_seen mb),
        mb_boxes := box_push (mb_max_per_box mb) (ce_blinded_to env) (now, env) (mb_boxes mb)\<rparr>))"

definition mailbox_store_group :: "group_envelope \<Rightarrow> u64 \<Rightarrow> mailbox \<Rightarrow> bool \<times> mailbox" where
  "mailbox_store_group env now mb =
     (if ''g:'' @ ge_msg_id env \<in> mb_seen mb then (False, mb)
      else (True, mb\<lparr>mb_seen := insert (''g:'' @ ge_msg_id env) (mb_seen mb),
        mb_gboxes := box_push (mb_max_per_box mb) (ge_blinded_to env) (now, env) (mb_gboxes mb)\<rparr>))"

definition mailbox_peek :: "string \<Rightarrow> mailbox \<Rightarrow> com_envelope list" where
  "mailbox_peek blinded mb =
     (case hm_get (mb_boxes mb) blinded of None \<Rightarrow> [] | Some v \<Rightarrow> map snd v)"

definition mailbox_peek_group :: "string \<Rightarrow> mailbox \<Rightarrow> group_envelope list" where
  "mailbox_peek_group blinded mb =
     (case hm_get (mb_gboxes mb) blinded of None \<Rightarrow> [] | Some v \<Rightarrow> map snd v)"

definition evict_boxes ::
  "u64 \<Rightarrow> u64 \<Rightarrow> (string, (u64 \<times> 'e) list) hmap \<Rightarrow> (string, (u64 \<times> 'e) list) hmap" where
  "evict_boxes ttl now boxes =
     hm_retain (\<lambda>_ v. v \<noteq> [])
       (map (\<lambda>(a, v). (a, filter (\<lambda>(t, _). sat_sub now t < ttl) v)) boxes)"

definition mailbox_evict_expired :: "u64 \<Rightarrow> mailbox \<Rightarrow> mailbox" where
  "mailbox_evict_expired now mb =
     mb\<lparr>mb_boxes := evict_boxes (mb_ttl_secs mb) now (mb_boxes mb),
       mb_gboxes := evict_boxes (mb_ttl_secs mb) now (mb_gboxes mb)\<rparr>"

definition mailbox_len :: "mailbox \<Rightarrow> nat" where
  "mailbox_len mb =
     sum_list (map (length \<circ> snd) (mb_boxes mb)) + sum_list (map (length \<circ> snd) (mb_gboxes mb))"

definition mailbox_is_empty :: "mailbox \<Rightarrow> bool" where
  "mailbox_is_empty mb \<longleftrightarrow> mailbox_len mb = 0"

subsection \<open>Sealing and opening\<close>

lemma slice_drop_prefix [simp]:
  "length a = 32 \<Longrightarrow> length b = 32 \<Longrightarrow>
   slice 0 32 (a @ b @ c) = a \<and> slice 32 64 (a @ b @ c) = b \<and> drop 64 (a @ b @ c) = c"
  by (simp add: slice_def)

lemma addressed_seal [simp]:
  "addressed_to_us P r (seal P e msg_id sk sid spub r epoch ts pt)"
  by (simp add: addressed_to_us_def seal_def Let_def)

lemma hex_decode_encode [simp]: "hex_ok P \<Longrightarrow> p_hex_decode P (p_hex_encode P b) = Some b"
  by (simp add: hex_ok_def)

lemma dh_pub_len [simp]: "dh_ok P \<Longrightarrow> length (p_x25519_pub P a) = 32"
  by (simp add: dh_ok_def)

lemma dh_swap: "dh_ok P \<Longrightarrow> p_x25519 P a (p_x25519_pub P b) = p_x25519 P b (p_x25519_pub P a)"
  by (simp add: dh_ok_def)

lemma open_com_seal:
  assumes "dh_ok P" "aead_ok P" "hex_ok P" "length sid = 32" "length msg_id = 16"
  shows "open_com P r (p_x25519_pub P r)
      (seal P e msg_id sk sid (p_x25519_pub P sk) (p_x25519_pub P r) epoch ts pt)
    = Inr \<lparr> om_msg_id = msg_id, om_sender_id = sid, om_sender_pub = p_x25519_pub P sk,
            om_timestamp = ts, om_body = from_utf8_lossy pt \<rparr>"
  using assms addressed_seal [of P "p_x25519_pub P r" e msg_id sk sid "p_x25519_pub P sk" epoch ts pt]
  by (simp add: open_com_def seal_def Let_def dh_swap [of P r e] dh_swap [of P sk r])

lemma aead_decrypt_InrD:
  "aead_exact P \<Longrightarrow> aead_decrypt P k n a c = Inr m \<Longrightarrow> c = aead_encrypt P k n a m"
  by (auto simp: aead_decrypt_def aead_encrypt_def aead_exact_def)

lemma length_split3: "64 \<le> length xs \<Longrightarrow> xs = slice 0 32 xs @ slice 32 64 xs @ drop 64 xs"
proof -
  assume "64 \<le> length xs"
  have "slice 0 32 xs @ slice 32 64 xs = take 64 xs"
    by (simp add: slice_def) (metis add.commute take_add numeral_plus_numeral semiring_norm(6) semiring_norm(2))
  then show ?thesis by (metis append.assoc append_take_drop_id)
qed

lemma open_com_InrD:
  assumes "aead_exact P" "open_com P r rpub env = Inr m"
  obtains ephem ct tag raw mm where
    "p_hex_decode P (ce_ephem_pub env) = Some ephem" "length ephem = 32"
    "p_hex_decode P (ce_msg_id env) = Some (om_msg_id m)" "om_timestamp m = ce_timestamp env"
    "p_hex_decode P (ce_ciphertext env) = Some ct" "p_hex_decode P (ce_auth_tag env) = Some tag"
    "ct = aead_encrypt P (conf_key P (p_x25519 P r ephem) ephem) 0
            (seal_aad ephem (ce_timestamp env)) (om_sender_id m @ om_sender_pub m @ raw)"
    "tag = aead_encrypt P (auth_key P (p_x25519 P r (om_sender_pub m)) ephem) 0 ct mm"
    "length (om_sender_id m) = 32" "length (om_sender_pub m) = 32" "om_body m = from_utf8_lossy raw"
    "addressed_to_us P rpub env"
proof -
  from assms(2) obtain ephem msg_id ct tag inner mm where *:
      "addressed_to_us P rpub env"
      "hex_array P 32 (ce_ephem_pub env) = Some ephem"
      "hex_array P 16 (ce_msg_id env) = Some msg_id"
      "p_hex_decode P (ce_ciphertext env) = Some ct" "p_hex_decode P (ce_auth_tag env) = Some tag"
      "aead_decrypt P (conf_key P (p_x25519 P r ephem) ephem) 0 (seal_aad ephem (ce_timestamp env)) ct = Inr inner"
      "64 \<le> length inner"
      "aead_decrypt P (auth_key P (p_x25519 P r (slice 32 64 inner)) ephem) 0 ct tag = Inr mm"
      "m = \<lparr> om_msg_id = msg_id, om_sender_id = slice 0 32 inner, om_sender_pub = slice 32 64 inner,
             om_timestamp = ce_timestamp env, om_body = from_utf8_lossy (drop 64 inner) \<rparr>"
    by (auto simp: open_com_def Let_def and_then_Inr_iff not_less split: if_splits sum.splits)
  show thesis
    by (rule that [of ephem ct tag "drop 64 inner" mm])
      (use * aead_decrypt_InrD [OF assms(1) *(6)] aead_decrypt_InrD [OF assms(1) *(8)]
        length_split3 [OF *(7)] in \<open>auto simp: hex_array_Some\<close>)
qed

lemma open_group_seal:
  assumes "aead_ok P" "hex_ok P" "ed_ok P" "length sid = 32" "length salt = 16"
  shows "open_group P g (seal_group P salt g sid signer epoch ts pt)
    = Inr (sid, p_ed_public P signer, from_utf8_lossy pt)"
  using assms by (simp add: open_group_def seal_group_def Let_def ed_ok_def)

lemma open_group_verified:
  assumes "open_group P g env = Inr (sid, pub, body)"
  shows "\<exists>salt raw sig. p_hex_decode P (ge_msg_id env) = Some salt \<and> body = from_utf8_lossy raw
    \<and> p_ed_key_ok P pub \<and> length sid = 32 \<and> length pub = 32
    \<and> p_ed_verify P pub (group_sig_transcript (gr_id g) salt (ge_timestamp env) sid raw) sig"
  using assms
  by (auto simp: open_group_def Let_def and_then_Inr_iff hex_array_Some not_less split: if_splits)

subsection \<open>Codecs\<close>

lemma to_compact_from_compact:
  assumes "hex_ok P" "112 \<le> length b"
  shows "\<exists>e. from_compact P b = Some e \<and> to_compact P e = Some b"
proof -
  let ?e = "\<lparr> ce_msg_id = p_hex_encode P (slice 0 16 b),
        ce_blinded_to = p_hex_encode P (slice 16 48 b), ce_epoch = of_le (slice 48 56 b),
        ce_ephem_pub = p_hex_encode P (slice 56 88 b), ce_timestamp = of_le (slice 88 96 b),
        ce_ciphertext = p_hex_encode P (drop 112 b), ce_auth_tag = p_hex_encode P (slice 96 112 b) \<rparr>"
  have parts: "slice 0 16 b @ slice 16 48 b @ slice 48 56 b @ slice 56 88 b @ slice 88 96 b
      @ slice 96 112 b @ drop 112 b = b"
  proof -
    have j: "i \<le> j \<Longrightarrow> slice i j b @ drop j b = drop i b" for i j
      unfolding slice_def by (metis append_take_drop_id drop_drop le_add_diff_inverse2)
    show ?thesis using j [of 96 112] j [of 88 96] j [of 56 88] j [of 48 56] j [of 16 48] j [of 0 16] by simp
  qed
  have "to_compact P ?e = Some b"
    using assms parts by (simp add: to_compact_def to_le_of_le)
  then show ?thesis using assms(2) by (intro exI [of _ ?e]) (simp add: from_compact_def)
qed

lemma from_compact_to_compact:
  assumes "hex_ok P" "e = \<lparr> ce_msg_id = p_hex_encode P a, ce_blinded_to = p_hex_encode P b, ce_epoch = ep,
      ce_ephem_pub = p_hex_encode P c, ce_timestamp = ts, ce_ciphertext = p_hex_encode P d,
      ce_auth_tag = p_hex_encode P t \<rparr>" "length a = 16" "length b = 32" "length c = 32" "length t = 16"
  shows "Option.bind (to_compact P e) (from_compact P) = Some e"
  using assms by (simp add: to_compact_def from_compact_def slice_simps)

lemma hex_chars_visible: "c \<in> set hex_digits \<Longrightarrow> 0x21 \<le> (of_nat (of_char c) :: u8) \<and> (of_nat (of_char c) :: u8) < 0x80"
  by (auto simp: hex_digits_def)

lemma address_trim:
  assumes "hex_ok P" "hex_lower P" "length b = 32"
  shows "str_trim (address_encode P a b) = address_encode P a b"
proof -
  let ?s = "address_encode P a b"
  have ne: "p_hex_encode P b \<noteq> []" using assms(1,3) by (auto simp: hex_ok_def dest: spec [of _ b])
  then have "last ?s \<in> set (p_hex_encode P b)" by (simp add: address_encode_def)
  then have l: "last ?s \<in> set hex_digits" using assms(2) by (auto simp: hex_lower_def)
  have la: "last (ascii ?s) = of_nat (of_char (last ?s))"
    unfolding ascii_def by (rule last_map) (simp add: address_encode_def)
  have "trim_bytes (ascii ?s) = ascii ?s"
    by (rule trim_bytes_id)
      (use hex_chars_visible [OF l] in \<open>simp_all only: la\<close>, simp_all add: address_encode_def ascii_def)
  then show ?thesis by (simp add: str_trim_def)
qed

lemma address_decode_encode:
  assumes "hex_ok P" "hex_lower P" "length a = 32" "length b = 32"
  shows "address_decode P (address_encode P a b) = Returns (Some (a, b))"
proof -
  let ?h = "p_hex_encode P a @ p_hex_encode P b"
  have len: "length (p_hex_encode P a) = 64" "length (p_hex_encode P b) = 64"
    using assms by (simp_all add: hex_ok_def)
  then have "?h ! 64 \<in> set (p_hex_encode P b)" by (simp add: nth_append)
  then have "?h ! 64 \<in> set hex_digits" using assms(2) by (auto simp: hex_lower_def)
  note visible = hex_chars_visible [OF this]
  have "ascii ?h ! 64 = of_nat (of_char (?h ! 64))"
    unfolding ascii_def by (rule nth_map) (simp add: len)
  with visible have "ascii ?h ! 64 < 0x80" by (simp only:)
  then have "is_char_boundary ?h 64"
    using len by (simp add: is_char_boundary_def utf8_cont_def not_le)
  moreover have "strip_prefix ''phi:'' (address_encode P a b) = Some ?h"
    by (simp add: address_encode_def)
  ultimately show ?thesis
    using assms len by (simp add: address_decode_def address_trim Let_def)
qed

subsection \<open>Inbox\<close>

datatype inbox_event = InboxRecord stored_message | InboxRemove bytes

fun inbox_io :: "inbox_event \<Rightarrow> inbox \<Rightarrow> inbox" where
  "inbox_io (InboxRecord m) b = snd (inbox_record m b)"
| "inbox_io (InboxRemove i) b = snd (inbox_remove i b)"

abbreviation inbox_run :: "inbox_event list \<Rightarrow> inbox \<Rightarrow> inbox" where
  "inbox_run evs b \<equiv> fold inbox_io evs b"

definition inbox_wf :: "inbox \<Rightarrow> bool" where
  "inbox_wf b \<longleftrightarrow> distinct (map sm_msg_id (ib_messages b)) \<and> sm_msg_id ` set (ib_messages b) \<subseteq> ib_seen b"

lemma inbox_wf_new [simp]: "inbox_wf inbox_new"
  by (simp add: inbox_wf_def inbox_new_def)

lemma inbox_io_wf: "inbox_wf b \<Longrightarrow> inbox_wf (inbox_io ev b)"
  by (cases ev)
    (auto simp: inbox_wf_def inbox_record_def inbox_remove_def Let_def distinct_map_filter)

lemma inbox_run_wf: "inbox_wf b \<Longrightarrow> inbox_wf (inbox_run evs b)"
  by (induction evs arbitrary: b) (simp_all add: inbox_io_wf)

lemma inbox_seen_mono: "ib_seen b \<subseteq> ib_seen (inbox_run evs b)"
proof (induction evs arbitrary: b)
  case (Cons ev evs)
  have "ib_seen b \<subseteq> ib_seen (inbox_io ev b)"
    by (cases ev) (auto simp: inbox_record_def inbox_remove_def Let_def)
  with Cons [of "inbox_io ev b"] show ?case by simp
qed simp

lemma inbox_tombstone:
  assumes "i \<in> ib_seen b" "i \<notin> sm_msg_id ` set (ib_messages b)"
  shows "i \<notin> sm_msg_id ` set (ib_messages (inbox_run evs b))"
  using assms
proof (induction evs arbitrary: b)
  case (Cons ev evs)
  have "i \<in> ib_seen (inbox_io ev b) \<and> i \<notin> sm_msg_id ` set (ib_messages (inbox_io ev b))"
    using Cons.prems by (cases ev) (auto simp: inbox_record_def inbox_remove_def Let_def)
  with Cons.IH show ?case by simp
qed simp

lemma last_active_wf [simp]: "hm_wf (last_active ms)"
  by (induction ms rule: rev_induct) (simp_all add: last_active_def hm.wf_ins)

lemma last_active_snoc:
  "last_active (ms @ [m]) = hm_insert (sm_peer_id m)
     (max (case hm_get (last_active ms) (sm_peer_id m) of None \<Rightarrow> 0 | Some t \<Rightarrow> t) (sm_timestamp m)) (last_active ms)"
  by (simp add: last_active_def)

lemma last_active_get:
  "hm_get (last_active ms) p =
     (let T = sm_timestamp ` {m \<in> set ms. sm_peer_id m = p} in if T = {} then None else Some (Max T))"
proof (induction ms rule: rev_induct)
  case (snoc m ms)
  let ?T = "\<lambda>xs. sm_timestamp ` {m \<in> set xs. sm_peer_id m = p}"
  have fin: "finite (?T ms)" by simp
  show ?case
  proof (cases "sm_peer_id m = p")
    case True
    then have e: "?T (ms @ [m]) = insert (sm_timestamp m) (?T ms)" by auto
    show ?thesis
    proof (cases "?T ms = {}")
      case empty: True
      then have "hm_get (last_active ms) p = None" using snoc by simp
      then show ?thesis using True unfolding e last_active_snoc empty by (simp add: update_conv')
    next
      case False
      then have "hm_get (last_active ms) p = Some (Max (?T ms))" using snoc by simp
      then show ?thesis
        using True False fin unfolding e last_active_snoc
        by (simp add: update_conv' Max_insert max.commute Let_def del: image_is_empty)
    qed
  next
    case False
    have e: "?T (ms @ [m]) = ?T ms" using False by auto
    show ?thesis using False snoc unfolding e by (simp add: last_active_snoc update_conv')
  qed
qed (simp add: last_active_def)

subsection \<open>Mailbox\<close>

datatype mailbox_event = MbStore com_envelope u64 | MbStoreGroup group_envelope u64 | MbEvict u64

fun mailbox_io :: "mailbox_event \<Rightarrow> mailbox \<Rightarrow> mailbox" where
  "mailbox_io (MbStore env now) mb = snd (mailbox_store env now mb)"
| "mailbox_io (MbStoreGroup env now) mb = snd (mailbox_store_group env now mb)"
| "mailbox_io (MbEvict now) mb = mailbox_evict_expired now mb"

abbreviation mailbox_run :: "mailbox_event list \<Rightarrow> mailbox \<Rightarrow> mailbox" where
  "mailbox_run evs mb \<equiv> fold mailbox_io evs mb"

text \<open>
  The contract of a box store: boxes are bounded, an entry lies in the box of its address, and ids
  are unique over all boxes. Both kinds of envelope provide it.
\<close>

definition boxes_ok :: "nat \<Rightarrow> ('e \<Rightarrow> string) \<Rightarrow> ('e \<Rightarrow> string) \<Rightarrow> string set
    \<Rightarrow> (string, (u64 \<times> 'e) list) hmap \<Rightarrow> bool" where
  "boxes_ok cap addr ident seen boxes \<longleftrightarrow> hm_wf boxes
     \<and> (\<forall>a b. hm_get boxes a = Some b \<longrightarrow> length b \<le> cap \<and> (\<forall>x \<in> set b. addr (snd x) = a \<and> ident (snd x) \<in> seen)
          \<and> distinct (map (ident \<circ> snd) b))
     \<and> (\<forall>a b c d x y. hm_get boxes a = Some b \<longrightarrow> hm_get boxes c = Some d \<longrightarrow> x \<in> set b \<longrightarrow> y \<in> set d
          \<longrightarrow> ident (snd x) = ident (snd y) \<longrightarrow> a = c)"

lemma boxes_ok_Nil [simp]: "boxes_ok cap addr ident seen []"
  by (simp add: boxes_ok_def)

lemma boxes_ok_seen_mono: "boxes_ok cap addr ident seen boxes \<Longrightarrow> seen \<subseteq> seen' \<Longrightarrow> boxes_ok cap addr ident seen' boxes"
  unfolding boxes_ok_def by blast

lemma boxes_ok_sub:
  assumes "boxes_ok cap addr ident seen boxes" "hm_wf boxes'"
    and "\<And>a b'. hm_get boxes' a = Some b' \<Longrightarrow> \<exists>b P. hm_get boxes a = Some b \<and> b' = filter P b"
  shows "boxes_ok cap addr ident seen boxes'"
  unfolding boxes_ok_def
proof (intro conjI allI impI)
  show "hm_wf boxes'" by (rule assms(2))
next
  fix a b'
  assume "hm_get boxes' a = Some b'"
  then obtain b P where b: "hm_get boxes a = Some b" "b' = filter P b" using assms(3) by blast
  with assms(1) show "length b' \<le> cap" unfolding boxes_ok_def by (meson le_trans length_filter_le)
  from b assms(1) show "\<forall>x\<in>set b'. addr (snd x) = a \<and> ident (snd x) \<in> seen"
    unfolding boxes_ok_def by simp
  from b assms(1) show "distinct (map (ident \<circ> snd) b')"
    unfolding boxes_ok_def by (simp add: distinct_map_filter)
next
  fix a b' c d' x y
  assume h: "hm_get boxes' a = Some b'" "hm_get boxes' c = Some d'" "x \<in> set b'" "y \<in> set d'"
    "ident (snd x) = ident (snd y)"
  from assms(3) [OF h(1)] assms(3) [OF h(2)] h(3,4) obtain b d where
    "hm_get boxes a = Some b" "hm_get boxes c = Some d" "x \<in> set b" "y \<in> set d" by auto
  with assms(1) h(5) show "a = c" unfolding boxes_ok_def by blast
qed

lemma box_push_get:
  "hm_get (box_push cap a x boxes) c =
     (if c = a then let b = (case hm_get boxes a of None \<Rightarrow> [] | Some b \<Rightarrow> b) @ [x]
                    in Some (drop (length b - cap) b) else hm_get boxes c)"
  by (simp add: box_push_def Let_def update_conv')

lemma boxes_ok_push:
  assumes ok: "boxes_ok cap addr ident seen boxes" and cap: "0 < cap" and new: "ident e \<notin> seen"
  shows "boxes_ok cap addr ident (insert (ident e) seen) (box_push cap (addr e) (t, e) boxes)"
proof -
  define old where "old = (case hm_get boxes (addr e) of None \<Rightarrow> [] | Some b \<Rightarrow> b)"
  define b where "b = drop (length (old @ [(t, e)]) - cap) (old @ [(t, e)])"
  have getb: "hm_get (box_push cap (addr e) (t, e) boxes) c = (if c = addr e then Some b else hm_get boxes c)" for c
    by (simp add: box_push_get old_def b_def Let_def)
  have old: "\<forall>x \<in> set old. addr (snd x) = addr e \<and> ident (snd x) \<in> seen" "distinct (map (ident \<circ> snd) old)"
  proof -
    have "(\<forall>x \<in> set d. addr (snd x) = addr e \<and> ident (snd x) \<in> seen) \<and> distinct (map (ident \<circ> snd) d)"
      if "hm_get boxes (addr e) = Some d" for d
      using ok that unfolding boxes_ok_def by blast
    then show "\<forall>x \<in> set old. addr (snd x) = addr e \<and> ident (snd x) \<in> seen" "distinct (map (ident \<circ> snd) old)"
      unfolding old_def by (cases "hm_get boxes (addr e)"; simp)+
  qed
  have sub: "set b \<subseteq> insert (t, e) (set old)" unfolding b_def by (auto dest: in_set_dropD)
  have "distinct (map (ident \<circ> snd) (old @ [(t, e)]))" using old new by auto
  then have db: "distinct (map (ident \<circ> snd) b)" unfolding b_def drop_map [symmetric] by (rule distinct_drop)
  have lb: "length b \<le> cap" by (simp add: b_def)
  have memb: "\<exists>d0. hm_get boxes c = Some d0 \<and> y \<in> set d0 \<or> c = addr e \<and> y = (t, e)"
    if "hm_get (box_push cap (addr e) (t, e) boxes) c = Some d" "y \<in> set d" for c d y
    using that sub by (cases "hm_get boxes (addr e)") (auto simp: getb old_def split: if_splits)
  show ?thesis
    unfolding boxes_ok_def
  proof (intro conjI allI impI)
    show "hm_wf (box_push cap (addr e) (t, e) boxes)"
      using ok by (simp add: boxes_ok_def box_push_def Let_def hm.wf_ins)
  next
    fix c d
    assume d: "hm_get (box_push cap (addr e) (t, e) boxes) c = Some d"
    show "length d \<le> cap" using d lb ok unfolding boxes_ok_def getb by (auto split: if_splits)
    show "distinct (map (ident \<circ> snd) d)" using d db ok unfolding boxes_ok_def getb by (auto split: if_splits)
    show "\<forall>x\<in>set d. addr (snd x) = c \<and> ident (snd x) \<in> insert (ident e) seen"
      using d sub old(1) ok unfolding boxes_ok_def getb by (auto split: if_splits)
  next
    fix c d c' d' x y
    assume h: "hm_get (box_push cap (addr e) (t, e) boxes) c = Some d"
      "hm_get (box_push cap (addr e) (t, e) boxes) c' = Some d'" "x \<in> set d" "y \<in> set d'"
      "ident (snd x) = ident (snd y)"
    have inseen: "ident (snd z) \<in> seen" if "hm_get boxes f = Some g" "z \<in> set g" for f g z
      using ok that unfolding boxes_ok_def by blast
    have uniq: "f = f'" if "hm_get boxes f = Some g" "hm_get boxes f' = Some g'" "z \<in> set g" "z' \<in> set g'"
        "ident (snd z) = ident (snd z')" for f f' g g' z z'
      using ok that unfolding boxes_ok_def by blast
    from memb [OF h(1,3)] memb [OF h(2,4)] h(5) new inseen uniq show "c = c'"
      by (metis snd_conv)
  qed
qed

lemma evict_boxes_get:
  assumes "hm_wf boxes"
  shows "hm_get (evict_boxes ttl now boxes) a =
    (case hm_get boxes a of None \<Rightarrow> None
     | Some v \<Rightarrow> let v' = filter (\<lambda>(t, _). sat_sub now t < ttl) v in if v' = [] then None else Some v')"
proof -
  let ?f = "\<lambda>v. filter (\<lambda>(t, _). sat_sub now t < ttl) v"
  have m: "map_of (map (\<lambda>(a, v). (a, ?f v)) boxes) a = map_option ?f (map_of boxes a)"
    by (simp add: map_of_map)
  have "hm_wf (map (\<lambda>(a, v). (a, ?f v)) boxes)"
    using assms by (simp add: hm_wf_def comp_def split_beta)
  then show ?thesis
    unfolding evict_boxes_def by (subst hm.get_keep) (auto simp: m Let_def split: option.splits)
qed

lemma evict_boxes_wf: "hm_wf boxes \<Longrightarrow> hm_wf (evict_boxes ttl now boxes)"
  unfolding evict_boxes_def by (rule hm.wf_keep) (simp add: hm_wf_def comp_def split_beta)

lemma boxes_ok_evict:
  assumes "boxes_ok cap addr ident seen boxes"
  shows "boxes_ok cap addr ident seen (evict_boxes ttl now boxes)"
proof -
  have wf: "hm_wf boxes" using assms by (simp add: boxes_ok_def)
  show ?thesis
    by (rule boxes_ok_sub [OF assms evict_boxes_wf [OF wf]])
      (auto simp: evict_boxes_get [OF wf] Let_def split: option.splits if_splits)
qed

definition mailbox_wf :: "mailbox \<Rightarrow> bool" where
  "mailbox_wf mb \<longleftrightarrow> 0 < mb_max_per_box mb
     \<and> boxes_ok (mb_max_per_box mb) ce_blinded_to ce_msg_id (mb_seen mb) (mb_boxes mb)
     \<and> boxes_ok (mb_max_per_box mb) ge_blinded_to (\<lambda>e. ''g:'' @ ge_msg_id e) (mb_seen mb) (mb_gboxes mb)"

lemma mailbox_wf_new [simp]: "mailbox_wf (mailbox_new ttl)"
  by (simp add: mailbox_wf_def mailbox_new_def)

lemma mailbox_io_wf: "mailbox_wf mb \<Longrightarrow> mailbox_wf (mailbox_io ev mb)"
proof (induction ev mb rule: mailbox_io.induct)
  case (1 env now mb)
  then show ?case
    by (auto simp: mailbox_wf_def mailbox_store_def intro!: boxes_ok_push elim: boxes_ok_seen_mono)
next
  case (2 env now mb)
  then show ?case
    using boxes_ok_push [of "mb_max_per_box mb" ge_blinded_to "\<lambda>e. ''g:'' @ ge_msg_id e" "mb_seen mb"
        "mb_gboxes mb" env now]
    by (auto simp: mailbox_wf_def mailbox_store_group_def elim: boxes_ok_seen_mono)
next
  case (3 now mb)
  then show ?case by (simp add: mailbox_wf_def mailbox_evict_expired_def boxes_ok_evict)
qed

lemma mailbox_run_wf: "mailbox_wf mb \<Longrightarrow> mailbox_wf (mailbox_run evs mb)"
  by (induction evs arbitrary: mb) (simp_all add: mailbox_io_wf)

lemma mailbox_run_cap: "mb_max_per_box (mailbox_run evs mb) = mb_max_per_box mb"
proof (induction evs arbitrary: mb)
  case (Cons ev evs)
  have "mb_max_per_box (mailbox_io ev mb) = mb_max_per_box mb"
    by (cases ev) (simp_all add: mailbox_store_def mailbox_store_group_def mailbox_evict_expired_def)
  with Cons show ?case by simp
qed simp
lemma mailbox_seen_mono: "mb_seen mb \<subseteq> mb_seen (mailbox_run evs mb)"
proof (induction evs arbitrary: mb)
  case (Cons ev evs)
  have "mb_seen mb \<subseteq> mb_seen (mailbox_io ev mb)"
    by (cases ev) (auto simp: mailbox_store_def mailbox_store_group_def mailbox_evict_expired_def)
  with Cons [of "mailbox_io ev mb"] show ?case by simp
qed simp

lemma mailbox_peek_store:
  assumes "mailbox_wf mb" "fst (mailbox_store env now mb)"
  shows "mailbox_peek (ce_blinded_to env) (snd (mailbox_store env now mb)) \<noteq> []
    \<and> last (mailbox_peek (ce_blinded_to env) (snd (mailbox_store env now mb))) = env"
proof -
  define b where "b = (case hm_get (mb_boxes mb) (ce_blinded_to env) of None \<Rightarrow> [] | Some b \<Rightarrow> b) @ [(now, env)]"
  have "mailbox_peek (ce_blinded_to env) (snd (mailbox_store env now mb))
      = map snd (drop (length b - mb_max_per_box mb) b)"
    using assms(2) by (simp add: mailbox_store_def mailbox_peek_def box_push_get b_def Let_def split: if_splits)
  moreover have "length b - mb_max_per_box mb < length b"
    using assms(1) by (simp add: mailbox_wf_def b_def)
  moreover have "last b = (now, env)" by (simp add: b_def)
  ultimately show ?thesis by (simp add: last_map)
qed

text \<open>Threads: every peer of the inbox once, the most recently active first, whatever the order in
  which the hash map is iterated.\<close>

lemma inbox_threads_spec:
  assumes "mset (iter (last_active (ib_messages b))) = mset (last_active (ib_messages b))"
  shows "distinct (inbox_threads iter b) \<and> set (inbox_threads iter b) = sm_peer_id ` set (ib_messages b)
    \<and> sorted_wrt (\<lambda>p q. the (hm_get (last_active (ib_messages b)) q) \<le> the (hm_get (last_active (ib_messages b)) p))
        (inbox_threads iter b)"
proof -
  let ?m = "last_active (ib_messages b)"
  let ?s = "sort_key (\<lambda>p. - int (unat (snd p))) (iter ?m)"
  have ms: "mset ?s = mset ?m" using assms by simp
  have d: "distinct (map fst ?m)" using last_active_wf by (simp add: hm_wf_def)
  have "mset (map fst ?s) = mset (map fst ?m)" using ms by (simp only: mset_map)
  with d have dd: "distinct (map fst ?s)" using mset_eq_imp_distinct_iff by blast
  have keys: "set (map fst ?s) = set (map fst ?m)" by (metis \<open>mset (map fst ?s) = mset (map fst ?m)\<close> mset_eq_setD)
  have "set (map fst ?m) = dom (map_of ?m)" by (simp add: dom_map_of_conv_image_fst)
  also have "\<dots> = sm_peer_id ` set (ib_messages b)"
    by (auto simp: dom_def last_active_get Let_def split: if_splits)
  finally have k: "set (map fst ?s) = sm_peer_id ` set (ib_messages b)" using keys by simp
  have g: "hm_get ?m (fst x) = Some (snd x)" if "x \<in> set ?s" for x
    using that ms d by (metis mset_eq_setD map_of_is_SomeI prod.collapse)
  have "sorted (map (\<lambda>p. - int (unat (snd p))) ?s)" by simp
  then have "sorted_wrt (\<lambda>x y. snd y \<le> snd x) ?s" by (simp add: sorted_map word_le_def)
  then have "sorted_wrt (\<lambda>x y. the (hm_get ?m (fst y)) \<le> the (hm_get ?m (fst x))) ?s"
    by (rule sorted_wrt_mono_rel [rotated]) (simp add: g)
  then show ?thesis using dd k by (simp add: inbox_threads_def sorted_wrt_map)
qed

lemma strip_prefix_hd: "hd xs \<noteq> p \<Longrightarrow> strip_prefix (p # ps) xs = None"
  by (cases xs) auto

subsection \<open>Properties\<close>

text \<open>what is sealed for a recipient is opened by the recipient: the body, the sender's id and key
  and the time arrive as they were sent, whatever ephemeral secret and message id were drawn.\<close>

theorem com_sealed_opens:
  assumes "dh_ok P" "aead_ok P" "hex_ok P" "length sid = 32" "length msg_id = 16" "rust_string body"
  shows "open_com P r (p_x25519_pub P r)
      (seal P e msg_id sk sid (p_x25519_pub P sk) (p_x25519_pub P r) epoch ts (ascii body))
    = Inr \<lparr> om_msg_id = msg_id, om_sender_id = sid, om_sender_pub = p_x25519_pub P sk,
            om_timestamp = ts, om_body = body \<rparr>"
  using open_com_seal [OF assms(1-5), of r e sk epoch ts "ascii body"] assms(6)
  by (simp add: from_utf8_lossy_string rust_string_def)

theorem com_sealed_opens_witness:
  "om_body (projr (open_com toy_prims [5] (p_x25519_pub toy_prims [5])
      (seal toy_prims [9] (replicate 16 1) [7] (replicate 32 2) (p_x25519_pub toy_prims [7])
        (p_x25519_pub toy_prims [5]) 3 1000 (ascii ''hi'')))) = ''hi''"
  by (subst com_sealed_opens) (simp_all add: rust_string_def ascii_def utf8_step_def)

text \<open>an envelope that opens is authentic: its ciphertext carries exactly the sender and body that
  are reported, and its tag is the one computed with the Diffie-Hellman secret of the reported key
  and the recipient's, that is, by whoever holds the matching static secret.\<close>

theorem com_opened_authentic:
  assumes "dh_ok P" "aead_exact P" "open_com P r (p_x25519_pub P r) env = Inr m"
    and "om_sender_pub m = p_x25519_pub P sk"
  shows "\<exists>ephem raw mm. p_hex_decode P (ce_ephem_pub env) = Some ephem
    \<and> (let ct = aead_encrypt P (conf_key P (p_x25519 P r ephem) ephem) 0
                  (seal_aad ephem (om_timestamp m)) (om_sender_id m @ p_x25519_pub P sk @ raw)
       in p_hex_decode P (ce_ciphertext env) = Some ct \<and> om_body m = from_utf8_lossy raw
          \<and> p_hex_decode P (ce_auth_tag env)
              = Some (aead_encrypt P (auth_key P (p_x25519 P sk (p_x25519_pub P r)) ephem) 0 ct mm))"
proof -
  note d = open_com_InrD [OF assms(2,3)]
  show ?thesis
    by (rule d) (use assms(4) dh_swap [OF assms(1), of r sk] in \<open>auto simp: Let_def\<close>)
qed

theorem com_opened_authentic_witness:
  "\<exists>env m. open_com toy_prims [5] (p_x25519_pub toy_prims [5]) env = Inr m
    \<and> (\<exists>ephem. p_hex_decode toy_prims (ce_ephem_pub env) = Some ephem)"
proof -
  let ?env = "seal toy_prims [9] (replicate 16 1) [7] (replicate 32 2) (p_x25519_pub toy_prims [7])
        (p_x25519_pub toy_prims [5]) 3 1000 []"
  obtain m where m: "open_com toy_prims [5] (p_x25519_pub toy_prims [5]) ?env = Inr m"
      "om_sender_pub m = p_x25519_pub toy_prims [7]"
    using open_com_seal [of toy_prims "replicate 32 2" "replicate 16 1" "[5]" "[9]" "[7]" 3 1000 "[]"] by simp
  from com_opened_authentic [OF _ _ m] m(1) show ?thesis by (metis toy_ok(3,7))
qed

text \<open>a group message opens for every holder of the group key as it was sent, with the sender's
  signing key, and no message is accepted whose signature by the key it names does not verify over
  group, salt, time, sender and body.\<close>

theorem group_message_signed:
  assumes "aead_ok P" "hex_ok P" "ed_ok P" "length sid = 32" "length salt = 16" "rust_string body"
  shows "open_group P g (seal_group P salt g sid signer epoch ts (ascii body))
      = Inr (sid, p_ed_public P signer, body)
    \<and> (\<forall>env sid' pub b. open_group P g env = Inr (sid', pub, b) \<longrightarrow>
        (\<exists>salt' raw sig. p_hex_decode P (ge_msg_id env) = Some salt' \<and> b = from_utf8_lossy raw
          \<and> p_ed_key_ok P pub
          \<and> p_ed_verify P pub (group_sig_transcript (gr_id g) salt' (ge_timestamp env) sid' raw) sig))"
  using open_group_seal [OF assms(1-5), of g signer epoch ts "ascii body"] open_group_verified [of P g] assms(6)
  by (auto simp: from_utf8_lossy_string rust_string_def) blast

theorem group_message_signed_witness:
  "open_group toy_prims (group_create (replicate 16 1) (replicate 32 2) ''g'' [] [] False)
      (seal_group toy_prims (replicate 16 3) (group_create (replicate 16 1) (replicate 32 2) ''g'' [] [] False)
        (replicate 32 4) [5] 1 2 (ascii ''hi''))
    = Inr (replicate 32 4, p_ed_public toy_prims [5], ''hi'')"
  using group_message_signed [of toy_prims "replicate 32 4" "replicate 16 3" "''hi''"]
  by (simp add: rust_string_def ascii_def utf8_step_def)

text \<open>the compact binary form of an envelope is exact: every buffer of at least 112 bytes is the
  compact form of the envelope it parses to, shorter buffers are refused, and a sealed envelope is
  read back from its compact form unchanged.\<close>

theorem com_compact_roundtrip:
  assumes "hex_ok P" "dh_ok P" "kdf_ok P" "aead_ok P" "length msg_id = 16"
  shows "(length b < 112 \<longrightarrow> from_compact P b = None)
    \<and> (112 \<le> length b \<longrightarrow> Option.bind (from_compact P b) (to_compact P) = Some b)
    \<and> (let env = seal P e msg_id sk sid spub rpub epoch ts pt in
        Option.bind (to_compact P env) (from_compact P) = Some env)"
proof (intro conjI impI)
  show "length b < 112 \<Longrightarrow> from_compact P b = None" by (simp add: from_compact_def)
  show "112 \<le> length b \<Longrightarrow> Option.bind (from_compact P b) (to_compact P) = Some b"
    using to_compact_from_compact [OF assms(1), of b] by auto
  show "let env = seal P e msg_id sk sid spub rpub epoch ts pt in
        Option.bind (to_compact P env) (from_compact P) = Some env"
    unfolding Let_def
    by (rule from_compact_to_compact [OF assms(1)], unfold seal_def Let_def blinded_addr_def, rule refl)
      (use assms in simp_all)
qed

theorem com_compact_roundtrip_witness:
  "Option.bind (from_compact toy_prims (replicate 120 7)) (to_compact toy_prims) = Some (replicate 120 7)"
  using com_compact_roundtrip [of toy_prims "replicate 16 1" "replicate 120 7"] by simp

text \<open>a contact address is read back as it was written, and surrounding space does not matter.\<close>

theorem address_roundtrip:
  assumes "hex_ok P" "hex_lower P" "length node_id = 32" "length static_pub = 32"
  shows "address_decode P (address_encode P node_id static_pub) = Returns (Some (node_id, static_pub))"
  using assms by (rule address_decode_encode)

theorem address_roundtrip_witness:
  "address_decode toy_prims (address_encode toy_prims (replicate 32 1) (replicate 32 2))
    = Returns (Some (replicate 32 1, replicate 32 2))"
  by (rule address_roundtrip) simp_all

text \<open>reading an address can panic: on a text of 128 bytes whose 64th byte lies inside a
  character the slice at byte 64 is not at a character boundary. (The documentation promises
  \<open>None\<close> on any malformed input.)\<close>

theorem address_decode_panics:
  "\<exists>text. rust_string text \<and> address_decode P text = Panics"
proof -
  let ?t = "replicate 63 CHR ''a'' @ [CHR 0xC3, CHR 0xA9] @ replicate 63 CHR ''a''"
  have a: "ascii ?t = replicate 63 0x61 @ [0xC3, 0xA9] @ replicate 63 0x61"
    by (simp add: ascii_def)
  have step: "utf8_valid (replicate n 0x61 @ r) \<longleftrightarrow> utf8_valid r" for n r
    by (induction n) (simp_all add: utf8_step_def)
  have "utf8_valid (ascii ?t)"
    unfolding a step using step [of 63 "[]"] by (simp add: utf8_step_def utf8_cont_def)
  moreover have "str_trim ?t = ?t"
  proof -
    have "trim_bytes (ascii ?t) = ascii ?t" unfolding a by (rule trim_bytes_id) simp_all
    then show ?thesis by (simp only: str_trim_def text_of_ascii)
  qed
  moreover have "strip_prefix ''phi:'' ?t = None"
    using strip_prefix_hd [of ?t "CHR ''p''" "''hi:''"] by simp
  moreover have "\<not> is_char_boundary ?t 64"
  proof -
    have "ascii ?t ! 64 = 0xA9" unfolding a by (simp add: nth_append)
    then show ?thesis by (simp add: is_char_boundary_def utf8_cont_def)
  qed
  ultimately show ?thesis by (intro exI [of _ ?t]) (simp add: rust_string_def address_decode_def Let_def)
qed

text \<open>an inbox delivers a message once: whatever is recorded and removed, no message id occurs
  twice, an id that was removed never reappears, and a conversation is exactly the messages of its
  peer in the order of their times.\<close>

theorem inbox_delivers_once:
  "(let b = inbox_run evs inbox_new in
      distinct (map sm_msg_id (ib_messages b))
      \<and> i \<notin> sm_msg_id ` set (ib_messages (inbox_run evs' (snd (inbox_remove i b))))
      \<and> mset (inbox_conversation p b) = mset (filter (\<lambda>m. sm_peer_id m = p) (ib_messages b))
      \<and> sorted (map sm_timestamp (inbox_conversation p b)))"
proof -
  let ?b = "inbox_run evs inbox_new"
  have "inbox_wf ?b" by (simp add: inbox_run_wf)
  moreover have "i \<notin> sm_msg_id ` set (ib_messages (inbox_run evs' (snd (inbox_remove i ?b))))"
    by (rule inbox_tombstone) (auto simp: inbox_remove_def Let_def)
  ultimately show ?thesis by (simp add: Let_def inbox_wf_def inbox_conversation_def)
qed

text \<open>a mailbox stays bounded and accepts an envelope once: every box holds at most 256 envelopes,
  all addressed to it and with different ids; an accepted envelope is the newest of its box, and no
  envelope with its id is accepted ever again, whatever is stored or evicted meanwhile.\<close>

theorem mailbox_bounded_once:
  assumes "mb = mailbox_run evs (mailbox_new ttl)" "fst (mailbox_store env now mb)"
    and "ce_msg_id env' = ce_msg_id env"
  shows "length (mailbox_peek a mb) \<le> 256 \<and> distinct (map ce_msg_id (mailbox_peek a mb))
    \<and> (\<forall>x \<in> set (mailbox_peek a mb). ce_blinded_to x = a)
    \<and> last (mailbox_peek (ce_blinded_to env) (snd (mailbox_store env now mb))) = env
    \<and> \<not> fst (mailbox_store env' now' (mailbox_run evs' (snd (mailbox_store env now mb))))"
proof -
  have wf: "mailbox_wf mb" using assms(1) by (simp add: mailbox_run_wf)
  have cap: "mb_max_per_box mb = 256" using assms(1) by (simp add: mailbox_run_cap mailbox_new_def)
  have ok: "boxes_ok 256 ce_blinded_to ce_msg_id (mb_seen mb) (mb_boxes mb)"
    using wf cap by (simp add: mailbox_wf_def)
  have box: "length b \<le> 256 \<and> distinct (map (ce_msg_id \<circ> snd) b) \<and> (\<forall>x \<in> set b. ce_blinded_to (snd x) = a)"
    if "hm_get (mb_boxes mb) a = Some b" for b
    using ok that unfolding boxes_ok_def by blast
  have "ce_msg_id env \<in> mb_seen (snd (mailbox_store env now mb))"
    using assms(2) by (auto simp: mailbox_store_def split: if_splits)
  then have "ce_msg_id env \<in> mb_seen (mailbox_run evs' (snd (mailbox_store env now mb)))"
    using mailbox_seen_mono by blast
  then have "\<not> fst (mailbox_store env' now' (mailbox_run evs' (snd (mailbox_store env now mb))))"
    using assms(3) by (simp add: mailbox_store_def)
  then show ?thesis
    using box mailbox_peek_store [OF wf assms(2)]
    by (auto simp: mailbox_peek_def split: option.splits)
qed

theorem mailbox_bounded_once_witness:
  "\<not> fst (mailbox_store (seal toy_prims [] [1] [] [] [] [] 0 0 []) 9
      (snd (mailbox_store (seal toy_prims [] [1] [] [] [] [] 0 0 []) 5 (mailbox_new 10))))"
  using mailbox_bounded_once [of "mailbox_new 10" "[]" 10 "seal toy_prims [] [1] [] [] [] [] 0 0 []" 5
      "seal toy_prims [] [1] [] [] [] [] 0 0 []" "[]" 9 "[]"]
  by (simp add: mailbox_store_def mailbox_new_def)

end
