(* ===== verification/ComNode.thy ===== *)
theory ComNode
  imports Com Dht Circuit
begin

section \<open>Messaging at a node\<close>

text \<open>
  The messaging handlers of phinet-core/src/node.rs on the state they share: contacts, groups,
  inbox, mailbox and the connected peers. A handler returns the new state and the messages it
  sends, in order. The iteration order of a hash map is the order of its list; clock readings,
  random draws and the serialiser of invites are arguments.

  Shown: a message sent to a contact ends up in the contact's inbox under the sender's id; the
  signing key bound to a group member never changes while group messages are filed; the path chosen
  for anonymous injection visits different nodes, never the sender, and is as long as the peers
  allow; filing pulled group mail never ends, by a model of the lock of the groups. The flooding of envelopes through the network is the subject of \<open>ComGossip\<close>.
\<close>

type_synonym 'c peer_table = "(bytes, 'c peer_info) hmap"

record 'c com_node =
  cn_node_id :: bytes
  cn_secret :: bytes
  cn_contacts :: "(bytes, bytes) hmap"
  cn_groups :: "(bytes, com_group) hmap"
  cn_inbox :: inbox
  cn_mailbox :: mailbox
  cn_peers :: "'c peer_table"

record com_fetch =
  cf_req_id :: string
  cf_blinded :: "string list"

record com_mail =
  cm_req_id :: string
  cm_envelopes :: "com_envelope list"
  cm_group_envelopes :: "group_envelope list"

datatype com_message =
    MsgComStore com_envelope
  | MsgComGroupStore group_envelope
  | MsgComFetch com_fetch
  | MsgComMail com_mail

type_synonym outbox = "(bytes \<times> com_message) list"

type_synonym invite_decoder = "string \<Rightarrow> (string \<times> com_group) option"

definition cn_static_pub :: "prims \<Rightarrow> 'c com_node \<Rightarrow> bytes" where
  "cn_static_pub P n = p_x25519_pub P (cn_secret n)"

text \<open>The peers a message goes to: all of them, or all but the one it came from.\<close>

definition to_peers :: "com_message \<Rightarrow> 'c com_node \<Rightarrow> outbox" where
  "to_peers msg n = map (\<lambda>(_, p). (pi_node_id p, msg)) (cn_peers n)"

definition to_others :: "bytes \<Rightarrow> com_message \<Rightarrow> 'c com_node \<Rightarrow> outbox" where
  "to_others src msg n =
     map (\<lambda>(_, p). (pi_node_id p, msg)) (filter (\<lambda>(_, p). pi_node_id p \<noteq> src) (cn_peers n))"

subsection \<open>Receiving\<close>

definition handle_com :: "prims \<Rightarrow> invite_decoder \<Rightarrow> com_envelope \<Rightarrow> 'c com_node \<Rightarrow> 'c com_node" where
  "handle_com P dec env n =
     (case open_com P (cn_secret n) (cn_static_pub P n) env of
        Inl _ \<Rightarrow> n
      | Inr opened \<Rightarrow>
          let n1 = n\<lparr>cn_contacts := hm_insert (om_sender_id opened) (om_sender_pub opened) (cn_contacts n)\<rparr>
          in case decode_delete P (om_body opened) of
               Some del_id \<Rightarrow> n1\<lparr>cn_inbox := snd (inbox_remove del_id (cn_inbox n1))\<rparr>
             | None \<Rightarrow>
                 (case decode_invite dec (om_body opened) of
                    Some g \<Rightarrow> n1\<lparr>cn_groups := hm_insert (gr_id g) g (cn_groups n1)\<rparr>
                  | None \<Rightarrow>
                      n1\<lparr>cn_inbox := snd (inbox_record
                        \<lparr> sm_msg_id = om_msg_id opened, sm_peer_id = om_sender_id opened,
                          sm_outgoing = False, sm_timestamp = om_timestamp opened,
                          sm_body = om_body opened \<rparr> (cn_inbox n1))\<rparr>))"

definition handle_com_store ::
  "prims \<Rightarrow> invite_decoder \<Rightarrow> u64 \<Rightarrow> com_envelope \<Rightarrow> bytes \<Rightarrow> 'c com_node \<Rightarrow> 'c com_node \<times> outbox" where
  "handle_com_store P dec now env src n =
     (if addressed_to_us P (cn_static_pub P n) env then (handle_com P dec env n, [])
      else
        (let (fresh, mb) = mailbox_store env now (cn_mailbox n);
             n1 = n\<lparr>cn_mailbox := mb\<rparr>
         in (n1, if fresh then to_others src (MsgComStore env) n1 else [])))"

definition group_thread_id :: "prims \<Rightarrow> bytes \<Rightarrow> bytes" where
  "group_thread_id P gid = p_sha256 P (ascii ''com-group'' @ gid)"

definition hex16_or_zero :: "prims \<Rightarrow> string \<Rightarrow> bytes" where
  "hex16_or_zero P s = (case hex_array P 16 s of Some b \<Rightarrow> b | None \<Rightarrow> replicate 16 0)"

definition file_group_msg :: "prims \<Rightarrow> com_group \<Rightarrow> group_envelope \<Rightarrow> 'c com_node \<Rightarrow> 'c com_node" where
  "file_group_msg P g env n =
     (case open_group P g env of
        Inl _ \<Rightarrow> n
      | Inr (sender_id, sign_pub, body) \<Rightarrow>
          let bound = (case hm_get (cn_groups n) (gr_id g) of
                         None \<Rightarrow> Some n
                       | Some stored \<Rightarrow>
                           (case bind_signer sender_id sign_pub stored of
                              (_, Inl _) \<Rightarrow> None
                            | (stored', Inr _) \<Rightarrow>
                                Some (n\<lparr>cn_groups := hm_insert (gr_id g) stored' (cn_groups n)\<rparr>)))
          in case bound of
               None \<Rightarrow> n
             | Some n1 \<Rightarrow>
                 n1\<lparr>cn_inbox := snd (inbox_record
                   \<lparr> sm_msg_id = hex16_or_zero P (ge_msg_id env),
                     sm_peer_id = group_thread_id P (gr_id g),
                     sm_outgoing = (sender_id = cn_node_id n1),
                     sm_timestamp = ge_timestamp env, sm_body = body \<rparr> (cn_inbox n1))\<rparr>)"

text \<open>The group an envelope names, when the node is in it.\<close>

definition group_of_envelope :: "prims \<Rightarrow> group_envelope \<Rightarrow> 'c com_node \<Rightarrow> com_group option" where
  "group_of_envelope P env n = Option.bind (hex_array P 16 (ge_group_id env)) (hm_get (cn_groups n))"

definition file_if_member :: "prims \<Rightarrow> group_envelope \<Rightarrow> 'c com_node \<Rightarrow> 'c com_node" where
  "file_if_member P env n =
     (case group_of_envelope P env n of None \<Rightarrow> n | Some g \<Rightarrow> file_group_msg P g env n)"

definition handle_com_group_store ::
  "prims \<Rightarrow> u64 \<Rightarrow> group_envelope \<Rightarrow> bytes \<Rightarrow> 'c com_node \<Rightarrow> 'c com_node \<times> outbox" where
  "handle_com_group_store P now env src n =
     (let n1 = file_if_member P env n;
          (fresh, mb) = mailbox_store_group env now (cn_mailbox n1);
          n2 = n1\<lparr>cn_mailbox := mb\<rparr>
      in (n2, if fresh then to_others src (MsgComGroupStore env) n2 else []))"

definition handle_com_fetch :: "com_fetch \<Rightarrow> bytes \<Rightarrow> 'c com_node \<Rightarrow> outbox" where
  "handle_com_fetch msg src n =
     [(src, MsgComMail
        \<lparr> cm_req_id = cf_req_id msg,
          cm_envelopes = concat (map (\<lambda>a. mailbox_peek a (cn_mailbox n)) (cf_blinded msg)),
          cm_group_envelopes = concat (map (\<lambda>a. mailbox_peek_group a (cn_mailbox n)) (cf_blinded msg)) \<rparr>)]"

text \<open>
  Where a handler takes the lock of the groups, its scope matters. A handler is then a program: it acquires and
  releases guards of the \<open>RwLock\<close>, acts on the state of the node, and goes on depending on that state. The guards a
  task holds are the number of its read guards and whether it holds the write guard.
\<close>

datatype lock_op = AcquireRead | ReleaseRead | AcquireWrite | ReleaseWrite

datatype 's prog =
    Done
  | Lock lock_op "'s prog"
  | Act "'s \<Rightarrow> 's" "'s prog"
  | Branch "'s \<Rightarrow> 's prog"

type_synonym guards_held = "nat \<times> bool"

fun lock_free_for :: "lock_op \<Rightarrow> guards_held \<Rightarrow> bool" where
  "lock_free_for AcquireRead (r, w) = (\<not> w)"
| "lock_free_for AcquireWrite (r, w) = (r = 0 \<and> \<not> w)"
| "lock_free_for op (r, w) = True"

fun lock_apply :: "lock_op \<Rightarrow> guards_held \<Rightarrow> guards_held" where
  "lock_apply AcquireRead (r, w) = (Suc r, w)"
| "lock_apply ReleaseRead (r, w) = (r - 1, w)"
| "lock_apply AcquireWrite (r, w) = (r, True)"
| "lock_apply ReleaseWrite (r, w) = (r, False)"

text \<open>A task that runs alone: the state, the guards held and the rest of the program where it ends or has to wait.\<close>

primrec exec :: "'s prog \<Rightarrow> guards_held \<Rightarrow> 's \<Rightarrow> 's \<times> guards_held \<times> 's prog" where
  "exec Done = (\<lambda>h s. (s, h, Done))"
| "exec (Lock op k) = (\<lambda>h s. if lock_free_for op h then exec k (lock_apply op h) s else (s, h, Lock op k))"
| "exec (Act f k) = (\<lambda>h s. exec k h (f s))"
| "exec (Branch f) = (\<lambda>h s. (exec \<circ> f) s h s)"

text \<open>A task among others, which hold guards of their own and may change the state at any time.\<close>

inductive shared_step ::
  "guards_held \<times> guards_held \<times> 's \<times> 's prog \<Rightarrow> guards_held \<times> guards_held \<times> 's \<times> 's prog \<Rightarrow> bool" where
  own_lock: "lock_free_for op (r + r', w \<or> w')
    \<Longrightarrow> shared_step ((r, w), (r', w'), s, Lock op k) (lock_apply op (r, w), (r', w'), s, k)"
| own_act: "shared_step (h, h', s, Act f k) (h, h', f s, k)"
| own_branch: "shared_step (h, h', s, Branch f) (h, h', s, f s)"
| other_lock: "lock_free_for op (r + r', w \<or> w')
    \<Longrightarrow> shared_step ((r, w), (r', w'), s, p) ((r, w), lock_apply op (r', w'), s, p)"
| other_data: "shared_step (h, h', s, p) (h, h', s', p)"

text \<open>\<open>file_group_msg\<close> with its guard, which lives in a block of its own.\<close>

definition record_group_msg :: "prims \<Rightarrow> com_group \<Rightarrow> group_envelope \<Rightarrow> bytes \<Rightarrow> string \<Rightarrow> 'c com_node \<Rightarrow> 'c com_node" where
  "record_group_msg P g env sender_id body n =
     n\<lparr>cn_inbox := snd (inbox_record
       \<lparr> sm_msg_id = hex16_or_zero P (ge_msg_id env), sm_peer_id = group_thread_id P (gr_id g),
         sm_outgoing = (sender_id = cn_node_id n), sm_timestamp = ge_timestamp env, sm_body = body \<rparr> (cn_inbox n))\<rparr>"

definition file_group_prog ::
  "prims \<Rightarrow> com_group \<Rightarrow> group_envelope \<Rightarrow> 'c com_node prog \<Rightarrow> 'c com_node prog" where
  "file_group_prog P g env k =
     (case open_group P g env of
        Inl _ \<Rightarrow> k
      | Inr (sender_id, sign_pub, body) \<Rightarrow>
          Lock AcquireWrite (Branch (\<lambda>n. case hm_get (cn_groups n) (gr_id g) of
              None \<Rightarrow> Lock ReleaseWrite (Act (record_group_msg P g env sender_id body) k)
            | Some stored \<Rightarrow>
                (case bind_signer sender_id sign_pub stored of
                   (_, Inl _) \<Rightarrow> Lock ReleaseWrite k
                 | (stored', Inr _) \<Rightarrow>
                     Act (\<lambda>n. n\<lparr>cn_groups := hm_insert (gr_id g) stored' (cn_groups n)\<rparr>)
                       (Lock ReleaseWrite (Act (record_group_msg P g env sender_id body) k))))))"

text \<open>
  \<open>handle_com_group_store\<close> looks the group up in a \<open>let\<close>, whose read guard is dropped at its end;
  \<open>handle_com_mail\<close> in the scrutinee of an \<open>if let\<close>, whose read guard is dropped after the block.
\<close>

definition file_stored_prog :: "prims \<Rightarrow> group_envelope \<Rightarrow> 'c com_node prog" where
  "file_stored_prog P env =
     (case hex_array P 16 (ge_group_id env) of
        None \<Rightarrow> Done
      | Some gid \<Rightarrow>
          Lock AcquireRead (Branch (\<lambda>n. Lock ReleaseRead
            (case hm_get (cn_groups n) gid of None \<Rightarrow> Done | Some g \<Rightarrow> file_group_prog P g env Done))))"

fun file_pulled_prog :: "prims \<Rightarrow> group_envelope list \<Rightarrow> 'c com_node prog" where
  "file_pulled_prog P [] = Done"
| "file_pulled_prog P (env # envs) =
     (case hex_array P 16 (ge_group_id env) of
        None \<Rightarrow> file_pulled_prog P envs
      | Some gid \<Rightarrow>
          Lock AcquireRead (Branch (\<lambda>n. case hm_get (cn_groups n) gid of
              None \<Rightarrow> Lock ReleaseRead (file_pulled_prog P envs)
            | Some g \<Rightarrow> file_group_prog P g env (Lock ReleaseRead (file_pulled_prog P envs)))))"

definition handle_com_mail ::
  "prims \<Rightarrow> invite_decoder \<Rightarrow> com_mail \<Rightarrow> 'c com_node \<Rightarrow> 'c com_node \<times> guards_held \<times> 'c com_node prog" where
  "handle_com_mail P dec msg n =
     exec (file_pulled_prog P (cm_group_envelopes msg)) (0, False)
       (fold (\<lambda>env n. if addressed_to_us P (cn_static_pub P n) env then handle_com P dec env n else n)
         (cm_envelopes msg) n)"

definition inject_com_store ::
  "prims \<Rightarrow> invite_decoder \<Rightarrow> u64 \<Rightarrow> com_envelope \<Rightarrow> 'c com_node \<Rightarrow> 'c com_node \<times> outbox" where
  "inject_com_store P dec now env n =
     (if addressed_to_us P (cn_static_pub P n) env then (handle_com P dec env n, [])
      else
        (let (fresh, mb) = mailbox_store env now (cn_mailbox n);
             n1 = n\<lparr>cn_mailbox := mb\<rparr>
         in (n1, if fresh then to_peers (MsgComStore env) n1 else [])))"

subsection \<open>The path of an anonymous injection\<close>

fun split_char :: "char \<Rightarrow> string \<Rightarrow> string list" where
  "split_char c [] = [[]]"
| "split_char c (x # xs) =
     (if x = c then [] # split_char c xs
      else (case split_char c xs of [] \<Rightarrow> [[x]] | p # ps \<Rightarrow> (x # p) # ps))"

definition subnet16 :: "string \<Rightarrow> u8 \<times> u8" where
  "subnet16 host =
     (case split_char CHR ''.'' host of
        a # b # _ \<Rightarrow> ((case parse_u8 a of Some x \<Rightarrow> x | None \<Rightarrow> 0), (case parse_u8 b of Some x \<Rightarrow> x | None \<Rightarrow> 0))
      | _ \<Rightarrow> (0, 0))"

definition spec_of_peer :: "prims \<Rightarrow> 'c peer_info \<Rightarrow> link_spec option" where
  "spec_of_peer P p =
     map_option (\<lambda>sp. \<lparr> ls_host = pi_host p, ls_port = pi_port p, ls_node_id = pi_node_id p, ls_static_pub = sp \<rparr>)
       (hex_array P 32 (pi_static_pub p))"

record path_acc =
  pa_out :: "link_spec list"
  pa_subnets :: "(u8 \<times> u8) list"
  pa_nodes :: "bytes list"

definition path_pass1 :: "prims \<Rightarrow> nat \<Rightarrow> 'c peer_info \<Rightarrow> path_acc \<Rightarrow> path_acc" where
  "path_pass1 P n p a =
     (if n \<le> length (pa_out a) then a
      else if subnet16 (pi_host p) \<in> set (pa_subnets a) then a
      else (case spec_of_peer P p of
              None \<Rightarrow> a
            | Some ls \<Rightarrow> \<lparr> pa_out = pa_out a @ [ls], pa_subnets = pa_subnets a @ [subnet16 (pi_host p)],
                           pa_nodes = pa_nodes a @ [pi_node_id p] \<rparr>))"

definition path_pass2 :: "prims \<Rightarrow> nat \<Rightarrow> 'c peer_info \<Rightarrow> path_acc \<Rightarrow> path_acc" where
  "path_pass2 P n p a =
     (if n \<le> length (pa_out a) then a
      else if pi_node_id p \<in> set (pa_nodes a) then a
      else (case spec_of_peer P p of
              None \<Rightarrow> a
            | Some ls \<Rightarrow> a\<lparr>pa_out := pa_out a @ [ls], pa_nodes := pa_nodes a @ [pi_node_id p]\<rparr>))"

text \<open>The argument \<open>shuffle\<close> is what \<open>SliceRandom::shuffle\<close> makes of the candidates.\<close>

definition com_circuit_path ::
  "prims \<Rightarrow> ('c peer_info list \<Rightarrow> 'c peer_info list) \<Rightarrow> nat \<Rightarrow> 'c com_node \<Rightarrow> link_spec list" where
  "com_circuit_path P shuffle n node =
     (let cands = shuffle (filter (\<lambda>p. pi_node_id p \<noteq> cn_node_id node) (map snd (cn_peers node)));
          a1 = fold (path_pass1 P n) cands \<lparr> pa_out = [], pa_subnets = [], pa_nodes = [] \<rparr>;
          a2 = (if length (pa_out a1) < n then fold (path_pass2 P n) cands a1 else a1)
      in pa_out a2)"

subsection \<open>Sending\<close>

text \<open>Invites and unsend markers are not shown as messages of the sender.\<close>

definition visible_body :: "prims \<Rightarrow> invite_decoder \<Rightarrow> string \<Rightarrow> bool" where
  "visible_body P dec body \<longleftrightarrow> decode_invite dec body = None \<and> decode_delete P body = None"

definition record_own ::
  "prims \<Rightarrow> invite_decoder \<Rightarrow> bytes \<Rightarrow> bytes \<Rightarrow> u64 \<Rightarrow> string \<Rightarrow> 'c com_node \<Rightarrow> 'c com_node" where
  "record_own P dec msg_id peer ts body n =
     (if visible_body P dec body
      then n\<lparr>cn_inbox := snd (inbox_record
             \<lparr> sm_msg_id = msg_id, sm_peer_id = peer, sm_outgoing = True, sm_timestamp = ts,
               sm_body = body \<rparr> (cn_inbox n))\<rparr>
      else n)"

definition com_send ::
  "prims \<Rightarrow> invite_decoder \<Rightarrow> u64 \<Rightarrow> bytes \<Rightarrow> bytes \<Rightarrow> bytes \<Rightarrow> bytes \<Rightarrow> string \<Rightarrow> 'c com_node
     \<Rightarrow> 'c com_node \<times> outbox \<times> bytes result" where
  "com_send P dec now e rnd recipient_id recipient_pub body n =
     (let env = seal P e rnd (cn_secret n) (cn_node_id n) (cn_static_pub P n) recipient_pub
                  (epoch_of now) now (ascii body);
          msg_id = hex16_or_zero P (ce_msg_id env);
          n1 = record_own P dec msg_id recipient_id now body n
      in (n1, to_peers (MsgComStore env) n1, Inr msg_id))"

text \<open>
  \<open>com_send_anonymous\<close> also injects the compact envelope at the end of a circuit when the envelope
  fits a relay cell, a path exists and the circuit can be built; \<open>circuit\<close> is what building it
  gives. The relay cell it then sends is the third result.
\<close>

definition com_send_anonymous ::
  "prims \<Rightarrow> invite_decoder \<Rightarrow> ('c peer_info list \<Rightarrow> 'c peer_info list) \<Rightarrow> (link_spec list \<Rightarrow> circuit_id result)
     \<Rightarrow> u64 \<Rightarrow> bytes \<Rightarrow> bytes \<Rightarrow> bytes \<Rightarrow> bytes \<Rightarrow> string \<Rightarrow> 'c com_node
     \<Rightarrow> 'c com_node \<times> outbox \<times> (circuit_id \<times> bytes) option \<times> bytes result" where
  "com_send_anonymous P dec shuffle circuit now e rnd recipient_id recipient_pub body n =
     (let env = seal P e rnd (cn_secret n) (cn_node_id n) (cn_static_pub P n) recipient_pub
                  (epoch_of now) now (ascii body);
          msg_id = hex16_or_zero P (ce_msg_id env);
          n1 = record_own P dec msg_id recipient_id now body n;
          path = com_circuit_path P shuffle MAX_HOPS n1;
          inject = (case to_compact P env of
                      None \<Rightarrow> None
                    | Some c \<Rightarrow>
                        if length c \<le> RELAY_DATA_MAX \<and> path \<noteq> []
                        then (case circuit path of Inl _ \<Rightarrow> None | Inr cid \<Rightarrow> Some (cid, c))
                        else None)
      in (n1, to_peers (MsgComStore env) n1, inject, Inr msg_id))"

definition com_pull :: "prims \<Rightarrow> u64 \<Rightarrow> (bytes \<Rightarrow> string) \<Rightarrow> 'c com_node \<Rightarrow> outbox" where
  "com_pull P now req_id n =
     (let blinded = my_blinded_addrs P (cn_static_pub P n) now
                      @ concat (map (\<lambda>(_, g). group_blinded_addrs P g now) (cn_groups n))
      in map (\<lambda>(_, p). (pi_node_id p, MsgComFetch \<lparr> cf_req_id = req_id (pi_node_id p), cf_blinded = blinded \<rparr>))
           (cn_peers n))"

definition com_resolve_pub :: "prims \<Rightarrow> bytes \<Rightarrow> 'c com_node \<Rightarrow> bytes option" where
  "com_resolve_pub P recipient_id n =
     (case Option.bind (hm_get (cn_peers n) recipient_id) (\<lambda>p. hex_array P 32 (pi_static_pub p)) of
        Some k \<Rightarrow> Some k
      | None \<Rightarrow> hm_get (cn_contacts n) recipient_id)"

definition com_add_contact :: "bytes \<Rightarrow> bytes \<Rightarrow> 'c com_node \<Rightarrow> 'c com_node" where
  "com_add_contact node_id static_pub n = n\<lparr>cn_contacts := hm_insert node_id static_pub (cn_contacts n)\<rparr>"

definition com_my_address :: "prims \<Rightarrow> 'c com_node \<Rightarrow> string" where
  "com_my_address P n = address_encode P (cn_node_id n) (cn_static_pub P n)"

definition com_send_to ::
  "prims \<Rightarrow> invite_decoder \<Rightarrow> ('c peer_info list \<Rightarrow> 'c peer_info list) \<Rightarrow> (link_spec list \<Rightarrow> circuit_id result)
     \<Rightarrow> u64 \<Rightarrow> bytes \<Rightarrow> bytes \<Rightarrow> bytes \<Rightarrow> string \<Rightarrow> 'c com_node
     \<Rightarrow> 'c com_node \<times> outbox \<times> (circuit_id \<times> bytes) option \<times> bytes result" where
  "com_send_to P dec shuffle circuit now e rnd recipient_id body n =
     (case com_resolve_pub P recipient_id n of
        None \<Rightarrow> (n, [], None, Inl (Handshake ''com: unknown recipient (add them by address first)''))
      | Some recipient_pub \<Rightarrow>
          com_send_anonymous P dec shuffle circuit now e rnd recipient_id recipient_pub body n)"

definition com_delete ::
  "prims \<Rightarrow> invite_decoder \<Rightarrow> ('c peer_info list \<Rightarrow> 'c peer_info list) \<Rightarrow> (link_spec list \<Rightarrow> circuit_id result)
     \<Rightarrow> u64 \<Rightarrow> bytes \<Rightarrow> bytes \<Rightarrow> bytes \<Rightarrow> bytes \<Rightarrow> 'c com_node
     \<Rightarrow> 'c com_node \<times> outbox \<times> (circuit_id \<times> bytes) option" where
  "com_delete P dec shuffle circuit now e rnd peer_id msg_id n =
     (let n1 = n\<lparr>cn_inbox := snd (inbox_remove msg_id (cn_inbox n))\<rparr>
      in case com_resolve_pub P peer_id n1 of
           None \<Rightarrow> (n1, [], None)
         | Some recipient_pub \<Rightarrow>
             (case com_send_anonymous P dec shuffle circuit now e rnd peer_id recipient_pub
                     (encode_delete P msg_id) n1 of (n2, out, inject, _) \<Rightarrow> (n2, out, inject)))"

subsection \<open>Groups\<close>

definition com_create_group :: "prims \<Rightarrow> bytes \<Rightarrow> bytes \<Rightarrow> string \<Rightarrow> bool \<Rightarrow> 'c com_node \<Rightarrow> 'c com_node \<times> com_group" where
  "com_create_group P gid key name is_channel n =
     (let g = group_create gid key name (cn_node_id n) (group_sign_pub P (cn_secret n)) is_channel
      in (n\<lparr>cn_groups := hm_insert (gr_id g) g (cn_groups n)\<rparr>, g))"

definition com_invite_to_group ::
  "prims \<Rightarrow> (string \<times> com_group \<Rightarrow> string option) \<Rightarrow> invite_decoder \<Rightarrow> ('c peer_info list \<Rightarrow> 'c peer_info list)
     \<Rightarrow> (link_spec list \<Rightarrow> circuit_id result) \<Rightarrow> u64 \<Rightarrow> bytes \<Rightarrow> bytes \<Rightarrow> bytes \<Rightarrow> bytes \<Rightarrow> 'c com_node
     \<Rightarrow> 'c com_node \<times> outbox \<times> (circuit_id \<times> bytes) option \<times> unit result" where
  "com_invite_to_group P enc dec shuffle circuit now e rnd group_id member_id n =
     (case hm_get (cn_groups n) group_id of
        None \<Rightarrow> (n, [], None, Inl (Handshake ''com: unknown group''))
      | Some g \<Rightarrow>
          let g1 = (if member_id \<in> set (gr_members g) then g else g\<lparr>gr_members := gr_members g @ [member_id]\<rparr>);
              n1 = n\<lparr>cn_groups := hm_insert group_id g1 (cn_groups n)\<rparr>
          in case com_send_to P dec shuffle circuit now e rnd member_id (encode_invite enc g1) n1 of
               (n2, out, inject, r) \<Rightarrow> (n2, out, inject, and_then r (\<lambda>_. Inr ())))"

definition com_send_group ::
  "prims \<Rightarrow> u64 \<Rightarrow> bytes \<Rightarrow> bytes \<Rightarrow> string \<Rightarrow> 'c com_node \<Rightarrow> 'c com_node \<times> outbox \<times> bytes result" where
  "com_send_group P now salt group_id body n =
     (case hm_get (cn_groups n) group_id of
        None \<Rightarrow> (n, [], Inl (Handshake ''com: unknown group''))
      | Some g \<Rightarrow>
          let env = seal_group P salt g (cn_node_id n) (group_signer P (cn_secret n)) (epoch_of now) now (ascii body);
              msg_id = hex16_or_zero P (ge_msg_id env);
              n1 = n\<lparr>cn_inbox := snd (inbox_record
                     \<lparr> sm_msg_id = msg_id, sm_peer_id = group_thread_id P group_id, sm_outgoing = True,
                       sm_timestamp = now, sm_body = body \<rparr> (cn_inbox n))\<rparr>
          in (n1, to_peers (MsgComGroupStore env) n1, Inr msg_id))"

definition com_groups_list :: "prims \<Rightarrow> 'c com_node \<Rightarrow> (bytes \<times> string \<times> bool \<times> bytes) list" where
  "com_groups_list P n =
     map (\<lambda>(_, g). (gr_id g, gr_name g, gr_is_channel g, group_thread_id P (gr_id g))) (cn_groups n)"

definition com_conversation :: "prims \<Rightarrow> bytes \<Rightarrow> 'c com_node \<Rightarrow> (bool \<times> u64 \<times> string \<times> string) list" where
  "com_conversation P peer n =
     map (\<lambda>m. (sm_outgoing m, sm_timestamp m, sm_body m, p_hex_encode P (sm_msg_id m)))
       (inbox_conversation peer (cn_inbox n))"

text \<open>One round of the maintenance loop.\<close>

definition com_maintenance :: "prims \<Rightarrow> u64 \<Rightarrow> (bytes \<Rightarrow> string) \<Rightarrow> 'c com_node \<Rightarrow> 'c com_node \<times> outbox" where
  "com_maintenance P now req_id n =
     (n\<lparr>cn_mailbox := mailbox_evict_expired now (cn_mailbox n)\<rparr>, com_pull P now req_id n)"

subsection \<open>Delivery\<close>

lemma inbox_record_new:
  "sm_msg_id m \<notin> ib_seen b \<Longrightarrow> m \<in> set (inbox_conversation (sm_peer_id m) (snd (inbox_record m b)))"
  by (simp add: inbox_record_def inbox_conversation_def)

lemma handle_com_visible:
  assumes "open_com P (cn_secret n) (cn_static_pub P n) env = Inr m" "visible_body P dec (om_body m)"
  shows "handle_com P dec env n =
    n\<lparr>cn_contacts := hm_insert (om_sender_id m) (om_sender_pub m) (cn_contacts n),
      cn_inbox := snd (inbox_record \<lparr> sm_msg_id = om_msg_id m, sm_peer_id = om_sender_id m,
        sm_outgoing = False, sm_timestamp = om_timestamp m, sm_body = om_body m \<rparr> (cn_inbox n))\<rparr>"
  using assms by (simp add: handle_com_def visible_body_def Let_def)

subsection \<open>Signing keys of group members\<close>

definition bound_signer :: "'c com_node \<Rightarrow> bytes \<Rightarrow> bytes \<Rightarrow> bytes option" where
  "bound_signer n gid sid = Option.bind (hm_get (cn_groups n) gid) (\<lambda>g. signer_of g sid)"

lemma bind_signer_keeps:
  assumes "bind_signer i k g = (g', Inr r)" "signer_of g sid = Some pub"
  shows "signer_of g' sid = Some pub"
  using assms by (auto simp: bind_signer_def signer_of_def map_add_Some_iff split: option.splits if_splits)

lemma bind_signer_conflict:
  "signer_of g i = Some pub \<Longrightarrow> k \<noteq> pub \<Longrightarrow> \<exists>e. bind_signer i k g = (g, Inl e)"
  by (simp add: bind_signer_def)

lemma file_group_msg_pinned:
  assumes "bound_signer n gid sid = Some pub"
  shows "bound_signer (file_group_msg P g env n) gid sid = Some pub"
proof (cases "open_group P g env")
  case (Inr r)
  obtain sender_id sign_pub body where r: "r = (sender_id, sign_pub, body)" by (cases r)
  show ?thesis
  proof (cases "hm_get (cn_groups n) (gr_id g)")
    case None
    then show ?thesis using assms Inr r by (simp add: file_group_msg_def bound_signer_def)
  next
    case (Some stored)
    obtain g' res where b: "bind_signer sender_id sign_pub stored = (g', res)" by fastforce
    show ?thesis
    proof (cases res)
      case (Inl e)
      then show ?thesis using assms Inr r Some b by (simp add: file_group_msg_def)
    next
      case (Inr x)
      then show ?thesis
        using assms \<open>open_group P g env = Inr r\<close> r Some b
        by (auto simp: file_group_msg_def bound_signer_def update_conv' bind_eq_Some_conv
            intro: bind_signer_keeps)
    qed
  qed
qed (use assms in \<open>simp add: file_group_msg_def\<close>)

lemma file_if_member_pinned:
  "bound_signer n gid sid = Some pub \<Longrightarrow> bound_signer (file_if_member P env n) gid sid = Some pub"
  by (simp add: file_if_member_def file_group_msg_pinned split: option.splits)

lemma file_all_pinned:
  "bound_signer n gid sid = Some pub \<Longrightarrow> bound_signer (fold (file_if_member P) envs n) gid sid = Some pub"
  by (induction envs arbitrary: n) (simp_all add: file_if_member_pinned)

lemma file_group_msg_spoofed:
  assumes "bound_signer n (gr_id g) sid = Some pub" "open_group P g env = Inr (sid, k, body)" "k \<noteq> pub"
  shows "file_group_msg P g env n = n"
proof -
  from assms(1) obtain stored where s: "hm_get (cn_groups n) (gr_id g) = Some stored"
      "signer_of stored sid = Some pub"
    by (auto simp: bound_signer_def bind_eq_Some_conv)
  from bind_signer_conflict [OF s(2) assms(3)] s(1) assms(2) show ?thesis
    by (auto simp: file_group_msg_def)
qed

subsection \<open>Path of peers\<close>

definition path_inv :: "nat \<Rightarrow> path_acc \<Rightarrow> bool" where
  "path_inv n a \<longleftrightarrow> length (pa_out a) \<le> n \<and> pa_nodes a = map ls_node_id (pa_out a)
     \<and> distinct (pa_nodes a)"

lemma spec_of_peer_Some:
  "spec_of_peer P p = Some ls \<Longrightarrow> ls_node_id ls = pi_node_id p \<and> ls_host ls = pi_host p"
  by (auto simp: spec_of_peer_def)

text \<open>The valid candidates, and how far each pass gets.\<close>

definition valid_cands :: "prims \<Rightarrow> 'c peer_info list \<Rightarrow> 'c peer_info set" where
  "valid_cands P cs = {p \<in> set cs. spec_of_peer P p \<noteq> None}"

lemma pass1_fold:
  assumes "distinct (map pi_node_id (done @ cs))"
    and "path_inv n a" "set (pa_nodes a) \<subseteq> pi_node_id ` set done"
    and "pa_subnets a = map (subnet16 \<circ> ls_host) (pa_out a)" "distinct (pa_subnets a)"
    and "length (pa_out a) < n \<longrightarrow> set (pa_subnets a) = (subnet16 \<circ> pi_host) ` valid_cands P done"
  shows "let r = fold (path_pass1 P n) cs a in
    path_inv n r \<and> set (pa_nodes r) \<subseteq> pi_node_id ` set (done @ cs)
    \<and> pa_subnets r = map (subnet16 \<circ> ls_host) (pa_out r) \<and> distinct (pa_subnets r)
    \<and> (length (pa_out r) < n \<longrightarrow> set (pa_subnets r) = (subnet16 \<circ> pi_host) ` valid_cands P (done @ cs))"
  using assms
proof (induction cs arbitrary: "done" a)
  case (Cons p cs)
  let ?a = "path_pass1 P n p a"
  have new: "pi_node_id p \<notin> set (pa_nodes a)" using Cons.prems(1,3) by auto
  have v: "valid_cands P (done @ [p]) = (if spec_of_peer P p = None then valid_cands P done else insert p (valid_cands P done))"
    by (auto simp: valid_cands_def)
  have step: "path_inv n ?a \<and> set (pa_nodes ?a) \<subseteq> pi_node_id ` set (done @ [p])
      \<and> pa_subnets ?a = map (subnet16 \<circ> ls_host) (pa_out ?a) \<and> distinct (pa_subnets ?a)
      \<and> (length (pa_out ?a) < n \<longrightarrow> set (pa_subnets ?a) = (subnet16 \<circ> pi_host) ` valid_cands P (done @ [p]))"
    using Cons.prems(2-) new
    by (auto simp: path_pass1_def path_inv_def v image_iff dest: spec_of_peer_Some split: option.splits)
  have "let r = fold (path_pass1 P n) cs ?a in
    path_inv n r \<and> set (pa_nodes r) \<subseteq> pi_node_id ` set ((done @ [p]) @ cs)
    \<and> pa_subnets r = map (subnet16 \<circ> ls_host) (pa_out r) \<and> distinct (pa_subnets r)
    \<and> (length (pa_out r) < n \<longrightarrow> set (pa_subnets r) = (subnet16 \<circ> pi_host) ` valid_cands P ((done @ [p]) @ cs))"
    using Cons.prems(1) step by (intro Cons.IH) auto
  then show ?case by (simp add: comp_def)
qed (simp add: Let_def)

lemma pass2_fold:
  assumes "path_inv n a"
  shows "let r = fold (path_pass2 P n) cs a in path_inv n r
    \<and> set (pa_nodes r) \<subseteq> set (pa_nodes a) \<union> pi_node_id ` set cs \<and> set (pa_nodes a) \<subseteq> set (pa_nodes r)
    \<and> (length (pa_out r) < n \<longrightarrow> pi_node_id ` valid_cands P cs \<subseteq> set (pa_nodes r))"
  using assms
proof (induction cs arbitrary: a)
  case (Cons p cs)
  let ?a = "path_pass2 P n p a" and ?r = "fold (path_pass2 P n) cs (path_pass2 P n p a)"
  have step: "path_inv n ?a \<and> set (pa_nodes a) \<subseteq> set (pa_nodes ?a)
      \<and> set (pa_nodes ?a) \<subseteq> insert (pi_node_id p) (set (pa_nodes a))
      \<and> (length (pa_out ?a) < n \<longrightarrow> spec_of_peer P p \<noteq> None \<longrightarrow> pi_node_id p \<in> set (pa_nodes ?a))"
    using Cons.prems
    by (auto simp: path_pass2_def path_inv_def dest: spec_of_peer_Some split: option.splits)
  have ih: "path_inv n ?r \<and> set (pa_nodes ?r) \<subseteq> set (pa_nodes ?a) \<union> pi_node_id ` set cs
      \<and> set (pa_nodes ?a) \<subseteq> set (pa_nodes ?r)
      \<and> (length (pa_out ?r) < n \<longrightarrow> pi_node_id ` valid_cands P cs \<subseteq> set (pa_nodes ?r))"
    using Cons.IH step by (simp add: Let_def)
  have len: "length (pa_out ?a) < n" if "length (pa_out ?r) < n"
  proof (rule ccontr)
    assume "\<not> length (pa_out ?a) < n"
    then have "n \<le> length (pa_out ?a)" by simp
    then have "fold (path_pass2 P n) cs ?a = ?a"
      by (induction cs) (simp_all add: path_pass2_def)
    with that \<open>n \<le> length (pa_out ?a)\<close> show False by simp
  qed
  have v: "valid_cands P (p # cs)
      = (if spec_of_peer P p = None then valid_cands P cs else insert p (valid_cands P cs))"
    by (auto simp: valid_cands_def)
  have "length (pa_out ?r) < n \<longrightarrow> pi_node_id ` valid_cands P (p # cs) \<subseteq> set (pa_nodes ?r)"
    using ih step len unfolding v by (cases "spec_of_peer P p = None") auto
  then show ?case using ih step by (auto simp: Let_def)
qed (simp add: valid_cands_def Let_def)

subsection \<open>Properties\<close>

text \<open>C8: a message sent to a contact reaches the contact's conversation: the envelope that goes to every
  peer, handled by the node it is addressed to, is recorded there under the sender's id with the
  body and time of the sender, and is not forwarded any further.\<close>

theorem com_message_delivered:
  assumes "dh_ok P" "aead_ok P" "hex_ok P" "rust_string body" "visible_body P dec body"
    and "length rnd = 16" "length (cn_node_id a) = 32" "rnd \<notin> ib_seen (cn_inbox b)"
    and "com_send P dec now e rnd recipient (cn_static_pub P b) body a = (a', out, res)"
    and "(peer, MsgComStore env) \<in> set out"
    and "handle_com_store P dec now' env src b = (b', out')"
  shows "\<lparr> sm_msg_id = rnd, sm_peer_id = cn_node_id a, sm_outgoing = False, sm_timestamp = now,
           sm_body = body \<rparr> \<in> set (inbox_conversation (cn_node_id a) (cn_inbox b'))
    \<and> out' = [] \<and> res = Inr rnd \<and> com_resolve_pub P (cn_node_id a) (b'\<lparr>cn_peers := []\<rparr>) = Some (cn_static_pub P a)"
proof -
  let ?env = "seal P e rnd (cn_secret a) (cn_node_id a) (cn_static_pub P a) (cn_static_pub P b)
      (epoch_of now) now (ascii body)"
  have env: "env = ?env" and res: "res = Inr rnd"
    using assms(3,6,9,10) by (auto simp: com_send_def to_peers_def Let_def hex16_or_zero_def seal_def)
  have op: "open_com P (cn_secret b) (cn_static_pub P b) env = Inr
      \<lparr> om_msg_id = rnd, om_sender_id = cn_node_id a, om_sender_pub = cn_static_pub P a,
        om_timestamp = now, om_body = body \<rparr>"
    unfolding env cn_static_pub_def using assms(4)
    by (simp add: open_com_seal assms(1,2,3,6,7) from_utf8_lossy_string rust_string_def)
  have addr: "addressed_to_us P (cn_static_pub P b) env" unfolding env by simp
  have h: "handle_com P dec env b = b\<lparr>
      cn_contacts := hm_insert (cn_node_id a) (cn_static_pub P a) (cn_contacts b),
      cn_inbox := snd (inbox_record \<lparr> sm_msg_id = rnd, sm_peer_id = cn_node_id a, sm_outgoing = False,
        sm_timestamp = now, sm_body = body \<rparr> (cn_inbox b))\<rparr>"
    using handle_com_visible [OF op, of dec] assms(5) by simp
  have b': "b' = handle_com P dec env b" and out': "out' = []"
    using assms(11) addr by (simp_all add: handle_com_store_def)
  have "\<lparr> sm_msg_id = rnd, sm_peer_id = cn_node_id a, sm_outgoing = False, sm_timestamp = now,
           sm_body = body \<rparr> \<in> set (inbox_conversation (cn_node_id a) (cn_inbox b'))"
    using inbox_record_new [of "\<lparr> sm_msg_id = rnd, sm_peer_id = cn_node_id a, sm_outgoing = False,
        sm_timestamp = now, sm_body = body \<rparr>" "cn_inbox b"] assms(8) unfolding b' h by simp
  then show ?thesis using res out' by (simp add: b' h com_resolve_pub_def update_conv')
qed

definition sample_node :: "u8 \<Rightarrow> (bytes, unit peer_info) hmap \<Rightarrow> unit com_node" where
  "sample_node i peers = \<lparr> cn_node_id = replicate 32 i, cn_secret = [i], cn_contacts = [], cn_groups = [],
     cn_inbox = inbox_new, cn_mailbox = mailbox_new 600, cn_peers = peers \<rparr>"

definition sample_info :: "u8 \<Rightarrow> string \<Rightarrow> unit peer_info" where
  "sample_info i host = \<lparr> pi_node_id = replicate 32 i, pi_host = host, pi_port = 9000, pi_cert = (),
     pi_static_pub = p_hex_encode toy_prims (replicate 32 i) \<rparr>"

theorem com_message_delivered_witness:
  "\<exists>env. \<lparr> sm_msg_id = replicate 16 3, sm_peer_id = replicate 32 1, sm_outgoing = False, sm_timestamp = 500,
       sm_body = ''hi'' \<rparr>
     \<in> set (inbox_conversation (replicate 32 1)
         (cn_inbox (fst (handle_com_store toy_prims (\<lambda>_. None) 600 env [] (sample_node 2 [])))))"
proof -
  let ?a = "sample_node 1 [([2], sample_info 2 ''10.0.0.2'')]" and ?b = "sample_node 2 []"
  obtain a' out res where s: "com_send toy_prims (\<lambda>_. None) 500 [9] (replicate 16 3) (replicate 32 2)
      (cn_static_pub toy_prims ?b) ''hi'' ?a = (a', out, res)" by (metis prod_cases3)
  then obtain peer env where o: "(peer, MsgComStore env) \<in> set out"
    by (auto simp: com_send_def to_peers_def Let_def record_own_def sample_node_def split: if_splits)
  obtain b' out' where h: "handle_com_store toy_prims (\<lambda>_. None) 600 env [] ?b = (b', out')" by fastforce
  have id: "cn_node_id ?a = replicate 32 1" by (simp add: sample_node_def)
  have "\<lparr> sm_msg_id = replicate 16 3, sm_peer_id = cn_node_id ?a, sm_outgoing = False, sm_timestamp = 500,
       sm_body = ''hi'' \<rparr> \<in> set (inbox_conversation (cn_node_id ?a) (cn_inbox b'))"
    using com_message_delivered [OF _ _ _ _ _ _ _ _ s o h]
    by (simp add: rust_string_def ascii_def utf8_step_def visible_body_def decode_invite_def
        decode_delete_def DELETE_PREFIX_def sample_node_def inbox_new_def)
  then show ?thesis using h unfolding id by (intro exI [of _ env]) simp
qed

text \<open>the first signing key bound to a member of a group stays bound whatever group envelopes are
  filed afterwards, and an envelope that names the member with another key changes nothing.\<close>

theorem group_signer_pinned:
  assumes "bound_signer n (gr_id g) sid = Some pub"
  shows "bound_signer (fold (file_if_member P) envs n) (gr_id g) sid = Some pub
    \<and> (open_group P g env = Inr (sid, k, body) \<and> k \<noteq> pub \<longrightarrow>
        file_group_msg P g env (fold (file_if_member P) envs n) = fold (file_if_member P) envs n)"
  using file_all_pinned [OF assms, of P envs] file_group_msg_spoofed by blast

theorem group_signer_pinned_witness:
  "bound_signer (fold (file_if_member toy_prims) [] ((sample_node 1 [])\<lparr>cn_groups :=
      [(replicate 16 1, group_create (replicate 16 1) [] ''g'' [7] [8] False)]\<rparr>)) (replicate 16 1) [7] = Some [8]"
  using group_signer_pinned [of "(sample_node 1 [])\<lparr>cn_groups :=
      [(replicate 16 1, group_create (replicate 16 1) [] ''g'' [7] [8] False)]\<rparr>"
      "group_create (replicate 16 1) [] ''g'' [7] [8] False" "[7]" "[8]" toy_prims "[]"]
  by (simp add: bound_signer_def group_create_def signer_of_def)

text \<open>the path for an anonymous injection has at most the wanted number of hops, visits different
  nodes and never the sender; it is shorter than wanted only when every peer with a valid key is on
  it, and when the peers lie in enough different /16 networks all its hops do.\<close>

theorem com_path_diverse:
  fixes node :: "'c com_node"
  assumes "\<forall>xs. mset (shuffle xs) = mset (xs :: 'c peer_info list)"
    and "distinct (map (pi_node_id \<circ> snd) (cn_peers node))"
    and "path = com_circuit_path P shuffle n node"
    and "valid = {p \<in> snd ` set (cn_peers node). pi_node_id p \<noteq> cn_node_id node \<and> spec_of_peer P p \<noteq> None}"
  shows "length path \<le> n \<and> distinct (map ls_node_id path)
    \<and> set (map ls_node_id path) \<subseteq> pi_node_id ` snd ` set (cn_peers node) - {cn_node_id node}
    \<and> (length path < n \<longrightarrow> pi_node_id ` valid \<subseteq> set (map ls_node_id path))
    \<and> (n \<le> card ((subnet16 \<circ> pi_host) ` valid) \<longrightarrow> distinct (map (subnet16 \<circ> ls_host) path))"
proof -
  let ?cs0 = "filter (\<lambda>p. pi_node_id p \<noteq> cn_node_id node) (map snd (cn_peers node))"
  define cs where "cs = shuffle ?cs0"
  have m: "mset cs = mset ?cs0" using assms(1) by (simp add: cs_def)
  have "distinct (map pi_node_id ?cs0)"
    using assms(2) by (intro distinct_map_filter) simp
  moreover have "mset (map pi_node_id cs) = mset (map pi_node_id ?cs0)" using m by (simp only: mset_map)
  ultimately have d: "distinct (map pi_node_id cs)" using mset_eq_imp_distinct_iff by blast
  have setcs: "set cs = set ?cs0" using m by (rule mset_eq_setD)
  have valid: "valid_cands P cs = valid" using setcs assms(4) by (auto simp: valid_cands_def)
  define a0 where "a0 = \<lparr> pa_out = [], pa_subnets = [], pa_nodes = [] \<rparr>"
  define a1 where "a1 = fold (path_pass1 P n) cs a0"
  define a2 where "a2 = (if length (pa_out a1) < n then fold (path_pass2 P n) cs a1 else a1)"
  have path: "path = pa_out a2"
    unfolding assms(3) com_circuit_path_def Let_def cs_def [symmetric] a0_def [symmetric] a1_def [symmetric] a2_def by simp
  have a0: "path_inv n a0" "set (pa_nodes a0) \<subseteq> pi_node_id ` set []"
      "pa_subnets a0 = map (subnet16 \<circ> ls_host) (pa_out a0)" "distinct (pa_subnets a0)"
      "length (pa_out a0) < n \<longrightarrow> set (pa_subnets a0) = (subnet16 \<circ> pi_host) ` valid_cands P []"
    by (simp_all add: a0_def path_inv_def valid_cands_def)
  have p1: "path_inv n a1" "set (pa_nodes a1) \<subseteq> pi_node_id ` set cs"
      "pa_subnets a1 = map (subnet16 \<circ> ls_host) (pa_out a1)" "distinct (pa_subnets a1)"
      "length (pa_out a1) < n \<longrightarrow> set (pa_subnets a1) = (subnet16 \<circ> pi_host) ` valid"
    using pass1_fold [OF _ a0, of cs, unfolded append_Nil Let_def, folded a1_def, OF d] valid by blast+
  have p2: "path_inv n a2" "set (pa_nodes a2) \<subseteq> pi_node_id ` set cs"
      "length (pa_out a2) < n \<longrightarrow> pi_node_id ` valid \<subseteq> set (pa_nodes a2)"
    using pass2_fold [OF p1(1), of P cs] p1(1,2) by (auto simp: a2_def Let_def valid)
  have "distinct (map (subnet16 \<circ> ls_host) path)" if "n \<le> card ((subnet16 \<circ> pi_host) ` valid)"
  proof (cases "length (pa_out a1) < n")
    case True
    with p1(5) have "card ((subnet16 \<circ> pi_host) ` valid) = card (set (pa_subnets a1))" by simp
    also have "\<dots> \<le> length (pa_out a1)" by (metis card_length length_map p1(3))
    finally show ?thesis using that True by simp
  next
    case False
    then show ?thesis using p1(3,4) by (simp add: path a2_def)
  qed
  moreover have "pi_node_id ` set cs \<subseteq> pi_node_id ` snd ` set (cn_peers node) - {cn_node_id node}"
    unfolding setcs by auto
  then have "set (map ls_node_id path) \<subseteq> pi_node_id ` snd ` set (cn_peers node) - {cn_node_id node}"
    using p2(1,2) by (simp only: path path_inv_def)
  moreover have "distinct (map ls_node_id path)" "length path \<le> n"
    using p2(1) by (auto simp: path path_inv_def)
  ultimately show ?thesis using p2(1,3) by (simp add: path path_inv_def)
qed

theorem com_path_diverse_witness:
  "length (com_circuit_path toy_prims id 1 (sample_node 1 [([2], sample_info 2 ''10.0.0.2'')])) \<le> 1"
  using com_path_diverse [of id "sample_node 1 [([2], sample_info 2 ''10.0.0.2'')]" _ toy_prims 1]
  by (simp add: sample_node_def)

subsection \<open>The lock of the groups\<close>

lemma exec_reached:
  "exec p h s = (s1, h1, p1) \<Longrightarrow> shared_step\<^sup>*\<^sup>* (h, (0, False), s, p) (h1, (0, False), s1, p1)"
proof (induction p arbitrary: h s)
  case (Lock op k)
  obtain r w where h: "h = (r, w)" by (cases h)
  show ?case
  proof (cases "lock_free_for op h")
    case True
    then have "shared_step (h, (0, False), s, Lock op k) (lock_apply op h, (0, False), s, k)"
      using own_lock [of op r 0 w False s k] h by simp
    then show ?thesis
      by (rule converse_rtranclp_into_rtranclp) (use Lock.IH [of "lock_apply op h" s] Lock.prems True in simp)
  qed (use Lock.prems in auto)
next
  case (Act f k)
  then show ?case using own_act [of h "(0, False)" s f k] by (simp add: converse_rtranclp_into_rtranclp)
next
  case (Branch f)
  have "shared_step\<^sup>*\<^sup>* (h, (0, False), s, f s) (h1, (0, False), s1, p1)" using Branch.IH [OF rangeI] Branch.prems by simp
  then show ?case using own_branch [of h "(0, False)" s f] by (rule converse_rtranclp_into_rtranclp [rotated])
qed auto

text \<open>Who holds a read guard and asks for the write guard waits for ever.\<close>

lemma upgrade_waits:
  assumes "shared_step\<^sup>*\<^sup>* ((Suc r, w), h', s, Lock AcquireWrite k) c"
  shows "\<exists>h' s. c = ((Suc r, w), h', s, Lock AcquireWrite k)"
  using assms
proof (induction rule: rtranclp_induct)
  case (step c d)
  then obtain h' s where "c = ((Suc r, w), h', s, Lock AcquireWrite k)" by blast
  with step.hyps(2) show ?case by (cases rule: shared_step.cases) auto
qed blast

lemma exec_file_group:
  "exec (file_group_prog P g env k) (0, False) n = exec k (0, False) (file_group_msg P g env n)"
  by (auto simp: file_group_prog_def file_group_msg_def record_group_msg_def Let_def split: sum.split option.split prod.split)

lemma exec_file_stored: "exec (file_stored_prog P env) (0, False) n = (file_if_member P env n, (0, False), Done)"
  by (auto simp: file_stored_prog_def file_if_member_def group_of_envelope_def exec_file_group split: option.split)

definition opens_group :: "prims \<Rightarrow> group_envelope \<Rightarrow> 'c com_node \<Rightarrow> bool" where
  "opens_group P env n \<longleftrightarrow> (\<exists>g r. group_of_envelope P env n = Some g \<and> open_group P g env = Inr r)"

lemma exec_file_pulled:
  "if \<exists>env \<in> set envs. opens_group P env n
   then \<exists>k. exec (file_pulled_prog P envs) (0, False) n = (n, (1, False), Lock AcquireWrite k)
   else exec (file_pulled_prog P envs) (0, False) n = (n, (0, False), Done)"
proof (induction envs)
  case (Cons env envs)
  show ?case
  proof (cases "opens_group P env n")
    case True
    then obtain gid g x where g: "hex_array P 16 (ge_group_id env) = Some gid" "hm_get (cn_groups n) gid = Some g"
        "open_group P g env = Inr x" by (auto simp: opens_group_def group_of_envelope_def bind_eq_Some_conv)
    obtain a b c where "x = (a, b, c)" by (cases x)
    with g have "\<exists>k. exec (file_pulled_prog P (env # envs)) (0, False) n = (n, (1, False), Lock AcquireWrite k)"
      by (simp add: file_group_prog_def)
    with True show ?thesis by simp
  next
    case False
    have same: "exec (file_pulled_prog P (env # envs)) (0, False) n = exec (file_pulled_prog P envs) (0, False) n"
    proof (cases "hex_array P 16 (ge_group_id env)")
      case (Some gid)
      show ?thesis
      proof (cases "hm_get (cn_groups n) gid")
        case (Some g)
        then obtain e where "open_group P g env = Inl e"
          using False \<open>hex_array P 16 (ge_group_id env) = Some gid\<close>
          by (cases "open_group P g env") (auto simp: opens_group_def group_of_envelope_def)
        then show ?thesis using Some \<open>hex_array P 16 (ge_group_id env) = Some gid\<close> by (simp add: file_group_prog_def)
      qed (use Some in simp)
    qed simp
    have "(\<exists>e \<in> set (env # envs). opens_group P e n) \<longleftrightarrow> (\<exists>e \<in> set envs. opens_group P e n)" using False by simp
    then show ?thesis unfolding same using Cons.IH by simp
  qed
qed simp

text \<open>C15: Pulled mail. The handler of a mail answer files the private messages in order. It takes a read guard of the
  groups for each group envelope and keeps it while the envelope is filed. If no group envelope opens for a group of
  the node, it ends with all guards released. Otherwise it stops, holding the guard and waiting for the write guard
  of the same lock, and whatever other tasks do with the lock and with the state, it never gets further; no group
  message is filed. An envelope of one's own group always opens. Filing the same envelope when it arrives by gossip
  ends, as the guard is released before.\<close>

theorem com_mail_blocks:
  assumes "aead_ok P" "hex_ok P" "ed_ok P" "length sid = 32" "length salt = 16" "length gid = 16"
    and "n' = fold (\<lambda>env n. if addressed_to_us P (cn_static_pub P n) env then handle_com P dec env n else n)
      (cm_envelopes msg) n"
    and "openable \<longleftrightarrow> (\<exists>env \<in> set (cm_group_envelopes msg). \<exists>g r. group_of_envelope P env n' = Some g \<and> open_group P g env = Inr r)"
  shows "(\<not> openable \<longrightarrow> handle_com_mail P dec msg n = (n', (0, False), Done))
    \<and> (openable \<longrightarrow> (\<exists>k. handle_com_mail P dec msg n = (n', (1, False), Lock AcquireWrite k)
        \<and> (\<forall>others c. shared_step\<^sup>*\<^sup>* ((1, False), others, n', Lock AcquireWrite k) c
             \<longrightarrow> fst c = (1, False) \<and> snd (snd (snd c)) = Lock AcquireWrite k)))
    \<and> (hm_get (cn_groups n') gid = Some g \<and> gr_id g = gid
        \<and> seal_group P salt g sid signer epoch ts pt \<in> set (cm_group_envelopes msg) \<longrightarrow> openable)
    \<and> exec (file_stored_prog P env) (0, False) n = (file_if_member P env n, (0, False), Done)"
proof -
  let ?env = "seal_group P salt g sid signer epoch ts pt" and ?p = "file_pulled_prog P (cm_group_envelopes msg)"
  have eq: "handle_com_mail P dec msg n = exec ?p (0, False) n'" by (simp add: handle_com_mail_def assms(7))
  have op: "openable \<longleftrightarrow> (\<exists>env \<in> set (cm_group_envelopes msg). opens_group P env n')" by (simp add: assms(8) opens_group_def)
  have waits: "fst c = (1, False) \<and> snd (snd (snd c)) = Lock AcquireWrite k"
    if "shared_step\<^sup>*\<^sup>* ((1, False), others, n', Lock AcquireWrite k) c" for others c k
  proof -
    from upgrade_waits [of 0 False others n' k c] that obtain h' s where "c = ((Suc 0, False), h', s, Lock AcquireWrite k)" by auto
    then show ?thesis by simp
  qed
  have "group_of_envelope P ?env n' = Some g \<and> (\<exists>r. open_group P g ?env = Inr r)"
    if "hm_get (cn_groups n') gid = Some g" "gr_id g = gid"
    using that assms(1-6) open_group_seal [OF assms(1-5), of g signer epoch ts pt]
    by (simp add: group_of_envelope_def seal_group_def Let_def hex_array_def to_array_def)
  then have "hm_get (cn_groups n') gid = Some g \<and> gr_id g = gid \<and> ?env \<in> set (cm_group_envelopes msg) \<longrightarrow> openable"
    unfolding assms(8) by blast
  moreover have "\<not> openable \<longrightarrow> handle_com_mail P dec msg n = (n', (0, False), Done)"
    using exec_file_pulled [of "cm_group_envelopes msg" P n'] unfolding eq op by simp
  moreover have "openable \<longrightarrow> (\<exists>k. handle_com_mail P dec msg n = (n', (1, False), Lock AcquireWrite k))"
    using exec_file_pulled [of "cm_group_envelopes msg" P n'] unfolding eq op by (simp split: if_splits)
  ultimately show ?thesis using waits exec_file_stored [of P env n] by (intro conjI) (assumption | metis)+
qed

theorem com_mail_blocks_witness:
  "\<exists>n k. handle_com_mail toy_prims (\<lambda>_. None) \<lparr> cm_req_id = [], cm_envelopes = [],
      cm_group_envelopes = [seal_group toy_prims (replicate 16 3)
        (group_create (replicate 16 1) (replicate 32 2) ''g'' [] [] False) (replicate 32 4) [5] 1 2 []] \<rparr>
      ((sample_node 1 [])\<lparr>cn_groups :=
        [(replicate 16 1, group_create (replicate 16 1) (replicate 32 2) ''g'' [] [] False)]\<rparr>) = (n, (1, False), Lock AcquireWrite k)"
proof -
  let ?g = "group_create (replicate 16 1) (replicate 32 2) ''g'' [] [] False"
  let ?n = "(sample_node 1 [])\<lparr>cn_groups := [(replicate 16 1, ?g)]\<rparr>"
  let ?m = "\<lparr> cm_req_id = [], cm_envelopes = [],
      cm_group_envelopes = [seal_group toy_prims (replicate 16 3) ?g (replicate 32 4) [5] 1 2 []] \<rparr>"
  have g: "gr_id ?g = replicate 16 1" by (simp add: group_create_def)
  have hyps: "length (replicate 32 4 :: bytes) = 32" "length (replicate 16 3 :: bytes) = 16" "length (replicate 16 1 :: bytes) = 16"
      "?n = fold (\<lambda>env n. if addressed_to_us toy_prims (cn_static_pub toy_prims n) env
        then handle_com toy_prims (\<lambda>_. None) env n else n) (cm_envelopes ?m) ?n"
    by simp_all
  have ok: "aead_ok toy_prims" "hex_ok toy_prims" "ed_ok toy_prims" by simp_all
  define openable where "openable \<longleftrightarrow> (\<exists>env \<in> set (cm_group_envelopes ?m). \<exists>g r. group_of_envelope toy_prims env ?n = Some g
    \<and> open_group toy_prims g env = Inr r)"
  note blocks = com_mail_blocks [OF ok hyps openable_def, of ?g "[5]" 1 2 "[]"]
  have "openable"
    by (rule blocks [THEN conjunct2, THEN conjunct2, THEN conjunct1, THEN mp]) (simp add: g)
  with blocks [THEN conjunct2, THEN conjunct1] show ?thesis by blast
qed

end
