(* ===== verification/ComGossip.thy ===== *)
theory ComGossip
  imports ComNode
begin

section \<open>Flooding an envelope through the network\<close>

text \<open>
  Nodes forward an envelope they have not seen to every peer but the one it came from
  (\<open>handle_com_store\<close> of phinet-core/src/node.rs). The locale states what a forwarding node promises
  and proves what a network of such nodes achieves: the flood ends after a bounded number of
  deliveries, and then every node that forwarding nodes connect to the origin has the message. It is
  interpreted on the handler of the model.
\<close>

record ('n, 's) net =
  nt_state :: "'n \<Rightarrow> 's"
  nt_flight :: "('n \<times> 'n) multiset"
  nt_count :: nat

text \<open>
  A message under way (source and destination) is delivered in any order; unrelated activity of a
  node may happen at any time. The counter counts deliveries.
\<close>

inductive net_step ::
  "('t \<Rightarrow> 'n \<Rightarrow> 'n \<Rightarrow> 's \<Rightarrow> 's \<times> 'n list) \<Rightarrow> ('n \<Rightarrow> 's \<Rightarrow> 's \<Rightarrow> bool) \<Rightarrow> ('n, 's) net \<Rightarrow> ('n, 's) net \<Rightarrow> bool"
  for step other where
  deliver: "(a, b) \<in># nt_flight N \<Longrightarrow> step t b a (nt_state N b) = (s', outs) \<Longrightarrow>
    net_step step other N \<lparr> nt_state = (nt_state N)(b := s'),
      nt_flight = nt_flight N - {#(a, b)#} + mset (map (Pair b) outs), nt_count = Suc (nt_count N) \<rparr>"
| unrelated: "other b (nt_state N b) s' \<Longrightarrow> net_step step other N (N\<lparr>nt_state := (nt_state N)(b := s')\<rparr>)"

inductive_cases net_stepE: "net_step step other N N'"

lemma net_step_cases [consumes 1, case_names deliver unrelated]:
  assumes "net_step step other N N'"
  obtains a b t s' outs where "N' = \<lparr> nt_state = (nt_state N)(b := s'),
      nt_flight = nt_flight N - {#(a, b)#} + mset (map (Pair b) outs), nt_count = Suc (nt_count N) \<rparr>"
      "(a, b) \<in># nt_flight N" "step t b a (nt_state N b) = (s', outs)"
    | b s' where "N' = N\<lparr>nt_state := (nt_state N)(b := s')\<rparr>" "other b (nt_state N b) s'"
  using assms
proof (cases rule: net_step.cases)
  case (deliver a b t s' outs)
  then show ?thesis by (intro that(1)) simp_all
next
  case (unrelated b s')
  then show ?thesis by (intro that(2)) simp_all
qed

definition net_start :: "'n \<Rightarrow> ('n \<Rightarrow> 'n list) \<Rightarrow> ('n \<Rightarrow> 's) \<Rightarrow> ('n, 's) net" where
  "net_start origin peers \<sigma> =
     \<lparr> nt_state = \<sigma>, nt_flight = mset (map (Pair origin) (peers origin)), nt_count = 0 \<rparr>"

text \<open>An edge along which the flood passes: from the origin or from a node that forwards.\<close>

definition relay_edge :: "('n \<Rightarrow> 'n list) \<Rightarrow> ('n \<Rightarrow> bool) \<Rightarrow> 'n \<Rightarrow> 'n \<Rightarrow> 'n \<Rightarrow> bool" where
  "relay_edge peers sink origin u v \<longleftrightarrow> v \<in> set (peers u) \<and> (u = origin \<or> \<not> sink u)"

locale gossip =
  fixes step :: "'t \<Rightarrow> 'n \<Rightarrow> 'n \<Rightarrow> 's \<Rightarrow> 's \<times> 'n list"
    and other :: "'n \<Rightarrow> 's \<Rightarrow> 's \<Rightarrow> bool"
    and seen :: "'n \<Rightarrow> 's \<Rightarrow> bool"
    and peers :: "'n \<Rightarrow> 'n list"
    and sink :: "'n \<Rightarrow> bool"
    and good :: "'n \<Rightarrow> 's \<Rightarrow> bool"
  assumes first: "good v s \<Longrightarrow> \<not> seen v s \<Longrightarrow> step t v src s = (s', outs) \<Longrightarrow>
      seen v s' \<and> outs = (if sink v then [] else filter (\<lambda>p. p \<noteq> src) (peers v))"
    and again: "good v s \<Longrightarrow> seen v s \<Longrightarrow> step t v src s = (s', outs) \<Longrightarrow> seen v s' \<and> outs = []"
    and good_step: "good v s \<Longrightarrow> step t v src s = (s', outs) \<Longrightarrow> good v s'"
    and good_other: "good v s \<Longrightarrow> other v s s' \<Longrightarrow> good v s' \<and> (seen v s' \<longleftrightarrow> seen v s)"
begin

definition has :: "('n, 's) net \<Rightarrow> 'n \<Rightarrow> bool" where
  "has N v \<longleftrightarrow> seen v (nt_state N v)"

definition coming :: "('n, 's) net \<Rightarrow> 'n \<Rightarrow> bool" where
  "coming N v \<longleftrightarrow> has N v \<or> (\<exists>a. (a, v) \<in># nt_flight N)"

definition net_inv :: "'n set \<Rightarrow> 'n \<Rightarrow> ('n, 's) net \<Rightarrow> bool" where
  "net_inv V origin N \<longleftrightarrow> (\<forall>v. good v (nt_state N v))
     \<and> (\<forall>p \<in> set (peers origin). coming N p)
     \<and> (\<forall>v. has N v \<longrightarrow> \<not> sink v \<longrightarrow> (\<forall>p \<in> set (peers v). p = origin \<or> coming N p))
     \<and> (\<forall>a b. (a, b) \<in># nt_flight N \<longrightarrow> (a = origin \<or> has N a) \<and> b \<in> V)"

definition open_degree :: "'n set \<Rightarrow> ('n, 's) net \<Rightarrow> nat" where
  "open_degree V N = (\<Sum>v \<in> {v \<in> V. \<not> has N v}. length (peers v))"

definition potential :: "'n set \<Rightarrow> ('n, 's) net \<Rightarrow> nat" where
  "potential V N = nt_count N + size (nt_flight N) + open_degree V N"

lemma deliver_facts:
  assumes inv: "net_inv V origin N" and mem: "(a, b) \<in># nt_flight N"
    and st: "step t b a (nt_state N b) = (s', outs)"
    and N': "N' = \<lparr> nt_state = (nt_state N)(b := s'),
      nt_flight = nt_flight N - {#(a, b)#} + mset (map (Pair b) outs), nt_count = Suc (nt_count N) \<rparr>"
  shows "has N' v \<longleftrightarrow> v = b \<or> has N v"
    and "coming N p \<Longrightarrow> coming N' p"
    and "outs = (if has N b \<or> sink b then [] else filter (\<lambda>p. p \<noteq> a) (peers b))"
    and "good b s'"
proof -
  have g: "good b (nt_state N b)" using inv by (simp add: net_inv_def)
  show "good b s'" by (rule good_step [OF g st])
  have sb: "seen b s' \<and> outs = (if has N b \<or> sink b then [] else filter (\<lambda>p. p \<noteq> a) (peers b))"
    using first [OF g _ st] again [OF g _ st] by (cases "seen b (nt_state N b)") (simp_all add: has_def)
  then show outs: "outs = (if has N b \<or> sink b then [] else filter (\<lambda>p. p \<noteq> a) (peers b))" by simp
  show h: "has N' v \<longleftrightarrow> v = b \<or> has N v" for v using sb by (simp add: has_def N')
  show "coming N' p" if "coming N p"
  proof (cases "p = b")
    case True
    then show ?thesis using h by (simp add: coming_def)
  next
    case False
    have "(c, p) \<in># nt_flight N'" if "(c, p) \<in># nt_flight N" for c
      using that False by (simp add: N' in_diff_count)
    then show ?thesis using that h by (auto simp: coming_def)
  qed
qed

lemma net_inv_step:
  assumes inv: "net_inv V origin N" and V: "\<forall>v \<in> V. set (peers v) \<subseteq> V" and st: "net_step step other N N'"
  shows "net_inv V origin N'"
  using st
proof (cases rule: net_step_cases)
  case (deliver a b t s' outs)
  note f = deliver_facts [OF inv deliver(2,3,1)]
  have b: "b \<in> V" and a: "a = origin \<or> has N a" using inv deliver(2) by (auto simp: net_inv_def)
  have newb: "p = origin \<or> coming N' p" if "p \<in> set (peers b)" "\<not> sink b" for p
  proof (cases "has N b")
    case True
    then have "p = origin \<or> coming N p" using inv that by (auto simp: net_inv_def)
    then show ?thesis using f(2) by blast
  next
    case False
    show ?thesis
    proof (cases "p = a")
      case True
      then show ?thesis using a f(1) by (auto simp: coming_def)
    next
      case ne: False
      then have "(b, p) \<in># nt_flight N'" using f(3) False that deliver(1) by simp
      then show ?thesis by (auto simp: coming_def)
    qed
  qed
  have fl: "(c = origin \<or> has N' c) \<and> d \<in> V" if "(c, d) \<in># nt_flight N'" for c d
  proof (cases "(c, d) \<in># nt_flight N")
    case True
    then show ?thesis using inv f(1) by (auto simp: net_inv_def)
  next
    case False
    then have "c = b" "d \<in> set outs" using that deliver(1) by (auto dest: in_diffD)
    then show ?thesis using f(1,3) b V by (auto split: if_splits)
  qed
  show ?thesis
    unfolding net_inv_def
  proof (intro conjI allI ballI impI)
    show "good v (nt_state N' v)" for v using inv f(4) deliver(1) by (simp add: net_inv_def)
    show "coming N' p" if "p \<in> set (peers origin)" for p using inv f(2) that by (simp add: net_inv_def)
    show "p = origin \<or> coming N' p" if "has N' v" "\<not> sink v" "p \<in> set (peers v)" for v p
      using that f(1) f(2) newb inv by (metis net_inv_def)
    show "c = origin \<or> has N' c" "d \<in> V" if "(c, d) \<in># nt_flight N'" for c d using fl [OF that] by simp_all
  qed
next
  case (unrelated b s')
  have g: "good b (nt_state N b)" using inv by (simp add: net_inv_def)
  have h: "has N' v \<longleftrightarrow> has N v" for v using good_other [OF g unrelated(2)] unrelated(1) by (simp add: has_def)
  have c: "coming N' v \<longleftrightarrow> coming N v" for v using unrelated(1) h by (simp add: coming_def)
  have g': "good v (nt_state N' v)" for v
    using inv good_other [OF g unrelated(2)] unrelated(1) by (simp add: net_inv_def)
  have f': "nt_flight N' = nt_flight N" using unrelated(1) by simp
  show ?thesis using inv g' by (simp add: net_inv_def h c f')
qed

lemma potential_step:
  assumes inv: "net_inv V origin N" and V: "finite V" and st: "net_step step other N N'"
  shows "potential V N' \<le> potential V N"
  using st
proof (cases rule: net_step_cases)
  case (deliver a b t s' outs)
  note f = deliver_facts [OF inv deliver(2,3,1)]
  have b: "b \<in> V" using inv deliver(2) by (auto simp: net_inv_def)
  obtain M where M: "nt_flight N = add_mset (a, b) M" using multi_member_split [OF deliver(2)] by blast
  have size: "Suc (size (nt_flight N')) = size (nt_flight N) + length outs" using deliver(1) by (simp add: M)
  have "length outs + open_degree V N' \<le> open_degree V N"
  proof (cases "has N b")
    case True
    then have "{v \<in> V. \<not> has N' v} = {v \<in> V. \<not> has N v}" using f(1) by auto
    then show ?thesis using True f(3) by (simp add: open_degree_def)
  next
    case False
    have "{v \<in> V. \<not> has N v} = insert b {v \<in> V. \<not> has N' v}" using f(1) b False by auto
    moreover have "b \<notin> {v \<in> V. \<not> has N' v}" using f(1) by simp
    ultimately have "open_degree V N = length (peers b) + open_degree V N'"
      using V by (simp add: open_degree_def)
    moreover have "length outs \<le> length (peers b)" using f(3) by simp
    ultimately show ?thesis by simp
  qed
  then show ?thesis using size deliver(1) by (simp add: potential_def)
next
  case (unrelated b s')
  have g: "good b (nt_state N b)" using inv by (simp add: net_inv_def)
  have h: "has N' v \<longleftrightarrow> has N v" for v using good_other [OF g unrelated(2)] unrelated(1) by (simp add: has_def)
  have f: "nt_flight N' = nt_flight N" "nt_count N' = nt_count N" using unrelated(1) by simp_all
  show ?thesis by (simp add: potential_def open_degree_def h f)
qed

lemma flood_run:
  assumes V: "finite V" "origin \<in> V" "\<forall>v \<in> V. set (peers v) \<subseteq> V"
    and \<sigma>: "\<forall>v. good v (\<sigma> v) \<and> \<not> seen v (\<sigma> v)"
    and run: "(net_step step other)\<^sup>*\<^sup>* (net_start origin peers \<sigma>) N"
  shows "net_inv V origin N \<and> potential V N \<le> length (peers origin) + (\<Sum>v \<in> V. length (peers v))"
  using run
proof (induction rule: rtranclp_induct)
  case base
  have h: "\<not> has (net_start origin peers \<sigma>) v" for v using \<sigma> by (simp add: has_def net_start_def)
  have "coming (net_start origin peers \<sigma>) p" if "p \<in> set (peers origin)" for p
    using that by (auto simp: coming_def net_start_def)
  then show ?case
    using V \<sigma> h by (auto simp: net_inv_def potential_def open_degree_def) (auto simp: net_start_def)
next
  case (step N N')
  then show ?case
    using net_inv_step [OF _ V(3)] potential_step [OF _ V(1)] by (meson order_trans)
qed

lemma flood_reaches:
  assumes inv: "net_inv V origin N" and quiet: "nt_flight N = {#}"
    and path: "(relay_edge peers sink origin)\<^sup>*\<^sup>* origin v" and v: "v \<noteq> origin"
  shows "has N v"
proof -
  have c: "has N p" if "coming N p" for p using that quiet by (simp add: coming_def)
  have "v = origin \<or> has N v"
    using path
  proof (induction rule: rtranclp_induct)
    case (step u w)
    have origin: "has N p" if "p \<in> set (peers origin)" for p using that inv c by (simp add: net_inv_def)
    have relay: "p = origin \<or> has N p" if "has N u" "\<not> sink u" "p \<in> set (peers u)" for p
      using that inv c by (metis net_inv_def)
    from step(2,3) origin relay show ?case by (auto simp: relay_edge_def)
  qed simp
  with v show ?thesis by simp
qed

lemma flood_progress:
  assumes "nt_flight N \<noteq> {#}"
  shows "\<exists>N'. net_step step other N N' \<and> nt_count N' = Suc (nt_count N)"
proof -
  from assms obtain a b where m: "(a, b) \<in># nt_flight N" by (metis multiset_nonemptyE surj_pair)
  obtain s' outs where st: "step undefined b a (nt_state N b) = (s', outs)" by fastforce
  show ?thesis by (rule exI, rule conjI, rule net_step.deliver, rule m, rule st) simp
qed

end

subsection \<open>The handler as a forwarding node\<close>

text \<open>
  A message in transit: the sealed envelope of sender \<open>sid\<close> for the recipient \<open>rid\<close>, and what the
  recipient records.
\<close>

record flood =
  fl_env :: com_envelope
  fl_message :: stored_message
  fl_recipient :: bytes
  fl_secret :: "bytes \<Rightarrow> bytes"
  fl_peers :: "bytes \<Rightarrow> bytes list"

definition flood_ok :: "prims \<Rightarrow> invite_decoder \<Rightarrow> flood \<Rightarrow> bool" where
  "flood_ok P dec F \<longleftrightarrow> visible_body P dec (sm_body (fl_message F))
    \<and> (\<forall>v. addressed_to_us P (p_x25519_pub P (fl_secret F v)) (fl_env F) \<longleftrightarrow> v = fl_recipient F)
    \<and> \<not> sm_outgoing (fl_message F)
    \<and> (\<exists>pub. open_com P (fl_secret F (fl_recipient F)) (p_x25519_pub P (fl_secret F (fl_recipient F))) (fl_env F)
        = Inr \<lparr> om_msg_id = sm_msg_id (fl_message F), om_sender_id = sm_peer_id (fl_message F),
                om_sender_pub = pub, om_timestamp = sm_timestamp (fl_message F),
                om_body = sm_body (fl_message F) \<rparr>)"

definition flood_step ::
  "prims \<Rightarrow> invite_decoder \<Rightarrow> flood \<Rightarrow> u64 \<Rightarrow> bytes \<Rightarrow> bytes \<Rightarrow> 'c com_node \<Rightarrow> 'c com_node \<times> bytes list" where
  "flood_step P dec F now v src n =
     (case handle_com_store P dec now (fl_env F) src n of (n', out) \<Rightarrow> (n', map fst out))"

text \<open>Whatever else happens at a node: anything that leaves the message, the peers and the key alone.\<close>

definition flood_other :: "flood \<Rightarrow> bytes \<Rightarrow> 'c com_node \<Rightarrow> 'c com_node \<Rightarrow> bool" where
  "flood_other F v n n' \<longleftrightarrow> cn_secret n' = cn_secret n
    \<and> map (pi_node_id \<circ> snd) (cn_peers n') = map (pi_node_id \<circ> snd) (cn_peers n)
    \<and> (ce_msg_id (fl_env F) \<in> mb_seen (cn_mailbox n') \<longleftrightarrow> ce_msg_id (fl_env F) \<in> mb_seen (cn_mailbox n))
    \<and> (sm_msg_id (fl_message F) \<in> ib_seen (cn_inbox n') \<longleftrightarrow> sm_msg_id (fl_message F) \<in> ib_seen (cn_inbox n))
    \<and> (fl_message F \<in> set (ib_messages (cn_inbox n')) \<longleftrightarrow> fl_message F \<in> set (ib_messages (cn_inbox n)))"

definition flood_seen :: "flood \<Rightarrow> bytes \<Rightarrow> 'c com_node \<Rightarrow> bool" where
  "flood_seen F v n \<longleftrightarrow>
     (if v = fl_recipient F then fl_message F \<in> set (ib_messages (cn_inbox n))
      else ce_msg_id (fl_env F) \<in> mb_seen (cn_mailbox n))"

definition flood_good :: "prims \<Rightarrow> invite_decoder \<Rightarrow> flood \<Rightarrow> bytes \<Rightarrow> 'c com_node \<Rightarrow> bool" where
  "flood_good P dec F v n \<longleftrightarrow> flood_ok P dec F \<and> cn_secret n = fl_secret F v
    \<and> map (pi_node_id \<circ> snd) (cn_peers n) = fl_peers F v
    \<and> (v = fl_recipient F \<longrightarrow> (sm_msg_id (fl_message F) \<in> ib_seen (cn_inbox n)
          \<longleftrightarrow> fl_message F \<in> set (ib_messages (cn_inbox n))))"

lemma to_others_peers:
  "map fst (to_others src msg n) = filter (\<lambda>p. p \<noteq> src) (map (pi_node_id \<circ> snd) (cn_peers n))"
  by (simp add: to_others_def filter_map comp_def case_prod_unfold)

lemma to_peers_peers: "map fst (to_peers msg n) = map (pi_node_id \<circ> snd) (cn_peers n)"
  by (simp add: to_peers_def comp_def case_prod_unfold)

lemma flood_step_recipient:
  assumes "flood_good P dec F v n" "v = fl_recipient F" "flood_step P dec F now v src n = (n', outs)"
  shows "flood_good P dec F v n' \<and> flood_seen F v n' \<and> outs = []"
proof -
  let ?m = "fl_message F"
  have ok: "flood_ok P dec F" and sec: "cn_secret n = fl_secret F v" using assms(1) by (simp_all add: flood_good_def)
  have addr: "addressed_to_us P (cn_static_pub P n) (fl_env F)"
    using ok assms(2) by (simp add: flood_ok_def cn_static_pub_def sec)
  obtain pub where op: "open_com P (cn_secret n) (cn_static_pub P n) (fl_env F)
      = Inr \<lparr> om_msg_id = sm_msg_id ?m, om_sender_id = sm_peer_id ?m, om_sender_pub = pub,
              om_timestamp = sm_timestamp ?m, om_body = sm_body ?m \<rparr>"
    using ok assms(2) by (auto simp: flood_ok_def cn_static_pub_def sec)
  have m: "\<lparr> sm_msg_id = sm_msg_id ?m, sm_peer_id = sm_peer_id ?m, sm_outgoing = False,
      sm_timestamp = sm_timestamp ?m, sm_body = sm_body ?m \<rparr> = ?m"
    using ok by (simp add: flood_ok_def)
  have h: "handle_com P dec (fl_env F) n = n\<lparr>cn_contacts := hm_insert (sm_peer_id ?m) pub (cn_contacts n),
      cn_inbox := snd (inbox_record ?m (cn_inbox n))\<rparr>"
    using handle_com_visible [OF op, of dec] ok by (simp add: flood_ok_def m)
  have n': "n' = handle_com P dec (fl_env F) n" and "outs = []"
    using assms(3) addr by (simp_all add: flood_step_def handle_com_store_def)
  moreover have "flood_good P dec F v n' \<and> flood_seen F v n'"
    using assms(1,2) unfolding n' h
    by (auto simp: flood_good_def flood_seen_def inbox_record_def)
  ultimately show ?thesis by simp
qed

lemma flood_step_relay:
  assumes "flood_good P dec F v n" "v \<noteq> fl_recipient F" "flood_step P dec F now v src n = (n', outs)"
  shows "flood_good P dec F v n' \<and> flood_seen F v n'
    \<and> outs = (if flood_seen F v n then [] else filter (\<lambda>p. p \<noteq> src) (fl_peers F v))"
proof -
  have "\<not> addressed_to_us P (cn_static_pub P n) (fl_env F)"
    using assms(1,2) by (simp add: flood_good_def flood_ok_def cn_static_pub_def)
  then show ?thesis
    using assms
    by (auto simp: flood_step_def handle_com_store_def flood_good_def flood_seen_def mailbox_store_def
        Let_def to_others_peers split: if_splits)
qed

interpretation cf: gossip "flood_step P dec F" "flood_other F" "flood_seen F" "fl_peers F"
  "\<lambda>v. v = fl_recipient F" "flood_good P dec F"
proof
  fix v s t src s' outs
  assume g: "flood_good P dec F v s" and st: "flood_step P dec F t v src s = (s', outs)"
  note cases = flood_step_recipient [OF g _ st] flood_step_relay [OF g _ st]
  show "flood_good P dec F v s'" using cases by blast
  show "flood_seen F v s' \<and> outs = (if v = fl_recipient F then [] else filter (\<lambda>p. p \<noteq> src) (fl_peers F v))"
    if "\<not> flood_seen F v s" using cases that by auto
  show "flood_seen F v s' \<and> outs = []" if "flood_seen F v s" using cases that by auto
next
  fix v s s'
  assume "flood_good P dec F v s" "flood_other F v s s'"
  then show "flood_good P dec F v s' \<and> flood_seen F v s' = flood_seen F v s"
    by (simp add: flood_good_def flood_other_def flood_seen_def)
qed

subsection \<open>Properties\<close>

text \<open>The flood that \<open>com_send\<close> of the origin starts among nodes with the states \<open>\<sigma>\<close>.\<close>

definition flood_of ::
  "prims \<Rightarrow> u64 \<Rightarrow> bytes \<Rightarrow> bytes \<Rightarrow> bytes \<Rightarrow> bytes \<Rightarrow> string \<Rightarrow> (bytes \<Rightarrow> 'c com_node) \<Rightarrow> flood" where
  "flood_of P now e rnd origin rid body \<sigma> =
     \<lparr> fl_env = seal P e rnd (cn_secret (\<sigma> origin)) (cn_node_id (\<sigma> origin)) (cn_static_pub P (\<sigma> origin))
         (cn_static_pub P (\<sigma> rid)) (epoch_of now) now (ascii body),
       fl_message = \<lparr> sm_msg_id = rnd, sm_peer_id = cn_node_id (\<sigma> origin), sm_outgoing = False,
         sm_timestamp = now, sm_body = body \<rparr>,
       fl_recipient = rid, fl_secret = cn_secret \<circ> \<sigma>,
       fl_peers = (\<lambda>v. map (pi_node_id \<circ> snd) (cn_peers (\<sigma> v))) \<rparr>"

lemma flood_of_ok:
  assumes "dh_ok P" "aead_ok P" "hex_ok P" "rust_string body" "visible_body P dec body"
    and "length rnd = 16" "length (cn_node_id (\<sigma> origin)) = 32"
    and "\<forall>v. v \<noteq> rid \<longrightarrow> \<not> addressed_to_us P (cn_static_pub P (\<sigma> v)) (fl_env (flood_of P now e rnd origin rid body \<sigma>))"
  shows "flood_ok P dec (flood_of P now e rnd origin rid body \<sigma>)"
  using assms
  by (auto simp: flood_ok_def flood_of_def cn_static_pub_def open_com_seal from_utf8_lossy_string rust_string_def)

lemma record_own_facts [simp]:
  "cn_secret (record_own P dec i p ts body n) = cn_secret n"
  "cn_peers (record_own P dec i p ts body n) = cn_peers n"
  "cn_mailbox (record_own P dec i p ts body n) = cn_mailbox n"
  by (simp_all add: record_own_def)

text \<open>C5: flooding delivers: after \<open>com_send\<close> the copies of the envelope under way can be delivered in
  any order and anything unrelated may happen at the nodes in between, yet the flood ends after at
  most one delivery for each entry of the peer tables and one more for each peer of the origin; as
  long as a copy is under way it can be delivered; and when none is, the message is in the inbox of
  the recipient, and in the mailbox of every other node, whom forwarding nodes connect to the origin.\<close>

theorem com_flood:
  assumes "dh_ok P" "aead_ok P" "hex_ok P" "rust_string body" "visible_body P dec body"
    and "length rnd = 16" "length (cn_node_id (\<sigma> origin)) = 32" "rid \<noteq> origin"
    and "F = flood_of P now e rnd origin rid body \<sigma>"
    and "com_send P dec now e rnd rid (cn_static_pub P (\<sigma> rid)) body (\<sigma> origin) = (n0, out, res)"
    and "finite V" "origin \<in> V" "\<forall>v \<in> V. set (fl_peers F v) \<subseteq> V"
    and "\<forall>v. v \<noteq> rid \<longrightarrow> \<not> addressed_to_us P (cn_static_pub P (\<sigma> v)) (fl_env F)"
    and "rnd \<notin> ib_seen (cn_inbox (\<sigma> rid))" "inbox_wf (cn_inbox (\<sigma> rid))"
    and "\<forall>v. ce_msg_id (fl_env F) \<notin> mb_seen (cn_mailbox (\<sigma> v))"
    and "(net_step (flood_step P dec F) (flood_other F))\<^sup>*\<^sup>*
      \<lparr> nt_state = \<sigma>(origin := n0), nt_flight = mset (map (Pair origin) (map fst out)), nt_count = 0 \<rparr> N"
  shows "nt_count N + size (nt_flight N)
      \<le> length (fl_peers F origin) + (\<Sum>v \<in> V. length (fl_peers F v))
    \<and> (nt_flight N \<noteq> {#} \<longrightarrow>
        (\<exists>N'. net_step (flood_step P dec F) (flood_other F) N N' \<and> nt_count N' = Suc (nt_count N)))
    \<and> (nt_flight N = {#} \<longrightarrow>
        (\<forall>v. (relay_edge (fl_peers F) (\<lambda>v. v = rid) origin)\<^sup>*\<^sup>* origin v \<longrightarrow> v \<noteq> origin \<longrightarrow>
          (if v = rid then fl_message F \<in> set (ib_messages (cn_inbox (nt_state N v)))
           else ce_msg_id (fl_env F) \<in> mb_seen (cn_mailbox (nt_state N v)))))"
proof -
  have F: "fl_recipient F = rid" "fl_secret F = cn_secret \<circ> \<sigma>" "sm_msg_id (fl_message F) = rnd"
      "fl_peers F = (\<lambda>v. map (pi_node_id \<circ> snd) (cn_peers (\<sigma> v)))"
    by (simp_all add: assms(9) flood_of_def)
  have ok: "flood_ok P dec F"
    unfolding assms(9) by (rule flood_of_ok) (use assms in simp_all)
  have n0: "n0 = record_own P dec rnd rid now body (\<sigma> origin)" and out: "map fst out = fl_peers F origin"
    using assms(3,6,10) by (auto simp: com_send_def Let_def hex16_or_zero_def seal_def to_peers_peers F)
  let ?s = "\<sigma>(origin := n0)"
  have no: "fl_message F \<notin> set (ib_messages (cn_inbox (\<sigma> rid)))"
    using assms(15,16) by (auto simp: inbox_wf_def F(3) [symmetric])
  have "flood_good P dec F v (?s v) \<and> \<not> flood_seen F v (?s v)" for v
    using ok no assms(8,15,17) by (auto simp: flood_good_def flood_seen_def F n0)
  then have \<sigma>: "\<forall>v. flood_good P dec F v (?s v) \<and> \<not> flood_seen F v (?s v)" by blast
  have start: "\<lparr> nt_state = ?s, nt_flight = mset (map (Pair origin) (map fst out)), nt_count = 0 \<rparr>
      = net_start origin (fl_peers F) ?s"
    by (simp only: net_start_def out)
  note run = cf.flood_run [OF assms(11-13) \<sigma> assms(18) [unfolded start]]
  have reach: "flood_seen F v (nt_state N v)"
    if "nt_flight N = {#}" "(relay_edge (fl_peers F) (\<lambda>v. v = rid) origin)\<^sup>*\<^sup>* origin v" "v \<noteq> origin" for v
    using cf.flood_reaches [where P = P and dec = dec and F = F and V = V and N = N and v = v and origin = origin] run that by (simp add: F(1) cf.has_def)
  show ?thesis
    using run cf.flood_progress [where P = P and dec = dec and F = F and N = N] reach
    by (auto simp: cf.potential_def flood_seen_def F(1))
qed

lemma foldl_plus_shift: "foldl (+) (x :: u8) ys = x + foldl (+) 0 ys"
proof (induction ys rule: rev_induct)
  case (snoc y ys)
  then show ?case by (simp only: foldl_append foldl_Cons foldl_Nil add.assoc)
qed simp

lemma toy_blinded_eq:
  "blinded_addr toy_prims (p_x25519_pub toy_prims [a]) ep = blinded_addr toy_prims (p_x25519_pub toy_prims [b]) ep'
     \<longleftrightarrow> foldl (+) 0 (to_le ep) + a = foldl (+) 0 (to_le ep') + b"
proof -
  let ?k = "foldl (+) 0 (ascii ''com-mailbox-blind'') :: u8"
  have bl: "blinded_addr toy_prims (p_x25519_pub toy_prims [c]) p
      = p_hex_encode toy_prims (replicate 32 (foldl (+) 0 (to_le p) + c + ?k))" for c p
    by (simp add: blinded_addr_def hkdf_derive_def toy_prims_def foldl_plus_replicate0)
      (rule arg_cong [of _ _ "\<lambda>x. toy_hex_encode (replicate 32 x)"], subst foldl_plus_shift, simp)
  have inj: "p_hex_encode toy_prims x = p_hex_encode toy_prims y \<longleftrightarrow> x = y" for x y
    using toy_ok(2) unfolding hex_ok_def by (metis option.inject)
  show ?thesis unfolding bl inj by simp
qed

theorem com_flood_witness:
  "\<exists>(N :: (bytes, unit com_node) net) m. m \<in> set (ib_messages (cn_inbox (nt_state N (replicate 32 2)))) \<and> nt_count N = 1
    \<and> nt_flight N = {#} \<and> sm_body m = ''hi''"
proof -
  let ?o = "replicate 32 3 :: bytes" and ?r = "replicate 32 2 :: bytes"
  define a where "a = sample_node 3 [(?r, sample_info 2 ''10.0.0.2'')]"
  define b where "b = sample_node 2 []"
  define \<sigma> where "\<sigma> = (\<lambda>v. if v = ?r then b else a)"
  let ?rnd = "replicate 16 3 :: bytes"
  define F where "F = flood_of toy_prims 500 [9] ?rnd ?o ?r ''hi'' \<sigma>"
  have ne: "?r \<noteq> ?o" by (simp add: eq_commute)
  have peers: "fl_peers F v = (if v = ?r then [] else [?r])" for v
    by (simp add: F_def flood_of_def \<sigma>_def a_def b_def sample_node_def sample_info_def)
  obtain n0 out res where s: "com_send toy_prims (\<lambda>_. None) 500 [9] ?rnd ?r
      (cn_static_pub toy_prims (\<sigma> ?r)) ''hi'' (\<sigma> ?o) = (n0, out, res)" by (metis prod_cases3)
  then have out: "map fst out = [?r]"
    by (auto simp: com_send_def Let_def to_peers_peers \<sigma>_def a_def sample_node_def sample_info_def)
  have addr: "addressed_to_us toy_prims (cn_static_pub toy_prims b) (fl_env F)"
    by (simp add: F_def flood_of_def \<sigma>_def)
  have u: "(ucast (- 1 :: u64) :: u8) = - 1" by code_simp
  have not: "\<not> addressed_to_us toy_prims (cn_static_pub toy_prims a) (fl_env F)"
    using u by (simp add: toy_blinded_eq epoch_of_def to_le_def to_be_def upt_rec [of _ 8] mask_eq_exp_minus_1 rev_map addressed_to_us_def F_def flood_of_def seal_def Let_def \<sigma>_def a_def b_def cn_static_pub_def sample_node_def)
  let ?start = "\<lparr> nt_state = \<sigma>(?o := n0), nt_flight = mset (map (Pair ?o) (map fst out)), nt_count = 0 \<rparr>"
  obtain s' outs where st: "flood_step toy_prims (\<lambda>_. None) F 600 ?r ?o (nt_state ?start ?r) = (s', outs)"
    by fastforce
  have outs: "outs = []"
    using st addr ne by (simp add: flood_step_def handle_com_store_def \<sigma>_def)
  define N where "N = \<lparr> nt_state = (nt_state ?start)(?r := s'),
      nt_flight = nt_flight ?start - {#(?o, ?r)#} + mset (map (Pair ?r) outs), nt_count = Suc (nt_count ?start) \<rparr>"
  have run: "(net_step (flood_step toy_prims (\<lambda>_. None) F) (flood_other F))\<^sup>*\<^sup>* ?start N"
    unfolding N_def by (rule r_into_rtranclp, rule net_step.deliver, simp add: out, rule st)
  have quiet: "nt_flight N = {#}" "nt_count N = 1" by (simp_all add: N_def out outs)
  have edge: "(relay_edge (fl_peers F) (\<lambda>v. v = ?r) ?o)\<^sup>*\<^sup>* ?o ?r"
    by (rule r_into_rtranclp) (use ne in \<open>simp add: relay_edge_def peers\<close>)
  have "fl_message F \<in> set (ib_messages (cn_inbox (nt_state N ?r)))"
  proof -
    have wf: "inbox_wf (cn_inbox (\<sigma> ?r))" by (simp add: \<sigma>_def b_def sample_node_def)
    have mb: "\<forall>v. ce_msg_id (fl_env F) \<notin> mb_seen (cn_mailbox (\<sigma> v))"
      by (simp add: \<sigma>_def a_def b_def sample_node_def mailbox_new_def)
    have na: "\<forall>v. v \<noteq> ?r \<longrightarrow> \<not> addressed_to_us toy_prims (cn_static_pub toy_prims (\<sigma> v)) (fl_env F)"
      using not by (simp add: \<sigma>_def)
    note fl = com_flood [of toy_prims "''hi''" "\<lambda>_. None" ?rnd \<sigma> ?o ?r F 500 "[9]" n0 out res "{?o, ?r}" N]
    show ?thesis
      using fl [OF _ _ _ _ _ _ _ ne F_def s _ _ _ na _ wf mb run] quiet edge ne not
      by (simp add: peers rust_string_def ascii_def utf8_step_def visible_body_def decode_invite_def
          decode_delete_def DELETE_PREFIX_def \<sigma>_def a_def b_def sample_node_def inbox_new_def mailbox_new_def)
  qed
  then show ?thesis using quiet by (intro exI [of _ N] exI [of _ "fl_message F"]) (simp add: F_def flood_of_def)
qed

end
