(* ===== verification/LineLog.thy ===== *)
theory LineLog
  imports Utf8
begin

section \<open>Append-only logs of lines\<close>

text \<open>
  The replay cache and the message boards persist their entries in a file of JSON lines that is
  appended to while the node runs, read when it starts, and rewritten now and then. Here are
  \<open>BufRead::lines\<close> and \<open>writeln!\<close> on the bytes of such a file, what a codec of entries must
  provide, and what a log of complete lines is read back as.
\<close>

abbreviation newline :: char where "newline \<equiv> CHR 0x0A"
abbreviation carriage_return :: char where "carriage_return \<equiv> CHR 0x0D"

lemma length_after_newline: "f \<noteq> [] \<Longrightarrow> length (dropWhile P f) - Suc 0 < length f"
  using length_dropWhile_le [of P f] by (cases f) simp_all

text \<open>The pieces between newlines; nothing after the last newline is not a line.\<close>

function line_pieces :: "string \<Rightarrow> string list" where
  "line_pieces f =
     (if f = [] then []
      else takeWhile (\<lambda>c. c \<noteq> newline) f # line_pieces (tl (dropWhile (\<lambda>c. c \<noteq> newline) f)))"
  by auto
termination by (relation "measure length") (simp_all add: length_after_newline)

declare line_pieces.simps [simp del]

definition chomp_cr :: "string \<Rightarrow> string" where
  "chomp_cr l = (if l \<noteq> [] \<and> last l = carriage_return then butlast l else l)"

text \<open>The items \<open>lines\<close> yields: \<open>None\<close> stands for the error on a line that is not UTF-8.\<close>

definition read_lines :: "string \<Rightarrow> string option list" where
  "read_lines f = map (\<lambda>l. if rust_string l then Some (chomp_cr l) else None) (line_pieces f)"

definition writeln :: "string \<Rightarrow> string \<Rightarrow> string" where
  "writeln f l = f @ l @ [newline]"

definition complete_log :: "string \<Rightarrow> bool" where
  "complete_log f \<longleftrightarrow> f = [] \<or> last f = newline"

lemma complete_log_simps [simp]: "complete_log []" "complete_log (writeln f l)"
  by (simp_all add: complete_log_def writeln_def)

lemma line_pieces_Nil [simp]: "line_pieces [] = []"
  by (simp add: line_pieces.simps)

lemma line_pieces_first:
  assumes "newline \<notin> set l"
  shows "line_pieces (l @ newline # f) = l # line_pieces f"
proof -
  have "takeWhile (\<lambda>c. c \<noteq> newline) (l @ newline # f) = l"
      "dropWhile (\<lambda>c. c \<noteq> newline) (l @ newline # f) = newline # f"
    using assms by (induction l) auto
  then show ?thesis by (simp add: line_pieces.simps [of "l @ newline # f"])
qed

lemma line_pieces_append:
  assumes "complete_log f"
  shows "line_pieces (f @ g) = line_pieces f @ line_pieces g"
  using assms
proof (induction f rule: line_pieces.induct)
  case (1 f)
  show ?case
  proof (cases "f = []")
    case False
    then have last: "last f = newline" using 1(2) by (simp add: complete_log_def)
    let ?l = "takeWhile (\<lambda>c. c \<noteq> newline) f" and ?d = "dropWhile (\<lambda>c. c \<noteq> newline) f"
    have "newline \<in> set f" using False last last_in_set by metis
    then have d: "?d \<noteq> []" "hd ?d = newline"
      by (auto simp: dropWhile_eq_Nil_conv) (use hd_dropWhile [of "\<lambda>c. c \<noteq> newline" f] in auto)
    define r where "r = tl ?d"
    have f: "f = ?l @ newline # r"
      using d takeWhile_dropWhile_id [of "\<lambda>c. c \<noteq> newline" f] by (metis list.collapse r_def)
    have l: "newline \<notin> set ?l" by (auto dest: set_takeWhileD)
    have "complete_log r" using f last by (cases "r = []") (auto simp: complete_log_def, metis last_ConsR last_append list.distinct(1))
    then have "line_pieces (r @ g) = line_pieces r @ line_pieces g" using 1(1) [OF False] by (simp add: r_def)
    then show ?thesis
      using line_pieces_first [OF l, of "r @ g"] line_pieces_first [OF l, of r] f by (metis append_Cons append_assoc)
  qed simp
qed

text \<open>What the code relies on of \<open>serde_json\<close>: an entry is written as one line that reads back.\<close>

definition json_lines :: "('e \<Rightarrow> string option) \<Rightarrow> (string \<Rightarrow> 'e option) \<Rightarrow> bool" where
  "json_lines enc dec \<longleftrightarrow> (\<forall>e l. enc e = Some l \<longrightarrow>
     newline \<notin> set l \<and> rust_string l \<and> l \<noteq> [] \<and> last l \<noteq> carriage_return \<and> str_trim l = l \<and> dec l = Some e)"

lemma json_line:
  assumes "json_lines enc dec" "enc e = Some l"
  shows "newline \<notin> set l" "rust_string l" "l \<noteq> []" "chomp_cr l = l" "str_trim l = l" "dec l = Some e"
  using assms by (simp_all add: json_lines_def chomp_cr_def)

lemma read_lines_writeln:
  assumes "complete_log f" "json_lines enc dec" "enc e = Some l"
  shows "read_lines (writeln f l) = read_lines f @ [Some l]"
  using line_pieces_append [OF assms(1), of "l @ [newline]"] line_pieces_first [of l "[]"]
    json_line [OF assms(2,3)]
  by (simp add: read_lines_def writeln_def)

text \<open>The log of a list of entries, and what reading it gives.\<close>

definition log_of :: "('e \<Rightarrow> string option) \<Rightarrow> 'e list \<Rightarrow> string" where
  "log_of enc es = fold (\<lambda>e f. writeln f (the (enc e))) es []"

lemma log_of_Nil [simp]: "log_of enc [] = []"
  by (simp add: log_of_def)

lemma log_of_snoc [simp]: "log_of enc (es @ [e]) = writeln (log_of enc es) (the (enc e))"
  by (simp add: log_of_def)

lemma complete_log_of [simp]: "complete_log (log_of enc es)"
  by (cases es rule: rev_cases) simp_all

lemma read_log_of:
  assumes "json_lines enc dec" "\<forall>e \<in> set es. enc e \<noteq> None"
  shows "read_lines (log_of enc es) = map enc es"
  using assms(2)
proof (induction es rule: rev_induct)
  case (snoc e es)
  then obtain l where "enc e = Some l" by auto
  with snoc read_lines_writeln [OF complete_log_of [of enc es] assms(1) this] show ?case by simp
qed (simp add: read_lines_def)

text \<open>A codec that fits, on entries that are encoded as bytes: their hex digits between two marks.\<close>

definition toy_line :: "bytes \<Rightarrow> string" where
  "toy_line b = CHR ''x'' # p_hex_encode toy_prims b @ ''x''"

definition toy_unline :: "string \<Rightarrow> bytes option" where
  "toy_unline l = p_hex_decode toy_prims (butlast (tl l))"

lemma toy_json_lines:
  assumes "\<And>e. of_bytes (to_bytes e) = e"
  shows "json_lines (\<lambda>e. Some (toy_line (to_bytes e))) (\<lambda>l. map_option of_bytes (toy_unline l))"
  unfolding json_lines_def
proof (intro allI impI)
  fix e l
  assume "Some (toy_line (to_bytes e)) = Some l"
  then have l: "l = CHR ''x'' # p_hex_encode toy_prims (to_bytes e) @ ''x''" by (simp add: toy_line_def)
  have digits: "set (p_hex_encode toy_prims (to_bytes e)) \<subseteq> set hex_digits"
    using toy_ok(8) by (simp add: hex_lower_def)
  have vis: "\<forall>c \<in> set l. 0x21 \<le> (of_nat (of_char c) :: u8) \<and> (of_nat (of_char c) :: u8) < 0x80"
    using digits by (auto simp: l hex_digits_def)
  then have b: "\<forall>b \<in> set (ascii l). 0x21 \<le> b \<and> b < 0x80" by (auto simp: ascii_def)
  have ne: "ascii l \<noteq> []" by (simp add: l ascii_def)
  have "trim_bytes (ascii l) = ascii l"
    using b hd_in_set [OF ne] last_in_set [OF ne] by (intro trim_bytes_id ne) blast+
  moreover have "utf8_valid (ascii l)" by (rule utf8_valid_ascii) (use b in blast)
  moreover have "newline \<notin> set l" using vis by auto
  ultimately show "newline \<notin> set l \<and> rust_string l \<and> l \<noteq> [] \<and> last l \<noteq> carriage_return \<and> str_trim l = l
      \<and> map_option of_bytes (toy_unline l) = Some e"
    using assms toy_ok(2) by (simp add: rust_string_def str_trim_def toy_unline_def l butlast_append hex_ok_def)
qed

end
