(* ===== verification/Replay.thy ===== *)
theory Replay
  imports LineLog "HOL-Library.Multiset"
begin

section \<open>The replay cache\<close>

text \<open>
  phinet-core/src/replay.rs: the identifiers of messages a node has processed, with the time each is
  forgotten, in memory and in an append-only log that is read back after a restart. Clock readings
  are arguments; the outcome of each file operation is an argument \<open>io\<close> (by the name its error
  message carries), and a failed append writes nothing. The iteration order of the map is the order
  of its list.

  Shown: while the cache stays below its capacity it implements the plain map from identifiers to
  expiry times; restarts, compaction and eviction cannot be observed.
\<close>

definition REPLAY_MAX_ENTRIES :: nat where "REPLAY_MAX_ENTRIES = 100000"
definition REPLAY_COMPACT_LINES :: nat where "REPLAY_COMPACT_LINES = 50000"

type_synonym replay_entry = "string \<times> u64"

record replay_cache =
  rp_path :: "string option"
  rp_default_ttl :: u64
  rp_entries :: "(string, u64) hmap"
  rp_log_open :: bool
  rp_log_lines :: nat
  rp_file :: "string option"

type_synonym entry_encoder = "replay_entry \<Rightarrow> string option"
type_synonym entry_decoder = "string \<Rightarrow> replay_entry option"
type_synonym io = "string \<Rightarrow> bool"

subsection \<open>Reading and writing the log\<close>

definition load_line :: "entry_decoder \<Rightarrow> u64 \<Rightarrow> string \<Rightarrow> (string, u64) hmap \<times> nat \<Rightarrow> (string, u64) hmap \<times> nat" where
  "load_line dec now line acc =
     (case acc of (entries, lines_read) \<Rightarrow>
        let l = str_trim line in
        if l = [] then (entries, lines_read)
        else (case dec l of
                None \<Rightarrow> (entries, Suc lines_read)
              | Some (i, exp) \<Rightarrow>
                  if exp \<le> now then (entries, Suc lines_read) else (hm_insert i exp entries, Suc lines_read)))"

definition replay_load :: "io \<Rightarrow> entry_decoder \<Rightarrow> u64 \<Rightarrow> replay_cache \<Rightarrow> replay_cache result" where
  "replay_load io dec now c =
     (if rp_path c = None then Inr c
      else if \<not> io ''load'' then Inl (Crypto ''replay: load'')
      else
        let lines = map the (takeWhile (\<lambda>l. l \<noteq> None) (read_lines (case rp_file c of None \<Rightarrow> [] | Some f \<Rightarrow> f)));
            (entries, lines_read) = fold (load_line dec now) lines (rp_entries c, 0)
        in Inr (c\<lparr>rp_entries := entries, rp_log_lines := lines_read\<rparr>))"

fun compact_lines :: "io \<Rightarrow> entry_encoder \<Rightarrow> replay_entry list \<Rightarrow> string \<Rightarrow> string result" where
  "compact_lines io enc [] f = Inr f"
| "compact_lines io enc (e # es) f =
     (case enc e of
        None \<Rightarrow> Inl (Crypto ''replay: compact ser'')
      | Some l \<Rightarrow>
          if \<not> io ''compact write'' then Inl (Crypto ''replay: compact write'')
          else compact_lines io enc es (writeln f l))"

definition replay_compact :: "io \<Rightarrow> entry_encoder \<Rightarrow> replay_cache \<Rightarrow> replay_cache \<times> unit result" where
  "replay_compact io enc c =
     (if rp_path c = None then (c, Inr ())
      else
        let c1 = c\<lparr>rp_log_open := False\<rparr> in
        if \<not> io ''compact create'' then (c1, Inl (Crypto ''replay: compact create''))
        else (case compact_lines io enc (rp_entries c) [] of
                Inl e \<Rightarrow> (c1, Inl e)
              | Inr f \<Rightarrow>
                  if \<not> io ''compact rename'' then (c1, Inl (Crypto ''replay: compact rename''))
                  else
                    let c2 = c1\<lparr>rp_file := Some f\<rparr> in
                    if \<not> io ''reopen'' then (c2, Inl (Crypto ''replay: reopen''))
                    else (c2\<lparr>rp_log_open := True, rp_log_lines := length (rp_entries c)\<rparr>, Inr ())))"

text \<open>\<open>open\<close> on a path whose file, when it exists, has the given content.\<close>

definition replay_open ::
  "io \<Rightarrow> entry_encoder \<Rightarrow> entry_decoder \<Rightarrow> u64 \<Rightarrow> string \<Rightarrow> u64 \<Rightarrow> string option \<Rightarrow> replay_cache result" where
  "replay_open io enc dec now path ttl file =
     (let c = \<lparr> rp_path = Some path, rp_default_ttl = ttl, rp_entries = [], rp_log_open = False,
                rp_log_lines = 0, rp_file = file \<rparr> in
      and_then (if file \<noteq> None then replay_load io dec now c
                else if \<not> io ''mkdir'' then Inl (Crypto ''replay: mkdir'') else Inr c) (\<lambda>c1.
      if \<not> io ''open'' then Inl (Crypto ''replay: open'')
      else
        let c2 = c1\<lparr>rp_file := Some (case file of None \<Rightarrow> [] | Some f \<Rightarrow> f), rp_log_open := True\<rparr> in
        Inr (if REPLAY_COMPACT_LINES < rp_log_lines c2 then fst (replay_compact io enc c2) else c2)))"

definition append_to_log :: "io \<Rightarrow> entry_encoder \<Rightarrow> replay_entry \<Rightarrow> replay_cache \<Rightarrow> replay_cache" where
  "append_to_log io enc e c =
     (if \<not> rp_log_open c then c
      else (case enc e of
              None \<Rightarrow> c
            | Some l \<Rightarrow>
                if \<not> io ''log append'' then c
                else c\<lparr>rp_file := Some (writeln (case rp_file c of None \<Rightarrow> [] | Some f \<Rightarrow> f) l),
                       rp_log_lines := rp_log_lines c + 1\<rparr>))"

subsection \<open>Marking\<close>

definition replay_seen :: "u64 \<Rightarrow> string \<Rightarrow> replay_cache \<Rightarrow> bool" where
  "replay_seen now i c = (case hm_get (rp_entries c) i of Some exp \<Rightarrow> now < exp | None \<Rightarrow> False)"

text \<open>Before an insertion a full cache drops what has expired, and if that does not help the tenth
  part that expires first.\<close>

definition make_room :: "u64 \<Rightarrow> (string, u64) hmap \<Rightarrow> (string, u64) hmap" where
  "make_room now entries =
     (if REPLAY_MAX_ENTRIES \<le> length entries then
        (let live = hm_retain (\<lambda>_ e. \<not> e \<le> now) entries in
         if REPLAY_MAX_ENTRIES \<le> length live
         then fold hm_remove (map fst (take (REPLAY_MAX_ENTRIES div 10) (sort_key snd live))) live
         else live)
      else entries)"

text \<open>The clock is read twice, for the expiry time and under the lock.\<close>

definition mark_with_ttl ::
  "io \<Rightarrow> entry_encoder \<Rightarrow> u64 \<Rightarrow> u64 \<Rightarrow> string \<Rightarrow> u64 \<Rightarrow> replay_cache \<Rightarrow> bool \<times> replay_cache" where
  "mark_with_ttl io enc now0 now i ttl c =
     (let exp = sat_add now0 ttl;
          entries = make_room now (rp_entries c);
          (was_new, entries') =
            (case hm_get entries i of
               Some prev \<Rightarrow> if now < prev then (False, entries) else (True, hm_insert i exp entries)
             | None \<Rightarrow> (True, hm_insert i exp entries));
          c1 = c\<lparr>rp_entries := entries'\<rparr>
      in (was_new, if was_new then append_to_log io enc (i, exp) c1 else c1))"

definition mark :: "io \<Rightarrow> entry_encoder \<Rightarrow> u64 \<Rightarrow> u64 \<Rightarrow> string \<Rightarrow> replay_cache \<Rightarrow> bool \<times> replay_cache" where
  "mark io enc now0 now i c = mark_with_ttl io enc now0 now i (rp_default_ttl c) c"

definition replay_evict_expired :: "u64 \<Rightarrow> replay_cache \<Rightarrow> nat \<times> replay_cache" where
  "replay_evict_expired now c =
     (let entries' = hm_retain (\<lambda>_ e. now < e) (rp_entries c)
      in (length (rp_entries c) - length entries', c\<lparr>rp_entries := entries'\<rparr>))"

definition replay_len :: "u64 \<Rightarrow> replay_cache \<Rightarrow> nat" where
  "replay_len now c = length (filter (\<lambda>(_, e). now < e) (rp_entries c))"

definition replay_is_empty :: "u64 \<Rightarrow> replay_cache \<Rightarrow> bool" where
  "replay_is_empty now c \<longleftrightarrow> replay_len now c = 0"

subsection \<open>The cache as a map from identifiers to expiry times\<close>

definition live :: "u64 \<Rightarrow> u64 option \<Rightarrow> u64 option" where
  "live now e = (case e of None \<Rightarrow> None | Some x \<Rightarrow> if now < x then Some x else None)"

lemma live_live [simp]: "now \<le> now' \<Longrightarrow> live now' (live now e) = live now' e"
  by (auto simp: live_def split: option.splits)

lemma live_mono: "live now e = None \<Longrightarrow> now \<le> now' \<Longrightarrow> live now' e = None"
  by (auto simp: live_def split: option.splits if_splits)

lemma replay_seen_live: "replay_seen now i c \<longleftrightarrow> live now (hm_get (rp_entries c) i) \<noteq> None"
  by (simp add: replay_seen_def live_def split: option.splits)

text \<open>What a list of log entries is loaded as at a time.\<close>

definition logged :: "u64 \<Rightarrow> replay_entry list \<Rightarrow> string \<rightharpoonup> u64" where
  "logged now es = fold (\<lambda>(i, e) m. if e \<le> now then m else m(i \<mapsto> e)) es Map.empty"

lemma logged_snoc: "logged now (es @ [(i, e)]) = (if e \<le> now then logged now es else (logged now es)(i \<mapsto> e))"
  by (simp add: logged_def)

lemma fold_logged:
  "fold (\<lambda>(i, e) m. if e \<le> now then m else m(i \<mapsto> e)) es m0 i
    = (case logged now es i of None \<Rightarrow> m0 i | Some e \<Rightarrow> Some e)"
proof (induction es rule: rev_induct)
  case (snoc x es)
  then show ?case by (cases x) (simp add: logged_snoc)
qed (simp add: logged_def)

lemma logged_entries:
  assumes "hm_wf es"
  shows "logged now es i = live now (hm_get es i)"
  using assms
proof (induction es)
  case (Cons x es)
  obtain j e where x: "x = (j, e)" by (cases x)
  have wf: "hm_wf es" and j: "hm_get es j = None" using Cons.prems by (auto simp: x hm_wf_def map_of_eq_None_iff)
  have "logged now (x # es) i = (case logged now es i of None \<Rightarrow> (if e \<le> now then Map.empty else [j \<mapsto> e]) i | Some y \<Rightarrow> Some y)"
    unfolding x by (subst fold_logged [symmetric]) (simp add: logged_def)
  then show ?case using Cons.IH [OF wf] j by (auto simp: x live_def split: option.splits if_splits)
qed (simp add: logged_def live_def)

lemma load_fold:
  assumes "json_lines enc dec" "\<forall>e \<in> set es. enc e \<noteq> None"
  shows "fold (load_line dec now) (map (the \<circ> enc) es) (m0, n)
    = (fold (\<lambda>(i, e) m. if e \<le> now then m else hm_insert i e m) es m0, n + length es)"
  using assms(2)
proof (induction es arbitrary: m0 n)
  case (Cons e es)
  then obtain l where "enc e = Some l" by auto
  with json_line [OF assms(1) this] Cons show ?case by (cases e) (simp add: load_line_def Let_def)
qed simp

lemma fold_insert_get:
  "hm_get (fold (\<lambda>(i, e) m. if e \<le> now then m else hm_insert i e m) es m0)
    = fold (\<lambda>(i, e) m. if e \<le> now then m else m(i \<mapsto> e)) es (hm_get m0)"
  by (induction es arbitrary: m0) (auto simp: update_conv' split: if_splits)

lemma fold_insert_wf:
  "hm_wf m0 \<Longrightarrow> hm_wf (fold (\<lambda>(i, e) m. if e \<le> now then m else hm_insert i e m) es m0)"
proof (induction es arbitrary: m0)
  case (Cons x es)
  then show ?case by (cases x) (simp add: hm_wf_intros)
qed simp

lemma compact_lines_all:
  assumes "\<forall>e \<in> set es. enc e \<noteq> None"
  shows "compact_lines (\<lambda>_. True) enc es (log_of enc es0) = Inr (log_of enc (es0 @ es))"
  using assms
proof (induction es arbitrary: es0)
  case (Cons e es)
  then obtain l where "enc e = Some l" by auto
  with Cons.IH [of "es0 @ [e]"] Cons.prems show ?case by simp
qed simp

text \<open>
  The events in the life of a cache, with the time of each. \<open>RpRestart\<close> loses the memory and opens
  the file again.
\<close>

datatype replay_event = RpMark string u64 u64 | RpEvict u64 | RpCompact u64 | RpRestart u64

fun replay_time :: "replay_event \<Rightarrow> u64" where
  "replay_time (RpMark i ttl now) = now"
| "replay_time (RpEvict now) = now"
| "replay_time (RpCompact now) = now"
| "replay_time (RpRestart now) = now"

fun replay_io :: "entry_encoder \<Rightarrow> entry_decoder \<Rightarrow> replay_event \<Rightarrow> replay_cache \<Rightarrow> replay_cache" where
  "replay_io enc dec (RpMark i ttl now) c = snd (mark_with_ttl (\<lambda>_. True) enc now now i ttl c)"
| "replay_io enc dec (RpEvict now) c = snd (replay_evict_expired now c)"
| "replay_io enc dec (RpCompact now) c = fst (replay_compact (\<lambda>_. True) enc c)"
| "replay_io enc dec (RpRestart now) c =
     (case replay_open (\<lambda>_. True) enc dec now (the (rp_path c)) (rp_default_ttl c) (rp_file c) of
        Inl _ \<Rightarrow> c | Inr c' \<Rightarrow> c')"

abbreviation replay_run :: "entry_encoder \<Rightarrow> entry_decoder \<Rightarrow> replay_event list \<Rightarrow> replay_cache \<Rightarrow> replay_cache" where
  "replay_run enc dec evs c \<equiv> fold (replay_io enc dec) evs c"

text \<open>The specification: a map that only marking changes, and only when the identifier is not live.\<close>

fun expiry_io :: "replay_event \<Rightarrow> (string \<rightharpoonup> u64) \<Rightarrow> (string \<rightharpoonup> u64)" where
  "expiry_io (RpMark i ttl now) m = (if live now (m i) = None then m(i \<mapsto> sat_add now ttl) else m)"
| "expiry_io _ m = m"

definition implements :: "entry_encoder \<Rightarrow> u64 \<Rightarrow> replay_cache \<Rightarrow> (string \<rightharpoonup> u64) \<Rightarrow> nat \<Rightarrow> bool" where
  "implements enc now c m k \<longleftrightarrow> hm_wf (rp_entries c) \<and> rp_path c \<noteq> None \<and> rp_log_open c
     \<and> fst ` set (rp_entries c) \<subseteq> dom m \<and> finite (dom m) \<and> card (dom m) \<le> k
     \<and> (\<exists>es. rp_file c = Some (log_of enc es)
          \<and> (\<forall>now' \<ge> now. \<forall>i. live now' (hm_get (rp_entries c) i) = live now' (m i)
               \<and> logged now' es i = live now' (m i)))"

lemma implements_small: "implements enc now c m k \<Longrightarrow> length (rp_entries c) \<le> k"
proof -
  assume i: "implements enc now c m k"
  then have "length (rp_entries c) = card (fst ` set (rp_entries c))"
    by (metis implements_def hm_wf_def distinct_card length_map set_map)
  also have "\<dots> \<le> card (dom m)" using i by (auto simp: implements_def intro: card_mono)
  finally show ?thesis using i by (simp add: implements_def)
qed

lemma implements_later: "implements enc now c m k \<Longrightarrow> now \<le> now' \<Longrightarrow> implements enc now' c m k"
  unfolding implements_def by (meson order_trans)

lemma card_dom_upd: "finite (dom m) \<Longrightarrow> card (dom (m(i \<mapsto> e))) \<le> Suc (card (dom m))"
  by (simp add: card_insert_if)

lemma implements_mark:
  assumes i: "implements enc now c m k" and k: "k < REPLAY_MAX_ENTRIES" and enc: "\<forall>e. enc e \<noteq> None"
  shows "fst (mark_with_ttl (\<lambda>_. True) enc now now j ttl c) \<longleftrightarrow> live now (m j) = None"
    and "implements enc now (replay_io enc dec (RpMark j ttl now) c) (expiry_io (RpMark j ttl now) m) (Suc k)"
proof -
  let ?e = "sat_add now ttl"
  from i obtain es where wf: "hm_wf (rp_entries c)" and p: "rp_path c \<noteq> None" "rp_log_open c"
    and d: "fst ` set (rp_entries c) \<subseteq> dom m" "finite (dom m)" "card (dom m) \<le> k"
    and f: "rp_file c = Some (log_of enc es)"
    and r: "\<And>now' i. now \<le> now' \<Longrightarrow> live now' (hm_get (rp_entries c) i) = live now' (m i)"
      "\<And>now' i. now \<le> now' \<Longrightarrow> logged now' es i = live now' (m i)"
    by (auto simp: implements_def)
  have room: "make_room now (rp_entries c) = rp_entries c"
    using implements_small [OF i] k by (simp add: make_room_def)
  obtain l where l: "enc (j, ?e) = Some l" using enc by fastforce
  have get: "live now (hm_get (rp_entries c) j) = None \<longleftrightarrow> live now (m j) = None" using r(1) [of now j] by simp
  have mk: "mark_with_ttl (\<lambda>_. True) enc now now j ttl c =
     (if live now (m j) = None
      then (True, c\<lparr>rp_entries := hm_insert j ?e (rp_entries c), rp_file := Some (log_of enc (es @ [(j, ?e)])),
              rp_log_lines := rp_log_lines c + 1\<rparr>)
      else (False, c))"
    using p f l unfolding get [symmetric]
    by (auto simp: mark_with_ttl_def room Let_def live_def append_to_log_def split: option.splits if_splits)
  then show "fst (mark_with_ttl (\<lambda>_. True) enc now now j ttl c) \<longleftrightarrow> live now (m j) = None" by simp
  show "implements enc now (replay_io enc dec (RpMark j ttl now) c) (expiry_io (RpMark j ttl now) m) (Suc k)"
  proof (cases "live now (m j) = None")
    case True
    have rel: "live now' (hm_get (hm_insert j ?e (rp_entries c)) i) = live now' ((m(j \<mapsto> ?e)) i)
        \<and> logged now' (es @ [(j, ?e)]) i = live now' ((m(j \<mapsto> ?e)) i)" if "now \<le> now'" for now' i
      using r [OF that, of i] live_mono [OF True that]
      by (auto simp: logged_snoc update_conv' live_def)
    have dom: "fst ` set (hm_insert j ?e (rp_entries c)) \<subseteq> dom (m(j \<mapsto> ?e))"
      using d(1) by (auto simp: dom_update)
    have "card (dom (m(j \<mapsto> ?e))) \<le> Suc k" using card_dom_upd [OF d(2), of j ?e] d(3) by linarith
    moreover have "replay_io enc dec (RpMark j ttl now) c = c\<lparr>rp_entries := hm_insert j ?e (rp_entries c),
          rp_file := Some (log_of enc (es @ [(j, ?e)])), rp_log_lines := rp_log_lines c + 1\<rparr>"
        "expiry_io (RpMark j ttl now) m = m(j \<mapsto> ?e)"
      using True by (simp_all only: mk replay_io.simps expiry_io.simps if_True snd_conv refl)
    moreover have "hm_wf (hm_insert j ?e (rp_entries c))" using wf by (rule hm_wf_intros)
    ultimately show ?thesis
      using p d(2) dom rel unfolding implements_def by (auto simp del: log_of_snoc)
  next
    case False
    then have "replay_io enc dec (RpMark j ttl now) c = c" "expiry_io (RpMark j ttl now) m = m"
      by (auto simp: mk)
    with i show ?thesis unfolding implements_def by (metis le_SucI)
  qed
qed

lemma implements_evict:
  assumes "implements enc now c m k"
  shows "implements enc now (replay_io enc dec (RpEvict now) c) m k"
proof -
  let ?e = "hm_retain (\<lambda>_ e. now < e) (rp_entries c)"
  have wf: "hm_wf (rp_entries c)" using assms by (simp add: implements_def)
  have get: "live now' (hm_get ?e i) = live now' (hm_get (rp_entries c) i)" if "now \<le> now'" for now' i
    using that by (auto simp: hm.get_keep [OF wf] live_def split: option.splits)
  have "fst ` set ?e \<subseteq> fst ` set (rp_entries c)" by (auto simp: hm_retain_def)
  moreover have "replay_io enc dec (RpEvict now) c = c\<lparr>rp_entries := ?e\<rparr>"
    by (simp add: replay_evict_expired_def Let_def)
  moreover have "hm_wf ?e" using wf by (rule hm_wf_intros)
  ultimately have step: "replay_io enc dec (RpEvict now) c = c\<lparr>rp_entries := ?e\<rparr>"
    and sub: "fst ` set ?e \<subseteq> fst ` set (rp_entries c)" and wf': "hm_wf ?e" by blast+
  have "fst ` set (rp_entries c) \<subseteq> dom m" using assms by (simp add: implements_def)
  with sub have "fst ` set ?e \<subseteq> dom m" by (rule subset_trans)
  then show ?thesis using assms get wf' unfolding step by (simp add: implements_def)
qed

lemma compact_facts:
  assumes "implements enc now c m k" "\<forall>e. enc e \<noteq> None"
  shows "replay_compact (\<lambda>_. True) enc c
    = (c\<lparr>rp_log_open := True, rp_file := Some (log_of enc (rp_entries c)), rp_log_lines := length (rp_entries c)\<rparr>, Inr ())"
proof -
  have "\<forall>e \<in> set (rp_entries c). enc e \<noteq> None" using assms(2) by blast
  from compact_lines_all [OF this, of "[]"] have "compact_lines (\<lambda>_. True) enc (rp_entries c) [] = Inr (log_of enc (rp_entries c))"
    by simp
  moreover obtain p where "rp_path c = Some p" using assms(1) by (auto simp: implements_def)
  ultimately show ?thesis by (simp add: replay_compact_def Let_def)
qed

lemma implements_compact:
  assumes "implements enc now c m k" "\<forall>e. enc e \<noteq> None"
  shows "implements enc now (fst (replay_compact (\<lambda>_. True) enc c)) m k"
  using assms(1) logged_entries [of "rp_entries c"] unfolding implements_def compact_facts [OF assms] by auto

lemma implements_restart:
  assumes i: "implements enc now c m k" and enc: "\<forall>e. enc e \<noteq> None" and json: "json_lines enc dec"
  shows "implements enc now (replay_io enc dec (RpRestart now) c) m k"
proof -
  from i obtain es where p: "rp_path c \<noteq> None" and d: "finite (dom m)" "card (dom m) \<le> k"
    and f: "rp_file c = Some (log_of enc es)"
    and r: "\<And>now' i. now \<le> now' \<Longrightarrow> logged now' es i = live now' (m i)"
    by (auto simp: implements_def)
  define m1 where "m1 = fold (\<lambda>(i, e) m. if e \<le> now then m else hm_insert i e m) es []"
  define c1 where "c1 = \<lparr> rp_path = Some (the (rp_path c)), rp_default_ttl = rp_default_ttl c, rp_entries = m1,
      rp_log_open = True, rp_log_lines = length es, rp_file = Some (log_of enc es) \<rparr>"
  have all: "\<forall>e \<in> set es. enc e \<noteq> None" using enc by blast
  then have tw: "takeWhile (\<lambda>l. \<exists>y. l = Some y) (map enc es) = map enc es" by (simp add: takeWhile_eq_all_conv)
  then have ld: "map the (takeWhile (\<lambda>l. \<exists>y. l = Some y) (map enc es)) = map (the \<circ> enc) es"
    by (simp only: map_map)
  have opened: "replay_io enc dec (RpRestart now) c =
      (if REPLAY_COMPACT_LINES < length es then fst (replay_compact (\<lambda>_. True) enc c1) else c1)"
    using read_log_of [OF json all] load_fold [OF json all, of now "[]" 0] f
    by (simp add: ld replay_open_def replay_load_def Let_def c1_def m1_def)
  have get: "hm_get m1 i = live now (m i)" for i
    using r [of now i] by (simp add: m1_def fold_insert_get logged_def)
  have wf: "hm_wf m1" unfolding m1_def by (rule fold_insert_wf) simp
  have "fst ` set m1 \<subseteq> dom m"
  proof
    fix j assume "j \<in> fst ` set m1"
    then have "hm_get m1 j \<noteq> None" by (simp add: map_of_eq_None_iff)
    then show "j \<in> dom m" by (auto simp: get live_def split: option.splits)
  qed
  then have c1: "implements enc now c1 m k"
    using wf d r by (auto simp: implements_def c1_def get)
  show ?thesis
    unfolding opened using c1 implements_compact [OF c1 enc] by simp
qed

lemma implements_step:
  assumes "implements enc now c m k" "now \<le> replay_time ev" "k < REPLAY_MAX_ENTRIES"
    and "\<forall>e. enc e \<noteq> None" "json_lines enc dec"
  shows "implements enc (replay_time ev) (replay_io enc dec ev c) (expiry_io ev m) (Suc k)"
proof -
  note i = implements_later [OF assms(1,2)]
  have suc: "implements enc t c' m k \<Longrightarrow> implements enc t c' m (Suc k)" for t c'
    unfolding implements_def by (metis le_SucI)
  show ?thesis
  proof (cases ev)
    case (RpMark j ttl t)
    then show ?thesis using implements_mark(2) [OF _ assms(3,4)] i by simp
  next
    case (RpEvict t)
    then show ?thesis using implements_evict suc i by (simp del: replay_io.simps)
  next
    case (RpCompact t)
    then show ?thesis using implements_compact [OF i assms(4)] suc by simp
  next
    case (RpRestart t)
    then show ?thesis using implements_restart [OF _ assms(4,5)] suc i by (simp del: replay_io.simps)
  qed
qed

lemma implements_run:
  assumes "implements enc now c m k" "sorted (now # map replay_time evs)" "k + length evs \<le> REPLAY_MAX_ENTRIES"
    and "\<forall>e. enc e \<noteq> None" "json_lines enc dec"
  shows "implements enc (last (now # map replay_time evs)) (replay_run enc dec evs c) (fold expiry_io evs m)
    (k + length evs)"
  using assms(1-3)
proof (induction evs arbitrary: now c m k)
  case (Cons ev evs)
  have "implements enc (replay_time ev) (replay_io enc dec ev c) (expiry_io ev m) (Suc k)"
    using implements_step [OF Cons.prems(1) _ _ assms(4,5)] Cons.prems(2,3) by simp
  from Cons.IH [OF this] Cons.prems(2,3) show ?case by (simp split: if_splits)
qed simp

subsection \<open>Properties\<close>

text \<open>C16: a replay cache implements the map from identifiers to expiry times. Whatever is marked, evicted
  or compacted and however often the node restarts, as long as fewer events than the capacity have
  happened and the clock does not go backwards: an identifier counts as seen exactly while the
  expiry time of its last accepted mark lies ahead, and a mark is accepted exactly when it does not.\<close>

theorem replay_cache_implements_map:
  assumes "json_lines enc dec" "\<forall>e. enc e \<noteq> None"
    and "replay_open (\<lambda>_. True) enc dec t path ttl None = Inr c"
    and "sorted (t # map replay_time evs @ [now])" "length evs < REPLAY_MAX_ENTRIES"
  shows "(replay_seen now i (replay_run enc dec evs c)
      \<longleftrightarrow> (\<exists>e. fold expiry_io evs Map.empty i = Some e \<and> now < e))
    \<and> (fst (mark_with_ttl (\<lambda>_. True) enc now now i ttl' (replay_run enc dec evs c))
      \<longleftrightarrow> \<not> replay_seen now i (replay_run enc dec evs c))"
proof -
  have "c = \<lparr> rp_path = Some path, rp_default_ttl = ttl, rp_entries = [], rp_log_open = True,
      rp_log_lines = 0, rp_file = Some [] \<rparr>"
    using assms(3) by (simp add: replay_open_def Let_def REPLAY_COMPACT_LINES_def)
  then have "implements enc t c Map.empty 0"
    by (auto simp: implements_def logged_def live_def intro!: exI [of _ "[]"])
  then have "implements enc (last (t # map replay_time evs)) (replay_run enc dec evs c) (fold expiry_io evs Map.empty)
      (0 + length evs)"
    by (rule implements_run) (use assms in \<open>simp_all add: sorted_append\<close>)
  moreover have "last (t # map replay_time evs) \<le> now"
    using assms(4) by (cases evs rule: rev_cases) (simp_all add: sorted_append)
  ultimately have i: "implements enc now (replay_run enc dec evs c) (fold expiry_io evs Map.empty) (length evs)"
    using implements_later by simp
  then have eq: "live now (hm_get (rp_entries (replay_run enc dec evs c)) i)
      = live now (fold expiry_io evs Map.empty i)"
    by (auto simp: implements_def)
  have "live now (fold expiry_io evs Map.empty i) \<noteq> None
      \<longleftrightarrow> (\<exists>e. fold expiry_io evs Map.empty i = Some e \<and> now < e)"
    by (auto simp: live_def split: option.splits)
  then show ?thesis
    unfolding replay_seen_live eq implements_mark(1) [OF i assms(5,2)] not_not by (rule conjI) (rule refl)
qed

definition toy_entry :: "replay_entry \<Rightarrow> bytes" where
  "toy_entry e = to_be (snd e) @ ascii (fst e)"

definition toy_entry_of :: "bytes \<Rightarrow> replay_entry" where
  "toy_entry_of b = (text_of (drop 8 b), of_be (take 8 b))"

theorem replay_cache_implements_map_witness:
  "\<not> fst (mark_with_ttl (\<lambda>_. True) (\<lambda>e. Some (toy_line (toy_entry e))) 250 250 ''a'' 9
      (replay_run (\<lambda>e. Some (toy_line (toy_entry e))) (\<lambda>l. map_option toy_entry_of (toy_unline l))
        [RpMark ''a'' 100 200, RpCompact 210, RpRestart 220]
        (projr (replay_open (\<lambda>_. True) (\<lambda>e. Some (toy_line (toy_entry e)))
          (\<lambda>l. map_option toy_entry_of (toy_unline l)) 100 ''p'' 50 None))))"
proof -
  let ?enc = "\<lambda>e. Some (toy_line (toy_entry e))" and ?dec = "\<lambda>l. map_option toy_entry_of (toy_unline l)"
  obtain c where c: "replay_open (\<lambda>_. True) ?enc ?dec 100 ''p'' 50 None = Inr c"
    by (simp add: replay_open_def Let_def)
  have j: "json_lines ?enc ?dec"
    by (rule toy_json_lines) (simp add: toy_entry_def toy_entry_of_def)
  show ?thesis
    using replay_cache_implements_map [OF j _ c, of "[RpMark ''a'' 100 200, RpCompact 210, RpRestart 220]" 250 "''a''" 9]
    by (simp add: c live_def sat_add_def REPLAY_MAX_ENTRIES_def)
qed

lemma length_remove_keys:
  assumes "hm_wf m" "distinct ks" "set ks \<subseteq> fst ` set m"
  shows "hm_wf (fold hm_remove ks m) \<and> length (fold hm_remove ks m) = length m - length ks
    \<and> (\<forall>i. hm_get (fold hm_remove ks m) i = (if i \<in> set ks then None else hm_get m i))"
  using assms
proof (induction ks arbitrary: m)
  case (Cons k ks)
  have wf: "hm_wf (hm_remove k m)" using Cons.prems(1) by (rule hm_wf_intros)
  have "fst ` set (hm_remove k m) = fst ` set m - {k}" by (auto simp: AList.delete_eq)
  then have sub: "set ks \<subseteq> fst ` set (hm_remove k m)" using Cons.prems(2,3) by auto
  have "length (hm_remove k m) = card (fst ` set m - {k})"
    using wf by (metis \<open>fst ` set (hm_remove k m) = fst ` set m - {k}\<close> hm_wf_def distinct_card length_map set_map)
  also have "\<dots> = length m - 1"
    using Cons.prems(1,3) by (simp add: hm_wf_def) (metis distinct_card length_map set_map)
  finally show ?case
    using Cons.IH [OF wf _ sub] Cons.prems(2) by (auto simp: hm.get_rem)
qed simp

lemma make_room_spec:
  assumes "hm_wf m"
  shows "hm_wf (make_room now m)
    \<and> (length m \<le> REPLAY_MAX_ENTRIES \<longrightarrow> length (make_room now m) < REPLAY_MAX_ENTRIES)
    \<and> (\<forall>i x. hm_get (make_room now m) i = Some x \<longrightarrow> hm_get m i = Some x)
    \<and> (\<forall>i x j y. hm_get m i = Some x \<and> hm_get (make_room now m) i = None
         \<and> hm_get (make_room now m) j = Some y \<longrightarrow> x \<le> now \<or> x \<le> y)"
proof (cases "REPLAY_MAX_ENTRIES \<le> length m")
  case full: True
  define l where "l = hm_retain (\<lambda>_ e. \<not> e \<le> now) m"
  have wl: "hm_wf l" unfolding l_def using assms by (rule hm_wf_intros)
  have gl: "hm_get l i = Some x \<longleftrightarrow> hm_get m i = Some x \<and> now < x" for i x
    by (auto simp: l_def hm.get_keep [OF assms] split: option.splits)
  show ?thesis
  proof (cases "REPLAY_MAX_ENTRIES \<le> length l")
    case True
    define ps where "ps = sort_key snd l"
    define ks where "ks = map fst (take (REPLAY_MAX_ENTRIES div 10) ps)"
    have mset: "mset ps = mset l" by (simp add: ps_def)
    have "distinct (map fst l)" using wl by (simp add: hm_wf_def)
    then have dps: "distinct (map fst ps)"
      using mset by (metis mset_eq_imp_distinct_iff mset_map)
    then have dk: "distinct ks" by (simp add: ks_def take_map [symmetric])
    have set: "set ps = set l" using mset by (rule mset_eq_setD)
    have sub: "set ks \<subseteq> fst ` set l" using set set_take_subset [of _ ps] by (auto simp: ks_def)
    note r = length_remove_keys [OF wl dk sub]
    have room: "make_room now m = fold hm_remove ks l"
      using full True by (simp add: make_room_def Let_def l_def [symmetric] ks_def ps_def)
    have len: "length ks = REPLAY_MAX_ENTRIES div 10"
      using True by (simp add: ks_def ps_def)
    have early: "x \<le> y"
      if i: "hm_get l i = Some x" "i \<in> set ks" and j: "hm_get l j = Some y" "j \<notin> set ks" for i x j y
    proof -
      let ?n = "REPLAY_MAX_ENTRIES div 10"
      have uniq: "hm_get ps k = Some z \<longleftrightarrow> (k, z) \<in> set ps" for k z using dps by simp
      have "(i, x) \<in> set ps" "(j, y) \<in> set ps" using i(1) j(1) set by (auto dest: map_of_SomeD)
      moreover obtain x' where "(i, x') \<in> set (take ?n ps)" using i(2) by (auto simp: ks_def)
      ultimately have x: "(i, x) \<in> set (take ?n ps)"
        using uniq by (metis in_set_takeD option.inject)
      have y: "(j, y) \<in> set (drop ?n ps)"
        using \<open>(j, y) \<in> set ps\<close> j(2) by (metis append_take_drop_id Un_iff fst_conv image_eqI ks_def set_append set_map)
      have "sorted (map snd (take ?n ps @ drop ?n ps))" by (simp add: ps_def)
      then have "\<forall>a \<in> snd ` set (take ?n ps). \<forall>b \<in> snd ` set (drop ?n ps). a \<le> b"
        unfolding map_append sorted_append set_map by blast
      then show "x \<le> y" using x y by (metis image_eqI snd_conv)
    qed
    have "length l \<le> length m" by (simp add: l_def hm_retain_def)
    then have short: "length (make_room now m) < REPLAY_MAX_ENTRIES" if "length m \<le> REPLAY_MAX_ENTRIES"
      using that r len True unfolding room by (simp add: REPLAY_MAX_ENTRIES_def)
    have get: "hm_get (make_room now m) i = (if i \<in> set ks then None else hm_get l i)" for i
      using r unfolding room by blast
    have "hm_wf (make_room now m)" using r unfolding room by blast
    moreover note short
    moreover have "x \<le> now \<or> x \<le> y"
      if "hm_get m i = Some x" "hm_get (make_room now m) i = None" "hm_get (make_room now m) j = Some y" for i x j y
    proof (cases "now < x")
      case True
      then have "hm_get l i = Some x" using that(1) gl by simp
      then show ?thesis using that(2,3) early [of i x j y] by (simp add: get split: if_splits)
    qed (simp add: not_less)
    moreover have "hm_get m i = Some x" if "hm_get (make_room now m) i = Some x" for i x
      using that gl by (simp add: get split: if_splits)
    ultimately show ?thesis by blast
  next
    case False
    then have "make_room now m = l" using full by (simp add: make_room_def Let_def l_def)
    then show ?thesis using wl gl False by (auto) (metis linorder_not_le option.distinct(1))
  qed
qed (use assms in \<open>auto simp: make_room_def\<close>)

lemma mark_entries:
  assumes "hm_wf (rp_entries c)" "length (rp_entries c) \<le> REPLAY_MAX_ENTRIES"
  shows "hm_wf (rp_entries (snd (mark_with_ttl io enc now0 now i ttl c)))
    \<and> length (rp_entries (snd (mark_with_ttl io enc now0 now i ttl c))) \<le> REPLAY_MAX_ENTRIES"
proof -
  let ?r = "make_room now (rp_entries c)"
  have r: "hm_wf ?r" "length ?r < REPLAY_MAX_ENTRIES" using make_room_spec [OF assms(1)] assms(2) by blast+
  have "length (hm_insert i e ?r) \<le> Suc (length ?r)" for e
    using arg_cong [OF update_keys [of i e ?r], of length] by (simp split: if_splits)
  then have ins: "hm_wf (hm_insert i e ?r) \<and> length (hm_insert i e ?r) \<le> REPLAY_MAX_ENTRIES" for e
    using hm_wf_intros(1) [OF r(1)] r(2) by (meson Suc_leI order_trans)
  have "rp_entries (append_to_log io enc x c') = rp_entries c'" for x c'
    by (simp add: append_to_log_def split: option.splits)
  then show ?thesis
    using r ins by (simp add: mark_with_ttl_def Let_def split: option.splits)
qed

text \<open>the memory of a replay cache is bounded while it runs: no sequence of marks and evictions takes
  it beyond 100000 identifiers, and what a full cache forgets before its time expires no later than
  anything it keeps.\<close>

theorem replay_memory_bounded:
  assumes "replay_open io enc dec t path ttl None = Inr c"
    and "\<forall>ev \<in> set evs. \<forall>t. ev \<noteq> RpRestart t"
    and "c' = replay_run enc dec evs c"
  shows "length (rp_entries c') \<le> REPLAY_MAX_ENTRIES
    \<and> (hm_get (rp_entries c') i = Some x \<and> hm_get (make_room now (rp_entries c')) i = None
        \<and> hm_get (make_room now (rp_entries c')) j = Some y \<longrightarrow> x \<le> now \<or> x \<le> y)"
proof -
  have c: "rp_entries c = []"
    using assms(1) by (auto simp: replay_open_def Let_def REPLAY_COMPACT_LINES_def split: if_splits)
  have step: "hm_wf (rp_entries (replay_io enc dec ev c)) \<and> length (rp_entries (replay_io enc dec ev c)) \<le> REPLAY_MAX_ENTRIES"
    if "hm_wf (rp_entries c) \<and> length (rp_entries c) \<le> REPLAY_MAX_ENTRIES" "\<forall>t. ev \<noteq> RpRestart t" for ev c
  proof (cases ev)
    case (RpEvict now)
    have "length (hm_retain (\<lambda>_. (<) now) (rp_entries c)) \<le> length (rp_entries c)" by (simp add: hm_retain_def)
    then show ?thesis using that RpEvict by (simp add: replay_evict_expired_def Let_def hm_wf_intros)
  next
    case (RpCompact now)
    then show ?thesis using that
      by (simp add: replay_compact_def Let_def split: sum.splits)
  qed (use that mark_entries in auto)
  have "hm_wf (rp_entries c') \<and> length (rp_entries c') \<le> REPLAY_MAX_ENTRIES"
    unfolding assms(3) using assms(2) c
  proof (induction evs rule: rev_induct)
    case (snoc ev evs)
    then show ?case using step [of "replay_run enc dec evs c" ev] by simp
  qed simp
  then show ?thesis using make_room_spec by blast
qed

theorem replay_memory_bounded_witness:
  "length (rp_entries (replay_run (\<lambda>_. None) (\<lambda>_. None) [RpMark ''a'' 5 1, RpEvict 2]
      (projr (replay_open (\<lambda>_. True) (\<lambda>_. None) (\<lambda>_. None) 0 ''p'' 9 None)))) \<le> 100000"
proof -
  obtain c where c: "replay_open (\<lambda>_. True) (\<lambda>_. None) (\<lambda>_. None) 0 ''p'' 9 None = Inr c"
    by (simp add: replay_open_def Let_def)
  show ?thesis
    using replay_memory_bounded [OF c, of "[RpMark ''a'' 5 1, RpEvict 2]"]
    by (simp add: c REPLAY_MAX_ENTRIES_def)
qed

end
