(* ===== verification/Board.thy ===== *)
theory Board
  imports LineLog
begin

section \<open>Message boards\<close>

text \<open>
  phinet-core/src/board.rs: public channels of short posts, deduplicated by id, bounded per channel
  and persisted in a log, with the handlers of phinet-core/src/node.rs that gossip them. The ephemeral
  secret and the time of a new post are arguments; so is \<open>keep\<close>, the half of an over-full set of ids that
  remains: a hash set is iterated in an order of its own, so each insertion has its own \<open>keep\<close>, numbered where there
  are several. File operations succeed as \<open>io\<close> says.

  Shown: a channel is the most recent thousand accepted posts, and a node that restarts, any number of times and
  whether it compacts the log or not, has the boards it had before, up to ten thousand posts.
\<close>

definition BOARD_MAX_POSTS :: nat where "BOARD_MAX_POSTS = 1000"

record board_post =
  bp_msg_id :: string
  bp_channel :: string
  bp_text :: string
  bp_ts :: u64
  bp_ephem_pub :: string
  bp_mac :: string
  bp_cluster :: "string option"

record board =
  bd_channels :: "(string, board_post list) hmap"
  bd_seen :: "string set"
  bd_log_path :: "string option"
  bd_log_open :: bool
  bd_file :: "string option"

type_synonym halves = "nat \<Rightarrow> string set \<Rightarrow> string set"
type_synonym post_encoder = "board_post \<Rightarrow> string option"
type_synonym post_decoder = "string \<Rightarrow> board_post option"

definition board_new :: board where
  "board_new = \<lparr> bd_channels = [], bd_seen = {}, bd_log_path = None, bd_log_open = False, bd_file = None \<rparr>"

text \<open>\<open>ct_eq_bytes\<close> of phinet-core/src/timing.rs; \<open>ct_eq\<close> compares two slices of the same length.\<close>

definition ct_eq_bytes :: "bytes \<Rightarrow> bytes \<Rightarrow> bool" where
  "ct_eq_bytes a b = (if length a \<noteq> length b then False else a = b)"

definition mac_data :: "string \<Rightarrow> string \<Rightarrow> u64 \<Rightarrow> string" where
  "mac_data channel txt ts = channel @ '':'' @ txt @ '':'' @ show_dec (unat ts)"

definition board_verify :: "prims \<Rightarrow> board_post \<Rightarrow> bool" where
  "board_verify P post =
     (case p_hex_decode P (bp_ephem_pub post) of
        None \<Rightarrow> False
      | Some eb \<Rightarrow>
          ct_eq_bytes
            (ascii (p_hex_encode P (p_sha256 P (eb @ ascii (mac_data (bp_channel post) (bp_text post) (bp_ts post))))))
            (ascii (bp_mac post)))"

definition board_insert_mem :: "(string set \<Rightarrow> string set) \<Rightarrow> board_post \<Rightarrow> string \<Rightarrow> board \<Rightarrow> board" where
  "board_insert_mem keep post msg_id b =
     (if msg_id \<in> bd_seen b then b
      else
        let seen = insert msg_id (bd_seen b);
            seen' = (if BOARD_MAX_POSTS * 10 < card seen then keep seen else seen);
            posts = (case hm_get (bd_channels b) (bp_channel post) of None \<Rightarrow> [] | Some ps \<Rightarrow> ps) @ [post];
            posts' = (if BOARD_MAX_POSTS < length posts then tl posts else posts)
        in b\<lparr>bd_seen := seen', bd_channels := hm_insert (bp_channel post) posts' (bd_channels b)\<rparr>)"

definition board_append_log :: "(string \<Rightarrow> bool) \<Rightarrow> post_encoder \<Rightarrow> board_post \<Rightarrow> board \<Rightarrow> board" where
  "board_append_log io enc post b =
     (if \<not> bd_log_open b then b
      else (case enc post of
              None \<Rightarrow> b
            | Some l \<Rightarrow>
                if \<not> io ''log append'' then b
                else b\<lparr>bd_file := Some (writeln (case bd_file b of None \<Rightarrow> [] | Some f \<Rightarrow> f) l)\<rparr>))"

definition board_insert ::
  "(string \<Rightarrow> bool) \<Rightarrow> post_encoder \<Rightarrow> (string set \<Rightarrow> string set) \<Rightarrow> board_post \<Rightarrow> string \<Rightarrow> board \<Rightarrow> board" where
  "board_insert io enc keep post msg_id b =
     (if msg_id \<in> bd_seen b then b
      else board_append_log io enc post (board_insert_mem keep post msg_id b))"

definition board_merge ::
  "(string \<Rightarrow> bool) \<Rightarrow> post_encoder \<Rightarrow> (string set \<Rightarrow> string set) \<Rightarrow> board_post \<Rightarrow> board \<Rightarrow> bool \<times> board" where
  "board_merge io enc keep post b =
     (if bp_msg_id post \<in> bd_seen b then (False, b)
      else (True, board_insert io enc keep post (bp_msg_id post) b))"

definition make_post :: "prims \<Rightarrow> bytes \<Rightarrow> string \<Rightarrow> string \<Rightarrow> u64 \<Rightarrow> bytes option \<Rightarrow> board_post" where
  "make_post P ephem_secret channel txt ts cluster =
     (let ephem = p_x25519_pub P ephem_secret;
          msg_id = p_hex_encode P (p_sha256 P (ephem @ ascii channel @ ascii txt @ to_le ts));
          mac = p_hex_encode P (p_sha256 P (ephem @ ascii (mac_data channel txt ts)))
      in \<lparr> bp_msg_id = msg_id, bp_channel = channel, bp_text = txt, bp_ts = ts,
           bp_ephem_pub = p_hex_encode P ephem, bp_mac = mac, bp_cluster = map_option (p_hex_encode P) cluster \<rparr>)"

definition board_post_new ::
  "prims \<Rightarrow> (string \<Rightarrow> bool) \<Rightarrow> post_encoder \<Rightarrow> (string set \<Rightarrow> string set) \<Rightarrow> bytes \<Rightarrow> string \<Rightarrow> string \<Rightarrow> u64
     \<Rightarrow> bytes option \<Rightarrow> board \<Rightarrow> board_post \<times> board" where
  "board_post_new P io enc keep ephem_secret channel txt ts cluster b =
     (let post = make_post P ephem_secret channel txt ts cluster
      in (post, board_insert io enc keep post (bp_msg_id post) b))"

definition board_get :: "string \<Rightarrow> nat \<Rightarrow> board \<Rightarrow> board_post list" where
  "board_get channel limit b =
     (case hm_get (bd_channels b) channel of
        None \<Rightarrow> []
      | Some ps \<Rightarrow> drop (length ps - limit) ps)"

definition board_all_channels :: "board \<Rightarrow> string list" where
  "board_all_channels b = hm_keys (bd_channels b)"

subsection \<open>The log\<close>

definition board_load_line ::
  "prims \<Rightarrow> post_decoder \<Rightarrow> (string set \<Rightarrow> string set) \<Rightarrow> string option \<Rightarrow> board \<Rightarrow> board" where
  "board_load_line P dec keep line b =
     (case line of
        None \<Rightarrow> b
      | Some s \<Rightarrow>
          let l = str_trim s in
          if l = [] then b
          else (case dec l of
                  None \<Rightarrow> b
                | Some post \<Rightarrow>
                    if \<not> board_verify P post then b else board_insert_mem keep post (bp_msg_id post) b))"

definition board_load ::
  "prims \<Rightarrow> (string \<Rightarrow> bool) \<Rightarrow> post_decoder \<Rightarrow> halves \<Rightarrow> board \<Rightarrow> board result" where
  "board_load P io dec keep b =
     (if bd_log_path b = None then Inr b
      else if \<not> io ''load'' then Inl (Crypto ''board: load'')
      else Inr (fold (\<lambda>(i, line). board_load_line P dec (keep i) line)
             (enumerate 0 (read_lines (case bd_file b of None \<Rightarrow> [] | Some f \<Rightarrow> f))) b))"

fun board_write_all :: "(string \<Rightarrow> bool) \<Rightarrow> post_encoder \<Rightarrow> board_post list \<Rightarrow> string \<Rightarrow> string result" where
  "board_write_all io enc [] f = Inr f"
| "board_write_all io enc (p # ps) f =
     (case enc p of
        None \<Rightarrow> Inl (Crypto ''board: serialize'')
      | Some l \<Rightarrow>
          if \<not> io ''compact write'' then Inl (Crypto ''board: compact write'')
          else board_write_all io enc ps (writeln f l))"

text \<open>\<open>metadata\<close> gives the length of the file; without it there is nothing to compact.\<close>

definition board_maybe_compact :: "(string \<Rightarrow> bool) \<Rightarrow> post_encoder \<Rightarrow> board \<Rightarrow> board result" where
  "board_maybe_compact io enc b =
     (if bd_log_path b = None \<or> \<not> io ''metadata''
          \<or> length (case bd_file b of None \<Rightarrow> [] | Some f \<Rightarrow> f) < 1000000 then Inr b
      else if \<not> io ''compact create'' then Inl (Crypto ''board: compact create'')
      else and_then (board_write_all io enc (concat (map snd (bd_channels b))) []) (\<lambda>f.
        if \<not> io ''compact rename'' then Inl (Crypto ''board: compact rename'')
        else Inr (b\<lparr>bd_file := Some f\<rparr>)))"

definition board_open ::
  "prims \<Rightarrow> (string \<Rightarrow> bool) \<Rightarrow> post_encoder \<Rightarrow> post_decoder \<Rightarrow> halves \<Rightarrow> string \<Rightarrow> string option \<Rightarrow> board result" where
  "board_open P io enc dec keep path file =
     (let b = board_new\<lparr>bd_log_path := Some path, bd_file := file\<rparr> in
      and_then (if file \<noteq> None then and_then (board_load P io dec keep b) (board_maybe_compact io enc)
                else if \<not> io ''mkdir'' then Inl (Crypto ''board: mkdir'') else Inr b) (\<lambda>b1.
      if \<not> io ''open'' then Inl (Crypto ''board: open log'')
      else Inr (b1\<lparr>bd_log_open := True, bd_file := Some (case bd_file b1 of None \<Rightarrow> [] | Some f \<Rightarrow> f)\<rparr>)))"

subsection \<open>Handlers of a node\<close>

text \<open>The peers (by node id, in the order of the peer table) a post is sent to come with the result.\<close>

definition handle_board_post ::
  "(string \<Rightarrow> bool) \<Rightarrow> post_encoder \<Rightarrow> (string set \<Rightarrow> string set) \<Rightarrow> board_post \<Rightarrow> bytes \<Rightarrow> bytes list \<Rightarrow> board
     \<Rightarrow> board \<times> bytes list" where
  "handle_board_post io enc keep post src peers b =
     (let (fresh, b') = board_merge io enc keep post b
      in (b', if fresh then filter (\<lambda>p. p \<noteq> src) peers else []))"

definition handle_board_fetch :: "string \<Rightarrow> u32 \<Rightarrow> board \<Rightarrow> board_post list" where
  "handle_board_fetch channel limit b = board_get channel (unat limit) b"

definition post_to_board ::
  "prims \<Rightarrow> (string \<Rightarrow> bool) \<Rightarrow> post_encoder \<Rightarrow> (string set \<Rightarrow> string set) \<Rightarrow> bytes \<Rightarrow> u64 \<Rightarrow> bytes \<Rightarrow> string \<Rightarrow> string
     \<Rightarrow> bytes list \<Rightarrow> board \<Rightarrow> board \<times> (bytes \<times> board_post) list" where
  "post_to_board P io enc keep ephem_secret ts cluster channel txt peers b =
     (let (post, b') = board_post_new P io enc keep ephem_secret channel txt ts (Some cluster) b
      in (b', map (\<lambda>p. (p, post)) peers))"

subsection \<open>Boards as the recent part of a history\<close>

abbreviation lastn :: "nat \<Rightarrow> 'a list \<Rightarrow> 'a list" where
  "lastn n xs \<equiv> drop (length xs - n) xs"

lemma lastn_lastn: "lastn m (lastn n xs) = lastn (min m n) xs"
proof -
  have "(length xs - (length xs - n) - m) + (length xs - n) = length xs - min m n" by arith
  then show ?thesis by (simp add: add.commute)
qed

lemma lastn_snoc:
  assumes "0 < n"
  shows "(let ys = lastn n xs @ [x] in if n < length ys then tl ys else ys) = lastn n (xs @ [x])"
proof (cases "length xs < n")
  case False
  then have "lastn n xs = xs ! (length xs - n) # drop (Suc (length xs - n)) xs"
    using assms by (intro Cons_nth_drop_Suc [symmetric]) simp
  then show ?thesis using False assms by (simp add: Suc_diff_le)
qed simp

definition channel_posts :: "board \<Rightarrow> string \<Rightarrow> board_post list" where
  "channel_posts b ch = (case hm_get (bd_channels b) ch of None \<Rightarrow> [] | Some ps \<Rightarrow> ps)"

lemma board_get_posts: "board_get ch limit b = lastn limit (channel_posts b ch)"
  by (simp add: board_get_def channel_posts_def split: option.splits)

text \<open>The first post of each id.\<close>

fun first_by_id :: "string set \<Rightarrow> board_post list \<Rightarrow> board_post list" where
  "first_by_id S [] = []"
| "first_by_id S (p # ps) =
     (if bp_msg_id p \<in> S then first_by_id S ps else p # first_by_id (insert (bp_msg_id p) S) ps)"

lemma first_by_id_snoc:
  "first_by_id S (ps @ [p]) =
     first_by_id S ps @ (if bp_msg_id p \<in> S \<union> bp_msg_id ` set ps then [] else [p])"
  by (induction ps arbitrary: S) auto

lemma first_by_id_ids: "S \<union> bp_msg_id ` set (first_by_id S ps) = S \<union> bp_msg_id ` set ps"
proof (induction ps arbitrary: S)
  case (Cons p ps)
  show ?case using Cons [of "insert (bp_msg_id p) S"] Cons [of S] by (auto simp: set_eq_iff)
qed simp

lemma first_by_id_length: "length (first_by_id S ps) \<le> length ps"
  by (induction ps arbitrary: S) (auto intro: le_SucI)

lemma first_by_id_set: "set (first_by_id S ps) \<subseteq> set ps"
  by (induction ps arbitrary: S) auto

text \<open>A board holds a history: the ids of all its posts and the recent posts of each channel.\<close>

definition holds :: "board_post list \<Rightarrow> board \<Rightarrow> bool" where
  "holds es b \<longleftrightarrow> bd_seen b = bp_msg_id ` set es
     \<and> (\<forall>ch. channel_posts b ch = lastn BOARD_MAX_POSTS (filter (\<lambda>p. bp_channel p = ch) es))"

lemma holds_new: "bd_seen b = {} \<Longrightarrow> bd_channels b = [] \<Longrightarrow> holds [] b"
  by (simp add: holds_def channel_posts_def)

lemma holds_insert_mem:
  assumes "holds es b" "bp_msg_id p \<notin> bd_seen b" "length es < BOARD_MAX_POSTS * 10"
  shows "holds (es @ [p]) (board_insert_mem keep p (bp_msg_id p) b)"
proof -
  have seen: "bd_seen b = bp_msg_id ` set es" using assms(1) by (simp add: holds_def)
  have "card (bp_msg_id ` set es) \<le> length es" by (metis card_image_le card_length finite_set order_trans)
  then have "card (insert (bp_msg_id p) (bd_seen b)) \<le> BOARD_MAX_POSTS * 10"
    using assms(3) card_insert_le_m1 [of "length es + 1" "bd_seen b" "bp_msg_id p"] by (simp add: seen)
  then have small: "\<not> BOARD_MAX_POSTS * 10 < card (insert (bp_msg_id p) (bd_seen b))" by simp
  let ?ps = "lastn BOARD_MAX_POSTS (filter (\<lambda>q. bp_channel q = bp_channel p) es) @ [p]"
  have posts: "channel_posts b ch = lastn BOARD_MAX_POSTS (filter (\<lambda>p. bp_channel p = ch) es)" for ch
    using assms(1) by (simp add: holds_def)
  have "channel_posts (board_insert_mem keep p (bp_msg_id p) b) ch
      = (if ch = bp_channel p then if BOARD_MAX_POSTS < length ?ps then tl ?ps else ?ps else channel_posts b ch)" for ch
    using assms(2) posts [of "bp_channel p"]
    by (simp add: board_insert_mem_def Let_def channel_posts_def update_conv')
  moreover have "(if BOARD_MAX_POSTS < length ?ps then tl ?ps else ?ps)
      = lastn BOARD_MAX_POSTS (filter (\<lambda>q. bp_channel q = bp_channel p) es @ [p])"
    using lastn_snoc [of BOARD_MAX_POSTS "filter (\<lambda>q. bp_channel q = bp_channel p) es" p]
    unfolding Let_def by (simp add: BOARD_MAX_POSTS_def)
  ultimately have "channel_posts (board_insert_mem keep p (bp_msg_id p) b) ch
      = lastn BOARD_MAX_POSTS (filter (\<lambda>p. bp_channel p = ch) (es @ [p]))" for ch
    using posts by (auto simp: eq_commute [of "bp_channel p"])
  moreover have "bd_seen (board_insert_mem keep p (bp_msg_id p) b) = bp_msg_id ` set (es @ [p])"
    using assms(2) small seen by (simp add: board_insert_mem_def Let_def)
  ultimately show ?thesis by (simp add: holds_def)
qed

lemma append_log_core [simp]:
  "bd_seen (board_append_log io enc p b) = bd_seen b"
  "bd_channels (board_append_log io enc p b) = bd_channels b"
  by (simp_all add: board_append_log_def split: option.splits)

lemma holds_append_log [simp]: "holds es (board_append_log io enc p b) = holds es b"
  by (simp add: holds_def channel_posts_def)

text \<open>The events of a board: a post that arrives from a peer, and one made here.\<close>

datatype board_event = BdMerge board_post | BdPost bytes string string u64 "bytes option"

fun event_post :: "prims \<Rightarrow> board_event \<Rightarrow> board_post" where
  "event_post P (BdMerge p) = p"
| "event_post P (BdPost e ch txt ts cl) = make_post P e ch txt ts cl"

fun board_io :: "prims \<Rightarrow> (string \<Rightarrow> bool) \<Rightarrow> post_encoder \<Rightarrow> (string set \<Rightarrow> string set) \<Rightarrow> board_event \<Rightarrow> board \<Rightarrow> board" where
  "board_io P io enc keep (BdMerge p) b = snd (board_merge io enc keep p b)"
| "board_io P io enc keep (BdPost e ch txt ts cl) b = snd (board_post_new P io enc keep e ch txt ts cl b)"

lemma board_io_insert:
  "board_io P io enc keep ev b = board_insert io enc keep (event_post P ev) (bp_msg_id (event_post P ev)) b"
  by (cases ev) (simp_all add: board_merge_def board_post_new_def board_insert_def Let_def)

definition board_run ::
  "prims \<Rightarrow> (string \<Rightarrow> bool) \<Rightarrow> post_encoder \<Rightarrow> halves \<Rightarrow> board_event list \<Rightarrow> board \<Rightarrow> board" where
  "board_run P io enc keep evs b = fold (\<lambda>(i, ev). board_io P io enc (keep i) ev) (enumerate 0 evs) b"

lemma board_run_simps [simp]:
  "board_run P io enc keep [] b = b"
  "board_run P io enc keep (evs @ [ev]) b = board_io P io enc (keep (length evs)) ev (board_run P io enc keep evs b)"
  by (simp_all add: board_run_def enumerate_append_eq)

definition accepted :: "prims \<Rightarrow> board_event list \<Rightarrow> board_post list" where
  "accepted P evs = first_by_id {} (map (event_post P) evs)"

lemma accepted_snoc:
  "accepted P (evs @ [ev]) = accepted P evs
    @ (if bp_msg_id (event_post P ev) \<in> bp_msg_id ` set (accepted P evs) then [] else [event_post P ev])"
  using first_by_id_ids [of "{}" "map (event_post P) evs"]
  by (simp add: accepted_def first_by_id_snoc image_image)

lemma accepted_length: "length (accepted P evs) \<le> length evs"
  using first_by_id_length [of "{}" "map (event_post P) evs"] by (simp add: accepted_def)

lemma board_step_holds:
  assumes "holds es b" "length es < BOARD_MAX_POSTS * 10"
  shows "holds (es @ (if bp_msg_id (event_post P ev) \<in> bp_msg_id ` set es then [] else [event_post P ev]))
    (board_io P io enc keep ev b)"
proof -
  have "bd_seen b = bp_msg_id ` set es" using assms(1) by (simp add: holds_def)
  then show ?thesis
    using assms holds_insert_mem [OF assms(1) _ assms(2), of "event_post P ev" keep]
    by (simp add: board_io_insert board_insert_def)
qed

lemma board_run_holds:
  assumes "holds [] b" "length evs \<le> BOARD_MAX_POSTS * 10"
  shows "holds (accepted P evs) (board_run P io enc keep evs b)"
  using assms(2)
proof (induction evs rule: rev_induct)
  case (snoc ev evs)
  then have "holds (accepted P evs) (board_run P io enc keep evs b)" by simp
  moreover have "length (accepted P evs) < BOARD_MAX_POSTS * 10"
    using accepted_length [of P evs] snoc.prems by simp
  ultimately show ?case by (simp only: accepted_snoc board_run_simps board_step_holds)
qed (use assms(1) in \<open>simp add: accepted_def\<close>)

text \<open>Only verified posts are loaded; those of the node itself verify.\<close>

lemma make_post_verifies: "hex_ok P \<Longrightarrow> board_verify P (make_post P e ch txt ts cl)"
  by (simp add: board_verify_def make_post_def Let_def ct_eq_bytes_def hex_ok_def)

text \<open>Loading a log whose posts have different ids.\<close>

lemma load_holds:
  assumes "json_lines enc dec" "\<forall>e \<in> set es. enc e \<noteq> None \<and> board_verify P e" "distinct (map bp_msg_id es)"
    and "length es \<le> BOARD_MAX_POSTS * 10" "holds [] b"
  shows "holds es (fold (\<lambda>(i, line). board_load_line P dec (keep i) line) (enumerate 0 (map enc es)) b)"
  using assms(2-4)
proof (induction es rule: rev_induct)
  case (snoc e es)
  let ?b = "fold (\<lambda>(i, line). board_load_line P dec (keep i) line) (enumerate 0 (map enc es)) b"
  have h: "holds es ?b" using snoc by simp
  moreover have "bp_msg_id e \<notin> bd_seen ?b" using h snoc.prems(2) by (simp add: holds_def image_iff)
  ultimately have "holds (es @ [e]) (board_insert_mem (keep (length es)) e (bp_msg_id e) ?b)"
    using snoc.prems(3) by (intro holds_insert_mem) simp_all
  moreover obtain l where l: "enc e = Some l" using snoc.prems(1) by auto
  have "board_load_line P dec (keep (length es)) (enc e) ?b = board_insert_mem (keep (length es)) e (bp_msg_id e) ?b"
    using json_line [OF assms(1) l] l snoc.prems(1) by (simp add: board_load_line_def Let_def)
  ultimately show ?case by (simp add: enumerate_append_eq)
qed (use assms(5) in simp)

lemma insert_mem_other [simp]:
  "bd_file (board_insert_mem keep p i b) = bd_file b"
  "bd_log_open (board_insert_mem keep p i b) = bd_log_open b"
  "bd_log_path (board_insert_mem keep p i b) = bd_log_path b"
  by (simp_all add: board_insert_mem_def Let_def)

lemma load_line_other [simp]:
  "bd_file (board_load_line P dec keep line b) = bd_file b" "bd_log_path (board_load_line P dec keep line b) = bd_log_path b"
  by (simp_all add: board_load_line_def Let_def split: option.split)

lemma load_lines_other:
  "bd_file (fold (\<lambda>(i, line). board_load_line P dec (keep i) line) xs b) = bd_file b
   \<and> bd_log_path (fold (\<lambda>(i, line). board_load_line P dec (keep i) line) xs b) = bd_log_path b"
  by (induction xs arbitrary: b) auto

lemma insert_mem_wf: "hm_wf (bd_channels b) \<Longrightarrow> hm_wf (bd_channels (board_insert_mem keep p i b))"
  by (simp add: board_insert_mem_def Let_def hm.wf_ins)

lemma load_lines_wf:
  "hm_wf (bd_channels b) \<Longrightarrow> hm_wf (bd_channels (fold (\<lambda>(i, line). board_load_line P dec (keep i) line) xs b))"
  by (induction xs arbitrary: b) (auto simp: board_load_line_def Let_def insert_mem_wf split: option.split)

text \<open>
  The relation between a board, its history \<open>es\<close> and what its log holds: \<open>cs\<close> is the history, or what a compaction
  left of it.
\<close>

definition same_window :: "board_post list \<Rightarrow> board_post list \<Rightarrow> bool" where
  "same_window es cs \<longleftrightarrow> (\<forall>ch. lastn BOARD_MAX_POSTS (filter (\<lambda>p. bp_channel p = ch) es)
     = lastn BOARD_MAX_POSTS (filter (\<lambda>p. bp_channel p = ch) cs))"

definition logged :: "prims \<Rightarrow> post_encoder \<Rightarrow> board_post list \<Rightarrow> board \<Rightarrow> bool" where
  "logged P enc cs b \<longleftrightarrow> bd_file b = Some (log_of enc cs) \<and> distinct (map bp_msg_id cs)
     \<and> length cs \<le> BOARD_MAX_POSTS * 10 \<and> (\<forall>p \<in> set cs. board_verify P p)"

lemma run_logged:
  assumes "\<forall>e. enc e \<noteq> None" "bd_log_open b" "holds [] b" "bd_file b = Some []" "length evs \<le> BOARD_MAX_POSTS * 10"
    and "\<forall>ev \<in> set evs. board_verify P (event_post P ev)"
  shows "logged P enc (accepted P evs) (board_run P (\<lambda>_. True) enc keep evs b)
    \<and> bd_log_open (board_run P (\<lambda>_. True) enc keep evs b)"
  using assms(5,6)
proof (induction evs rule: rev_induct)
  case Nil
  then show ?case using assms(2,4) by (simp add: logged_def accepted_def)
next
  case (snoc ev evs)
  let ?b = "board_run P (\<lambda>_. True) enc keep evs b" and ?p = "event_post P ev"
  have IH: "logged P enc (accepted P evs) ?b" "bd_log_open ?b" using snoc by simp_all
  have h: "holds (accepted P evs) ?b" using board_run_holds [OF assms(3)] snoc.prems(1) by simp
  have len: "length (accepted P evs) < BOARD_MAX_POSTS * 10" using accepted_length [of P evs] snoc.prems(1) by simp
  obtain l where l: "enc ?p = Some l" using assms(1) by fastforce
  show ?case
  proof (cases "bp_msg_id ?p \<in> bd_seen ?b")
    case True
    then have "accepted P (evs @ [ev]) = accepted P evs" using h by (simp add: accepted_snoc holds_def)
    then show ?thesis using IH True by (simp add: board_io_insert board_insert_def)
  next
    case False
    then have "accepted P (evs @ [ev]) = accepted P evs @ [?p]" using h by (auto simp: accepted_snoc holds_def)
    then show ?thesis
      using IH False l h len snoc.prems(2)
      by (auto simp: logged_def board_io_insert board_insert_def board_append_log_def holds_def)
  qed
qed

lemma write_all_log:
  "\<forall>e. enc e \<noteq> None \<Longrightarrow> board_write_all (\<lambda>_. True) enc ps (log_of enc qs) = Inr (log_of enc (qs @ ps))"
proof (induction ps arbitrary: qs)
  case (Cons p ps)
  then obtain l where "enc p = Some l" by fastforce
  then show ?case using Cons.IH [OF Cons.prems, of "qs @ [p]"] by simp
qed simp

text \<open>What a compaction writes: the posts of all channels, which are those of the windows.\<close>

lemma windows_of_map:
  assumes "hm_wf m" "\<And>c ps. (c, ps) \<in> set m \<Longrightarrow> distinct ps \<and> (\<forall>p \<in> set ps. bp_channel p = c)"
  shows "filter (\<lambda>p. bp_channel p = ch) (concat (map snd m)) = (case hm_get m ch of None \<Rightarrow> [] | Some ps \<Rightarrow> ps)
    \<and> distinct (concat (map snd m))"
  using assms
proof (induction m)
  case (Cons x m)
  obtain c ps where x: "x = (c, ps)" by (cases x)
  have m: "hm_wf m" "c \<notin> fst ` set m" using Cons.prems(1) x by (simp_all add: hm_wf_def)
  have IH: "filter (\<lambda>p. bp_channel p = ch) (concat (map snd m)) = (case hm_get m ch of None \<Rightarrow> [] | Some ps \<Rightarrow> ps)"
      "distinct (concat (map snd m))"
    using Cons.IH [OF m(1)] Cons.prems(2) by auto
  have here: "distinct ps" "\<forall>p \<in> set ps. bp_channel p = c" using Cons.prems(2) [of c ps] x by simp_all
  have there: "bp_channel p \<noteq> c" if "p \<in> set (concat (map snd m))" for p
    using that m(2) Cons.prems(2) by (force simp: x)
  have "hm_get m c = None" using m(2) by (simp add: map_of_eq_None_iff)
  then have "filter (\<lambda>p. bp_channel p = ch) (concat (map snd (x # m))) = (case hm_get (x # m) ch of None \<Rightarrow> [] | Some ps \<Rightarrow> ps)"
    using IH(1) here(2) by (cases "ch = c") (simp_all add: x)
  moreover have "set ps \<inter> set (concat (map snd m)) = {}" using here(2) there by blast
  ultimately show ?case using IH(2) here(1) by (simp add: x)
qed simp

lemma set_lastn: "set (lastn n xs) \<subseteq> set xs"
  by (rule set_drop_subset)

lemma compacted_history:
  assumes "holds cs l" "hm_wf (bd_channels l)" "distinct (map bp_msg_id cs)" "ds = concat (map snd (bd_channels l))"
  shows "same_window cs ds" "set ds \<subseteq> set cs" "distinct (map bp_msg_id ds)" "length ds \<le> length cs"
proof -
  have posts: "channel_posts l ch = lastn BOARD_MAX_POSTS (filter (\<lambda>p. bp_channel p = ch) cs)" for ch
    using assms(1) by (simp add: holds_def)
  have stored: "ps = lastn BOARD_MAX_POSTS (filter (\<lambda>p. bp_channel p = c) cs)" if "(c, ps) \<in> set (bd_channels l)" for c ps
    using posts [of c] that assms(2) by (simp add: channel_posts_def hm_wf_def map_of_is_SomeI)
  have d: "distinct cs" using assms(3) by (simp add: distinct_map)
  have each: "distinct ps \<and> (\<forall>p \<in> set ps. bp_channel p = c)" if "(c, ps) \<in> set (bd_channels l)" for c ps
    using stored [OF that] d set_lastn [where n = BOARD_MAX_POSTS and xs = "filter (\<lambda>p. bp_channel p = c) cs"] by auto
  note w = windows_of_map [OF assms(2) each]
  have "filter (\<lambda>p. bp_channel p = ch) ds = lastn BOARD_MAX_POSTS (filter (\<lambda>p. bp_channel p = ch) cs)" for ch
    using w [of ch] posts [of ch] by (simp add: assms(4) channel_posts_def)
  then show "same_window cs ds" by (simp add: same_window_def lastn_lastn)
  show sub: "set ds \<subseteq> set cs"
  proof
    fix p
    assume "p \<in> set ds"
    then obtain c ps where "(c, ps) \<in> set (bd_channels l)" "p \<in> set ps" by (force simp: assms(4))
    then show "p \<in> set cs" using stored set_lastn [where n = BOARD_MAX_POSTS and xs = "filter (\<lambda>p. bp_channel p = c) cs"] by force
  qed
  have dd: "distinct ds" using w by (simp add: assms(4))
  have "inj_on bp_msg_id (set cs)" using assms(3) by (simp add: distinct_map)
  then show "distinct (map bp_msg_id ds)" using dd sub by (simp add: distinct_map inj_on_subset)
  show "length ds \<le> length cs" using dd d sub by (metis card_mono distinct_card finite_set)
qed

lemma open_logged:
  assumes "json_lines enc dec" "\<forall>e. enc e \<noteq> None" "logged P enc cs b"
  shows "\<exists>b' ds. board_open P (\<lambda>_. True) enc dec keep path (bd_file b) = Inr b' \<and> logged P enc ds b'
    \<and> holds cs b' \<and> same_window cs ds \<and> set ds \<subseteq> set cs"
proof -
  let ?b0 = "board_new\<lparr>bd_log_path := Some path, bd_file := bd_file b\<rparr>"
  define l where "l = fold (\<lambda>(i, line). board_load_line P dec (keep i) line) (enumerate 0 (map enc cs)) ?b0"
  have cs: "bd_file b = Some (log_of enc cs)" "distinct (map bp_msg_id cs)" "length cs \<le> BOARD_MAX_POSTS * 10"
      "\<forall>p \<in> set cs. enc p \<noteq> None \<and> board_verify P p"
    using assms(2,3) by (simp_all add: logged_def)
  have h: "holds cs l"
    unfolding l_def by (rule load_holds [OF assms(1) cs(4,2,3)]) (simp add: holds_def channel_posts_def board_new_def)
  have wf: "hm_wf (bd_channels l)" unfolding l_def by (rule load_lines_wf) (simp add: board_new_def hm_wf_def)
  have other: "bd_file l = Some (log_of enc cs)" "bd_log_path l = Some path"
    unfolding l_def using load_lines_other [of P dec keep "enumerate 0 (map enc cs)" ?b0] cs(1) by simp_all
  have load: "board_load P (\<lambda>_. True) dec keep ?b0 = Inr l"
    using cs(1,4) read_log_of [OF assms(1), of cs] by (simp add: board_load_def l_def)
  let ?ds = "concat (map snd (bd_channels l))"
  note c = compacted_history [OF h wf cs(2) refl]
  have fin: "holds cs (l\<lparr>bd_log_open := True, bd_file := f\<rparr>)" "holds cs (l\<lparr>bd_log_open := True\<rparr>)" for f
    using h by (simp_all add: holds_def channel_posts_def)
  show ?thesis
  proof (cases "length (log_of enc cs) < 1000000")
    case True
    then have "board_maybe_compact (\<lambda>_. True) enc l = Inr l" by (simp add: board_maybe_compact_def other)
    then have "board_open P (\<lambda>_. True) enc dec keep path (bd_file b) = Inr (l\<lparr>bd_log_open := True, bd_file := bd_file l\<rparr>)"
      using load cs(1) other by (simp add: board_open_def Let_def)
    moreover have "logged P enc cs (l\<lparr>bd_log_open := True, bd_file := bd_file l\<rparr>)" using assms(3) other by (simp add: logged_def)
    ultimately show ?thesis using fin by (intro exI [of _ "l\<lparr>bd_log_open := True, bd_file := bd_file l\<rparr>"] exI [of _ cs])
        (simp add: same_window_def)
  next
    case False
    have "board_write_all (\<lambda>_. True) enc ?ds [] = Inr (log_of enc ?ds)"
      using write_all_log [OF assms(2), of ?ds "[]"] by simp
    then have "board_maybe_compact (\<lambda>_. True) enc l = Inr (l\<lparr>bd_file := Some (log_of enc ?ds)\<rparr>)"
      using False by (simp add: board_maybe_compact_def other)
    then have "board_open P (\<lambda>_. True) enc dec keep path (bd_file b)
        = Inr (l\<lparr>bd_log_open := True, bd_file := Some (log_of enc ?ds)\<rparr>)"
      using load cs(1) by (simp add: board_open_def Let_def)
    moreover have "logged P enc ?ds (l\<lparr>bd_log_open := True, bd_file := Some (log_of enc ?ds)\<rparr>)"
      using c cs(3,4) by (auto simp: logged_def)
    ultimately show ?thesis using fin c by blast
  qed
qed

text \<open>A node that is restarted several times without new posts.\<close>

fun board_restarts ::
  "prims \<Rightarrow> post_encoder \<Rightarrow> post_decoder \<Rightarrow> string \<Rightarrow> halves list \<Rightarrow> board \<Rightarrow> board result" where
  "board_restarts P enc dec path [] b = Inr b"
| "board_restarts P enc dec path (keep # keeps) b =
     and_then (board_open P (\<lambda>_. True) enc dec keep path (bd_file b)) (board_restarts P enc dec path keeps)"

lemma restarts_logged:
  assumes "json_lines enc dec" "\<forall>e. enc e \<noteq> None" "logged P enc cs b" "holds es b" "same_window es cs" "set cs \<subseteq> set es"
  shows "\<exists>b' es'. board_restarts P enc dec path keeps b = Inr b' \<and> holds es' b' \<and> same_window es es' \<and> set es' \<subseteq> set es"
  using assms(3-)
proof (induction keeps arbitrary: b es cs)
  case Nil
  then show ?case by (auto simp: same_window_def)
next
  case (Cons keep keeps)
  obtain b1 ds where b1: "board_open P (\<lambda>_. True) enc dec keep path (bd_file b) = Inr b1" "logged P enc ds b1"
      "holds cs b1" "same_window cs ds" "set ds \<subseteq> set cs"
    using open_logged [OF assms(1,2) Cons.prems(1), of keep path] by blast
  obtain b' es' where "board_restarts P enc dec path keeps b1 = Inr b'" "holds es' b'" "same_window cs es'" "set es' \<subseteq> set cs"
    using Cons.IH [OF b1(2-5)] by blast
  moreover from this have "same_window es es'" "set es' \<subseteq> set es"
    using Cons.prems(3,4) unfolding same_window_def by simp_all
  ultimately show ?case using b1(1) by (intro exI [of _ b'] exI [of _ es']) simp
qed

subsection \<open>Properties\<close>

text \<open>what a board answers: asked for at most \<open>limit\<close> posts of a channel it gives the last ones, at
  most a thousand, of the posts accepted for the channel, in their order, where a post is accepted
  when its id is new; whatever the mixture of own posts and posts of peers.\<close>

theorem board_recent_history:
  assumes "length evs \<le> BOARD_MAX_POSTS * 10"
  shows "board_get ch limit (board_run P io enc keep evs board_new)
    = lastn (min limit BOARD_MAX_POSTS) (filter (\<lambda>p. bp_channel p = ch) (first_by_id {} (map (event_post P) evs)))"
proof -
  have "holds (accepted P evs) (board_run P io enc keep evs board_new)"
    by (rule board_run_holds [OF holds_new assms]) (simp_all add: board_new_def)
  then show ?thesis
    by (simp only: board_get_posts holds_def accepted_def lastn_lastn)
qed

theorem board_recent_history_witness:
  "board_get ''c'' 5 (board_run toy_prims (\<lambda>_. True) (\<lambda>_. None) (\<lambda>_. id)
      [BdPost [1] ''c'' ''hi'' 7 None, BdPost [1] ''c'' ''hi'' 7 None] board_new)
    = [make_post toy_prims [1] ''c'' ''hi'' 7 None]"
  by (subst board_recent_history) (simp_all add: BOARD_MAX_POSTS_def make_post_def Let_def)

text \<open>C17: Boards survive restarts. Let a node start with an empty log and take at most ten thousand posts, its own and
  those of peers, and let every post of a peer verify (the handler of posts does not check it, and a post that does
  not verify is gone after a restart). Then it can be restarted any number of times, its log compacted or not and its
  sets of ids iterated in any order: every channel is always the last thousand posts accepted for it, in their order,
  so a reader gets the same answers; the posts shown are still known, and no id is known that was not before.\<close>

theorem board_survives_restart:
  assumes "json_lines enc dec" "\<forall>e. enc e \<noteq> None" "hex_ok P"
    and "board_open P (\<lambda>_. True) enc dec keep0 path None = Inr b"
    and "\<forall>p. BdMerge p \<in> set evs \<longrightarrow> board_verify P p" "length evs \<le> BOARD_MAX_POSTS * 10"
    and "b' = board_run P (\<lambda>_. True) enc keep evs b"
  shows "\<exists>b''. board_restarts P enc dec path keeps b' = Inr b''
    \<and> (\<forall>ch. channel_posts b'' ch = lastn BOARD_MAX_POSTS (filter (\<lambda>p. bp_channel p = ch) (first_by_id {} (map (event_post P) evs))))
    \<and> board_get ch limit b'' = board_get ch limit b'
    \<and> bp_msg_id ` set (channel_posts b'' ch) \<subseteq> bd_seen b'' \<and> bd_seen b'' \<subseteq> bd_seen b'"
proof -
  have b: "b = board_new\<lparr>bd_log_path := Some path, bd_log_open := True, bd_file := Some []\<rparr>"
    using assms(4) by (simp add: board_open_def Let_def board_new_def)
  then have new: "holds [] b" "bd_log_open b" "bd_file b = Some []" by (simp_all add: holds_def channel_posts_def board_new_def)
  have ver: "\<forall>ev \<in> set evs. board_verify P (event_post P ev)"
  proof
    fix ev
    assume ev: "ev \<in> set evs"
    show "board_verify P (event_post P ev)"
    proof (cases ev)
      case (BdMerge p)
      then show ?thesis using assms(5) ev by simp
    next
      case (BdPost e ch body ts cl)
      then show ?thesis using make_post_verifies [OF assms(3)] by simp
    qed
  qed
  have h: "holds (accepted P evs) b'" unfolding assms(7) by (rule board_run_holds [OF new(1) assms(6)])
  have "logged P enc (accepted P evs) b'"
    unfolding assms(7) using run_logged [OF assms(2) new(2,1,3) assms(6) ver] by blast
  from restarts_logged [OF assms(1,2) this h, of path keeps] obtain b'' es where
    r: "board_restarts P enc dec path keeps b' = Inr b''" "holds es b''" "same_window (accepted P evs) es"
      "set es \<subseteq> set (accepted P evs)"
    by (auto simp: same_window_def)
  have posts: "channel_posts b'' c = lastn BOARD_MAX_POSTS (filter (\<lambda>p. bp_channel p = c) (accepted P evs))" for c
    using r(2,3) by (simp add: holds_def same_window_def)
  moreover have "board_get ch limit b'' = board_get ch limit b'"
    using posts [of ch] h by (simp add: board_get_posts holds_def)
  moreover have "set (channel_posts b'' ch) \<subseteq> set es"
    using r(2) set_lastn [where n = BOARD_MAX_POSTS and xs = "filter (\<lambda>p. bp_channel p = ch) es"] by (auto simp: holds_def)
  ultimately show ?thesis using r h by (intro exI [of _ b'']) (auto simp: holds_def accepted_def)
qed

text \<open>A codec of posts for the witness.\<close>

fun toy_put :: "string \<Rightarrow> bytes" where
  "toy_put [] = [0]"
| "toy_put (c # cs) = 1 # of_nat (of_char c) # toy_put cs"

fun toy_take :: "bytes \<Rightarrow> string \<times> bytes" where
  "toy_take (m # b # r) = (if m = 0 then ([], b # r) else (case toy_take r of (s, r') \<Rightarrow> (char_of (unat b) # s, r')))"
| "toy_take [m] = ([], [])"
| "toy_take [] = ([], [])"

lemma toy_take_put [simp]: "toy_take (toy_put s @ r) = (s, r)"
  by (induction s) (cases r, simp_all)

definition toy_post :: "board_post \<Rightarrow> bytes" where
  "toy_post p = toy_put (bp_msg_id p) @ toy_put (bp_channel p) @ toy_put (bp_text p) @ toy_put (bp_ephem_pub p)
     @ toy_put (bp_mac p) @ to_be (bp_ts p)
     @ (case bp_cluster p of None \<Rightarrow> [] | Some c \<Rightarrow> toy_put c)"

definition toy_post_of :: "bytes \<Rightarrow> board_post" where
  "toy_post_of b0 =
     (let (i, b1) = toy_take b0; (ch, b2) = toy_take b1; (txt, b3) = toy_take b2; (e, b4) = toy_take b3;
          (m, b5) = toy_take b4
      in \<lparr> bp_msg_id = i, bp_channel = ch, bp_text = txt, bp_ts = of_be (take 8 b5), bp_ephem_pub = e, bp_mac = m,
           bp_cluster = (if drop 8 b5 = [] then None else Some (fst (toy_take (drop 8 b5)))) \<rparr>)"

lemma toy_post_of_post: "toy_post_of (toy_post p) = p"
proof -
  have "toy_put c \<noteq> []" for c by (cases c) simp_all
  moreover have "toy_take (toy_put c) = (c, [])" for c using toy_take_put [of c "[]"] by simp
  ultimately show ?thesis by (cases p) (simp add: toy_post_def toy_post_of_def split: option.splits)
qed

theorem board_survives_restart_witness:
  "\<exists>(b :: board) b''. board_restarts toy_prims (\<lambda>e. Some (toy_line (toy_post e))) (\<lambda>l. map_option toy_post_of (toy_unline l))
      ''p'' [\<lambda>_. id, \<lambda>_ _. {}] b = Inr b'' \<and> bd_file b \<noteq> Some []
    \<and> board_get ''c'' 5 b'' = [make_post toy_prims [1] ''c'' ''hi'' 7 None]"
proof -
  let ?enc = "\<lambda>e. Some (toy_line (toy_post e))" and ?dec = "\<lambda>l. map_option toy_post_of (toy_unline l)"
  have j: "json_lines ?enc ?dec" by (rule toy_json_lines) (rule toy_post_of_post)
  obtain b where b: "board_open toy_prims (\<lambda>_. True) ?enc ?dec (\<lambda>_. id) ''p'' None = Inr b"
    by (simp add: board_open_def Let_def)
  let ?b' = "board_run toy_prims (\<lambda>_. True) ?enc (\<lambda>_. id) [BdPost [1] ''c'' ''hi'' 7 None] b"
  have new: "b = board_new\<lparr>bd_log_path := Some ''p'', bd_log_open := True, bd_file := Some []\<rparr>"
    using b by (simp add: board_open_def Let_def board_new_def)
  have "board_get ''c'' 5 ?b' = [make_post toy_prims [1] ''c'' ''hi'' 7 None] \<and> bd_file ?b' \<noteq> Some []"
    unfolding new
    by (simp add: board_run_def board_new_def board_post_new_def board_insert_def board_insert_mem_def board_append_log_def
        board_get_def Let_def BOARD_MAX_POSTS_def make_post_def writeln_def)
  with board_survives_restart [OF j _ _ b, of "[BdPost [1] ''c'' ''hi'' 7 None]" ?b' "\<lambda>_. id" "[\<lambda>_. id, \<lambda>_ _. {}]" "''c''" 5]
  show ?thesis by (auto simp: BOARD_MAX_POSTS_def)
qed

text \<open>the checksum of a post does not fix where the channel ends: a post can be moved to another
  channel by moving text between the two fields and it still verifies.\<close>

theorem board_mac_ambiguous:
  assumes "bp_channel p = ch @ '':'' @ rest" "board_verify P p"
  shows "board_verify P (p\<lparr>bp_channel := ch, bp_text := rest @ '':'' @ bp_text p\<rparr>)"
  using assms by (simp add: board_verify_def mac_data_def split: option.splits)

theorem board_mac_ambiguous_witness:
  "board_verify toy_prims ((make_post toy_prims [1] ''a:b'' ''c'' 7 None)\<lparr>bp_channel := ''a'', bp_text := ''b:c''\<rparr>)"
  using board_mac_ambiguous [of "make_post toy_prims [1] ''a:b'' ''c'' 7 None" "''a''" "''b''" toy_prims]
    make_post_verifies [of toy_prims "[1]" "''a:b''" "''c''" 7 None]
  by (simp add: make_post_def Let_def)

end
