(* ===== verification/ClientAuth.thy ===== *)
theory ClientAuth
  imports Utf8
begin

section \<open>Client authorisation of hidden services\<close>

text \<open>
  phinet-core/src/client_auth.rs: the introduction point of a restricted service, encrypted under a key
  that is wrapped for each authorised client. Random draws (the key, the nonce, one ephemeral secret
  for each client) and the JSON of the introduction point are arguments.

  Shown: every authorised client recovers exactly the introduction point that was published, and
  whatever a client recovers was wrapped for its own key.
\<close>

record intro_point_secret =
  is_intro_pub :: string
  is_intro_host :: "string option"
  is_intro_port :: "u16 option"
  is_intro_node_id :: string

record client_auth_entry =
  ca_ephemeral_pub :: string
  ca_encrypted_key :: string

record client_auth_block =
  cb_encrypted_intro :: string
  cb_intro_nonce :: string
  cb_clients :: "client_auth_entry list"

type_synonym intro_encoder = "intro_point_secret \<Rightarrow> bytes option"
type_synonym intro_decoder = "bytes \<Rightarrow> intro_point_secret option"

definition INTRO_AAD :: bytes where "INTRO_AAD = ascii ''phinet-client-auth-intro-v1''"
definition WRAP_AAD :: bytes where "WRAP_AAD = ascii ''phinet-client-auth-wrap-v1''"

definition derive_wrap_key :: "prims \<Rightarrow> bytes \<Rightarrow> bytes \<Rightarrow> bytes \<Rightarrow> bytes" where
  "derive_wrap_key P dh_output ephemeral_pub client_pub =
     (let salt = p_sha256 P (ascii ''phinet-client-auth-v1'' @ ephemeral_pub @ client_pub)
      in p_hkdf_expand P (p_hkdf_extract P salt dh_output) (ascii ''client-auth-wrap-key'') 32)"

definition wrap_key_for_client :: "prims \<Rightarrow> bytes \<Rightarrow> bytes \<Rightarrow> bytes \<Rightarrow> client_auth_entry" where
  "wrap_key_for_client P ephemeral key_k client_pub =
     (let ephemeral_pub = p_x25519_pub P ephemeral;
          aead_key = derive_wrap_key P (p_x25519 P ephemeral client_pub) ephemeral_pub client_pub;
          encrypted = p_aead_seal P aead_key (replicate 12 0) WRAP_AAD key_k
      in \<lparr> ca_ephemeral_pub = p_hex_encode P ephemeral_pub, ca_encrypted_key = p_hex_encode P encrypted \<rparr>)"

definition encrypt_intro_for_clients ::
  "prims \<Rightarrow> intro_encoder \<Rightarrow> bytes \<Rightarrow> bytes \<Rightarrow> bytes list \<Rightarrow> intro_point_secret \<Rightarrow> bytes list \<Rightarrow> client_auth_block result" where
  "encrypt_intro_for_clients P ser key_k intro_nonce ephemerals intro client_pubs =
     (if client_pubs = [] then Inl (Crypto ''client_auth: refusing to encrypt with zero authorized clients'')
      else (case ser intro of
              None \<Rightarrow> Inl (Crypto ''client_auth: serialize intro'')
            | Some intro_json \<Rightarrow>
                Inr \<lparr> cb_encrypted_intro = p_hex_encode P (p_aead_seal P key_k intro_nonce INTRO_AAD intro_json),
                      cb_intro_nonce = p_hex_encode P intro_nonce,
                      cb_clients = map (\<lambda>(e, pub). wrap_key_for_client P e key_k pub) (zip ephemerals client_pubs) \<rparr>))"

text \<open>The key of the first entry that opens under the client's secret.\<close>

definition unwrap_entry :: "prims \<Rightarrow> bytes \<Rightarrow> client_auth_entry \<Rightarrow> bytes option" where
  "unwrap_entry P client_secret entry =
     (case hex_array P 32 (ca_ephemeral_pub entry) of
        None \<Rightarrow> None
      | Some ephemeral_pub \<Rightarrow>
          let aead_key = derive_wrap_key P (p_x25519 P client_secret ephemeral_pub) ephemeral_pub
                (p_x25519_pub P client_secret) in
          (case p_hex_decode P (ca_encrypted_key entry) of
             None \<Rightarrow> None
           | Some encrypted \<Rightarrow>
               (case p_aead_open P aead_key (replicate 12 0) WRAP_AAD encrypted of
                  None \<Rightarrow> None
                | Some plain \<Rightarrow> to_array 32 plain)))"

fun find_key :: "prims \<Rightarrow> bytes \<Rightarrow> client_auth_entry list \<Rightarrow> bytes option" where
  "find_key P client_secret [] = None"
| "find_key P client_secret (e # es) =
     (case unwrap_entry P client_secret e of Some k \<Rightarrow> Some k | None \<Rightarrow> find_key P client_secret es)"

definition decrypt_intro_with_client_secret ::
  "prims \<Rightarrow> intro_decoder \<Rightarrow> client_auth_block \<Rightarrow> bytes \<Rightarrow> intro_point_secret option result" where
  "decrypt_intro_with_client_secret P de block client_secret =
     (case find_key P client_secret (cb_clients block) of
        None \<Rightarrow> Inr None
      | Some key_k \<Rightarrow>
          and_then (ok_or (Crypto ''client_auth: nonce hex'') (p_hex_decode P (cb_intro_nonce block))) (\<lambda>nonce.
          if length nonce \<noteq> 12 then Inl (Crypto ''client_auth: nonce size'')
          else
            and_then (ok_or (Crypto ''client_auth: intro hex'') (p_hex_decode P (cb_encrypted_intro block))) (\<lambda>ct.
            and_then (ok_or (Crypto ''client_auth: intro AEAD decrypt failed'') (p_aead_open P key_k nonce INTRO_AAD ct)) (\<lambda>js.
            and_then (ok_or (Crypto ''client_auth: parse intro'') (de js)) (\<lambda>intro. Inr (Some intro))))))"

subsection \<open>Authorised clients\<close>

definition intro_json :: "intro_encoder \<Rightarrow> intro_decoder \<Rightarrow> bool" where
  "intro_json ser de \<longleftrightarrow> (\<forall>i b. ser i = Some b \<longrightarrow> de b = Some i)"

lemma unwrap_own:
  assumes "hex_ok P" "dh_ok P" "aead_ok P" "length key_k = 32"
  shows "unwrap_entry P s (wrap_key_for_client P e key_k (p_x25519_pub P s)) = Some key_k"
proof -
  have "p_x25519 P e (p_x25519_pub P s) = p_x25519 P s (p_x25519_pub P e)" "length (p_x25519_pub P e) = 32"
    using assms(2) by (simp_all add: dh_ok_def)
  then show ?thesis
    using assms by (simp add: unwrap_entry_def wrap_key_for_client_def Let_def hex_ok_def aead_ok_def to_array_def)
qed

text \<open>An entry that opens under a secret carries what sealing for that secret's key would carry.\<close>

definition wrapped_for :: "prims \<Rightarrow> bytes \<Rightarrow> bytes \<Rightarrow> client_auth_entry \<Rightarrow> bool" where
  "wrapped_for P s key_k entry \<longleftrightarrow> (\<exists>ephemeral_pub.
     p_hex_decode P (ca_ephemeral_pub entry) = Some ephemeral_pub \<and> length ephemeral_pub = 32 \<and>
     p_hex_decode P (ca_encrypted_key entry)
       = Some (p_aead_seal P (derive_wrap_key P (p_x25519 P s ephemeral_pub) ephemeral_pub (p_x25519_pub P s))
           (replicate 12 0) WRAP_AAD key_k))"

lemma unwrap_wrapped:
  assumes "aead_exact P" "unwrap_entry P s entry = Some key_k"
  shows "wrapped_for P s key_k entry \<and> length key_k = 32"
proof -
  from assms(2) obtain eph ct where e: "hex_array P 32 (ca_ephemeral_pub entry) = Some eph"
      "p_hex_decode P (ca_encrypted_key entry) = Some ct"
      "p_aead_open P (derive_wrap_key P (p_x25519 P s eph) eph (p_x25519_pub P s)) (replicate 12 0) WRAP_AAD ct = Some key_k"
      "length key_k = 32"
    by (simp add: unwrap_entry_def Let_def to_array_def split: option.splits if_splits)
  moreover have "ct = p_aead_seal P (derive_wrap_key P (p_x25519 P s eph) eph (p_x25519_pub P s))
      (replicate 12 0) WRAP_AAD key_k"
    using assms(1) e(3) unfolding aead_exact_def by blast
  ultimately show ?thesis unfolding wrapped_for_def hex_array_Some by blast
qed

lemma find_key_Some: "find_key P s es = Some k \<Longrightarrow> \<exists>e \<in> set es. unwrap_entry P s e = Some k"
proof (induction es)
  case (Cons e es)
  then show ?case by (cases "unwrap_entry P s e") simp_all
qed simp

text \<open>No entry made for another client opens under the secret: what the cipher is relied on for.\<close>

definition entries_separate :: "prims \<Rightarrow> bytes \<Rightarrow> client_auth_entry list \<Rightarrow> bytes \<Rightarrow> bool" where
  "entries_separate P s es key_k \<longleftrightarrow> (\<forall>e \<in> set es. \<forall>k. unwrap_entry P s e = Some k \<longrightarrow> k = key_k)"

lemma find_key_own:
  assumes "e \<in> set es" "unwrap_entry P s e = Some k" "entries_separate P s es k"
  shows "find_key P s es = Some k"
  using assms
proof (induction es)
  case (Cons a es)
  show ?case
  proof (cases "unwrap_entry P s a")
    case None
    then have "e \<in> set es" using Cons.prems(1,2) by auto
    moreover have "entries_separate P s es k" using Cons.prems(3) by (simp add: entries_separate_def)
    ultimately show ?thesis using Cons.IH Cons.prems(2) None by simp
  next
    case (Some k')
    then show ?thesis using Cons.prems(3) by (simp add: entries_separate_def)
  qed
qed simp

lemma decrypt_own:
  assumes laws: "hex_ok P" "dh_ok P" "aead_ok P" "intro_json ser de"
    and enc: "encrypt_intro_for_clients P ser key_k nonce ephemerals intro pubs = Inr block"
    and len: "length key_k = 32" "length nonce = 12" "length ephemerals = length pubs"
    and mem: "p_x25519_pub P s \<in> set pubs" and sep: "entries_separate P s (cb_clients block) key_k"
  shows "decrypt_intro_with_client_secret P de block s = Inr (Some intro)"
proof -
  from enc obtain js where js: "ser intro = Some js" and block: "block =
      \<lparr> cb_encrypted_intro = p_hex_encode P (p_aead_seal P key_k nonce INTRO_AAD js),
        cb_intro_nonce = p_hex_encode P nonce,
        cb_clients = map (\<lambda>(e, pub). wrap_key_for_client P e key_k pub) (zip ephemerals pubs) \<rparr>"
    by (auto simp: encrypt_intro_for_clients_def split: if_splits option.splits)
  from mem obtain i where i: "i < length pubs" "pubs ! i = p_x25519_pub P s" by (auto simp: in_set_conv_nth)
  then have "(ephemerals ! i, p_x25519_pub P s) \<in> set (zip ephemerals pubs)"
    using len(3) by (auto simp: set_zip)
  then have "wrap_key_for_client P (ephemerals ! i) key_k (p_x25519_pub P s) \<in> set (cb_clients block)"
    unfolding block by force
  from find_key_own [OF this unwrap_own [OF laws(1-3) len(1)] sep]
  have "find_key P s (cb_clients block) = Some key_k" .
  then show ?thesis
    using laws js len(2) by (simp add: decrypt_intro_with_client_secret_def block hex_ok_def aead_ok_def intro_json_def)
qed

end
