(* ===== verification/EdBlind.thy ===== *)
theory EdBlind
  imports Utf8
begin

section \<open>Blinded Ed25519 keys\<close>

text \<open>
  Scalar arithmetic of Ed25519 and the two blinding schemes built on it: phinet-core/src/hs_blind.rs
  (keys blinded per time period and shared random value) and the scalar part of
  phinet-core/src/hs_identity.rs (keys blinded per epoch). Scalars are natural numbers modulo the
  group order; the group itself, SHA-512 and the verifier are third-party code, a record
  \<open>ed_curve\<close> whose laws (\<open>curve_ok\<close>) are those of RFC 8032: scalar multiples of the base point multiply,
  compressed points decompress, and the verifier accepts what the signing equation gives.

  Shown: the blinded public key computed from the identity key alone is the public key of the blinded
  secret, and what the blinded secret signs verifies under it.
\<close>

subsection \<open>Scalars\<close>

definition ED_L :: nat where "ED_L = 2 ^ 252 + 27742317777372353535851937790883648493"

definition le_nat :: "bytes \<Rightarrow> nat" where
  "le_nat bs = foldr (\<lambda>b acc. unat b + 256 * acc) bs 0"

definition le_bytes :: "nat \<Rightarrow> nat \<Rightarrow> bytes" where
  "le_bytes k n = map (\<lambda>i. of_nat (n div 256 ^ i)) [0..<k]"

text \<open>\<open>Scalar::from_bytes_mod_order\<close> and its wide variant, for 32 and 64 bytes.\<close>

definition scalar_of :: "bytes \<Rightarrow> nat" where
  "scalar_of bs = le_nat bs mod ED_L"

definition scalar_bytes :: "nat \<Rightarrow> bytes" where
  "scalar_bytes s = le_bytes 32 s"

definition clamp :: "bytes \<Rightarrow> bytes" where
  "clamp b = (let b1 = b[0 := b ! 0 AND 248]; b2 = b1[31 := b1 ! 31 AND 127] in b2[31 := b2 ! 31 OR 64])"

definition scalar_mul :: "nat \<Rightarrow> nat \<Rightarrow> nat" where
  "scalar_mul a b = (a * b) mod ED_L"

definition scalar_add :: "nat \<Rightarrow> nat \<Rightarrow> nat" where
  "scalar_add a b = (a + b) mod ED_L"

lemma scalar_less [simp]: "scalar_of bs < ED_L" "scalar_mul a b < ED_L" "scalar_add a b < ED_L"
  by (simp_all add: scalar_of_def scalar_mul_def scalar_add_def ED_L_def)

subsection \<open>The curve\<close>

record 'p ed_curve =
  ec_decompress :: "bytes \<Rightarrow> 'p option"
  ec_compress :: "'p \<Rightarrow> bytes"
  ec_mul :: "nat \<Rightarrow> 'p \<Rightarrow> 'p"
  ec_base :: 'p
  ec_sha512 :: "bytes \<Rightarrow> bytes"

text \<open>The public key of a seed, as \<open>SigningKey\<close> computes it.\<close>

definition secret_scalar :: "'p ed_curve \<Rightarrow> bytes \<Rightarrow> nat" where
  "secret_scalar C seed = scalar_of (clamp (take 32 (ec_sha512 C seed)))"

definition base_point :: "'p ed_curve \<Rightarrow> nat \<Rightarrow> bytes" where
  "base_point C s = ec_compress C (ec_mul C s (ec_base C))"

definition curve_ok :: "prims \<Rightarrow> 'p ed_curve \<Rightarrow> bool" where
  "curve_ok P C \<longleftrightarrow> (\<forall>a. a < ED_L \<longrightarrow>
          ec_decompress C (base_point C a) = Some (ec_mul C a (ec_base C)) \<and> length (base_point C a) = 32)
     \<and> (\<forall>a b. a < ED_L \<longrightarrow> b < ED_L \<longrightarrow>
          ec_mul C a (ec_mul C b (ec_base C)) = ec_mul C (scalar_mul a b) (ec_base C))
     \<and> (\<forall>m. length (ec_sha512 C m) = 64)
     \<and> (\<forall>seed. p_ed_public P seed = base_point C (secret_scalar C seed))
     \<and> (\<forall>a. a < ED_L \<longrightarrow> p_ed_key_ok P (base_point C a))
     \<and> (\<forall>a r m. a < ED_L \<longrightarrow> r < ED_L \<longrightarrow>
          p_ed_verify P (base_point C a) m
            (base_point C r @ scalar_bytes
              (scalar_add r (scalar_mul (scalar_of (ec_sha512 C (base_point C r @ base_point C a @ m))) a))))"

lemma curve_mul: "curve_ok P C \<Longrightarrow> a < ED_L \<Longrightarrow> b < ED_L \<Longrightarrow>
    ec_compress C (ec_mul C a (ec_mul C b (ec_base C))) = base_point C (scalar_mul a b)"
  by (simp add: curve_ok_def base_point_def)

lemma curve_decompress: "curve_ok P C \<Longrightarrow> a < ED_L \<Longrightarrow>
    ec_decompress C (base_point C a) = Some (ec_mul C a (ec_base C)) \<and> length (base_point C a) = 32"
  by (simp add: curve_ok_def)

lemma curve_verify: "curve_ok P C \<Longrightarrow> a < ED_L \<Longrightarrow> r < ED_L \<Longrightarrow>
    k = scalar_of (ec_sha512 C (base_point C r @ base_point C a @ m)) \<Longrightarrow>
    p_ed_verify P (base_point C a) m (base_point C r @ scalar_bytes (scalar_add r (scalar_mul k a)))"
  by (simp add: curve_ok_def)

subsection \<open>Keys blinded per period\<close>

definition BLIND_STRING :: bytes where "BLIND_STRING = ascii ''phinet-hs-blind-v1''"

definition blinding_factor :: "'p ed_curve \<Rightarrow> bytes \<Rightarrow> u64 \<Rightarrow> string \<Rightarrow> nat" where
  "blinding_factor C identity_pub period salt =
     scalar_of (clamp (take 32 (ec_sha512 C (BLIND_STRING @ identity_pub @ to_be period @ ascii salt))))"

definition blind_public :: "'p ed_curve \<Rightarrow> bytes \<Rightarrow> u64 \<Rightarrow> string \<Rightarrow> bytes option" where
  "blind_public C identity_pub period salt =
     (case ec_decompress C identity_pub of
        None \<Rightarrow> None
      | Some a \<Rightarrow> Some (ec_compress C (ec_mul C (blinding_factor C identity_pub period salt) a)))"

record blinded_signing_key =
  bk_scalar :: nat
  bk_prefix :: bytes
  bk_public :: bytes

definition blind_secret :: "'p ed_curve \<Rightarrow> bytes \<Rightarrow> u64 \<Rightarrow> string \<Rightarrow> blinded_signing_key" where
  "blind_secret C seed period salt =
     (let hash = ec_sha512 C seed;
          a = scalar_of (clamp (take 32 hash));
          identity_pub = base_point C a;
          h = blinding_factor C identity_pub period salt;
          blinded_scalar = scalar_mul h a;
          pd = ec_sha512 C (ascii ''phinet-hs-blind-prefix-v1'' @ drop 32 hash @ to_be period @ ascii salt)
      in \<lparr> bk_scalar = blinded_scalar, bk_prefix = take 32 pd, bk_public = base_point C blinded_scalar \<rparr>)"

definition sign_blinded :: "'p ed_curve \<Rightarrow> blinded_signing_key \<Rightarrow> bytes \<Rightarrow> bytes" where
  "sign_blinded C k msg =
     (let r = scalar_of (ec_sha512 C (bk_prefix k @ msg));
          cap_r = base_point C r;
          kh = scalar_of (ec_sha512 C (cap_r @ bk_public k @ msg))
      in cap_r @ scalar_bytes (scalar_add r (scalar_mul kh (bk_scalar k))))"

definition verify_blinded :: "prims \<Rightarrow> bytes \<Rightarrow> bytes \<Rightarrow> bytes \<Rightarrow> bool" where
  "verify_blinded P blinded_pub msg sig = (if \<not> p_ed_key_ok P blinded_pub then False else p_ed_verify P blinded_pub msg sig)"

subsection \<open>Keys blinded per epoch\<close>

definition BLIND_V2_TAG :: bytes where "BLIND_V2_TAG = ascii ''phi-hs-blind-v2-scalar:''"
definition BLIND_V2_NONCE_TAG :: bytes where "BLIND_V2_NONCE_TAG = ascii ''phi-hs-blind-v2-nonce:''"

definition blinding_scalar_v2 :: "'p ed_curve \<Rightarrow> bytes \<Rightarrow> u64 \<Rightarrow> nat" where
  "blinding_scalar_v2 C identity_pub epoch =
     scalar_of (ec_sha512 C (BLIND_V2_TAG @ identity_pub @ to_be epoch))"

definition expand_ed25519_secret :: "'p ed_curve \<Rightarrow> bytes \<Rightarrow> nat \<times> bytes" where
  "expand_ed25519_secret C seed =
     (let hash = ec_sha512 C seed in (scalar_of (clamp (take 32 hash)), drop 32 hash))"

definition derive_blinded_pub_v2 :: "'p ed_curve \<Rightarrow> bytes \<Rightarrow> u64 \<Rightarrow> bytes result" where
  "derive_blinded_pub_v2 C identity_pub epoch =
     (case ec_decompress C identity_pub of
        None \<Rightarrow> Inl (Crypto ''identity_pub is not a valid Ed25519 point'')
      | Some a \<Rightarrow> Inr (ec_compress C (ec_mul C (blinding_scalar_v2 C identity_pub epoch) a)))"

definition sign_blinded_v2 :: "'p ed_curve \<Rightarrow> bytes \<Rightarrow> bytes \<Rightarrow> u64 \<Rightarrow> bytes \<Rightarrow> bytes" where
  "sign_blinded_v2 C seed identity_pub epoch msg =
     (let (s, prefix) = expand_ed25519_secret C seed;
          h = blinding_scalar_v2 C identity_pub epoch;
          s_blinded = scalar_mul h s;
          a_blinded = base_point C s_blinded;
          prefix_blinded = ec_sha512 C (BLIND_V2_NONCE_TAG @ prefix @ to_be epoch);
          r = scalar_of (ec_sha512 C (prefix_blinded @ msg));
          r_bytes = base_point C r;
          k = scalar_of (ec_sha512 C (r_bytes @ a_blinded @ msg))
      in r_bytes @ scalar_bytes (scalar_add r (scalar_mul k s_blinded)))"

lemma length_scalar_bytes [simp]: "length (scalar_bytes s) = 32"
  by (simp add: scalar_bytes_def le_bytes_def)

lemma derive_blinded_pub_v2_own:
  assumes "curve_ok P C"
  shows "derive_blinded_pub_v2 C (p_ed_public P seed) epoch
    = Inr (base_point C (scalar_mul (blinding_scalar_v2 C (p_ed_public P seed) epoch) (secret_scalar C seed)))"
proof -
  have "p_ed_public P seed = base_point C (secret_scalar C seed)" using assms by (simp add: curve_ok_def)
  then show ?thesis
    using curve_decompress [OF assms] curve_mul [OF assms]
    by (simp add: derive_blinded_pub_v2_def blinding_scalar_v2_def secret_scalar_def)
qed

lemma sign_blinded_v2_verifies:
  assumes "curve_ok P C"
  shows "p_ed_verify P (base_point C (scalar_mul (blinding_scalar_v2 C ident epoch) (secret_scalar C seed))) msg
      (sign_blinded_v2 C seed ident epoch msg)"
  and "length (sign_blinded_v2 C seed ident epoch msg) = 64"
  using curve_decompress [OF assms] curve_verify [OF assms]
  by (simp_all add: sign_blinded_v2_def expand_ed25519_secret_def Let_def secret_scalar_def)

subsection \<open>A curve for the witnesses\<close>

text \<open>The additive group modulo the order, with 1 as base point, and the verification equation.\<close>

definition toy_curve :: "nat ed_curve" where
  "toy_curve = \<lparr>
     ec_decompress = (\<lambda>b. if length b = 32 \<and> le_nat b < ED_L then Some (le_nat b) else None),
     ec_compress = (\<lambda>p. scalar_bytes (p mod ED_L)),
     ec_mul = (\<lambda>a p. (a * p) mod ED_L),
     ec_base = 1,
     ec_sha512 = (\<lambda>m. replicate 63 1 @ [foldl (+) 1 m]) \<rparr>"

definition toy_ed_prims :: prims where
  "toy_ed_prims = toy_prims\<lparr>
     p_ed_public := (\<lambda>seed. base_point toy_curve (secret_scalar toy_curve seed)),
     p_ed_key_ok := (\<lambda>k. True),
     p_ed_verify := (\<lambda>A m sig. le_nat (drop 32 sig) =
        scalar_add (le_nat (take 32 sig))
          (scalar_mul (scalar_of (ec_sha512 toy_curve (take 32 sig @ A @ m))) (le_nat A))) \<rparr>"

lemma le_nat_Nil [simp]: "le_nat [] = 0"
  by (simp add: le_nat_def)

lemma le_nat_Cons [simp]: "le_nat (b # bs) = unat b + 256 * le_nat bs"
  by (simp add: le_nat_def)

lemma le_nat_bytes: "n < 256 ^ k \<Longrightarrow> le_nat (le_bytes k n) = n"
proof (induction k arbitrary: n)
  case (Suc k)
  have "map (\<lambda>i. of_nat (n div 256 ^ i) :: u8) [0..<Suc k]
      = of_nat (n div 256 ^ 0) # map (\<lambda>i. of_nat (n div 256 ^ Suc i)) [0..<k]"
    by (rule map_upt_Suc)
  then have "le_bytes (Suc k) n = of_nat n # le_bytes k (n div 256)"
    by (simp add: le_bytes_def div_mult2_eq del: upt_Suc)
  moreover have "n div 256 < 256 ^ k" using Suc.prems by (simp add: less_mult_imp_div_less mult.commute)
  ultimately show ?case using Suc.IH [of "n div 256"] by (simp add: unat_of_nat)
qed (simp add: le_bytes_def)

lemma le_nat_scalar_bytes [simp]: "s < ED_L \<Longrightarrow> le_nat (scalar_bytes s) = s"
  unfolding scalar_bytes_def by (rule le_nat_bytes) (simp add: ED_L_def)

lemma toy_base_point: "a < ED_L \<Longrightarrow> base_point toy_curve a = scalar_bytes a"
  by (simp add: base_point_def toy_curve_def)

lemma toy_curve_ok [simp]: "curve_ok toy_ed_prims toy_curve"
  unfolding curve_ok_def
proof (intro conjI allI impI)
  fix a b r :: nat and m seed
  assume a: "a < ED_L"
  show "ec_decompress toy_curve (base_point toy_curve a) = Some (ec_mul toy_curve a (ec_base toy_curve))"
    using a by (simp add: toy_base_point) (simp add: toy_curve_def)
  show "length (base_point toy_curve a) = 32" using a by (simp add: toy_base_point)
  show "p_ed_key_ok toy_ed_prims (base_point toy_curve a)" by (simp add: toy_ed_prims_def)
  show "ec_mul toy_curve a (ec_mul toy_curve b (ec_base toy_curve))
      = ec_mul toy_curve (scalar_mul a b) (ec_base toy_curve)" if "b < ED_L"
    by (simp add: toy_curve_def scalar_mul_def mod_mult_right_eq)
  show "p_ed_verify toy_ed_prims (base_point toy_curve a) m
      (base_point toy_curve r @ scalar_bytes (scalar_add r (scalar_mul
        (scalar_of (ec_sha512 toy_curve (base_point toy_curve r @ base_point toy_curve a @ m))) a)))"
    if r: "r < ED_L"
    using a r by (simp add: toy_ed_prims_def toy_base_point)
next
  show "length (ec_sha512 toy_curve m) = 64" for m by (simp add: toy_curve_def)
  show "p_ed_public toy_ed_prims seed = base_point toy_curve (secret_scalar toy_curve seed)" for seed
    by (simp add: toy_ed_prims_def)
qed

lemma toy_ed_laws [simp]:
  "hex_ok toy_ed_prims" "hex_lower toy_ed_prims" "sha256_ok toy_ed_prims" "dh_ok toy_ed_prims" "kdf_ok toy_ed_prims"
  "aead_ok toy_ed_prims" "aead_exact toy_ed_prims"
  using toy_ok by (simp_all add: toy_ed_prims_def hex_ok_def hex_lower_def sha256_ok_def dh_ok_def kdf_ok_def
      aead_ok_def aead_exact_def)

subsection \<open>Properties\<close>

text \<open>blinding by the holder of the secret and by everybody else agree: from the public identity key
  alone one gets the public key of the blinded secret, for every period and salt, and what is signed
  with the blinded secret verifies under that key.\<close>

theorem blinded_keys_agree:
  assumes "curve_ok P C"
  shows "blind_public C (p_ed_public P seed) period salt = Some (bk_public (blind_secret C seed period salt))
    \<and> verify_blinded P (bk_public (blind_secret C seed period salt)) msg
        (sign_blinded C (blind_secret C seed period salt) msg)"
proof -
  have pub: "p_ed_public P seed = base_point C (secret_scalar C seed)" using assms by (simp add: curve_ok_def)
  have bs: "blind_secret C seed period salt = \<lparr>
      bk_scalar = scalar_mul (blinding_factor C (p_ed_public P seed) period salt) (secret_scalar C seed),
      bk_prefix = bk_prefix (blind_secret C seed period salt),
      bk_public = base_point C (scalar_mul (blinding_factor C (p_ed_public P seed) period salt) (secret_scalar C seed)) \<rparr>"
    by (simp add: blind_secret_def Let_def pub secret_scalar_def)
  have key: "a < ED_L \<Longrightarrow> p_ed_key_ok P (base_point C a)" for a using assms by (simp add: curve_ok_def)
  have "secret_scalar C seed < ED_L" "blinding_factor C i period salt < ED_L" for i
    by (simp_all add: secret_scalar_def blinding_factor_def)
  then have "blind_public C (p_ed_public P seed) period salt
      = Some (base_point C (scalar_mul (blinding_factor C (p_ed_public P seed) period salt) (secret_scalar C seed)))"
    using curve_decompress [OF assms] curve_mul [OF assms] by (simp add: blind_public_def pub)
  moreover have "p_ed_verify P (bk_public (blind_secret C seed period salt)) msg
        (sign_blinded C (blind_secret C seed period salt) msg)"
    by (subst (1 2) bs) (simp add: sign_blinded_def Let_def curve_verify [OF assms])
  moreover have "bk_public (blind_secret C seed period salt)
      = base_point C (scalar_mul (blinding_factor C (p_ed_public P seed) period salt) (secret_scalar C seed))"
    using bs by (metis blinded_signing_key.select_convs(3))
  ultimately show ?thesis by (simp add: verify_blinded_def key)
qed

theorem blinded_keys_agree_witness:
  "blind_public toy_curve (p_ed_public toy_ed_prims [1]) 5 ''s'' = Some (bk_public (blind_secret toy_curve [1] 5 ''s''))"
  using blinded_keys_agree [OF toy_curve_ok] by blast

end
