(* ===== verification/SignedFields.thy ===== *)
theory SignedFields
  imports Directory
begin

section \<open>Signed bytes field by field\<close>

text \<open>
  Descriptors are signed over fields that are length-prefixed or of fixed width. These equations take
  an equality of such encodings apart, one field at a time.
\<close>

lemma lp_iff [simp]:
  "fits32 s \<Longrightarrow> fits32 t \<Longrightarrow> lp_string s @ x = lp_string t @ y \<longleftrightarrow> s = t \<and> x = y"
  "fits32 s \<Longrightarrow> fits32 t \<Longrightarrow> lp_string s = lp_string t \<longleftrightarrow> s = t"
  using lp.cancel [of s t x y] lp.cancel [of s t "[]" "[]"] by auto

lemma to_be_iff [simp]:
  "to_be (a :: u16) @ x = to_be b @ y \<longleftrightarrow> a = b \<and> x = y"
  "to_be (c :: u32) @ x = to_be d @ y \<longleftrightarrow> c = d \<and> x = y"
  "to_be (e :: u64) @ x = to_be f @ y \<longleftrightarrow> e = f \<and> x = y"
  by (simp_all add: append_eq_append_conv)

lemma fits32_Nil [simp]: "fits32 []"
  by (simp add: fits32_def)

end
