(* ===== verification/HsIdentity.thy ===== *)
theory HsIdentity
  imports ClientAuth EdBlind SignedFields
begin

section \<open>Identities and descriptors of hidden services\<close>

text \<open>
  phinet-core/src/hs_identity.rs and the descriptor of phinet-core/src/wire.rs. The identity of a service
  is an Ed25519 seed; its descriptor names the introduction point, carries the key blinded for the
  epoch and is signed with the blinded secret. The current epoch is an argument, as are the JSON of the
  identity file and the outcome of file operations.

  Shown: what an identity signs verifies in the epoch and its neighbours; a descriptor that verifies
  names the identity its id is derived from, carries the key derived from that identity, and its
  signature covers every field.
\<close>

definition EPOCH_DAY_SECS :: u64 where "EPOCH_DAY_SECS = 86400"
definition HS_ID_TAG :: bytes where "HS_ID_TAG = ascii ''phi-hs-v1:''"
definition BLIND_TAG :: bytes where "BLIND_TAG = ascii ''phi-hs-blind-v1:''"

record hs_descriptor =
  hd_hs_id :: string
  hd_name :: string
  hd_intro_pub :: string
  hd_intro_host :: "string option"
  hd_intro_port :: "u16 option"
  hd_intro_node_id :: string
  hd_identity_pub :: string
  hd_epoch :: u64
  hd_sig :: string
  hd_blinded_pub :: string
  hd_client_auth :: "client_auth_block option"

definition hs_current_epoch :: "u64 \<Rightarrow> u64" where
  "hs_current_epoch now_secs = now_secs div EPOCH_DAY_SECS"

subsection \<open>The identity\<close>

definition derive_hs_id :: "prims \<Rightarrow> bytes \<Rightarrow> string" where
  "derive_hs_id P identity_pub = p_hex_encode P (p_sha256 P (HS_ID_TAG @ identity_pub))"

definition identity_hs_id :: "prims \<Rightarrow> bytes \<Rightarrow> string" where
  "identity_hs_id P seed = derive_hs_id P (p_ed_public P seed)"

definition blind_factor :: "prims \<Rightarrow> bytes \<Rightarrow> u64 \<Rightarrow> bytes" where
  "blind_factor P identity_pub epoch = p_sha256 P (BLIND_TAG @ identity_pub @ to_be epoch)"

definition blinded_signer :: "prims \<Rightarrow> bytes \<Rightarrow> u64 \<Rightarrow> bytes" where
  "blinded_signer P seed epoch = p_sha256 P (BLIND_TAG @ seed @ blind_factor P (p_ed_public P seed) epoch)"

definition sign_with_epoch :: "prims \<Rightarrow> bytes \<Rightarrow> u64 \<Rightarrow> bytes \<Rightarrow> bytes" where
  "sign_with_epoch P seed epoch msg = p_ed_sign P (blinded_signer P seed epoch) msg"

text \<open>\<open>save\<close> gives the content of the file, \<open>load\<close> is given it.\<close>

definition identity_save :: "prims \<Rightarrow> (string \<Rightarrow> bool) \<Rightarrow> (string \<Rightarrow> string option) \<Rightarrow> bytes \<Rightarrow> string result" where
  "identity_save P io ser seed =
     (if \<not> io ''mkdir'' then Inl (Crypto ''hs_identity: mkdir'')
      else and_then (ok_or (Crypto ''hs_identity: serialize'') (ser (p_hex_encode P seed))) (\<lambda>json.
        if \<not> io ''write'' then Inl (Crypto ''hs_identity: write'') else Inr json))"

definition identity_load :: "prims \<Rightarrow> (string \<Rightarrow> string option) \<Rightarrow> string option \<Rightarrow> bytes result" where
  "identity_load P de content =
     and_then (ok_or (Crypto ''hs_identity: read'') content) (\<lambda>json.
     and_then (ok_or (Crypto ''hs_identity: parse'') (de json)) (\<lambda>secret_hex.
     and_then (ok_or (Crypto ''hs_identity: hex'') (p_hex_decode P secret_hex)) (\<lambda>raw.
     ok_or (Crypto ''hs_identity: not 32 bytes'') (to_array 32 raw))))"

subsection \<open>Descriptors\<close>

definition canonical_entry :: "client_auth_entry \<Rightarrow> bytes" where
  "canonical_entry e = lp_string (ca_ephemeral_pub e) @ lp_string (ca_encrypted_key e)"

definition canonical_auth :: "client_auth_block option \<Rightarrow> bytes" where
  "canonical_auth a =
     (case a of
        None \<Rightarrow> to_be (0 :: u32)
      | Some block \<Rightarrow>
          to_be (1 :: u32) @ lp_string (cb_encrypted_intro block) @ lp_string (cb_intro_nonce block)
          @ to_be (of_nat (length (cb_clients block)) :: u32) @ concat (map canonical_entry (cb_clients block)))"

definition canonical_descriptor_bytes :: "hs_descriptor \<Rightarrow> bytes" where
  "canonical_descriptor_bytes d =
     ascii ''phi-hs-desc-v1:'' @ lp_string (hd_hs_id d) @ lp_string (hd_name d) @ lp_string (hd_intro_pub d)
     @ lp_string (case hd_intro_host d of None \<Rightarrow> [] | Some h \<Rightarrow> h)
     @ to_be (case hd_intro_port d of None \<Rightarrow> 0 | Some p \<Rightarrow> p)
     @ lp_string (hd_identity_pub d) @ to_be (hd_epoch d) @ lp_string (hd_blinded_pub d)
     @ lp_string (hd_intro_node_id d) @ canonical_auth (hd_client_auth d)"

definition sign_descriptor ::
  "prims \<Rightarrow> 'p ed_curve \<Rightarrow> bytes \<Rightarrow> hs_descriptor \<Rightarrow> u64 \<Rightarrow> hs_descriptor outcome" where
  "sign_descriptor P C seed descriptor epoch =
     (let identity_pub = p_ed_public P seed;
          d1 = descriptor\<lparr>hd_identity_pub := p_hex_encode P identity_pub, hd_epoch := epoch, hd_sig := [],
                 hd_blinded_pub := []\<rparr>
      in case derive_blinded_pub_v2 C identity_pub epoch of
           Inl _ \<Rightarrow> Panics
         | Inr blinded_pub \<Rightarrow>
             let d2 = d1\<lparr>hd_blinded_pub := p_hex_encode P blinded_pub\<rparr>;
                 sig = sign_blinded_v2 C seed identity_pub epoch (canonical_descriptor_bytes d2)
             in Returns (d2\<lparr>hd_sig := p_hex_encode P sig\<rparr>))"

text \<open>The structure of the client authorisation block, the first bad entry failing.\<close>

fun check_entries :: "client_auth_entry list \<Rightarrow> unit result" where
  "check_entries [] = Inr ()"
| "check_entries (e # es) =
     (if length (ca_ephemeral_pub e) \<noteq> 64
      then Inl (Crypto ''descriptor: client_auth entry has bad ephemeral_pub length'')
      else if length (ca_encrypted_key e) \<noteq> 96
      then Inl (Crypto ''descriptor: client_auth entry has bad encrypted_key length'')
      else check_entries es)"

definition check_auth :: "hs_descriptor \<Rightarrow> unit result" where
  "check_auth d =
     (case hd_client_auth d of
        Some block \<Rightarrow>
          if hd_intro_pub d \<noteq> [] then Inl (Crypto ''descriptor: client_auth present but intro_pub also set'')
          else if (case hd_intro_host d of None \<Rightarrow> False | Some s \<Rightarrow> s \<noteq> [])
          then Inl (Crypto ''descriptor: client_auth present but intro_host also set'')
          else if (case hd_intro_port d of None \<Rightarrow> 0 | Some p \<Rightarrow> p) \<noteq> 0
          then Inl (Crypto ''descriptor: client_auth present but intro_port also set'')
          else if cb_clients block = []
          then Inl (Crypto ''descriptor: client_auth block has no authorized clients'')
          else check_entries (cb_clients block)
      | None \<Rightarrow>
          if hd_intro_pub d = [] then Inl (Crypto ''descriptor: no intro_pub and no client_auth block'')
          else Inr ())"

definition verify_descriptor :: "prims \<Rightarrow> 'p ed_curve \<Rightarrow> u64 \<Rightarrow> hs_descriptor \<Rightarrow> unit result" where
  "verify_descriptor P C now d =
     (if hd_identity_pub d = [] \<or> hd_sig d = [] \<or> hd_blinded_pub d = [] then Inl (Crypto ''descriptor unsigned'')
      else
        and_then (ok_or (Crypto ''descriptor: bad identity_pub hex'') (p_hex_decode P (hd_identity_pub d))) (\<lambda>identity_pub.
        if length identity_pub \<noteq> 32 then Inl (Crypto ''descriptor: identity_pub not 32 bytes'')
        else if hd_hs_id d \<noteq> derive_hs_id P identity_pub
        then Inl (Crypto ''descriptor hs_id doesn't match identity_pub'')
        else if \<not> (sat_sub now 1 \<le> hd_epoch d \<and> hd_epoch d \<le> now + 1)
        then Inl (Crypto ''descriptor epoch outside window'')
        else
          and_then (ok_or (Crypto ''descriptor: bad sig hex'') (p_hex_decode P (hd_sig d))) (\<lambda>sig.
          if length sig \<noteq> 64 then Inl (Crypto ''descriptor: sig not 64 bytes'')
          else
            and_then (ok_or (Crypto ''descriptor: bad blinded_pub hex'') (p_hex_decode P (hd_blinded_pub d))) (\<lambda>bp.
            if length bp \<noteq> 32 then Inl (Crypto ''descriptor: blinded_pub not 32 bytes'')
            else
              and_then (derive_blinded_pub_v2 C identity_pub (hd_epoch d)) (\<lambda>expected_bp.
              if expected_bp \<noteq> bp
              then Inl (Crypto ''descriptor blinded_pub doesn't match scalar-mul derivation'')
              else if \<not> p_ed_key_ok P bp then Inl (Crypto ''bad blinded_pub point'')
              else if \<not> p_ed_verify P bp (canonical_descriptor_bytes (d\<lparr>hd_sig := []\<rparr>)) sig
              then Inl (Crypto ''descriptor sig'')
              else check_auth d)))))"

subsection \<open>The signed bytes determine the descriptor\<close>

definition entry_fits :: "client_auth_entry \<Rightarrow> bool" where
  "entry_fits e \<longleftrightarrow> fits32 (ca_ephemeral_pub e) \<and> fits32 (ca_encrypted_key e)"

definition block_fits :: "client_auth_block \<Rightarrow> bool" where
  "block_fits b \<longleftrightarrow> fits32 (cb_encrypted_intro b) \<and> fits32 (cb_intro_nonce b) \<and> fits32 (cb_clients b)
     \<and> (\<forall>e \<in> set (cb_clients b). entry_fits e)"

definition descriptor_fits :: "hs_descriptor \<Rightarrow> bool" where
  "descriptor_fits d \<longleftrightarrow> fits32 (hd_hs_id d) \<and> fits32 (hd_name d) \<and> fits32 (hd_intro_pub d)
     \<and> (\<forall>h. hd_intro_host d = Some h \<longrightarrow> fits32 h) \<and> fits32 (hd_identity_pub d) \<and> fits32 (hd_blinded_pub d)
     \<and> fits32 (hd_intro_node_id d) \<and> (\<forall>b. hd_client_auth d = Some b \<longrightarrow> block_fits b)"

interpretation auth_entry: prefix_free entry_fits canonical_entry
  by unfold_locales (auto simp: entry_fits_def canonical_entry_def client_auth_entry.equality)

lemma canonical_auth_inj:
  assumes "\<forall>b. a = Some b \<longrightarrow> block_fits b" "\<forall>b. a' = Some b \<longrightarrow> block_fits b"
    and eq: "canonical_auth a = canonical_auth a'"
  shows "a = a'"
proof (cases a; cases a')
  fix b b'
  assume a: "a = Some b" "a' = Some b'"
  then have f: "block_fits b" "block_fits b'" using assms(1,2) by simp_all
  note f' = f [unfolded block_fits_def]
  have e: "cb_encrypted_intro b = cb_encrypted_intro b'" "cb_intro_nonce b = cb_intro_nonce b'"
      "(of_nat (length (cb_clients b)) :: u32) = of_nat (length (cb_clients b'))"
      "concat (map canonical_entry (cb_clients b)) = concat (map canonical_entry (cb_clients b'))"
    using eq f' by (simp_all add: a canonical_auth_def)
  have "length (cb_clients b) = length (cb_clients b')" using e(3) f' len32_inject by metis
  then have "cb_clients b = cb_clients b'"
    using auth_entry.list_cancel [of "cb_clients b" "cb_clients b'" "[]" "[]"] e(4) f' by simp
  then show ?thesis using a e by (simp add: client_auth_block.equality)
qed (use eq in \<open>auto simp: canonical_auth_def dest: arg_cong [of _ _ "take 4"]\<close>)

text \<open>What the signature covers: everything but itself, a missing host or port counting as an empty one.\<close>

definition signed_view :: "hs_descriptor \<Rightarrow> hs_descriptor" where
  "signed_view d = d\<lparr>hd_sig := [],
     hd_intro_host := Some (case hd_intro_host d of None \<Rightarrow> [] | Some h \<Rightarrow> h),
     hd_intro_port := Some (case hd_intro_port d of None \<Rightarrow> 0 | Some p \<Rightarrow> p)\<rparr>"

lemma canonical_descriptor_inj:
  assumes "descriptor_fits d" "descriptor_fits e" "canonical_descriptor_bytes d = canonical_descriptor_bytes e"
  shows "signed_view d = signed_view e"
proof -
  have h: "fits32 (case hd_intro_host d of None \<Rightarrow> [] | Some h \<Rightarrow> h)"
      "fits32 (case hd_intro_host e of None \<Rightarrow> [] | Some h \<Rightarrow> h)"
    using assms(1,2) by (auto simp: descriptor_fits_def split: option.splits)
  note f = assms(1,2) [unfolded descriptor_fits_def]
  from assms(3) f h have *: "hd_hs_id d = hd_hs_id e" "hd_name d = hd_name e" "hd_intro_pub d = hd_intro_pub e"
      "(case hd_intro_host d of None \<Rightarrow> [] | Some h \<Rightarrow> h) = (case hd_intro_host e of None \<Rightarrow> [] | Some h \<Rightarrow> h)"
      "(case hd_intro_port d of None \<Rightarrow> 0 | Some p \<Rightarrow> p) = (case hd_intro_port e of None \<Rightarrow> 0 | Some p \<Rightarrow> p)"
      "hd_identity_pub d = hd_identity_pub e" "hd_epoch d = hd_epoch e" "hd_blinded_pub d = hd_blinded_pub e"
      "hd_intro_node_id d = hd_intro_node_id e"
      "canonical_auth (hd_client_auth d) = canonical_auth (hd_client_auth e)"
    by (simp_all add: canonical_descriptor_bytes_def)
  have "hd_client_auth d = hd_client_auth e"
    by (rule canonical_auth_inj [OF _ _ *(10)]) (use f in simp_all)
  with * show ?thesis by (simp add: signed_view_def hs_descriptor.equality)
qed

lemma canonical_ignores_sig [simp]:
  "canonical_descriptor_bytes (d\<lparr>hd_sig := s\<rparr>) = canonical_descriptor_bytes d"
  "canonical_descriptor_bytes (d\<lparr>hd_identity_pub := a, hd_epoch := e, hd_sig := s, hd_blinded_pub := b\<rparr>)
    = canonical_descriptor_bytes (d\<lparr>hd_identity_pub := a, hd_epoch := e, hd_blinded_pub := b\<rparr>)"
  by (simp_all add: canonical_descriptor_bytes_def)

subsection \<open>Signing and verifying\<close>

lemma hex_facts:
  assumes "hex_ok P"
  shows "p_hex_decode P (p_hex_encode P b) = Some b" "length (p_hex_encode P b) = 2 * length b"
    "p_hex_encode P b = [] \<longleftrightarrow> b = []"
proof -
  show "p_hex_decode P (p_hex_encode P b) = Some b" and l: "length (p_hex_encode P b) = 2 * length b"
    using assms by (simp_all add: hex_ok_def)
  show "p_hex_encode P b = [] \<longleftrightarrow> b = []" using l by (metis length_0_conv mult_is_0 zero_neq_numeral)
qed

lemma verify_descriptor_InrD:
  assumes "verify_descriptor P C now d = Inr ()"
  obtains ident sig bp where "p_hex_decode P (hd_identity_pub d) = Some ident" "length ident = 32"
    "hd_hs_id d = derive_hs_id P ident" "sat_sub now 1 \<le> hd_epoch d" "hd_epoch d \<le> now + 1"
    "p_hex_decode P (hd_sig d) = Some sig" "length sig = 64"
    "p_hex_decode P (hd_blinded_pub d) = Some bp" "length bp = 32"
    "derive_blinded_pub_v2 C ident (hd_epoch d) = Inr bp" "p_ed_key_ok P bp"
    "p_ed_verify P bp (canonical_descriptor_bytes d) sig" "check_auth d = Inr ()"
proof -
  from assms obtain ident sig bp where
      "p_hex_decode P (hd_identity_pub d) = Some ident \<and> length ident = 32
        \<and> hd_hs_id d = derive_hs_id P ident \<and> sat_sub now 1 \<le> hd_epoch d \<and> hd_epoch d \<le> now + 1
        \<and> p_hex_decode P (hd_sig d) = Some sig \<and> length sig = 64
        \<and> p_hex_decode P (hd_blinded_pub d) = Some bp \<and> length bp = 32
        \<and> derive_blinded_pub_v2 C ident (hd_epoch d) = Inr bp \<and> p_ed_key_ok P bp
        \<and> p_ed_verify P bp (canonical_descriptor_bytes d) sig \<and> check_auth d = Inr ()"
    unfolding verify_descriptor_def
    by (simp add: and_then_Inr_iff not_less split: if_splits)
  then show thesis using that by blast
qed

lemma verify_descriptor_InrI:
  assumes "p_hex_decode P (hd_identity_pub d) = Some ident" "length ident = 32"
    "hd_identity_pub d \<noteq> []" "hd_sig d \<noteq> []" "hd_blinded_pub d \<noteq> []"
    "hd_hs_id d = derive_hs_id P ident" "sat_sub now 1 \<le> hd_epoch d" "hd_epoch d \<le> now + 1"
    "p_hex_decode P (hd_sig d) = Some sig" "length sig = 64"
    "p_hex_decode P (hd_blinded_pub d) = Some bp" "length bp = 32"
    "derive_blinded_pub_v2 C ident (hd_epoch d) = Inr bp" "p_ed_key_ok P bp"
    "p_ed_verify P bp (canonical_descriptor_bytes d) sig" "check_auth d = Inr ()"
  shows "verify_descriptor P C now d = Inr ()"
  using assms by (simp add: verify_descriptor_def)

lemma check_auth_signed [simp]:
  "check_auth (d\<lparr>hd_identity_pub := a\<rparr>) = check_auth d"
  "check_auth (d\<lparr>hd_epoch := e\<rparr>) = check_auth d"
  "check_auth (d\<lparr>hd_sig := s\<rparr>) = check_auth d"
  "check_auth (d\<lparr>hd_blinded_pub := b\<rparr>) = check_auth d"
  by (simp_all add: check_auth_def split: option.splits)

lemma sign_descriptor_verifies:
  assumes "hex_ok P" "curve_ok P C" "hd_hs_id d = identity_hs_id P seed" "check_auth d = Inr ()"
    and "sat_sub now 1 \<le> epoch" "epoch \<le> now + 1"
  shows "\<exists>sig. sign_descriptor P C seed d epoch = Returns (d\<lparr>hd_identity_pub := p_hex_encode P (p_ed_public P seed),
      hd_epoch := epoch,
      hd_blinded_pub := p_hex_encode P (base_point C (scalar_mul (blinding_scalar_v2 C (p_ed_public P seed) epoch)
        (secret_scalar C seed))), hd_sig := sig\<rparr>)
    \<and> verify_descriptor P C now (d\<lparr>hd_identity_pub := p_hex_encode P (p_ed_public P seed),
      hd_epoch := epoch,
      hd_blinded_pub := p_hex_encode P (base_point C (scalar_mul (blinding_scalar_v2 C (p_ed_public P seed) epoch)
        (secret_scalar C seed))), hd_sig := sig\<rparr>) = Inr ()"
proof -
  let ?pub = "p_ed_public P seed"
  let ?bp = "base_point C (scalar_mul (blinding_scalar_v2 C ?pub epoch) (secret_scalar C seed))"
  let ?d = "d\<lparr>hd_identity_pub := p_hex_encode P ?pub, hd_epoch := epoch, hd_sig := [], hd_blinded_pub := p_hex_encode P ?bp\<rparr>"
  let ?sig = "sign_blinded_v2 C seed ?pub epoch (canonical_descriptor_bytes ?d)"
  note hex = hex_facts [OF assms(1)]
  have len: "length (base_point C a) = 32" if "a < ED_L" for a using curve_decompress [OF assms(2) that] by simp
  have bp: "length ?bp = 32" "p_ed_key_ok P ?bp" using assms(2) len by (simp_all add: curve_ok_def)
  have pub: "length ?pub = 32"
    using assms(2) len by (simp add: curve_ok_def secret_scalar_def)
  have s: "length ?sig = 64" by (rule sign_blinded_v2_verifies(2) [OF assms(2)])
  have sign: "sign_descriptor P C seed d epoch = Returns (?d\<lparr>hd_sig := p_hex_encode P ?sig\<rparr>)"
    by (simp add: sign_descriptor_def derive_blinded_pub_v2_own [OF assms(2)] Let_def)
  have "verify_descriptor P C now (?d\<lparr>hd_sig := p_hex_encode P ?sig\<rparr>) = Inr ()"
    by (rule verify_descriptor_InrI [of P _ ?pub _ ?sig ?bp])
      (use assms hex bp pub s sign_blinded_v2_verifies(1) [OF assms(2)] in
        \<open>auto simp: identity_hs_id_def derive_blinded_pub_v2_own [OF assms(2)]\<close>)
  with sign show ?thesis by (intro exI [of _ "p_hex_encode P ?sig"]) simp
qed

subsection \<open>Properties\<close>

text \<open>C18: a descriptor signed by its service keeps every field as it was set, and verifies exactly in the
  epoch it was signed for and the two next to it: the tolerance of \<open>verify_descriptor\<close>. (The module comment of
  \<open>hs_identity.rs\<close> and the comment on \<open>HsDescriptor::epoch\<close> in \<open>wire.rs\<close> promise the epoch of signing only.)\<close>

theorem signed_descriptor_verifies:
  assumes "hex_ok P" "curve_ok P C" "hd_hs_id d = identity_hs_id P seed" "check_auth d = Inr ()"
  shows "\<exists>d'. sign_descriptor P C seed d epoch = Returns d'
    \<and> (\<forall>now. verify_descriptor P C now d' = Inr () \<longleftrightarrow> sat_sub now 1 \<le> epoch \<and> epoch \<le> now + 1)
    \<and> d'\<lparr>hd_identity_pub := hd_identity_pub d, hd_epoch := hd_epoch d, hd_sig := hd_sig d,
          hd_blinded_pub := hd_blinded_pub d\<rparr> = d"
proof -
  obtain d' where s: "sign_descriptor P C seed d epoch = Returns d'" "hd_epoch d' = epoch"
      "d'\<lparr>hd_identity_pub := hd_identity_pub d, hd_epoch := hd_epoch d, hd_sig := hd_sig d, hd_blinded_pub := hd_blinded_pub d\<rparr> = d"
    by (simp add: sign_descriptor_def derive_blinded_pub_v2_own [OF assms(2)] Let_def)
  have "verify_descriptor P C now d' = Inr () \<longleftrightarrow> sat_sub now 1 \<le> epoch \<and> epoch \<le> now + 1" for now
  proof
    assume "verify_descriptor P C now d' = Inr ()"
    then show "sat_sub now 1 \<le> epoch \<and> epoch \<le> now + 1" by (rule verify_descriptor_InrD) (simp add: s(2))
  next
    assume "sat_sub now 1 \<le> epoch \<and> epoch \<le> now + 1"
    then show "verify_descriptor P C now d' = Inr ()" using sign_descriptor_verifies [OF assms, of now epoch] s(1) by auto
  qed
  with s show ?thesis by blast
qed

definition sample_descriptor :: hs_descriptor where
  "sample_descriptor = \<lparr> hd_hs_id = identity_hs_id toy_ed_prims [7], hd_name = ''site'', hd_intro_pub = ''ab'',
     hd_intro_host = Some ''10.0.0.1'', hd_intro_port = Some 80, hd_intro_node_id = [], hd_identity_pub = [],
     hd_epoch = 0, hd_sig = [], hd_blinded_pub = [], hd_client_auth = None \<rparr>"

theorem signed_descriptor_verifies_witness:
  "\<exists>d'. sign_descriptor toy_ed_prims toy_curve [7] sample_descriptor 20000 = Returns d'
    \<and> verify_descriptor toy_ed_prims toy_curve 20001 d' = Inr () \<and> verify_descriptor toy_ed_prims toy_curve 20002 d' \<noteq> Inr ()"
  using signed_descriptor_verifies [of toy_ed_prims toy_curve sample_descriptor "[7]" 20000]
  by (auto simp: sample_descriptor_def check_auth_def sat_sub_def)

text \<open>C19: what verification guarantees. A descriptor verifies exactly if its id is the hash of the identity key it
  names, the epoch is within one of the current, its blinded key is the one derived from that identity for its
  epoch, its signature verifies under that key over its signed bytes, and its fields for client authorisation fit
  together. So a copy of it with the same signature in which another field was changed verifies only if the one
  signature is valid for two different byte strings.\<close>

theorem verified_descriptor_binds:
  "(verify_descriptor P C now d = Inr () \<longleftrightarrow>
      (\<exists>ident sig bp. hd_identity_pub d \<noteq> [] \<and> hd_sig d \<noteq> [] \<and> hd_blinded_pub d \<noteq> []
        \<and> p_hex_decode P (hd_identity_pub d) = Some ident \<and> length ident = 32 \<and> hd_hs_id d = derive_hs_id P ident
        \<and> sat_sub now 1 \<le> hd_epoch d \<and> hd_epoch d \<le> now + 1
        \<and> p_hex_decode P (hd_sig d) = Some sig \<and> length sig = 64
        \<and> p_hex_decode P (hd_blinded_pub d) = Some bp \<and> length bp = 32
        \<and> derive_blinded_pub_v2 C ident (hd_epoch d) = Inr bp \<and> p_ed_key_ok P bp
        \<and> p_ed_verify P bp (canonical_descriptor_bytes d) sig \<and> check_auth d = Inr ()))
   \<and> (verify_descriptor P C now d = Inr () \<and> verify_descriptor P C now' e = Inr () \<and> hd_sig e = hd_sig d
        \<and> descriptor_fits d \<and> descriptor_fits e \<and> signed_view e \<noteq> signed_view d
      \<longrightarrow> (\<exists>sig bp bp'. p_hex_decode P (hd_sig d) = Some sig
            \<and> p_hex_decode P (hd_blinded_pub d) = Some bp \<and> p_hex_decode P (hd_blinded_pub e) = Some bp'
            \<and> canonical_descriptor_bytes e \<noteq> canonical_descriptor_bytes d
            \<and> p_ed_verify P bp (canonical_descriptor_bytes d) sig \<and> p_ed_verify P bp' (canonical_descriptor_bytes e) sig))"
proof (intro conjI impI)
  show "verify_descriptor P C now d = Inr () \<longleftrightarrow>
      (\<exists>ident sig bp. hd_identity_pub d \<noteq> [] \<and> hd_sig d \<noteq> [] \<and> hd_blinded_pub d \<noteq> []
        \<and> p_hex_decode P (hd_identity_pub d) = Some ident \<and> length ident = 32 \<and> hd_hs_id d = derive_hs_id P ident
        \<and> sat_sub now 1 \<le> hd_epoch d \<and> hd_epoch d \<le> now + 1
        \<and> p_hex_decode P (hd_sig d) = Some sig \<and> length sig = 64
        \<and> p_hex_decode P (hd_blinded_pub d) = Some bp \<and> length bp = 32
        \<and> derive_blinded_pub_v2 C ident (hd_epoch d) = Inr bp \<and> p_ed_key_ok P bp
        \<and> p_ed_verify P bp (canonical_descriptor_bytes d) sig \<and> check_auth d = Inr ())" (is "?v \<longleftrightarrow> ?facts")
  proof
    assume v: ?v
    then have "hd_identity_pub d \<noteq> []" "hd_sig d \<noteq> []" "hd_blinded_pub d \<noteq> []"
      by (auto simp: verify_descriptor_def split: if_splits)
    then show ?facts by (rule_tac verify_descriptor_InrD [OF v]) blast
  next
    assume ?facts
    then show ?v by (elim exE conjE) (rule verify_descriptor_InrI)
  qed
next
  assume h: "verify_descriptor P C now d = Inr () \<and> verify_descriptor P C now' e = Inr () \<and> hd_sig e = hd_sig d
        \<and> descriptor_fits d \<and> descriptor_fits e \<and> signed_view e \<noteq> signed_view d"
  then have "canonical_descriptor_bytes e \<noteq> canonical_descriptor_bytes d" using canonical_descriptor_inj by metis
  moreover obtain sig bp where "p_hex_decode P (hd_sig d) = Some sig" "p_hex_decode P (hd_blinded_pub d) = Some bp"
      "p_ed_verify P bp (canonical_descriptor_bytes d) sig"
    by (rule verify_descriptor_InrD [of P C now d]) (use h in auto)
  moreover obtain sig' bp' where "p_hex_decode P (hd_sig e) = Some sig'" "p_hex_decode P (hd_blinded_pub e) = Some bp'"
      "p_ed_verify P bp' (canonical_descriptor_bytes e) sig'"
    by (rule verify_descriptor_InrD [of P C now' e]) (use h in auto)
  ultimately show "\<exists>sig bp bp'. p_hex_decode P (hd_sig d) = Some sig
            \<and> p_hex_decode P (hd_blinded_pub d) = Some bp \<and> p_hex_decode P (hd_blinded_pub e) = Some bp'
            \<and> canonical_descriptor_bytes e \<noteq> canonical_descriptor_bytes d
            \<and> p_ed_verify P bp (canonical_descriptor_bytes d) sig \<and> p_ed_verify P bp' (canonical_descriptor_bytes e) sig"
    using h by auto
qed

theorem verified_descriptor_binds_witness:
  "\<exists>d ident sig bp. sign_descriptor toy_ed_prims toy_curve [7] sample_descriptor 20000 = Returns d
    \<and> p_hex_decode toy_ed_prims (hd_identity_pub d) = Some ident \<and> hd_hs_id d = derive_hs_id toy_ed_prims ident
    \<and> p_hex_decode toy_ed_prims (hd_sig d) = Some sig \<and> p_hex_decode toy_ed_prims (hd_blinded_pub d) = Some bp
    \<and> p_ed_verify toy_ed_prims bp (canonical_descriptor_bytes d) sig"
proof -
  obtain d where d: "sign_descriptor toy_ed_prims toy_curve [7] sample_descriptor 20000 = Returns d"
      "verify_descriptor toy_ed_prims toy_curve 20001 d = Inr ()"
    using sign_descriptor_verifies [of toy_ed_prims toy_curve sample_descriptor "[7]" 20001 20000]
    by (auto simp: sample_descriptor_def check_auth_def sat_sub_def)
  show ?thesis
    using verified_descriptor_binds [THEN conjunct1, THEN iffD1, OF d(2)] d(1) by blast
qed

text \<open>an identity that was saved is loaded again: the file round trip gives the same seed and so the
  same service id; anything else in the file is an error.\<close>

theorem identity_file_roundtrip:
  assumes "hex_ok P" "\<forall>h json. ser h = Some json \<longrightarrow> de json = Some h"
    and "identity_save P io ser seed = Inr content" "length seed = 32"
  shows "identity_load P de (Some content) = Inr seed"
  using assms hex_facts(1) [OF assms(1)]
  by (auto simp: identity_save_def identity_load_def and_then_Inr_iff to_array_def split: if_splits)

theorem identity_file_roundtrip_witness:
  "identity_load toy_ed_prims Some (Some (projr (identity_save toy_ed_prims (\<lambda>_. True) Some (replicate 32 7))))
    = Inr (replicate 32 7)"
  by (rule identity_file_roundtrip [of _ Some _ "\<lambda>_. True"]) (simp_all add: identity_save_def)

end
