(* ===== verification/RelayDesc.thy ===== *)
theory RelayDesc
  imports SignedFields Utf8 "HOL-Library.Multiset"
begin

section \<open>Relay descriptors\<close>

text \<open>
  phinet-core/src/relay_desc.rs and the functions of phinet-core/src/node.rs that pin signing keys, accept
  descriptors and gossip them (the arm \<open>RelayDesc\<close> of \<open>dispatch\<close>). A node id is pinned to the signing key
  the node presents over its own link; afterwards descriptors of that node count whoever carries them.

  Shown: what a node signs is accepted by its neighbours; a node stores only descriptors signed with the
  key their subject first presented over its own link, and never exchanges that key; and a descriptor
  that three connected nodes know is passed around for as long as it is valid.
\<close>

definition DESC_LIFETIME_SECS :: u64 where "DESC_LIFETIME_SECS = 24 * 60 * 60"
definition MAX_CLOCK_SKEW_SECS :: u64 where "MAX_CLOCK_SKEW_SECS = 10 * 60"

record relay_descriptor =
  rl_node_id_hex :: string
  rl_signing_pub_hex :: string
  rl_host :: string
  rl_port :: u16
  rl_static_pub_hex :: string
  rl_family :: string
  rl_exit_policy_summary :: string
  rl_published :: u64
  rl_signature_hex :: string

datatype desc_error = BadSignature | WrongKey | Expired | FromTheFuture | Malformed string

definition relay_canonical_bytes :: "relay_descriptor \<Rightarrow> bytes" where
  "relay_canonical_bytes d =
     ascii ''phinet-relay-desc-v1'' @ lp_string (rl_node_id_hex d) @ lp_string (rl_signing_pub_hex d)
     @ lp_string (rl_host d) @ to_be (rl_port d) @ lp_string (rl_static_pub_hex d)
     @ lp_string (rl_family d) @ lp_string (rl_exit_policy_summary d) @ to_be (rl_published d)"

definition relay_desc_build ::
  "prims \<Rightarrow> bytes \<Rightarrow> string \<Rightarrow> string \<Rightarrow> u16 \<Rightarrow> string \<Rightarrow> string \<Rightarrow> string \<Rightarrow> u64 \<Rightarrow> relay_descriptor" where
  "relay_desc_build P signing node_id_hex host port static_pub_hex family exit_policy_summary published =
     (let d = \<lparr> rl_node_id_hex = node_id_hex, rl_signing_pub_hex = p_hex_encode P (p_ed_public P signing),
            rl_host = host, rl_port = port, rl_static_pub_hex = static_pub_hex, rl_family = family,
            rl_exit_policy_summary = exit_policy_summary, rl_published = published, rl_signature_hex = [] \<rparr>
      in d\<lparr>rl_signature_hex := p_hex_encode P (p_ed_sign P signing (relay_canonical_bytes d))\<rparr>)"

definition relay_desc_verify ::
  "prims \<Rightarrow> relay_descriptor \<Rightarrow> string option \<Rightarrow> u64 \<Rightarrow> desc_error + unit" where
  "relay_desc_verify P d expect_signing_pub now =
     (case expect_signing_pub of
        None \<Rightarrow> Inl WrongKey
      | Some pinned \<Rightarrow>
          if pinned \<noteq> rl_signing_pub_hex d then Inl WrongKey
          else if sat_add now MAX_CLOCK_SKEW_SECS < rl_published d then Inl FromTheFuture
          else if DESC_LIFETIME_SECS < sat_sub now (rl_published d) then Inl Expired
          else
            (case hex_array P 32 (rl_signing_pub_hex d) of
               None \<Rightarrow> Inl (Malformed ''signing_pub'')
             | Some pk \<Rightarrow>
                 if \<not> p_ed_key_ok P pk then Inl (Malformed ''signing_pub not a point'')
                 else
                   (case hex_array P 64 (rl_signature_hex d) of
                      None \<Rightarrow> Inl (Malformed ''signature'')
                    | Some sig \<Rightarrow>
                        if p_ed_verify P pk (relay_canonical_bytes d) sig then Inr () else Inl BadSignature)))"

subsection \<open>At a node\<close>

record desc_node =
  dn_node_id :: bytes
  dn_host :: string
  dn_port :: u16
  dn_static_pub :: bytes
  dn_family :: string
  dn_signing_key :: "bytes option"
  dn_pinned :: "(bytes, string) hmap"
  dn_descriptors :: "(string, relay_descriptor) hmap"
  dn_peers :: "(bytes, bytes) hmap"

definition set_signing_key :: "bytes \<Rightarrow> desc_node \<Rightarrow> desc_node" where
  "set_signing_key k n = n\<lparr>dn_signing_key := Some k\<rparr>"

definition my_descriptor :: "prims \<Rightarrow> u64 \<Rightarrow> desc_node \<Rightarrow> relay_descriptor option" where
  "my_descriptor P now n =
     (case dn_signing_key n of
        None \<Rightarrow> None
      | Some k \<Rightarrow>
          Some (relay_desc_build P k (p_hex_encode P (dn_node_id n)) (dn_host n) (dn_port n)
            (p_hex_encode P (dn_static_pub n)) (dn_family n) ''default'' now))"

definition pin_signing_key :: "bytes \<Rightarrow> string \<Rightarrow> desc_node \<Rightarrow> bool \<times> desc_node" where
  "pin_signing_key node_id signing_pub_hex n =
     (case hm_get (dn_pinned n) node_id of
        Some existing \<Rightarrow> if existing \<noteq> signing_pub_hex then (False, n) else (True, n)
      | None \<Rightarrow> (True, n\<lparr>dn_pinned := hm_insert node_id signing_pub_hex (dn_pinned n)\<rparr>))"

definition pinned_signing_key :: "bytes \<Rightarrow> desc_node \<Rightarrow> string option" where
  "pinned_signing_key node_id n = hm_get (dn_pinned n) node_id"

definition accept_descriptor :: "prims \<Rightarrow> u64 \<Rightarrow> relay_descriptor \<Rightarrow> desc_node \<Rightarrow> bool \<times> desc_node" where
  "accept_descriptor P now d n =
     (case hex_array P 32 (rl_node_id_hex d) of
        None \<Rightarrow> (False, n)
      | Some node_id \<Rightarrow>
          (case relay_desc_verify P d (pinned_signing_key node_id n) now of
             Inr _ \<Rightarrow> (True, n\<lparr>dn_descriptors := hm_insert (rl_node_id_hex d) d (dn_descriptors n)\<rparr>)
           | Inl _ \<Rightarrow> (False, n)))"

definition known_descriptors :: "desc_node \<Rightarrow> relay_descriptor list" where
  "known_descriptors n = map snd (dn_descriptors n)"

text \<open>The arm of \<open>dispatch\<close>: the new state and the peers the descriptor is sent on to.\<close>

definition handle_relay_desc ::
  "prims \<Rightarrow> u64 \<Rightarrow> relay_descriptor \<Rightarrow> bytes \<Rightarrow> desc_node \<Rightarrow> desc_node \<times> bytes list" where
  "handle_relay_desc P now d src n =
     (let (ok, n1) = (if rl_node_id_hex d = p_hex_encode P src
                      then pin_signing_key src (rl_signing_pub_hex d) n else (True, n))
      in if \<not> ok then (n1, [])
         else
           (let (accepted, n2) = accept_descriptor P now d n1
            in (n2, if accepted then filter (\<lambda>p. p \<noteq> src) (map snd (dn_peers n2)) else [])))"

subsection \<open>Signed bytes\<close>

definition relay_desc_fits :: "relay_descriptor \<Rightarrow> bool" where
  "relay_desc_fits d \<longleftrightarrow> fits32 (rl_node_id_hex d) \<and> fits32 (rl_signing_pub_hex d) \<and> fits32 (rl_host d)
     \<and> fits32 (rl_static_pub_hex d) \<and> fits32 (rl_family d) \<and> fits32 (rl_exit_policy_summary d)"

lemma relay_canonical_inj:
  assumes "relay_desc_fits d" "relay_desc_fits e" "relay_canonical_bytes d = relay_canonical_bytes e"
  shows "d\<lparr>rl_signature_hex := []\<rparr> = e\<lparr>rl_signature_hex := []\<rparr>"
  using assms by (simp add: relay_desc_fits_def relay_canonical_bytes_def relay_descriptor.equality)

lemma relay_canonical_ignores_sig [simp]:
  "relay_canonical_bytes (d\<lparr>rl_signature_hex := s\<rparr>) = relay_canonical_bytes d"
  by (simp add: relay_canonical_bytes_def)

text \<open>What the signature check leaves to the clock and the pin.\<close>

definition desc_signed :: "prims \<Rightarrow> relay_descriptor \<Rightarrow> bool" where
  "desc_signed P d \<longleftrightarrow> (\<exists>pk sig. hex_array P 32 (rl_signing_pub_hex d) = Some pk \<and> p_ed_key_ok P pk
     \<and> hex_array P 64 (rl_signature_hex d) = Some sig \<and> p_ed_verify P pk (relay_canonical_bytes d) sig)"

definition desc_current :: "relay_descriptor \<Rightarrow> u64 \<Rightarrow> bool" where
  "desc_current d now \<longleftrightarrow> rl_published d \<le> sat_add now MAX_CLOCK_SKEW_SECS
     \<and> sat_sub now (rl_published d) \<le> DESC_LIFETIME_SECS"

lemma relay_desc_verify_iff:
  "relay_desc_verify P d pin now = Inr () \<longleftrightarrow>
     pin = Some (rl_signing_pub_hex d) \<and> desc_current d now \<and> desc_signed P d"
  by (auto simp: relay_desc_verify_def desc_current_def desc_signed_def not_less split: option.splits)

lemma relay_desc_verify_Inl: "relay_desc_verify P d pin now = Inl e \<Longrightarrow>
    \<not> (pin = Some (rl_signing_pub_hex d) \<and> desc_current d now \<and> desc_signed P d)"
  by (simp flip: relay_desc_verify_iff)

lemma accept_descriptor_eq:
  "accept_descriptor P now d n =
     (let ok = (\<exists>node_id. hex_array P 32 (rl_node_id_hex d) = Some node_id
            \<and> pinned_signing_key node_id n = Some (rl_signing_pub_hex d) \<and> desc_current d now \<and> desc_signed P d)
      in (ok, if ok then n\<lparr>dn_descriptors := hm_insert (rl_node_id_hex d) d (dn_descriptors n)\<rparr> else n))"
proof (cases "hex_array P 32 (rl_node_id_hex d)")
  case None
  then show ?thesis by (simp add: accept_descriptor_def)
next
  case (Some i)
  show ?thesis
  proof (cases "relay_desc_verify P d (pinned_signing_key i n) now")
    case (Inl e)
    from relay_desc_verify_Inl [OF this] show ?thesis by (auto simp: accept_descriptor_def Some Inl Let_def)
  next
    case (Inr u)
    then have "relay_desc_verify P d (pinned_signing_key i n) now = Inr ()" by simp
    with this [unfolded relay_desc_verify_iff] show ?thesis
      by (simp add: accept_descriptor_def Some Let_def)
  qed
qed

lemma accept_descriptor_state:
  "snd (accept_descriptor P now d n) = (if fst (accept_descriptor P now d n)
     then n\<lparr>dn_descriptors := hm_insert (rl_node_id_hex d) d (dn_descriptors n)\<rparr> else n)"
  by (simp add: accept_descriptor_eq Let_def)

lemma desc_signed_sign:
  assumes "hex_ok P" "ed_ok P" "rl_signing_pub_hex d = p_hex_encode P (p_ed_public P k)"
  shows "desc_signed P (d\<lparr>rl_signature_hex := p_hex_encode P (p_ed_sign P k (relay_canonical_bytes d))\<rparr>)"
  using assms by (auto simp: desc_signed_def ed_ok_def)

lemma desc_signed_build:
  assumes "hex_ok P" "ed_ok P"
  shows "desc_signed P (relay_desc_build P k i h p s f x t)"
  unfolding relay_desc_build_def Let_def by (rule desc_signed_sign [OF assms]) simp

subsection \<open>What a node pins and stores\<close>

text \<open>The descriptors that reach a node, with the time and the link each came over.\<close>

type_synonym desc_event = "u64 \<times> relay_descriptor \<times> bytes"

definition desc_run :: "prims \<Rightarrow> desc_event list \<Rightarrow> desc_node \<Rightarrow> desc_node" where
  "desc_run P evs n = fold (\<lambda>(t, d, src) n. fst (handle_relay_desc P t d src n)) evs n"

text \<open>The keys a node presented for itself over its own link, in order.\<close>

definition own_keys :: "prims \<Rightarrow> bytes \<Rightarrow> desc_event list \<Rightarrow> string list" where
  "own_keys P i evs = List.map_filter
     (\<lambda>(t, d, src). if src = i \<and> rl_node_id_hex d = p_hex_encode P i then Some (rl_signing_pub_hex d) else None) evs"

definition first_key :: "prims \<Rightarrow> bytes \<Rightarrow> desc_event list \<Rightarrow> string option" where
  "first_key P i evs = (case own_keys P i evs of [] \<Rightarrow> None | k # _ \<Rightarrow> Some k)"

lemma first_key_snoc: "first_key P i (evs @ [(t, d, src)]) =
    (case first_key P i evs of
       Some k \<Rightarrow> Some k
     | None \<Rightarrow> if src = i \<and> rl_node_id_hex d = p_hex_encode P i then Some (rl_signing_pub_hex d) else None)"
  by (auto simp: first_key_def own_keys_def map_filter_def split: list.splits)

lemma accept_pinned [simp]: "dn_pinned (snd (accept_descriptor P t d n)) = dn_pinned n"
  by (simp add: accept_descriptor_eq Let_def)

lemma handle_pinned:
  "hm_get (dn_pinned (fst (handle_relay_desc P t d src n))) i =
     (case hm_get (dn_pinned n) i of
        Some k \<Rightarrow> Some k
      | None \<Rightarrow> if src = i \<and> rl_node_id_hex d = p_hex_encode P i then Some (rl_signing_pub_hex d) else None)"
  by (auto simp: handle_relay_desc_def pin_signing_key_def Let_def split_beta hm.get_ins split: option.splits)

lemma handle_cases:
  "fst (handle_relay_desc P t d src n) = n
    \<or> (\<exists>n1. dn_descriptors n1 = dn_descriptors n
         \<and> fst (handle_relay_desc P t d src n) = snd (accept_descriptor P t d n1))"
proof (cases "rl_node_id_hex d = p_hex_encode P src")
  case True
  show ?thesis
  proof (cases "fst (pin_signing_key src (rl_signing_pub_hex d) n)")
    case False
    then have "snd (pin_signing_key src (rl_signing_pub_hex d) n) = n"
      by (auto simp: pin_signing_key_def split: option.splits)
    with True False show ?thesis by (simp add: handle_relay_desc_def split_beta)
  next
    case t: True
    have "dn_descriptors (snd (pin_signing_key src (rl_signing_pub_hex d) n)) = dn_descriptors n"
      by (auto simp: pin_signing_key_def split: option.splits)
    with True t show ?thesis by (auto simp: handle_relay_desc_def split_beta)
  qed
next
  case False
  then show ?thesis by (auto simp: handle_relay_desc_def split_beta)
qed

lemma handle_stored:
  assumes "hm_get (dn_descriptors (fst (handle_relay_desc P t d src n))) h = Some e"
  shows "hm_get (dn_descriptors n) h = Some e \<or> (e = d \<and> h = rl_node_id_hex d \<and> desc_current d t \<and> desc_signed P d
    \<and> (\<exists>i. hex_array P 32 h = Some i
         \<and> hm_get (dn_pinned (fst (handle_relay_desc P t d src n))) i = Some (rl_signing_pub_hex d)))"
proof -
  from handle_cases [of P t d src n] show ?thesis
  proof (elim disjE exE conjE)
    fix n1
    let ?n = "fst (handle_relay_desc P t d src n)"
    assume n1: "dn_descriptors n1 = dn_descriptors n" "?n = snd (accept_descriptor P t d n1)"
    have pin: "dn_pinned ?n = dn_pinned n1" by (simp add: n1(2))
    show ?thesis
    proof (cases "fst (accept_descriptor P t d n1)")
      case False
      then show ?thesis using assms n1 accept_descriptor_state [of P t d n1] by simp
    next
      case True
      then obtain i where i: "hex_array P 32 (rl_node_id_hex d) = Some i" "desc_current d t" "desc_signed P d"
          "hm_get (dn_pinned n1) i = Some (rl_signing_pub_hex d)"
        by (auto simp: accept_descriptor_eq Let_def pinned_signing_key_def)
      have "dn_descriptors ?n = hm_insert (rl_node_id_hex d) d (dn_descriptors n)"
        using True n1 accept_descriptor_state [of P t d n1] by simp
      with assms i pin show ?thesis by (auto simp: hm.get_ins split: if_splits)
    qed
  qed (use assms in simp)
qed

lemma desc_run_snoc: "desc_run P (evs @ [(t, d, src)]) n = fst (handle_relay_desc P t d src (desc_run P evs n))"
  by (simp add: desc_run_def)

lemma desc_run_pinned:
  assumes "dn_pinned n = []"
  shows "pinned_signing_key i (desc_run P evs n) = first_key P i evs"
proof (induction evs rule: rev_induct)
  case Nil
  then show ?case
    using assms by (simp add: desc_run_def pinned_signing_key_def first_key_def own_keys_def map_filter_def)
next
  case (snoc ev evs)
  obtain t d src where ev: "ev = (t, d, src)" by (cases ev)
  show ?case
    using snoc by (simp add: ev desc_run_snoc first_key_snoc pinned_signing_key_def handle_pinned)
qed

lemma first_key_mono: "first_key P i evs = Some k \<Longrightarrow> first_key P i (evs @ [ev]) = Some k"
  by (cases ev) (simp add: first_key_snoc)

lemma desc_run_stored:
  assumes "dn_pinned n = []" "dn_descriptors n = []"
    and "hm_get (dn_descriptors (desc_run P evs n)) h = Some d"
  shows "\<exists>t src i. (t, d, src) \<in> set evs \<and> h = rl_node_id_hex d \<and> hex_array P 32 h = Some i
    \<and> desc_current d t \<and> desc_signed P d \<and> first_key P i evs = Some (rl_signing_pub_hex d)"
  using assms(3)
proof (induction evs rule: rev_induct)
  case Nil
  then show ?case using assms(2) by (simp add: desc_run_def)
next
  case (snoc ev evs)
  obtain t e src where ev: "ev = (t, e, src)" by (cases ev)
  from handle_stored [OF snoc.prems [unfolded ev desc_run_snoc]]
  show ?case
  proof (elim disjE conjE exE)
    assume "hm_get (dn_descriptors (desc_run P evs n)) h = Some d"
    from snoc.IH [OF this] obtain t' src' i where old: "(t', d, src') \<in> set evs" "h = rl_node_id_hex d"
        "hex_array P 32 h = Some i" "desc_current d t'" "desc_signed P d" "first_key P i evs = Some (rl_signing_pub_hex d)"
      by blast
    have "first_key P i (evs @ [ev]) = Some (rl_signing_pub_hex d)" by (rule first_key_mono [OF old(6)])
    moreover have "(t', d, src') \<in> set (evs @ [ev])" using old(1) by simp
    ultimately show ?thesis using old(2-5) by blast
  next
    fix i
    assume a: "d = e" "h = rl_node_id_hex e" "desc_current e t" "desc_signed P e" "hex_array P 32 h = Some i"
      and p: "hm_get (dn_pinned (fst (handle_relay_desc P t e src (desc_run P evs n)))) i = Some (rl_signing_pub_hex e)"
    from p have "first_key P i (evs @ [ev]) = Some (rl_signing_pub_hex e)"
      using desc_run_pinned [OF assms(1), of i P "evs @ [ev]"] by (simp add: ev desc_run_snoc pinned_signing_key_def)
    moreover have "(t, d, src) \<in> set (evs @ [ev])" using a(1) by (simp add: ev)
    ultimately show ?thesis using a(2-5) unfolding a(1) by blast
  qed
qed

subsection \<open>Gossip\<close>

text \<open>Copies of one descriptor under way between nodes, delivered in any order while it is current.\<close>

record desc_net =
  gn_state :: "bytes \<Rightarrow> desc_node"
  gn_flight :: "(bytes \<times> bytes) multiset"

inductive desc_deliver :: "prims \<Rightarrow> relay_descriptor \<Rightarrow> desc_net \<Rightarrow> desc_net \<Rightarrow> bool" for P d where
  deliver: "(a, b) \<in># gn_flight N \<Longrightarrow> desc_current d t \<Longrightarrow>
    handle_relay_desc P t d a (gn_state N b) = (n', outs) \<Longrightarrow>
    desc_deliver P d N \<lparr> gn_state = (gn_state N)(b := n'),
      gn_flight = gn_flight N - {#(a, b)#} + mset (map (Pair b) outs) \<rparr>"

inductive_cases desc_deliverE: "desc_deliver P d N N'"

text \<open>A node that pinned the key of the descriptor and has two peers in a set of such nodes.\<close>

definition passes_on :: "bytes set \<Rightarrow> bytes \<Rightarrow> relay_descriptor \<Rightarrow> desc_node \<Rightarrow> bool" where
  "passes_on W i d n \<longleftrightarrow> pinned_signing_key i n = Some (rl_signing_pub_hex d)
     \<and> (\<exists>p q. p \<noteq> q \<and> {p, q} \<subseteq> W \<inter> set (map snd (dn_peers n)))"

lemma accept_peers [simp]: "dn_peers (snd (accept_descriptor P t d n)) = dn_peers n"
  by (simp add: accept_descriptor_eq Let_def)

text \<open>A known descriptor is accepted again and sent on again.\<close>

lemma handle_again:
  assumes "hex_ok P" "desc_signed P d" "desc_current d t" "hex_array P 32 (rl_node_id_hex d) = Some i"
    and "pinned_signing_key i n = Some (rl_signing_pub_hex d)"
  shows "handle_relay_desc P t d src n =
    (n\<lparr>dn_descriptors := hm_insert (rl_node_id_hex d) d (dn_descriptors n)\<rparr>,
     filter (\<lambda>p. p \<noteq> src) (map snd (dn_peers n)))"
proof -
  have pin: "pin_signing_key src (rl_signing_pub_hex d) n = (True, n)" if "rl_node_id_hex d = p_hex_encode P src"
  proof -
    have "src = i" using assms(1,4) that by (simp add: hex_array_Some hex_ok_def)
    then show ?thesis using assms(5) by (simp add: pin_signing_key_def pinned_signing_key_def)
  qed
  have "accept_descriptor P t d n = (True, n\<lparr>dn_descriptors := hm_insert (rl_node_id_hex d) d (dn_descriptors n)\<rparr>)"
    using assms by (simp add: accept_descriptor_eq)
  then show ?thesis using pin by (simp add: handle_relay_desc_def)
qed

lemma passes_on_stored [simp]: "passes_on W i d (n\<lparr>dn_descriptors := m\<rparr>) = passes_on W i d n"
  by (simp add: passes_on_def pinned_signing_key_def)

lemma deliver_passes_on:
  assumes "hex_ok P" "desc_signed P d" "hex_array P 32 (rl_node_id_hex d) = Some i"
    and nodes: "\<forall>b \<in> W. passes_on W i d (gn_state N b)" and flight: "\<exists>(a, b) \<in># gn_flight N. b \<in> W"
    and step: "desc_deliver P d N N'"
  shows "(\<forall>b \<in> W. passes_on W i d (gn_state N' b)) \<and> (\<exists>(a, b) \<in># gn_flight N'. b \<in> W)"
  using step
proof (cases rule: desc_deliver.cases)
  case (deliver a b t n' outs)
  show ?thesis
  proof (cases "b \<in> W")
    case True
    then have p: "passes_on W i d (gn_state N b)" using nodes by blast
    have pin: "pinned_signing_key i (gn_state N b) = Some (rl_signing_pub_hex d)" using p by (simp add: passes_on_def)
    from handle_again [OF assms(1,2) deliver(3) assms(3) pin, of a] deliver(4)
    have out: "n' = (gn_state N b)\<lparr>dn_descriptors := hm_insert (rl_node_id_hex d) d (dn_descriptors (gn_state N b))\<rparr>"
        "outs = filter (\<lambda>p. p \<noteq> a) (map snd (dn_peers (gn_state N b)))"
      by simp_all
    from p obtain u v where uv: "u \<noteq> v" "{u, v} \<subseteq> W \<inter> set (map snd (dn_peers (gn_state N b)))"
      unfolding passes_on_def by blast
    define q where "q = (if u = a then v else u)"
    have "q \<in> W" "q \<in> set outs" using uv by (auto simp: q_def out(2))
    then have "(b, q) \<in># gn_flight N' \<and> q \<in> W" by (simp add: deliver(1))
    moreover have "passes_on W i d (gn_state N' c)" if "c \<in> W" for c
      using nodes p that by (simp add: deliver(1) out(1))
    ultimately show ?thesis by blast
  next
    case False
    from flight obtain a' b' where m: "(a', b') \<in># gn_flight N" "b' \<in> W" by blast
    then have "(a', b') \<in># gn_flight N'" using False by (auto simp: deliver(1) in_diff_count)
    then show ?thesis using m(2) nodes False by (auto simp: deliver(1))
  qed
qed

lemma deliver_passes_on_run:
  assumes "hex_ok P" "desc_signed P d" "hex_array P 32 (rl_node_id_hex d) = Some i"
    and "\<forall>b \<in> W. passes_on W i d (gn_state N b)" "\<exists>(a, b) \<in># gn_flight N. b \<in> W"
    and run: "(desc_deliver P d)\<^sup>*\<^sup>* N N'"
  shows "(\<forall>b \<in> W. passes_on W i d (gn_state N' b)) \<and> (\<exists>(a, b) \<in># gn_flight N'. b \<in> W)"
  using run
proof (induction rule: rtranclp_induct)
  case base
  then show ?case using assms(4,5) by blast
next
  case (step N1 N2)
  then show ?case using deliver_passes_on [OF assms(1-3), of W N1 N2] by blast
qed

subsection \<open>Properties\<close>

text \<open>C20: a node keys its trust on what it saw itself. However descriptors reach it, over whatever links and
  in whatever order: the key it pins for a node is the first one that node presented for itself over its
  own link, and every descriptor it stores was received, was current then, and carries a signature that
  verifies under the pinned key of the node it names.\<close>

theorem descriptors_pinned_and_signed:
  assumes "dn_pinned n = []" "dn_descriptors n = []"
  shows "pinned_signing_key i (desc_run P evs n) = first_key P i evs
    \<and> (hm_get (dn_descriptors (desc_run P evs n)) h = Some d \<longrightarrow>
        (\<exists>t src j. (t, d, src) \<in> set evs \<and> h = rl_node_id_hex d \<and> hex_array P 32 h = Some j
           \<and> desc_current d t \<and> desc_signed P d \<and> first_key P j evs = Some (rl_signing_pub_hex d)))"
  using desc_run_pinned [OF assms(1)] desc_run_stored [OF assms] by blast

definition sample_desc_node :: "bytes \<Rightarrow> bytes list \<Rightarrow> desc_node" where
  "sample_desc_node i ps = \<lparr> dn_node_id = i, dn_host = ''10.0.0.1'', dn_port = 9001, dn_static_pub = i,
     dn_family = ''f'', dn_signing_key = Some [5], dn_pinned = [], dn_descriptors = [],
     dn_peers = map (\<lambda>p. (p, p)) ps \<rparr>"

abbreviation node_no :: "u8 \<Rightarrow> bytes" where "node_no k \<equiv> replicate 32 k"

definition sample_relay_desc :: relay_descriptor where
  "sample_relay_desc = relay_desc_build toy_prims [5] (p_hex_encode toy_prims (node_no 1)) ''10.0.0.1'' 9001 ''ab'' ''f''
     ''default'' 1000"

theorem descriptors_pinned_and_signed_witness:
  "pinned_signing_key (node_no 1) (desc_run toy_prims [(1000, sample_relay_desc, node_no 1)] (sample_desc_node (node_no 2) []))
    = Some (p_hex_encode toy_prims (p_ed_public toy_prims [5]))"
proof -
  have "hex_ok toy_prims" by simp
  then have h: "p_hex_encode toy_prims a = p_hex_encode toy_prims b \<longleftrightarrow> a = b" for a b
    unfolding hex_ok_def by (metis option.inject)
  show ?thesis
    using descriptors_pinned_and_signed [of "sample_desc_node (node_no 2) []" "node_no 1" toy_prims
        "[(1000, sample_relay_desc, node_no 1)]"]
    by (simp add: sample_desc_node_def first_key_def own_keys_def map_filter_def sample_relay_desc_def
        relay_desc_build_def Let_def h)
qed

text \<open>a node's descriptor is accepted by the neighbours that have not pinned another key for it: sent
  over its own link while clocks differ by at most ten minutes, it is stored under the node's id, its key
  is pinned, and it is sent on to all other peers.\<close>

theorem own_descriptor_accepted:
  assumes "hex_ok P" "ed_ok P" "my_descriptor P published a = Some d" "length (dn_node_id a) = 32"
    and "\<forall>k. pinned_signing_key (dn_node_id a) b = Some k \<longrightarrow> k = rl_signing_pub_hex d"
    and "desc_current d now"
  shows "\<exists>b'. handle_relay_desc P now d (dn_node_id a) b = (b', filter (\<lambda>p. p \<noteq> dn_node_id a) (map snd (dn_peers b)))
    \<and> hm_get (dn_descriptors b') (p_hex_encode P (dn_node_id a)) = Some d
    \<and> pinned_signing_key (dn_node_id a) b' = Some (rl_signing_pub_hex d)"
proof -
  from assms(3) obtain k where d: "d = relay_desc_build P k (p_hex_encode P (dn_node_id a)) (dn_host a) (dn_port a)
      (p_hex_encode P (dn_static_pub a)) (dn_family a) ''default'' published"
    by (auto simp: my_descriptor_def split: option.splits)
  have signed: "desc_signed P d" unfolding d by (rule desc_signed_build [OF assms(1,2)])
  have id: "rl_node_id_hex d = p_hex_encode P (dn_node_id a)" by (simp add: d relay_desc_build_def Let_def)
  have arr: "hex_array P 32 (rl_node_id_hex d) = Some (dn_node_id a)" using assms(1,4) by (simp add: id)
  define b1 where "b1 = snd (pin_signing_key (dn_node_id a) (rl_signing_pub_hex d) b)"
  have pin: "pin_signing_key (dn_node_id a) (rl_signing_pub_hex d) b = (True, b1)"
    using assms(5) by (auto simp: b1_def pin_signing_key_def pinned_signing_key_def split: option.splits)
  have b1: "pinned_signing_key (dn_node_id a) b1 = Some (rl_signing_pub_hex d)" "dn_peers b1 = dn_peers b"
    using assms(5) by (auto simp: b1_def pin_signing_key_def pinned_signing_key_def hm.get_ins split: option.splits)
  have "accept_descriptor P now d b1
      = (True, b1\<lparr>dn_descriptors := hm_insert (rl_node_id_hex d) d (dn_descriptors b1)\<rparr>)"
    using arr b1(1) assms(6) signed by (simp add: accept_descriptor_eq)
  then show ?thesis
    using pin b1 by (simp add: handle_relay_desc_def id pinned_signing_key_def hm.get_ins)
qed

theorem own_descriptor_accepted_witness:
  "\<exists>b' :: desc_node. hm_get (dn_descriptors b') (p_hex_encode toy_prims (node_no 1))
    = my_descriptor toy_prims 1000 (sample_desc_node (node_no 1) [])"
proof -
  let ?a = "sample_desc_node (node_no 1) []" and ?b = "sample_desc_node (node_no 2) [node_no 1]"
  obtain d where d: "my_descriptor toy_prims 1000 ?a = Some d" "rl_published d = 1000"
    by (simp add: my_descriptor_def sample_desc_node_def relay_desc_build_def Let_def)
  have "desc_current d 1000"
    by (simp add: d(2) desc_current_def MAX_CLOCK_SKEW_SECS_def DESC_LIFETIME_SECS_def sat_add_def sat_sub_def)
  then obtain b' :: desc_node where "hm_get (dn_descriptors b') (p_hex_encode toy_prims (dn_node_id ?a)) = Some d"
    using own_descriptor_accepted [of toy_prims 1000 ?a d ?b 1000] d(1)
    by (auto simp: sample_desc_node_def pinned_signing_key_def)
  then show ?thesis using d(1) by (auto simp: sample_desc_node_def)
qed

text \<open>the gossip of descriptors does not end by itself: among nodes that all pinned the key of a
  descriptor and each have two peers among them, in whatever order copies are delivered, there is always a
  further copy under way for one of them as long as the descriptor is current.\<close>

theorem descriptor_gossip_never_ends:
  assumes "hex_ok P" "desc_signed P d" "hex_array P 32 (rl_node_id_hex d) = Some i"
    and "\<forall>b \<in> W. passes_on W i d (gn_state N b)" "\<exists>(a, b) \<in># gn_flight N. b \<in> W"
    and "(desc_deliver P d)\<^sup>*\<^sup>* N N'"
  shows "gn_flight N' \<noteq> {#}"
  using deliver_passes_on_run [OF assms] by auto

theorem descriptor_gossip_never_ends_witness:
  "\<exists>N N'. desc_deliver toy_prims sample_relay_desc N N' \<and> gn_flight N = {#(node_no 2, node_no 3)#}
    \<and> gn_flight N' \<noteq> {#}"
proof -
  let ?W = "{node_no 2, node_no 3, node_no 4}"
  let ?key = "rl_signing_pub_hex sample_relay_desc"
  let ?node = "\<lambda>i. (sample_desc_node i [node_no 2, node_no 3, node_no 4])\<lparr>dn_pinned := [(node_no 1, ?key)]\<rparr>"
  let ?N = "\<lparr> gn_state = ?node, gn_flight = {#(node_no 2, node_no 3)#} \<rparr>"
  have s: "desc_signed toy_prims sample_relay_desc" unfolding sample_relay_desc_def by (rule desc_signed_build) simp_all
  have i: "hex_array toy_prims 32 (rl_node_id_hex sample_relay_desc) = Some (node_no 1)"
    by (simp add: sample_relay_desc_def relay_desc_build_def Let_def)
  have ne: "node_no 2 \<noteq> node_no 3" by (simp add: replicate_eq_replicate)
  have w: "\<forall>b \<in> ?W. passes_on ?W (node_no 1) sample_relay_desc (gn_state ?N b)"
    using ne unfolding passes_on_def
    by (intro ballI conjI exI [of _ "node_no 2"] exI [of _ "node_no 3"])
      (simp_all add: sample_desc_node_def pinned_signing_key_def)
  have cur: "desc_current sample_relay_desc 1000"
    by (simp add: sample_relay_desc_def relay_desc_build_def Let_def desc_current_def MAX_CLOCK_SKEW_SECS_def
        DESC_LIFETIME_SECS_def sat_add_def sat_sub_def)
  obtain n' outs where out: "handle_relay_desc toy_prims 1000 sample_relay_desc (node_no 2) (gn_state ?N (node_no 3)) = (n', outs)"
    by fastforce
  have "\<exists>N'. desc_deliver toy_prims sample_relay_desc ?N N'"
    by (rule exI, rule deliver [OF _ cur out]) simp
  then obtain N' where N': "desc_deliver toy_prims sample_relay_desc ?N N'" by blast
  then have run: "(desc_deliver toy_prims sample_relay_desc)\<^sup>*\<^sup>* ?N N'" by (rule r_into_rtranclp)
  have "gn_flight N' \<noteq> {#}" by (rule descriptor_gossip_never_ends [OF _ s i w _ run]) simp_all
  with N' show ?thesis by (intro exI [of _ ?N] exI [of _ N']) simp
qed

end
