(* ===== verification/F64.thy ===== *)
theory F64
  imports Prelude "HOL-Library.Log_Nat"
begin

section \<open>Floating-point numbers\<close>

text \<open>
  The operations on \<open>f64\<close> the code uses, for finite values in the normal range: the exact rational result
  rounded to 53 significant bits, ties to even (IEEE 754). A value of type \<open>f64\<close> is a rational, every
  operation of the source an operation on rationals under \<open>f64_round\<close>.
\<close>

type_synonym f64 = rat

definition round_half_even :: "rat \<Rightarrow> int" where
  "round_half_even y =
     (let f = \<lfloor>y\<rfloor>; r = y - of_int f
      in if r < 1/2 then f else if 1/2 < r then f + 1 else if even f then f else f + 1)"

text \<open>The exponent of a positive value: the \<open>e\<close> with \<open>2 powi e \<le> x < 2 powi (e + 1)\<close>.\<close>

definition f64_exponent :: "rat \<Rightarrow> int" where
  "f64_exponent x =
     (let (n, d) = quotient_of x; e = bitlen n - bitlen d
      in if 2 powi e \<le> x then e else e - 1)"

definition f64_round :: "rat \<Rightarrow> f64" where
  "f64_round x =
     (if x = 0 then 0
      else let e = f64_exponent \<bar>x\<bar>
           in of_int (round_half_even (x * 2 powi (52 - e))) * 2 powi (e - 52))"

lemma round_half_even_bound: "\<bar>of_int (round_half_even y) - y\<bar> \<le> 1/2"
proof -
  have "of_int \<lfloor>y\<rfloor> \<le> y" "y < of_int \<lfloor>y\<rfloor> + 1" by linarith+
  then show ?thesis by (auto simp: round_half_even_def Let_def)
qed

lemma round_half_even_int [simp]: "round_half_even (of_int n) = n"
  by (simp add: round_half_even_def)

lemma powi_less_imp: "(2 :: rat) powi a < 2 powi b \<Longrightarrow> a < b"
proof (rule ccontr)
  assume less: "(2 :: rat) powi a < 2 powi b" and "\<not> a < b"
  then have "1 \<le> (2 :: rat) powi (a - b)" by simp
  then have "1 * (2 :: rat) powi b \<le> 2 powi (a - b) * 2 powi b" by (rule mult_right_mono) simp
  then show False using less by (simp flip: power_int_add)
qed

lemma bitlen_powi:
  assumes "0 < m"
  shows "(2 :: rat) powi (bitlen m - 1) \<le> of_int m" "(of_int m :: rat) < 2 powi (bitlen m)"
proof -
  have b: "0 \<le> bitlen m - 1" using assms bitlen_eq_zero_iff [of m] bitlen_nonneg [of m] by linarith
  have "(of_int (2 ^ nat (bitlen m - 1)) :: rat) \<le> of_int m" "(of_int m :: rat) < of_int (2 ^ nat (bitlen m))"
    using bitlen_bounds [OF assms] by (simp_all only: of_int_le_iff of_int_less_iff)
  then show "(2 :: rat) powi (bitlen m - 1) \<le> of_int m" "(of_int m :: rat) < 2 powi (bitlen m)"
    using b by (simp_all add: power_int_def)
qed

lemma f64_exponent_bounds:
  assumes "0 < x"
  shows "2 powi (f64_exponent x) \<le> x" "x < 2 powi (f64_exponent x + 1)"
proof -
  obtain n d where q: "quotient_of x = (n, d)" by (cases "quotient_of x")
  then have x: "x = of_int n / of_int d" and d: "0 < d"
    by (rule quotient_of_div, rule quotient_of_denom_pos)
  have n: "0 < n" using assms x d by (simp add: zero_less_divide_iff)
  note nb = bitlen_powi [OF n] and db = bitlen_powi [OF d]
  have dpos: "(0 :: rat) < of_int d" using d by simp
  have up: "x < 2 powi (bitlen n - bitlen d + 1)"
  proof -
    have "x * 2 powi (bitlen d - 1) \<le> x * of_int d" using db(1) assms by simp
    also have "\<dots> = of_int n" using x dpos by simp
    also have "\<dots> < 2 powi (bitlen n)" by (rule nb(2))
    also have "\<dots> = 2 powi (bitlen n - bitlen d + 1) * 2 powi (bitlen d - 1)" by (simp flip: power_int_add)
    finally show ?thesis by simp
  qed
  have lo: "2 powi (bitlen n - bitlen d - 1) < x"
  proof -
    have "(2 :: rat) powi (bitlen n - bitlen d - 1) * of_int d < 2 powi (bitlen n - bitlen d - 1) * 2 powi (bitlen d)"
      using db(2) by simp
    also have "\<dots> = 2 powi (bitlen n - 1)" by (simp flip: power_int_add)
    also have "\<dots> \<le> of_int n" by (rule nb(1))
    also have "\<dots> = x * of_int d" using x dpos by simp
    finally show ?thesis using dpos by simp
  qed
  show "2 powi (f64_exponent x) \<le> x" "x < 2 powi (f64_exponent x + 1)"
    using up lo by (auto simp: f64_exponent_def q Let_def)
qed

text \<open>The rounding error is at most half a unit in the last place.\<close>

lemma f64_round_error: "\<bar>f64_round x - x\<bar> \<le> \<bar>x\<bar> / 2 ^ 53"
proof (cases "x = 0")
  case False
  let ?e = "f64_exponent \<bar>x\<bar>"
  let ?y = "x * 2 powi (52 - ?e)"
  have s: "2 powi (52 - ?e) * 2 powi (?e - 52) = (1 :: rat)" by (simp flip: power_int_add)
  have "f64_round x - x = (of_int (round_half_even ?y) - ?y) * 2 powi (?e - 52)"
    using False s by (simp add: f64_round_def Let_def left_diff_distrib mult.assoc)
  then have "\<bar>f64_round x - x\<bar> = \<bar>of_int (round_half_even ?y) - ?y\<bar> * 2 powi (?e - 52)"
    by (simp add: abs_mult)
  also have "\<dots> \<le> 1/2 * 2 powi (?e - 52)" using round_half_even_bound by (intro mult_right_mono) simp_all
  also have "\<dots> = 2 powi ?e / 2 ^ 53" by (simp add: power_int_diff)
  also have "\<dots> \<le> \<bar>x\<bar> / 2 ^ 53" using f64_exponent_bounds(1) [of "\<bar>x\<bar>"] False by (simp add: divide_right_mono)
  finally show ?thesis .
qed (simp add: f64_round_def)

lemma round_half_even_eqI: "\<bar>y - of_int m\<bar> < 1/2 \<Longrightarrow> round_half_even y = m"
proof -
  assume "\<bar>y - of_int m\<bar> < 1/2"
  then have "\<bar>of_int (round_half_even y) - of_int m :: rat\<bar> < 1"
    using round_half_even_bound [of y] by linarith
  then have "\<bar>round_half_even y - m\<bar> < 1" by (simp flip: of_int_diff of_int_abs)
  then show ?thesis by simp
qed

lemma f64_exponent_eqI:
  assumes "2 powi e \<le> x" "x < 2 powi (e + 1)"
  shows "f64_exponent x = e"
proof -
  have "(0 :: rat) < 2 powi e" by simp
  with assms(1) have x: "0 < x" by (rule less_le_trans [rotated])
  note b = f64_exponent_bounds [OF x]
  have "f64_exponent x < e + 1" by (rule powi_less_imp [OF le_less_trans [OF b(1) assms(2)]])
  moreover have "e < f64_exponent x + 1" by (rule powi_less_imp [OF le_less_trans [OF assms(1) b(2)]])
  ultimately show ?thesis by simp
qed

text \<open>The value of a rounding, given the exponent and a candidate significand.\<close>

lemma f64_round_eqI:
  assumes "2 powi e \<le> x" "x < 2 powi (e + 1)" "\<bar>x * 2 powi (52 - e) - of_int m\<bar> < 1/2"
  shows "f64_round x = of_int m * 2 powi (e - 52)"
proof -
  have "(0 :: rat) < 2 powi e" by simp
  with assms(1) have "0 < x" by (rule less_le_trans [rotated])
  then show ?thesis
    using f64_exponent_eqI [OF assms(1,2)] round_half_even_eqI [OF assms(3)] by (simp add: f64_round_def)
qed

lemma f64_round_0 [simp]: "f64_round 0 = 0"
  by (simp add: f64_round_def)

text \<open>Integers below \<open>2 ^ 53\<close> are exact.\<close>

lemma f64_round_of_int:
  assumes "\<bar>n\<bar> < 2 ^ 53"
  shows "f64_round (of_int n) = of_int n"
proof (cases "n = 0")
  case False
  let ?e = "f64_exponent \<bar>of_int n\<bar>"
  have "2 powi ?e \<le> (\<bar>of_int n\<bar> :: rat)" using f64_exponent_bounds(1) [of "\<bar>of_int n\<bar>"] False by simp
  also have "\<dots> < 2 ^ 53" using assms by (metis of_int_abs of_int_less_iff of_int_numeral of_int_power)
  also have "(2 :: rat) ^ 53 = 2 powi 53" by (simp add: power_int_def)
  finally have "?e < 53" by (rule powi_less_imp)
  then have e: "0 \<le> 52 - ?e" by simp
  have "(of_int n :: rat) * 2 powi (52 - ?e) = of_int (n * 2 ^ nat (52 - ?e))" using e by (simp add: power_int_def)
  then have "round_half_even (of_int n * 2 powi (52 - ?e)) = n * 2 ^ nat (52 - ?e)" by (simp only: round_half_even_int)
  then have "f64_round (of_int n) = of_int n * (2 powi (52 - ?e) * 2 powi (?e - 52))"
    using False e by (simp add: f64_round_def Let_def power_int_def)
  also have "2 powi (52 - ?e) * 2 powi (?e - 52) = (1 :: rat)" by (simp flip: power_int_add)
  finally show ?thesis by simp
qed simp

lemma f64_round_of_nat: "n < 2 ^ 53 \<Longrightarrow> f64_round (of_nat n) = of_nat n"
  using f64_round_of_int [of "int n"] by simp

lemma f64_round_numeral: "(numeral w :: int) < 2 ^ 53 \<Longrightarrow> f64_round (numeral w) = numeral w"
  using f64_round_of_int [of "numeral w"] by simp

lemma f64_round_1 [simp]: "f64_round 1 = 1"
  using f64_round_of_int [of 1] by simp

lemma f64_round_bounds:
  assumes "0 \<le> x"
  shows "x - x / 2 ^ 53 \<le> f64_round x" "f64_round x \<le> x + x / 2 ^ 53" "0 \<le> f64_round x"
proof -
  have e: "\<bar>f64_round x - x\<bar> \<le> x / 2 ^ 53" using f64_round_error [of x] assms by simp
  then show "x - x / 2 ^ 53 \<le> f64_round x" "f64_round x \<le> x + x / 2 ^ 53" by linarith+
  have "x / 2 ^ 53 \<le> x" using assms by (simp add: divide_le_eq)
  then show "0 \<le> f64_round x" using e by linarith
qed

subsection \<open>Durations as seconds\<close>

text \<open>\<open>Duration::as_secs_f64\<close> and \<open>Duration::from_secs_f64\<close> for a duration in nanoseconds.\<close>

definition as_secs_f64 :: "duration \<Rightarrow> f64" where
  "as_secs_f64 d = f64_round (f64_round (of_nat (d div 1000000000))
     + f64_round (f64_round (of_nat (d mod 1000000000)) / 1000000000))"

text \<open>Three roundings: the relative error stays below four units of \<open>2 ^ -53\<close>.\<close>

lemma as_secs_f64_bounds:
  "of_nat d / 1000000000 * (1 - 4 / 2 ^ 53) \<le> as_secs_f64 d"
  "as_secs_f64 d \<le> of_nat d / 1000000000 * (1 + 4 / 2 ^ 53)"
  "0 \<le> as_secs_f64 d"
proof -
  define s :: rat where "s = of_nat (d div 1000000000)"
  define n :: rat where "n = of_nat (d mod 1000000000)"
  have x: "of_nat d / 1000000000 = s + n / 1000000000"
    unfolding s_def n_def using div_mult_mod_eq [of d 1000000000]
    by (metis (no_types, lifting) add_divide_distrib nonzero_mult_div_cancel_right of_nat_add of_nat_mult
        of_nat_numeral zero_neq_numeral)
  have sn: "0 \<le> s" "0 \<le> n" by (simp_all add: s_def n_def)
  define a where "a = f64_round s"
  define b where "b = f64_round n"
  define c where "c = f64_round (b / 1000000000)"
  note a = f64_round_bounds [OF sn(1), folded a_def]
  note b = f64_round_bounds [OF sn(2), folded b_def]
  have b0: "0 \<le> b / 1000000000" using b(3) by simp
  note c = f64_round_bounds [OF b0, folded c_def]
  have ac: "0 \<le> a + c" using a(3) c(3) by simp
  note r = f64_round_bounds [OF ac]
  have d: "as_secs_f64 d = f64_round (a + c)" by (simp add: as_secs_f64_def a_def b_def c_def s_def n_def)
  show "0 \<le> as_secs_f64 d" unfolding d by (rule r(3))
  show "of_nat d / 1000000000 * (1 - 4 / 2 ^ 53) \<le> as_secs_f64 d"
      "as_secs_f64 d \<le> of_nat d / 1000000000 * (1 + 4 / 2 ^ 53)"
    unfolding d x using a b c r sn by (simp_all add: field_simps)
qed

definition from_secs_f64 :: "f64 \<Rightarrow> duration" where
  "from_secs_f64 x = nat (round_half_even (x * 1000000000))"

definition f64_div :: "f64 \<Rightarrow> f64 \<Rightarrow> f64" where "f64_div a b = f64_round (a / b)"
definition f64_mul :: "f64 \<Rightarrow> f64 \<Rightarrow> f64" where "f64_mul a b = f64_round (a * b)"
definition f64_add :: "f64 \<Rightarrow> f64 \<Rightarrow> f64" where "f64_add a b = f64_round (a + b)"
definition f64_sub :: "f64 \<Rightarrow> f64 \<Rightarrow> f64" where "f64_sub a b = f64_round (a - b)"

lemmas f64_ops = f64_div_def f64_mul_def f64_add_def f64_sub_def

end
