(* ===== verification/RateLimits.thy ===== *)
theory RateLimits
  imports StdNet F64 "HOL-Library.Multiset"
begin

section \<open>Denial-of-service limits, path bias and build times\<close>

text \<open>
  phinet-core/src/dos.rs, path_bias.rs and circuit_timing.rs: the three places where a node keeps numbers
  about others and decides by comparing them, in floating point. Clock readings are arguments; the
  rounding of every operation is part of the model (\<open>F64\<close>).

  Shown: the token bucket admits at most 80 circuits and one more for each second, up to the rounding
  error, whatever else happens in between; the suspicion test on guards is exactly the comparison
  \<open>10 * successes < 3 * attempts\<close>; the circuit timeout stays within its bounds and covers four
  fifths of the recorded builds.
\<close>

definition u32_f64 :: "u32 \<Rightarrow> f64" where
  "u32_f64 w = f64_round (of_nat (unat w))"

subsection \<open>Token buckets\<close>

definition MAX_CIRCUITS_PER_MIN :: u32 where "MAX_CIRCUITS_PER_MIN = 60"
definition CIRCUIT_BURST :: u32 where "CIRCUIT_BURST = 20"
definition MAX_CONNS_PER_IP :: u32 where "MAX_CONNS_PER_IP = 12"
definition RATE_WINDOW :: duration where "RATE_WINDOW = Prelude.secs 60"
definition STALE_AFTER :: duration where "STALE_AFTER = Prelude.secs (10 * 60)"

record client_stats =
  cs_tokens :: f64
  cs_last_refill :: instant
  cs_conns :: u32
  cs_last_seen :: instant
  cs_refused :: u64

definition client_stats_new :: "instant \<Rightarrow> client_stats" where
  "client_stats_new now = \<lparr> cs_tokens = u32_f64 (MAX_CIRCUITS_PER_MIN + CIRCUIT_BURST), cs_last_refill = now,
     cs_conns = 0, cs_last_seen = now, cs_refused = 0 \<rparr>"

definition refill :: "instant \<Rightarrow> client_stats \<Rightarrow> client_stats" where
  "refill now s =
     (let elapsed = as_secs_f64 (duration_since now (cs_last_refill s));
          per_sec = f64_div (u32_f64 MAX_CIRCUITS_PER_MIN) (as_secs_f64 RATE_WINDOW);
          ceiling = u32_f64 (MAX_CIRCUITS_PER_MIN + CIRCUIT_BURST)
      in s\<lparr>cs_tokens := min (f64_add (cs_tokens s) (f64_mul elapsed per_sec)) ceiling, cs_last_refill := now\<rparr>)"

record dos_guard =
  dg_clients :: "(ip_addr, client_stats) hmap"
  dg_exempt :: "ip_addr list"
  dg_enabled :: bool

definition dos_new :: dos_guard where
  "dos_new = \<lparr> dg_clients = [], dg_exempt = [], dg_enabled = False \<rparr>"

definition set_enabled :: "bool \<Rightarrow> dos_guard \<Rightarrow> dos_guard" where
  "set_enabled on g = g\<lparr>dg_enabled := on\<rparr>"

definition set_exempt :: "ip_addr list \<Rightarrow> dos_guard \<Rightarrow> dos_guard" where
  "set_exempt addrs g = g\<lparr>dg_exempt := addrs\<rparr>"

definition is_exempt :: "ip_addr \<Rightarrow> dos_guard \<Rightarrow> bool" where
  "is_exempt ip g \<longleftrightarrow>
     (case ip of V4 a \<Rightarrow> v4_is_loopback a | V6 a \<Rightarrow> v6_is_loopback a) \<or> ip \<in> set (dg_exempt g)"

text \<open>\<open>entry(ip).or_insert_with(..)\<close>\<close>

definition client_entry :: "instant \<Rightarrow> ip_addr \<Rightarrow> dos_guard \<Rightarrow> client_stats" where
  "client_entry now ip g =
     (case hm_get (dg_clients g) ip of None \<Rightarrow> client_stats_new now | Some st \<Rightarrow> st)"

definition put_client :: "ip_addr \<Rightarrow> client_stats \<Rightarrow> dos_guard \<Rightarrow> dos_guard" where
  "put_client ip st g = g\<lparr>dg_clients := hm_insert ip st (dg_clients g)\<rparr>"

definition allow_circuit :: "instant \<Rightarrow> ip_addr \<Rightarrow> dos_guard \<Rightarrow> bool \<times> dos_guard" where
  "allow_circuit now ip g =
     (if \<not> dg_enabled g \<or> is_exempt ip g then (True, g)
      else
        (let st = refill now ((client_entry now ip g)\<lparr>cs_last_seen := now\<rparr>)
         in if 1 \<le> cs_tokens st
            then (True, put_client ip (st\<lparr>cs_tokens := f64_sub (cs_tokens st) 1\<rparr>) g)
            else (False, put_client ip (st\<lparr>cs_refused := cs_refused st + 1\<rparr>) g)))"

definition allow_connection :: "instant \<Rightarrow> ip_addr \<Rightarrow> dos_guard \<Rightarrow> bool \<times> dos_guard" where
  "allow_connection now ip g =
     (if \<not> dg_enabled g \<or> is_exempt ip g then (True, g)
      else
        (let st = (client_entry now ip g)\<lparr>cs_last_seen := now\<rparr>
         in if MAX_CONNS_PER_IP \<le> cs_conns st
            then (False, put_client ip (st\<lparr>cs_refused := cs_refused st + 1\<rparr>) g)
            else (True, put_client ip (st\<lparr>cs_conns := cs_conns st + 1\<rparr>) g)))"

definition release_connection :: "instant \<Rightarrow> ip_addr \<Rightarrow> dos_guard \<Rightarrow> dos_guard" where
  "release_connection now ip g =
     (case hm_get (dg_clients g) ip of
        None \<Rightarrow> g
      | Some st \<Rightarrow> put_client ip (st\<lparr>cs_conns := sat_sub (cs_conns st) 1, cs_last_seen := now\<rparr>) g)"

definition refused_count :: "ip_addr \<Rightarrow> dos_guard \<Rightarrow> u64" where
  "refused_count ip g = (case hm_get (dg_clients g) ip of None \<Rightarrow> 0 | Some s \<Rightarrow> cs_refused s)"

definition offenders :: "dos_guard \<Rightarrow> (ip_addr \<times> u64) list" where
  "offenders g = sort_key (\<lambda>(_, n). - int (unat n))
     (map (\<lambda>(ip, s). (ip, cs_refused s)) (filter (\<lambda>(_, s). 0 < cs_refused s) (dg_clients g)))"

definition dos_cleanup :: "instant \<Rightarrow> dos_guard \<Rightarrow> dos_guard" where
  "dos_cleanup now g = g\<lparr>dg_clients := hm_retain
     (\<lambda>_ s. 0 < cs_conns s \<or> duration_since now (cs_last_seen s) < STALE_AFTER) (dg_clients g)\<rparr>"

subsection \<open>Path bias\<close>

definition MIN_ATTEMPTS :: u32 where "MIN_ATTEMPTS = 20"
definition WARN_SUCCESS_RATE :: f64 where "WARN_SUCCESS_RATE = f64_round (30 / 100)"

record guard_stats =
  gs_attempts :: u32
  gs_successes :: u32

definition guard_failures :: "guard_stats \<Rightarrow> u32" where
  "guard_failures s = sat_sub (gs_attempts s) (gs_successes s)"

definition success_rate :: "guard_stats \<Rightarrow> f64" where
  "success_rate s =
     (if gs_attempts s = 0 then 1 else f64_div (u32_f64 (gs_successes s)) (u32_f64 (gs_attempts s)))"

definition is_suspicious :: "guard_stats \<Rightarrow> bool" where
  "is_suspicious s \<longleftrightarrow> MIN_ATTEMPTS \<le> gs_attempts s \<and> success_rate s < WARN_SUCCESS_RATE"

type_synonym path_bias = "(string, guard_stats) hmap"

definition guard_stats_of :: "string \<Rightarrow> path_bias \<Rightarrow> guard_stats" where
  "guard_stats_of guard_hex b =
     (case hm_get b guard_hex of None \<Rightarrow> \<lparr> gs_attempts = 0, gs_successes = 0 \<rparr> | Some s \<Rightarrow> s)"

definition note_attempt :: "string \<Rightarrow> path_bias \<Rightarrow> path_bias" where
  "note_attempt guard_hex b =
     (let s = guard_stats_of guard_hex b in hm_insert guard_hex (s\<lparr>gs_attempts := gs_attempts s + 1\<rparr>) b)"

definition note_success :: "string \<Rightarrow> path_bias \<Rightarrow> path_bias" where
  "note_success guard_hex b =
     (let s = guard_stats_of guard_hex b in hm_insert guard_hex (s\<lparr>gs_successes := gs_successes s + 1\<rparr>) b)"

definition suspicious :: "path_bias \<Rightarrow> (string \<times> guard_stats) list" where
  "suspicious b = sort_key fst (filter (\<lambda>(_, s). is_suspicious s) b)"

definition all_guard_stats :: "path_bias \<Rightarrow> (string \<times> guard_stats) list" where
  "all_guard_stats b = sort_key (\<lambda>(_, s). success_rate s) b"

subsection \<open>Build times\<close>

definition TIMEOUT_PERCENTILE :: f64 where "TIMEOUT_PERCENTILE = f64_round (80 / 100)"
definition BUILD_WINDOW :: nat where "BUILD_WINDOW = 100"
definition MIN_SAMPLES :: nat where "MIN_SAMPLES = 20"
definition DEFAULT_TIMEOUT :: duration where "DEFAULT_TIMEOUT = Prelude.secs 15"
definition MIN_TIMEOUT :: duration where "MIN_TIMEOUT = 1500 * 1000000"
definition MAX_TIMEOUT :: duration where "MAX_TIMEOUT = Prelude.secs 60"

type_synonym build_times = "duration list"

definition record_build :: "duration \<Rightarrow> build_times \<Rightarrow> build_times" where
  "record_build d b = (if BUILD_WINDOW \<le> length b then tl b else b) @ [d]"

definition build_timeout :: "build_times \<Rightarrow> duration" where
  "build_timeout b =
     (if length b < MIN_SAMPLES then DEFAULT_TIMEOUT
      else
        (let v = sort b;
             idx = nat \<lceil>f64_mul (f64_round (of_nat (length v))) TIMEOUT_PERCENTILE\<rceil>;
             idx' = min (idx - 1) (length v - 1);
             p = v ! idx';
             with_slack = from_secs_f64 (f64_mul (f64_round (15 / 10)) (as_secs_f64 p))
         in max MIN_TIMEOUT (min MAX_TIMEOUT with_slack)))"

subsection \<open>The rate of circuits\<close>

datatype dos_event =
    DosCircuit ip_addr instant
  | DosConnect ip_addr instant
  | DosRelease ip_addr instant
  | DosCleanup instant

fun dos_time :: "dos_event \<Rightarrow> instant" where
  "dos_time (DosCircuit ip t) = t"
| "dos_time (DosConnect ip t) = t"
| "dos_time (DosRelease ip t) = t"
| "dos_time (DosCleanup t) = t"

fun dos_step :: "dos_event \<Rightarrow> dos_guard \<Rightarrow> bool \<times> dos_guard" where
  "dos_step (DosCircuit ip t) g = allow_circuit t ip g"
| "dos_step (DosConnect ip t) g = allow_connection t ip g"
| "dos_step (DosRelease ip t) g = (True, release_connection t ip g)"
| "dos_step (DosCleanup t) g = (True, dos_cleanup t g)"

fun is_circuit_of :: "ip_addr \<Rightarrow> dos_event \<Rightarrow> bool" where
  "is_circuit_of ip (DosCircuit i t) = (i = ip)"
| "is_circuit_of ip ev = False"

fun circuits_allowed :: "ip_addr \<Rightarrow> dos_event list \<Rightarrow> dos_guard \<Rightarrow> nat" where
  "circuits_allowed ip [] g = 0"
| "circuits_allowed ip (ev # evs) g =
     (let (ok, g') = dos_step ev g
      in (if ok \<and> is_circuit_of ip ev then 1 else 0) + circuits_allowed ip evs g')"

lemma u32_f64_exact: "u32_f64 w = of_nat (unat w)"
proof -
  have "unat w < 2 ^ 53" using unsigned_less [of w, where ?'a = nat] by simp
  then show ?thesis unfolding u32_f64_def by (rule f64_round_of_nat)
qed

lemma ceiling_80 [simp]: "u32_f64 (MAX_CIRCUITS_PER_MIN + CIRCUIT_BURST) = 80"
  by (simp add: u32_f64_exact MAX_CIRCUITS_PER_MIN_def CIRCUIT_BURST_def)

lemma per_second [simp]: "f64_div (u32_f64 MAX_CIRCUITS_PER_MIN) (as_secs_f64 RATE_WINDOW) = 1"
  by (simp add: f64_div_def u32_f64_exact MAX_CIRCUITS_PER_MIN_def as_secs_f64_def RATE_WINDOW_def secs_def
      f64_round_numeral)

definition elapsed_secs :: "instant \<Rightarrow> instant \<Rightarrow> rat" where
  "elapsed_secs t t' = of_nat (t' - t) / 1000000000"

lemma elapsed_secs_nonneg [simp]: "0 \<le> elapsed_secs t t'"
  by (simp add: elapsed_secs_def)

lemma elapsed_secs_add: "t \<le> u \<Longrightarrow> u \<le> v \<Longrightarrow> elapsed_secs t v = elapsed_secs t u + elapsed_secs u v"
  by (simp add: elapsed_secs_def flip: add_divide_distrib of_nat_add)

text \<open>The error that one refill and one withdrawal make.\<close>

abbreviation dos_eps :: rat where "dos_eps \<equiv> 1 / 2 ^ 40"

lemma refill_tokens:
  assumes "0 \<le> cs_tokens s" "cs_tokens s \<le> 80"
  shows "0 \<le> cs_tokens (refill now s)" "cs_tokens (refill now s) \<le> 80"
    and "cs_tokens (refill now s) \<le> cs_tokens s + elapsed_secs (cs_last_refill s) now + dos_eps / 2"
proof -
  define x where "x = elapsed_secs (cs_last_refill s) now"
  define e where "e = as_secs_f64 (duration_since now (cs_last_refill s))"
  define m where "m = f64_round e"
  define a where "a = f64_round (cs_tokens s + m)"
  have x: "0 \<le> x" by (simp add: x_def)
  have e: "0 \<le> e" "e \<le> x * (1 + 4 / 2 ^ 53)"
    using as_secs_f64_bounds [of "duration_since now (cs_last_refill s)"]
    by (simp_all add: e_def x_def elapsed_secs_def duration_since_def)
  note m = f64_round_bounds [OF e(1), folded m_def]
  have sum: "0 \<le> cs_tokens s + m" using assms(1) m(3) by simp
  note a = f64_round_bounds [OF sum, folded a_def]
  have r: "cs_tokens (refill now s) = min a 80"
    by (simp add: refill_def Let_def f64_add_def f64_mul_def a_def m_def e_def)
  show "0 \<le> cs_tokens (refill now s)" "cs_tokens (refill now s) \<le> 80" using a(3) by (simp_all add: r)
  show "cs_tokens (refill now s) \<le> cs_tokens s + elapsed_secs (cs_last_refill s) now + dos_eps / 2"
  proof (cases "x \<le> 80")
    case True
    have e': "e \<le> x + 320 / 2 ^ 53" using e(2) True by simp
    have m': "m \<le> x + 402 / 2 ^ 53" using m(2) e' True by simp
    have "cs_tokens s + m \<le> 162" using m' True assms(2) by simp
    then have "a \<le> cs_tokens s + x + dos_eps / 2" using a(2) m' by (simp add: field_simps)
    then show ?thesis by (simp add: r x_def min_def)
  next
    case False
    then show ?thesis using assms(1) by (simp add: r x_def min_def)
  qed
qed

lemma refill_fields [simp]:
  "cs_last_refill (refill now s) = now" "cs_last_seen (refill now s) = cs_last_seen s"
  by (simp_all add: refill_def Let_def)

text \<open>What is known of an address, and how many circuits it could still open at once.\<close>

definition client_ok :: "instant \<Rightarrow> client_stats \<Rightarrow> bool" where
  "client_ok t s \<longleftrightarrow> 0 \<le> cs_tokens s \<and> cs_tokens s \<le> 80 \<and> cs_last_refill s \<le> cs_last_seen s \<and> cs_last_seen s \<le> t"

definition dos_wf :: "ip_addr \<Rightarrow> instant \<Rightarrow> dos_guard \<Rightarrow> bool" where
  "dos_wf ip t g \<longleftrightarrow> dg_enabled g \<and> \<not> is_exempt ip g \<and> hm_wf (dg_clients g)
     \<and> (\<forall>s. hm_get (dg_clients g) ip = Some s \<longrightarrow> client_ok t s)"

definition budget :: "ip_addr \<Rightarrow> instant \<Rightarrow> dos_guard \<Rightarrow> rat" where
  "budget ip t g =
     (case hm_get (dg_clients g) ip of
        None \<Rightarrow> 80
      | Some s \<Rightarrow> min 80 (cs_tokens s + elapsed_secs (cs_last_refill s) t))"

lemma budget_le: "budget ip t g \<le> 80"
  by (simp add: budget_def split: option.splits)

lemma budget_nonneg: "dos_wf ip t g \<Longrightarrow> 0 \<le> budget ip t g"
  by (auto simp: budget_def dos_wf_def client_ok_def split: option.splits)

lemma budget_later:
  assumes "dos_wf ip t g" "t \<le> t'"
  shows "dos_wf ip t' g" "budget ip t' g \<le> budget ip t g + elapsed_secs t t'"
proof -
  show "dos_wf ip t' g" using assms by (auto simp: dos_wf_def client_ok_def)
  show "budget ip t' g \<le> budget ip t g + elapsed_secs t t'"
  proof (cases "hm_get (dg_clients g) ip")
    case (Some s)
    then have "cs_last_refill s \<le> t" using assms(1) by (auto simp: dos_wf_def client_ok_def)
    then show ?thesis using elapsed_secs_add [of "cs_last_refill s" t t'] assms(2) elapsed_secs_nonneg [of t t']
      unfolding budget_def Some option.case by linarith
  qed (simp add: budget_def)
qed

lemma put_client_wf:
  assumes "dos_wf ip t g" "i = ip \<Longrightarrow> client_ok t s"
  shows "dos_wf ip t (put_client i s g)"
  using assms by (auto simp: dos_wf_def put_client_def is_exempt_def hm.wf_ins hm.get_ins)

lemma put_client_budget:
  "budget ip t (put_client i s g)
    = (if i = ip then min 80 (cs_tokens s + elapsed_secs (cs_last_refill s) t) else budget ip t g)"
  by (simp add: budget_def put_client_def hm.get_ins)

lemma client_entry_ok:
  assumes "dos_wf ip t g"
  shows "client_ok t (client_entry t ip g)"
    and "budget ip t g = min 80 (cs_tokens (client_entry t ip g) + elapsed_secs (cs_last_refill (client_entry t ip g)) t)"
  using assms
  by (auto simp: client_entry_def client_stats_new_def budget_def dos_wf_def client_ok_def split: option.splits)

text \<open>One event: what it grants is taken from the budget.\<close>

lemma allow_circuit_budget:
  assumes "dos_wf ip t g" "allow_circuit t i g = (ok, g')"
  shows "dos_wf ip t g' \<and> budget ip t g' + (if ok \<and> i = ip then 1 else 0) \<le> budget ip t g + dos_eps"
proof (cases "i = ip")
  case False
  have "g' = g \<or> (\<exists>s. g' = put_client i s g)"
    using assms(2) by (auto simp: allow_circuit_def Let_def split: if_splits)
  then show ?thesis using assms(1) False by (auto simp: put_client_budget intro: put_client_wf)
next
  case True
  define s where "s = (client_entry t ip g)\<lparr>cs_last_seen := t\<rparr>"
  note entry = client_entry_ok [OF assms(1)]
  have s: "0 \<le> cs_tokens s" "cs_tokens s \<le> 80" "cs_last_refill s \<le> t" "cs_last_seen s = t"
      "budget ip t g = min 80 (cs_tokens s + elapsed_secs (cs_last_refill s) t)"
    using entry by (auto simp: s_def client_ok_def)
  note r = refill_tokens [OF s(1,2), of t]
  have b: "cs_tokens (refill t s) \<le> budget ip t g + dos_eps / 2" using r s(5) by (simp add: min_def)
  have 0: "elapsed_secs t t = 0" by (simp add: elapsed_secs_def)
  show ?thesis
  proof (cases "1 \<le> cs_tokens (refill t s)")
    case False
    then have g': "g' = put_client ip ((refill t s)\<lparr>cs_refused := cs_refused (refill t s) + 1\<rparr>) g" "\<not> ok"
      using assms True by (auto simp: allow_circuit_def dos_wf_def s_def Let_def)
    have "client_ok t ((refill t s)\<lparr>cs_refused := cs_refused (refill t s) + 1\<rparr>)"
      using r s by (simp add: client_ok_def)
    then have "dos_wf ip t g'" unfolding g'(1) by (intro put_client_wf [OF assms(1)])
    moreover have "budget ip t g' \<le> budget ip t g + dos_eps"
      using b by (simp add: g'(1) put_client_budget 0 min_def)
    ultimately show ?thesis using g'(2) by simp
  next
    case enough: True
    define v where "v = f64_sub (cs_tokens (refill t s)) 1"
    have d: "0 \<le> cs_tokens (refill t s) - 1" using enough by simp
    note v = f64_round_bounds [OF d, folded f64_sub_def, folded v_def]
    have v80: "v \<le> 80" using v(2) r(2) by (simp add: field_simps)
    have g': "g' = put_client ip ((refill t s)\<lparr>cs_tokens := v\<rparr>) g"
      using assms True enough by (auto simp: allow_circuit_def dos_wf_def s_def v_def Let_def)
    have "client_ok t ((refill t s)\<lparr>cs_tokens := v\<rparr>)" using v(3) v80 s by (simp add: client_ok_def)
    then have "dos_wf ip t g'" unfolding g' by (intro put_client_wf [OF assms(1)])
    moreover have "v + 1 \<le> cs_tokens (refill t s) + dos_eps / 2" using v(2) r(2) by (simp add: field_simps)
    then have "budget ip t g' + 1 \<le> budget ip t g + dos_eps"
      using b v80 by (simp add: g' put_client_budget 0 min_def)
    ultimately show ?thesis by simp
  qed
qed

lemma allow_connection_budget:
  assumes "dos_wf ip t g" "allow_connection t i g = (ok, g')"
  shows "dos_wf ip t g' \<and> budget ip t g' = budget ip t g"
proof -
  have "g' = g \<or> (\<exists>s. g' = put_client i s g \<and> cs_tokens s = cs_tokens (client_entry t i g)
      \<and> cs_last_refill s = cs_last_refill (client_entry t i g) \<and> cs_last_seen s = t)"
    using assms(2) by (auto simp: allow_connection_def Let_def split: if_splits)
  then show ?thesis
  proof (elim disjE exE conjE)
    fix s
    assume s: "g' = put_client i s g" "cs_tokens s = cs_tokens (client_entry t i g)"
        "cs_last_refill s = cs_last_refill (client_entry t i g)" "cs_last_seen s = t"
    have "client_ok t s" if "i = ip"
      using client_entry_ok(1) [OF assms(1)] s that by (auto simp: client_ok_def)
    then show ?thesis
      using client_entry_ok(2) [OF assms(1)] put_client_wf [OF assms(1)] s by (auto simp: put_client_budget)
  qed (use assms(1) in simp)
qed

lemma release_budget:
  assumes "dos_wf ip t g"
  shows "dos_wf ip t (release_connection t i g) \<and> budget ip t (release_connection t i g) = budget ip t g"
proof (cases "hm_get (dg_clients g) i")
  case None
  then show ?thesis using assms by (simp add: release_connection_def)
next
  case (Some s)
  let ?s = "s\<lparr>cs_conns := sat_sub (cs_conns s) 1, cs_last_seen := t\<rparr>"
  have "client_ok t ?s" if "i = ip" using assms Some that by (auto simp: dos_wf_def client_ok_def)
  then have "dos_wf ip t (put_client i ?s g)" by (rule put_client_wf [OF assms])
  moreover have "budget ip t (put_client i ?s g) = budget ip t g"
    using Some by (cases "i = ip") (simp_all add: put_client_budget, simp add: budget_def)
  ultimately show ?thesis by (simp add: release_connection_def Some)
qed

text \<open>An entry is dropped only when its bucket would be full.\<close>

lemma cleanup_budget:
  assumes "dos_wf ip t g"
  shows "dos_wf ip t (dos_cleanup t g) \<and> budget ip t (dos_cleanup t g) \<le> budget ip t g"
proof -
  have wf: "hm_wf (dg_clients g)" using assms by (simp add: dos_wf_def)
  have "dos_wf ip t (dos_cleanup t g)"
    using assms hm.keep_sub [OF wf] by (auto simp: dos_wf_def dos_cleanup_def is_exempt_def hm.wf_keep)
  moreover have "budget ip t (dos_cleanup t g) \<le> budget ip t g"
  proof (cases "hm_get (dg_clients g) ip")
    case None
    then show ?thesis by (simp add: budget_def dos_cleanup_def hm.get_keep [OF wf])
  next
    case (Some s)
    have ok: "client_ok t s" using assms Some by (simp add: dos_wf_def)
    show ?thesis
    proof (cases "0 < cs_conns s \<or> duration_since t (cs_last_seen s) < STALE_AFTER")
      case True
      then show ?thesis by (simp add: budget_def dos_cleanup_def hm.get_keep [OF wf] Some)
    next
      case False
      then have "600 * 1000000000 \<le> t - cs_last_seen s" by (simp add: duration_since_def STALE_AFTER_def secs_def)
      moreover have "t - cs_last_seen s \<le> t - cs_last_refill s" using ok unfolding client_ok_def by linarith
      ultimately have "600 * 1000000000 \<le> t - cs_last_refill s" by (rule order_trans)
      then have "(of_nat (600 * 1000000000) :: rat) \<le> of_nat (t - cs_last_refill s)" by (simp only: of_nat_le_iff)
      then have "80 \<le> elapsed_secs (cs_last_refill s) t" by (simp add: elapsed_secs_def)
      then have "budget ip t g = 80" using ok by (simp add: budget_def Some client_ok_def)
      then show ?thesis using budget_le by simp
    qed
  qed
  ultimately show ?thesis by simp
qed

lemma dos_step_budget:
  assumes "dos_wf ip t g" "t \<le> dos_time ev" "dos_step ev g = (ok, g')"
  shows "dos_wf ip (dos_time ev) g'
    \<and> budget ip (dos_time ev) g' + (if ok \<and> is_circuit_of ip ev then 1 else 0)
      \<le> budget ip t g + elapsed_secs t (dos_time ev) + dos_eps"
proof -
  note later = budget_later [OF assms(1,2)]
  show ?thesis
  proof (cases ev)
    case (DosCircuit i u)
    with allow_circuit_budget [OF later(1), of i ok g'] later(2) assms(3) show ?thesis by simp
  next
    case (DosConnect i u)
    with allow_connection_budget [OF later(1), of i ok g'] later(2) assms(3) show ?thesis by simp
  next
    case (DosRelease i u)
    with release_budget [OF later(1), of i] later(2) assms(3) show ?thesis by simp
  next
    case (DosCleanup u)
    with cleanup_budget [OF later(1)] later(2) assms(3) show ?thesis by simp
  qed
qed

lemma circuits_allowed_bound:
  assumes "dos_wf ip t g" "sorted (t # map dos_time evs)" "\<forall>ev \<in> set evs. dos_time ev \<le> t'" "t \<le> t'"
  shows "of_nat (circuits_allowed ip evs g) \<le> budget ip t g + elapsed_secs t t' + of_nat (length evs) * dos_eps"
  using assms
proof (induction evs arbitrary: t g)
  case Nil
  then show ?case using budget_nonneg [of ip t g] by simp
next
  case (Cons ev evs)
  obtain ok g' where st: "dos_step ev g = (ok, g')" by (cases "dos_step ev g")
  have t: "t \<le> dos_time ev" "dos_time ev \<le> t'" using Cons.prems by simp_all
  note s = dos_step_budget [OF Cons.prems(1) t(1) st]
  have "of_nat (circuits_allowed ip evs g')
      \<le> budget ip (dos_time ev) g' + elapsed_secs (dos_time ev) t' + of_nat (length evs) * dos_eps"
    by (rule Cons.IH) (use s Cons.prems in simp_all)
  moreover have "of_nat (circuits_allowed ip (ev # evs) g)
      = (if ok \<and> is_circuit_of ip ev then 1 else 0) + (of_nat (circuits_allowed ip evs g') :: rat)"
    by (simp add: st)
  moreover have "of_nat (length (ev # evs)) * dos_eps = of_nat (length evs) * dos_eps + dos_eps"
    by (simp add: field_simps)
  ultimately show ?case using s elapsed_secs_add [OF t] by linarith
qed

subsection \<open>The success rate of a guard\<close>

lemma rate_gap:
  assumes "0 < a" "a < 2 ^ 32"
  shows "f64_round (of_nat n / of_nat a) < f64_round (3/10) \<longleftrightarrow> 10 * n < 3 * a"
proof -
  let ?x = "of_nat n / of_nat a :: rat"
  have "(of_nat a :: rat) < of_nat (2 ^ 32)" using assms(2) by (simp only: of_nat_less_iff)
  then have a: "(0 :: rat) < of_nat a" "(of_nat a :: rat) < 2 ^ 32" using assms(1) by simp_all
  have inv: "1 / 2 ^ 36 < 1 / (10 * of_nat a :: rat)" using a by (simp add: field_simps)
  note x = f64_round_bounds [of ?x, simplified] and w = f64_round_bounds [of "3/10", simplified]
  show ?thesis
  proof (cases "10 * n" "3 * a" rule: linorder_cases)
    case less
    then have "10 * n + 1 \<le> 3 * a" by simp
    then have "(of_nat (10 * n + 1) :: rat) \<le> of_nat (3 * a)" by (simp only: of_nat_le_iff)
    then have "(10 * of_nat n + 1 :: rat) \<le> 3 * of_nat a" by simp
    then have "?x + 1 / (10 * of_nat a) \<le> 3/10" using a(1) by (simp add: field_simps)
    with inv have "?x < 3/10 - 1 / 2 ^ 36" by linarith
    then have "f64_round ?x < f64_round (3/10)" using x(2) w(1) by (simp add: field_simps)
    with less show ?thesis by simp
  next
    case equal
    then have "(of_nat (10 * n) :: rat) = of_nat (3 * a)" by (simp only:)
    then have "(10 * of_nat n :: rat) = 3 * of_nat a" by simp
    then have "?x = 3/10" using a(1) by (simp add: field_simps)
    then have "f64_round ?x = f64_round (3/10)" by (rule arg_cong)
    with equal show ?thesis by simp
  next
    case greater
    then have "3 * a + 1 \<le> 10 * n" by simp
    then have "(of_nat (3 * a + 1) :: rat) \<le> of_nat (10 * n)" by (simp only: of_nat_le_iff)
    then have "(3 * of_nat a + 1 :: rat) \<le> 10 * of_nat n" by simp
    then have "(3 * of_nat a + 1) / (10 * of_nat a) \<le> 10 * of_nat n / (10 * of_nat a :: rat)"
      using a(1) by (intro divide_right_mono) simp_all
    moreover have "(3 * of_nat a + 1) / (10 * of_nat a) = 3/10 + 1 / (10 * of_nat a :: rat)"
      using a(1) by (simp add: add_divide_distrib)
    ultimately have "3/10 + 1 / (10 * of_nat a) \<le> ?x" by simp
    with inv have "3/10 + 1 / 2 ^ 36 < ?x" by linarith
    then have "f64_round (3/10) < f64_round ?x" using x(1) w(2) by (simp add: field_simps)
    with greater show ?thesis by simp
  qed
qed

subsection \<open>The percentile of the build times\<close>

lemma eighty_percent: "TIMEOUT_PERCENTILE = 3602879701896397 / 2 ^ 52"
  unfolding TIMEOUT_PERCENTILE_def
  by (subst f64_round_eqI [of "-1" _ "7205759403792794"]) (simp_all add: power_int_def power_divide)

lemma eighty_percent_exact:
  assumes "4 \<le> k" "k \<le> (20 :: nat)"
  shows "f64_round (of_nat (5 * k) * TIMEOUT_PERCENTILE) = of_nat (4 * k)"
proof -
  define q :: rat where "q = of_nat k"
  have q: "4 \<le> q" "q \<le> 20" using assms by (simp_all add: q_def)
  have x: "of_nat (5 * k) * TIMEOUT_PERCENTILE = 5 * q * (3602879701896397 / 2 ^ 52)"
    by (simp add: q_def eighty_percent)
  have step: "f64_round (5 * q * (3602879701896397 / 2 ^ 52)) = 4 * q"
    if "2 ^ j \<le> 4 * q" "4 * q < 2 ^ (j + 1)" "j \<in> {4, 5, 6}" for j :: nat
  proof (subst f64_round_eqI [of "int j" _ "int (4 * k * 2 ^ (52 - j))"])
    have le: "4 * q \<le> 5 * q * (3602879701896397 / 2 ^ 52)" "5 * q * (3602879701896397 / 2 ^ 52) \<le> 4 * q + q / 2 ^ 52"
      using q by (simp_all add: field_simps)
    show "2 powi int j \<le> 5 * q * (3602879701896397 / 2 ^ 52)" using le(1) that(1) by simp
    have "4 * q + q / 2 ^ 52 < 2 ^ (j + 1)"
    proof -
      have "of_nat (4 * k) < (of_nat (2 ^ (j + 1)) :: rat)" using that(2) by (simp add: q_def)
      then have "4 * k + 1 \<le> 2 ^ (j + 1)" by (simp only: of_nat_less_iff)
      then have "(of_nat (4 * k + 1) :: rat) \<le> of_nat (2 ^ (j + 1))" by (simp only: of_nat_le_iff)
      then have "4 * q + 1 \<le> 2 ^ (j + 1)" by (simp add: q_def)
      then show ?thesis using q by simp
    qed
    then show "5 * q * (3602879701896397 / 2 ^ 52) < 2 powi (int j + 1)"
      using le(2) by (simp add: power_int_add)
    show "\<bar>5 * q * (3602879701896397 / 2 ^ 52) * 2 powi (52 - int j) - of_int (int (4 * k * 2 ^ (52 - j)))\<bar> < 1/2"
      using that q by (auto simp: power_int_def q_def [symmetric] field_simps)
    show "of_int (int (4 * k * 2 ^ (52 - j))) * 2 powi (int j - 52) = 4 * q"
      using that(3) by (auto simp: power_int_def q_def field_simps)
  qed
  consider "4 * q < 32" | "32 \<le> 4 * q" "4 * q < 64" | "64 \<le> 4 * q" by linarith
  then have "f64_round (5 * q * (3602879701896397 / 2 ^ 52)) = 4 * q"
    using step [of 4] step [of 5] step [of 6] q by cases simp_all
  then show ?thesis unfolding x by (simp add: q_def)
qed

lemma percentile_index:
  assumes "20 \<le> n" "n \<le> 100"
  shows "nat \<lceil>f64_mul (f64_round (of_nat n)) TIMEOUT_PERCENTILE\<rceil> = (4 * n + 4) div 5"
proof -
  define k where "k = n div 5"
  define r where "r = n mod 5"
  have n: "n = 5 * k + r" "r < 5" "4 \<le> k" "k \<le> 20" using assms by (simp_all add: k_def r_def)
  have v: "f64_mul (f64_round (of_nat n)) TIMEOUT_PERCENTILE = f64_round (of_nat n * TIMEOUT_PERCENTILE)"
    using assms by (simp add: f64_mul_def f64_round_of_nat)
  show ?thesis
  proof (cases "r = 0")
    case True
    then have "f64_round (of_nat n * TIMEOUT_PERCENTILE) = of_int (int (4 * k))"
      using eighty_percent_exact [OF n(3,4)] by (simp add: n(1))
    then have "nat \<lceil>f64_round (of_nat n * TIMEOUT_PERCENTILE)\<rceil> = 4 * k" by (simp only: ceiling_of_int nat_int)
    then show ?thesis unfolding v using n(1) True by simp
  next
    case False
    define x :: rat where "x = of_nat n * TIMEOUT_PERCENTILE"
    have "(of_nat n :: rat) \<le> of_nat 100" using assms(2) by (simp only: of_nat_le_iff)
    then have x: "0 \<le> x" "4/5 * of_nat n \<le> x" "x \<le> 4/5 * of_nat n + 1/1000"
      by (simp_all add: x_def eighty_percent field_simps)
    note b = f64_round_bounds [OF x(1)]
    have x81: "x \<le> 81" using x(3) \<open>of_nat n \<le> of_nat 100\<close> by simp
    define K :: rat where "K = of_int (int (4 * k))"
    define R :: rat where "R = of_nat r"
    have n': "4/5 * of_nat n = K + 4/5 * R" by (simp add: n(1) K_def R_def)
    have r: "4/5 * R \<le> R - 1/5" "R - 4/5 \<le> 4/5 * R"
      using False n(2) by (auto simp: R_def less_Suc_eq numeral_eq_Suc)
    have "x / 2 ^ 53 \<le> 1/1000" using x81 by simp
    then have "x - 1/1000 \<le> f64_round x" "f64_round x \<le> x + 1/1000" using b(1,2) by linarith+
    then have "K + R - 1 < f64_round x" "f64_round x \<le> K + R"
      using x(2,3) r unfolding n' by linarith+
    moreover have "(of_int (int (4 * k) + int r) :: rat) = K + R" by (simp add: K_def R_def)
    ultimately have "of_int (int (4 * k) + int r) - 1 < f64_round x" "f64_round x \<le> of_int (int (4 * k) + int r)"
      by simp_all
    then have "\<lceil>f64_round x\<rceil> = int (4 * k) + int r" unfolding ceiling_eq_iff by blast
    then have "nat \<lceil>f64_round x\<rceil> = 4 * k + r" by (simp only: flip: of_nat_add nat_int)
    moreover have "(4 * n + 4) div 5 = 4 * k + r" using False n(1,2) by linarith
    ultimately show ?thesis by (simp add: v x_def)
  qed
qed

text \<open>Multiplying by one and a half does not fall below the value, whatever the rounding.\<close>

lemma slack_covers: "p \<le> from_secs_f64 (f64_mul (f64_round (15 / 10)) (as_secs_f64 p))"
proof (cases "p = 0")
  case False
  define x :: rat where "x = of_nat p / 1000000000"
  have "1 \<le> p" using False by simp
  then have p1: "(1 :: rat) \<le> of_nat p" by simp
  have f: "f64_round (3/2) = 3/2"
    by (subst f64_round_eqI [of 0 _ "6755399441055744"]) (simp_all add: power_int_def power_divide)
  note a = as_secs_f64_bounds [of p, folded x_def]
  have z: "0 \<le> 3/2 * as_secs_f64 p" using a(3) by simp
  have x0: "0 \<le> x" by (simp add: x_def)
  have "of_nat p \<le> f64_round (3/2 * as_secs_f64 p) * 1000000000 - 0"
    using f64_round_bounds(1) [OF z] a(1) x0 by (simp add: x_def field_simps)
  moreover have "\<bar>of_int (round_half_even (f64_round (3/2 * as_secs_f64 p) * 1000000000))
      - f64_round (3/2 * as_secs_f64 p) * 1000000000\<bar> \<le> 1/2" by (rule round_half_even_bound)
  ultimately have "(of_nat p :: rat) - 1 < of_int (round_half_even (f64_round (3/2 * as_secs_f64 p) * 1000000000))"
    by linarith
  then have "int p - 1 < round_half_even (f64_round (3/2 * as_secs_f64 p) * 1000000000)"
    by (metis of_int_1 of_int_diff of_int_less_iff of_int_of_nat_eq)
  then show ?thesis by (simp add: from_secs_f64_def f64_mul_def f)
qed simp

lemma sorted_prefix_count:
  assumes "i < length b"
  shows "Suc i \<le> length (filter (\<lambda>d. d \<le> sort b ! i) b)"
proof -
  let ?P = "\<lambda>d. d \<le> sort b ! i"
  have "length (filter ?P b) = length (filter ?P (sort b))"
    by (metis mset_filter mset_sort size_mset)
  moreover have "filter ?P (take (Suc i) (sort b)) = take (Suc i) (sort b)"
    using assms by (auto simp: filter_id_conv in_set_conv_nth less_Suc_eq_le intro!: sorted_nth_mono)
  then have "filter ?P (sort b) = take (Suc i) (sort b) @ filter ?P (drop (Suc i) (sort b))"
    by (metis append_take_drop_id filter_append)
  ultimately show ?thesis using assms by simp
qed

lemma build_timeout_bounds: "MIN_TIMEOUT \<le> build_timeout b \<and> build_timeout b \<le> MAX_TIMEOUT"
  by (simp add: build_timeout_def Let_def MIN_TIMEOUT_def MAX_TIMEOUT_def DEFAULT_TIMEOUT_def secs_def)

lemma record_builds_length: "length (fold record_build ds []) \<le> BUILD_WINDOW"
  by (induction ds rule: rev_induct) (simp_all add: record_build_def BUILD_WINDOW_def)

lemma build_timeout_covers:
  assumes "MIN_SAMPLES \<le> length b" "length b \<le> BUILD_WINDOW" "build_timeout b < MAX_TIMEOUT"
  shows "4 * length b \<le> 5 * length (filter (\<lambda>d. d \<le> build_timeout b) b)"
proof -
  define i where "i = (4 * length b + 4) div 5 - 1"
  have n: "20 \<le> length b" "length b \<le> 100" using assms by (simp_all add: MIN_SAMPLES_def BUILD_WINDOW_def)
  have i: "i < length b" "4 * length b \<le> 5 * Suc i" using n by (simp_all add: i_def)
  have idx: "min (nat \<lceil>f64_mul (f64_round (of_nat (length (sort b)))) TIMEOUT_PERCENTILE\<rceil> - 1) (length (sort b) - 1) = i"
    using percentile_index [OF n] i by (simp add: i_def)
  define w where "w = from_secs_f64 (f64_mul (f64_round (15 / 10)) (as_secs_f64 (sort b ! i)))"
  have t: "build_timeout b = max MIN_TIMEOUT (min MAX_TIMEOUT w)"
    using n(1) by (simp only: build_timeout_def Let_def idx w_def) (simp add: MIN_SAMPLES_def)
  have "sort b ! i \<le> w" unfolding w_def by (rule slack_covers)
  then have "sort b ! i \<le> build_timeout b" using assms(3) by (auto simp: t)
  then have "length (filter (\<lambda>d. d \<le> sort b ! i) xs) \<le> length (filter (\<lambda>d. d \<le> build_timeout b) xs)" for xs
    by (induction xs) auto
  from this [of b] show ?thesis using sorted_prefix_count [OF i(1)] i(2) by simp
qed

subsection \<open>Properties\<close>

text \<open>C23: the circuit limit holds for every address and every window. Between two moments at most 80 circuits
  of an address that is not exempt are admitted, and one more for each second between them, whatever
  connections, disconnections and clean-ups happen meanwhile; the rounding of the bucket's arithmetic adds
  at most \<open>2 ^ -40\<close> for each request.\<close>

theorem circuit_rate_limited:
  assumes "dos_wf ip t g" "sorted (t # map dos_time evs)" "\<forall>ev \<in> set evs. dos_time ev \<le> t'" "t \<le> t'"
  shows "of_nat (circuits_allowed ip evs g) \<le> 80 + elapsed_secs t t' + of_nat (length evs) / 2 ^ 40"
  using circuits_allowed_bound [OF assms] budget_le [of ip t g] by simp

theorem circuit_rate_limited_witness:
  "of_nat (circuits_allowed (V4 (Ipv4 203 0 113 5))
      (replicate 1000 (DosCircuit (V4 (Ipv4 203 0 113 5)) (Prelude.secs 7))) (set_enabled True dos_new))
    \<le> 80 + elapsed_secs 0 (Prelude.secs 7) + (of_nat 1000 / 2 ^ 40 :: rat)"
  using circuit_rate_limited [of "V4 (Ipv4 203 0 113 5)" 0 "set_enabled True dos_new"
      "replicate 1000 (DosCircuit (V4 (Ipv4 203 0 113 5)) (Prelude.secs 7))" "Prelude.secs 7"]
  by (simp add: dos_wf_def set_enabled_def dos_new_def is_exempt_def)

text \<open>the test for a suspicious guard, computed in floating point, is exact: a guard is reported when it was
  tried at least twenty times and fewer than three tenths of its circuits succeeded.\<close>

theorem suspicion_exact:
  "is_suspicious s \<longleftrightarrow> 20 \<le> unat (gs_attempts s) \<and> 10 * unat (gs_successes s) < 3 * unat (gs_attempts s)"
proof (cases "20 \<le> unat (gs_attempts s)")
  case True
  have a: "0 < unat (gs_attempts s)" "unat (gs_attempts s) < 2 ^ 32"
    using True unsigned_less [of "gs_attempts s", where ?'a = nat] by simp_all
  have "MIN_ATTEMPTS \<le> gs_attempts s" "gs_attempts s \<noteq> 0"
    using True by (auto simp: MIN_ATTEMPTS_def word_le_nat_alt)
  then show ?thesis
    using rate_gap [OF a, of "unat (gs_successes s)"] True
    by (simp add: is_suspicious_def success_rate_def WARN_SUCCESS_RATE_def f64_div_def u32_f64_exact)
next
  case False
  then show ?thesis by (simp add: is_suspicious_def MIN_ATTEMPTS_def word_le_nat_alt)
qed

text \<open>the circuit timeout lies between 1.5 and 60 seconds whatever was recorded, and once it adapts it is
  no shorter than four fifths of the recorded builds, unless it is at its maximum.\<close>

theorem circuit_timeout_covers:
  "MIN_TIMEOUT \<le> build_timeout (fold record_build ds []) \<and> build_timeout (fold record_build ds []) \<le> MAX_TIMEOUT
    \<and> (length (fold record_build ds []) < MIN_SAMPLES \<or> build_timeout (fold record_build ds []) = MAX_TIMEOUT
        \<or> 4 * length (fold record_build ds [])
            \<le> 5 * length (filter (\<lambda>d. d \<le> build_timeout (fold record_build ds [])) (fold record_build ds [])))"
  using build_timeout_bounds [of "fold record_build ds []"]
    build_timeout_covers [OF _ record_builds_length, of ds] by fastforce

end
