(* ===== verification/Sched.thy ===== *)
theory Sched
  imports Circuit F64 "HOL-Library.Multiset"
begin

section \<open>Scheduling of cells and the pool of warm circuits\<close>

text \<open>
  phinet-core/src/circuit_sched.rs and the per-circuit cell queues of a link (\<open>CellQueues\<close> in
  phinet-core/src/node.rs), which serve the circuit with the lowest decayed score; and
  phinet-core/src/circuit_pool.rs with its use by the pool loop and \<open>rp_circuit\<close> of node.rs. The power
  function of the decay (\<open>powf\<close>) is a parameter; the messages are of any type.

  Shown: the queues of a link implement one queue for each circuit, so cells of a circuit leave in the
  order they came and none is lost, and a cell leaves whenever one waits; the circuit served is the one
  with the lowest score. Every circuit put into the pool is in the pool, was handed out while fresh and not
  ending at the relay to avoid, or was retired as stale.
\<close>

subsection \<open>Decayed scores\<close>

definition HALF_LIFE :: duration where "HALF_LIFE = Prelude.secs 10"
definition NEGLIGIBLE :: f64 where "NEGLIGIBLE = f64_round (1 / 1000)"

record ewma_scheduler =
  ew_scores :: "(u32, f64) hmap"
  ew_last_decay :: "instant option"

type_synonym powf = "f64 \<Rightarrow> f64 \<Rightarrow> f64"

definition ewma_new :: ewma_scheduler where
  "ewma_new = \<lparr> ew_scores = [], ew_last_decay = None \<rparr>"

definition decay :: "powf \<Rightarrow> instant \<Rightarrow> ewma_scheduler \<Rightarrow> ewma_scheduler" where
  "decay pw now s =
     (case ew_last_decay s of
        None \<Rightarrow> s\<lparr>ew_last_decay := Some now\<rparr>
      | Some prev \<Rightarrow>
          let dt = as_secs_f64 (duration_since now prev) in
          if dt \<le> 0 then s
          else
            (let factor = pw (f64_round (5 / 10)) (f64_div dt (as_secs_f64 HALF_LIFE));
                 scores = map (\<lambda>(k, v). (k, f64_mul v factor)) (ew_scores s)
             in s\<lparr>ew_last_decay := Some now, ew_scores := hm_retain (\<lambda>_ v. NEGLIGIBLE < v) scores\<rparr>))"

definition ew_score :: "u32 \<Rightarrow> ewma_scheduler \<Rightarrow> f64" where
  "ew_score cid s = (case hm_get (ew_scores s) cid of None \<Rightarrow> 0 | Some v \<Rightarrow> v)"

definition note_sent :: "powf \<Rightarrow> u32 \<Rightarrow> u32 \<Rightarrow> instant \<Rightarrow> ewma_scheduler \<Rightarrow> ewma_scheduler" where
  "note_sent pw cid cells now s =
     (let s1 = decay pw now s
      in s1\<lparr>ew_scores := hm_insert cid (f64_add (ew_score cid s1) (f64_round (of_nat (unat cells)))) (ew_scores s1)\<rparr>)"

text \<open>\<open>Iterator::min_by\<close>: the first of the smallest elements, by score and then by id.\<close>

definition quieter :: "ewma_scheduler \<Rightarrow> u32 \<Rightarrow> u32 \<Rightarrow> bool" where
  "quieter s a b \<longleftrightarrow> ew_score a s < ew_score b s \<or> (ew_score a s = ew_score b s \<and> a < b)"

fun min_ready :: "ewma_scheduler \<Rightarrow> u32 list \<Rightarrow> u32 option" where
  "min_ready s [] = None"
| "min_ready s (c # cs) = Some (fold (\<lambda>x best. if quieter s x best then x else best) cs c)"

definition sched_next :: "powf \<Rightarrow> u32 list \<Rightarrow> instant \<Rightarrow> ewma_scheduler \<Rightarrow> u32 option \<times> ewma_scheduler" where
  "sched_next pw ready now s = (let s1 = decay pw now s in (min_ready s1 ready, s1))"

definition sched_forget :: "u32 \<Rightarrow> ewma_scheduler \<Rightarrow> ewma_scheduler" where
  "sched_forget cid s = s\<lparr>ew_scores := hm_remove cid (ew_scores s)\<rparr>"

definition sched_tracked :: "ewma_scheduler \<Rightarrow> nat" where
  "sched_tracked s = length (ew_scores s)"

subsection \<open>The queues of a link\<close>

record 'm cell_queues =
  cq_q :: "(u32, 'm list) hmap"
  cq_sched :: ewma_scheduler

definition cell_queues_new :: "'m cell_queues" where
  "cell_queues_new = \<lparr> cq_q = [], cq_sched = ewma_new \<rparr>"

definition cq_queue :: "u32 \<Rightarrow> 'm cell_queues \<Rightarrow> 'm list" where
  "cq_queue cid c = (case hm_get (cq_q c) cid of None \<Rightarrow> [] | Some v \<Rightarrow> v)"

definition cq_push :: "u32 \<Rightarrow> 'm \<Rightarrow> 'm cell_queues \<Rightarrow> 'm cell_queues" where
  "cq_push cid msg c = c\<lparr>cq_q := hm_insert cid (cq_queue cid c @ [msg]) (cq_q c)\<rparr>"

definition cq_ready :: "'m cell_queues \<Rightarrow> u32 list" where
  "cq_ready c = map fst (filter (\<lambda>(_, v). v \<noteq> []) (cq_q c))"

definition cq_pop_next :: "powf \<Rightarrow> instant \<Rightarrow> 'm cell_queues \<Rightarrow> (u32 \<times> 'm) option \<times> 'm cell_queues" where
  "cq_pop_next pw now c =
     (if cq_ready c = [] then (None, c)
      else
        (case sched_next pw (cq_ready c) now (cq_sched c) of
           (None, s) \<Rightarrow> (None, c\<lparr>cq_sched := s\<rparr>)
         | (Some cid, s) \<Rightarrow>
             (case cq_queue cid c of
                [] \<Rightarrow> (None, c\<lparr>cq_sched := s\<rparr>)
              | msg # rest \<Rightarrow>
                  (Some (cid, msg),
                   c\<lparr>cq_q := (if rest = [] then hm_remove cid (cq_q c) else hm_insert cid rest (cq_q c)),
                     cq_sched := note_sent pw cid 1 now s\<rparr>))))"

definition cq_forget :: "u32 \<Rightarrow> 'm cell_queues \<Rightarrow> 'm cell_queues" where
  "cq_forget cid c = c\<lparr>cq_q := hm_remove cid (cq_q c), cq_sched := sched_forget cid (cq_sched c)\<rparr>"

subsection \<open>The pool\<close>

definition POOL_TARGET :: nat where "POOL_TARGET = 2"
definition MAX_IDLE :: duration where "MAX_IDLE = Prelude.secs (10 * 60)"
definition REBUILD_BACKOFF :: duration where "REBUILD_BACKOFF = Prelude.secs 15"

record pooled_circuit =
  pc_cid :: circuit_id
  pc_path :: "link_spec list"
  pc_built_at :: instant

definition terminal_hex :: "prims \<Rightarrow> pooled_circuit \<Rightarrow> string option" where
  "terminal_hex P c = (if pc_path c = [] then None else Some (p_hex_encode P (ls_node_id (last (pc_path c)))))"

definition is_stale :: "instant \<Rightarrow> pooled_circuit \<Rightarrow> bool" where
  "is_stale now c \<longleftrightarrow> MAX_IDLE < duration_since now (pc_built_at c)"

record circuit_pool =
  cp_ready :: "pooled_circuit list"
  cp_last_failure :: "instant option"

definition pool_new :: circuit_pool where
  "pool_new = \<lparr> cp_ready = [], cp_last_failure = None \<rparr>"

definition pool_push :: "pooled_circuit \<Rightarrow> circuit_pool \<Rightarrow> circuit_pool" where
  "pool_push c p = p\<lparr>cp_ready := cp_ready p @ [c]\<rparr>"

definition note_failure :: "instant \<Rightarrow> circuit_pool \<Rightarrow> circuit_pool" where
  "note_failure now p = p\<lparr>cp_last_failure := Some now\<rparr>"

definition wants_more :: "instant \<Rightarrow> circuit_pool \<Rightarrow> bool" where
  "wants_more now p =
     (case cp_last_failure p of
        Some t \<Rightarrow> if duration_since now t < REBUILD_BACKOFF then False else length (cp_ready p) < POOL_TARGET
      | None \<Rightarrow> length (cp_ready p) < POOL_TARGET)"

definition drain_stale :: "instant \<Rightarrow> circuit_pool \<Rightarrow> pooled_circuit list \<times> circuit_pool" where
  "drain_stale now p =
     (filter (is_stale now) (cp_ready p), p\<lparr>cp_ready := filter (\<lambda>c. \<not> is_stale now c) (cp_ready p)\<rparr>)"

definition usable :: "prims \<Rightarrow> instant \<Rightarrow> string option \<Rightarrow> pooled_circuit \<Rightarrow> bool" where
  "usable P now avoid c \<longleftrightarrow> \<not> is_stale now c
     \<and> (case (avoid, terminal_hex P c) of (Some bad, Some t) \<Rightarrow> t \<noteq> bad | _ \<Rightarrow> True)"

definition pool_take :: "prims \<Rightarrow> instant \<Rightarrow> string option \<Rightarrow> circuit_pool \<Rightarrow> pooled_circuit option \<times> circuit_pool" where
  "pool_take P now avoid p =
     (case position (usable P now avoid) (cp_ready p) of
        None \<Rightarrow> (None, p)
      | Some idx \<Rightarrow> (Some (cp_ready p ! idx), p\<lparr>cp_ready := remove_at idx (cp_ready p)\<rparr>))"

definition take_all :: "circuit_pool \<Rightarrow> pooled_circuit list \<times> circuit_pool" where
  "take_all p = (cp_ready p, p\<lparr>cp_ready := []\<rparr>)"

text \<open>
  One round of the maintenance loop: stale circuits go, then circuits are built one after the other until
  the pool has enough or a build fails. The outcomes of the builds, each with the time it ended, are an
  argument; so is whether there is a consensus.
\<close>

fun pool_fill :: "bool \<Rightarrow> (instant \<times> instant \<times> pooled_circuit option) list \<Rightarrow> circuit_pool \<Rightarrow> circuit_pool" where
  "pool_fill consensus [] p = p"
| "pool_fill consensus ((asked, ended, outcome) # rest) p =
     (if \<not> wants_more asked p then p
      else if \<not> consensus then p
      else
        (case outcome of
           Some c \<Rightarrow> pool_fill consensus rest (pool_push c p)
         | None \<Rightarrow> note_failure ended p))"

definition pool_round ::
  "bool \<Rightarrow> instant \<Rightarrow> (instant \<times> instant \<times> pooled_circuit option) list \<Rightarrow> circuit_pool \<Rightarrow> pooled_circuit list \<times> circuit_pool" where
  "pool_round consensus now outcomes p = (let (stale, p1) = drain_stale now p in (stale, pool_fill consensus outcomes p1))"

text \<open>A warm circuit when there is one, a fresh one otherwise.\<close>

definition rp_circuit ::
  "prims \<Rightarrow> instant \<Rightarrow> string \<Rightarrow> pooled_circuit result \<Rightarrow> circuit_pool \<Rightarrow> (circuit_id \<times> link_spec list) result \<times> circuit_pool" where
  "rp_circuit P now avoid_hex built p =
     (let (warm, p1) = pool_take P now (Some avoid_hex) p;
          fresh = and_then built (\<lambda>c. if pc_path c = [] then Inl (Handshake ''hs_fetch: empty RP path'')
                    else Inr (pc_cid c, pc_path c))
      in case warm of
           Some c \<Rightarrow> if pc_path c \<noteq> [] then (Inr (pc_cid c, pc_path c), p1) else (fresh, p1)
         | None \<Rightarrow> (fresh, p1))"

subsection \<open>The circuit served\<close>

lemma quieter_linear: "\<not> quieter s a b \<Longrightarrow> a = b \<or> quieter s b a"
  by (auto simp: quieter_def)

lemma quieter_trans: "quieter s a b \<Longrightarrow> quieter s b c \<Longrightarrow> quieter s a c"
  by (auto simp: quieter_def)

lemma quieter_irrefl [simp]: "\<not> quieter s a a"
  by (simp add: quieter_def)

lemma min_fold:
  fixes cs :: "u32 list" and s :: ewma_scheduler
  defines "f \<equiv> (\<lambda>x best. if quieter s x best then x else best)"
  shows "fold f cs c \<in> insert c (set cs) \<and> (\<forall>x \<in> insert c (set cs). \<not> quieter s x (fold f cs c))"
proof (induction cs arbitrary: c)
  case (Cons y ys)
  let ?b = "f y c" and ?m = "fold f ys (f y c)"
  have IH: "?m \<in> insert ?b (set ys)" "\<forall>x \<in> insert ?b (set ys). \<not> quieter s x ?m"
    using Cons.IH [of ?b] by simp_all
  have b: "\<not> quieter s y ?b" "\<not> quieter s c ?b" "?b = y \<or> ?b = c"
    using quieter_trans [of s y c y] by (auto simp: f_def)
  have "\<not> quieter s z ?m" if "\<not> quieter s z ?b" for z
  proof
    assume z: "quieter s z ?m"
    have "?b = ?m \<or> quieter s ?m ?b" using IH(2) quieter_linear [of s ?b ?m] by blast
    then show False using z that quieter_trans [of s z ?m ?b] by auto
  qed
  then show ?case using IH b by auto
qed simp

lemma min_ready_None: "min_ready s cs = None \<longleftrightarrow> cs = []"
  by (cases cs) simp_all

lemma min_ready_Some:
  assumes "min_ready s cs = Some c"
  shows "c \<in> set cs \<and> (\<forall>x \<in> set cs. \<not> quieter s x c)"
  using assms min_fold [of s] by (cases cs) auto

lemma cq_ready_iff: "hm_wf (cq_q c) \<Longrightarrow> cid \<in> set (cq_ready c) \<longleftrightarrow> cq_queue cid c \<noteq> []"
  by (auto simp: cq_ready_def cq_queue_def hm_wf_def map_of_eq_Some_iff image_iff split: option.splits)
    (metis map_of_SomeD map_of_is_SomeI option.inject)+

lemma cq_pop_cases:
  assumes "hm_wf (cq_q c)"
  obtains "cq_pop_next pw now c = (None, c)" "\<forall>cid. cq_queue cid c = []"
  | cid msg rest q' where "cq_pop_next pw now c = (Some (cid, msg), c\<lparr>cq_q := q',
        cq_sched := note_sent pw cid 1 now (decay pw now (cq_sched c))\<rparr>)"
      "cq_queue cid c = msg # rest" "hm_wf q'"
      "\<And>i. (case hm_get q' i of None \<Rightarrow> [] | Some v \<Rightarrow> v) = (if i = cid then rest else cq_queue i c)"
      "\<forall>x \<in> set (cq_ready c). \<not> quieter (decay pw now (cq_sched c)) x cid"
proof (cases "cq_ready c = []")
  case True
  then have "\<forall>cid. cq_queue cid c = []" using cq_ready_iff [OF assms] by (metis empty_iff empty_set)
  then show ?thesis using that(1) True by (simp add: cq_pop_next_def)
next
  case False
  then obtain cid where cid: "min_ready (decay pw now (cq_sched c)) (cq_ready c) = Some cid"
    using min_ready_None by (metis not_None_eq)
  note m = min_ready_Some [OF cid]
  then obtain msg rest where q: "cq_queue cid c = msg # rest" using cq_ready_iff [OF assms] by (metis neq_Nil_conv)
  let ?q = "if rest = [] then hm_remove cid (cq_q c) else hm_insert cid rest (cq_q c)"
  have "cq_pop_next pw now c = (Some (cid, msg), c\<lparr>cq_q := ?q, cq_sched := note_sent pw cid 1 now (decay pw now (cq_sched c))\<rparr>)"
    using False cid q by (simp add: cq_pop_next_def sched_next_def Let_def)
  moreover have "hm_wf ?q" using assms by (simp add: hm_wf_intros)
  moreover have "(case hm_get ?q i of None \<Rightarrow> [] | Some v \<Rightarrow> v) = (if i = cid then rest else cq_queue i c)" for i
    by (simp add: cq_queue_def hm.get_ins hm.get_rem)
  ultimately show ?thesis using that(2) [OF _ q] m by blast
qed

subsection \<open>Runs of a link's queues\<close>

datatype 'm cq_event = CqPush u32 'm | CqPop instant | CqForget u32

fun cq_run :: "powf \<Rightarrow> 'm cq_event list \<Rightarrow> 'm cell_queues \<Rightarrow> (u32 \<times> 'm) list \<times> 'm cell_queues" where
  "cq_run pw [] c = ([], c)"
| "cq_run pw (CqPush cid m # evs) c = cq_run pw evs (cq_push cid m c)"
| "cq_run pw (CqForget cid # evs) c = cq_run pw evs (cq_forget cid c)"
| "cq_run pw (CqPop now # evs) c =
     (let (popped, c1) = cq_pop_next pw now c; (rest, c2) = cq_run pw evs c1
      in ((case popped of None \<Rightarrow> [] | Some x \<Rightarrow> [x]) @ rest, c2))"

definition sent_on :: "u32 \<Rightarrow> (u32 \<times> 'm) list \<Rightarrow> 'm list" where
  "sent_on cid out = map snd (filter (\<lambda>(i, _). i = cid) out)"

definition pushed_on :: "u32 \<Rightarrow> 'm cq_event list \<Rightarrow> 'm list" where
  "pushed_on cid evs = concat (map (\<lambda>ev. case ev of CqPush i m \<Rightarrow> if i = cid then [m] else [] | _ \<Rightarrow> []) evs)"

lemma cq_run_fifo:
  assumes "hm_wf (cq_q c)" "CqForget cid \<notin> set evs" "cq_run pw evs c = (out, c')"
  shows "hm_wf (cq_q c') \<and> cq_queue cid c @ pushed_on cid evs = sent_on cid out @ cq_queue cid c'"
  using assms
proof (induction evs arbitrary: c out c')
  case Nil
  then show ?case by (simp add: sent_on_def pushed_on_def)
next
  case (Cons ev evs)
  show ?case
  proof (cases ev)
    case (CqPush i m)
    have "hm_wf (cq_q (cq_push i m c))" using Cons.prems(1) by (simp add: cq_push_def hm_wf_intros)
    from Cons.IH [OF this, of out] Cons.prems CqPush show ?thesis
      by (auto simp: pushed_on_def cq_push_def cq_queue_def hm.get_ins split: option.splits)
  next
    case (CqForget i)
    have "hm_wf (cq_q (cq_forget i c))" using Cons.prems(1) by (simp add: cq_forget_def hm_wf_intros)
    from Cons.IH [OF this, of out] Cons.prems CqForget show ?thesis
      by (auto simp: pushed_on_def cq_forget_def cq_queue_def hm.get_rem)
  next
    case (CqPop now)
    obtain rest c2 where run: "cq_run pw evs (snd (cq_pop_next pw now c)) = (rest, c2)" by fastforce
    show ?thesis
      using Cons.prems(1)
    proof (cases rule: cq_pop_cases [where pw = pw and now = now])
      case 1
      from Cons.IH [OF Cons.prems(1)] Cons.prems CqPop 1 show ?thesis
        by (auto simp: pushed_on_def split_beta)
    next
      case (2 i msg q q')
      have wf: "hm_wf (cq_q (snd (cq_pop_next pw now c)))" using 2(1,3) by simp
      have "hm_wf (cq_q c2) \<and> cq_queue cid (snd (cq_pop_next pw now c)) @ pushed_on cid evs = sent_on cid rest @ cq_queue cid c2"
        by (rule Cons.IH [OF wf _ run]) (use Cons.prems(2) in simp)
      moreover have "cq_queue cid (snd (cq_pop_next pw now c)) = (if cid = i then q else cq_queue cid c)"
        using 2(1,4) by (simp add: cq_queue_def)
      moreover have "out = (i, msg) # rest" "c' = c2" using Cons.prems(3) run CqPop 2(1) by auto
      ultimately show ?thesis using 2(2) CqPop by (auto simp: sent_on_def pushed_on_def)
    qed
  qed
qed

subsection \<open>Runs of the pool\<close>

datatype pool_event =
    PoolRound bool instant "(instant \<times> instant \<times> pooled_circuit option) list"
  | PoolTake instant "string option"

text \<open>What left the pool: handed out, with the time and the relay to avoid, or retired.\<close>

record pool_log =
  pl_pool :: circuit_pool
  pl_taken :: "(instant \<times> string option \<times> pooled_circuit) list"
  pl_retired :: "(instant \<times> pooled_circuit) list"

fun pool_step :: "prims \<Rightarrow> pool_event \<Rightarrow> pool_log \<Rightarrow> pool_log" where
  "pool_step P (PoolRound consensus now outcomes) l =
     (let (stale, p) = pool_round consensus now outcomes (pl_pool l)
      in l\<lparr>pl_pool := p, pl_retired := pl_retired l @ map (Pair now) stale\<rparr>)"
| "pool_step P (PoolTake now avoid) l =
     (let (taken, p) = pool_take P now avoid (pl_pool l)
      in l\<lparr>pl_pool := p, pl_taken := pl_taken l @ (case taken of None \<Rightarrow> [] | Some c \<Rightarrow> [(now, avoid, c)])\<rparr>)"

definition pool_run :: "prims \<Rightarrow> pool_event list \<Rightarrow> pool_log" where
  "pool_run P evs = fold (pool_step P) evs \<lparr> pl_pool = pool_new, pl_taken = [], pl_retired = [] \<rparr>"

definition pool_holds :: "pool_log \<Rightarrow> pooled_circuit multiset" where
  "pool_holds l = mset (cp_ready (pl_pool l)) + mset (map (\<lambda>(_, _, c). c) (pl_taken l)) + mset (map snd (pl_retired l))"

lemma mset_remove_at: "i < length xs \<Longrightarrow> mset xs = add_mset (xs ! i) (mset (remove_at i xs))"
  by (subst id_take_nth_drop [of i xs]) (simp_all add: remove_at_def)

lemma pool_fill_adds:
  "\<exists>new. cp_ready (pool_fill consensus outcomes p) = cp_ready p @ new
    \<and> set new \<subseteq> {c. \<exists>a e. (a, e, Some c) \<in> set outcomes}
    \<and> length (cp_ready p @ new) \<le> max POOL_TARGET (length (cp_ready p))"
proof (induction consensus outcomes p rule: pool_fill.induct)
  case (1 consensus p)
  then show ?case by simp
next
  case (2 consensus asked ended outcome rest p)
  show ?case
  proof (cases "wants_more asked p \<and> consensus \<and> outcome \<noteq> None")
    case False
    then show ?thesis by (auto simp: note_failure_def)
  next
    case True
    then obtain c where c: "outcome = Some c" by auto
    have less: "length (cp_ready p) < POOL_TARGET"
      using True by (auto simp: wants_more_def split: option.splits if_splits)
    obtain new where new: "cp_ready (pool_fill consensus rest (pool_push c p)) = cp_ready (pool_push c p) @ new"
        "set new \<subseteq> {c. \<exists>a e. (a, e, Some c) \<in> set rest}"
        "length (cp_ready (pool_push c p) @ new) \<le> max POOL_TARGET (length (cp_ready (pool_push c p)))"
      using 2 True c by auto
    have "cp_ready (pool_fill consensus ((asked, ended, outcome) # rest) p) = cp_ready p @ c # new"
      using new(1) True c by (simp add: pool_push_def)
    moreover have "set (c # new) \<subseteq> {c. \<exists>a e. (a, e, Some c) \<in> set ((asked, ended, outcome) # rest)}"
      using new(2) c by (intro subsetI) (auto dest!: subsetD)
    moreover have "length (cp_ready p @ c # new) \<le> max POOL_TARGET (length (cp_ready p))"
      using new(3) less by (simp add: pool_push_def)
    ultimately show ?thesis by blast
  qed
qed

lemma pool_take_cases:
  "(fst (pool_take P now avoid p) = None \<and> snd (pool_take P now avoid p) = p
      \<and> (\<forall>c \<in> set (cp_ready p). \<not> usable P now avoid c))
   \<or> (\<exists>c. fst (pool_take P now avoid p) = Some c \<and> usable P now avoid c
        \<and> mset (cp_ready p) = add_mset c (mset (cp_ready (snd (pool_take P now avoid p)))))"
proof (cases "position (usable P now avoid) (cp_ready p)")
  case None
  then have "\<forall>c \<in> set (cp_ready p). \<not> usable P now avoid c" by (simp add: position_None_iff)
  then show ?thesis using None by (simp add: pool_take_def)
next
  case (Some i)
  from position_SomeD [OF this] show ?thesis by (simp add: pool_take_def Some mset_remove_at)
qed

definition pool_sound :: "prims \<Rightarrow> pool_log \<Rightarrow> bool" where
  "pool_sound P l \<longleftrightarrow> length (cp_ready (pl_pool l)) \<le> POOL_TARGET
     \<and> (\<forall>(now, avoid, c) \<in> set (pl_taken l). usable P now avoid c)
     \<and> (\<forall>(now, c) \<in> set (pl_retired l). is_stale now c)"

definition offered :: "pool_event list \<Rightarrow> pooled_circuit set" where
  "offered evs = {c. \<exists>b now outcomes a e. PoolRound b now outcomes \<in> set evs \<and> (a, e, Some c) \<in> set outcomes}"

lemma offered_append: "offered (evs @ evs') = offered evs \<union> offered evs'"
  unfolding offered_def set_append by blast

lemma pool_step_sound:
  assumes "pool_sound P l"
  shows "pool_sound P (pool_step P ev l)
    \<and> (\<exists>new. pool_holds (pool_step P ev l) = pool_holds l + mset new \<and> set new \<subseteq> offered [ev])"
proof (cases ev)
  case (PoolRound b now outcomes)
  let ?p = "(pl_pool l)\<lparr>cp_ready := filter (\<lambda>c. \<not> is_stale now c) (cp_ready (pl_pool l))\<rparr>"
  obtain new where new: "cp_ready (pool_fill b outcomes ?p) = cp_ready ?p @ new"
      "set new \<subseteq> {c. \<exists>a e. (a, e, Some c) \<in> set outcomes}"
      "length (cp_ready ?p @ new) \<le> max POOL_TARGET (length (cp_ready ?p))"
    using pool_fill_adds by blast
  have "length (cp_ready ?p) \<le> POOL_TARGET"
    using assms order_trans [OF length_filter_le [of "\<lambda>c. \<not> is_stale now c" "cp_ready (pl_pool l)"]]
    by (simp add: pool_sound_def)
  then have "pool_sound P (pool_step P ev l)"
    using assms new by (auto simp: pool_sound_def PoolRound pool_round_def drain_stale_def)
  moreover have "pool_holds (pool_step P ev l) = pool_holds l + mset new"
    using new(1) multiset_partition [of "mset (cp_ready (pl_pool l))" "is_stale now"]
    by (simp add: pool_holds_def PoolRound pool_round_def drain_stale_def comp_def ac_simps)
  moreover have "set new \<subseteq> offered [ev]" using new(2) by (auto simp: offered_def PoolRound)
  ultimately show ?thesis by blast
next
  case (PoolTake now avoid)
  from pool_take_cases [of P now avoid "pl_pool l"] have "pool_sound P (pool_step P ev l) \<and> pool_holds (pool_step P ev l) = pool_holds l"
  proof (elim disjE exE conjE)
    fix c
    assume c: "fst (pool_take P now avoid (pl_pool l)) = Some c" "usable P now avoid c"
        "mset (cp_ready (pl_pool l)) = add_mset c (mset (cp_ready (snd (pool_take P now avoid (pl_pool l)))))"
    have "Suc (length (cp_ready (snd (pool_take P now avoid (pl_pool l))))) = length (cp_ready (pl_pool l))"
      using arg_cong [OF c(3), of size] by simp
    then show ?thesis
      using assms c by (auto simp: pool_sound_def pool_holds_def PoolTake split_beta)
  qed (use assms in \<open>simp add: PoolTake split_beta pool_holds_def pool_sound_def\<close>)
  then show ?thesis by (intro conjI exI [of _ "[]"]) simp_all
qed

lemma pool_run_sound:
  "pool_sound P (pool_run P evs)
    \<and> (\<exists>built. pool_holds (pool_run P evs) = mset built \<and> set built \<subseteq> offered evs)"
proof (induction evs rule: rev_induct)
  case Nil
  then show ?case
    by (intro conjI exI [of _ "[]"]) (simp_all add: pool_run_def pool_sound_def pool_holds_def pool_new_def)
next
  case (snoc ev evs)
  then obtain built where b: "pool_holds (pool_run P evs) = mset built" "set built \<subseteq> offered evs"
      "pool_sound P (pool_run P evs)" by blast
  from pool_step_sound [OF b(3), of ev] obtain new where
      n: "pool_sound P (pool_step P ev (pool_run P evs))"
      "pool_holds (pool_step P ev (pool_run P evs)) = mset built + mset new" "set new \<subseteq> offered [ev]"
    using b(1) by auto
  have "pool_run P (evs @ [ev]) = pool_step P ev (pool_run P evs)" by (simp add: pool_run_def)
  moreover have "set (built @ new) \<subseteq> offered (evs @ [ev])" using b(2) n(3) by (auto simp: offered_append)
  ultimately show ?case using n(1,2) by (intro conjI exI [of _ "built @ new"]) simp_all
qed

subsection \<open>Properties\<close>

text \<open>C22: the queues of a link implement one queue for each circuit: in every run, and whatever the clock does,
  what left for a circuit followed by what still waits for it is what was pushed for it, in that order, as
  long as the circuit is not forgotten; and when cells wait, the next call hands one out.\<close>

theorem cells_per_circuit_fifo:
  assumes "CqForget cid \<notin> set evs" "cq_run pw evs cell_queues_new = (out, c)"
  shows "sent_on cid out @ cq_queue cid c = pushed_on cid evs
    \<and> ((\<exists>i. cq_queue i c \<noteq> []) \<longleftrightarrow> (\<exists>i m. fst (cq_pop_next pw now c) = Some (i, m)))"
proof -
  have "hm_wf (cq_q c) \<and> cq_queue cid cell_queues_new @ pushed_on cid evs = sent_on cid out @ cq_queue cid c"
    by (rule cq_run_fifo [OF _ assms]) (simp add: cell_queues_new_def)
  then have wf: "hm_wf (cq_q c)" and eq: "sent_on cid out @ cq_queue cid c = pushed_on cid evs"
    by (simp_all add: cell_queues_new_def cq_queue_def)
  from wf have "(\<exists>i. cq_queue i c \<noteq> []) \<longleftrightarrow> (\<exists>i m. fst (cq_pop_next pw now c) = Some (i, m))"
  proof (cases rule: cq_pop_cases [where pw = pw and now = now])
    case (2 cid msg rest q')
    then have "cq_queue cid c \<noteq> []" "fst (cq_pop_next pw now c) = Some (cid, msg)" by simp_all
    then show ?thesis by blast
  qed simp
  with eq show ?thesis by blast
qed

theorem cells_per_circuit_fifo_witness:
  "sent_on 7 (fst (cq_run (\<lambda>_ _. 1) [CqPush 7 ''a'', CqPush 9 ''b'', CqPop 0, CqPush 7 ''c'', CqPop 0] cell_queues_new))
    @ cq_queue 7 (snd (cq_run (\<lambda>_ _. 1) [CqPush 7 ''a'', CqPush 9 ''b'', CqPop 0, CqPush 7 ''c'', CqPop 0] cell_queues_new))
    = [''a'', ''c'']"
  using cells_per_circuit_fifo [of 7 "[CqPush 7 ''a'', CqPush 9 ''b'', CqPop 0, CqPush 7 ''c'', CqPop 0]" "\<lambda>_ _. 1"]
  by (simp add: pushed_on_def split_beta)

text \<open>the circuit served next is the quietest one: no circuit with a waiting cell has a lower score after
  decay, and among equal scores the lowest id is served.\<close>

theorem quietest_circuit_first:
  assumes "hm_wf (cq_q c)" "cq_pop_next pw now c = (Some (cid, m), c')" "cq_queue x c \<noteq> []"
  shows "ew_score cid (decay pw now (cq_sched c)) \<le> ew_score x (decay pw now (cq_sched c))
    \<and> (ew_score cid (decay pw now (cq_sched c)) = ew_score x (decay pw now (cq_sched c)) \<longrightarrow> cid \<le> x)
    \<and> (\<exists>rest. cq_queue cid c = m # rest)"
  using assms(1)
proof (cases rule: cq_pop_cases [where pw = pw and now = now])
  case 1
  then show ?thesis using assms(2) by simp
next
  case (2 i msg rest q')
  then have "\<not> quieter (decay pw now (cq_sched c)) x cid"
    using assms cq_ready_iff [OF assms(1)] by auto
  then show ?thesis using 2(1,2) assms(2) by (auto simp: quieter_def not_less)
qed

theorem quietest_circuit_first_witness:
  "\<exists>c' m. cq_pop_next (\<lambda>_ _. 1) 0 (cq_push 4 ''b'' (cq_push 9 ''a'' cell_queues_new)) = (Some (4, m), c') \<and> m = ''b''
    \<and> (4 :: u32) \<le> 9"
  using quietest_circuit_first [of "cq_push 4 ''b'' (cq_push 9 ''a'' cell_queues_new)" "\<lambda>_ _. 1" 0 4 "''b''" _ 9]
  by (auto simp: cq_push_def cell_queues_new_def cq_queue_def cq_pop_next_def cq_ready_def sched_next_def decay_def
      ewma_new_def quieter_def ew_score_def hm_wf_def)

text \<open>the pool loses and invents no circuit and never grows past its target. At every moment the circuits in
  the pool, those handed out and those retired are together circuits that maintenance rounds built, each
  once; what was handed out was not stale and did not end at the relay to avoid, what was retired was
  stale.\<close>

theorem pool_accounts_for_circuits:
  "length (cp_ready (pl_pool (pool_run P evs))) \<le> POOL_TARGET
    \<and> (\<exists>built. pool_holds (pool_run P evs) = mset built \<and> set built \<subseteq> offered evs)
    \<and> (\<forall>(now, avoid, c) \<in> set (pl_taken (pool_run P evs)). usable P now avoid c)
    \<and> (\<forall>(now, c) \<in> set (pl_retired (pool_run P evs)). is_stale now c)"
  using pool_run_sound [of P evs] unfolding pool_sound_def by blast

theorem pool_accounts_for_circuits_witness:
  "length (cp_ready (pl_pool (pool_run toy_prims
      [PoolRound True 0 (replicate 5 (0, 0, Some \<lparr> pc_cid = CircuitId 1, pc_path = [], pc_built_at = 0 \<rparr>))]))) \<le> POOL_TARGET"
  using pool_accounts_for_circuits by blast

end
