(* ===== verification/OnionCell.thy ===== *)
theory OnionCell
  imports Session ComNode
begin

section \<open>Onion messages\<close>

text \<open>
  phinet-core/src/onion.rs and its handler in phinet-core/src/node.rs: a message wrapped once for each hop,
  every layer a JSON envelope with random padding under a key of its own, addressed to one node. The JSON
  codecs of the two records are parameters; what the peeling relies on beside the round trip is the
  shape of JSON text: braces balance outside of strings (\<open>json_object\<close>).

  Shown: the scan for the end of the envelope stops exactly there whatever padding follows; a message
  that was built for a list of hops passes through them in that order and arrives as it was sent.
\<close>

definition DEFAULT_HOPS :: nat where "DEFAULT_HOPS = 3"
definition HIGH_SECURITY_HOPS :: nat where "HIGH_SECURITY_HOPS = 5"

record onion_hop =
  oh_host :: string
  oh_port :: u16
  oh_static_pub :: string

record onion_envelope =
  oe_next_host :: "string option"
  oe_next_port :: "u16 option"
  oe_data :: string

record layer_wrapper =
  lw_ephem_pub :: string
  lw_nonce :: u64
  lw_aad :: string
  lw_ct :: string

text \<open>The codecs: what \<open>serde_json::to_vec\<close> and \<open>from_slice\<close> give for the two records.\<close>

record onion_json =
  oj_env :: "onion_envelope \<Rightarrow> bytes option"
  oj_env_of :: "bytes \<Rightarrow> onion_envelope option"
  oj_wrap :: "layer_wrapper \<Rightarrow> bytes option"
  oj_wrap_of :: "bytes \<Rightarrow> layer_wrapper option"

text \<open>The random draws of one layer.\<close>

record layer_draw =
  ld_ephem :: bytes
  ld_padding :: "nat \<Rightarrow> bytes"
  ld_nonce :: u64

definition static_pub_bytes :: "prims \<Rightarrow> onion_hop \<Rightarrow> bytes result" where
  "static_pub_bytes P hop =
     and_then (ok_or (Onion ''static_pub hex'') (p_hex_decode P (oh_static_pub hop)))
       (\<lambda>b. ok_or (Onion ''static_pub wrong length'') (to_array 32 b))"

definition derive_hop_key :: "prims \<Rightarrow> bytes \<Rightarrow> bytes \<Rightarrow> bytes" where
  "derive_hop_key P priv peer_pub =
     hkdf_derive P (p_x25519 P priv peer_pub) (ascii ''phinet-onion-v1'') (ascii ''hop-key'') 32"

definition hop_aad :: "string \<Rightarrow> u16 \<Rightarrow> string" where
  "hop_aad host port = host @ '':'' @ show_dec (unat port)"

subsection \<open>Building\<close>

definition padded_len :: "nat \<Rightarrow> nat" where
  "padded_len env_len =
     (if env_len \<le> DUMMY_CELL_SIZE then DUMMY_CELL_SIZE else (env_len div DUMMY_CELL_SIZE + 1) * DUMMY_CELL_SIZE)"

definition wrap_layer ::
  "prims \<Rightarrow> onion_json \<Rightarrow> onion_hop \<Rightarrow> onion_hop option \<Rightarrow> layer_draw \<Rightarrow> bytes \<Rightarrow> bytes result" where
  "wrap_layer P J hop next_hop r current =
     and_then (static_pub_bytes P hop) (\<lambda>hop_pub.
       let hop_key = derive_hop_key P (ld_ephem r) hop_pub;
           env = \<lparr> oe_next_host = map_option oh_host next_hop, oe_next_port = map_option oh_port next_hop,
                   oe_data = p_hex_encode P current \<rparr>
       in and_then (ok_or (Serde ''envelope'') (oj_env J env)) (\<lambda>js.
            let inner = js @ ld_padding r (padded_len (length js) - length js);
                aad = hop_aad (oh_host hop) (oh_port hop);
                ct = aead_encrypt P hop_key (ld_nonce r) (ascii aad) inner
            in ok_or (Serde ''layer wrapper'') (oj_wrap J
                 \<lparr> lw_ephem_pub = p_hex_encode P (p_x25519_pub P (ld_ephem r)), lw_nonce = ld_nonce r,
                   lw_aad = aad, lw_ct = p_hex_encode P ct \<rparr>)))"

text \<open>The loop runs from the last hop to the first.\<close>

fun build_layers :: "prims \<Rightarrow> onion_json \<Rightarrow> (onion_hop \<times> layer_draw) list \<Rightarrow> bytes \<Rightarrow> bytes result" where
  "build_layers P J [] payload = Inr payload"
| "build_layers P J ((hop, r) # hops) payload =
     and_then (build_layers P J hops payload)
       (wrap_layer P J hop (case hops of [] \<Rightarrow> None | (n, _) # _ \<Rightarrow> Some n) r)"

definition onion_build :: "prims \<Rightarrow> onion_json \<Rightarrow> (onion_hop \<times> layer_draw) list \<Rightarrow> bytes \<Rightarrow> string result" where
  "onion_build P J hops payload =
     (if hops = [] then Inl (Onion ''at least one hop required'')
      else and_then (build_layers P J hops payload) (\<lambda>b. Inr (p_hex_encode P b)))"

subsection \<open>Peeling\<close>

text \<open>
  The scan for the end of the object: the depth, whether inside a string, whether after a
  backslash. The result is the length up to and including the closing brace.
\<close>

fun json_end :: "int \<Rightarrow> bool \<Rightarrow> bool \<Rightarrow> bytes \<Rightarrow> nat option" where
  "json_end depth in_str escape [] = None"
| "json_end depth in_str escape (b # bs) =
     (if escape then map_option Suc (json_end depth in_str False bs)
      else if b = 0x5C \<and> in_str then map_option Suc (json_end depth in_str True bs)
      else if b = 0x22 then map_option Suc (json_end depth (\<not> in_str) False bs)
      else if (b = 0x7B \<or> b = 0x5B) \<and> \<not> in_str then map_option Suc (json_end (depth + 1) in_str False bs)
      else if (b = 0x7D \<or> b = 0x5D) \<and> \<not> in_str
      then (if depth - 1 = 0 then Some 1 else map_option Suc (json_end (depth - 1) in_str False bs))
      else map_option Suc (json_end depth in_str False bs))"

definition trim_json_padding :: "bytes \<Rightarrow> bytes" where
  "trim_json_padding buf = (case json_end 0 False False buf of None \<Rightarrow> buf | Some n \<Rightarrow> take n buf)"

definition onion_peel ::
  "prims \<Rightarrow> onion_json \<Rightarrow> string \<Rightarrow> bytes \<Rightarrow> string \<Rightarrow> u16 \<Rightarrow> (string option \<times> u16 option \<times> bytes) result" where
  "onion_peel P J cell_hex static_priv our_host our_port =
     and_then (ok_or (Onion ''cell hex'') (p_hex_decode P cell_hex)) (\<lambda>cell_bytes.
     and_then (ok_or (Onion ''layer wrapper'') (oj_wrap_of J cell_bytes)) (\<lambda>wrapper.
     and_then (ok_or (Onion ''ephem_pub hex'') (p_hex_decode P (lw_ephem_pub wrapper))) (\<lambda>e.
     and_then (ok_or (Onion ''ephem_pub wrong length'') (to_array 32 e)) (\<lambda>ephem_pub.
       let hop_key = derive_hop_key P static_priv ephem_pub in
       if lw_aad wrapper \<noteq> hop_aad our_host our_port then Inl (Onion ''AAD mismatch'')
       else
         and_then (ok_or (Onion ''ct hex'') (p_hex_decode P (lw_ct wrapper))) (\<lambda>ct.
         and_then (aead_decrypt P hop_key (lw_nonce wrapper) (ascii (lw_aad wrapper)) ct) (\<lambda>padded.
         and_then (ok_or (Onion ''envelope parse'') (oj_env_of J (trim_json_padding padded))) (\<lambda>env.
         and_then (ok_or (Onion ''data hex'') (p_hex_decode P (oe_data env))) (\<lambda>data.
           Inr (oe_next_host env, oe_next_port env, data)))))))))"

text \<open>
  The handler: a message for another node goes to the first connected peer with that address; a
  payload for us is a post to a board when it decodes to one.
\<close>

datatype 'm onion_action = Forward bytes string | PostLocally 'm | Discard

definition handle_onion ::
  "prims \<Rightarrow> onion_json \<Rightarrow> (bytes \<Rightarrow> 'm option) \<Rightarrow> string \<Rightarrow> bytes \<Rightarrow> string \<Rightarrow> u16 \<Rightarrow> 'c peer_table \<Rightarrow> 'm onion_action" where
  "handle_onion P J post_of cell secret host port peers =
     (case onion_peel P J cell secret host port of
        Inr (Some nh, Some np, inner) \<Rightarrow>
          (case List.find (\<lambda>(_, p). pi_host p = nh \<and> pi_port p = np) peers of
             Some (_, p) \<Rightarrow> Forward (pi_node_id p) (p_hex_encode P inner)
           | None \<Rightarrow> Discard)
      | Inr (None, _, payload) \<Rightarrow> (case post_of payload of Some post \<Rightarrow> PostLocally post | None \<Rightarrow> Discard)
      | Inr _ \<Rightarrow> Discard
      | Inl _ \<Rightarrow> Discard)"

subsection \<open>Choosing guards\<close>

text \<open>At most \<open>n\<close> peers, no two in one /16 and none in an excluded one.\<close>

fun pick_guards :: "nat \<Rightarrow> (u8 \<times> u8) list \<Rightarrow> 'c peer_info list \<Rightarrow> 'c peer_info list \<Rightarrow> 'c peer_info list" where
  "pick_guards n used selected [] = selected"
| "pick_guards n used selected (p # ps) =
     (if n \<le> length selected then selected
      else if subnet16 (pi_host p) \<in> set used then pick_guards n used selected ps
      else pick_guards n (used @ [subnet16 (pi_host p)]) (selected @ [p]) ps)"

definition select_guards :: "'c peer_info list \<Rightarrow> nat \<Rightarrow> (u8 \<times> u8) list \<Rightarrow> 'c peer_info list" where
  "select_guards peers n exclude_subnets = pick_guards n exclude_subnets [] peers"

subsection \<open>The end of a JSON text\<close>

text \<open>
  The text of a JSON object as far as the scan sees it: strings with backslash escapes, and balanced
  brackets outside of them. The serialiser puts no backslash outside of strings.
\<close>

inductive json_chars :: "bytes \<Rightarrow> bool" where
  chars_nil: "json_chars []"
| chars_plain: "b \<noteq> 0x22 \<Longrightarrow> b \<noteq> 0x5C \<Longrightarrow> json_chars s \<Longrightarrow> json_chars (b # s)"
| chars_escape: "json_chars s \<Longrightarrow> json_chars (0x5C # b # s)"

inductive json_items :: "bytes \<Rightarrow> bool" where
  items_nil: "json_items []"
| items_plain: "b \<notin> {0x22, 0x5C, 0x7B, 0x7D, 0x5B, 0x5D} \<Longrightarrow> json_items xs \<Longrightarrow> json_items (b # xs)"
| items_string: "json_chars s \<Longrightarrow> json_items xs \<Longrightarrow> json_items (0x22 # s @ 0x22 # xs)"
| items_nested: "l_brace \<in> {0x7B, 0x5B} \<Longrightarrow> r_brace \<in> {0x7D, 0x5D} \<Longrightarrow> json_items xs \<Longrightarrow> json_items ys
    \<Longrightarrow> json_items (l_brace # xs @ r_brace # ys)"

definition json_object :: "bytes \<Rightarrow> bool" where
  "json_object js \<longleftrightarrow> (\<exists>xs. json_items xs \<and> js = 0x7B # xs @ [0x7D])"

lemma json_end_chars:
  "json_chars s \<Longrightarrow>
    json_end d True False (s @ 0x22 # r) = map_option (\<lambda>k. Suc (length s + k)) (json_end d False False r)"
proof (induction rule: json_chars.induct)
  case chars_nil
  then show ?case by simp
next
  case (chars_plain b s)
  then show ?case by (simp add: option.map_comp comp_def)
next
  case (chars_escape s b)
  then show ?case by (simp add: option.map_comp comp_def)
qed

lemma json_end_items:
  "json_items xs \<Longrightarrow> 1 \<le> d \<Longrightarrow>
    json_end d False False (xs @ r) = map_option (\<lambda>k. length xs + k) (json_end d False False r)"
proof (induction arbitrary: d r rule: json_items.induct)
  case items_nil
  then show ?case by (simp add: option.map_ident)
next
  case (items_plain b xs)
  then show ?case by (simp add: option.map_comp comp_def)
next
  case (items_string s xs)
  have "json_end d False False (0x22 # s @ 0x22 # xs @ r)
      = map_option (\<lambda>k. Suc (Suc (length s + k))) (json_end d False False (xs @ r))"
    using json_end_chars [OF items_string(1)] by (simp add: option.map_comp comp_def)
  with items_string show ?case by (simp add: option.map_comp comp_def add.assoc)
next
  case (items_nested l_brace r_brace xs ys)
  have a: "json_end d False False (l_brace # z) = map_option Suc (json_end (d + 1) False False z)" for z
    using items_nested(1) by auto
  have b: "json_end (d + 1) False False (r_brace # z) = map_option Suc (json_end d False False z)" for z
    using items_nested(2) \<open>1 \<le> d\<close> by auto
  have "json_end (d + 1) False False (xs @ r_brace # ys @ r)
      = map_option (\<lambda>k. length xs + k) (json_end (d + 1) False False (r_brace # ys @ r))"
    using items_nested by simp
  also have "\<dots> = map_option (\<lambda>k. length xs + k) (map_option Suc (json_end d False False (ys @ r)))"
    by (simp only: b)
  also have "\<dots> = map_option (\<lambda>k. length xs + k) (map_option Suc (map_option (\<lambda>k. length ys + k)
      (json_end d False False r)))"
    using items_nested by simp
  finally have "json_end (d + 1) False False (xs @ r_brace # ys @ r)
      = map_option (\<lambda>k. length xs + Suc (length ys + k)) (json_end d False False r)"
    by (simp add: option.map_comp comp_def)
  then show ?case using a [of "xs @ r_brace # ys @ r"] by (simp add: option.map_comp comp_def add.assoc del: json_end.simps)
qed

lemma trim_json_object: "json_object js \<Longrightarrow> trim_json_padding (js @ pad) = js"
proof -
  assume "json_object js"
  then obtain xs where xs: "json_items xs" "js = 0x7B # xs @ [0x7D]" by (auto simp: json_object_def)
  have "json_end 1 False False (xs @ 0x7D # pad) = Some (Suc (length xs))"
    using json_end_items [OF xs(1), of 1 "0x7D # pad"] by simp
  then have "json_end 0 False False (js @ pad) = Some (length js)" using xs(2) by simp
  then show ?thesis by (simp add: trim_json_padding_def)
qed

subsection \<open>A message along its route\<close>

text \<open>What serde_json promises of the two records: the round trip, and an object for an envelope.\<close>

definition onion_json_ok :: "onion_json \<Rightarrow> bool" where
  "onion_json_ok J \<longleftrightarrow>
     (\<forall>e js. oj_env J e = Some js \<longrightarrow> oj_env_of J js = Some e \<and> json_object js)
     \<and> (\<forall>w js. oj_wrap J w = Some js \<longrightarrow> oj_wrap_of J js = Some w)"

lemma onion_json_env: "onion_json_ok J \<Longrightarrow> oj_env J e = Some js \<Longrightarrow> oj_env_of J js = Some e \<and> json_object js"
  by (simp add: onion_json_ok_def)

lemma onion_json_wrap: "onion_json_ok J \<Longrightarrow> oj_wrap J w = Some js \<Longrightarrow> oj_wrap_of J js = Some w"
  by (simp add: onion_json_ok_def)

record 'c onion_node =
  on_id :: bytes
  on_secret :: bytes
  on_host :: string
  on_port :: u16
  on_peers :: "'c peer_table"

definition node_hop :: "prims \<Rightarrow> 'c onion_node \<Rightarrow> onion_hop" where
  "node_hop P n = \<lparr> oh_host = on_host n, oh_port = on_port n,
     oh_static_pub = p_hex_encode P (p_x25519_pub P (on_secret n)) \<rparr>"

text \<open>
  The message handed from node to node: each runs its handler, and the node the handler names must be
  the next of the route.
\<close>

fun onion_travel ::
  "prims \<Rightarrow> onion_json \<Rightarrow> (bytes \<Rightarrow> 'm option) \<Rightarrow> 'c onion_node list \<Rightarrow> string \<Rightarrow> 'm option" where
  "onion_travel P J post_of [] cell = None"
| "onion_travel P J post_of (n # ns) cell =
     (case handle_onion P J post_of cell (on_secret n) (on_host n) (on_port n) (on_peers n) of
        Forward nid inner \<Rightarrow>
          (case ns of [] \<Rightarrow> None | m # _ \<Rightarrow> if on_id m = nid then onion_travel P J post_of ns inner else None)
      | PostLocally post \<Rightarrow> (if ns = [] then Some post else None)
      | Discard \<Rightarrow> None)"

text \<open>Each node of the route has the next among its peers, first under its address.\<close>

definition knows_next :: "'c onion_node \<Rightarrow> 'c onion_node \<Rightarrow> bool" where
  "knows_next n m \<longleftrightarrow>
     (case List.find (\<lambda>(_, p). pi_host p = on_host m \<and> pi_port p = on_port m) (on_peers n) of
        Some (_, p) \<Rightarrow> pi_node_id p = on_id m
      | None \<Rightarrow> False)"

fun linked_route :: "'c onion_node list \<Rightarrow> bool" where
  "linked_route (n # m # ns) = (knows_next n m \<and> linked_route (m # ns))"
| "linked_route ns = True"

lemma onion_peel_wrap:
  assumes "dh_ok P" "aead_ok P" "hex_ok P" "onion_json_ok J"
    and "wrap_layer P J (node_hop P n) nxt r current = Inr layer"
  shows "onion_peel P J (p_hex_encode P layer) (on_secret n) (on_host n) (on_port n)
    = Inr (map_option oh_host nxt, map_option oh_port nxt, current)"
proof -
  let ?pub = "p_x25519_pub P (on_secret n)"
  let ?key = "derive_hop_key P (ld_ephem r) ?pub"
  let ?env = "\<lparr> oe_next_host = map_option oh_host nxt, oe_next_port = map_option oh_port nxt,
    oe_data = p_hex_encode P current \<rparr>"
  let ?aad = "hop_aad (on_host n) (on_port n)"
  have pub: "static_pub_bytes P (node_hop P n) = Inr ?pub"
    using assms(1,3) by (simp add: static_pub_bytes_def node_hop_def to_array_def)
  obtain js where js: "oj_env J ?env = Some js"
    using assms(5) pub by (cases "oj_env J ?env") (simp_all add: wrap_layer_def)
  let ?inner = "js @ ld_padding r (padded_len (length js) - length js)"
  let ?w = "\<lparr> lw_ephem_pub = p_hex_encode P (p_x25519_pub P (ld_ephem r)), lw_nonce = ld_nonce r,
    lw_aad = ?aad, lw_ct = p_hex_encode P (aead_encrypt P ?key (ld_nonce r) (ascii ?aad) ?inner) \<rparr>"
  have w: "oj_wrap J ?w = Some layer"
    using assms(5) pub js by (cases "oj_wrap J ?w") (simp_all add: wrap_layer_def node_hop_def)
  have key: "derive_hop_key P (on_secret n) (p_x25519_pub P (ld_ephem r)) = ?key"
    using dh_swap [OF assms(1), of "on_secret n" "ld_ephem r"] by (simp add: derive_hop_key_def)
  have env: "oj_env_of J js = Some ?env" "trim_json_padding ?inner = js"
    using onion_json_env [OF assms(4) js] by (simp_all add: trim_json_object)
  show ?thesis
    using assms(1-3) onion_json_wrap [OF assms(4) w] env
    by (simp add: onion_peel_def key to_array_def)
qed

lemma onion_travel_layers:
  assumes "dh_ok P" "aead_ok P" "hex_ok P" "onion_json_ok J" "post_of payload = Some post"
    and "nodes \<noteq> []" "linked_route (map fst nodes)"
    and "build_layers P J (map (\<lambda>(n, r). (node_hop P n, r)) nodes) payload = Inr layers"
  shows "onion_travel P J post_of (map fst nodes) (p_hex_encode P layers) = Some post"
  using assms(6-)
proof (induction nodes arbitrary: layers)
  case (Cons x ns)
  obtain n r where x: "x = (n, r)" by (cases x)
  let ?hops = "map (\<lambda>(n, r). (node_hop P n, r)) ns"
  obtain inner where inner: "build_layers P J ?hops payload = Inr inner"
    "wrap_layer P J (node_hop P n) (case ?hops of [] \<Rightarrow> None | (m, _) # _ \<Rightarrow> Some m) r inner = Inr layers"
    using Cons.prems(3) by (auto simp: x and_then_Inr_iff)
  note peel = onion_peel_wrap [OF assms(1-4) inner(2)]
  show ?case
  proof (cases ns)
    case Nil
    then show ?thesis using peel inner(1) assms(5) by (simp add: x handle_onion_def)
  next
    case (Cons y ms)
    obtain m q where y: "y = (m, q)" by (cases y)
    obtain p k where p: "List.find (\<lambda>(_, p). pi_host p = on_host m \<and> pi_port p = on_port m) (on_peers n) = Some (k, p)"
      "pi_node_id p = on_id m"
      using Cons.prems(2) Cons by (auto simp: x y knows_next_def split: option.splits)
    have "handle_onion P J post_of (p_hex_encode P layers) (on_secret n) (on_host n) (on_port n) (on_peers n)
        = Forward (on_id m) (p_hex_encode P inner)"
      using peel p by (simp add: handle_onion_def Cons y node_hop_def)
    moreover have "onion_travel P J post_of (map fst ns) (p_hex_encode P inner) = Some post"
      using Cons.IH [OF _ _ inner(1)] Cons.prems(2) Cons by (simp add: x y)
    ultimately show ?thesis by (simp add: x y Cons)
  qed
qed simp

text \<open>C21: A message built for a list of nodes, each of which has the next among its peers, passes through
  exactly these nodes: every handler on the way forwards it to the next, and the last one finds the
  payload as it was sent and posts it.
\<close>

theorem onion_message_delivered:
  assumes "dh_ok P" "aead_ok P" "hex_ok P" "onion_json_ok J"
    and "onion_build P J (map (\<lambda>(n, r). (node_hop P n, r)) nodes) payload = Inr cell"
    and "linked_route (map fst nodes)" "post_of payload = Some post"
  shows "onion_travel P J post_of (map fst nodes) cell = Some post"
proof -
  obtain layers where l: "nodes \<noteq> []" "build_layers P J (map (\<lambda>(n, r). (node_hop P n, r)) nodes) payload = Inr layers"
    "cell = p_hex_encode P layers"
    using assms(5) by (auto simp: onion_build_def and_then_Inr_iff split: if_splits)
  show ?thesis using onion_travel_layers [where post_of = post_of, OF assms(1-4) assms(7) l(1) assms(6) l(2)] l(3) by simp
qed

text \<open>A concrete codec: fields as hex digits, separated by commas, inside braces.\<close>

definition toy_field :: "string \<Rightarrow> bytes" where
  "toy_field s = ascii (toy_hex_encode (ascii s)) @ [0x2C]"

definition toy_unfield :: "bytes \<Rightarrow> (string \<times> bytes) option" where
  "toy_unfield b = (case toy_hex_decode (text_of (takeWhile (\<lambda>x. x \<noteq> 0x2C) b)) of
     Some s \<Rightarrow> Some (text_of s, drop 1 (dropWhile (\<lambda>x. x \<noteq> 0x2C) b))
   | None \<Rightarrow> None)"

lemma toy_hex_bytes:
  assumes "x \<in> set (ascii (toy_hex_encode b))"
  shows "x \<noteq> 0x2C" "x \<notin> {0x22, 0x5C, 0x7B, 0x7D, 0x5B, 0x5D}"
proof -
  have "x \<in> set (ascii hex_digits)" using assms set_toy_hex_encode by (auto simp: ascii_def)
  moreover have "\<forall>x \<in> set (ascii hex_digits). x \<noteq> 0x2C \<and> x \<notin> {0x22, 0x5C, 0x7B, 0x7D, 0x5B, 0x5D}" by code_simp
  ultimately show "x \<noteq> 0x2C" "x \<notin> {0x22, 0x5C, 0x7B, 0x7D, 0x5B, 0x5D}" by blast+
qed

lemma toy_unfield_field [simp]: "toy_unfield (toy_field s @ r) = Some (s, r)"
proof -
  have "\<forall>x \<in> set (ascii (toy_hex_encode (ascii s))). x \<noteq> 0x2C" using toy_hex_bytes(1) by blast
  then have "takeWhile (\<lambda>x. x \<noteq> 0x2C) (ascii (toy_hex_encode (ascii s)) @ 0x2C # r) = ascii (toy_hex_encode (ascii s))"
    "dropWhile (\<lambda>x. x \<noteq> 0x2C) (ascii (toy_hex_encode (ascii s)) @ 0x2C # r) = 0x2C # r"
    by (simp_all add: takeWhile_append2 dropWhile_append2)
  then show ?thesis by (simp add: toy_unfield_def toy_field_def toy_hex_decode_encode)
qed

definition toy_object :: "string list \<Rightarrow> bytes" where
  "toy_object fs = 0x7B # concat (map toy_field fs) @ [0x7D]"

fun toy_fields :: "nat \<Rightarrow> bytes \<Rightarrow> string list option" where
  "toy_fields 0 b = (if b = [0x7D] then Some [] else None)"
| "toy_fields (Suc n) b = Option.bind (toy_unfield b) (\<lambda>(s, r). map_option ((#) s) (toy_fields n r))"

lemma toy_fields_object [simp]: "toy_fields (length fs) (tl (toy_object fs)) = Some fs"
proof -
  have "toy_fields (length fs) (concat (map toy_field fs) @ [0x7D]) = Some fs" by (induction fs) simp_all
  then show ?thesis by (simp add: toy_object_def)
qed

lemma json_items_plain:
  "\<forall>x \<in> set xs. x \<notin> {0x22, 0x5C, 0x7B, 0x7D, 0x5B, 0x5D} \<Longrightarrow> json_items xs"
  by (induction xs) (simp_all add: items_nil items_plain)

lemma json_object_toy: "json_object (toy_object fs)"
proof -
  have "x \<notin> {0x22, 0x5C, 0x7B, 0x7D, 0x5B, 0x5D}" if "x \<in> set (toy_field s)" for x s
    using that toy_hex_bytes(2) [of x "ascii s"] by (auto simp: toy_field_def)
  then have "json_items (concat (map toy_field fs))" by (intro json_items_plain) fastforce
  then show ?thesis by (auto simp: json_object_def toy_object_def)
qed

fun toy_opt :: "string option \<Rightarrow> string" where
  "toy_opt None = []"
| "toy_opt (Some s) = CHR ''s'' # s"

fun toy_unopt :: "string \<Rightarrow> string option" where
  "toy_unopt [] = None"
| "toy_unopt (_ # s) = Some s"

lemma toy_unopt_opt [simp]: "toy_unopt (toy_opt x) = x"
  by (cases x) simp_all

definition toy_json :: onion_json where
  "toy_json = \<lparr>
     oj_env = (\<lambda>e. Some (toy_object [toy_opt (oe_next_host e),
       toy_opt (map_option (\<lambda>p. text_of (to_be p)) (oe_next_port e)), oe_data e])),
     oj_env_of = (\<lambda>b. case toy_fields 3 (tl b) of
       Some [h, p, d] \<Rightarrow> Some \<lparr> oe_next_host = toy_unopt h,
         oe_next_port = map_option (\<lambda>p. of_be (ascii p)) (toy_unopt p), oe_data = d \<rparr>
     | _ \<Rightarrow> None),
     oj_wrap = (\<lambda>w. Some (toy_object [lw_ephem_pub w, text_of (to_be (lw_nonce w)), lw_aad w, lw_ct w])),
     oj_wrap_of = (\<lambda>b. case toy_fields 4 (tl b) of
       Some [e, n, a, c] \<Rightarrow> Some \<lparr> lw_ephem_pub = e, lw_nonce = of_be (ascii n), lw_aad = a, lw_ct = c \<rparr>
     | _ \<Rightarrow> None) \<rparr>"

lemma toy_json_ok: "onion_json_ok toy_json"
proof -
  have "toy_fields 3 (tl (toy_object [a, b, c])) = Some [a, b, c]" for a b c
    using toy_fields_object [of "[a, b, c]"] by (simp add: eval_nat_numeral)
  moreover have "toy_fields 4 (tl (toy_object [a, b, c, d])) = Some [a, b, c, d]" for a b c d
    using toy_fields_object [of "[a, b, c, d]"] by (simp add: eval_nat_numeral)
  ultimately show ?thesis
    by (simp add: onion_json_ok_def toy_json_def json_object_toy option.map_comp comp_def option.map_ident)
qed

lemma toy_wrap_total: "\<exists>layer. wrap_layer toy_prims toy_json (node_hop toy_prims n) nxt r current = Inr layer"
  by (simp add: wrap_layer_def static_pub_bytes_def node_hop_def to_array_def toy_json_def Let_def)

theorem onion_message_delivered_witness:
  "\<exists>cell. onion_travel toy_prims toy_json Some [\<lparr> on_id = [1], on_secret = [4], on_host = ''10.0.0.1'', on_port = 9000,
      on_peers = [([2], \<lparr> pi_node_id = [2], pi_host = ''10.1.0.2'', pi_port = 9001, pi_cert = (), pi_static_pub = [] \<rparr>)] \<rparr>,
    \<lparr> on_id = [2], on_secret = [5], on_host = ''10.1.0.2'', on_port = 9001, on_peers = [] \<rparr>] cell = Some [7, 8]"
proof -
  let ?a = "\<lparr> on_id = [1], on_secret = [4], on_host = ''10.0.0.1'', on_port = 9000,
      on_peers = [([2], \<lparr> pi_node_id = [2], pi_host = ''10.1.0.2'', pi_port = 9001, pi_cert = (), pi_static_pub = [] \<rparr>)] \<rparr>"
  let ?b = "\<lparr> on_id = [2], on_secret = [5], on_host = ''10.1.0.2'', on_port = 9001, on_peers = [] \<rparr> :: unit onion_node"
  let ?r = "\<lparr> ld_ephem = [3], ld_padding = (\<lambda>n. replicate n 1), ld_nonce = 6 \<rparr>"
  let ?hops = "map (\<lambda>(n, r). (node_hop toy_prims n, r)) [(?a, ?r), (?b, ?r)]"
  obtain inner where i: "wrap_layer toy_prims toy_json (node_hop toy_prims ?b) None ?r [7, 8] = Inr inner"
    using toy_wrap_total by blast
  obtain layers where "wrap_layer toy_prims toy_json (node_hop toy_prims ?a) (Some (node_hop toy_prims ?b)) ?r inner
      = Inr layers"
    using toy_wrap_total by blast
  then have "onion_build toy_prims toy_json ?hops [7, 8] = Inr (p_hex_encode toy_prims layers)"
    using i by (simp add: onion_build_def)
  from onion_message_delivered [OF toy_ok(3,5,2) toy_json_ok this, where post_of = Some and post = "[7, 8]"]
  show ?thesis by (simp add: knows_next_def) blast
qed

subsection \<open>The length of a message\<close>

text \<open>JSON text is at least as long as the strings inside it.\<close>

definition onion_json_shows :: "onion_json \<Rightarrow> bool" where
  "onion_json_shows J \<longleftrightarrow>
     (\<forall>e js. oj_env J e = Some js \<longrightarrow> length (oe_data e) \<le> length js)
     \<and> (\<forall>w js. oj_wrap J w = Some js \<longrightarrow> length (lw_ct w) \<le> length js)"

lemma padded_len_le: "n \<le> padded_len n" "DUMMY_CELL_SIZE \<le> padded_len n"
proof -
  have c: "DUMMY_CELL_SIZE = 512" by (simp add: DUMMY_CELL_SIZE_def)
  show "n \<le> padded_len n" "DUMMY_CELL_SIZE \<le> padded_len n" by (auto simp: padded_len_def c)
qed

lemma wrap_layer_grows:
  assumes "aead_ok P" "hex_ok P" "onion_json_shows J" "\<forall>n. length (ld_padding r n) = n"
    and "wrap_layer P J hop nxt r current = Inr layer"
  shows "4 * length current \<le> length layer \<and> 2 * (DUMMY_CELL_SIZE + 16) \<le> length layer"
proof -
  let ?env = "\<lparr> oe_next_host = map_option oh_host nxt, oe_next_port = map_option oh_port nxt,
    oe_data = p_hex_encode P current \<rparr>"
  obtain hop_pub js where js: "static_pub_bytes P hop = Inr hop_pub" "oj_env J ?env = Some js"
    using assms(5) by (cases "static_pub_bytes P hop"; cases "oj_env J ?env") (simp_all add: wrap_layer_def)
  let ?inner = "js @ ld_padding r (padded_len (length js) - length js)"
  define ct where "ct = aead_encrypt P (derive_hop_key P (ld_ephem r) hop_pub) (ld_nonce r)
    (ascii (hop_aad (oh_host hop) (oh_port hop))) ?inner"
  obtain w where w: "oj_wrap J w = Some layer" "lw_ct w = p_hex_encode P ct"
    using assms(5) js by (auto simp: wrap_layer_def ct_def Let_def and_then_Inr_iff split: option.splits)
  have hex: "length (p_hex_encode P b) = 2 * length b" for b using assms(2) by (simp add: hex_ok_def)
  have "length ct = padded_len (length js) + 16"
    using assms(1,4) padded_len_le(1) [of "length js"] by (simp add: ct_def)
  moreover have "2 * length current \<le> length js" using assms(3) js(2) hex by (fastforce simp: onion_json_shows_def)
  moreover have "2 * length ct \<le> length layer" using assms(3) w hex by (fastforce simp: onion_json_shows_def)
  ultimately show ?thesis using padded_len_le [of "length js"] by simp
qed

text \<open>A message for \<open>n\<close> hops is longer than two blocks times \<open>4 ^ (n - 1)\<close>, whatever the payload: every layer
  is at least four times as long as the one inside it. The padding hides the length of the payload only; the
  length of a message tells how many hops are left.
\<close>

theorem onion_length_grows:
  assumes "aead_ok P" "hex_ok P" "onion_json_shows J" "\<forall>(hop, r) \<in> set hops. \<forall>n. length (ld_padding r n) = n"
    and "build_layers P J hops payload = Inr layers" "hops \<noteq> []"
  shows "4 ^ (length hops - 1) * (2 * (DUMMY_CELL_SIZE + 16)) \<le> length layers"
  using assms(4-)
proof (induction hops arbitrary: layers)
  case (Cons x hops)
  obtain hop r where x: "x = (hop, r)" by (cases x)
  obtain inner where inner: "build_layers P J hops payload = Inr inner"
    "wrap_layer P J hop (case hops of [] \<Rightarrow> None | (n, _) # _ \<Rightarrow> Some n) r inner = Inr layers"
    using Cons.prems(2) by (auto simp: x and_then_Inr_iff)
  have grows: "4 * length inner \<le> length layers" "2 * (DUMMY_CELL_SIZE + 16) \<le> length layers"
    using wrap_layer_grows [OF assms(1-3) _ inner(2)] Cons.prems(1) by (simp_all add: x)
  show ?case
  proof (cases hops)
    case (Cons y ys)
    then have "4 ^ (length hops - 1) * (2 * (DUMMY_CELL_SIZE + 16)) \<le> length inner"
      using Cons.IH [OF _ inner(1)] Cons.prems(1) by simp
    then show ?thesis using grows(1) Cons by simp
  qed (use grows in simp)
qed simp

subsection \<open>Diversity of the guards\<close>

lemma pick_guards_keep: "set selected \<subseteq> set (pick_guards n used selected ps)"
  by (induction n used selected ps rule: pick_guards.induct) auto

lemma pick_guards_diverse:
  assumes "length selected \<le> n" "distinct (map (subnet16 \<circ> pi_host) selected)"
    and "used = excluded @ map (subnet16 \<circ> pi_host) selected"
    and "set (map (subnet16 \<circ> pi_host) selected) \<inter> set excluded = {}"
  shows "length (pick_guards n used selected ps) \<le> n
    \<and> distinct (map (subnet16 \<circ> pi_host) (pick_guards n used selected ps))
    \<and> set (map (subnet16 \<circ> pi_host) (pick_guards n used selected ps)) \<inter> set excluded = {}
    \<and> set (pick_guards n used selected ps) \<subseteq> set selected \<union> set ps"
  using assms by (induction n used selected ps rule: pick_guards.induct) auto

lemma pick_guards_maximal:
  assumes "length (pick_guards n used selected ps) < n" "p \<in> set ps"
    and "set used = set excluded \<union> set (map (subnet16 \<circ> pi_host) selected)"
  shows "subnet16 (pi_host p) \<in> set excluded \<union> (subnet16 \<circ> pi_host) ` set (pick_guards n used selected ps)"
  using assms
proof (induction n used selected ps rule: pick_guards.induct)
  case (2 n used selected q ps)
  show ?case
  proof (cases "n \<le> length selected")
    case False
    have kept: "r \<in> set (pick_guards n used' sel' ps)" if "r \<in> set sel'" for r used' sel'
      using that pick_guards_keep by blast
    show ?thesis
    proof (cases "subnet16 (pi_host q) \<in> set used")
      case True
      then have eq: "pick_guards n used selected (q # ps) = pick_guards n used selected ps" using False by simp
      have "subnet16 (pi_host q) \<in> set excluded \<union> (subnet16 \<circ> pi_host) ` set (pick_guards n used selected ps)"
        using True 2(5) kept [of _ selected used] by fastforce
      with 2(1) [OF False True] 2(3,4,5) show ?thesis unfolding eq by auto
    next
      case new: False
      then have eq: "pick_guards n used selected (q # ps)
          = pick_guards n (used @ [subnet16 (pi_host q)]) (selected @ [q]) ps" using False by simp
      have "q \<in> set (pick_guards n (used @ [subnet16 (pi_host q)]) (selected @ [q]) ps)" by (rule kept) simp
      moreover have "set (used @ [subnet16 (pi_host q)]) = set excluded \<union> set (map (subnet16 \<circ> pi_host) (selected @ [q]))"
        using 2(5) by simp
      ultimately show ?thesis using 2(2) [OF False new] 2(3,4) unfolding eq by auto
    qed
  qed (use 2 in simp)
qed simp

text \<open>The selected guards are at most \<open>n\<close> of the peers, in different /16 networks, none of them excluded;
  and fewer than \<open>n\<close> are selected only when every peer is in an excluded or already used network.
\<close>

theorem onion_guards_diverse:
  "let sel = select_guards peers n excluded in length sel \<le> n \<and> set sel \<subseteq> set peers \<and> distinct (map (subnet16 \<circ> pi_host) sel)
    \<and> set (map (subnet16 \<circ> pi_host) sel) \<inter> set excluded = {}
    \<and> (length sel = n \<or> (subnet16 \<circ> pi_host) ` set peers \<subseteq> set excluded \<union> (subnet16 \<circ> pi_host) ` set sel)"
proof -
  define sel where "sel = select_guards peers n excluded"
  have "length sel \<le> n \<and> set sel \<subseteq> set peers \<and> distinct (map (subnet16 \<circ> pi_host) sel)
      \<and> set (map (subnet16 \<circ> pi_host) sel) \<inter> set excluded = {}"
    using pick_guards_diverse [of "[]" n excluded excluded peers] by (simp add: sel_def select_guards_def)
  moreover have "(subnet16 \<circ> pi_host) ` set peers \<subseteq> set excluded \<union> (subnet16 \<circ> pi_host) ` set sel" if "length sel < n"
    using pick_guards_maximal [of n excluded "[]" peers _ excluded] that
    by (simp add: sel_def select_guards_def image_subset_iff)
  ultimately show ?thesis unfolding Let_def sel_def [symmetric] by (meson le_neq_implies_less)
qed

end
