(* ===== verification/Cert.thy ===== *)
theory Cert
  imports Com Dht SignedFields "HOL-Library.Log_Nat" "HOL-Library.Code_Target_Numeral"
begin

section \<open>Certificates\<close>

text \<open>
  phinet-core/src/cert.rs and the admission part of pow.rs: the number-theoretic certificate a node is
  named by, the primality test it rests on, and the memory-hard proof of work bound to it. A \<open>BigUint\<close> is a
  natural number; subtraction below zero panics. Random numbers are arguments; Argon2 is a parameter.

  Shown: the test accepts every prime, whatever bases are drawn, and is exact below \<open>547\<^sup>2\<close>; a certificate
  that verifies is determined by the bytes its node id hashes; the search ends at the first candidate it accepts,
  and that certificate verifies at every node.
\<close>

datatype cert_bits = B256 | B512 | B1024 | B2048

fun cert_bits_num :: "cert_bits \<Rightarrow> nat" where
  "cert_bits_num B256 = 256"
| "cert_bits_num B512 = 512"
| "cert_bits_num B1024 = 1024"
| "cert_bits_num B2048 = 2048"

definition j_bits :: "cert_bits \<Rightarrow> nat" where
  "j_bits b = cert_bits_num b - 2"

record wire_cert =
  wc_n :: string
  wc_phi :: string
  wc_mu :: u8
  wc_j :: string
  wc_dr :: u8
  wc_sg :: u8
  wc_bits :: cert_bits

record phi_cert =
  pc_n :: nat
  pc_phi :: nat
  pc_mu :: u8
  pc_j :: nat
  pc_dr :: u8
  pc_sg :: u8
  pc_bits :: cert_bits

definition digital_root :: "nat \<Rightarrow> u8" where
  "digital_root n = (if n = 0 then 9 else let r = of_nat (n mod 9) in if r = 0 then 9 else r)"

subsection \<open>The primality test\<close>

definition SMALL :: "nat list" where
  "SMALL = [
    3,5,7,11,13,17,19,23,29,31,37,41,43,47,53,59,61,67,71,73,79,83,89,97,
    101,103,107,109,113,127,131,137,139,149,151,157,163,167,173,179,181,
    191,193,197,199,211,223,227,229,233,239,241,251,257,263,269,271,277,
    281,283,293,307,311,313,317,331,337,347,349,353,359,367,373,379,383,
    389,397,401,409,419,421,431,433,439,443,449,457,461,463,467,479,487,
    491,499,503,509,521,523,541]"

fun trial :: "nat list \<Rightarrow> nat \<Rightarrow> bool option" where
  "trial [] n = None"
| "trial (p # ps) n = (if n = p then Some True else if n mod p = 0 then Some False else trial ps n)"

text \<open>\<open>while d % 2 == 0 { d >>= 1; s += 1 }\<close>, called with a positive number only.\<close>

function strip_twos :: "nat \<Rightarrow> nat \<Rightarrow> nat \<times> nat" where
  "strip_twos d s = (if 0 < d \<and> even d then strip_twos (d div 2) (s + 1) else (d, s))"
  by pat_completeness auto
termination by (relation "measure fst") auto

definition mr_threshold :: nat where "mr_threshold = 3317044064679887385961981"

definition mr_bases :: "nat \<Rightarrow> nat list \<Rightarrow> nat list" where
  "mr_bases n drawn =
     (if n < mr_threshold then [2,3,5,7,11,13,17,19,23,29,31,37,41]
      else [2,3,5,7,11,13,17,19,23,29,31,37,41,43,47] @ take 25 drawn)"

text \<open>The inner loop: whether one of the next \<open>k\<close> squares is \<open>n - 1\<close>.\<close>

fun squares_reach :: "nat \<Rightarrow> nat \<Rightarrow> nat \<Rightarrow> bool" where
  "squares_reach 0 x n = False"
| "squares_reach (Suc k) x n = (let y = x ^ 2 mod n in y = n - 1 \<or> squares_reach k y n)"

definition base_passes :: "nat \<Rightarrow> nat \<Rightarrow> nat \<Rightarrow> nat \<Rightarrow> bool" where
  "base_passes n d s b =
     (let a = b mod n in
      a < 2 \<or> (let x = a ^ d mod n in x = 1 \<or> x = n - 1 \<or> squares_reach (s - 1) x n))"

definition is_prime :: "nat list \<Rightarrow> nat \<Rightarrow> bool" where
  "is_prime drawn n =
     (if n < 2 then False
      else if n = 2 \<or> n = 3 then True
      else if n mod 2 = 0 then False
      else (case trial SMALL n of
              Some b \<Rightarrow> b
            | None \<Rightarrow> (let (d, s) = strip_twos (n - 1) 0 in list_all (base_passes n d s) (mr_bases n drawn))))"

subsection \<open>Making and checking a certificate\<close>

definition big_bits :: "nat \<Rightarrow> nat" where
  "big_bits n = floorlog 2 n"

text \<open>The loop draws until the number has exactly \<open>bits\<close> bits.\<close>

fun random_odd :: "nat \<Rightarrow> nat list \<Rightarrow> nat option" where
  "random_odd bits [] = None"
| "random_odd bits (r # rs) =
     (let n = set_bit 0 (set_bit (bits - 1) r) in if big_bits n = bits then Some n else random_odd bits rs)"

definition sieve_primes :: "nat list" where
  "sieve_primes = [
    3,5,7,11,13,17,19,23,29,31,37,41,43,47,53,59,61,67,71,73,79,83,89,97,
    101,103,107,109,113,127,131,137,139,149,151,157,163,167,173,179,181,
    191,193,197,199,211,223,227,229,233,239,241,251,257,263,269,271,277,
    281,283,293,307,311,313,317,331,337,347,349,353,359,367,373,379,383,
    389,397,401,409,419,421,431,433,439,443,449,457,461,463,467,479,487,
    491,499]"

definition sieve_ok :: "nat \<Rightarrow> bool" where
  "sieve_ok n = (case trial sieve_primes n of Some b \<Rightarrow> b | None \<Rightarrow> True)"

text \<open>One round of the search: the candidate and the bases drawn for the tests, by their order.\<close>

record cert_draw =
  cd_odd :: "nat list"
  cd_bases :: "nat \<Rightarrow> nat list"

definition sophie_germain :: "nat list \<Rightarrow> nat \<Rightarrow> u8" where
  "sophie_germain drawn j = (if is_prime drawn (j * 2 - 1) then 1 else 0)"

definition try_cert :: "cert_bits \<Rightarrow> (nat \<Rightarrow> nat list) \<Rightarrow> nat \<Rightarrow> phi_cert option" where
  "try_cert bits r j =
     (if \<not> sieve_ok j then None
      else
        let p2 = j * 2 - 1; phi2 = p2 - 1; dr2 = digital_root phi2 in
        if sieve_ok p2 \<and> 5 \<le> dr2 \<and> is_prime (r 0) j \<and> is_prime (r 1) p2
        then Some \<lparr> pc_n = p2 * 2, pc_phi = phi2, pc_mu = 2, pc_j = j, pc_dr = dr2,
          pc_sg = sophie_germain (r 2) j, pc_bits = bits \<rparr>
        else
          let p4 = j * 4 - 3; phi4 = p4 - 1; dr4 = digital_root phi4 in
          if sieve_ok p4 \<and> dr4 < 5 \<and> is_prime (r 3) j \<and> is_prime (r 4) p4
          then Some \<lparr> pc_n = p4 * 2, pc_phi = phi4, pc_mu = 4, pc_j = j, pc_dr = dr4,
            pc_sg = sophie_germain (r 5) j, pc_bits = bits \<rparr>
          else None)"

fun cert_generate :: "cert_bits \<Rightarrow> cert_draw list \<Rightarrow> phi_cert option" where
  "cert_generate bits [] = None"
| "cert_generate bits (r # rs) =
     (case random_odd (j_bits bits) (cd_odd r) of
        None \<Rightarrow> None
      | Some j \<Rightarrow> (case try_cert bits (cd_bases r) j of Some c \<Rightarrow> Some c | None \<Rightarrow> cert_generate bits rs))"

definition cert_rotate :: "phi_cert \<Rightarrow> cert_draw list \<Rightarrow> phi_cert option" where
  "cert_rotate c rs = cert_generate (pc_bits c) rs"

text \<open>\<open>p - 1\<close> panics for \<open>p = 0\<close>.\<close>

definition cert_verify :: "(nat \<Rightarrow> nat list) \<Rightarrow> phi_cert \<Rightarrow> bool outcome" where
  "cert_verify r c =
     (if pc_n c mod 2 \<noteq> 0 then Returns False
      else
        let p = pc_n c div 2 in
        if p = 0 then Panics
        else if pc_phi c \<noteq> p - 1 then Returns False
        else if digital_root (pc_phi c) \<noteq> pc_dr c then Returns False
        else if pc_mu c \<noteq> (if 5 \<le> pc_dr c then 2 else 4) then Returns False
        else if pc_phi c mod unat (pc_mu c) \<noteq> 0 then Returns False
        else if pc_phi c div unat (pc_mu c) + 1 \<noteq> pc_j c then Returns False
        else if \<not> is_prime (r 0) (pc_j c) then Returns False
        else if \<not> is_prime (r 1) p then Returns False
        else Returns (pc_sg c = sophie_germain (r 2) (pc_j c)))"

text \<open>\<open>to_bytes_be\<close>: no leading zero, one byte for zero.\<close>

fun big_to_bytes :: "nat \<Rightarrow> bytes" where
  "big_to_bytes n = (if n < 256 then [of_nat n] else big_to_bytes (n div 256) @ [of_nat (n mod 256)])"

declare big_to_bytes.simps [simp del] strip_twos.simps [simp del]

definition cert_id_bytes :: "phi_cert \<Rightarrow> bytes" where
  "cert_id_bytes c = big_to_bytes (pc_j c) @ big_to_bytes (pc_phi c) @ [2]"

definition cert_node_id :: "prims \<Rightarrow> phi_cert \<Rightarrow> bytes" where
  "cert_node_id P c = p_sha256 P (cert_id_bytes c)"

definition cert_cluster_id :: "prims \<Rightarrow> phi_cert \<Rightarrow> bytes" where
  "cert_cluster_id P c = p_sha256 P (big_to_bytes (pc_phi c) @ [2])"

definition cert_to_wire :: "prims \<Rightarrow> phi_cert \<Rightarrow> wire_cert" where
  "cert_to_wire P c = \<lparr> wc_n = p_hex_encode P (big_to_bytes (pc_n c)), wc_phi = p_hex_encode P (big_to_bytes (pc_phi c)),
     wc_mu = pc_mu c, wc_j = p_hex_encode P (big_to_bytes (pc_j c)), wc_dr = pc_dr c, wc_sg = pc_sg c,
     wc_bits = pc_bits c \<rparr>"

definition biguint_from_hex :: "prims \<Rightarrow> string \<Rightarrow> nat result" where
  "biguint_from_hex P s = and_then (ok_or (InvalidCert ''hex decode'') (p_hex_decode P s)) (\<lambda>b. Inr (be_nat b))"

definition cert_from_wire :: "prims \<Rightarrow> wire_cert \<Rightarrow> phi_cert result" where
  "cert_from_wire P w =
     and_then (biguint_from_hex P (wc_n w)) (\<lambda>n.
     and_then (biguint_from_hex P (wc_phi w)) (\<lambda>phi.
     and_then (biguint_from_hex P (wc_j w)) (\<lambda>j.
       Inr \<lparr> pc_n = n, pc_phi = phi, pc_mu = wc_mu w, pc_j = j, pc_dr = wc_dr w, pc_sg = wc_sg w,
         pc_bits = wc_bits w \<rparr>)))"

subsection \<open>The admission proof of work\<close>

record argon_params =
  ap_m_cost :: u32
  ap_t_cost :: u32
  ap_p_cost :: u32

fun argon_params_for :: "cert_bits \<Rightarrow> argon_params" where
  "argon_params_for B256 = \<lparr> ap_m_cost = 65536, ap_t_cost = 3, ap_p_cost = 1 \<rparr>"
| "argon_params_for B512 = \<lparr> ap_m_cost = 262144, ap_t_cost = 4, ap_p_cost = 1 \<rparr>"
| "argon_params_for B1024 = \<lparr> ap_m_cost = 1048576, ap_t_cost = 5, ap_p_cost = 2 \<rparr>"
| "argon_params_for B2048 = \<lparr> ap_m_cost = 4194304, ap_t_cost = 6, ap_p_cost = 4 \<rparr>"

record admission_pow =
  aw_hash :: string
  aw_salt :: string
  aw_params :: argon_params

text \<open>
  The argon2 crate: whether it accepts parameters, the text of a salted hash, and the check of a password
  against a text. A text names the parameters it was made with, and the check uses those.
\<close>

record argon2 =
  ag_params_ok :: "argon_params \<Rightarrow> bool"
  ag_hash :: "argon_params \<Rightarrow> bytes \<Rightarrow> string \<Rightarrow> string option"
  ag_parse_ok :: "string \<Rightarrow> bool"
  ag_verify :: "bytes \<Rightarrow> string \<Rightarrow> bool"

definition cert_canonical_bytes :: "phi_cert \<Rightarrow> bytes" where
  "cert_canonical_bytes c = big_to_bytes (pc_j c) @ big_to_bytes (pc_phi c) @ [pc_mu c, pc_dr c, 2]"

definition solve_admission :: "argon2 \<Rightarrow> string \<Rightarrow> phi_cert \<Rightarrow> admission_pow result" where
  "solve_admission A salt c =
     (let p = argon_params_for (pc_bits c); pass = cert_canonical_bytes c in
      if \<not> ag_params_ok A p then Inl (PowFailed ''params'')
      else and_then (ok_or (PowFailed ''hash'') (ag_hash A p pass salt))
             (\<lambda>h. Inr \<lparr> aw_hash = h, aw_salt = salt, aw_params = p \<rparr>))"

definition verify_admission :: "argon2 \<Rightarrow> phi_cert \<Rightarrow> admission_pow \<Rightarrow> bool" where
  "verify_admission A c w =
     (ag_params_ok A (aw_params w) \<and> ag_parse_ok A (aw_hash w) \<and> ag_verify A (cert_canonical_bytes c) (aw_hash w))"

subsection \<open>Primes\<close>

definition prime_num :: "nat \<Rightarrow> bool" where
  "prime_num p \<longleftrightarrow> 1 < p \<and> (\<forall>m. m dvd p \<longrightarrow> m = 1 \<or> m = p)"

lemma prime_gt_1: "prime_num p \<Longrightarrow> 1 < p"
  by (simp add: prime_num_def)

lemma prime_divides_mult:
  assumes "prime_num p" "p dvd a * b"
  shows "p dvd a \<or> p dvd b"
proof (cases "p dvd a")
  case False
  have "gcd p a dvd p" "gcd p a dvd a" by simp_all
  then have "coprime p a" using assms(1) False by (metis prime_num_def coprime_iff_gcd_eq_1)
  then show ?thesis using assms(2) by (simp add: coprime_dvd_mult_right_iff)
qed simp

lemma prime_divides_choose:
  assumes "prime_num p" "0 < k" "k < p"
  shows "p dvd p choose k"
proof -
  obtain q l where q: "p = Suc q" "k = Suc l" using assms by (metis gr0_conv_Suc less_trans)
  have "k * (p choose k) = p * (q choose l)" unfolding q by (rule Suc_times_binomial)
  then have "p dvd k * (p choose k)" by simp
  moreover have "\<not> p dvd k" using assms by (auto dest: dvd_imp_le)
  ultimately show ?thesis using prime_divides_mult [OF assms(1)] by blast
qed

lemma fermat_step:
  assumes "prime_num p"
  shows "(a + 1) ^ p mod p = (a ^ p + 1) mod (p::nat)"
proof -
  obtain q where q: "p = Suc q" using prime_gt_1 [OF assms] by (cases p) auto
  have "(a + 1) ^ p = (\<Sum>k\<le>Suc q. (p choose k) * a ^ k)"
    using binomial [of a 1 p] by (simp add: q)
  also have "\<dots> = (\<Sum>k \<in> {1..q}. (p choose k) * a ^ k) + (a ^ p + 1)"
  proof -
    have "{..Suc q} = insert 0 (insert (Suc q) {1..q})" by auto
    then show ?thesis by (simp add: q)
  qed
  finally have "(a + 1) ^ p = (\<Sum>k \<in> {1..q}. (p choose k) * a ^ k) + (a ^ p + 1)" .
  moreover have "p dvd (\<Sum>k \<in> {1..q}. (p choose k) * a ^ k)"
    by (rule dvd_sum) (use prime_divides_choose [OF assms] q in auto)
  ultimately obtain c where "(a + 1) ^ p = p * c + (a ^ p + 1)" by (metis dvdE)
  then show ?thesis by (simp only: mod_mult_self4)
qed

lemma fermat_power: "prime_num p \<Longrightarrow> a ^ p mod p = a mod (p::nat)"
proof (induction a)
  case 0
  then show ?case using prime_gt_1 [of p] by (simp add: power_0_left)
next
  case (Suc a)
  have "(a + 1) ^ p mod p = (a ^ p mod p + 1) mod p" using fermat_step [OF Suc.prems] by (simp add: mod_Suc_eq)
  also have "\<dots> = (a mod p + 1) mod p" by (simp only: Suc)
  finally show ?case by (simp add: mod_Suc_eq)
qed

lemma fermat:
  assumes "prime_num p" "\<not> p dvd a"
  shows "a ^ (p - 1) mod p = 1"
proof -
  have p: "1 < p" using assms(1) by (rule prime_gt_1)
  have a: "0 < a" using assms(2) by (cases a) auto
  have "a ^ p = a * a ^ (p - 1)" using p by (metis power_eq_if not_less_zero less_trans zero_less_one)
  then have "(a * a ^ (p - 1)) mod p = a mod p" using fermat_power [OF assms(1), of a] by simp
  then have "p dvd a * a ^ (p - 1) - a" using a by (intro mod_eq_dvd_iff_nat [THEN iffD1]) auto
  then have "p dvd a * (a ^ (p - 1) - 1)" by (simp add: diff_mult_distrib2)
  then have "p dvd a ^ (p - 1) - 1" using prime_divides_mult [OF assms(1)] assms(2) by blast
  then have "a ^ (p - 1) mod p = 1 mod p" using a by (intro mod_eq_dvd_iff_nat [THEN iffD2]) auto
  then show ?thesis using p by simp
qed

lemma square_one:
  assumes "prime_num p" "x < p" "x ^ 2 mod p = 1"
  shows "x = 1 \<or> x = p - 1"
proof -
  have p: "1 < p" using assms(1) by (rule prime_gt_1)
  have x: "0 < x" using assms(3) by (cases x) auto
  have "x ^ 2 mod p = 1 mod p" using assms(3) p by simp
  then have "p dvd x ^ 2 - 1" using x by (intro mod_eq_dvd_iff_nat [THEN iffD1]) auto
  moreover have "x ^ 2 - 1 = (x - 1) * (x + 1)" by (simp add: power2_eq_square algebra_simps)
  ultimately have "p dvd x - 1 \<or> p dvd x + 1" using prime_divides_mult [OF assms(1)] by simp
  then show ?thesis using x assms(2) by (auto dest: dvd_imp_le)
qed

lemma squares_reach_prime:
  assumes "prime_num p"
  shows "x < p \<Longrightarrow> x ^ (2 ^ Suc k) mod p = 1 \<Longrightarrow> x \<noteq> 1 \<Longrightarrow> x \<noteq> p - 1 \<Longrightarrow> squares_reach k x p"
proof (induction k arbitrary: x)
  case 0
  then show ?case using square_one [OF assms 0(1)] by simp
next
  case (Suc k)
  let ?y = "x ^ 2 mod p"
  have y: "?y < p" using prime_gt_1 [OF assms] by simp
  have "?y ^ (2 ^ Suc k) mod p = (x ^ 2) ^ (2 ^ Suc k) mod p" by (rule power_mod)
  also have "(x ^ 2) ^ (2 ^ Suc k) = x ^ (2 ^ Suc (Suc k))" by (simp flip: power_mult)
  finally have one: "?y ^ (2 ^ Suc k) mod p = 1" using Suc.prems(2) by simp
  have "?y \<noteq> 1" using square_one [OF assms Suc.prems(1)] Suc.prems(3,4) by blast
  then show ?case using Suc.IH [OF y one] by (auto simp: Let_def)
qed

lemma strip_twos_spec: "0 < m \<Longrightarrow> strip_twos m s = (d, k) \<Longrightarrow> m * 2 ^ s = d * 2 ^ k \<and> odd d \<and> s \<le> k"
proof (induction m s rule: strip_twos.induct)
  case (1 m s)
  show ?case
  proof (cases "even m")
    case True
    then have "0 < m div 2" using \<open>0 < m\<close> by (auto elim: evenE)
    moreover have "strip_twos (m div 2) (s + 1) = (d, k)"
      using 1(3) True \<open>0 < m\<close> by (subst (asm) strip_twos.simps) simp
    ultimately show ?thesis using 1(1) True \<open>0 < m\<close> by (auto elim!: evenE)
  next
    case False
    then show ?thesis using 1(3) by (subst (asm) strip_twos.simps) simp
  qed
qed

lemma strip_twos_even:
  assumes "0 < m" "even m" "strip_twos m 0 = (d, k)"
  shows "m = d * 2 ^ k" "0 < k"
  using strip_twos_spec [OF assms(1,3)] assms(2) by (cases k; simp)+

lemma base_passes_prime:
  assumes "prime_num p" "2 < p" "strip_twos (p - 1) 0 = (d, s)"
  shows "base_passes p d s b"
proof -
  have "odd p" using assms(1,2) by (metis prime_num_def dvd_refl even_Suc less_irrefl numeral_2_eq_2 one_less_numeral_iff
      semiring_norm(76))
  then have "0 < p - 1" "even (p - 1)" using assms(2) by simp_all
  note ds = strip_twos_even [OF this assms(3)]
  let ?a = "b mod p"
  let ?x = "?a ^ d mod p"
  show ?thesis
  proof (cases "?a < 2 \<or> ?x = 1 \<or> ?x = p - 1")
    case False
    have "?a < p" using assms(2) by simp
    then have "\<not> p dvd ?a" using False by (auto dest: dvd_imp_le)
    then have "?a ^ (p - 1) mod p = 1" by (rule fermat [OF assms(1)])
    moreover have "?x ^ (2 ^ s) mod p = ?a ^ (d * 2 ^ s) mod p" by (simp add: power_mod flip: power_mult)
    then have "?x ^ (2 ^ s) mod p = ?a ^ (p - 1) mod p" by (simp only: ds(1))
    ultimately have "squares_reach (s - 1) ?x p"
      using squares_reach_prime [OF assms(1), of ?x "s - 1"] False assms(2) ds(2) by simp
    then show ?thesis by (simp add: base_passes_def Let_def)
  qed (auto simp: base_passes_def Let_def)
qed

subsection \<open>Trial division\<close>

lemma trial_None: "trial ps n = None \<longleftrightarrow> (\<forall>p \<in> set ps. n \<noteq> p \<and> n mod p \<noteq> 0)"
  by (induction ps) auto

lemma trial_True: "trial ps n = Some True \<Longrightarrow> n \<in> set ps"
  by (induction ps) (auto split: if_splits)

lemma trial_False: "trial ps n = Some False \<Longrightarrow> \<exists>p \<in> set ps. n \<noteq> p \<and> n mod p = 0"
  by (induction ps) (auto split: if_splits)

lemma prime_by_trial:
  assumes "1 < n" "n < b * b" "\<And>m. 1 < m \<Longrightarrow> m < b \<Longrightarrow> m < n \<Longrightarrow> n mod m \<noteq> 0"
  shows "prime_num n"
proof -
  have "m = 1 \<or> m = n" if "m dvd n" for m
  proof (rule ccontr)
    assume no: "\<not> (m = 1 \<or> m = n)"
    obtain k where k: "n = m * k" using \<open>m dvd n\<close> by (rule dvdE)
    have mk: "1 < m" "1 < k" using no k assms(1) by (auto simp: Suc_lessI nat_neq_iff)
    then have less: "m < n" "k < n" using k by simp_all
    have "m < b \<or> k < b"
    proof (rule ccontr)
      assume "\<not> (m < b \<or> k < b)"
      then have "b * b \<le> m * k" by (intro mult_le_mono) auto
      then show False using assms(2) k by simp
    qed
    then show False using assms(3) [of m] assms(3) [of k] mk less k by auto
  qed
  then show ?thesis using assms(1) by (simp add: prime_num_def)
qed

definition divisors_24 :: "nat list" where
  "divisors_24 = [2,3,4,5,6,7,8,9,10,11,12,13,14,15,16,17,18,19,20,21,22,23]"

lemma small_primes: "p \<in> set SMALL \<Longrightarrow> prime_num p"
proof -
  assume "p \<in> set SMALL"
  moreover have "list_all (\<lambda>p. 1 < p \<and> p < 576 \<and> list_all (\<lambda>m. p \<le> m \<or> p mod m \<noteq> 0) divisors_24) SMALL"
    by code_simp
  ultimately have p: "1 < p" "p < 24 * 24" "\<forall>m \<in> set divisors_24. p \<le> m \<or> p mod m \<noteq> 0"
    by (auto simp: list_all_iff)
  have "divisors_24 = [2..<24]" by (simp add: divisors_24_def upt_rec)
  then have "\<And>m. 1 < m \<Longrightarrow> m < 24 \<Longrightarrow> m < p \<Longrightarrow> p mod m \<noteq> 0"
    using p(3) by (metis (full_types) Suc_leI atLeastLessThan_iff leD numeral_2_eq_2 set_upt One_nat_def)
  then show ?thesis by (rule prime_by_trial [OF p(1,2)])
qed

text \<open>The odd numbers below 547 are in the table or divisible by a smaller prime, checked in parts.\<close>

definition small_divisors :: "nat list" where
  "small_divisors = [3,5,7,11,13,17,19,23]"

fun covered :: "nat list \<Rightarrow> nat list \<Rightarrow> bool" where
  "covered [] ps = True"
| "covered (m # ms) [] = (list_ex (\<lambda>d. m mod d = 0) small_divisors \<and> covered ms [])"
| "covered (m # ms) (p # ps) =
     (if p = m then covered ms ps
      else list_ex (\<lambda>d. m mod d = 0) small_divisors \<and> covered ms (p # ps))"

lemma covered_odd:
  "covered (map (\<lambda>i. 2 * i + 3) [0..<34]) (drop 0 (take 18 SMALL))"
  "covered (map (\<lambda>i. 2 * i + 3) [34..<68]) (drop 18 (take 32 SMALL))"
  "covered (map (\<lambda>i. 2 * i + 3) [68..<102]) (drop 32 (take 45 SMALL))"
  "covered (map (\<lambda>i. 2 * i + 3) [102..<136]) (drop 45 (take 57 SMALL))"
  "covered (map (\<lambda>i. 2 * i + 3) [136..<170]) (drop 57 (take 67 SMALL))"
  "covered (map (\<lambda>i. 2 * i + 3) [170..<204]) (drop 67 (take 79 SMALL))"
  "covered (map (\<lambda>i. 2 * i + 3) [204..<238]) (drop 79 (take 90 SMALL))"
  "covered (map (\<lambda>i. 2 * i + 3) [238..<272]) (drop 90 (take 99 SMALL))"
  by code_simp+

lemma covered_member: "covered ms ps \<Longrightarrow> m \<in> set ms \<Longrightarrow> m \<in> set ps \<or> (\<exists>d \<in> set small_divisors. d dvd m)"
  by (induction ms ps rule: covered.induct) (auto simp: list_ex_iff dvd_eq_mod_eq_0 split: if_splits)

lemma covered_range:
  assumes "covered (map (\<lambda>i. 2 * i + 3) [a..<b]) (drop lo (take hi SMALL))" "a \<le> i" "i < b"
  shows "\<exists>p \<in> set SMALL. (2 * i + 3) mod p = 0"
proof -
  have small: "set small_divisors \<subseteq> set SMALL" by (simp add: SMALL_def small_divisors_def)
  have "2 * i + 3 \<in> set (map (\<lambda>i. 2 * i + 3) [a..<b])" using assms(2,3) by simp
  then have "2 * i + 3 \<in> set (drop lo (take hi SMALL)) \<or> (\<exists>d \<in> set small_divisors. d dvd 2 * i + 3)"
    by (rule covered_member [OF assms(1)])
  then show ?thesis
  proof
    assume "2 * i + 3 \<in> set (drop lo (take hi SMALL))"
    then have "2 * i + 3 \<in> set SMALL" by (meson in_set_dropD in_set_takeD)
    then show ?thesis by (intro bexI [of _ "2 * i + 3"]) simp_all
  next
    assume "\<exists>d \<in> set small_divisors. d dvd 2 * i + 3"
    then obtain d where "d \<in> set small_divisors" "d dvd 2 * i + 3" by (rule bexE)
    then show ?thesis using small by (intro bexI [of _ d]) auto
  qed
qed

lemma small_cover:
  assumes "1 < m" "m < 547"
  shows "m mod 2 = 0 \<or> (\<exists>p \<in> set SMALL. m mod p = 0)"
proof (cases "m mod 2 = 0")
  case False
  then have "m = 2 * ((m - 3) div 2) + 3" "(m - 3) div 2 < 272" using assms by presburger+
  moreover have "\<exists>p \<in> set SMALL. (2 * i + 3) mod p = 0" if "i < 272" for i
    using covered_odd [THEN covered_range, of i] that by (meson le0 not_less)
  ultimately show ?thesis by metis
qed simp

subsection \<open>The test and the reference definition\<close>

lemma is_prime_prime:
  assumes "prime_num n"
  shows "is_prime drawn n"
proof -
  have n: "1 < n" using assms by (rule prime_gt_1)
  consider "n = 2 \<or> n = 3" | "3 < n" using n by linarith
  then show ?thesis
  proof cases
    case 2
    have odd: "n mod 2 \<noteq> 0" using assms 2 by (auto simp: prime_num_def dvd_eq_mod_eq_0 [symmetric])
    have "trial SMALL n \<noteq> Some False"
      using trial_False [of SMALL n] small_primes assms by (auto simp: prime_num_def dvd_eq_mod_eq_0 [symmetric])
    moreover have "list_all (base_passes n d s) bs" if "strip_twos (n - 1) 0 = (d, s)" for d s bs
      using base_passes_prime [OF assms _ that] 2 by (simp add: list_all_iff)
    ultimately show ?thesis using 2 odd by (auto simp: is_prime_def split: option.splits prod.splits)
  qed (auto simp: is_prime_def)
qed

lemma is_prime_trial:
  assumes "is_prime drawn n" "n < 547 * 547"
  shows "prime_num n"
proof (cases "n = 2 \<or> n = 3 \<or> n \<in> set SMALL")
  case True
  have "prime_num 2" "prime_num 3" by (auto intro: prime_by_trial [of _ 2])
  then show ?thesis using True small_primes by auto
next
  case False
  have n: "1 < n" "n mod 2 \<noteq> 0" using assms(1) False by (auto simp: is_prime_def split: if_splits)
  have "\<forall>p \<in> set SMALL. n mod p \<noteq> 0"
    using assms(1) False n trial_True [of SMALL n] trial_None [of SMALL n]
    by (auto simp: is_prime_def split: option.splits if_splits)
  show ?thesis
  proof (rule prime_by_trial [OF n(1) assms(2)])
    fix m
    assume m: "1 < m" "m < 547" "m < n"
    obtain p where p: "p = 2 \<or> p \<in> set SMALL" "p dvd m" using small_cover [OF m(1,2)] by auto
    have "n mod p \<noteq> 0" using p(1) n(2) \<open>\<forall>p \<in> set SMALL. n mod p \<noteq> 0\<close> by auto
    then show "n mod m \<noteq> 0" using p(2) by (metis dvd_eq_mod_eq_0 dvd_trans)
  qed
qed

subsection \<open>Numbers as bytes\<close>

lemma be_nat_snoc: "be_nat (bs @ [b]) = be_nat bs * 256 + unat b"
  by (simp add: be_nat_def)

lemma be_nat_big_to_bytes [simp]: "be_nat (big_to_bytes n) = n"
proof (induction n rule: big_to_bytes.induct)
  case (1 n)
  have byte: "unat (of_nat k :: u8) = k" if "k < 256" for k using that by (intro unat_of_nat_len) simp
  show ?case
  proof (cases "n < 256")
    case True
    then show ?thesis by (subst big_to_bytes.simps) (simp add: be_nat_def byte)
  next
    case False
    then show ?thesis using 1 byte [of "n mod 256"] by (subst big_to_bytes.simps) (simp add: be_nat_snoc)
  qed
qed

lemma big_to_bytes_inject [simp]: "big_to_bytes m = big_to_bytes n \<longleftrightarrow> m = n"
  by (metis be_nat_big_to_bytes)

lemma length_big_to_bytes:
  "1 \<le> length (big_to_bytes n) \<and> n < 256 ^ length (big_to_bytes n)
    \<and> (0 < n \<longrightarrow> 256 ^ (length (big_to_bytes n) - 1) \<le> n)"
proof (induction n rule: big_to_bytes.induct)
  case (1 n)
  show ?case
  proof (cases "n < 256")
    case True
    then have "big_to_bytes n = [of_nat n]" by (subst big_to_bytes.simps) simp
    then show ?thesis using True by simp
  next
    case False
    let ?q = "n div 256"
    let ?l = "length (big_to_bytes ?q)"
    have len: "length (big_to_bytes n) = Suc ?l" using False by (subst big_to_bytes.simps) simp
    have ih: "1 \<le> ?l" "?q < 256 ^ ?l" "256 ^ (?l - 1) \<le> ?q" using 1 False by auto
    have a: "n < 256 ^ Suc ?l" using ih(2) by (simp add: div_less_iff_less_mult mult.commute)
    obtain k where k: "?l = Suc k" using ih(1) by (cases ?l) auto
    have "256 ^ k \<le> ?q" using ih(3) k by simp
    then have "256 * 256 ^ k \<le> 256 * ?q" by (rule mult_le_mono2)
    also have "256 * ?q \<le> n" by simp
    finally have b: "256 ^ (Suc ?l - 1) \<le> n" by (simp only: k diff_Suc_1 power_Suc)
    show ?thesis unfolding len by (intro conjI impI) (simp, rule a, rule b)
  qed
qed

lemma big_to_bytes_mono:
  assumes "m \<le> n" "0 < m"
  shows "length (big_to_bytes m) \<le> length (big_to_bytes n)"
proof (rule ccontr)
  assume "\<not> length (big_to_bytes m) \<le> length (big_to_bytes n)"
  then have "length (big_to_bytes n) \<le> length (big_to_bytes m) - 1" by simp
  then have "(256::nat) ^ length (big_to_bytes n) \<le> 256 ^ (length (big_to_bytes m) - 1)" by (intro power_increasing) simp_all
  moreover have "256 ^ (length (big_to_bytes m) - 1) \<le> m" "n < 256 ^ length (big_to_bytes n)"
    using length_big_to_bytes [of m] length_big_to_bytes [of n] assms(2) by simp_all
  ultimately show False using assms(1) by linarith
qed

lemma big_to_bytes_times:
  assumes "n < 256 * m" "0 < m"
  shows "length (big_to_bytes n) \<le> Suc (length (big_to_bytes m))"
proof (cases "0 < n")
  case True
  have "256 ^ (length (big_to_bytes n) - 1) \<le> n" using length_big_to_bytes [of n] True by simp
  also have "n < 256 * m" by (rule assms(1))
  also have "256 * m \<le> 256 * 256 ^ length (big_to_bytes m)" using length_big_to_bytes [of m] by simp
  finally have "(256::nat) ^ (length (big_to_bytes n) - 1) < 256 ^ Suc (length (big_to_bytes m))" by simp
  then have "length (big_to_bytes n) - 1 < Suc (length (big_to_bytes m))" by (rule power_less_imp_less_exp [rotated]) simp
  then show ?thesis by simp
next
  case False
  then show ?thesis by (simp add: big_to_bytes.simps)
qed

subsection \<open>Certificates that verify\<close>

lemma is_prime_ge_2: "is_prime drawn n \<Longrightarrow> 2 \<le> n"
  by (simp add: is_prime_def split: if_splits)

text \<open>The shape of a certificate: everything follows from \<open>j\<close> and the factor.\<close>

definition cert_shape :: "phi_cert \<Rightarrow> bool" where
  "cert_shape c \<longleftrightarrow> 2 \<le> pc_j c \<and> pc_mu c = (if 5 \<le> digital_root (pc_phi c) then 2 else 4)
     \<and> pc_phi c = unat (pc_mu c) * (pc_j c - 1) \<and> pc_n c = 2 * (pc_phi c + 1)
     \<and> pc_dr c = digital_root (pc_phi c)"

lemma returns_True_iff:
  "(if a then Returns False else x) = Returns True \<longleftrightarrow> \<not> a \<and> x = Returns True"
  "(if a then Panics else x) = Returns True \<longleftrightarrow> \<not> a \<and> x = Returns True"
  by simp_all

lemma cert_verify_shape:
  assumes "cert_verify r c = Returns True"
  shows "cert_shape c \<and> is_prime (r 0) (pc_j c) \<and> is_prime (r 1) (pc_n c div 2)"
proof -
  let ?p = "pc_n c div 2"
  from assms have c: "pc_n c mod 2 = 0" "?p \<noteq> 0" "pc_phi c = ?p - 1" "digital_root (pc_phi c) = pc_dr c"
    "pc_mu c = (if 5 \<le> pc_dr c then 2 else 4)" "pc_phi c mod unat (pc_mu c) = 0"
    "pc_phi c div unat (pc_mu c) + 1 = pc_j c" "is_prime (r 0) (pc_j c)" "is_prime (r 1) ?p"
    unfolding cert_verify_def Let_def returns_True_iff by blast+
  have "pc_n c = 2 * ?p" using c(1) by presburger
  then have "pc_n c = 2 * (pc_phi c + 1)" using c(2,3) by simp
  moreover have "pc_phi c = unat (pc_mu c) * (pc_j c - 1)"
    using c(6) unfolding c(7) [symmetric] by (metis add_diff_cancel_right' mult.commute mod_0_imp_dvd dvd_div_mult_self)
  ultimately show ?thesis using c is_prime_ge_2 [OF c(8)] by (simp add: cert_shape_def)
qed

lemma cert_shape_lengths:
  assumes "cert_shape c"
  shows "length (big_to_bytes (pc_j c)) = (length (cert_id_bytes c) - 1) div 2"
proof -
  have j: "2 \<le> pc_j c" and m: "pc_mu c = 2 \<or> pc_mu c = 4"
    and phi: "pc_phi c = unat (pc_mu c) * (pc_j c - 1)"
    using assms unfolding cert_shape_def by metis+
  from m have mu: "unat (pc_mu c) = 2 \<or> unat (pc_mu c) = 4" by (elim disjE) simp_all
  from mu have "pc_j c \<le> pc_phi c \<and> pc_phi c < 256 * pc_j c"
  proof
    assume "unat (pc_mu c) = 2"
    then have "pc_phi c = 2 * (pc_j c - 1)" using phi by simp
    then show ?thesis using j by linarith
  next
    assume "unat (pc_mu c) = 4"
    then have "pc_phi c = 4 * (pc_j c - 1)" using phi by simp
    then show ?thesis using j by linarith
  qed
  then have "length (big_to_bytes (pc_j c)) \<le> length (big_to_bytes (pc_phi c))"
      "length (big_to_bytes (pc_phi c)) \<le> Suc (length (big_to_bytes (pc_j c)))"
    using j big_to_bytes_mono [of "pc_j c" "pc_phi c"] big_to_bytes_times [of "pc_phi c" "pc_j c"] by simp_all
  then show ?thesis by (simp add: cert_id_bytes_def)
qed

lemma cert_shape_determined:
  assumes "cert_shape c" "cert_shape d" "cert_id_bytes c = cert_id_bytes d"
  shows "pc_j c = pc_j d \<and> pc_phi c = pc_phi d \<and> pc_n c = pc_n d \<and> pc_mu c = pc_mu d \<and> pc_dr c = pc_dr d"
proof -
  have "length (big_to_bytes (pc_j c)) = length (big_to_bytes (pc_j d))"
    using cert_shape_lengths [OF assms(1)] cert_shape_lengths [OF assms(2)] assms(3) by simp
  then have "big_to_bytes (pc_j c) = big_to_bytes (pc_j d)" "big_to_bytes (pc_phi c) = big_to_bytes (pc_phi d)"
    using assms(3) append_eq_append_conv [of "big_to_bytes (pc_j c)" "big_to_bytes (pc_j d)"]
    by (auto simp: cert_id_bytes_def simp del: big_to_bytes_inject)
  then have "pc_j c = pc_j d" "pc_phi c = pc_phi d" by (simp_all only: big_to_bytes_inject)
  then show ?thesis using assms(1,2) unfolding cert_shape_def by metis
qed

lemma cert_wire_roundtrip: "hex_ok P \<Longrightarrow> cert_from_wire P (cert_to_wire P c) = Inr c"
  by (simp add: cert_from_wire_def cert_to_wire_def biguint_from_hex_def)

subsection \<open>Certificates that are generated\<close>

text \<open>The test gives one answer for the number whatever bases are drawn.\<close>

definition decided :: "nat \<Rightarrow> bool" where
  "decided n \<longleftrightarrow> (\<forall>ws ws'. is_prime ws n = is_prime ws' n)"

lemma decided_cases:
  assumes "prime_num n \<or> n < mr_threshold \<or> trial SMALL n \<noteq> None"
  shows "decided n"
  using assms
proof (elim disjE)
  assume "prime_num n"
  then show ?thesis using is_prime_prime by (simp add: decided_def)
next
  assume "n < mr_threshold"
  then have "mr_bases n ws = mr_bases n ws'" for ws ws' by (simp add: mr_bases_def)
  then have "is_prime ws n = is_prime ws' n" for ws ws' unfolding is_prime_def by metis
  then show ?thesis by (simp add: decided_def)
qed (auto simp: decided_def is_prime_def)

lemma try_cert_verifies:
  assumes "try_cert bits r j = Some c" "1 \<le> j" "decided j" "decided (pc_n c div 2)" "decided (j * 2 - 1)"
  shows "cert_verify r' c = Returns True \<and> pc_j c = j \<and> pc_bits c = bits"
proof -
  have sg: "sophie_germain (r' 2) j = sophie_germain (r k) j" for k
    using assms(5) unfolding sophie_germain_def decided_def by metis
  have two: "(2::nat) * a - 1 - 1 = 2 * (a - 1)" "(4::nat) * a - 3 - 1 = 4 * (a - 1)" for a by linarith+
  consider (half) "is_prime (r 0) j" "is_prime (r 1) (j * 2 - 1)" "5 \<le> digital_root (j * 2 - 1 - 1)"
      "c = \<lparr> pc_n = (j * 2 - 1) * 2, pc_phi = j * 2 - 1 - 1, pc_mu = 2, pc_j = j,
        pc_dr = digital_root (j * 2 - 1 - 1), pc_sg = sophie_germain (r 2) j, pc_bits = bits \<rparr>"
    | (quarter) "is_prime (r 3) j" "is_prime (r 4) (j * 4 - 3)" "\<not> 5 \<le> digital_root (j * 4 - 3 - 1)"
      "c = \<lparr> pc_n = (j * 4 - 3) * 2, pc_phi = j * 4 - 3 - 1, pc_mu = 4, pc_j = j,
        pc_dr = digital_root (j * 4 - 3 - 1), pc_sg = sophie_germain (r 5) j, pc_bits = bits \<rparr>"
    using assms(1) unfolding try_cert_def Let_def by (auto simp: not_le split: if_splits)
  then show ?thesis
  proof cases
    case half
    have "is_prime (r' 0) j" "is_prime (r' 1) (j * 2 - 1)"
      using half(1,2) assms(3,4) half(4) unfolding decided_def by auto
    moreover have "(j * 2 - 1 - 1) mod 2 = 0" "(j * 2 - 1 - 1) div 2 + 1 = j" using assms(2) two(1) [of j] by (auto simp: mult.commute)
    ultimately show ?thesis using half(3) assms(2) sg by (simp add: half(4) cert_verify_def Let_def)
  next
    case quarter
    have "is_prime (r' 0) j" "is_prime (r' 1) (j * 4 - 3)"
      using quarter(1,2) assms(3,4) quarter(4) unfolding decided_def by auto
    moreover have "(j * 4 - 3 - 1) mod 4 = 0" "(j * 4 - 3 - 1) div 4 + 1 = j" using assms(2) two(2) [of j] by (auto simp: mult.commute)
    ultimately show ?thesis using quarter(3) assms(2) sg by (simp add: quarter(4) cert_verify_def Let_def)
  qed
qed

lemma cert_generate_from:
  "cert_generate bits rs = Some c \<Longrightarrow>
    \<exists>r \<in> set rs. \<exists>j. random_odd (j_bits bits) (cd_odd r) = Some j \<and> try_cert bits (cd_bases r) j = Some c"
  by (induction rs) (auto split: option.splits)

lemma set_bits_range:
  fixes r :: nat
  assumes "r < 2 ^ bits" "0 < bits"
  defines "n \<equiv> set_bit 0 (set_bit (bits - 1) r)"
  shows "2 ^ (bits - 1) \<le> n" "n < 2 ^ bits" "odd n"
proof -
  obtain b where b: "bits = Suc b" using assms(2) by (cases bits) auto
  have q: "r div 2 ^ b < 2" using assms(1) by (simp add: b div_less_iff_less_mult mult.commute)
  let ?m = "set_bit b r"
  have m: "?m = r + of_bool (\<not> bit r b) * 2 ^ b" by (rule set_bit_eq)
  have range: "2 ^ b \<le> ?m \<and> ?m < 2 ^ Suc b"
  proof (cases "bit r b")
    case True
    then have "odd (r div 2 ^ b)" by (simp add: bit_iff_odd)
    then have "0 < r div 2 ^ b" by (cases "r div 2 ^ b") auto
    then have "2 ^ b \<le> r" by (simp add: div_greater_zero_iff)
    then show ?thesis using True assms(1) b by (simp add: m)
  next
    case False
    then have "even (r div 2 ^ b)" by (simp add: bit_iff_odd)
    then have "r div 2 ^ b = 0" using q by (auto elim!: evenE)
    then have "r < 2 ^ b" by (simp add: div_eq_0_iff)
    then show ?thesis using False by (simp add: m)
  qed
  have n: "n = ?m + of_bool (\<not> bit ?m 0)" using set_bit_eq [of 0 ?m] by (simp add: n_def b)
  show "odd n" by (simp add: n bit_0)
  show "2 ^ (bits - 1) \<le> n" using range by (simp add: n b)
  have "even (2 ^ bits :: nat)" using b by simp
  then have "n \<noteq> 2 ^ bits" using \<open>odd n\<close> by metis
  then show "n < 2 ^ bits" using range by (auto simp: n b)
qed

subsection \<open>Properties\<close>

text \<open>C27: The primality test accepts every prime, whatever bases are drawn, and below \<open>547\<^sup>2\<close> it accepts
  nothing else.
\<close>

theorem primality_test_correct:
  "(prime_num n \<longrightarrow> is_prime drawn n) \<and> (n < 547 * 547 \<longrightarrow> (is_prime drawn n \<longleftrightarrow> prime_num n))"
  using is_prime_prime is_prime_trial by blast

theorem primality_test_correct_witness: "is_prime [] 541 \<and> prime_num 541 \<and> \<not> is_prime [] 91 \<and> \<not> prime_num 91"
proof -
  have t: "is_prime [] 541" "\<not> is_prime [] 91" by (simp_all add: is_prime_def SMALL_def)
  then show ?thesis using primality_test_correct [of 541 "[]"] primality_test_correct [of 91 "[]"] by simp
qed

text \<open>A node id names one certificate: two certificates that verify and whose ids hash the same bytes agree in every
  number, although the bytes of the numbers are joined without a separator.
\<close>

theorem node_id_names_certificate:
  assumes "cert_verify r c = Returns True" "cert_verify r' d = Returns True" "cert_id_bytes c = cert_id_bytes d"
  shows "pc_j c = pc_j d \<and> pc_phi c = pc_phi d \<and> pc_n c = pc_n d \<and> pc_mu c = pc_mu d \<and> pc_dr c = pc_dr d"
  using cert_shape_determined [OF _ _ assms(3)] cert_verify_shape [OF assms(1)] cert_verify_shape [OF assms(2)] by blast

text \<open>The least certificate of the second class, with the size it claims.\<close>

definition cheap_cert :: "cert_bits \<Rightarrow> phi_cert" where
  "cheap_cert b = \<lparr> pc_n = 74, pc_phi = 36, pc_mu = 2, pc_j = 19, pc_dr = 9, pc_sg = 1, pc_bits = b \<rparr>"

lemma cheap_cert_verifies: "cert_verify r (cheap_cert b) = Returns True"
proof -
  have "is_prime ws 19" "is_prime ws 37" for ws by (simp_all add: is_prime_def SMALL_def)
  then show ?thesis by (simp add: cert_verify_def cheap_cert_def digital_root_def sophie_germain_def)
qed

theorem node_id_names_certificate_witness:
  "pc_n (cheap_cert B256) = pc_n (cheap_cert B2048)"
  using node_id_names_certificate [OF cheap_cert_verifies cheap_cert_verifies, of B256 B2048]
  by (simp add: cert_id_bytes_def cheap_cert_def)

text \<open>Checking a certificate fails to return exactly for the number zero, which any peer can send: the
  subtraction \<open>n / 2 - 1\<close> panics.
\<close>

theorem certificate_check_panics: "cert_verify r c = Panics \<longleftrightarrow> pc_n c = 0"
proof -
  have if_panics: "(if a then Returns x else y) = Panics \<longleftrightarrow> \<not> a \<and> y = Panics"
    "(if a then Panics else y) = Panics \<longleftrightarrow> a \<or> y = Panics" for a x and y :: "bool outcome" by simp_all
  have "cert_verify r c = Panics \<longleftrightarrow> pc_n c mod 2 = 0 \<and> pc_n c div 2 = 0"
    unfolding cert_verify_def Let_def if_panics by simp
  then show ?thesis by presburger
qed

text \<open>C28: A certificate the search accepts verifies at every node, whatever bases that node draws, if the
  test decides the three numbers (it does for primes, for numbers below its threshold and for those that trial division
  settles).
\<close>

theorem generated_certificate_verifies:
  assumes "try_cert bits r j = Some c" "1 \<le> j" "decided j" "decided (pc_n c div 2)" "decided (j * 2 - 1)"
  shows "cert_verify r' c = Returns True \<and> pc_j c = j \<and> pc_bits c = bits"
  by (rule try_cert_verifies [OF assms])

theorem generated_certificate_verifies_witness:
  "\<exists>c. try_cert B512 (\<lambda>_. []) 19 = Some c \<and> cert_verify (\<lambda>_. [4]) c = Returns True"
proof -
  have t: "try_cert B512 (\<lambda>_. []) 19 = Some (cheap_cert B512)"
    by (simp add: try_cert_def cheap_cert_def sieve_ok_def sieve_primes_def digital_root_def is_prime_def SMALL_def
        sophie_germain_def)
  have d: "decided n" if "n < 100" for n using that by (intro decided_cases) (simp add: mr_threshold_def)
  show ?thesis using generated_certificate_verifies [OF t, of "\<lambda>_. [4]"] t d by (simp add: cheap_cert_def)
qed

text \<open>The random candidate has exactly the wanted number of bits and is odd at the first draw: the loop that draws it
  runs once.
\<close>

theorem random_odd_first_draw:
  assumes "r < 2 ^ bits" "0 < bits"
  shows "\<exists>n. random_odd bits (r # rs) = Some n \<and> 2 ^ (bits - 1) \<le> n \<and> n < 2 ^ bits \<and> odd n"
proof -
  note n = set_bits_range [OF assms]
  let ?n = "set_bit 0 (set_bit (bits - 1) r)"
  have "floorlog 2 ?n = bits"
    by (rule order_antisym) (use n assms(2) in \<open>auto intro!: floorlog_leI floorlog_geI\<close>)
  then show ?thesis using n by (simp add: big_bits_def)
qed

theorem random_odd_first_draw_witness: "\<exists>n. random_odd 4 [3] = Some n \<and> 8 \<le> n \<and> n < 16"
  using random_odd_first_draw [of 3 4 "[]"] by (auto simp del: random_odd.simps)

text \<open>What the crate promises: the text made for a password checks for it.\<close>

definition argon_ok :: "argon2 \<Rightarrow> bool" where
  "argon_ok A \<longleftrightarrow> (\<forall>p pass salt h. ag_params_ok A p \<and> ag_hash A p pass salt = Some h
     \<longrightarrow> ag_parse_ok A h \<and> ag_verify A pass h)"

lemma solved_admission_verifies:
  "argon_ok A \<Longrightarrow> solve_admission A salt c = Inr w \<Longrightarrow> verify_admission A c w"
  by (auto simp: argon_ok_def solve_admission_def verify_admission_def Let_def and_then_Inr_iff split: if_splits)

text \<open>Neither the size a certificate claims nor the cost of its proof of work is checked: a certificate for \<open>j = 19\<close>
  that claims any class is accepted, with a hash made with any parameters the crate takes.
\<close>

theorem admission_price_unchecked:
  assumes "argon_ok A" "ag_params_ok A p" "ag_hash A p (cert_canonical_bytes (cheap_cert b)) salt = Some h"
  shows "cert_verify r (cheap_cert b) = Returns True
    \<and> verify_admission A (cheap_cert b) \<lparr> aw_hash = h, aw_salt = salt, aw_params = p \<rparr>"
  using assms cheap_cert_verifies by (simp add: verify_admission_def argon_ok_def)

definition toy_argon :: argon2 where
  "toy_argon = \<lparr> ag_params_ok = (\<lambda>p. 8 \<le> ap_m_cost p), ag_hash = (\<lambda>p pass salt. Some (text_of pass)),
     ag_parse_ok = (\<lambda>h. True), ag_verify = (\<lambda>pass h. h = text_of pass) \<rparr>"

theorem admission_price_unchecked_witness:
  "\<exists>h. verify_admission toy_argon (cheap_cert B2048)
    \<lparr> aw_hash = h, aw_salt = [], aw_params = \<lparr> ap_m_cost = 8, ap_t_cost = 1, ap_p_cost = 1 \<rparr> \<rparr>"
proof -
  let ?p = "\<lparr> ap_m_cost = 8, ap_t_cost = 1, ap_p_cost = 1 \<rparr>"
  have "argon_ok toy_argon" "ag_params_ok toy_argon ?p"
    "ag_hash toy_argon ?p (cert_canonical_bytes (cheap_cert B2048)) [] = Some (text_of (cert_canonical_bytes (cheap_cert B2048)))"
    by (simp_all add: argon_ok_def toy_argon_def)
  from admission_price_unchecked [OF this] show ?thesis by blast
qed

end
