(* ===== verification/LinkWriter.thy ===== *)
theory LinkWriter
  imports Session Sched
begin

section \<open>The writer of a connection\<close>

text \<open>
  \<open>PeerConn::send_msg\<close>, \<open>send_circuit_msg\<close> and the writer task of \<open>register_peer\<close> in phinet-core/src/node.rs.
  A control message is sealed by the task that sends it and then put into the channel of the connection; a cell of
  a circuit is queued as it is and sealed by the writer when the scheduler picks it. Both use the
  same counter of nonces, so the receiver can only open frames in the order they were sealed.

  Shown: in every interleaving in which frames enter the channel in the order they were sealed and the writer seals
  no cell while a sealed frame waits for the channel, the receiver reads every message of every sender, in order;
  and that the condition is needed: nothing in the code keeps the writer from sealing a cell in between, and then
  the receiver fails.
\<close>

definition CHANNEL_CAP :: nat where "CHANNEL_CAP = 256"

record 'm link_writer =
  lw_session :: session
  lw_sealed :: "(nat \<times> bytes) list"
  lw_channel :: "bytes list"
  lw_queues :: "'m cell_queues"
  lw_wire :: bytes

text \<open>
  The steps: a task seals a control message; the frame of a task enters the channel, which holds at most
  256; a cell joins the queue of its circuit; the writer does one round, control frames first.
\<close>

datatype 'm writer_event = Seal nat 'm | Enqueue nat | PushCell u32 'm | WriteNext instant

definition send_circuit_msg :: "u32 \<Rightarrow> 'm \<Rightarrow> 'm link_writer \<Rightarrow> 'm link_writer" where
  "send_circuit_msg cid m w = w\<lparr>lw_queues := cq_push cid m (lw_queues w)\<rparr>"

definition seal_msg ::
  "prims \<Rightarrow> ('m \<Rightarrow> bytes result) \<Rightarrow> nat \<Rightarrow> 'm \<Rightarrow> 'm link_writer \<Rightarrow> 'm link_writer" where
  "seal_msg P enc task m w =
     (case send_session P enc m (lw_session w) of
        (s, Inl e) \<Rightarrow> w\<lparr>lw_session := s\<rparr>
      | (s, Inr frame) \<Rightarrow> w\<lparr>lw_session := s, lw_sealed := lw_sealed w @ [(task, frame)]\<rparr>)"

definition enqueue_frame :: "nat \<Rightarrow> 'm link_writer \<Rightarrow> 'm link_writer" where
  "enqueue_frame task w =
     (case map_of (lw_sealed w) task of
        Some frame \<Rightarrow>
          if length (lw_channel w) < CHANNEL_CAP
          then w\<lparr>lw_sealed := filter (\<lambda>(t, _). t \<noteq> task) (lw_sealed w), lw_channel := lw_channel w @ [frame]\<rparr>
          else w
      | None \<Rightarrow> w)"

definition writer_round ::
  "prims \<Rightarrow> ('m \<Rightarrow> bytes result) \<Rightarrow> powf \<Rightarrow> instant \<Rightarrow> 'm link_writer \<Rightarrow> 'm link_writer" where
  "writer_round P enc pw now w =
     (case lw_channel w of
        frame # rest \<Rightarrow> w\<lparr>lw_channel := rest, lw_wire := lw_wire w @ frame\<rparr>
      | [] \<Rightarrow>
          (case cq_pop_next pw now (lw_queues w) of
             (Some (_, m), q) \<Rightarrow>
               (case send_session P enc m (lw_session w) of
                  (s, Inl e) \<Rightarrow> w\<lparr>lw_session := s, lw_queues := q\<rparr>
                | (s, Inr frame) \<Rightarrow> w\<lparr>lw_session := s, lw_queues := q, lw_wire := lw_wire w @ frame\<rparr>)
           | (None, q) \<Rightarrow> w\<lparr>lw_queues := q\<rparr>))"

fun writer_step ::
  "prims \<Rightarrow> ('m \<Rightarrow> bytes result) \<Rightarrow> powf \<Rightarrow> 'm writer_event \<Rightarrow> 'm link_writer \<Rightarrow> 'm link_writer" where
  "writer_step P enc pw (Seal task m) w = seal_msg P enc task m w"
| "writer_step P enc pw (Enqueue task) w = enqueue_frame task w"
| "writer_step P enc pw (PushCell cid m) w = send_circuit_msg cid m w"
| "writer_step P enc pw (WriteNext now) w = writer_round P enc pw now w"

definition writer_run where
  "writer_run P enc pw evs w = fold (writer_step P enc pw) evs w"

definition writer_new :: "session \<Rightarrow> 'm link_writer" where
  "writer_new s = \<lparr> lw_session = s, lw_sealed = [], lw_channel = [], lw_queues = cell_queues_new, lw_wire = [] \<rparr>"

text \<open>
  The condition on an interleaving: a task that seals has no other frame waiting, frames enter the channel in the order
  they were sealed, and the writer seals a cell only when no sealed frame waits. The code does not ensure it.
\<close>

fun keeps_seal_order :: "'m writer_event \<Rightarrow> 'm link_writer \<Rightarrow> bool" where
  "keeps_seal_order (Seal task m) w \<longleftrightarrow> task \<notin> fst ` set (lw_sealed w)"
| "keeps_seal_order (Enqueue task) w \<longleftrightarrow> (case lw_sealed w of [] \<Rightarrow> True | (t, _) # _ \<Rightarrow> task = t \<or> task \<notin> fst ` set (lw_sealed w))"
| "keeps_seal_order (PushCell cid m) w \<longleftrightarrow> True"
| "keeps_seal_order (WriteNext now) w \<longleftrightarrow> lw_channel w \<noteq> [] \<or> lw_sealed w = []"

fun run_keeps_seal_order where
  "run_keeps_seal_order P enc pw [] w \<longleftrightarrow> True"
| "run_keeps_seal_order P enc pw (e # evs) w \<longleftrightarrow>
     keeps_seal_order e w \<and> run_keeps_seal_order P enc pw evs (writer_step P enc pw e w)"

text \<open>What the senders handed over, as far as it can be serialised: control messages, and cells of a circuit.\<close>

definition sent_controls :: "('m \<Rightarrow> bytes result) \<Rightarrow> 'm writer_event list \<Rightarrow> 'm list" where
  "sent_controls enc evs = filter (\<lambda>m. is_ok (enc m)) (concat (map (\<lambda>e. case e of Seal _ m \<Rightarrow> [m] | _ \<Rightarrow> []) evs))"

definition sent_cells_of :: "('m \<Rightarrow> bytes result) \<Rightarrow> u32 \<Rightarrow> 'm writer_event list \<Rightarrow> 'm list" where
  "sent_cells_of enc cid evs =
     filter (\<lambda>m. is_ok (enc m)) (concat (map (\<lambda>e. case e of PushCell i m \<Rightarrow> if i = cid then [m] else [] | _ \<Rightarrow> []) evs))"

text \<open>Messages tagged with their circuit; control messages have none.\<close>

definition of_tag :: "'t \<Rightarrow> ('t \<times> 'm) list \<Rightarrow> 'm list" where
  "of_tag t xs = map snd (filter (\<lambda>x. fst x = t) xs)"

lemma of_tag_simps [simp]:
  "of_tag t [] = []" "of_tag t (xs @ ys) = of_tag t xs @ of_tag t ys" "of_tag t [(u, m)] = (if u = t then [m] else [])"
  by (simp_all add: of_tag_def)

text \<open>The frames a session makes of a list of messages.\<close>

fun frames_of :: "prims \<Rightarrow> ('m \<Rightarrow> bytes result) \<Rightarrow> session \<Rightarrow> 'm list \<Rightarrow> session \<times> bytes list" where
  "frames_of P enc s [] = (s, [])"
| "frames_of P enc s (m # ms) =
     (case send_session P enc m s of
        (s', Inl e) \<Rightarrow> frames_of P enc s' ms
      | (s', Inr f) \<Rightarrow> (let (s2, fs) = frames_of P enc s' ms in (s2, f # fs)))"

lemma frames_of_snoc:
  "frames_of P enc s (ms @ [m]) =
     (let (s1, fs) = frames_of P enc s ms in
      case send_session P enc m s1 of (s2, Inl e) \<Rightarrow> (s2, fs) | (s2, Inr f) \<Rightarrow> (s2, fs @ [f]))"
  by (induction ms arbitrary: s) (auto simp: split_beta split: sum.splits prod.splits)

lemma frames_of_sealed:
  assumes "frames_of P enc s0 ms = (s, fs)" "send_session P enc m s = (s', Inr f)"
  shows "frames_of P enc s0 (ms @ [m]) = (s', fs @ [f])"
  by (simp add: frames_of_snoc assms)

text \<open>
  \<open>order\<close> are the messages in the order they were sealed: the frames of the first are on the wire, then come those
  in the channel and those on their way to it.
\<close>

definition in_order ::
  "prims \<Rightarrow> ('m \<Rightarrow> bytes result) \<Rightarrow> session \<Rightarrow> 'm writer_event list \<Rightarrow> 'm link_writer \<Rightarrow> (u32 option \<times> 'm) list
     \<Rightarrow> bytes list \<Rightarrow> bool" where
  "in_order P enc s0 evs w order fw \<longleftrightarrow>
     (\<forall>x \<in> set order. is_ok (enc (snd x)))
     \<and> frames_of P enc s0 (map snd order) = (lw_session w, fw @ lw_channel w @ map snd (lw_sealed w))
     \<and> lw_wire w = concat fw \<and> of_tag None order = sent_controls enc evs
     \<and> (\<forall>cid. of_tag (Some cid) order @ filter (\<lambda>m. is_ok (enc m)) (cq_queue cid (lw_queues w)) = sent_cells_of enc cid evs)
     \<and> hm_wf (cq_q (lw_queues w)) \<and> distinct (map fst (lw_sealed w))"

lemma send_session_cases:
  obtains (refused) e where "enc m = Inl e" "send_session P enc m s = (s, Inl e)"
  | (sealed) b where "enc m = Inr b"
      "send_session P enc m s = (sent_cells (cells_for (length b)) s, Inr (snd (encode_cells P s b)))"
proof (cases "enc m")
  case (Inl e)
  then show thesis using refused by (simp add: send_session_def)
next
  case (Inr b)
  then show thesis using sealed by (simp add: send_session_def split_beta)
qed

lemma seal_in_order:
  assumes "in_order P enc s0 evs w order fw" "keeps_seal_order (Seal task m) w"
  shows "\<exists>order. in_order P enc s0 (evs @ [Seal task m]) (seal_msg P enc task m w) order fw"
proof (cases rule: send_session_cases [of enc m P "lw_session w"])
  case (refused e)
  then show ?thesis using assms(1) by (auto simp: in_order_def seal_msg_def sent_controls_def sent_cells_of_def is_ok_iff)
next
  case (sealed b)
  note f = frames_of_sealed [OF _ sealed(2), where ms = "map snd order"]
  have "in_order P enc s0 (evs @ [Seal task m]) (seal_msg P enc task m w) (order @ [(None, m)]) fw"
    using assms f sealed by (auto simp: in_order_def seal_msg_def sent_controls_def sent_cells_of_def is_ok_iff)
  then show ?thesis by blast
qed

lemma enqueue_in_order:
  assumes "in_order P enc s0 evs w order fw" "keeps_seal_order (Enqueue task) w"
  shows "in_order P enc s0 (evs @ [Enqueue task]) (enqueue_frame task w) order fw"
proof (cases "lw_sealed w")
  case Nil
  then show ?thesis using assms(1) by (simp add: in_order_def enqueue_frame_def sent_controls_def sent_cells_of_def)
next
  case (Cons x rest)
  obtain t f where x: "x = (t, f)" by (cases x)
  show ?thesis
  proof (cases "task = t \<and> length (lw_channel w) < CHANNEL_CAP")
    case True
    have "t \<notin> fst ` set rest" using assms(1) Cons x by (simp add: in_order_def)
    then have "filter (\<lambda>(t', _). t' \<noteq> t) rest = rest" by (auto simp: filter_id_conv image_iff split: prod.split)
    with True Cons x assms(1) show ?thesis by (simp add: in_order_def enqueue_frame_def sent_controls_def sent_cells_of_def)
  next
    case False
    have "enqueue_frame task w = w"
      using False Cons x assms(2) by (auto simp: enqueue_frame_def map_of_eq_None_iff split: option.split) (metis image_eqI fst_conv map_of_SomeD)
    then show ?thesis using assms(1) by (simp add: in_order_def sent_controls_def sent_cells_of_def)
  qed
qed

lemma push_in_order:
  assumes "in_order P enc s0 evs w order fw"
  shows "in_order P enc s0 (evs @ [PushCell cid m]) (send_circuit_msg cid m w) order fw"
proof -
  have "cq_queue i (cq_push cid m q) = cq_queue i q @ (if i = cid then [m] else [])" for i q
    by (simp add: cq_push_def cq_queue_def hm.get_ins)
  moreover have "hm_wf (cq_q (cq_push cid m (lw_queues w)))" using assms by (simp add: in_order_def cq_push_def hm_wf_intros)
  ultimately show ?thesis
    using assms by (auto simp: in_order_def send_circuit_msg_def sent_controls_def sent_cells_of_def simp flip: append_assoc)
qed

lemma write_in_order:
  assumes "in_order P enc s0 evs w order fw" "keeps_seal_order (WriteNext now) w"
  shows "\<exists>order fw. in_order P enc s0 (evs @ [WriteNext now]) (writer_round P enc pw now w) order fw"
proof (cases "lw_channel w")
  case (Cons f rest)
  then have "in_order P enc s0 (evs @ [WriteNext now]) (writer_round P enc pw now w) order (fw @ [f])"
    using assms(1) by (simp add: in_order_def writer_round_def sent_controls_def sent_cells_of_def)
  then show ?thesis by blast
next
  case Nil
  then have none: "lw_sealed w = []" using assms(2) by simp
  have evs: "sent_controls enc (evs @ [WriteNext now]) = sent_controls enc evs"
    "sent_cells_of enc cid (evs @ [WriteNext now]) = sent_cells_of enc cid evs" for cid
    by (simp_all add: sent_controls_def sent_cells_of_def)
  have wf: "hm_wf (cq_q (lw_queues w))" using assms(1) by (simp add: in_order_def)
  show ?thesis
  proof (cases rule: cq_pop_cases [OF wf, of pw now])
    case 1
    then have "writer_round P enc pw now w = w" by (simp add: writer_round_def Nil)
    then show ?thesis using assms(1) evs by (auto simp: in_order_def)
  next
    case (2 cid m rest q')
    let ?q = "lw_queues w\<lparr>cq_q := q', cq_sched := note_sent pw cid 1 now (decay pw now (cq_sched (lw_queues w)))\<rparr>"
    have queue: "cq_queue i ?q = (if i = cid then rest else cq_queue i (lw_queues w))" for i
      using 2(4) [of i] by (simp add: cq_queue_def)
    show ?thesis
    proof (cases rule: send_session_cases [of enc m P "lw_session w"])
      case (refused e)
      then have "writer_round P enc pw now w = w\<lparr>lw_queues := ?q\<rparr>" using Nil 2(1) by (simp add: writer_round_def)
      moreover have same: "filter (\<lambda>m. is_ok (enc m)) (cq_queue i ?q) = filter (\<lambda>m. is_ok (enc m)) (cq_queue i (lw_queues w))" for i
        unfolding queue using 2(2) refused(1) by (simp add: is_ok_iff)
      ultimately have "in_order P enc s0 (evs @ [WriteNext now]) (writer_round P enc pw now w) order fw"
        using assms(1) 2(3) by (simp add: in_order_def evs)
      then show ?thesis by blast
    next
      case (sealed b)
      let ?f = "snd (encode_cells P (lw_session w) b)" and ?s = "sent_cells (cells_for (length b)) (lw_session w)"
      have round: "writer_round P enc pw now w = w\<lparr>lw_session := ?s, lw_queues := ?q, lw_wire := lw_wire w @ ?f\<rparr>"
        using Nil 2(1) sealed(2) by (simp add: writer_round_def)
      have "frames_of P enc s0 (map snd order) = (lw_session w, fw)" using assms(1) Nil none by (simp add: in_order_def)
      note frames = frames_of_sealed [OF this sealed(2)]
      have cell: "of_tag (Some i) (order @ [(Some cid, m)]) @ filter (\<lambda>m. is_ok (enc m)) (cq_queue i ?q) = sent_cells_of enc i evs" for i
      proof -
        have "of_tag (Some i) order @ filter (\<lambda>m. is_ok (enc m)) (cq_queue i (lw_queues w)) = sent_cells_of enc i evs"
          using assms(1) by (simp add: in_order_def)
        then show ?thesis unfolding queue using 2(2) sealed(1) by (cases "i = cid") (simp_all add: is_ok_iff)
      qed
      from frames have "in_order P enc s0 (evs @ [WriteNext now]) (writer_round P enc pw now w) (order @ [(Some cid, m)]) (fw @ [?f])"
        using assms(1) 2(3) sealed(1) cell Nil none unfolding round by (auto simp: in_order_def evs is_ok_iff)
      then show ?thesis by blast
    qed
  qed
qed

lemma keeps_snoc:
  "run_keeps_seal_order P enc pw (evs @ [e]) w \<longleftrightarrow>
     run_keeps_seal_order P enc pw evs w \<and> keeps_seal_order e (writer_run P enc pw evs w)"
  by (induction evs arbitrary: w) (auto simp: writer_run_def)

lemma run_in_order:
  assumes "run_keeps_seal_order P enc pw evs (writer_new s)"
  shows "\<exists>order fw. in_order P enc s evs (writer_run P enc pw evs (writer_new s)) order fw"
  using assms
proof (induction evs rule: rev_induct)
  case Nil
  have "in_order P enc s [] (writer_new s) [] []"
    by (simp add: in_order_def writer_new_def sent_controls_def sent_cells_of_def cell_queues_new_def cq_queue_def hm_wf_def)
  then show ?case by (auto simp: writer_run_def)
next
  case (snoc e evs)
  let ?w = "writer_run P enc pw evs (writer_new s)"
  have step: "writer_run P enc pw (evs @ [e]) (writer_new s) = writer_step P enc pw e ?w" by (simp add: writer_run_def)
  obtain order fw where o: "in_order P enc s evs ?w order fw" using snoc by (auto simp: keeps_snoc)
  have k: "keeps_seal_order e ?w" using snoc.prems by (simp add: keeps_snoc)
  show ?case
  proof (cases e)
    case (Seal task m)
    with seal_in_order [OF o] k step show ?thesis by simp blast
  next
    case (Enqueue task)
    with enqueue_in_order [OF o] k step show ?thesis by simp blast
  next
    case (PushCell cid m)
    with push_in_order [OF o] step show ?thesis by simp blast
  next
    case (WriteNext now)
    then show ?thesis using write_in_order [OF o] k step by simp
  qed
qed

subsection \<open>The reader of the other side\<close>

text \<open>\<open>recv_session\<close> until a message fails, at most \<open>n\<close> times.\<close>

fun read_messages ::
  "prims \<Rightarrow> (bytes \<Rightarrow> 'm result) \<Rightarrow> nat \<Rightarrow> session \<Rightarrow> bytes \<Rightarrow> 'm result list" where
  "read_messages P dec 0 r stream = []"
| "read_messages P dec (Suc n) r stream =
     (case recv_session P dec r stream of
        (r', rest, Inl e) \<Rightarrow> [Inl e]
      | (r', rest, Inr m) \<Rightarrow> Inr m # read_messages P dec n r' rest)"

text \<open>The serialiser stays within the frame limit and its inverse reads what it wrote.\<close>

definition serde_ok :: "('m \<Rightarrow> bytes result) \<Rightarrow> (bytes \<Rightarrow> 'm result) \<Rightarrow> bool" where
  "serde_ok enc dec \<longleftrightarrow> (\<forall>m b. enc m = Inr b \<longrightarrow> length b \<le> MAX_FRAME_SIZE \<and> dec b = Inr m)"

lemma read_frames:
  assumes "aead_ok P" "serde_ok enc dec" "feeds s r" "\<forall>m \<in> set ms. is_ok (enc m)"
    and "frames_of P enc s ms = (s', fw @ rest)"
  shows "length (fw @ rest) = length ms \<and> read_messages P dec (length fw) r (concat fw) = map Inr (take (length fw) ms)"
  using assms(3-)
proof (induction ms arbitrary: s r fw rest)
  case (Cons m ms)
  obtain b where b: "enc m = Inr b" using Cons.prems(2) by (auto simp: is_ok_iff)
  then have fits: "length b \<le> MAX_FRAME_SIZE" "dec b = Inr m" using assms(2) by (auto simp: serde_ok_def)
  let ?s = "sent_cells (cells_for (length b)) s" and ?f = "snd (encode_cells P s b)"
  obtain fs where fs: "frames_of P enc ?s ms = (s', fs)" "fw @ rest = ?f # fs"
    using Cons.prems(3) b by (cases "frames_of P enc ?s ms") (simp add: send_session_def split_beta)
  have ok: "\<forall>m \<in> set ms. is_ok (enc m)" using Cons.prems(2) by simp
  note IH = Cons.IH [OF feeds_advance [OF Cons.prems(1)] ok]
  show ?case
  proof (cases fw)
    case Nil
    with fs IH [of "cells_for (length b)" "[]" fs] show ?thesis by simp
  next
    case (Cons g gs)
    then have g: "g = ?f" "fs = gs @ rest" using fs(2) by simp_all
    have "recv_session P dec r (?f @ concat gs) = (got_cells (cells_for (length b)) r, concat gs, Inr m)"
      unfolding recv_session_def recv_loop_encode_cells [OF assms(1) Cons.prems(1) fits(1)] using fits(2) by simp
    then show ?thesis using IH [of "cells_for (length b)" gs rest] fs(1) g Cons by simp
  qed
qed simp

text \<open>C29: Let any number of tasks send control messages and cells over a connection, in any interleaving with the writer
  that keeps the order of sealing. Then the other side reads from the wire a prefix of a list \<open>order\<close> of messages in
  which every control message that was sealed occurs, in the order of sealing, and in which the cells of each circuit
  are those handed over for it, in their order, up to those that still wait in its queue; only messages the serialiser
  refuses are left out. What is missing from the prefix are the frames still in the channel or on their way to it.
\<close>

theorem ordered_sends_read_in_order:
  assumes "aead_ok P" "serde_ok enc dec" "feeds s r" "run_keeps_seal_order P enc pw evs (writer_new s)"
    and "w = writer_run P enc pw evs (writer_new s)"
  shows "\<exists>order n. of_tag None order = sent_controls enc evs
    \<and> (\<forall>cid. of_tag (Some cid) order @ filter (\<lambda>m. is_ok (enc m)) (cq_queue cid (lw_queues w)) = sent_cells_of enc cid evs)
    \<and> length order = n + length (lw_channel w) + length (lw_sealed w)
    \<and> read_messages P dec n r (lw_wire w) = map (\<lambda>x. Inr (snd x)) (take n order)"
proof -
  obtain order fw where o: "in_order P enc s evs w order fw" using run_in_order [OF assms(4)] assms(5) by blast
  then have "\<forall>m \<in> set (map snd order). is_ok (enc m)"
      "frames_of P enc s (map snd order) = (lw_session w, fw @ lw_channel w @ map snd (lw_sealed w))"
    by (auto simp: in_order_def)
  from read_frames [OF assms(1-3) this] o show ?thesis
    by (intro exI [of _ order] exI [of _ "length fw"]) (simp add: in_order_def take_map)
qed

text \<open>A frame opens only under the nonce it was sealed with.\<close>

definition aead_nonce_ok :: "prims \<Rightarrow> bool" where
  "aead_nonce_ok P \<longleftrightarrow>
     (\<forall>k i j a m. i \<noteq> j \<longrightarrow> p_aead_open P k (nonce96_ctr i) a (p_aead_seal P k (nonce96_ctr j) a m) = None)"

lemma read_cell_wrong_nonce:
  assumes "aead_ok P" "aead_nonce_ok P" "feeds s r" "length c \<le> CELL_DATA"
    and "nonce_ctr_send s (se_send_nonce s + of_nat k) \<noteq> nonce_ctr_send s (se_send_nonce s)"
  shows "\<exists>r' rest'. read_cell P r (snd (encrypt_cell P (sent_cells k s) f c) @ rest) = (r', rest', Inl AuthFailed)"
proof -
  let ?plain = "f # to_le (of_nat (length c) :: u16) @ c @ replicate (CELL_DATA - length c) 0"
  have plain: "length ?plain = LINK_CELL" using assms(4) by simp
  define ct where "ct = snd (session_encrypt P (sent_cells k s) ?plain)"
  have lct: "length ct = 2064" using plain assms(1) by (simp add: ct_def session_encrypt_def Let_def)
  have out: "snd (encrypt_cell P (sent_cells k s) f c) = to_le (of_nat (length ct) :: u32) @ ct"
    by (simp add: ct_def encrypt_cell_def Let_def split_beta)
  have nonce: "nonce_ctr_send (s\<lparr>se_send_nonce := n\<rparr>) i = nonce_ctr_send s i" "aad_send (s\<lparr>se_send_nonce := n\<rparr>) = aad_send s" for n i
    by (simp_all add: nonce_ctr_send_def aad_send_def)
  have "snd (session_decrypt P r ct) = Inl AuthFailed"
    using assms(2,5) feeds_nonce [OF assms(3), of "se_send_nonce s"] feeds_aad [OF assms(3)] assms(3)
    by (simp add: ct_def session_decrypt_def session_encrypt_def Let_def aead_decrypt_def aead_encrypt_def
        aead_nonce_ok_def nonce feeds_def)
  then obtain r' where dec: "session_decrypt P r ct = (r', Inl AuthFailed)" by (metis prod.collapse)
  have len: "unat (of_le (to_le (of_nat (length ct) :: u32)) :: u32) = 2064" by (simp add: lct)
  show ?thesis
    unfolding out using lct len dec by (simp add: read_cell_def read_exact_def Let_def)
qed

lemma recv_wrong_nonce:
  assumes "aead_ok P" "aead_nonce_ok P" "feeds s r"
    and "nonce_ctr_send s (se_send_nonce s + of_nat k) \<noteq> nonce_ctr_send s (se_send_nonce s)"
  shows "read_messages P dec (Suc n) r (snd (encode_cells P (sent_cells k s) b) @ rest) = [Inl AuthFailed]"
proof -
  obtain cs where cs: "\<forall>c \<in> set cs. length c \<le> CELL_DATA" "length cs = cells_for (length b)"
      "encode_cells P (sent_cells k s) b = encode_chunks P (sent_cells k s) cs"
    using encode_cells_as_chunks [of b P "sent_cells k s"] by blast
  then obtain c cs' where c: "cs = c # cs'" "length c \<le> CELL_DATA" by (cases cs) (auto simp: cells_for_def)
  obtain f tail where "snd (encode_chunks P (sent_cells k s) cs) = snd (encrypt_cell P (sent_cells k s) f c) @ tail"
    unfolding c(1) by (simp add: split_beta)
  then have "snd (encode_cells P (sent_cells k s) b) @ rest = snd (encrypt_cell P (sent_cells k s) f c) @ (tail @ rest)"
    by (simp only: cs(3) append_assoc)
  then obtain r' rest' where "read_cell P r (snd (encode_cells P (sent_cells k s) b) @ rest) = (r', rest', Inl AuthFailed)"
    using read_cell_wrong_nonce [OF assms(1-3) c(2) assms(4), of f "tail @ rest"] by auto
  then have "recv_loop P r (snd (encode_cells P (sent_cells k s) b) @ rest) [] = (r', rest', Inl AuthFailed)"
    by (subst recv_loop.simps) simp
  then show ?thesis by (simp add: recv_session_def)
qed

lemma pop_only_cell:
  "\<exists>q. cq_pop_next pw now (cq_push cid m cell_queues_new) = (Some (cid, m), q)"
  by (simp add: cq_pop_next_def cq_push_def cq_ready_def cq_queue_def cell_queues_new_def sched_next_def Let_def split_beta)

text \<open>
  A control message is sealed; before its frame reaches the channel, the writer finds the channel empty and
  seals a cell; then the frame follows.
\<close>

definition overtaken :: "'m \<Rightarrow> u32 \<Rightarrow> 'm \<Rightarrow> instant \<Rightarrow> 'm writer_event list" where
  "overtaken m cid cell now = [Seal 0 m, PushCell cid cell, WriteNext now, Enqueue 0, WriteNext now]"

text \<open>On a fresh connection one cell that overtakes one control message is enough to end it: the frame of the
  cell arrives first under a nonce the receiver is not at, and opening it fails.
\<close>

theorem overtaken_frame_ends_link:
  assumes "aead_ok P" "aead_nonce_ok P" "serde_ok enc dec" "is_ok (enc m)" "is_ok (enc cell)"
    and "feeds s r" "se_send_nonce s = 0"
  shows "read_messages P dec 2 r (lw_wire (writer_run P enc pw (overtaken m cid cell now) (writer_new s))) = [Inl AuthFailed]"
proof -
  obtain b b' where b: "enc m = Inr b" "enc cell = Inr b'" using assms(4,5) by (auto simp: is_ok_iff)
  let ?k = "cells_for (length b)"
  let ?f = "snd (encode_cells P s b)"
  let ?g = "snd (encode_cells P (sent_cells ?k s) b')"
  obtain q where q: "cq_pop_next pw now (cq_push cid cell cell_queues_new) = (Some (cid, cell), q)"
    using pop_only_cell [of pw now cid cell] by (elim exE)
  have wire: "lw_wire (writer_run P enc pw (overtaken m cid cell now) (writer_new s)) = ?g @ ?f"
    using b q by (simp add: writer_run_def overtaken_def writer_new_def seal_msg_def send_circuit_msg_def
        writer_round_def enqueue_frame_def send_session_def split_beta CHANNEL_CAP_def)
  have "length b \<le> MAX_FRAME_SIZE" using assms(3) b(1) by (auto simp: serde_ok_def)
  then have k: "1 \<le> ?k" "?k < 2 ^ 63"
    by (simp_all add: cells_for_def MAX_FRAME_SIZE_def div_less_iff_less_mult)
  then have u: "unat (of_nat ?k :: u64) = ?k" by (intro unat_of_nat_len) simp
  have "nonce_ctr_send s (se_send_nonce s + of_nat ?k) \<noteq> nonce_ctr_send s (se_send_nonce s)"
  proof
    assume "nonce_ctr_send s (se_send_nonce s + of_nat ?k) = nonce_ctr_send s (se_send_nonce s)"
    then have "se_send_nonce s + of_nat ?k = se_send_nonce s"
      by (rule nonce_ctr_send_inj [rotated 2]) (use assms(7) u k in simp_all)
    then show False using u k by simp
  qed
  from recv_wrong_nonce [OF assms(1,2,6) this, of dec 1 b' ?f] show ?thesis by (simp add: wire numeral_2_eq_2)
qed

text \<open>Primitives whose tag carries the nonce.\<close>

definition strict_tag :: "bytes \<Rightarrow> bytes \<Rightarrow> bytes \<Rightarrow> bytes" where
  "strict_tag k n a = take 16 (n @ replicate 16 (foldl (+) 0 (k @ a)))"

definition strict_prims :: prims where
  "strict_prims = toy_prims\<lparr>
     p_aead_seal := (\<lambda>k n a m. m @ strict_tag k n a),
     p_aead_open := (\<lambda>k n a c. if 16 \<le> length c \<and> drop (length c - 16) c = strict_tag k n a
        then Some (take (length c - 16) c) else None) \<rparr>"

lemma length_strict_tag [simp]: "length (strict_tag k n a) = 16"
  by (simp add: strict_tag_def)

lemma strict_prims_ok: "aead_ok strict_prims" "aead_nonce_ok strict_prims"
proof -
  show "aead_ok strict_prims" by (simp add: aead_ok_def strict_prims_def)
  have "strict_tag k (nonce96_ctr i) a \<noteq> strict_tag k (nonce96_ctr j) a" if "i \<noteq> j" for k a i j
  proof
    assume eq: "strict_tag k (nonce96_ctr i) a = strict_tag k (nonce96_ctr j) a"
    have "take 12 (strict_tag k (nonce96_ctr n) a) = nonce96_ctr n" for n
      by (simp add: strict_tag_def nonce96_ctr_def)
    then show False using eq that by (metis nonce96_ctr_inject)
  qed
  then show "aead_nonce_ok strict_prims" by (simp add: aead_nonce_ok_def strict_prims_def)
qed

definition short_serde :: "bytes \<Rightarrow> bytes result" where
  "short_serde m = (if length m \<le> MAX_FRAME_SIZE then Inr m else Inl Closed)"

lemma short_serde_ok: "serde_ok short_serde Inr"
  by (simp add: serde_ok_def short_serde_def)

lemma strict_feeds: "feeds (session_new strict_prims [7] True) (session_new strict_prims [7] False)"
  by (rule session_new_feeds) (simp_all add: kdf_ok_def strict_prims_def toy_prims_def)

text \<open>Two tasks and a circuit, interleaved.\<close>

definition sample_sends :: "bytes writer_event list" where
  "sample_sends = [Seal 0 [1, 2], PushCell 9 [5], Seal 1 [3], Enqueue 0, WriteNext 1, Enqueue 1, WriteNext 2, WriteNext 3]"

theorem ordered_sends_read_in_order_witness:
  "\<exists>order n. of_tag None order = [[1, 2], [3]] \<and> of_tag (Some (9 :: u32)) order = [[5]] \<and> length order = n
    \<and> read_messages strict_prims Inr n (session_new strict_prims [7] False)
        (lw_wire (writer_run strict_prims short_serde (\<lambda>_ _. 1) sample_sends (writer_new (session_new strict_prims [7] True))))
      = map (\<lambda>x. Inr (snd x)) order"
proof -
  let ?s = "session_new strict_prims [7] True" and ?pw = "\<lambda>_ _. 1 :: f64"
  let ?w = "writer_run strict_prims short_serde ?pw sample_sends (writer_new ?s)"
  have pop: "cq_pop_next ?pw now (cq_push 9 [5] cell_queues_new) = (Some (9, [5]), q) \<Longrightarrow> cq_queue 9 q = []" for now q
    by (auto simp: cq_pop_next_def cq_push_def cq_ready_def cq_queue_def cell_queues_new_def sched_next_def Let_def split_beta)
  obtain q where q: "cq_pop_next ?pw 3 (cq_push 9 [5 :: u8] cell_queues_new) = (Some (9, [5]), q)"
    using pop_only_cell [of ?pw 3 9 "[5]"] by (elim exE)
  have run: "run_keeps_seal_order strict_prims short_serde ?pw sample_sends (writer_new ?s)"
    and flushed: "lw_channel ?w = [] \<and> lw_sealed ?w = [] \<and> lw_queues ?w = q"
    using q by (simp_all add: sample_sends_def writer_run_def writer_new_def seal_msg_def send_circuit_msg_def writer_round_def
        enqueue_frame_def send_session_def split_beta CHANNEL_CAP_def short_serde_def MAX_FRAME_SIZE_def)
  have sent: "sent_controls short_serde sample_sends = [[1, 2], [3]]" "sent_cells_of short_serde 9 sample_sends = [[5]]"
    by (simp_all add: sent_controls_def sent_cells_of_def sample_sends_def short_serde_def MAX_FRAME_SIZE_def)
  from ordered_sends_read_in_order [OF strict_prims_ok(1) short_serde_ok strict_feeds run refl] obtain order n where
    o: "of_tag None order = sent_controls short_serde sample_sends"
      "\<forall>cid. of_tag (Some cid) order @ filter (\<lambda>m. is_ok (short_serde m)) (cq_queue cid (lw_queues ?w))
          = sent_cells_of short_serde cid sample_sends"
      "length order = n + length (lw_channel ?w) + length (lw_sealed ?w)"
      "read_messages strict_prims Inr n (session_new strict_prims [7] False) (lw_wire ?w) = map (\<lambda>x. Inr (snd x)) (take n order)"
    by blast
  have "cq_queue 9 (lw_queues ?w) = []" using flushed pop [OF q] by simp
  then have "of_tag (Some 9) order = [[5]]" using o(2) [rule_format, of 9] sent(2) by simp
  moreover have "length order = n" using o(3) flushed by simp
  ultimately show ?thesis using o(1,4) sent(1) by (intro exI [of _ order] exI [of _ n]) simp
qed

theorem overtaken_frame_ends_link_witness:
  "read_messages strict_prims Inr 2 (session_new strict_prims [7] False) (lw_wire (writer_run strict_prims short_serde (\<lambda>_ _. 1)
    (overtaken [1] 5 [2, 3] 9) (writer_new (session_new strict_prims [7] True)))) = [Inl AuthFailed]"
  by (rule overtaken_frame_ends_link [OF strict_prims_ok short_serde_ok _ _ strict_feeds])
    (simp_all add: short_serde_def MAX_FRAME_SIZE_def session_new_def Let_def split_beta)

end
