(* ===== verification/SiteStore.thy ===== *)
theory SiteStore
  imports ComNode LineLog ExitPolicy
begin

section \<open>The files of hidden services\<close>

text \<open>
  phinet-core/src/store.rs and the request handler \<open>serve_hs_request\<close> of phinet-core/src/node.rs: the directory of a
  service, the list of its authorised clients, and the files it serves to whoever joins a rendezvous circuit
  with it. The file system is a set of directories and a map of files under absolute paths, without links; a path is
  text that is resolved component by component.

  Shown: what is uploaded stays below the directory of the site; the list of authorised clients is the set of
  keys added and not removed; a response is read as it was framed; and a request is not confined: every file of the
  host is served to a client that asks for it with enough parent components.
\<close>

record file_system =
  fs_dirs :: "string list list"
  fs_files :: "(string list, bytes) hmap"

subsection \<open>Paths\<close>

text \<open>\<open>Path::join\<close>: an absolute argument replaces the path.\<close>

definition path_join :: "string \<Rightarrow> string \<Rightarrow> string" where
  "path_join a b =
     (if b \<noteq> [] \<and> hd b = CHR ''/'' then b
      else if a = [] \<or> last a = CHR ''/'' then a @ b
      else a @ CHR ''/'' # b)"

text \<open>Resolution by the operating system; a component before the last must be a directory.\<close>

fun fs_walk :: "file_system \<Rightarrow> string list \<Rightarrow> string list \<Rightarrow> string list option" where
  "fs_walk fs at [] = Some at"
| "fs_walk fs at (c # cs) =
     (if c = [] \<or> c = ''.'' then fs_walk fs at cs
      else if c = ''..'' then fs_walk fs (butlast at) cs
      else if cs = [] then Some (at @ [c])
      else if at @ [c] \<in> set (fs_dirs fs) then fs_walk fs (at @ [c]) cs
      else None)"

definition fs_resolve :: "file_system \<Rightarrow> string \<Rightarrow> string list option" where
  "fs_resolve fs p = fs_walk fs [] (split_char CHR ''/'' p)"

definition fs_read :: "file_system \<Rightarrow> string \<Rightarrow> bytes option" where
  "fs_read fs p = Option.bind (fs_resolve fs p) (hm_get (fs_files fs))"

definition fs_is_file :: "file_system \<Rightarrow> string \<Rightarrow> bool" where
  "fs_is_file fs p \<longleftrightarrow> fs_read fs p \<noteq> None"

definition fs_exists :: "file_system \<Rightarrow> string \<Rightarrow> bool" where
  "fs_exists fs p \<longleftrightarrow> fs_is_file fs p \<or> (\<exists>q \<in> set (fs_dirs fs). fs_resolve fs p = Some q)"

definition fs_write :: "string \<Rightarrow> bytes \<Rightarrow> file_system \<Rightarrow> file_system result" where
  "fs_write p body fs =
     (case fs_resolve fs p of
        None \<Rightarrow> Inl (Io ''no such directory'')
      | Some q \<Rightarrow>
          if q \<in> set (fs_dirs fs) then Inl (Io ''is a directory'')
          else Inr (fs\<lparr>fs_files := hm_insert q body (fs_files fs)\<rparr>))"

text \<open>\<open>create_dir_all\<close> on a path without parent components.\<close>

definition fs_mkdirs :: "string \<Rightarrow> file_system \<Rightarrow> file_system result" where
  "fs_mkdirs p fs =
     (let cs = filter (\<lambda>c. c \<noteq> [] \<and> c \<noteq> ''.'') (split_char CHR ''/'' p);
          ps = map (\<lambda>n. take n cs) [0..<Suc (length cs)]
      in if \<exists>q \<in> set ps. hm_get (fs_files fs) q \<noteq> None then Inl (Io ''not a directory'')
         else Inr (fs\<lparr>fs_dirs := fs_dirs fs @ ps\<rparr>))"

definition trim_start_slash :: "string \<Rightarrow> string" where
  "trim_start_slash s = dropWhile (\<lambda>c. c = CHR ''/'') s"

definition trim_end_slash :: "string \<Rightarrow> string" where
  "trim_end_slash s = rev (dropWhile (\<lambda>c. c = CHR ''/'') (rev s))"

subsection \<open>The store\<close>

definition site_dir :: "string \<Rightarrow> string \<Rightarrow> string" where
  "site_dir root hs_id = path_join root hs_id"

definition meta_path :: "string \<Rightarrow> string \<Rightarrow> string" where
  "meta_path root hs_id = path_join (site_dir root hs_id) ''_meta.json''"

definition www_dir :: "string \<Rightarrow> string \<Rightarrow> string" where
  "www_dir root hs_id = path_join (site_dir root hs_id) ''www''"

definition clients_path :: "string \<Rightarrow> string \<Rightarrow> string" where
  "clients_path root hs_id = path_join (site_dir root hs_id) ''authorized_clients.txt''"

definition hs_identity_path :: "string \<Rightarrow> string \<Rightarrow> string" where
  "hs_identity_path phinet_dir service_name =
     (let sanitized = map (\<lambda>c. if c \<in> set ''abcdefghijklmnopqrstuvwxyzABCDEFGHIJKLMNOPQRSTUVWXYZ0123456789._-''
                               then c else CHR ''_'') service_name
      in path_join phinet_dir (''hs_identity_'' @ sanitized @ ''.json''))"

text \<open>Where an upload goes: parent components are dropped.\<close>

definition resolve_parts :: "string \<Rightarrow> string list" where
  "resolve_parts url_path =
     (let rel = trim_start_slash url_path;
          rel = (if rel = [] then ''index.html'' else rel)
      in filter (\<lambda>p. p \<noteq> [] \<and> p \<noteq> ''..'') (split_char CHR ''/'' rel))"

definition store_resolve :: "string \<Rightarrow> string \<Rightarrow> string \<Rightarrow> string" where
  "store_resolve root hs_id url_path = fold (\<lambda>part path. path_join path part) (resolve_parts url_path) (www_dir root hs_id)"

text \<open>\<open>Path::parent\<close> of a path made by joining.\<close>

definition path_parent :: "string \<Rightarrow> string" where
  "path_parent p = trim_end_slash (rev (dropWhile (\<lambda>c. c \<noteq> CHR ''/'') (rev p)))"

definition put_file :: "string \<Rightarrow> string \<Rightarrow> string \<Rightarrow> bytes \<Rightarrow> file_system \<Rightarrow> file_system result" where
  "put_file root hs_id url_path body fs =
     (if \<not> fs_exists fs (site_dir root hs_id) then Inl (NotFound ''service'')
      else
        let dest = store_resolve root hs_id url_path in
        and_then (fs_mkdirs (path_parent dest) fs) (fs_write dest body))"

definition delete_file :: "string \<Rightarrow> string \<Rightarrow> string \<Rightarrow> file_system \<Rightarrow> file_system result" where
  "delete_file root hs_id url_path fs =
     (let p = store_resolve root hs_id url_path in
      if \<not> fs_exists fs p then Inr fs
      else (case fs_resolve fs p of
              None \<Rightarrow> Inl (Io ''remove_file'')
            | Some q \<Rightarrow> if hm_get (fs_files fs) q = None then Inl (Io ''remove_file'')
                        else Inr (fs\<lparr>fs_files := hm_remove q (fs_files fs)\<rparr>)))"

text \<open>The last component, and what follows its last dot unless the dot is at its start.\<close>

definition file_extension :: "string \<Rightarrow> string" where
  "file_extension p =
     (let cs = filter (\<lambda>c. c \<noteq> [] \<and> c \<noteq> ''.'') (split_char CHR ''/'' p) in
      if cs = [] \<or> last cs = ''..'' then []
      else (case rsplit_once CHR ''.'' (last cs) of
              Some (stem, ext) \<Rightarrow> if stem = [] then [] else ext
            | None \<Rightarrow> []))"

definition guess_mime :: "string \<Rightarrow> string" where
  "guess_mime p =
     (let e = file_extension p in
      if e \<in> {''html'', ''htm''} then ''text/html; charset=utf-8''
      else if e = ''css'' then ''text/css; charset=utf-8''
      else if e \<in> {''js'', ''mjs''} then ''application/javascript''
      else if e = ''json'' then ''application/json''
      else if e = ''svg'' then ''image/svg+xml''
      else if e = ''png'' then ''image/png''
      else if e \<in> {''jpg'', ''jpeg''} then ''image/jpeg''
      else if e = ''gif'' then ''image/gif''
      else if e = ''webp'' then ''image/webp''
      else if e = ''woff'' then ''font/woff''
      else if e = ''woff2'' then ''font/woff2''
      else if e = ''ico'' then ''image/x-icon''
      else if e = ''txt'' then ''text/plain; charset=utf-8''
      else if e = ''wasm'' then ''application/wasm''
      else ''application/octet-stream'')"

text \<open>The page for a missing file is an argument: it only depends on the path that was asked for.\<close>

fun first_file :: "file_system \<Rightarrow> string list \<Rightarrow> (string \<times> bytes) option" where
  "first_file fs [] = None"
| "first_file fs (c # cs) = (case fs_read fs c of Some body \<Rightarrow> Some (c, body) | None \<Rightarrow> first_file fs cs)"

definition get_candidates :: "string \<Rightarrow> string \<Rightarrow> string list" where
  "get_candidates www url_path =
     (let clean = trim_end_slash url_path;
          clean = (if clean = [] then ''/'' else clean);
          rel = trim_start_slash clean
      in [path_join www rel, path_join www (rel @ ''/index.html''), path_join www (rel @ ''.html''),
          path_join www ''index.html''])"

definition get_file ::
  "(string \<Rightarrow> bytes) \<Rightarrow> string \<Rightarrow> string \<Rightarrow> string \<Rightarrow> file_system \<Rightarrow> (u16 \<times> string \<times> bytes) option" where
  "get_file not_found root hs_id url_path fs =
     (if \<not> fs_exists fs (site_dir root hs_id) then None
      else
        let www = www_dir root hs_id in
        if \<not> fs_exists fs www then Some (404, ''text/html'', not_found url_path)
        else (case first_file fs (get_candidates www url_path) of
                Some (c, body) \<Rightarrow> Some (200, guess_mime c, body)
              | None \<Rightarrow> Some (404, ''text/html; charset=utf-8'', not_found url_path)))"

subsection \<open>Authorised clients\<close>

definition is_hex_digit :: "char \<Rightarrow> bool" where
  "is_hex_digit c \<longleftrightarrow> c \<in> set ''0123456789abcdefABCDEF''"

text \<open>
  \<open>to_lowercase\<close> on the ASCII letters: a line with any other character is refused by the filter
  that follows, whatever its lower case.
\<close>

definition lower_char :: "char \<Rightarrow> char" where
  "lower_char c = (let n = of_char c :: nat in if 65 \<le> n \<and> n \<le> 90 then char_of (n + 32) else c)"

definition valid_client :: "string \<Rightarrow> bool" where
  "valid_client l \<longleftrightarrow> length l = 64 \<and> list_all is_hex_digit l"

definition client_lines :: "string \<Rightarrow> string list" where
  "client_lines content =
     filter valid_client
       (map (map lower_char)
         (filter (\<lambda>l. l \<noteq> [] \<and> hd l \<noteq> CHR ''#'') (map (str_trim \<circ> chomp_cr) (line_pieces content))))"

definition list_authorized_clients :: "string \<Rightarrow> string \<Rightarrow> file_system \<Rightarrow> string list" where
  "list_authorized_clients root hs_id fs =
     (case fs_read fs (clients_path root hs_id) of
        None \<Rightarrow> []
      | Some b \<Rightarrow> if utf8_valid b then client_lines (text_of b) else [])"

fun join_lines :: "string list \<Rightarrow> string" where
  "join_lines [] = []"
| "join_lines [l] = l"
| "join_lines (l # ls) = l @ newline # join_lines ls"

definition clients_body :: "string \<Rightarrow> string list \<Rightarrow> string" where
  "clients_body hs_id clients =
     ''# '' @ text_of [0xCE, 0xA6] @ ''NET authorized clients for service '' @ hs_id @ [newline]
     @ ''# one X25519 pubkey (hex) per line; lines starting with # are comments'' @ [newline]
     @ join_lines clients @ [newline]"

definition add_authorized_client :: "string \<Rightarrow> string \<Rightarrow> string \<Rightarrow> file_system \<Rightarrow> (bool \<times> file_system) result" where
  "add_authorized_client root hs_id client_pub_hex fs =
     (if \<not> fs_exists fs (site_dir root hs_id) then Inl (NotFound ''service'')
      else
        let normalized = map lower_char (str_trim client_pub_hex) in
        if \<not> valid_client normalized then Inl (Crypto ''client pubkey must be 64 hex chars (32 bytes)'')
        else
          let current = list_authorized_clients root hs_id fs in
          if normalized \<in> set current then Inr (False, fs)
          else and_then (fs_write (clients_path root hs_id) (ascii (clients_body hs_id (current @ [normalized]))) fs)
                 (\<lambda>fs'. Inr (True, fs')))"

text \<open>The code ignores a failure of \<open>remove_file\<close>; in this file system removing a file that is there
  does not fail.\<close>

definition remove_authorized_client :: "string \<Rightarrow> string \<Rightarrow> string \<Rightarrow> file_system \<Rightarrow> (bool \<times> file_system) result" where
  "remove_authorized_client root hs_id client_pub_hex fs =
     (if \<not> fs_exists fs (site_dir root hs_id) then Inl (NotFound ''service'')
      else
        let normalized = map lower_char (str_trim client_pub_hex);
            current = list_authorized_clients root hs_id fs in
        if normalized \<notin> set current then Inr (False, fs)
        else
          let remaining = filter (\<lambda>p. p \<noteq> normalized) current in
          if remaining = []
          then Inr (True, (case fs_resolve fs (clients_path root hs_id) of
                             Some q \<Rightarrow> fs\<lparr>fs_files := hm_remove q (fs_files fs)\<rparr>
                           | None \<Rightarrow> fs))
          else and_then (fs_write (clients_path root hs_id) (ascii (clients_body hs_id remaining)) fs)
                 (\<lambda>fs'. Inr (True, fs')))"

subsection \<open>Paths of components\<close>

definition plain :: "string \<Rightarrow> bool" where
  "plain c \<longleftrightarrow> c \<noteq> [] \<and> CHR ''/'' \<notin> set c"

definition path_of :: "string list \<Rightarrow> string" where
  "path_of cs = concat (map (\<lambda>c. CHR ''/'' # c) cs)"

lemma path_of_simps [simp]:
  "path_of [] = []" "path_of (c # cs) = CHR ''/'' # c @ path_of cs" "path_of (as @ bs) = path_of as @ path_of bs"
  by (simp_all add: path_of_def)

lemma split_char_nonempty: "split_char c s \<noteq> []"
  by (induction s) (auto split: list.splits)

lemma split_char_append: "split_char c (a @ c # b) = split_char c a @ split_char c b"
  by (induction a) (auto simp: split_char_nonempty split: list.splits)

lemma split_char_plain: "c \<notin> set s \<Longrightarrow> split_char c s = [s]"
  by (induction s) auto

lemma split_char_path_of:
  assumes "\<forall>c \<in> set cs. plain c" "split_char CHR ''/'' a = as"
  shows "split_char CHR ''/'' (a @ path_of cs) = as @ cs"
  using assms
proof (induction cs arbitrary: a as)
  case (Cons c cs)
  have "split_char CHR ''/'' (a @ CHR ''/'' # c) = as @ [c]"
    using Cons.prems by (simp add: split_char_append split_char_plain plain_def)
  then show ?case using Cons.IH [of "a @ CHR ''/'' # c" "as @ [c]"] Cons.prems(1) by simp
qed simp

lemma split_path_of: "\<forall>c \<in> set cs. plain c \<Longrightarrow> split_char CHR ''/'' (path_of cs) = [] # cs"
  using split_char_path_of [of cs "[]" "[[]]"] by simp

lemma last_path_of:
  assumes "\<forall>c \<in> set cs. plain c" "cs \<noteq> []"
  shows "path_of cs \<noteq> []" "last (path_of cs) \<noteq> CHR ''/''"
proof -
  obtain bs c where cs: "cs = bs @ [c]" using assms(2) by (metis rev_exhaust)
  then have "plain c" using assms(1) by simp
  then show "path_of cs \<noteq> []" "last (path_of cs) \<noteq> CHR ''/''" by (auto simp: cs plain_def) (metis last_in_set)
qed

lemma path_join_rel:
  assumes "\<forall>c \<in> set cs. plain c" "cs \<noteq> []" "\<forall>c \<in> set ds. plain c" "ds \<noteq> []"
  shows "path_join (path_of cs) (tl (path_of ds)) = path_of (cs @ ds)"
proof -
  obtain d ds' where ds: "ds = d # ds'" using assms(4) by (cases ds) auto
  then have "plain d" using assms(3) by simp
  then have "d \<noteq> []" "hd d \<noteq> CHR ''/''" by (cases d; simp add: plain_def; fastforce)+
  then show ?thesis using last_path_of [OF assms(1,2)] by (simp add: path_join_def ds)
qed

lemma path_join_plain:
  assumes "\<forall>c \<in> set cs. plain c" "cs \<noteq> []" "plain c"
  shows "path_join (path_of cs) c = path_of (cs @ [c])"
  using path_join_rel [OF assms(1,2), of "[c]"] assms(3) by simp

text \<open>A site under a root of plain components.\<close>

definition www_parts :: "string list \<Rightarrow> string \<Rightarrow> string list" where
  "www_parts root hs_id = root @ [hs_id, ''www'']"

lemma www_dir_path:
  assumes "\<forall>c \<in> set root. plain c" "root \<noteq> []" "plain hs_id"
  shows "www_dir (path_of root) hs_id = path_of (www_parts root hs_id)"
    "site_dir (path_of root) hs_id = path_of (root @ [hs_id])"
proof -
  show site: "site_dir (path_of root) hs_id = path_of (root @ [hs_id])"
    using assms by (simp add: site_dir_def path_join_plain del: path_of_simps)
  have "path_join (path_of (root @ [hs_id])) ''www'' = path_of ((root @ [hs_id]) @ [''www''])"
    by (rule path_join_plain) (use assms in \<open>auto simp: plain_def\<close>)
  then show "www_dir (path_of root) hs_id = path_of (www_parts root hs_id)"
    by (simp add: www_dir_def www_parts_def site del: path_of_simps)
qed

subsection \<open>Walking\<close>

text \<open>A list of components all of whose prefixes are directories.\<close>

definition dirs_along :: "file_system \<Rightarrow> string list \<Rightarrow> string list \<Rightarrow> bool" where
  "dirs_along fs at cs \<longleftrightarrow> (\<forall>n. 0 < n \<and> n \<le> length cs \<longrightarrow> at @ take n cs \<in> set (fs_dirs fs))"

definition walks :: "string \<Rightarrow> bool" where
  "walks c \<longleftrightarrow> plain c \<and> c \<noteq> ''.'' \<and> c \<noteq> ''..''"

lemma dirs_along_Cons:
  "dirs_along fs at (c # cs) \<longleftrightarrow> at @ [c] \<in> set (fs_dirs fs) \<and> dirs_along fs (at @ [c]) cs"
proof
  assume d: "dirs_along fs at (c # cs)"
  then have "at @ take (Suc n) (c # cs) \<in> set (fs_dirs fs)" if "n \<le> length cs" for n
    using that unfolding dirs_along_def by (metis Suc_le_mono length_Cons zero_less_Suc)
  then show "at @ [c] \<in> set (fs_dirs fs) \<and> dirs_along fs (at @ [c]) cs" by (force simp: dirs_along_def)
next
  assume r: "at @ [c] \<in> set (fs_dirs fs) \<and> dirs_along fs (at @ [c]) cs"
  show "dirs_along fs at (c # cs)"
    unfolding dirs_along_def
  proof (intro allI impI)
    fix n
    assume "0 < n \<and> n \<le> length (c # cs)"
    then obtain m where "n = Suc m" "m \<le> length cs" by (cases n) auto
    then show "at @ take n (c # cs) \<in> set (fs_dirs fs)" using r by (cases m) (auto simp: dirs_along_def)
  qed
qed

lemma fs_walk_dirs:
  assumes "\<forall>c \<in> set cs. walks c" "dirs_along fs at cs" "ds \<noteq> []"
  shows "fs_walk fs at (cs @ ds) = fs_walk fs (at @ cs) ds"
  using assms(1,2)
proof (induction cs arbitrary: at)
  case (Cons c cs)
  then show ?case using assms(3) by (simp add: walks_def plain_def dirs_along_Cons)
qed simp

lemma fs_walk_file:
  assumes "\<forall>c \<in> set cs. walks c" "cs \<noteq> []" "dirs_along fs at (butlast cs)"
  shows "fs_walk fs at cs = Some (at @ cs)"
proof -
  obtain bs c where cs: "cs = bs @ [c]" using assms(2) by (metis rev_exhaust)
  then have "fs_walk fs at cs = fs_walk fs (at @ bs) [c]"
    using fs_walk_dirs [of bs fs at "[c]"] assms by simp
  then show ?thesis using assms(1) by (simp add: cs walks_def plain_def)
qed

lemma fs_walk_up: "fs_walk fs at (replicate (length at) ''..'' @ ds) = fs_walk fs [] ds"
  by (induction at rule: rev_induct) simp_all

lemma fs_walk_down:
  "\<forall>c \<in> set cs. c \<noteq> ''..'' \<Longrightarrow> fs_walk fs at cs = Some q \<Longrightarrow> q = at @ filter (\<lambda>c. c \<noteq> [] \<and> c \<noteq> ''.'') cs"
proof (induction cs arbitrary: at)
  case (Cons c cs)
  have c: "c \<noteq> ''..''" "\<forall>c \<in> set cs. c \<noteq> ''..''" using Cons.prems(1) by simp_all
  consider "c = [] \<or> c = ''.''" | "c \<noteq> []" "c \<noteq> ''.''" "cs = []"
    | "c \<noteq> []" "c \<noteq> ''.''" "cs \<noteq> []" "at @ [c] \<in> set (fs_dirs fs)"
    using Cons.prems(2) c(1) by (auto split: if_splits)
  then show ?case
  proof cases
    case 1
    then have "fs_walk fs at cs = Some q" using Cons.prems(2) by auto
    then show ?thesis using Cons.IH [OF c(2)] 1 by auto
  next
    case 2
    then show ?thesis using Cons.prems(2) c(1) by simp
  next
    case 3
    then have "fs_walk fs (at @ [c]) cs = Some q" using Cons.prems(2) c(1) by simp
    then show ?thesis using Cons.IH [OF c(2), of "at @ [c]"] 3 by simp
  qed
qed simp

lemma fs_resolve_path_of: "\<forall>c \<in> set cs. plain c \<Longrightarrow> fs_resolve fs (path_of cs) = fs_walk fs [] cs"
  by (simp add: fs_resolve_def split_path_of)

lemma walks_plain: "walks c \<Longrightarrow> plain c"
  by (simp add: walks_def)

subsection \<open>Requests\<close>

text \<open>A site below a root, on a file system where the directories on the way exist.\<close>

definition site_at :: "string list \<Rightarrow> string \<Rightarrow> file_system \<Rightarrow> bool" where
  "site_at root hs_id fs \<longleftrightarrow> root \<noteq> [] \<and> (\<forall>c \<in> set (www_parts root hs_id). walks c)
     \<and> dirs_along fs [] (www_parts root hs_id) \<and> hm_get (fs_files fs) (www_parts root hs_id) = None"

lemma site_at_plain:
  assumes "site_at root hs_id fs"
  shows "\<forall>c \<in> set root. plain c" "plain hs_id" "root \<noteq> []" "\<forall>c \<in> set (www_parts root hs_id). plain c"
proof -
  have "\<forall>c \<in> set (www_parts root hs_id). walks c" "root \<noteq> []" using assms by (simp_all add: site_at_def)
  then show "\<forall>c \<in> set root. plain c" "plain hs_id" "root \<noteq> []" "\<forall>c \<in> set (www_parts root hs_id). plain c"
    by (auto simp: www_parts_def walks_plain)
qed

lemma site_at_exists:
  assumes "site_at root hs_id fs"
  shows "fs_exists fs (site_dir (path_of root) hs_id)" "fs_exists fs (www_dir (path_of root) hs_id)"
proof -
  let ?w = "www_parts root hs_id"
  note p = site_at_plain [OF assms]
  have w: "\<forall>c \<in> set ?w. walks c" "dirs_along fs [] ?w" using assms by (simp_all add: site_at_def)
  have dir: "take n ?w \<in> set (fs_dirs fs)" if "0 < n" "n \<le> length ?w" for n
    using w(2) that by (simp add: dirs_along_def)
  have walk: "fs_walk fs [] (take n ?w) = Some (take n ?w)" if "0 < n" "n \<le> length ?w" for n
  proof -
    have "\<forall>c \<in> set (take n ?w). walks c" using w(1) by (meson in_set_takeD)
    moreover have "dirs_along fs [] (butlast (take n ?w))"
      unfolding dirs_along_def by (intro allI impI) (use dir that in \<open>auto simp: butlast_take take_take\<close>)
    ultimately show ?thesis using fs_walk_file [of "take n ?w" fs "[]"] that by (simp add: www_parts_def)
  qed
  have site: "take (Suc (length root)) ?w = root @ [hs_id]" by (simp add: www_parts_def)
  have "fs_resolve fs (path_of (root @ [hs_id])) = Some (root @ [hs_id])"
    using walk [of "Suc (length root)"] p fs_resolve_path_of [of "root @ [hs_id]" fs] unfolding site by (simp add: www_parts_def)
  moreover have "root @ [hs_id] \<in> set (fs_dirs fs)" using dir [of "Suc (length root)"] unfolding site by (simp add: www_parts_def)
  ultimately show "fs_exists fs (site_dir (path_of root) hs_id)"
    unfolding fs_exists_def www_dir_path(2) [OF p(1,3,2)] by blast
  have "fs_resolve fs (path_of ?w) = Some ?w" using walk [of "length ?w"] fs_resolve_path_of [OF p(4)] by (simp add: www_parts_def)
  moreover have "?w \<in> set (fs_dirs fs)" using dir [of "length ?w"] by (simp add: www_parts_def)
  ultimately show "fs_exists fs (www_dir (path_of root) hs_id)"
    unfolding fs_exists_def www_dir_path(1) [OF p(1,3,2)] by blast
qed

lemma trim_slashes:
  assumes "\<forall>c \<in> set cs. plain c" "cs \<noteq> []"
  shows "trim_end_slash (path_of cs) = path_of cs" "trim_start_slash (path_of cs) = tl (path_of cs)"
proof -
  have l: "path_of cs \<noteq> []" "last (path_of cs) \<noteq> CHR ''/''" using last_path_of [OF assms] by blast+
  obtain x xs where r: "rev (path_of cs) = x # xs" using l(1) by (cases "rev (path_of cs)") auto
  then have "x \<noteq> CHR ''/''" using hd_rev [of "path_of cs"] l(2) by simp
  then have "dropWhile (\<lambda>c. c = CHR ''/'') (rev (path_of cs)) = rev (path_of cs)" using r by simp
  then show "trim_end_slash (path_of cs) = path_of cs" by (simp add: trim_end_slash_def)
  obtain d ds where ds: "cs = d # ds" using assms(2) by (cases cs) auto
  then obtain x d' where "d = x # d'" "x \<noteq> CHR ''/''" using assms(1) by (cases d) (auto simp: plain_def)
  then show "trim_start_slash (path_of cs) = tl (path_of cs)" by (simp add: trim_start_slash_def ds)
qed

lemma get_candidates_first:
  "trim_end_slash u = u \<Longrightarrow> u \<noteq> [] \<Longrightarrow> \<exists>rest. get_candidates www u = path_join www (trim_start_slash u) # rest"
  by (simp add: get_candidates_def Let_def)

lemma get_file_first:
  assumes "fs_exists fs (site_dir root hs_id)" "fs_exists fs (www_dir root hs_id)"
    and "trim_end_slash u = u" "u \<noteq> []" "fs_read fs (path_join (www_dir root hs_id) (trim_start_slash u)) = Some body"
  shows "get_file nf root hs_id u fs = Some (200, guess_mime (path_join (www_dir root hs_id) (trim_start_slash u)), body)"
proof -
  obtain rest where "get_candidates (www_dir root hs_id) u = path_join (www_dir root hs_id) (trim_start_slash u) # rest"
    using get_candidates_first [OF assms(3,4)] by blast
  then show ?thesis using assms(1,2,5) by (simp add: get_file_def)
qed

text \<open>A request is not confined to the directory of the site: with one parent component for each directory on the
  way to the root, followed by the path of any file of the host, the site serves that file.
\<close>

theorem every_file_is_served:
  assumes "site_at root hs_id fs" "hm_get (fs_files fs) p = Some body"
    and "p \<noteq> []" "\<forall>c \<in> set p. walks c" "dirs_along fs [] (butlast p)"
  shows "\<exists>mime. get_file nf (path_of root) hs_id (path_of (replicate (length (www_parts root hs_id)) ''..'' @ p)) fs
    = Some (200, mime, body)"
proof -
  let ?w = "www_parts root hs_id"
  let ?u = "replicate (length ?w) ''..'' @ p"
  note pl = site_at_plain [OF assms(1)]
  have "plain ''..''" by (simp add: plain_def)
  then have u: "\<forall>c \<in> set ?u. plain c" using assms(4) walks_plain by (metis Un_iff in_set_replicate set_append)
  have ne0: "?u \<noteq> []" using assms(3) by simp
  note u = u ne0
  have ne: "path_of ?u \<noteq> []" using last_path_of [OF u] by blast
  note www = www_dir_path(1) [OF pl(1,3,2)]
  have target: "path_join (path_of ?w) (trim_start_slash (path_of ?u)) = path_of (?w @ ?u)"
    unfolding trim_slashes(2) [OF u] by (rule path_join_rel [OF pl(4) _ u]) (simp add: www_parts_def)
  have "fs_resolve fs (path_of (?w @ ?u)) = fs_walk fs [] (?w @ ?u)"
    by (rule fs_resolve_path_of) (metis Un_iff pl(4) set_append u(1))
  also have "\<dots> = fs_walk fs ([] @ ?w) ?u"
    by (rule fs_walk_dirs) (use assms(1) ne0 in \<open>simp_all add: site_at_def\<close>)
  also have "\<dots> = fs_walk fs [] p" using fs_walk_up [of fs ?w p] by simp
  also have "\<dots> = Some p" using fs_walk_file [OF assms(4,3,5)] by simp
  finally have "fs_read fs (path_of (?w @ ?u)) = Some body" using assms(2) by (simp add: fs_read_def)
  then have "fs_read fs (path_join (www_dir (path_of root) hs_id) (trim_start_slash (path_of ?u))) = Some body"
    by (simp only: www target)
  from get_file_first [OF site_at_exists [OF assms(1)] trim_slashes(1) [OF u] ne this] show ?thesis by blast
qed

definition sample_host :: file_system where
  "sample_host = \<lparr> fs_dirs = [[], [''srv''], [''srv'', ''site''], [''srv'', ''site'', ''www''], [''etc'']],
     fs_files = [([''etc'', ''passwd''], [1, 2, 3])] \<rparr>"

lemma sample_site: "site_at [''srv''] ''site'' sample_host"
  by (simp add: site_at_def www_parts_def walks_def plain_def dirs_along_Cons sample_host_def)
    (simp add: dirs_along_def)

theorem every_file_is_served_witness:
  "\<exists>mime. get_file ascii (path_of [''srv'']) ''site'' ''/../../../etc/passwd'' sample_host
    = Some (200, mime, [1, 2, 3])"
  using every_file_is_served [OF sample_site, of "[''etc'', ''passwd'']" "[1, 2, 3]" ascii]
  by (simp add: www_parts_def walks_def plain_def dirs_along_def sample_host_def)

subsection \<open>Uploads\<close>

lemma split_char_pieces: "p \<in> set (split_char c s) \<Longrightarrow> c \<notin> set p"
  by (induction s arbitrary: p) (auto split: list.splits if_splits)

lemma resolve_parts_plain: "p \<in> set (resolve_parts u) \<Longrightarrow> plain p \<and> p \<noteq> ''..''"
  by (auto simp: resolve_parts_def plain_def Let_def dest: split_char_pieces split: if_splits)

lemma path_join_all:
  assumes "\<forall>c \<in> set cs. plain c" "cs \<noteq> []" "\<forall>c \<in> set ds. plain c"
  shows "fold (\<lambda>part path. path_join path part) ds (path_of cs) = path_of (cs @ ds)"
  using assms
proof (induction ds arbitrary: cs)
  case (Cons d ds)
  have "fold (\<lambda>part path. path_join path part) ds (path_of (cs @ [d])) = path_of ((cs @ [d]) @ ds)"
    by (rule Cons.IH) (use Cons.prems in auto)
  then show ?case using path_join_plain [of cs d] Cons.prems by (simp del: path_of_simps)
qed simp

lemma store_resolve_path:
  assumes "site_at root hs_id fs"
  shows "store_resolve (path_of root) hs_id u = path_of (www_parts root hs_id @ resolve_parts u)"
proof -
  note pl = site_at_plain [OF assms]
  have "www_parts root hs_id \<noteq> []" by (simp add: www_parts_def)
  from path_join_all [OF pl(4) this, of "resolve_parts u"] resolve_parts_plain
  show ?thesis by (simp add: store_resolve_def www_dir_path(1) [OF pl(1,3,2)] del: path_of_simps)
qed

text \<open>The place of an upload: the path without its empty, current and parent components.\<close>

definition upload_place :: "string \<Rightarrow> string list" where
  "upload_place u = filter (\<lambda>c. c \<noteq> ''.'') (resolve_parts u)"

lemma fs_mkdirs_files: "fs_mkdirs p fs = Inr fs' \<Longrightarrow> fs_files fs' = fs_files fs \<and> set (fs_dirs fs) \<subseteq> set (fs_dirs fs')"
  by (auto simp: fs_mkdirs_def Let_def split: if_splits)

lemma put_file_place:
  assumes "site_at root hs_id fs" "put_file (path_of root) hs_id u body fs = Inr fs'"
  obtains fs1 where "fs_mkdirs (path_parent (path_of (www_parts root hs_id @ resolve_parts u))) fs = Inr fs1"
    "fs' = fs1\<lparr>fs_files := hm_insert (www_parts root hs_id @ upload_place u) body (fs_files fs)\<rparr>"
    "www_parts root hs_id @ upload_place u \<notin> set (fs_dirs fs1)"
proof -
  let ?w = "www_parts root hs_id" and ?r = "resolve_parts u"
  obtain fs1 where fs1: "fs_mkdirs (path_parent (path_of (?w @ ?r))) fs = Inr fs1" "fs_write (path_of (?w @ ?r)) body fs1 = Inr fs'"
    using assms(2) by (auto simp: put_file_def store_resolve_path [OF assms(1)] Let_def and_then_Inr_iff
        simp del: path_of_simps split: if_splits sum.splits)
  then obtain q where q: "fs_resolve fs1 (path_of (?w @ ?r)) = Some q" "q \<notin> set (fs_dirs fs1)"
      "fs' = fs1\<lparr>fs_files := hm_insert q body (fs_files fs1)\<rparr>"
    by (auto simp: fs_write_def simp del: path_of_simps split: option.splits if_splits)
  have w: "\<forall>c \<in> set ?w. walks c" using assms(1) by (simp add: site_at_def)
  have pl: "\<forall>c \<in> set (?w @ ?r). plain c" using w walks_plain resolve_parts_plain by (metis Un_iff set_append)
  have up: "\<forall>c \<in> set (?w @ ?r). c \<noteq> ''..''" using w resolve_parts_plain unfolding walks_def by (metis Un_iff set_append)
  have "fs_walk fs1 [] (?w @ ?r) = Some q" using q(1) fs_resolve_path_of [OF pl] by simp
  then have "q = filter (\<lambda>c. c \<noteq> [] \<and> c \<noteq> ''.'') (?w @ ?r)" using fs_walk_down [OF up] by force
  moreover have "filter (\<lambda>c. c \<noteq> [] \<and> c \<noteq> ''.'') ?w = ?w" using w by (simp add: filter_id_conv walks_def plain_def)
  moreover have "filter (\<lambda>c. c \<noteq> [] \<and> c \<noteq> ''.'') ?r = upload_place u"
    unfolding upload_place_def by (rule filter_cong) (auto simp: plain_def dest: resolve_parts_plain)
  ultimately have qe: "q = ?w @ upload_place u" by simp
  show ?thesis
    by (rule that [OF fs1(1)]) (use q(2,3) qe fs_mkdirs_files [OF fs1(1)] in simp_all)
qed

text \<open>C26: An upload is confined to the site: when it succeeds, whatever its path, every file of the host outside the
  directory of the site is unchanged, and so is every other file of the site.
\<close>

theorem upload_confined:
  assumes "site_at root hs_id fs" "put_file (path_of root) hs_id u body fs = Inr fs'"
  shows "(\<forall>p. take (length root + 2) p \<noteq> www_parts root hs_id \<longrightarrow> hm_get (fs_files fs') p = hm_get (fs_files fs) p)
    \<and> (\<forall>p. p \<noteq> www_parts root hs_id @ upload_place u \<longrightarrow> hm_get (fs_files fs') p = hm_get (fs_files fs) p)
    \<and> hm_get (fs_files fs') (www_parts root hs_id @ upload_place u) = Some body"
proof -
  let ?q = "www_parts root hs_id @ upload_place u"
  obtain fs1 where "fs' = fs1\<lparr>fs_files := hm_insert ?q body (fs_files fs)\<rparr>"
    using put_file_place [OF assms] by blast
  then have g: "hm_get (fs_files fs') p = (if p = ?q then Some body else hm_get (fs_files fs) p)" for p
    by (simp add: update_conv)
  have "take (length root + 2) ?q = www_parts root hs_id" by (simp add: www_parts_def)
  then show ?thesis unfolding g by metis
qed

theorem upload_confined_witness:
  "\<exists>fs'. put_file (path_of [''srv'']) ''site'' ''/../../etc/passwd'' [9] sample_host = Inr fs'
    \<and> hm_get (fs_files fs') [''etc'', ''passwd''] = Some [1, 2, 3]
    \<and> hm_get (fs_files fs') [''srv'', ''site'', ''www'', ''etc'', ''passwd''] = Some [9]"
proof -
  obtain fs' where fs': "put_file (path_of [''srv'']) ''site'' ''/../../etc/passwd'' [9] sample_host = Inr fs'"
    by (cases "put_file (path_of [''srv'']) ''site'' ''/../../etc/passwd'' [9] sample_host")
      (code_simp, blast)
  have "upload_place ''/../../etc/passwd'' = [''etc'', ''passwd'']" by code_simp
  then show ?thesis
    using upload_confined [OF sample_site fs'] fs' by (simp add: www_parts_def sample_host_def)
qed

end
