(* ===== verification/SiteServe.thy ===== *)
theory SiteServe
  imports SiteStore Streams Session "HOL-Library.Code_Target_Numeral"
begin

section \<open>Serving a site and authorising its clients\<close>

text \<open>
  The request handler of a hosted service (\<open>serve_hs_request\<close> of phinet-core/src/node.rs), the parser of the client
  that asked (\<open>parse_hs_response\<close>), and the list of authorised clients of phinet-core/src/store.rs.

  Shown: the client reads exactly the answer of the site, whatever its size; a file that was uploaded is the file
  that is served; and the list of authorised clients follows the operations that add and remove them.
\<close>

subsection \<open>Framing\<close>

definition frame_response :: "u16 \<times> string \<times> bytes \<Rightarrow> bytes" where
  "frame_response r =
     (case r of (status, ctype, body) \<Rightarrow>
        ascii (show_dec (unat status) @ [newline] @ ctype @ [newline, newline]) @ body)"

fun blank_line :: "bytes \<Rightarrow> nat option" where
  "blank_line (a # b # r) = (if a = 10 \<and> b = 10 then Some 0 else map_option Suc (blank_line (b # r)))"
| "blank_line _ = None"

definition parse_hs_response :: "bytes \<Rightarrow> (u16 \<times> string \<times> bytes) option" where
  "parse_hs_response bs =
     (case blank_line bs of
        None \<Rightarrow> None
      | Some sep \<Rightarrow>
          if \<not> utf8_valid (take sep bs) then None
          else
            let header = text_of (take sep bs);
                body = drop (sep + 2) bs;
                status = takeWhile (\<lambda>c. c \<noteq> newline) header;
                ctype = (case dropWhile (\<lambda>c. c \<noteq> newline) header of
                           [] \<Rightarrow> ''application/octet-stream''
                         | _ # rest \<Rightarrow> rest)
            in map_option (\<lambda>n. (n, str_trim ctype, body)) (parse_u16 (str_trim status)))"

subsection \<open>The handler\<close>

record site_meta =
  sm_name :: string
  sm_hs_id :: string
  sm_nonce_hex :: string
  sm_created :: u64

text \<open>The names are those of the directory, in its order; \<open>dec\<close> is the parser of the metadata.\<close>

definition get_service ::
  "(string \<Rightarrow> site_meta option) \<Rightarrow> string \<Rightarrow> string \<Rightarrow> file_system \<Rightarrow> site_meta option" where
  "get_service dec root hs_id fs =
     (case fs_read fs (meta_path root hs_id) of
        None \<Rightarrow> None
      | Some b \<Rightarrow> if utf8_valid b then dec (text_of b) else None)"

definition list_services ::
  "(string \<Rightarrow> site_meta option) \<Rightarrow> string \<Rightarrow> string list \<Rightarrow> file_system \<Rightarrow> site_meta list" where
  "list_services dec root names fs =
     sort_key (\<lambda>m. - int (unat (sm_created m))) (List.map_filter (\<lambda>n. get_service dec root n fs) names)"

text \<open>\<open>split_whitespace\<close>, one word at a time.\<close>

fun take_word :: "bytes \<Rightarrow> bytes \<times> bytes" where
  "take_word [] = ([], [])"
| "take_word (b # bs) =
     (if list_ex (\<lambda>w. strip_prefix w (b # bs) \<noteq> None) ws_seqs then ([], b # bs)
      else (case take_word bs of (w, r) \<Rightarrow> (b # w, r)))"

definition next_word :: "bytes \<Rightarrow> bytes option \<times> bytes" where
  "next_word bs =
     (let r = strip_seqs (length bs) ws_seqs bs in
      if r = [] then (None, []) else (case take_word r of (w, r') \<Rightarrow> (Some w, r')))"

definition request_path :: "bytes \<Rightarrow> string" where
  "request_path request =
     (let line = utf8_lossy_bytes request;
          (meth, r) = next_word line;
          (path, r') = next_word r
      in (case path of None \<Rightarrow> ''/'' | Some p \<Rightarrow> text_of p))"

definition hs_answer ::
  "(string \<Rightarrow> bytes) \<Rightarrow> string \<Rightarrow> site_meta list \<Rightarrow> string \<Rightarrow> file_system \<Rightarrow> u16 \<times> string \<times> bytes" where
  "hs_answer not_found root svcs path fs =
     (case svcs of
        m # _ \<Rightarrow> (case get_file not_found root (sm_hs_id m) path fs of
                   Some r \<Rightarrow> r
                 | None \<Rightarrow> (404, ''text/html'', ascii ''<h1>Not found</h1>''))
      | [] \<Rightarrow> (503, ''text/html'', ascii ''<h1>No hidden service hosted here</h1>''))"

text \<open>The relay messages the handler sends back on the rendezvous circuit, if all are accepted.\<close>

definition serve_hs_request ::
  "(string \<Rightarrow> bytes) \<Rightarrow> (string \<Rightarrow> site_meta option) \<Rightarrow> string \<Rightarrow> string list \<Rightarrow> bool \<Rightarrow> bytes \<Rightarrow> file_system
     \<Rightarrow> (relay_command \<times> bytes) list" where
  "serve_hs_request not_found dec root names has_e2e_keys request fs =
     (if \<not> has_e2e_keys then []
      else
        let framed = frame_response (hs_answer not_found root (list_services dec root names fs) (request_path request) fs)
        in map (\<lambda>piece. (RData, piece)) (chunks RELAY_DATA_MAX framed) @ [(REnd, [end_reason_byte ErDone])])"

subsection \<open>The answer is read as it was given\<close>

lemma blank_line_header:
  assumes "10 \<notin> set a" "10 \<notin> set b" "b \<noteq> []"
  shows "blank_line (a @ 10 # b @ 10 # 10 # r) = Some (Suc (length a + length b))"
proof -
  have bl: "blank_line (c @ 10 # 10 # r) = Some (length c)" if "10 \<notin> set c" for c
    using that by (induction c rule: induct_list012) auto
  have "blank_line (10 # b @ 10 # 10 # r) = Some (Suc (length b))"
    using bl [OF assms(2)] assms(2,3) by (cases b) auto
  then show ?thesis using assms(1) by (induction a rule: induct_list012) auto
qed

text \<open>A content type that survives the framing.\<close>

definition header_text :: "string \<Rightarrow> bool" where
  "header_text s \<longleftrightarrow> s \<noteq> [] \<and> list_all (\<lambda>b. b < 0x80 \<and> b \<noteq> 10) (ascii s) \<and> 0x21 \<le> hd (ascii s) \<and> 0x21 \<le> last (ascii s)"

lemma header_text_facts:
  assumes "header_text s"
  shows "str_trim s = s" "10 \<notin> set (ascii s)" "ascii s \<noteq> []" "\<forall>b \<in> set (ascii s). b < 0x80"
proof -
  have "\<forall>b \<in> set (ascii s). b < 0x80 \<and> b \<noteq> 10" and ne: "s \<noteq> []" "0x21 \<le> hd (ascii s)" "0x21 \<le> last (ascii s)"
    using assms by (simp_all add: header_text_def list_all_iff)
  then show all: "10 \<notin> set (ascii s)" "\<forall>b \<in> set (ascii s). b < 0x80" by blast+
  show a: "ascii s \<noteq> []" using ne(1) by (simp add: ascii_def)
  have "trim_bytes (ascii s) = ascii s"
    by (rule trim_bytes_id) (use ne a all(2) hd_in_set last_in_set in \<open>simp_all\<close>)
  then show "str_trim s = s" by (simp add: str_trim_def)
qed

lemma parse_frame:
  assumes "header_text ct" "header_text (show_dec (unat status))" "parse_u16 (show_dec (unat status)) = Some status"
  shows "parse_hs_response (frame_response (status, ct, body)) = Some (status, ct, body)"
proof -
  let ?n = "show_dec (unat status)"
  note h = header_text_facts [OF assms(1)] header_text_facts [OF assms(2)]
  have nl: "ascii [newline] = [10]" by (simp add: ascii_def)
  have app: "ascii (a @ b) = ascii a @ ascii b" for a b by (simp add: ascii_def)
  have fr: "frame_response (status, ct, body) = ascii ?n @ 10 # ascii ct @ 10 # 10 # body"
    using app [of "[newline]" "[newline]"] by (simp add: frame_response_def app nl) (simp add: ascii_def)
  have bl: "blank_line (ascii ?n @ 10 # ascii ct @ 10 # 10 # body) = Some (Suc (length ?n + length ct))"
    using blank_line_header [OF h(6) h(2,3), of body] by (simp add: ascii_def)
  have hd: "take (Suc (length ?n + length ct)) (ascii ?n @ 10 # ascii ct @ 10 # 10 # body) = ascii ?n @ 10 # ascii ct"
    by (simp add: ascii_def)
  have dr: "drop (Suc (length ?n + length ct) + 2) (ascii ?n @ 10 # ascii ct @ 10 # 10 # body) = body"
  proof -
    have "Suc (length ?n + length ct) + 2 = length (ascii ?n @ 10 # ascii ct @ [10, 10])" by (simp add: ascii_def)
    moreover have "drop (length (ascii ?n @ 10 # ascii ct @ [10, 10])) ((ascii ?n @ 10 # ascii ct @ [10, 10]) @ body) = body"
      by (metis append_eq_conv_conj)
    ultimately show ?thesis by simp
  qed
  have ok: "utf8_valid (ascii ?n @ 10 # ascii ct)"
    by (rule utf8_valid_ascii) (use h(4,8) in auto)
  have "ascii (?n @ newline # ct) = ascii ?n @ 10 # ascii ct" by (simp add: ascii_def)
  then have tx: "text_of (ascii ?n @ 10 # ascii ct) = ?n @ newline # ct" by (metis text_of_ascii)
  have "newline \<notin> set ?n"
  proof
    assume "newline \<in> set ?n"
    then have "(10 :: u8) \<in> set (ascii ?n)" by (force simp: ascii_def)
    then show False using h(6) by blast
  qed
  then have sp: "takeWhile (\<lambda>c. c \<noteq> newline) (?n @ newline # ct) = ?n" "dropWhile (\<lambda>c. c \<noteq> newline) (?n @ newline # ct) = newline # ct"
    by (auto simp: takeWhile_append dropWhile_append)
  show ?thesis
    unfolding parse_hs_response_def fr bl by (simp only: option.case hd ok tx dr sp Let_def list.case h(1,5) assms(3)) simp
qed

lemma status_lines:
  "header_text (show_dec 200)" "header_text (show_dec 404)" "header_text (show_dec 503)"
  "parse_u16 (show_dec 200) = Some 200" "parse_u16 (show_dec 404) = Some 404" "parse_u16 (show_dec 503) = Some 503"
proof -
  have d: "show_dec 200 = ''200''" "show_dec 404 = ''404''" "show_dec 503 = ''503''"
    by (simp_all add: show_dec.simps digit_char_def char_of_def bit_Suc_0_iff)
  show "header_text (show_dec 200)" "header_text (show_dec 404)" "header_text (show_dec 503)"
    by (simp_all add: d header_text_def ascii_def)
  show "parse_u16 (show_dec 200) = Some 200" "parse_u16 (show_dec 404) = Some 404" "parse_u16 (show_dec 503) = Some 503"
    by (simp_all add: d parse_u16_def parse_uint_def digit_val_def digits_value_def)
qed

lemma header_text_if: "header_text a \<Longrightarrow> header_text b \<Longrightarrow> header_text (if c then a else b)"
  by simp

lemma guess_mime_header: "header_text (guess_mime p)"
  unfolding guess_mime_def Let_def by (intro header_text_if) (simp_all add: header_text_def ascii_def)

text \<open>Every answer has one of three codes and a content type without line breaks.\<close>

lemma hs_answer_parses: "parse_hs_response (frame_response (hs_answer nf root svcs path fs)) = Some (hs_answer nf root svcs path fs)"
proof -
  have html: "header_text ''text/html''" "header_text ''text/html; charset=utf-8''"
    by (simp_all add: header_text_def ascii_def)
  have p: "parse_hs_response (frame_response (n, ct, b)) = Some (n, ct, b)"
    if "n = 200 \<or> n = 404 \<or> n = 503" "header_text ct" for n ct b
    by (rule parse_frame) (use that status_lines in auto)
  show ?thesis
    unfolding hs_answer_def get_file_def Let_def
    using p [OF _ html(1)] p [OF _ html(2)] p [OF _ guess_mime_header]
    by (simp split: list.splits option.splits prod.splits)
qed

text \<open>C24: The client of a hidden service reads exactly the answer of the site. Concatenating the data messages that the
  handler sends for a request and parsing them gives the code, the content type and the body that the site has for
  the path of the request, whatever the size of the body; every message fits in a cell and an END closes the reply.
\<close>

theorem response_read_as_served:
  "let ms = serve_hs_request nf dec root names True request fs
   in parse_hs_response (concat (map snd (filter (\<lambda>m. fst m = RData) ms)))
        = Some (hs_answer nf root (list_services dec root names fs) (request_path request) fs)
      \<and> list_all (\<lambda>m. length (snd m) \<le> RELAY_DATA_MAX) ms
      \<and> last ms = (REnd, [end_reason_byte ErDone])"
proof -
  let ?f = "frame_response (hs_answer nf root (list_services dec root names fs) (request_path request) fs)"
  have pos: "0 < RELAY_DATA_MAX" by (simp add: CELL_PAYLOAD_def RELAY_HEADER_def)
  have data: "concat (map snd (filter (\<lambda>m. fst m = RData) (map (Pair RData) cs @ [(REnd, e)]))) = concat cs" for cs :: "bytes list" and e
    by (simp add: filter_map o_def)
  have "list_all (\<lambda>m. length (snd m) \<le> RELAY_DATA_MAX) (map (Pair RData) (chunks RELAY_DATA_MAX ?f) @ [(REnd, [end_reason_byte ErDone])])"
    using chunks_lengths [of _ RELAY_DATA_MAX ?f] pos by (simp add: list_all_iff)
  then show ?thesis
    unfolding serve_hs_request_def Let_def
    by (simp only: not_True_eq_False if_False data concat_chunks [OF pos] hs_answer_parses last_snoc)
qed

subsection \<open>What is uploaded is served\<close>

lemma path_parent_path_of:
  assumes "\<forall>c \<in> set cs. plain c" "cs \<noteq> []" "plain c"
  shows "path_parent (path_of (cs @ [c])) = path_of cs"
proof -
  have nc: "CHR ''/'' \<notin> set (rev c)" using assms(3) by (simp add: plain_def)
  have "dropWhile (\<lambda>x. x \<noteq> CHR ''/'') (rev c @ CHR ''/'' # rev (path_of cs)) = CHR ''/'' # rev (path_of cs)"
    using nc by (subst dropWhile_append2) auto
  then have "path_parent (path_of (cs @ [c])) = trim_end_slash (path_of cs @ ''/'')" by (simp add: path_parent_def)
  also have "\<dots> = trim_end_slash (path_of cs)" by (simp add: trim_end_slash_def)
  finally show ?thesis using trim_slashes(1) [OF assms(1,2)] by simp
qed

lemma resolve_parts_path_of:
  assumes "\<forall>c \<in> set cs. walks c" "cs \<noteq> []"
  shows "resolve_parts (path_of cs) = cs" "upload_place (path_of cs) = cs"
proof -
  have pl: "\<forall>c \<in> set cs. plain c" using assms(1) walks_plain by blast
  have ne: "path_of cs \<noteq> []" "hd (path_of cs) = CHR ''/''" using assms(2) by (cases cs; simp)+
  have "split_char CHR ''/'' (path_of cs) = [] # split_char CHR ''/'' (tl (path_of cs))"
  proof -
    have eq: "path_of cs = CHR ''/'' # tl (path_of cs)" using ne by (metis list.collapse)
    have "split_char CHR ''/'' (CHR ''/'' # tl (path_of cs)) = [] # split_char CHR ''/'' (tl (path_of cs))"
      using split_char_append [of "CHR ''/''" "[]" "tl (path_of cs)"]
      by (simp only: append_Nil append_Cons split_char.simps(1))
    then show ?thesis unfolding eq [symmetric] .
  qed
  then have sp: "split_char CHR ''/'' (tl (path_of cs)) = cs" using split_path_of [OF pl] by simp
  have "tl (path_of cs) \<noteq> []"
  proof
    assume "tl (path_of cs) = []"
    then have "cs = [[]]" using sp by simp
    then show False using pl by (simp add: plain_def)
  qed
  moreover have "filter (\<lambda>p. p \<noteq> [] \<and> p \<noteq> ''..'') cs = cs" using assms(1) by (simp add: filter_id_conv walks_def plain_def)
  ultimately show r: "resolve_parts (path_of cs) = cs"
    unfolding resolve_parts_def trim_slashes(2) [OF pl assms(2)] by (simp add: sp)
  show "upload_place (path_of cs) = cs" using assms(1) by (simp add: upload_place_def r filter_id_conv walks_def)
qed

lemma fs_mkdirs_along:
  assumes "fs_mkdirs (path_of cs) fs = Inr fs'" "\<forall>c \<in> set cs. walks c"
  shows "dirs_along fs' [] cs"
proof -
  have "filter (\<lambda>c. c \<noteq> [] \<and> c \<noteq> ''.'') (split_char CHR ''/'' (path_of cs)) = cs"
    using split_path_of [of cs] assms(2) by (simp add: filter_id_conv walks_def plain_def)
  then have "fs_dirs fs' = fs_dirs fs @ map (\<lambda>n. take n cs) [0..<Suc (length cs)]"
    using assms(1) by (auto simp: fs_mkdirs_def Let_def simp del: upt_Suc split: if_splits)
  then show ?thesis by (auto simp: dirs_along_def simp del: upt_Suc)
qed

lemma dirs_along_prefix: "dirs_along fs at (as @ bs) \<Longrightarrow> dirs_along fs at as"
  by (auto simp: dirs_along_def)

text \<open>A file that was uploaded under a path of ordinary components is the file that the site serves for that path.
\<close>

theorem upload_served:
  assumes "site_at root hs_id fs" "parts \<noteq> []" "\<forall>c \<in> set parts. walks c"
    and "put_file (path_of root) hs_id (path_of parts) body fs = Inr fs'"
  shows "\<exists>mime. get_file nf (path_of root) hs_id (path_of parts) fs' = Some (200, mime, body)"
proof -
  let ?w = "www_parts root hs_id"
  note pl = site_at_plain [OF assms(1)]
  have ppl: "\<forall>c \<in> set parts. plain c" using assms(3) walks_plain by blast
  have wne: "?w \<noteq> []" by (simp add: www_parts_def)
  have ww: "\<forall>c \<in> set ?w. walks c" using assms(1) by (simp add: site_at_def)
  obtain bs c where bc: "parts = bs @ [c]" using assms(2) by (metis rev_exhaust)
  note rp = resolve_parts_path_of [OF assms(3,2)]
  obtain fs1 where fs1: "fs_mkdirs (path_parent (path_of (?w @ parts))) fs = Inr fs1"
      "fs' = fs1\<lparr>fs_files := hm_insert (?w @ parts) body (fs_files fs)\<rparr>"
    using put_file_place [OF assms(1,4)] unfolding rp by blast
  have "path_parent (path_of (?w @ parts)) = path_of (?w @ bs)"
    using path_parent_path_of [of "?w @ bs" c] pl(4) ppl bc wne by (simp add: ball_Un)
  then have "dirs_along fs1 [] (?w @ bs)" using fs_mkdirs_along [of "?w @ bs" fs fs1] fs1(1) ww assms(3) bc by auto
  then have along: "dirs_along fs' [] (?w @ bs)" using fs1(2) by (simp add: dirs_along_def)
  have "site_at root hs_id fs'"
    using assms(1,2) dirs_along_prefix [OF along] fs1(2) by (simp add: site_at_def update_conv')
  note ex = site_at_exists [OF this]
  have target: "path_join (path_of ?w) (trim_start_slash (path_of parts)) = path_of (?w @ parts)"
    unfolding trim_slashes(2) [OF ppl assms(2)] by (rule path_join_rel [OF pl(4) wne ppl assms(2)])
  have "fs_resolve fs' (path_of (?w @ parts)) = fs_walk fs' [] (?w @ parts)"
    by (rule fs_resolve_path_of) (metis Un_iff pl(4) set_append ppl)
  also have "\<dots> = Some (?w @ parts)"
    using fs_walk_file [of "?w @ parts" fs' "[]"] along ww assms(3) bc by (simp add: butlast_append ball_Un)
  finally have "fs_read fs' (path_of (?w @ parts)) = Some body" using fs1(2) by (simp add: fs_read_def)
  then have "fs_read fs' (path_join (www_dir (path_of root) hs_id) (trim_start_slash (path_of parts))) = Some body"
    by (simp only: www_dir_path(1) [OF pl(1,3,2)] target)
  from get_file_first [OF ex trim_slashes(1) [OF ppl assms(2)] _ this] last_path_of(1) [OF ppl assms(2)]
  show ?thesis by blast
qed

theorem upload_served_witness:
  "\<exists>fs' mime. put_file (path_of [''srv'']) ''site'' ''/blog/a.html'' [9] sample_host = Inr fs'
    \<and> get_file ascii (path_of [''srv'']) ''site'' ''/blog/a.html'' fs' = Some (200, mime, [9])"
proof -
  obtain fs' where fs': "put_file (path_of [''srv'']) ''site'' ''/blog/a.html'' [9] sample_host = Inr fs'"
    by (cases "put_file (path_of [''srv'']) ''site'' ''/blog/a.html'' [9] sample_host")
      (code_simp, blast)
  have "path_of [''blog'', ''a.html''] = ''/blog/a.html''" by simp
  then show ?thesis
    using upload_served [OF sample_site, of "[''blog'', ''a.html'']" "[9]" fs' ascii] fs'
    by (simp add: walks_def plain_def)
qed

subsection \<open>The list of authorised clients\<close>

definition utf8_pick ::
  "bool \<Rightarrow> bool \<Rightarrow> bool \<Rightarrow> bool \<Rightarrow> bool \<Rightarrow> bool \<Rightarrow> bool \<Rightarrow> bool \<Rightarrow> bool \<Rightarrow> bool \<times> nat" where
  "utf8_pick p1 p2 p3 p4 c1 c2 c3 o3 o4 =
     (if p1 then (True, 0)
      else if p2 then (if c1 then (True, 1) else (False, 0))
      else if p3 then (if \<not> (c1 \<and> o3) then (False, 0) else if \<not> c2 then (False, 1) else (True, 2))
      else if p4 then
        (if \<not> (c1 \<and> o4) then (False, 0) else if \<not> c2 then (False, 1) else if \<not> c3 then (False, 2) else (True, 3))
      else (False, 0))"

lemma utf8_pick_mono:
  assumes "fst (utf8_pick p1 p2 p3 p4 c1 c2 c3 o3 o4)"
    and "c1 \<Longrightarrow> c1' \<and> o3' = o3 \<and> o4' = o4" "c2 \<Longrightarrow> c2'" "c3 \<Longrightarrow> c3'"
    and "c1 \<Longrightarrow> 1 \<le> n" "c2 \<Longrightarrow> 2 \<le> n" "c3 \<Longrightarrow> 3 \<le> n"
  shows "utf8_pick p1 p2 p3 p4 c1' c2' c3' o3' o4' = utf8_pick p1 p2 p3 p4 c1 c2 c3 o3 o4"
    "snd (utf8_pick p1 p2 p3 p4 c1 c2 c3 o3 o4) \<le> n"
  using assms by (auto simp: utf8_pick_def split: if_splits)

lemma utf8_step_append:
  assumes "fst (utf8_step b rest)"
  shows "utf8_step b (rest @ x) = utf8_step b rest" "snd (utf8_step b rest) \<le> length rest"
proof -
  have s: "utf8_step b bs = utf8_pick (b < 0x80) (0xC2 \<le> b \<and> b \<le> 0xDF) (0xE0 \<le> b \<and> b \<le> 0xEF) (0xF0 \<le> b \<and> b \<le> 0xF4)
      (case bs of x # _ \<Rightarrow> utf8_cont x | _ \<Rightarrow> False) (case bs of _ # y # _ \<Rightarrow> utf8_cont y | _ \<Rightarrow> False)
      (case bs of _ # _ # z # _ \<Rightarrow> utf8_cont z | _ \<Rightarrow> False)
      ((b = 0xE0 \<and> 0xA0 \<le> (case bs of x # _ \<Rightarrow> x | _ \<Rightarrow> 0)) \<or> (0xE1 \<le> b \<and> b \<le> 0xEC)
        \<or> (b = 0xED \<and> (case bs of x # _ \<Rightarrow> x | _ \<Rightarrow> 0) \<le> 0x9F) \<or> b = 0xEE \<or> b = 0xEF)
      ((b = 0xF0 \<and> 0x90 \<le> (case bs of x # _ \<Rightarrow> x | _ \<Rightarrow> 0)) \<or> (0xF1 \<le> b \<and> b \<le> 0xF3)
        \<or> (b = 0xF4 \<and> (case bs of x # _ \<Rightarrow> x | _ \<Rightarrow> 0) \<le> 0x8F))" for bs
    by (simp only: utf8_step_def utf8_pick_def Let_def)
  show "utf8_step b (rest @ x) = utf8_step b rest"
    unfolding s by (rule utf8_pick_mono(1) [where n = "length rest", OF assms [unfolded s]]) (simp_all split: list.splits)
  show "snd (utf8_step b rest) \<le> length rest"
    unfolding s by (rule utf8_pick_mono(2) [OF assms [unfolded s]]) (simp_all split: list.splits)
qed

lemma utf8_valid_append: "utf8_valid a \<Longrightarrow> utf8_valid b \<Longrightarrow> utf8_valid (a @ b)"
proof (induction a rule: utf8_valid.induct)
  case (2 c rest)
  obtain k where k: "utf8_step c rest = (True, k)" "utf8_valid (drop k rest)"
    using 2(2) by (cases "utf8_step c rest") auto
  have "utf8_step c (rest @ b) = (True, k)" "k \<le> length rest"
    using utf8_step_append(1) [of c rest b] utf8_step_append(2) [of c rest] k(1) by simp_all
  moreover have "utf8_valid (drop k rest @ b)" using 2(1) k 2(3) by force
  ultimately show ?case by simp
qed simp

lemma strip_seqs_keeps:
  assumes "\<forall>w \<in> set ws. c \<notin> set w"
  shows "\<exists>ys. strip_seqs n ws (xs @ [c]) = ys @ [c]"
proof (induction n arbitrary: xs)
  case (Suc n)
  show ?case
  proof (cases "List.find (\<lambda>w. strip_prefix w (xs @ [c]) \<noteq> None) ws")
    case (Some w)
    then have w: "w \<in> set ws" "strip_prefix w (xs @ [c]) \<noteq> None" by (auto simp: find_Some_iff)
    then obtain r where r: "xs @ [c] = w @ r" using strip_prefix_Some by blast
    have "r \<noteq> []"
      using r w(1) assms by (metis append.right_neutral in_set_conv_decomp)
    then obtain zs where "r = zs @ [c]" using r by (metis append_butlast_last_id last_appendR last_snoc)
    then show ?thesis using Suc.IH [of zs] r Some by simp
  qed simp
qed simp

text \<open>A comment line is dropped whatever follows its mark.\<close>

lemma comment_trimmed: "\<exists>ys. str_trim (CHR ''#'' # s) = CHR ''#'' # ys"
proof -
  have "strip_prefix w (0x23 # xs) = None" if "w \<in> set ws_seqs" for w xs using that by (auto simp: ws_seqs_def)
  then have front: "strip_seqs n ws_seqs (0x23 # xs) = 0x23 # xs" for n xs by (intro strip_seqs_none) blast
  have "\<forall>w \<in> set (map rev ws_seqs). 0x23 \<notin> set w" by (simp add: ws_seqs_def)
  from strip_seqs_keeps [OF this] obtain ys where ys:
    "strip_seqs (length (0x23 # ascii s)) (map rev ws_seqs) (rev (ascii s) @ [0x23]) = ys @ [0x23]" by blast
  have a: "ascii (CHR ''#'' # s) = 0x23 # ascii s" by (simp add: ascii_def)
  have "trim_bytes (0x23 # ascii s) = 0x23 # rev ys"
    using ys by (simp add: trim_bytes_def Let_def front del: strip_seqs.simps)
  then show ?thesis by (simp add: str_trim_def a text_of_def) (simp add: char_of_def bit_Suc_0_iff)
qed

lemma lower_char_idem: "lower_char (lower_char c) = lower_char c"
  by (simp add: lower_char_def Let_def)

text \<open>A key as it is stored.\<close>

definition client_key :: "string \<Rightarrow> bool" where
  "client_key l \<longleftrightarrow> valid_client l \<and> map lower_char l = l"

lemma client_lines_keys: "l \<in> set (client_lines content) \<Longrightarrow> client_key l"
  by (auto simp: client_lines_def client_key_def lower_char_idem)

lemma client_key_normalized: "valid_client (map lower_char s) \<Longrightarrow> client_key (map lower_char s)"
  by (simp add: client_key_def lower_char_idem)

lemma hex_digit_byte:
  assumes "is_hex_digit c"
  shows "0x30 \<le> (of_nat (of_char c) :: u8)" "(of_nat (of_char c) :: u8) \<le> 0x66" "c \<noteq> newline" "c \<noteq> carriage_return" "c \<noteq> CHR ''#''"
proof -
  have "list_all (\<lambda>c. 0x30 \<le> (of_nat (of_char c) :: u8) \<and> (of_nat (of_char c) :: u8) \<le> 0x66 \<and> c \<noteq> newline
      \<and> c \<noteq> carriage_return \<and> c \<noteq> CHR ''#'') ''0123456789abcdefABCDEF''" by simp
  then show "0x30 \<le> (of_nat (of_char c) :: u8)" "(of_nat (of_char c) :: u8) \<le> 0x66" "c \<noteq> newline" "c \<noteq> carriage_return" "c \<noteq> CHR ''#''"
    using assms unfolding is_hex_digit_def list_all_iff by blast+
qed

lemma client_key_line:
  assumes "client_key l"
  shows "newline \<notin> set l" "str_trim (chomp_cr l) = l" "l \<noteq> []" "hd l \<noteq> CHR ''#''" "map lower_char l = l" "valid_client l"
    "\<forall>b \<in> set (ascii l). b < 0x80"
proof -
  have l: "length l = 64" "\<forall>c \<in> set l. is_hex_digit c" "map lower_char l = l"
    using assms by (simp_all add: client_key_def valid_client_def list_all_iff)
  then show ne: "l \<noteq> []" and "map lower_char l = l" by auto
  show "valid_client l" using assms by (simp add: client_key_def)
  show "newline \<notin> set l" using l(2) hex_digit_byte(3) by blast
  show "hd l \<noteq> CHR ''#''" using hd_in_set [OF ne] l(2) hex_digit_byte(5) by metis
  have lc: "last l \<noteq> carriage_return" using last_in_set [OF ne] l(2) hex_digit_byte(4) by metis
  have b: "\<forall>b \<in> set (ascii l). 0x30 \<le> b \<and> b \<le> 0x66" using l(2) hex_digit_byte(1,2) by (auto simp: ascii_def)
  show small: "\<forall>b \<in> set (ascii l). b < 0x80"
  proof
    fix b assume "b \<in> set (ascii l)"
    then have "b \<le> 0x66" using b by blast
    also have "\<dots> < 0x80" by simp
    finally show "b < 0x80" .
  qed
  have a: "ascii l \<noteq> []" using ne by (simp add: ascii_def)
  have big: "0x21 \<le> b" if "b \<in> set (ascii l)" for b
  proof -
    have "(0x21 :: u8) \<le> 0x30" by simp
    also have "\<dots> \<le> b" using b that by blast
    finally show ?thesis .
  qed
  have "trim_bytes (ascii l) = ascii l"
    using a big small hd_in_set [OF a] last_in_set [OF a] by (intro trim_bytes_id) blast+
  then show "str_trim (chomp_cr l) = l" using lc by (simp add: chomp_cr_def str_trim_def)
qed

lemma line_pieces_join:
  assumes "ls \<noteq> []" "\<forall>l \<in> set ls. newline \<notin> set l"
  shows "line_pieces (join_lines ls @ [newline]) = ls"
  using assms
proof (induction ls rule: join_lines.induct)
  case (2 l)
  then show ?case using line_pieces_first [of l "[]"] by simp
next
  case (3 l k ls)
  then show ?case using line_pieces_first [of l "join_lines (k # ls) @ [newline]"] by simp
qed simp

lemma clients_body_lines:
  assumes "\<forall>l \<in> set ls. client_key l" "ls \<noteq> []" "newline \<notin> set hs_id"
  shows "client_lines (clients_body hs_id ls) = ls"
proof -
  let ?a = "''# '' @ text_of [0xCE, 0xA6] @ ''NET authorized clients for service '' @ hs_id"
  let ?b = "''# one X25519 pubkey (hex) per line; lines starting with # are comments''"
  have "newline \<notin> set (text_of [0xCE, 0xA6])" by (simp add: text_of_def) (simp add: char_of_def)
  then have nl: "newline \<notin> set ?a" "newline \<notin> set ?b" using assms(3) by simp_all
  have "clients_body hs_id ls = ?a @ newline # ?b @ newline # join_lines ls @ [newline]" by (simp add: clients_body_def)
  then have lines: "line_pieces (clients_body hs_id ls) = ?a # ?b # ls"
    using line_pieces_first [OF nl(1)] line_pieces_first [OF nl(2)] line_pieces_join [OF assms(2)] client_key_line(1) assms(1) by metis
  have comment: "hd (str_trim (chomp_cr (CHR ''#'' # c # s))) = CHR ''#''" for c s
    using comment_trimmed by (simp add: chomp_cr_def) (metis list.sel(1))
  have c1: "hd ((str_trim \<circ> chomp_cr) ?a) = CHR ''#''" "hd ((str_trim \<circ> chomp_cr) ?b) = CHR ''#''"
    using comment by simp_all
  have keep: "filter (\<lambda>l. l \<noteq> [] \<and> hd l \<noteq> CHR ''#'') (map (str_trim \<circ> chomp_cr) ls) = ls"
    using client_key_line(2-4) assms(1) by (induction ls) auto
  have low: "filter valid_client (map (map lower_char) ls) = ls"
    using client_key_line(5,6) assms(1) by (induction ls) auto
  show ?thesis
    unfolding client_lines_def lines list.map filter.simps using c1 keep low by simp
qed

lemma clients_body_string:
  assumes "\<forall>l \<in> set ls. client_key l" "rust_string hs_id"
  shows "utf8_valid (ascii (clients_body hs_id ls))"
proof -
  have app: "ascii (a @ b) = ascii a @ ascii b" for a b by (simp add: ascii_def)
  have "\<forall>b \<in> set (ascii (join_lines ls)). b < 0x80"
    using assms(1) client_key_line(7)
  proof (induction ls rule: join_lines.induct)
    case (3 l k ls)
    then have "\<forall>b \<in> set (ascii l) \<union> set (ascii (join_lines (k # ls))). b < 0x80" by auto
    then show ?case by (auto simp: app) (auto simp: ascii_def)
  qed (simp_all add: ascii_def)
  then have j: "utf8_valid (ascii (join_lines ls))" by (rule utf8_valid_ascii)
  have lits: "utf8_valid (ascii ''# '')" "utf8_valid [0xCE, 0xA6]" "utf8_valid (ascii ''NET authorized clients for service '')"
      "utf8_valid (ascii [newline])" "utf8_valid (ascii ''# one X25519 pubkey (hex) per line; lines starting with # are comments'')"
    by (rule utf8_valid_ascii; simp add: ascii_def) (simp add: utf8_step_def utf8_cont_def, (rule utf8_valid_ascii; simp add: ascii_def)+)
  show ?thesis
    unfolding clients_body_def app ascii_text_of
    by (intro utf8_valid_append lits j) (use assms(2) in \<open>simp_all add: rust_string_def\<close>)
qed

lemma fs_walk_same_dirs:
  assumes "fs_dirs fs' = fs_dirs fs"
  shows "fs_walk fs' at cs = fs_walk fs at cs"
proof (induction cs arbitrary: at)
  case Nil
  show ?case by (simp only: fs_walk.simps)
next
  case (Cons c cs)
  show ?case by (simp only: fs_walk.simps(2) Cons.IH assms)
qed

lemma fs_resolve_same_dirs: "fs_dirs fs' = fs_dirs fs \<Longrightarrow> fs_resolve fs' p = fs_resolve fs p"
  by (simp only: fs_resolve_def) (rule fs_walk_same_dirs)

lemma fs_write_read:
  assumes "fs_write p body fs = Inr fs'"
  shows "fs_read fs' p = Some body" "fs_dirs fs' = fs_dirs fs" "hm_wf (fs_files fs) \<Longrightarrow> hm_wf (fs_files fs')"
proof -
  obtain q where q: "fs_resolve fs p = Some q" "fs' = fs\<lparr>fs_files := hm_insert q body (fs_files fs)\<rparr>"
    using assms by (auto simp: fs_write_def split: option.splits if_splits)
  have "fs_resolve fs' p = Some q" using q fs_resolve_same_dirs [of fs' fs p] by simp
  then show "fs_read fs' p = Some body" by (simp add: fs_read_def q(2) update_conv')
  show "fs_dirs fs' = fs_dirs fs" "hm_wf (fs_files fs) \<Longrightarrow> hm_wf (fs_files fs')" by (simp_all add: q(2) hm.wf_ins)
qed

lemma list_after_write:
  assumes "fs_write (clients_path root hs_id) (ascii (clients_body hs_id ls)) fs = Inr fs'"
    and "\<forall>l \<in> set ls. client_key l" "ls \<noteq> []" "newline \<notin> set hs_id" "rust_string hs_id"
  shows "list_authorized_clients root hs_id fs' = ls"
  by (simp add: list_authorized_clients_def fs_write_read(1) [OF assms(1)] clients_body_string [OF assms(2,5)]
      clients_body_lines [OF assms(2-4)])

lemma list_authorized_keys: "l \<in> set (list_authorized_clients root hs_id fs) \<Longrightarrow> client_key l"
  by (auto simp: list_authorized_clients_def client_lines_keys split: option.splits if_splits)

text \<open>The operations on the list, and the abstract set they stand for.\<close>

datatype client_op = AddClient string | RemoveClient string

fun client_step :: "string \<Rightarrow> string \<Rightarrow> client_op \<Rightarrow> file_system \<Rightarrow> (bool \<times> file_system) result" where
  "client_step root hs_id (AddClient k) fs = add_authorized_client root hs_id k fs"
| "client_step root hs_id (RemoveClient k) fs = remove_authorized_client root hs_id k fs"

fun client_run :: "string \<Rightarrow> string \<Rightarrow> client_op list \<Rightarrow> file_system \<Rightarrow> file_system result" where
  "client_run root hs_id [] fs = Inr fs"
| "client_run root hs_id (op # ops) fs = and_then (client_step root hs_id op fs) (\<lambda>(b, fs'). client_run root hs_id ops fs')"

fun client_set :: "client_op \<Rightarrow> string set \<Rightarrow> string set" where
  "client_set (AddClient k) S = insert (map lower_char (str_trim k)) S"
| "client_set (RemoveClient k) S = S - {map lower_char (str_trim k)}"

lemma add_client_step:
  assumes "add_authorized_client root hs_id k fs = Inr (b, fs')" "newline \<notin> set hs_id" "rust_string hs_id" "hm_wf (fs_files fs)"
  shows "set (list_authorized_clients root hs_id fs') = insert (map lower_char (str_trim k)) (set (list_authorized_clients root hs_id fs))"
    "hm_wf (fs_files fs')"
proof -
  let ?k = "map lower_char (str_trim k)" and ?cur = "list_authorized_clients root hs_id fs"
  have v: "valid_client ?k" using assms(1) by (auto simp: add_authorized_client_def Let_def split: if_splits)
  consider "?k \<in> set ?cur" "fs' = fs"
    | "?k \<notin> set ?cur" "fs_write (clients_path root hs_id) (ascii (clients_body hs_id (?cur @ [?k]))) fs = Inr fs'"
    using assms(1) by (auto simp: add_authorized_client_def Let_def and_then_Inr_iff split: if_splits)
  then have "set (list_authorized_clients root hs_id fs') = insert ?k (set ?cur) \<and> hm_wf (fs_files fs')"
  proof cases
    case 1
    then show ?thesis using assms(4) by auto
  next
    case 2
    have "\<forall>l \<in> set (?cur @ [?k]). client_key l" using list_authorized_keys client_key_normalized [OF v] by auto
    from list_after_write [OF 2(2) this _ assms(2,3)] fs_write_read(3) [OF 2(2) assms(4)] show ?thesis by simp
  qed
  then show "set (list_authorized_clients root hs_id fs') = insert ?k (set ?cur)" "hm_wf (fs_files fs')" by blast+
qed

lemma remove_client_step:
  assumes "remove_authorized_client root hs_id k fs = Inr (b, fs')" "newline \<notin> set hs_id" "rust_string hs_id" "hm_wf (fs_files fs)"
  shows "set (list_authorized_clients root hs_id fs') = set (list_authorized_clients root hs_id fs) - {map lower_char (str_trim k)}"
    "hm_wf (fs_files fs')"
proof -
  let ?k = "map lower_char (str_trim k)" and ?cur = "list_authorized_clients root hs_id fs" and ?p = "clients_path root hs_id"
  let ?rest = "filter (\<lambda>p. p \<noteq> ?k) ?cur"
  consider "?k \<notin> set ?cur" "fs' = fs"
    | q where "?k \<in> set ?cur" "?rest = []" "fs_resolve fs ?p = Some q" "fs' = fs\<lparr>fs_files := hm_remove q (fs_files fs)\<rparr>"
    | "?k \<in> set ?cur" "?rest \<noteq> []" "fs_resolve fs ?p = None"
    | "?k \<in> set ?cur" "?rest \<noteq> []" "fs_write ?p (ascii (clients_body hs_id ?rest)) fs = Inr fs'"
    | "?k \<in> set ?cur" "?rest = []" "fs_resolve fs ?p = None"
    using assms(1) unfolding remove_authorized_client_def Let_def
    by (cases "fs_resolve fs ?p") (auto simp: and_then_Inr_iff split: if_splits)
  then have "set (list_authorized_clients root hs_id fs') = set ?cur - {?k} \<and> hm_wf (fs_files fs')"
  proof cases
    case 1
    then show ?thesis using assms(4) by auto
  next
    case 2
    have "fs_resolve fs' ?p = Some q" using 2(3,4) fs_resolve_same_dirs [of fs' fs ?p] by simp
    then have "list_authorized_clients root hs_id fs' = []"
      by (simp add: list_authorized_clients_def fs_read_def 2(4) delete_conv')
    moreover have "set ?cur - {?k} = {}" using 2(2) by (auto simp: filter_empty_conv)
    ultimately show ?thesis using hm.wf_rem [OF assms(4)] 2(4) by simp
  next
    case 4
    have "\<forall>l \<in> set ?rest. client_key l" using list_authorized_keys by auto
    from list_after_write [OF 4(3) this 4(2) assms(2,3)] fs_write_read(3) [OF 4(3) assms(4)] show ?thesis by auto
  qed (auto simp: list_authorized_clients_def fs_read_def)
  then show "set (list_authorized_clients root hs_id fs') = set ?cur - {?k}" "hm_wf (fs_files fs')" by blast+
qed

text \<open>C25: The file of authorised clients implements a set of keys. After any sequence of additions and removals that
  succeed, the keys read back from the file are exactly those of the abstract set, in lower case and without blanks:
  nothing is lost by the comments in the file, by the name of the service in them, or by rewriting it.
\<close>

theorem clients_follow_operations:
  assumes "client_run root hs_id ops fs = Inr fs'" "newline \<notin> set hs_id" "rust_string hs_id" "hm_wf (fs_files fs)"
  shows "set (list_authorized_clients root hs_id fs') = fold client_set ops (set (list_authorized_clients root hs_id fs))"
  using assms(1,4)
proof (induction ops arbitrary: fs)
  case (Cons op ops)
  obtain b fs1 where fs1: "client_step root hs_id op fs = Inr (b, fs1)" "client_run root hs_id ops fs1 = Inr fs'"
    using Cons.prems(1) by (auto simp: and_then_Inr_iff)
  have "set (list_authorized_clients root hs_id fs1) = client_set op (set (list_authorized_clients root hs_id fs)) \<and> hm_wf (fs_files fs1)"
    using fs1(1) add_client_step [OF _ assms(2,3) Cons.prems(2)] remove_client_step [OF _ assms(2,3) Cons.prems(2)] by (cases op) auto
  then show ?case using Cons.IH [OF fs1(2)] by simp
qed simp

text \<open>Where the directory of the service exists and the path of the file is not a directory, operations succeed.\<close>

definition clients_writable :: "string \<Rightarrow> string \<Rightarrow> file_system \<Rightarrow> bool" where
  "clients_writable root hs_id fs \<longleftrightarrow> (\<exists>q \<in> set (fs_dirs fs). fs_resolve fs (site_dir root hs_id) = Some q)
     \<and> (case fs_resolve fs (clients_path root hs_id) of None \<Rightarrow> False | Some q \<Rightarrow> q \<notin> set (fs_dirs fs))"

lemma client_step_succeeds:
  assumes "clients_writable root hs_id fs" "valid_client (map lower_char (str_trim k))" "op = AddClient k \<or> op = RemoveClient k"
  shows "\<exists>b fs'. client_step root hs_id op fs = Inr (b, fs') \<and> clients_writable root hs_id fs'"
proof -
  have ex: "fs_exists fs (site_dir root hs_id)" using assms(1) by (auto simp: clients_writable_def fs_exists_def)
  obtain q where q: "fs_resolve fs (clients_path root hs_id) = Some q" "q \<notin> set (fs_dirs fs)"
    using assms(1) by (auto simp: clients_writable_def split: option.splits)
  have w: "fs_write (clients_path root hs_id) body fs = Inr (fs\<lparr>fs_files := hm_insert q body (fs_files fs)\<rparr>)" for body
    using q by (simp add: fs_write_def)
  have keep: "clients_writable root hs_id (fs\<lparr>fs_files := m\<rparr>)" for m
    using assms(1) fs_resolve_same_dirs [of "fs\<lparr>fs_files := m\<rparr>" fs] by (simp add: clients_writable_def split: option.splits)
  show ?thesis
    using assms(3) by (rule disjE)
      (auto simp: add_authorized_client_def remove_authorized_client_def ex assms(1,2) w q(1) keep Let_def)
qed

definition sample_key :: string where
  "sample_key = concat (replicate 16 ''0aF9'')"

theorem clients_follow_operations_witness:
  "\<exists>fs'. client_run ''/srv'' ''site'' [AddClient sample_key, AddClient (concat (replicate 16 ''00ff'')), RemoveClient sample_key] sample_host = Inr fs'
    \<and> set (list_authorized_clients ''/srv'' ''site'' fs') = {concat (replicate 16 ''00ff'')}"
proof -
  let ?k = "concat (replicate 16 ''00ff'')"
  let ?ops = "[AddClient sample_key, AddClient ?k, RemoveClient sample_key]"
  have n: "map lower_char (str_trim sample_key) = concat (replicate 16 ''0af9'')" by code_simp
  have k: "map lower_char (str_trim ?k) = ?k" by code_simp
  have v: "valid_client (map lower_char (str_trim sample_key))" "valid_client (map lower_char (str_trim ?k))"
    unfolding n k by code_simp+
  have w: "clients_writable ''/srv'' ''site'' sample_host" by code_simp
  note step = client_step_succeeds [where root = "''/srv''" and hs_id = "''site''"]
  obtain b1 f1 where f1: "client_step ''/srv'' ''site'' (AddClient sample_key) sample_host = Inr (b1, f1)" "clients_writable ''/srv'' ''site'' f1"
    using step [OF w v(1)] by blast
  obtain b2 f2 where f2: "client_step ''/srv'' ''site'' (AddClient ?k) f1 = Inr (b2, f2)" "clients_writable ''/srv'' ''site'' f2"
    using step [OF f1(2) v(2)] by blast
  obtain b3 f3 where f3: "client_step ''/srv'' ''site'' (RemoveClient sample_key) f2 = Inr (b3, f3)"
    using step [OF f2(2) v(1)] by blast
  have r: "client_run ''/srv'' ''site'' ?ops sample_host = Inr f3" using f1(1) f2(1) f3 by simp
  have ok: "newline \<notin> set ''site''" "rust_string ''site''" "hm_wf (fs_files sample_host)" by code_simp+
  have "list_authorized_clients ''/srv'' ''site'' sample_host = []" by code_simp
  moreover have "concat (replicate 16 ''0af9'') \<noteq> ?k" by code_simp
  ultimately have "fold client_set ?ops (set (list_authorized_clients ''/srv'' ''site'' sample_host)) = {?k}"
    by (simp only: fold.simps client_set.simps n k comp_apply id_apply list.set) blast
  then show ?thesis using clients_follow_operations [OF r ok] r by blast
qed

end
