(* ===== verification/Puzzle.thy ===== *)
theory Puzzle
  imports Dht F64
begin

section \<open>Introduction puzzles\<close>

text \<open>
  The puzzles of phinet-core/src/pow.rs that a hidden service hands out with its descriptor: a challenge whose hash
  with a nonce must start with enough zero bits, and the controller that raises and lowers the number of bits with
  the rate of the requests.

  Shown: the search for a nonce returns exactly when there is one, and then gives the least; the difficulty
  computed with floating-point rates equals the one computed with exact counts, and stays within its limits.
\<close>

subsection \<open>Puzzles\<close>

text \<open>The zero bits at the start of a hash.\<close>

fun hash_zeros :: "bytes \<Rightarrow> nat" where
  "hash_zeros [] = 0"
| "hash_zeros (b # bs) = (let z = leading_zeros b in if z < 8 then z else z + hash_zeros bs)"

record intro_puzzle =
  pz_challenge :: string
  pz_difficulty :: u8
  pz_issued_at :: u64

record puzzle_solution =
  so_challenge :: string
  so_nonce :: u64

definition puzzle_generate :: "prims \<Rightarrow> bytes \<Rightarrow> u64 \<Rightarrow> u8 \<Rightarrow> intro_puzzle" where
  "puzzle_generate P ch now difficulty =
     \<lparr> pz_challenge = p_hex_encode P ch, pz_difficulty = difficulty, pz_issued_at = now \<rparr>"

definition nonce_solves :: "prims \<Rightarrow> bytes \<Rightarrow> u8 \<Rightarrow> u64 \<Rightarrow> bool" where
  "nonce_solves P cb difficulty nonce \<longleftrightarrow> unat difficulty \<le> hash_zeros (p_sha256 P (cb @ to_le nonce))"

text \<open>
  The loop over \<open>0u64..\<close>, which a release build continues from 0 after the last number: the error behind it is
  never reached.
\<close>

partial_function (option) puzzle_search :: "prims \<Rightarrow> bytes \<Rightarrow> u8 \<Rightarrow> u64 \<Rightarrow> u64 option" where
  "puzzle_search P cb difficulty nonce =
     (if nonce_solves P cb difficulty nonce then Some nonce else puzzle_search P cb difficulty (nonce + 1))"

definition puzzle_solve :: "prims \<Rightarrow> intro_puzzle \<Rightarrow> puzzle_solution result option" where
  "puzzle_solve P p =
     (case p_hex_decode P (pz_challenge p) of
        None \<Rightarrow> Some (Inl (PowFailed ''hex''))
      | Some cb \<Rightarrow>
          map_option (\<lambda>n. Inr \<lparr> so_challenge = pz_challenge p, so_nonce = n \<rparr>) (puzzle_search P cb (pz_difficulty p) 0))"

definition puzzle_verify :: "prims \<Rightarrow> intro_puzzle \<Rightarrow> puzzle_solution \<Rightarrow> bool" where
  "puzzle_verify P p sol \<longleftrightarrow> so_challenge sol = pz_challenge p
     \<and> (case p_hex_decode P (pz_challenge p) of
          None \<Rightarrow> False
        | Some cb \<Rightarrow> nonce_solves P cb (pz_difficulty p) (so_nonce sol))"

definition puzzle_fresh :: "u64 \<Rightarrow> intro_puzzle \<Rightarrow> bool" where
  "puzzle_fresh now p \<longleftrightarrow> sat_sub now (pz_issued_at p) < 120"

subsection \<open>The search\<close>

lemma puzzle_search_found:
  assumes "nonce_solves P cb d n" "\<forall>m. start \<le> m \<and> m < n \<longrightarrow> \<not> nonce_solves P cb d m" "start \<le> n"
  shows "puzzle_search P cb d start = Some n"
  using assms(2,3)
proof (induction "unat n - unat start" arbitrary: start)
  case 0
  then have "start = n" by (simp add: word_le_nat_alt word_unat_eq_iff)
  then show ?case using assms(1) by (simp add: puzzle_search.simps)
next
  case (Suc k)
  have less: "start < n" using Suc.hyps(2) by (simp add: word_less_nat_alt)
  then have no: "\<not> nonce_solves P cb d start" using Suc.prems(1) by blast
  have up: "unat (start + 1) = unat start + 1"
    using less unsigned_less [of n, where ?'a = nat] by (simp add: unat_word_ariths word_less_nat_alt)
  have "puzzle_search P cb d (start + 1) = Some n"
  proof (rule Suc.hyps(1))
    show "k = unat n - unat (start + 1)" using Suc.hyps(2) up by simp
    show "\<forall>m. start + 1 \<le> m \<and> m < n \<longrightarrow> \<not> nonce_solves P cb d m"
      using Suc.prems(1) up by (auto simp: word_le_nat_alt)
    show "start + 1 \<le> n" using less up by (simp add: word_le_nat_alt word_less_nat_alt)
  qed
  then show ?case using no by (subst puzzle_search.simps) simp
qed

lemma puzzle_search_sound:
  assumes "puzzle_search P cb d start = Some n"
  shows "nonce_solves P cb d n"
proof -
  have "(\<lambda>(((P, cb), d), start) n. nonce_solves P cb d n) (((P, cb), d), start) n"
    by (rule puzzle_search.raw_induct [OF _ assms]) (auto split: if_splits)
  then show ?thesis by simp
qed

lemma puzzle_search_spec:
  "case puzzle_search P cb d 0 of
     None \<Rightarrow> \<forall>n. \<not> nonce_solves P cb d n
   | Some n \<Rightarrow> nonce_solves P cb d n \<and> (\<forall>m < n. \<not> nonce_solves P cb d m)"
proof (cases "\<exists>n. nonce_solves P cb d n")
  case True
  define n where "n = (LEAST n. nonce_solves P cb d n)"
  have n: "nonce_solves P cb d n" using True unfolding n_def by (rule LeastI_ex)
  have least: "\<forall>m < n. \<not> nonce_solves P cb d m" unfolding n_def using not_less_Least by blast
  have "puzzle_search P cb d 0 = Some n" by (rule puzzle_search_found) (use n least in auto)
  then show ?thesis using n least by simp
next
  case False
  then have "puzzle_search P cb d 0 = None" using puzzle_search_sound by (metis not_None_eq)
  then show ?thesis using False by simp
qed

text \<open>C34: Solving a puzzle returns exactly when the puzzle can be solved. The search never returns when no nonce
  satisfies the verifier; when it returns a solution, the verifier accepts it and accepts no smaller nonce; and it
  fails with an error only when the challenge is not hexadecimal.
\<close>

theorem puzzle_solve_exact:
  "case puzzle_solve P p of
     None \<Rightarrow> \<forall>s. \<not> puzzle_verify P p s
   | Some (Inl e) \<Rightarrow> p_hex_decode P (pz_challenge p) = None
   | Some (Inr s) \<Rightarrow> puzzle_verify P p s \<and> (\<forall>n < so_nonce s. \<not> puzzle_verify P p (s\<lparr>so_nonce := n\<rparr>))"
proof (cases "p_hex_decode P (pz_challenge p)")
  case (Some cb)
  then show ?thesis
    using puzzle_search_spec [of P cb "pz_difficulty p"]
    by (auto simp: puzzle_solve_def puzzle_verify_def split: option.splits)
qed (simp add: puzzle_solve_def)

theorem puzzle_solve_exact_witness:
  "\<exists>s. puzzle_solve toy_prims \<lparr> pz_challenge = ''00'', pz_difficulty = 0, pz_issued_at = 0 \<rparr> = Some (Inr s)
    \<and> puzzle_verify toy_prims \<lparr> pz_challenge = ''00'', pz_difficulty = 0, pz_issued_at = 0 \<rparr> s"
proof -
  let ?p = "\<lparr> pz_challenge = ''00'', pz_difficulty = 0, pz_issued_at = 0 \<rparr>"
  have dec: "p_hex_decode toy_prims ''00'' = Some [0]" by (simp add: toy_prims_def hex_val_def)
  have "puzzle_search toy_prims [0] 0 0 = Some 0"
    by (subst puzzle_search.simps) (simp add: nonce_solves_def)
  then have "puzzle_solve toy_prims ?p = Some (Inr \<lparr> so_challenge = ''00'', so_nonce = 0 \<rparr>)"
    by (simp add: puzzle_solve_def dec)
  then show ?thesis using puzzle_solve_exact [of toy_prims ?p] by simp
qed

subsection \<open>The controller\<close>

record puzzle_controller =
  pk_target_rps :: f64
  pk_difficulty :: u8
  pk_recent :: "instant list"
  pk_window_secs :: f64

definition controller_new :: "f64 \<Rightarrow> puzzle_controller" where
  "controller_new target = \<lparr> pk_target_rps = target, pk_difficulty = 16, pk_recent = [], pk_window_secs = 10 \<rparr>"

definition record_request :: "instant \<Rightarrow> puzzle_controller \<Rightarrow> u8 \<times> puzzle_controller" where
  "record_request now c =
     (let cutoff = now - from_secs_f64 (pk_window_secs c);
          recent = dropWhile (\<lambda>t. t < cutoff) (pk_recent c @ [now]);
          rps = f64_div (f64_round (of_nat (length recent))) (pk_window_secs c);
          d = pk_difficulty c;
          d' = (if f64_mul (pk_target_rps c) 2 < rps then min (sat_add d 2) 28
                else if pk_target_rps c < rps then min (sat_add d 1) 28
                else if rps < f64_mul (pk_target_rps c) (1/2) then max (sat_sub d 1) 12
                else d)
      in (d', c\<lparr>pk_difficulty := d', pk_recent := recent\<rparr>))"

text \<open>The same with exact counts: requests of the last ten seconds against 100, 50 and 25.\<close>

definition PUZZLE_WINDOW :: nat where "PUZZLE_WINDOW = 10000000000"

definition count_step :: "nat \<Rightarrow> nat \<Rightarrow> nat" where
  "count_step n d =
     (if 100 < n then min (d + 2) 28 else if 50 < n then min (d + 1) 28 else if n < 25 then max (d - 1) 12 else d)"

fun exact_difficulty :: "instant list \<Rightarrow> instant list \<Rightarrow> nat \<Rightarrow> nat" where
  "exact_difficulty seen [] d = d"
| "exact_difficulty seen (t # ts) d =
     exact_difficulty (seen @ [t]) ts (count_step (length (filter (\<lambda>s. t \<le> s + PUZZLE_WINDOW) (seen @ [t]))) d)"

lemma f64_round_five_halves: "f64_round (5/2) = 5/2"
proof -
  have "f64_round (5/2) = of_int (5 * 2 ^ 50) * 2 powi (1 - 52)"
    by (rule f64_round_eqI) (simp_all add: power_int_def)
  also have "\<dots> = 5/2" by (simp add: power_int_def power_divide)
  finally show ?thesis .
qed

lemma rate_thresholds:
  assumes "n < 2 ^ 53"
  shows "10 < f64_div (f64_round (of_nat n)) 10 \<longleftrightarrow> 100 < n" "5 < f64_div (f64_round (of_nat n)) 10 \<longleftrightarrow> 50 < n"
    "f64_div (f64_round (of_nat n)) 10 < 5/2 \<longleftrightarrow> n < 25"
proof -
  define r where "r = f64_div (f64_round (of_nat n)) 10"
  have r: "r = f64_round (of_nat n / 10)" using f64_round_of_nat [OF assms] by (simp add: r_def f64_div_def)
  have "0 \<le> (of_nat n / 10 :: rat)" by simp
  note b = f64_round_bounds [OF this, folded r]
  have up: "k < r" if "10 * k + 1 \<le> of_nat n" "0 \<le> k" "k \<le> 1000" for k :: rat
    using b(1) that by (simp add: field_simps)
  have down: "r < k" if "of_nat n \<le> 10 * k - 1" "0 \<le> k" "k \<le> 1000" for k :: rat
    using b(2) that by (simp add: field_simps)
  have at: "r = 10" if "n = 100" using r that f64_round_of_int [of 10] by simp
  have at5: "r = 5" if "n = 50" using r that f64_round_of_int [of 5] by simp
  have at2: "r = 5/2" if "n = 25" using r that f64_round_five_halves by simp
  have n1: "101 \<le> n \<Longrightarrow> (101 :: rat) \<le> of_nat n" "n \<le> 99 \<Longrightarrow> of_nat n \<le> (99 :: rat)"
    "51 \<le> n \<Longrightarrow> (51 :: rat) \<le> of_nat n" "n \<le> 49 \<Longrightarrow> of_nat n \<le> (49 :: rat)"
    "26 \<le> n \<Longrightarrow> (26 :: rat) \<le> of_nat n" "n \<le> 24 \<Longrightarrow> of_nat n \<le> (24 :: rat)"
    by simp_all
  show "10 < f64_div (f64_round (of_nat n)) 10 \<longleftrightarrow> 100 < n"
    using up [of 10] down [of 10] at n1(1,2) unfolding r_def [symmetric]
    by (cases n "100 :: nat" rule: linorder_cases) auto
  show "5 < f64_div (f64_round (of_nat n)) 10 \<longleftrightarrow> 50 < n"
    using up [of 5] down [of 5] at5 n1(3,4) unfolding r_def [symmetric]
    by (cases n "50 :: nat" rule: linorder_cases) auto
  show "f64_div (f64_round (of_nat n)) 10 < 5/2 \<longleftrightarrow> n < 25"
    using up [of "5/2"] down [of "5/2"] at2 n1(5,6) unfolding r_def [symmetric]
    by (cases n "25 :: nat" rule: linorder_cases) auto
qed

lemma dropWhile_sorted: "sorted xs \<Longrightarrow> dropWhile (\<lambda>x. x < a) xs = filter (\<lambda>x. a \<le> x) xs" for xs :: "nat list"
proof (induction xs)
  case (Cons x xs)
  have "filter (\<lambda>x. a \<le> x) xs = xs" if "a \<le> x" using Cons.prems that by (auto simp: filter_id_conv)
  then show ?case using Cons by auto
qed simp

text \<open>What the controller remembers: the requests of its window, when the clock does not go back.\<close>

definition remembers :: "instant list \<Rightarrow> nat \<Rightarrow> puzzle_controller \<Rightarrow> bool" where
  "remembers seen d c \<longleftrightarrow> pk_target_rps c = 5 \<and> pk_window_secs c = 10 \<and> unat (pk_difficulty c) = d \<and> 12 \<le> d \<and> d \<le> 28
     \<and> (\<exists>now. (\<forall>s \<in> set seen. s \<le> now) \<and> (seen \<noteq> [] \<longrightarrow> now = last seen)
         \<and> pk_recent c = filter (\<lambda>s. now \<le> s + PUZZLE_WINDOW) seen)"

lemma sat_steps:
  assumes "unat (x :: u8) = d" "12 \<le> d" "d \<le> 28"
  shows "unat (min (sat_add x 2) 28) = min (d + 2) 28" "unat (min (sat_add x 1) 28) = min (d + 1) 28"
    "unat (max (sat_sub x 1) 12) = max (d - 1) 12"
proof -
  have a: "unat (x + 2) = d + 2" "unat (x + 1) = d + 1" using assms by (simp_all add: unat_word_ariths)
  have s: "1 \<le> x" using assms by (simp add: word_le_nat_alt)
  then have b: "unat (x - 1) = d - 1" using assms(1) by (simp add: unat_sub)
  show "unat (min (sat_add x 2) 28) = min (d + 2) 28" "unat (min (sat_add x 1) 28) = min (d + 1) 28"
    using a assms by (simp_all add: sat_add_def min_def word_le_nat_alt)
  show "unat (max (sat_sub x 1) 12) = max (d - 1) 12"
    using b s assms by (simp add: sat_sub_def max_def word_le_nat_alt word_less_nat_alt)
qed

lemma record_request_step:
  assumes "remembers seen d c" "sorted (seen @ [t])" "Suc (length seen) < 2 ^ 53"
  shows "remembers (seen @ [t]) (count_step (length (filter (\<lambda>s. t \<le> s + PUZZLE_WINDOW) (seen @ [t]))) d) (snd (record_request t c))"
proof -
  let ?n = "length (filter (\<lambda>s. t \<le> s + PUZZLE_WINDOW) (seen @ [t]))"
  obtain now where now: "\<forall>s \<in> set seen. s \<le> now" "seen \<noteq> [] \<longrightarrow> now = last seen"
      "pk_recent c = filter (\<lambda>s. now \<le> s + PUZZLE_WINDOW) seen"
    using assms(1) by (auto simp: remembers_def)
  have c: "pk_target_rps c = 5" "pk_window_secs c = 10" "unat (pk_difficulty c) = d" "12 \<le> d" "d \<le> 28"
    using assms(1) by (simp_all add: remembers_def)
  have w: "from_secs_f64 10 = PUZZLE_WINDOW"
    using round_half_even_int [of 10000000000] by (simp add: from_secs_f64_def PUZZLE_WINDOW_def)
  have le: "\<forall>s \<in> set seen. s \<le> t" "sorted seen" using assms(2) by (simp_all add: sorted_append)
  have cut: "t - PUZZLE_WINDOW \<le> s \<longleftrightarrow> t \<le> s + PUZZLE_WINDOW" for s by arith
  have "sorted (pk_recent c @ [t])" using now(3) le by (simp add: sorted_append sorted_wrt_filter)
  then have "dropWhile (\<lambda>s. s < t - PUZZLE_WINDOW) (pk_recent c @ [t]) = filter (\<lambda>s. t \<le> s + PUZZLE_WINDOW) (pk_recent c @ [t])"
    by (simp only: dropWhile_sorted cut)
  also have "\<dots> = filter (\<lambda>s. t \<le> s + PUZZLE_WINDOW) (seen @ [t])"
  proof (cases "seen = []")
    case False
    then have "now \<le> t" using now(2) le(1) by simp
    then have "filter (\<lambda>s. t \<le> s + PUZZLE_WINDOW) (pk_recent c) = filter (\<lambda>s. t \<le> s + PUZZLE_WINDOW) seen"
      unfolding now(3) filter_filter by (intro filter_cong) auto
    then show ?thesis by simp
  qed (use now(3) in simp)
  finally have rec: "dropWhile (\<lambda>s. s < t - PUZZLE_WINDOW) (pk_recent c @ [t]) = filter (\<lambda>s. t \<le> s + PUZZLE_WINDOW) (seen @ [t])" .
  have "?n \<le> length (seen @ [t])" by (rule length_filter_le)
  then have n: "?n < 2 ^ 53" by (rule order.strict_trans1) (use assms(3) in simp)
  have m: "f64_mul 5 2 = 10" "f64_mul 5 (1/2) = 5/2"
    using f64_round_of_int [of 10] f64_round_five_halves by (simp_all add: f64_mul_def)
  let ?c = "snd (record_request t c)"
  have dif: "unat (pk_difficulty ?c) = count_step ?n d"
    unfolding record_request_def Let_def w c(1,2) rec m rate_thresholds [OF n] snd_conv puzzle_controller.simps count_step_def
    using sat_steps [OF c(3-5)] c(3) by (simp split: if_splits)
  have "pk_recent ?c = filter (\<lambda>s. t \<le> s + PUZZLE_WINDOW) (seen @ [t])" "pk_target_rps ?c = 5" "pk_window_secs ?c = 10"
    by (simp_all add: record_request_def Let_def c(1,2) w rec)
  moreover have "12 \<le> count_step ?n d" "count_step ?n d \<le> 28" using c(4,5) by (auto simp: count_step_def)
  moreover have "\<forall>s \<in> set (seen @ [t]). s \<le> t" using le(1) by simp
  ultimately show ?thesis unfolding remembers_def dif by (intro conjI exI [of _ t]) simp_all
qed

lemma record_requests:
  assumes "remembers seen d c" "sorted (seen @ ts)" "length (seen @ ts) < 2 ^ 53"
  shows "remembers (seen @ ts) (exact_difficulty seen ts d) (fold (\<lambda>t c. snd (record_request t c)) ts c)"
  using assms
proof (induction ts arbitrary: seen d c)
  case (Cons t ts)
  have "remembers (seen @ [t]) (count_step (length (filter (\<lambda>s. t \<le> s + PUZZLE_WINDOW) (seen @ [t]))) d) (snd (record_request t c))"
    by (rule record_request_step [OF Cons.prems(1)]) (use Cons.prems(2,3) in \<open>auto simp: sorted_append\<close>)
  from Cons.IH [OF this] Cons.prems(2,3) show ?case by simp
qed simp

text \<open>The difficulty of the puzzles follows the exact number of requests: after any sequence of requests under a
  clock that does not go back, the difficulty that the controller computes with floating-point rates is the one
  computed from the exact number of requests of the last ten seconds (more than 100: two bits up, more than 50: one
  bit up, fewer than 25: one bit down), and it stays between 12 and 28 bits.
\<close>

theorem puzzle_difficulty_exact:
  assumes "sorted ts" "length ts < 2 ^ 53"
  shows "let d = unat (pk_difficulty (fold (\<lambda>t c. snd (record_request t c)) ts (controller_new 5)))
    in d = exact_difficulty [] ts 16 \<and> 12 \<le> d \<and> d \<le> 28"
proof -
  have "remembers [] 16 (controller_new 5)" by (simp add: remembers_def controller_new_def)
  from record_requests [OF this, of ts] assms show ?thesis by (simp add: remembers_def Let_def)
qed

theorem puzzle_difficulty_exact_witness:
  "unat (pk_difficulty (fold (\<lambda>t c. snd (record_request t c)) [0, 0, 5] (controller_new 5))) = 13"
  using puzzle_difficulty_exact [of "[0, 0, 5]"] by (simp add: count_step_def Let_def)

end
