(* ===== verification/HsService.thy ===== *)
theory HsService
  imports HsIdentity Puzzle HsdirRing Replay Directory SiteServe
begin

section \<open>Hosting and finding hidden services\<close>

text \<open>
  phinet-core/src/hidden_service.rs (the services a node hosts and their descriptors) and the part of
  phinet-core/src/node.rs that publishes, stores, looks up and resolves descriptors: \<open>broadcast_hs\<close>,
  \<open>republish_all_hs_once\<close>, \<open>handle_hs_lookup\<close>, \<open>handle_hs_found\<close>, \<open>lookup_hs_descriptor\<close>, \<open>resolve_hs_descriptor\<close>,
  \<open>responsible_hsdirs_for\<close> and the cases of \<open>dispatch\<close> for stored values and registrations. Messages are queued in
  the state with their receiver; the JSON value of a descriptor is an argument pair.

  Shown: what a public service republishes leads its clients to the node that hosts it, what a restricted service
  publishes leads exactly its authorised clients to its introduction point, and where the code falls short of that: a
  republished restricted descriptor is refused by every node, a refreshed descriptor is refused by the nodes that
  stored the last one, and a lookup accepts the descriptor of another service.
\<close>

subsection \<open>The services of a node\<close>

record rendezvous_slot =
  rs_host :: string
  rs_port :: u16
  rs_created :: instant

record hidden_service =
  sv_hs_id :: string
  sv_name :: string
  sv_nonce :: bytes
  sv_intro_secret :: bytes
  sv_intro_pub :: bytes
  sv_puzzle_ctl :: puzzle_controller
  sv_rendezvous :: "(bytes, rendezvous_slot) hmap"
  sv_identity :: bytes
  sv_endpoint :: "(string \<times> u16) option"

definition service_from_identity :: "prims \<Rightarrow> bytes \<Rightarrow> bytes \<Rightarrow> bytes \<Rightarrow> string \<Rightarrow> hidden_service" where
  "service_from_identity P intro_secret nonce identity name =
     \<lparr> sv_hs_id = identity_hs_id P identity, sv_name = name, sv_nonce = nonce, sv_intro_secret = intro_secret,
       sv_intro_pub = p_x25519_pub P intro_secret, sv_puzzle_ctl = controller_new 5, sv_rendezvous = [],
       sv_identity = identity, sv_endpoint = None \<rparr>"

definition service_descriptor :: "prims \<Rightarrow> string option \<Rightarrow> u16 option \<Rightarrow> hidden_service \<Rightarrow> hs_descriptor" where
  "service_descriptor P host port s =
     \<lparr> hd_hs_id = sv_hs_id s, hd_name = sv_name s, hd_intro_pub = p_hex_encode P (sv_intro_pub s), hd_intro_host = host,
       hd_intro_port = port, hd_intro_node_id = [], hd_identity_pub = [], hd_epoch = 0, hd_sig = [], hd_blinded_pub = [],
       hd_client_auth = None \<rparr>"

text \<open>The content key, the nonce and the ephemeral secrets are drawn by the encryption.\<close>

definition descriptor_with_client_auth ::
  "prims \<Rightarrow> intro_encoder \<Rightarrow> bytes \<times> bytes \<times> bytes list \<Rightarrow> string option \<Rightarrow> u16 option \<Rightarrow> bytes list \<Rightarrow> hidden_service
     \<Rightarrow> hs_descriptor result" where
  "descriptor_with_client_auth P ser rnd host port client_pubs s =
     (case rnd of (key_k, nonce, ephemerals) \<Rightarrow>
      let intro = \<lparr> is_intro_pub = p_hex_encode P (sv_intro_pub s), is_intro_host = host, is_intro_port = port,
                    is_intro_node_id = [] \<rparr> in
      and_then (encrypt_intro_for_clients P ser key_k nonce ephemerals intro client_pubs) (\<lambda>block.
        Inr \<lparr> hd_hs_id = sv_hs_id s, hd_name = sv_name s, hd_intro_pub = [], hd_intro_host = None, hd_intro_port = None,
              hd_intro_node_id = [], hd_identity_pub = [], hd_epoch = 0, hd_sig = [], hd_blinded_pub = [],
              hd_client_auth = Some block \<rparr>))"

definition issue_puzzle :: "prims \<Rightarrow> bytes \<Rightarrow> instant \<Rightarrow> u64 \<Rightarrow> hidden_service \<Rightarrow> intro_puzzle \<times> hidden_service" where
  "issue_puzzle P ch now unix_now s =
     (case record_request now (sv_puzzle_ctl s) of
        (d, ctl) \<Rightarrow> (puzzle_generate P ch unix_now d, s\<lparr>sv_puzzle_ctl := ctl\<rparr>))"

definition verify_puzzle :: "prims \<Rightarrow> u64 \<Rightarrow> intro_puzzle \<Rightarrow> puzzle_solution \<Rightarrow> bool" where
  "verify_puzzle P now puzzle sol \<longleftrightarrow> puzzle_fresh now puzzle \<and> puzzle_verify P puzzle sol"

definition rotate_intro_key :: "prims \<Rightarrow> bytes \<Rightarrow> hidden_service \<Rightarrow> hidden_service" where
  "rotate_intro_key P intro_secret s = s\<lparr>sv_intro_secret := intro_secret, sv_intro_pub := p_x25519_pub P intro_secret\<rparr>"

definition evict_old_rendezvous :: "instant \<Rightarrow> hidden_service \<Rightarrow> hidden_service" where
  "evict_old_rendezvous now s =
     s\<lparr>sv_rendezvous := hm_retain (\<lambda>_ slot. now - rs_created slot < 600 * 1000000000) (sv_rendezvous s)\<rparr>"

text \<open>\<open>HsManager::register\<close>: \<open>content\<close> is the identity file before, the last result the file after.\<close>

definition register_identity ::
  "prims \<Rightarrow> (string \<Rightarrow> bool) \<Rightarrow> (string \<Rightarrow> string option) \<Rightarrow> (string \<Rightarrow> string option) \<Rightarrow> bytes \<Rightarrow> string option
     \<Rightarrow> bytes \<times> string option" where
  "register_identity P io ser de fresh content =
     (let fresh_saved = (case identity_save P io ser fresh of Inr json \<Rightarrow> (fresh, Some json) | Inl _ \<Rightarrow> (fresh, content)) in
      case content of
        None \<Rightarrow> fresh_saved
      | Some c \<Rightarrow> (case identity_load P de (Some c) of Inr identity \<Rightarrow> (identity, content) | Inl _ \<Rightarrow> fresh_saved))"

definition hs_register ::
  "prims \<Rightarrow> bytes \<Rightarrow> bytes \<Rightarrow> bytes \<Rightarrow> string \<Rightarrow> (string, hidden_service) hmap \<Rightarrow> (string, hidden_service) hmap" where
  "hs_register P intro_secret nonce identity name services =
     (let s = service_from_identity P intro_secret nonce identity name in hm_insert (sv_hs_id s) s services)"

subsection \<open>The state of a node\<close>

datatype 'v hs_msg =
    MsgHsRegister hs_descriptor
  | MsgHsLookup string string
  | MsgHsFound string string "hs_descriptor option" "intro_puzzle option"
  | MsgDhtStore string 'v
  | MsgDhtFetch string string
  | MsgDhtValue string string "'v option"

record 'v hs_node =
  hn_node_id :: bytes
  hn_static_pub :: bytes
  hn_services :: "(string, hidden_service) hmap"
  hn_dht :: "'v dht_store"
  hn_replay :: replay_cache
  hn_peers :: "bytes list"
  hn_consensus :: "consensus_document option"
  hn_waiters :: "string list"
  hn_resolved :: "(string \<times> hs_descriptor) list"
  hn_site_root :: string
  hn_files :: file_system
  hn_out :: "(bytes \<times> 'v hs_msg) list"

text \<open>Clocks of a step: unix seconds, the epoch, the milliseconds of the value store, a monotonic instant.\<close>

record clocks =
  ck_unix :: u64
  ck_dht :: nat
  ck_instant :: instant

definition ck_epoch :: "clocks \<Rightarrow> u64" where
  "ck_epoch t = hs_current_epoch (ck_unix t)"

definition hs_send :: "bytes list \<Rightarrow> 'v hs_msg \<Rightarrow> 'v hs_node \<Rightarrow> 'v hs_node" where
  "hs_send targets msg n = n\<lparr>hn_out := hn_out n @ map (\<lambda>p. (p, msg)) targets\<rparr>"

subsection \<open>Publishing\<close>

definition responsible_hsdirs_for ::
  "prims \<Rightarrow> 'p ed_curve \<Rightarrow> u64 \<Rightarrow> string \<Rightarrow> consensus_document option \<Rightarrow> string list option" where
  "responsible_hsdirs_for P C period hs_id consensus =
     (case consensus of
        None \<Rightarrow> None
      | Some doc \<Rightarrow>
          let relays = map pe_node_id_hex (filter (\<lambda>p. pe_flags p AND FLAG_RUNNING = FLAG_RUNNING) (cd_peers doc)) in
          if relays = [] then None
          else
            let salt = (if cd_shared_random doc = [] then cd_network_id doc else cd_shared_random doc);
                ring_key = (case Option.bind (hex_array P 32 hs_id) (\<lambda>pk. blind_public C pk period salt) of
                              Some b \<Rightarrow> p_hex_encode P b
                            | None \<Rightarrow> hs_id)
            in Some (responsible_hsdirs P ring_key relays period salt))"

definition hs_targets :: "prims \<Rightarrow> string list option \<Rightarrow> bytes list \<Rightarrow> bytes list" where
  "hs_targets P responsible peers =
     (case responsible of
        Some dirs \<Rightarrow>
          if dirs = [] then peers
          else let want = filter (\<lambda>i. p_hex_encode P i \<in> set dirs) peers in if want = [] then peers else want
      | None \<Rightarrow> peers)"

definition broadcast_hs ::
  "prims \<Rightarrow> 'p ed_curve \<Rightarrow> (hs_descriptor \<Rightarrow> 'v) \<Rightarrow> clocks \<Rightarrow> hs_descriptor \<Rightarrow> bytes \<Rightarrow> 'v hs_node \<Rightarrow> 'v hs_node outcome" where
  "broadcast_hs P C to_value t d identity n =
     (let endpoint = (case hd_intro_host d of None \<Rightarrow> [] | Some h \<Rightarrow> h, case hd_intro_port d of None \<Rightarrow> 0 | Some p \<Rightarrow> p);
          n1 = (case hm_get (hn_services n) (hd_hs_id d) of
                  None \<Rightarrow> n
                | Some s \<Rightarrow> n\<lparr>hn_services := hm_insert (hd_hs_id d) (s\<lparr>sv_endpoint := Some endpoint\<rparr>) (hn_services n)\<rparr>)
      in case sign_descriptor P C identity d (ck_epoch t) of
           Panics \<Rightarrow> Panics
         | Returns sd \<Rightarrow>
             let n2 = n1\<lparr>hn_dht := put_hs to_value (hd_hs_id sd) sd (ck_dht t) (hn_dht n1)\<rparr>;
                 targets = hs_targets P (responsible_hsdirs_for P C (ck_epoch t) (hd_hs_id sd) (hn_consensus n2)) (hn_peers n2)
             in Returns (hs_send targets (MsgHsRegister sd) n2))"

text \<open>The list of clients as keys; a malformed one stops the republication of the service.\<close>

fun decode_clients :: "prims \<Rightarrow> string list \<Rightarrow> bytes list option" where
  "decode_clients P [] = Some []"
| "decode_clients P (h # hs) =
     (case hex_array P 32 h of None \<Rightarrow> None | Some b \<Rightarrow> map_option (Cons b) (decode_clients P hs))"

definition republish_descriptor ::
  "prims \<Rightarrow> intro_encoder \<Rightarrow> bytes \<times> bytes \<times> bytes list \<Rightarrow> hidden_service \<Rightarrow> 'v hs_node \<Rightarrow> hs_descriptor option" where
  "republish_descriptor P ser rnd s n =
     (case sv_endpoint s of
        None \<Rightarrow> None
      | Some (host, port) \<Rightarrow>
          let host_opt = (if host = [] then None else Some host);
              port_opt = (if port = 0 then None else Some port);
              clients_hex = list_authorized_clients (hn_site_root n) (sv_hs_id s) (hn_files n);
              descriptor = (if clients_hex = [] then Some (service_descriptor P host_opt port_opt s)
                            else (case decode_clients P clients_hex of
                                    None \<Rightarrow> None
                                  | Some pubs \<Rightarrow>
                                      (case descriptor_with_client_auth P ser rnd host_opt port_opt pubs s of
                                         Inr d \<Rightarrow> Some d | Inl _ \<Rightarrow> None)))
          in map_option (\<lambda>d. d\<lparr>hd_intro_pub := p_hex_encode P (hn_static_pub n), hd_intro_node_id := p_hex_encode P (hn_node_id n)\<rparr>)
               descriptor)"

definition republish_hs ::
  "prims \<Rightarrow> 'p ed_curve \<Rightarrow> intro_encoder \<Rightarrow> (hs_descriptor \<Rightarrow> 'v) \<Rightarrow> clocks \<Rightarrow> bytes \<times> bytes \<times> bytes list \<Rightarrow> string \<Rightarrow> 'v hs_node
     \<Rightarrow> 'v hs_node outcome" where
  "republish_hs P C ser to_value t rnd hs_id n =
     (case hm_get (hn_services n) hs_id of
        None \<Rightarrow> Returns n
      | Some s \<Rightarrow>
          (case republish_descriptor P ser rnd s n of
             None \<Rightarrow> Returns n
           | Some d \<Rightarrow> broadcast_hs P C to_value t d (sv_identity s) n))"

fun republish_each ::
  "prims \<Rightarrow> 'p ed_curve \<Rightarrow> intro_encoder \<Rightarrow> (hs_descriptor \<Rightarrow> 'v) \<Rightarrow> clocks \<Rightarrow> (string \<Rightarrow> bytes \<times> bytes \<times> bytes list)
     \<Rightarrow> string list \<Rightarrow> 'v hs_node \<Rightarrow> 'v hs_node outcome" where
  "republish_each P C ser to_value t rnd [] n = Returns n"
| "republish_each P C ser to_value t rnd (i # is) n =
     (case republish_hs P C ser to_value t (rnd i) i n of
        Panics \<Rightarrow> Panics
      | Returns n' \<Rightarrow> republish_each P C ser to_value t rnd is n')"

definition republish_all_hs_once ::
  "prims \<Rightarrow> 'p ed_curve \<Rightarrow> intro_encoder \<Rightarrow> (hs_descriptor \<Rightarrow> 'v) \<Rightarrow> clocks \<Rightarrow> (string \<Rightarrow> bytes \<times> bytes \<times> bytes list)
     \<Rightarrow> 'v hs_node \<Rightarrow> 'v hs_node outcome" where
  "republish_all_hs_once P C ser to_value t rnd n = republish_each P C ser to_value t rnd (hm_keys (hn_services n)) n"

subsection \<open>Storing and answering\<close>

text \<open>A registration: verified, then refused if the cache has seen its service.\<close>

definition handle_hs_register ::
  "prims \<Rightarrow> 'p ed_curve \<Rightarrow> io \<Rightarrow> entry_encoder \<Rightarrow> (hs_descriptor \<Rightarrow> 'v) \<Rightarrow> clocks \<Rightarrow> hs_descriptor \<Rightarrow> 'v hs_node \<Rightarrow> 'v hs_node" where
  "handle_hs_register P C io enc to_value t d n =
     (case verify_descriptor P C (ck_epoch t) d of
        Inl _ \<Rightarrow> n
      | Inr _ \<Rightarrow>
          (case mark io enc (ck_unix t) (ck_unix t) (''hs:'' @ hd_hs_id d) (hn_replay n) of
             (was_new, cache) \<Rightarrow>
               let n1 = n\<lparr>hn_replay := cache\<rparr> in
               if \<not> was_new then n1 else n1\<lparr>hn_dht := put_hs to_value (hd_hs_id d) d (ck_dht t) (hn_dht n1)\<rparr>))"

definition handle_dht_store ::
  "prims \<Rightarrow> io \<Rightarrow> entry_encoder \<Rightarrow> clocks \<Rightarrow> string \<Rightarrow> 'v \<Rightarrow> 'v hs_node \<Rightarrow> 'v hs_node" where
  "handle_dht_store P io enc t key v n =
     (case mark io enc (ck_unix t) (ck_unix t) (''dht:'' @ p_hex_encode P (ascii key)) (hn_replay n) of
        (was_new, cache) \<Rightarrow>
          let n1 = n\<lparr>hn_replay := cache\<rparr> in
          if \<not> was_new then n1 else n1\<lparr>hn_dht := store_put key v (ck_dht t) (hn_dht n1)\<rparr>)"

definition handle_dht_fetch :: "clocks \<Rightarrow> bytes \<Rightarrow> string \<Rightarrow> string \<Rightarrow> 'v hs_node \<Rightarrow> 'v hs_node" where
  "handle_dht_fetch t src req_id key n = hs_send [src] (MsgDhtValue req_id key (store_get key (ck_dht t) (hn_dht n))) n"

text \<open>The handlers log the first 12 bytes of the id; the slice panics inside a character.\<close>

definition log_slice_ok :: "string \<Rightarrow> bool" where
  "log_slice_ok s = is_char_boundary s (min 12 (length s))"

definition handle_hs_lookup ::
  "prims \<Rightarrow> (hs_descriptor \<Rightarrow> 'v) \<Rightarrow> ('v \<Rightarrow> hs_descriptor option) \<Rightarrow> bytes \<Rightarrow> clocks \<Rightarrow> bytes \<Rightarrow> string \<Rightarrow> string \<Rightarrow> 'v hs_node
     \<Rightarrow> 'v hs_node outcome" where
  "handle_hs_lookup P to_value from_value ch t src req_id hs_id n =
     (let d = get_hs from_value hs_id (ck_dht t) (hn_dht n) in
      if \<not> log_slice_ok hs_id then Panics
      else
        (case hm_get (hn_services n) hs_id of
           Some s \<Rightarrow>
             (case issue_puzzle P ch (ck_instant t) (ck_unix t) s of
                (puzzle, s') \<Rightarrow>
                  Returns (hs_send [src] (MsgHsFound req_id hs_id d (Some puzzle))
                    (n\<lparr>hn_services := hm_insert hs_id s' (hn_services n)\<rparr>)))
         | None \<Rightarrow> Returns (hs_send [src] (MsgHsFound req_id hs_id d None) n)))"

definition handle_hs_found ::
  "(hs_descriptor \<Rightarrow> 'v) \<Rightarrow> clocks \<Rightarrow> string \<Rightarrow> string \<Rightarrow> hs_descriptor option \<Rightarrow> 'v hs_node \<Rightarrow> 'v hs_node outcome" where
  "handle_hs_found to_value t req_id hs_id descriptor n =
     (if \<not> log_slice_ok hs_id then Panics
      else
        (case descriptor of
           None \<Rightarrow> Returns n
         | Some d \<Rightarrow>
             let n1 = n\<lparr>hn_dht := put_hs to_value (hd_hs_id d) d (ck_dht t) (hn_dht n)\<rparr> in
             Returns (if req_id \<in> set (hn_waiters n1)
                      then n1\<lparr>hn_waiters := removeAll req_id (hn_waiters n1), hn_resolved := (req_id, d) # hn_resolved n1\<rparr>
                      else n1)))"

text \<open>
  A lookup in two steps: up to the wait for an answer, and from there. The first gives the result at once when
  the descriptor is cached or there is nobody to ask.
\<close>

definition lookup_start ::
  "prims \<Rightarrow> 'p ed_curve \<Rightarrow> ('v \<Rightarrow> hs_descriptor option) \<Rightarrow> clocks \<Rightarrow> string \<Rightarrow> string \<Rightarrow> 'v hs_node
     \<Rightarrow> hs_descriptor option option \<times> 'v hs_node" where
  "lookup_start P C from_value t req_id hs_id n =
     (case get_hs from_value hs_id (ck_dht t) (hn_dht n) of
        Some d \<Rightarrow> (Some (Some d), n)
      | None \<Rightarrow>
          if hn_peers n = [] then (Some None, n)
          else
            let responsible = responsible_hsdirs_for P C (ck_epoch t) hs_id (hn_consensus n)
            in (None, hs_send (hs_targets P responsible (hn_peers n)) (MsgHsLookup req_id hs_id)
                        (n\<lparr>hn_waiters := hn_waiters n @ [req_id]\<rparr>)))"

definition lookup_finish ::
  "('v \<Rightarrow> hs_descriptor option) \<Rightarrow> clocks \<Rightarrow> string \<Rightarrow> string \<Rightarrow> 'v hs_node \<Rightarrow> hs_descriptor option \<times> 'v hs_node" where
  "lookup_finish from_value t req_id hs_id n =
     (let n1 = n\<lparr>hn_waiters := removeAll req_id (hn_waiters n)\<rparr> in
      case map_of (hn_resolved n) req_id of
        Some d \<Rightarrow> (Some d, n1)
      | None \<Rightarrow> (get_hs from_value hs_id (ck_dht t) (hn_dht n1), n1))"

subsection \<open>Resolving\<close>

record resolved_intro =
  ri_intro_pub :: bytes
  ri_intro_host :: "string option"
  ri_intro_port :: "u16 option"
  ri_intro_node_id :: bytes

definition node_id_or_zero :: "prims \<Rightarrow> string \<Rightarrow> bytes" where
  "node_id_or_zero P s = (case hex_array P 32 s of Some i \<Rightarrow> i | None \<Rightarrow> replicate 32 0)"

definition decode_intro_pub :: "prims \<Rightarrow> string \<Rightarrow> string \<Rightarrow> string \<Rightarrow> bytes result" where
  "decode_intro_pub P hex_msg size_msg s =
     and_then (ok_or (Crypto hex_msg) (p_hex_decode P s)) (\<lambda>b. ok_or (Crypto size_msg) (to_array 32 b))"

fun resolve_secrets :: "prims \<Rightarrow> intro_decoder \<Rightarrow> client_auth_block \<Rightarrow> bytes list \<Rightarrow> resolved_intro option result" where
  "resolve_secrets P de block [] = Inr None"
| "resolve_secrets P de block (s # ss) =
     and_then (decrypt_intro_with_client_secret P de block s) (\<lambda>r.
       case r of
         None \<Rightarrow> resolve_secrets P de block ss
       | Some i \<Rightarrow>
           and_then (decode_intro_pub P ''recovered intro_pub hex'' ''recovered intro_pub size'' (is_intro_pub i)) (\<lambda>pub.
             Inr (Some \<lparr> ri_intro_pub = pub, ri_intro_host = is_intro_host i, ri_intro_port = is_intro_port i,
                         ri_intro_node_id = node_id_or_zero P (is_intro_node_id i) \<rparr>)))"

definition resolve_hs_descriptor ::
  "prims \<Rightarrow> 'p ed_curve \<Rightarrow> intro_decoder \<Rightarrow> u64 \<Rightarrow> hs_descriptor \<Rightarrow> bytes list \<Rightarrow> resolved_intro option result" where
  "resolve_hs_descriptor P C de now d client_secrets =
     and_then (verify_descriptor P C now d) (\<lambda>_.
       case hd_client_auth d of
         None \<Rightarrow>
           and_then (decode_intro_pub P ''intro_pub hex'' ''intro_pub size'' (hd_intro_pub d)) (\<lambda>pub.
             Inr (Some \<lparr> ri_intro_pub = pub, ri_intro_host = hd_intro_host d, ri_intro_port = hd_intro_port d,
                         ri_intro_node_id = node_id_or_zero P (hd_intro_node_id d) \<rparr>))
       | Some block \<Rightarrow> resolve_secrets P de block client_secrets)"

subsection \<open>Signed descriptors\<close>

text \<open>What signing leaves of a descriptor.\<close>

lemma sign_descriptor_fields:
  assumes "sign_descriptor P C seed d epoch = Returns sd"
  shows "hd_hs_id sd = hd_hs_id d" "hd_intro_pub sd = hd_intro_pub d" "hd_intro_host sd = hd_intro_host d"
    "hd_intro_port sd = hd_intro_port d" "hd_intro_node_id sd = hd_intro_node_id d" "hd_client_auth sd = hd_client_auth d"
  using assms by (auto simp: sign_descriptor_def Let_def split: sum.splits)

lemma sign_own_returns: "curve_ok P C \<Longrightarrow> \<exists>sd. sign_descriptor P C seed d epoch = Returns sd"
  by (simp add: sign_descriptor_def derive_blinded_pub_v2_own Let_def)

lemma sign_then_verify:
  assumes "hex_ok P" "curve_ok P C" "hd_hs_id d = identity_hs_id P seed" "check_auth d = Inr ()"
    and "sat_sub now 1 \<le> epoch" "epoch \<le> now + 1" "sign_descriptor P C seed d epoch = Returns sd"
  shows "verify_descriptor P C now sd = Inr ()"
  using sign_descriptor_verifies [OF assms(1-6)] assms(7) by auto

lemma check_auth_fields:
  assumes "hd_intro_pub a = hd_intro_pub b" "hd_intro_host a = hd_intro_host b" "hd_intro_port a = hd_intro_port b"
    "hd_client_auth a = hd_client_auth b"
  shows "check_auth a = check_auth b"
  unfolding check_auth_def assms ..

lemma verified_auth: "verify_descriptor P C now d = Inr () \<Longrightarrow> check_auth d = Inr ()"
  by (rule verify_descriptor_InrD)

lemma resolve_public:
  assumes "hex_ok P" "verify_descriptor P C now d = Inr ()" "hd_client_auth d = None"
    and "hd_intro_pub d = p_hex_encode P pub" "length pub = 32" "hd_intro_node_id d = p_hex_encode P i" "length i = 32"
  shows "resolve_hs_descriptor P C de now d ss = Inr (Some \<lparr> ri_intro_pub = pub, ri_intro_host = hd_intro_host d,
    ri_intro_port = hd_intro_port d, ri_intro_node_id = i \<rparr>)"
  using assms by (simp add: resolve_hs_descriptor_def decode_intro_pub_def node_id_or_zero_def hex_facts to_array_def)

subsection \<open>Publishing and finding a service\<close>

definition hosts :: "prims \<Rightarrow> 'v hs_node \<Rightarrow> hidden_service \<Rightarrow> bool" where
  "hosts P n s \<longleftrightarrow> hm_get (hn_services n) (sv_hs_id s) = Some s \<and> sv_hs_id s = identity_hs_id P (sv_identity s)"

lemma hostsD:
  assumes "hosts P n s"
  shows "hm_get (hn_services n) (sv_hs_id s) = Some s" "sv_hs_id s = identity_hs_id P (sv_identity s)"
  using assms unfolding hosts_def by blast+

text \<open>The messages a step added.\<close>

definition hs_sends :: "'v hs_node \<Rightarrow> 'v hs_node \<Rightarrow> bytes \<Rightarrow> 'v hs_msg \<Rightarrow> bool" where
  "hs_sends n n' p msg \<longleftrightarrow> (\<exists>new. hn_out n' = hn_out n @ new \<and> (p, msg) \<in> set new)"

lemma broadcast_sends:
  assumes "broadcast_hs P C to_value t d identity n = Returns n'" "hs_sends n n' p (MsgHsRegister sd)"
  shows "sign_descriptor P C identity d (ck_epoch t) = Returns sd"
proof -
  obtain new where new: "hn_out n' = hn_out n @ new" "(p, MsgHsRegister sd) \<in> set new"
    using assms(2) unfolding hs_sends_def by blast
  show ?thesis using assms(1) new
    by (auto simp: broadcast_hs_def Let_def hs_send_def split: outcome.splits option.splits)
qed

lemma republish_sends:
  assumes "hosts P n s" "republish_hs P C ser to_value t rnd (sv_hs_id s) n = Returns n'" "hs_sends n n' p (MsgHsRegister sd)"
  obtains d where "republish_descriptor P ser rnd s n = Some d" "sign_descriptor P C (sv_identity s) d (ck_epoch t) = Returns sd"
proof (cases "republish_descriptor P ser rnd s n")
  note h = hostsD(1) [OF assms(1)]
  case None
  then have "n' = n" using assms(2) unfolding republish_hs_def h by simp
  then show ?thesis using assms(3) by (simp add: hs_sends_def)
next
  note h = hostsD(1) [OF assms(1)]
  case (Some d)
  then have "broadcast_hs P C to_value t d (sv_identity s) n = Returns n'" using assms(2) unfolding republish_hs_def h by simp
  from broadcast_sends [OF this assms(3)] Some show ?thesis by (rule that [rotated])
qed

lemma lookup_answer:
  assumes "handle_hs_lookup P to_value from_value ch t src req_id hs_id n = Returns n'"
    and "get_hs from_value hs_id (ck_dht t) (hn_dht n) = d"
  shows "\<exists>puzzle. hs_sends n n' src (MsgHsFound req_id hs_id d puzzle)"
  using assms by (auto simp: handle_hs_lookup_def hs_sends_def hs_send_def Let_def split: if_splits option.splits prod.splits)

lemma found_resolves:
  assumes "handle_hs_found to_value t req_id hs_id (Some d) n = Returns n'" "req_id \<in> set (hn_waiters n)"
  shows "fst (lookup_finish from_value t' req_id hs_id' n') = Some d"
  using assms by (auto simp: handle_hs_found_def lookup_finish_def Let_def split: if_splits)

lemma lookup_waits:
  assumes "lookup_start P C from_value t req_id hs_id n = (None, n')"
  shows "req_id \<in> set (hn_waiters n')"
  using assms by (auto simp: lookup_start_def Let_def hs_send_def split: option.splits if_splits)

lemma register_stores:
  assumes "verify_descriptor P C (ck_epoch t) d = Inr ()" "fst (mark io enc (ck_unix t) (ck_unix t) (''hs:'' @ hd_hs_id d) (hn_replay n))"
    and "\<forall>d. from_value (to_value d) = Some d" "ck_dht t' - ck_dht t < DHT_VALUE_TTL"
  shows "get_hs from_value (hd_hs_id d) (ck_dht t') (hn_dht (handle_hs_register P C io enc to_value t d n)) = Some d"
proof -
  obtain cache where "mark io enc (ck_unix t) (ck_unix t) (''hs:'' @ hd_hs_id d) (hn_replay n) = (True, cache)"
    using assms(2) by (cases "mark io enc (ck_unix t) (ck_unix t) (''hs:'' @ hd_hs_id d) (hn_replay n)") auto
  then show ?thesis using assms(1,3,4) by (simp add: handle_hs_register_def Let_def get_hs_def put_hs_def store_get_put)
qed

text \<open>C30: A public service is found where it is. When a node republishes one of its public services, a directory that
  stores the descriptor it is sent, and has not stored one of the service before, answers a lookup with it, and the
  client that asked resolves that answer to the static key, the node id and the endpoint of the hosting node.
\<close>

theorem published_service_found:
  assumes "hex_ok P" "curve_ok P C" "\<forall>d. from_value (to_value d) = Some d"
    and "hosts P n s" "sv_endpoint s = Some (host, port)" "host \<noteq> []" "port \<noteq> 0"
    and "list_authorized_clients (hn_site_root n) (sv_hs_id s) (hn_files n) = []"
    and "length (hn_static_pub n) = 32" "length (hn_node_id n) = 32"
    and "republish_hs P C ser to_value t rnd (sv_hs_id s) n = Returns n1" "hs_sends n n1 dir (MsgHsRegister d)"
    and "\<forall>e \<in> {ck_epoch t1, ck_epoch t4}. sat_sub e 1 \<le> ck_epoch t \<and> ck_epoch t \<le> e + 1"
    and "fst (mark io enc (ck_unix t1) (ck_unix t1) (''hs:'' @ sv_hs_id s) (hn_replay m))"
    and "m1 = handle_hs_register P C io enc to_value t1 d m" "ck_dht t2 - ck_dht t1 < DHT_VALUE_TTL"
    and "handle_hs_lookup P to_value from_value ch t2 client req_id (sv_hs_id s) m1 = Returns m2"
    and "req_id \<in> set (hn_waiters c)" "handle_hs_found to_value t3 req_id (sv_hs_id s) (Some d) c = Returns c1"
  shows "(\<exists>puzzle. hs_sends m1 m2 client (MsgHsFound req_id (sv_hs_id s) (Some d) puzzle))
    \<and> fst (lookup_finish from_value t4 req_id (sv_hs_id s) c1) = Some d
    \<and> resolve_hs_descriptor P C de (ck_epoch t4) d secrets = Inr (Some \<lparr> ri_intro_pub = hn_static_pub n,
        ri_intro_host = Some host, ri_intro_port = Some port, ri_intro_node_id = hn_node_id n \<rparr>)"
proof -
  obtain d0 where d0: "republish_descriptor P ser rnd s n = Some d0" "sign_descriptor P C (sv_identity s) d0 (ck_epoch t) = Returns d"
    by (rule republish_sends [OF assms(4,11,12)])
  have f: "hd_hs_id d0 = sv_hs_id s" "hd_intro_pub d0 = p_hex_encode P (hn_static_pub n)" "hd_intro_host d0 = Some host"
      "hd_intro_port d0 = Some port" "hd_intro_node_id d0 = p_hex_encode P (hn_node_id n)" "hd_client_auth d0 = None"
    using d0(1) assms(5-8) by (auto simp: republish_descriptor_def service_descriptor_def)
  note g = sign_descriptor_fields [OF d0(2), unfolded f]
  have ne: "p_hex_encode P (hn_static_pub n) \<noteq> []" using assms(9) by (auto simp: hex_facts(3) [OF assms(1)])
  have own: "hd_hs_id d0 = identity_hs_id P (sv_identity s)" unfolding f(1) by (rule hostsD(2) [OF assms(4)])
  have "check_auth d0 = Inr ()" using f(2,6) ne by (simp add: check_auth_def)
  from sign_then_verify [OF assms(1,2) own this _ _ d0(2)] assms(13)
  have v: "verify_descriptor P C (ck_epoch t1) d = Inr ()" "verify_descriptor P C (ck_epoch t4) d = Inr ()" by simp_all
  have mk: "fst (mark io enc (ck_unix t1) (ck_unix t1) (''hs:'' @ hd_hs_id d) (hn_replay m))" using assms(14) unfolding g(1) .
  have "get_hs from_value (sv_hs_id s) (ck_dht t2) (hn_dht m1) = Some d"
    using register_stores [OF v(1) mk assms(3,16)] unfolding g(1) assms(15) .
  from lookup_answer [OF assms(17) this]
  have "\<exists>puzzle. hs_sends m1 m2 client (MsgHsFound req_id (sv_hs_id s) (Some d) puzzle)" .
  moreover have "resolve_hs_descriptor P C de (ck_epoch t4) d secrets = Inr (Some \<lparr> ri_intro_pub = hn_static_pub n,
        ri_intro_host = Some host, ri_intro_port = Some port, ri_intro_node_id = hn_node_id n \<rparr>)"
    using resolve_public [OF assms(1) v(2) g(6) g(2) assms(9) g(5) assms(10)] g(3,4) by simp
  ultimately show ?thesis using found_resolves [OF assms(19,18)] by blast
qed

text \<open>C33: A republished restricted service is lost: whatever a node republishes for a service with authorised clients is
  refused by every node at any time, because republishing sets the introduction key that a restricted descriptor must
  leave empty; no directory stores it and no client resolves it.
\<close>

theorem republished_restricted_rejected:
  assumes "hex_ok P" "hn_static_pub n \<noteq> []" "hosts P n s"
    and "list_authorized_clients (hn_site_root n) (sv_hs_id s) (hn_files n) \<noteq> []"
    and "republish_hs P C ser to_value t rnd (sv_hs_id s) n = Returns n'" "hs_sends n n' dir (MsgHsRegister d)"
  shows "handle_hs_register P C io enc to_value t' d m = m \<and> (\<exists>e. resolve_hs_descriptor P C de now d secrets = Inl e)"
proof -
  obtain d0 where d0: "republish_descriptor P ser rnd s n = Some d0" "sign_descriptor P C (sv_identity s) d0 (ck_epoch t) = Returns d"
    by (rule republish_sends [OF assms(3,5,6)])
  note g = sign_descriptor_fields [OF d0(2)]
  obtain block where "hd_client_auth d0 = Some block" "hd_intro_pub d0 = p_hex_encode P (hn_static_pub n)"
    using d0(1) assms(4)
    by (auto simp: republish_descriptor_def descriptor_with_client_auth_def Let_def and_then_Inr_iff
        split: option.splits prod.splits sum.splits if_splits)
  then have "\<exists>e. check_auth d = Inl e"
    using g hex_facts(3) [OF assms(1)] assms(2) by (simp add: check_auth_def)
  then have "verify_descriptor P C now d \<noteq> Inr ()" for now using verified_auth [of P C now d] by auto
  then have "\<exists>e. verify_descriptor P C now d = Inl e" for now by (cases "verify_descriptor P C now d") auto
  then obtain e e' where "verify_descriptor P C now d = Inl e" "verify_descriptor P C (ck_epoch t') d = Inl e'" by blast
  then show ?thesis by (simp add: handle_hs_register_def resolve_hs_descriptor_def)
qed

subsection \<open>Restricted services\<close>

lemma check_entries_wrapped:
  assumes "hex_ok P" "dh_ok P" "aead_ok P" "length key_k = 32"
  shows "check_entries (map (\<lambda>(e, pub). wrap_key_for_client P e key_k pub) xs) = Inr ()"
  using assms by (induction xs) (auto simp: wrap_key_for_client_def Let_def hex_ok_def dh_ok_def aead_ok_def)

lemma encrypt_blocks:
  assumes "encrypt_intro_for_clients P ser key_k nonce ephs intro pubs = Inr block"
  shows "cb_clients block = map (\<lambda>(e, pub). wrap_key_for_client P e key_k pub) (zip ephs pubs)" "pubs \<noteq> []"
  using assms by (auto simp: encrypt_intro_for_clients_def split: if_splits option.splits)

text \<open>C31: An authorised client of a restricted service finds its introduction key. The descriptor the service signs for a
  list of clients verifies in its epoch and the neighbouring ones, has no introduction point in the clear, and is
  resolved under the secret of any of the clients to the introduction key and the endpoint that the service encrypted
  - but to the node id zero, which the code that then builds the circuit refuses.
\<close>

theorem authorised_client_resolves:
  assumes "hex_ok P" "dh_ok P" "aead_ok P" "curve_ok P C" "intro_json ser de"
    and "sv_hs_id s = identity_hs_id P (sv_identity s)" "length (sv_intro_pub s) = 32"
    and "descriptor_with_client_auth P ser (key_k, nonce, ephs) host port pubs s = Inr d0"
    and "length key_k = 32" "length nonce = 12" "length ephs = length pubs" "p_x25519_pub P sec \<in> set pubs"
    and "\<forall>block. hd_client_auth d0 = Some block \<longrightarrow> entries_separate P sec (cb_clients block) key_k"
    and "sign_descriptor P C (sv_identity s) d0 epoch = Returns d" "sat_sub now 1 \<le> epoch" "epoch \<le> now + 1"
  shows "resolve_hs_descriptor P C de now d [sec] = Inr (Some \<lparr> ri_intro_pub = sv_intro_pub s, ri_intro_host = host,
      ri_intro_port = port, ri_intro_node_id = replicate 32 0 \<rparr>)
    \<and> hd_intro_pub d = [] \<and> hd_intro_host d = None \<and> hd_intro_port d = None \<and> hd_intro_node_id d = []"
proof -
  let ?intro = "\<lparr> is_intro_pub = p_hex_encode P (sv_intro_pub s), is_intro_host = host, is_intro_port = port, is_intro_node_id = [] \<rparr>"
  obtain block where block: "encrypt_intro_for_clients P ser key_k nonce ephs ?intro pubs = Inr block"
      "d0 = \<lparr> hd_hs_id = sv_hs_id s, hd_name = sv_name s, hd_intro_pub = [], hd_intro_host = None, hd_intro_port = None,
              hd_intro_node_id = [], hd_identity_pub = [], hd_epoch = 0, hd_sig = [], hd_blinded_pub = [],
              hd_client_auth = Some block \<rparr>"
    using assms(8) by (auto simp: descriptor_with_client_auth_def Let_def and_then_Inr_iff)
  note e = encrypt_blocks [OF block(1)]
  have "cb_clients block \<noteq> []" unfolding e(1) using e(2) assms(11) by (cases pubs; cases ephs) auto
  then have "check_auth d0 = Inr ()"
    using check_entries_wrapped [OF assms(1-3,9)] by (simp add: block(2) check_auth_def e(1))
  moreover have own: "hd_hs_id d0 = identity_hs_id P (sv_identity s)" by (simp only: block(2) hs_descriptor.simps assms(6))
  ultimately have v: "verify_descriptor P C now d = Inr ()"
    by (intro sign_then_verify [OF assms(1,4) _ _ assms(15,16,14)])
  have "hd_client_auth d0 = Some block" by (simp add: block(2))
  then have "entries_separate P sec (cb_clients block) key_k" using assms(13) by blast
  from decrypt_own [OF assms(1,2,3,5) block(1) assms(9-12) this]
  have dec: "decrypt_intro_with_client_secret P de block sec = Inr (Some ?intro)" .
  have "p_hex_encode P [] = []" using hex_facts(3) [OF assms(1)] by simp
  then have "p_hex_decode P [] = Some []" using hex_facts(1) [OF assms(1), of "[]"] by simp
  then have "node_id_or_zero P [] = replicate 32 0" by (simp add: node_id_or_zero_def hex_array_def to_array_def)
  then show ?thesis
    using sign_descriptor_fields [OF assms(14)] dec v assms(7)
    by (simp add: block(2) resolve_hs_descriptor_def decode_intro_pub_def hex_facts [OF assms(1)] to_array_def)
qed

subsection \<open>Refreshed descriptors\<close>

lemma append_to_log_entries [simp]: "rp_entries (append_to_log io enc e c) = rp_entries c"
  by (simp add: append_to_log_def split: option.splits)

lemma mark_new_entry:
  assumes "fst (mark io enc now0 now i c)"
  shows "hm_get (rp_entries (snd (mark io enc now0 now i c))) i = Some (sat_add now0 (rp_default_ttl c))"
  using assms by (auto simp: mark_def mark_with_ttl_def Let_def update_conv' split: option.splits if_splits)

lemma mark_seen_entry:
  assumes "hm_get (rp_entries c) i = Some e" "now < e" "length (rp_entries c) < REPLAY_MAX_ENTRIES"
  shows "mark io enc now0 now i c = (False, c)"
  using assms by (simp add: mark_def mark_with_ttl_def make_room_def Let_def)

lemma refresh_ignored:
  assumes "hm_get (rp_entries (hn_replay n)) (''hs:'' @ hd_hs_id d) = Some e" "ck_unix t < e"
    and "length (rp_entries (hn_replay n)) < REPLAY_MAX_ENTRIES"
  shows "handle_hs_register P C io enc to_value t d n = n"
  using mark_seen_entry [OF assms] by (simp add: handle_hs_register_def Let_def split: sum.splits)

text \<open>A service that keeps refreshing its descriptor disappears. Once a directory has stored a descriptor, it refuses
  every later one of the same service for the lifetime of its replay cache (24 hours), however well signed, and an hour
  after the first one it has none: the stored value has expired, and the lookup of the service finds nothing.
\<close>

theorem refreshed_descriptor_refused:
  assumes "verify_descriptor P C (ck_epoch t) d = Inr ()"
    and "fst (mark io enc (ck_unix t) (ck_unix t) (''hs:'' @ hd_hs_id d) (hn_replay m))"
    and "m1 = handle_hs_register P C io enc to_value t d m" "length (rp_entries (hn_replay m1)) < REPLAY_MAX_ENTRIES"
    and "\<forall>(t', d') \<in> set refreshes. hd_hs_id d' = hd_hs_id d \<and> ck_unix t' < sat_add (ck_unix t) (rp_default_ttl (hn_replay m))"
    and "ck_dht t + DHT_VALUE_TTL \<le> ck_dht t2"
  shows "get_hs from_value (hd_hs_id d) (ck_dht t2)
    (hn_dht (fold (\<lambda>(t', d'). handle_hs_register P C io enc to_value t' d') refreshes m1)) = None"
proof -
  let ?i = "''hs:'' @ hd_hs_id d"
  obtain cache where c: "mark io enc (ck_unix t) (ck_unix t) ?i (hn_replay m) = (True, cache)"
    using assms(2) by (cases "mark io enc (ck_unix t) (ck_unix t) ?i (hn_replay m)") auto
  have m1: "m1 = m\<lparr>hn_replay := cache, hn_dht := put_hs to_value (hd_hs_id d) d (ck_dht t) (hn_dht m)\<rparr>"
    using assms(1,3) c by (simp add: handle_hs_register_def Let_def)
  have e: "hm_get (rp_entries (hn_replay m1)) ?i = Some (sat_add (ck_unix t) (rp_default_ttl (hn_replay m)))"
    using mark_new_entry [OF assms(2)] unfolding c m1 by simp
  have "fold (\<lambda>(t', d'). handle_hs_register P C io enc to_value t' d') refreshes m1 = m1"
    using assms(5)
  proof (induction refreshes)
    case (Cons r rs)
    obtain t' d' where r: "r = (t', d')" by (cases r)
    have "handle_hs_register P C io enc to_value t' d' m1 = m1"
      by (rule refresh_ignored [OF _ _ assms(4)]) (use Cons.prems e r in auto)
    then show ?case using Cons r by simp
  qed simp
  moreover have "\<not> ck_dht t2 - ck_dht t < DHT_VALUE_TTL" using assms(6) by simp
  ultimately show ?thesis by (simp add: m1 get_hs_def put_hs_def store_get_put)
qed

subsection \<open>Answers about another service\<close>

text \<open>C32: A lookup accepts the descriptor of another service. A client that asks for one service and is answered with the
  signed descriptor of any other takes it for the answer and resolves it without an error to the introduction point
  of that other service: neither the handler, nor the lookup, nor the resolution compares the id of the descriptor
  with the id that was asked for.
\<close>

theorem lookup_accepts_other_service:
  assumes "hex_ok P" "curve_ok P C" "hd_hs_id d0 = identity_hs_id P other" "hd_client_auth d0 = None"
    and "hd_intro_pub d0 = p_hex_encode P pub" "length pub = 32" "hd_intro_node_id d0 = p_hex_encode P i" "length i = 32"
    and "sign_descriptor P C other d0 (ck_epoch t) = Returns d" "sat_sub now 1 \<le> ck_epoch t" "ck_epoch t \<le> now + 1"
    and "lookup_start P C from_value t req_id asked c = (None, c1)"
    and "handle_hs_found to_value t2 req_id asked (Some d) c1 = Returns c2"
  shows "fst (lookup_finish from_value t3 req_id asked c2) = Some d \<and> hd_hs_id d = identity_hs_id P other
    \<and> resolve_hs_descriptor P C de now d [] = Inr (Some \<lparr> ri_intro_pub = pub, ri_intro_host = hd_intro_host d0,
        ri_intro_port = hd_intro_port d0, ri_intro_node_id = i \<rparr>)"
proof -
  note g = sign_descriptor_fields [OF assms(9)]
  have "p_hex_encode P pub \<noteq> []" using assms(6) by (auto simp: hex_facts(3) [OF assms(1)])
  then have "check_auth d0 = Inr ()" using assms(4,5) by (simp add: check_auth_def)
  from sign_then_verify [OF assms(1-3) this assms(10,11,9)]
  have v: "verify_descriptor P C now d = Inr ()" .
  have "resolve_hs_descriptor P C de now d [] = Inr (Some \<lparr> ri_intro_pub = pub, ri_intro_host = hd_intro_host d,
        ri_intro_port = hd_intro_port d, ri_intro_node_id = i \<rparr>)"
    by (rule resolve_public [OF assms(1) v]) (use g assms(4-8) in simp_all)
  then show ?thesis
    using found_resolves [OF assms(13) lookup_waits [OF assms(12)]] g(1,3,4) assms(3) by simp
qed

text \<open>A stored value replaces a verified descriptor: the key of a descriptor is a key of the plain store.\<close>

lemma stored_value_replaces_descriptor:
  assumes "fst (mark io enc (ck_unix t) (ck_unix t) (''dht:'' @ p_hex_encode P (ascii (''hs:'' @ hs_id))) (hn_replay m))"
    and "ck_dht t' - ck_dht t < DHT_VALUE_TTL"
  shows "get_hs from_value hs_id (ck_dht t') (hn_dht (handle_dht_store P io enc t (''hs:'' @ hs_id) v m)) = from_value v"
proof -
  obtain cache where "mark io enc (ck_unix t) (ck_unix t) (''dht:'' @ p_hex_encode P (ascii (''hs:'' @ hs_id))) (hn_replay m) = (True, cache)"
    using assms(1) by (cases "mark io enc (ck_unix t) (ck_unix t) (''dht:'' @ p_hex_encode P (ascii (''hs:'' @ hs_id))) (hn_replay m)") auto
  then show ?thesis using assms(2) by (simp add: handle_dht_store_def Let_def get_hs_def store_get_put)
qed

subsection \<open>Registering again\<close>

text \<open>A service registered under a name keeps its identity over restarts while its file can be written.\<close>

theorem service_identity_persists:
  assumes "hex_ok P" "\<forall>h json. ser h = Some json \<longrightarrow> de json = Some h" "length fresh = 32"
    and "register_identity P io ser de fresh None = (identity, Some content)"
  shows "identity = fresh \<and> register_identity P io' ser de fresh' (Some content) = (identity, Some content)"
proof -
  have s: "identity_save P io ser fresh = Inr content" "identity = fresh"
    using assms(4) by (auto simp: register_identity_def split: sum.splits)
  from identity_file_roundtrip [OF assms(1,2) s(1) assms(3)] s(2) show ?thesis
    by (simp add: register_identity_def)
qed

subsection \<open>Examples\<close>

lemma hs_id_text:
  assumes "sha256_ok P" "hex_ok P" "hex_lower P"
  shows "length (identity_hs_id P seed) = 64" "set (identity_hs_id P seed) \<subseteq> set hex_digits" "log_slice_ok (identity_hs_id P seed)"
proof -
  show l: "length (identity_hs_id P seed) = 64"
    using assms(1) hex_facts(2) [OF assms(2)] by (simp add: identity_hs_id_def derive_hs_id_def sha256_ok_def)
  show h: "set (identity_hs_id P seed) \<subseteq> set hex_digits"
    using assms(3) by (simp add: identity_hs_id_def derive_hs_id_def hex_lower_def)
  have "identity_hs_id P seed ! 12 \<in> set hex_digits" using h nth_mem [of 12 "identity_hs_id P seed"] l by auto
  moreover have "\<forall>c \<in> set hex_digits. \<not> utf8_cont (of_nat (of_char c))" by (simp add: hex_digits_def utf8_cont_def)
  ultimately show "log_slice_ok (identity_hs_id P seed)"
    using l by (simp add: log_slice_ok_def is_char_boundary_def ascii_def)
qed

definition sample_service :: hidden_service where
  "sample_service = (service_from_identity toy_ed_prims [1] (replicate 16 0) [7] ''site'')\<lparr>sv_endpoint := Some (''10.0.0.1'', 80)\<rparr>"

definition sample_clocks :: clocks where
  "sample_clocks = \<lparr> ck_unix = 86400 * 20000, ck_dht = 0, ck_instant = 0 \<rparr>"

definition sample_cache :: replay_cache where
  "sample_cache = \<lparr> rp_path = None, rp_default_ttl = 86400, rp_entries = [], rp_log_open = False, rp_log_lines = 0, rp_file = None \<rparr>"

definition sample_node :: "file_system \<Rightarrow> bytes \<Rightarrow> bytes \<Rightarrow> (string, hidden_service) hmap \<Rightarrow> hs_descriptor hs_node" where
  "sample_node fs i peer services = \<lparr> hn_node_id = i, hn_static_pub = i, hn_services = services, hn_dht = [],
     hn_replay = sample_cache, hn_peers = [peer], hn_consensus = None, hn_waiters = [], hn_resolved = [],
     hn_site_root = ''/srv'', hn_files = fs, hn_out = [] \<rparr>"

lemma sample_service_id: "sv_hs_id sample_service = identity_hs_id toy_ed_prims [7]" "sv_identity sample_service = [7]"
    "sv_endpoint sample_service = Some (''10.0.0.1'', 80)"
  by (simp_all add: sample_service_def service_from_identity_def)

lemma sample_hosts: "hosts toy_ed_prims (sample_node fs i peer [(sv_hs_id sample_service, sample_service)]) sample_service"
  by (simp only: hosts_def sample_node_def hs_node.simps map_of.simps fst_conv snd_conv fun_upd_same sample_service_id simp_thms)

lemma broadcast_returns:
  assumes "curve_ok P C" "hn_consensus n = None"
  obtains sd n' where "sign_descriptor P C identity d (ck_epoch t) = Returns sd" "broadcast_hs P C to_value t d identity n = Returns n'"
    "\<forall>p \<in> set (hn_peers n). hs_sends n n' p (MsgHsRegister sd)"
proof -
  obtain sd where sd: "sign_descriptor P C identity d (ck_epoch t) = Returns sd" using sign_own_returns [OF assms(1)] by blast
  show ?thesis
    by (rule that [OF sd]) (use assms(2) sd in
      \<open>auto simp: broadcast_hs_def Let_def hs_send_def hs_sends_def hs_targets_def responsible_hsdirs_for_def split: option.splits\<close>)
qed

lemma sample_mark: "fst (mark io enc now now i sample_cache)"
  by (simp add: mark_def mark_with_ttl_def make_room_def sample_cache_def REPLAY_MAX_ENTRIES_def Let_def)

lemma lookup_returns: "log_slice_ok i \<Longrightarrow> \<exists>n'. handle_hs_lookup P to_value from_value ch t src req_id i n = Returns n'"
  by (auto simp: handle_hs_lookup_def Let_def split: option.splits prod.splits)

lemma found_returns: "log_slice_ok i \<Longrightarrow> \<exists>n'. handle_hs_found to_value t req_id i (Some d) n = Returns n'"
  by (simp add: handle_hs_found_def Let_def)

definition no_files :: file_system where
  "no_files = \<lparr> fs_dirs = [], fs_files = [] \<rparr>"

lemma no_clients: "list_authorized_clients r i no_files = []"
  by (simp add: list_authorized_clients_def fs_read_def no_files_def bind_eq_None_conv split: option.splits)

theorem published_service_found_witness:
  "\<exists>d. resolve_hs_descriptor toy_ed_prims toy_curve (\<lambda>_. None) 20000 d [] = Inr (Some \<lparr> ri_intro_pub = replicate 32 1,
     ri_intro_host = Some ''10.0.0.1'', ri_intro_port = Some 80, ri_intro_node_id = replicate 32 1 \<rparr>)"
proof -
  let ?s = sample_service and ?t = sample_clocks and ?io = "\<lambda>_. True" and ?enc = "\<lambda>_. None"
  let ?n = "sample_node no_files (replicate 32 1) [2] [(sv_hs_id ?s, ?s)]" and ?m = "sample_node no_files (replicate 32 2) [3] []"
  let ?c = "(sample_node no_files (replicate 32 3) [2] [])\<lparr>hn_waiters := [''r'']\<rparr>"
  have n: "hn_consensus ?n = None" "hn_peers ?n = [[2]]" "hn_static_pub ?n = replicate 32 1" "hn_node_id ?n = replicate 32 1"
      "hn_files ?n = no_files" "hn_replay ?m = sample_cache" "''r'' \<in> set (hn_waiters ?c)"
    by (simp_all add: sample_node_def)
  define d0 where "d0 = (service_descriptor toy_ed_prims (Some ''10.0.0.1'') (Some 80) ?s)
    \<lparr>hd_intro_pub := p_hex_encode toy_ed_prims (replicate 32 1), hd_intro_node_id := p_hex_encode toy_ed_prims (replicate 32 1)\<rparr>"
  have rd: "republish_descriptor toy_ed_prims (\<lambda>_. None) ([], [], []) ?s ?n = Some d0"
    unfolding republish_descriptor_def sample_service_id(3) n by (simp add: no_clients d0_def)
  obtain d n1 where d: "broadcast_hs toy_ed_prims toy_curve id ?t d0 (sv_identity ?s) ?n = Returns n1"
      "\<forall>p \<in> set (hn_peers ?n). hs_sends ?n n1 p (MsgHsRegister d)"
    by (rule broadcast_returns [OF toy_curve_ok n(1)])
  have rep: "republish_hs toy_ed_prims toy_curve (\<lambda>_. None) id ?t ([], [], []) (sv_hs_id ?s) ?n = Returns n1"
    unfolding republish_hs_def hostsD(1) [OF sample_hosts] using rd d(1) by simp
  define m1 where "m1 = handle_hs_register toy_ed_prims toy_curve ?io ?enc id ?t d ?m"
  have ok: "log_slice_ok (sv_hs_id ?s)" unfolding sample_service_id by (rule hs_id_text) simp_all
  obtain m2 where m2: "handle_hs_lookup toy_ed_prims id Some [] ?t [3] ''r'' (sv_hs_id ?s) m1 = Returns m2"
    using lookup_returns [OF ok] by blast
  obtain c1 where c1: "handle_hs_found id ?t ''r'' (sv_hs_id ?s) (Some d) ?c = Returns c1" using found_returns [OF ok] by blast
  have send: "hs_sends ?n n1 [2] (MsgHsRegister d)" using d(2) n(2) by simp
  have mk: "fst (mark ?io ?enc (ck_unix ?t) (ck_unix ?t) (''hs:'' @ sv_hs_id ?s) (hn_replay ?m))" unfolding n by (rule sample_mark)
  have ep: "\<forall>e \<in> {ck_epoch ?t, ck_epoch ?t}. sat_sub e 1 \<le> ck_epoch ?t \<and> ck_epoch ?t \<le> e + 1"
    by (simp add: ck_epoch_def sample_clocks_def hs_current_epoch_def EPOCH_DAY_SECS_def sat_sub_def)
  have e: "ck_epoch ?t = 20000" by (simp add: ck_epoch_def sample_clocks_def hs_current_epoch_def EPOCH_DAY_SECS_def)
  have "resolve_hs_descriptor toy_ed_prims toy_curve (\<lambda>_. None) (ck_epoch ?t) d [] = Inr (Some \<lparr> ri_intro_pub = hn_static_pub ?n,
     ri_intro_host = Some ''10.0.0.1'', ri_intro_port = Some 80, ri_intro_node_id = hn_node_id ?n \<rparr>)"
    using published_service_found [OF _ toy_curve_ok _ sample_hosts sample_service_id(3) _ _ _ _ _ rep send ep mk m1_def _ m2 n(7) c1]
    by (simp add: n no_clients)
  then show ?thesis unfolding n e by blast
qed

definition client_file :: file_system where
  "client_file = \<lparr> fs_dirs = [[''srv''], [''srv'', sv_hs_id sample_service]],
     fs_files = [([''srv'', sv_hs_id sample_service, ''authorized_clients.txt''], ascii (replicate 64 CHR ''a'' @ [newline]))] \<rparr>"

lemma client_file_list: "list_authorized_clients ''/srv'' (sv_hs_id sample_service) client_file = [replicate 64 CHR ''a'']"
proof -
  let ?i = "sv_hs_id sample_service"
  have h: "length ?i = 64" "set ?i \<subseteq> set hex_digits" unfolding sample_service_id by (rule hs_id_text; simp)+
  have "CHR ''/'' \<notin> set hex_digits" "CHR ''.'' \<notin> set hex_digits" by (simp_all add: hex_digits_def)
  then have "CHR ''/'' \<notin> set ?i" "?i \<noteq> ''.''" "?i \<noteq> ''..''" using h by auto
  then have i: "plain ?i" "walks ?i" using h(1) by (auto simp: plain_def walks_def)
  have srv: "walks ''srv''" "walks ''authorized_clients.txt''" by (simp_all add: walks_def plain_def)
  have site: "site_dir (path_of [''srv'']) ?i = path_of ([''srv''] @ [?i])"
    by (rule www_dir_path(2)) (use i walks_plain [OF srv(1)] in simp_all)
  have "path_join (path_of [''srv'', ?i]) ''authorized_clients.txt'' = path_of ([''srv'', ?i] @ [''authorized_clients.txt''])"
    by (rule path_join_plain) (use i walks_plain [OF srv(1)] walks_plain [OF srv(2)] in simp_all)
  then have p: "clients_path ''/srv'' ?i = path_of [''srv'', ?i, ''authorized_clients.txt'']"
    using site by (simp add: clients_path_def)
  have nil: "dirs_along fs a []" for fs a by (simp add: dirs_along_def)
  have "fs_resolve client_file (path_of [''srv'', ?i, ''authorized_clients.txt'']) = fs_walk client_file [] [''srv'', ?i, ''authorized_clients.txt'']"
    by (rule fs_resolve_path_of) (use i walks_plain [OF srv(1)] walks_plain [OF srv(2)] in simp)
  also have "\<dots> = Some ([] @ [''srv'', ?i, ''authorized_clients.txt''])"
    by (rule fs_walk_file) (use i srv nil in \<open>simp_all add: dirs_along_Cons client_file_def\<close>)
  finally have "fs_read client_file (clients_path ''/srv'' ?i) = Some (ascii (replicate 64 CHR ''a'' @ [newline]))"
    unfolding p by (simp add: fs_read_def client_file_def)
  moreover have "utf8_valid (ascii (replicate 64 CHR ''a'' @ [newline]))" by code_simp
  moreover have "client_lines (replicate 64 CHR ''a'' @ [newline]) = [replicate 64 CHR ''a'']" by code_simp
  ultimately show ?thesis by (simp only: list_authorized_clients_def option.case if_True text_of_ascii)
qed

theorem republished_restricted_rejected_witness:
  "\<exists>n' d. republish_hs toy_ed_prims toy_curve (\<lambda>_. Some []) id sample_clocks ([], [], []) (sv_hs_id sample_service)
      (sample_node client_file (replicate 32 1) [2] [(sv_hs_id sample_service, sample_service)]) = Returns n'
    \<and> (\<exists>e. resolve_hs_descriptor toy_ed_prims toy_curve (\<lambda>_. None) 20000 d [] = Inl e)"
proof -
  let ?s = sample_service and ?t = sample_clocks
  let ?n = "sample_node client_file (replicate 32 1) [2] [(sv_hs_id ?s, ?s)]"
  have n: "hn_consensus ?n = None" "hn_peers ?n = [[2]]" "hn_static_pub ?n = replicate 32 1" "hn_files ?n = client_file" "hn_site_root ?n = ''/srv''"
    by (simp_all add: sample_node_def)
  obtain pubs where pubs: "decode_clients toy_ed_prims [replicate 64 CHR ''a''] = Some pubs" "pubs \<noteq> []"
  proof -
    have "p_hex_decode toy_ed_prims = toy_hex_decode" by (simp add: toy_ed_prims_def toy_prims_def)
    moreover have "Option.bind (toy_hex_decode (replicate 64 CHR ''a'')) (to_array 32) = Some (replicate 32 0xAA)" by code_simp
    ultimately have "hex_array toy_ed_prims 32 (replicate 64 CHR ''a'') = Some (replicate 32 0xAA)" by (simp only: hex_array_def)
    then show ?thesis using that [of "[replicate 32 0xAA]"] by (simp only: decode_clients.simps option.case option.map) blast
  qed
  have "\<exists>d0. republish_descriptor toy_ed_prims (\<lambda>_. Some []) ([], [], []) ?s ?n = Some d0"
    unfolding republish_descriptor_def sample_service_id(3) n client_file_list
    using pubs by (simp add: descriptor_with_client_auth_def encrypt_intro_for_clients_def)
  then obtain d0 where d0: "republish_descriptor toy_ed_prims (\<lambda>_. Some []) ([], [], []) ?s ?n = Some d0" by blast
  obtain d n1 where d: "broadcast_hs toy_ed_prims toy_curve id ?t d0 (sv_identity ?s) ?n = Returns n1"
      "\<forall>p \<in> set (hn_peers ?n). hs_sends ?n n1 p (MsgHsRegister d)"
    by (rule broadcast_returns [OF toy_curve_ok n(1)])
  have rep: "republish_hs toy_ed_prims toy_curve (\<lambda>_. Some []) id ?t ([], [], []) (sv_hs_id ?s) ?n = Returns n1"
    unfolding republish_hs_def hostsD(1) [OF sample_hosts] using d0 d(1) by simp
  have send: "hs_sends ?n n1 [2] (MsgHsRegister d)" using d(2) n(2) by simp
  show ?thesis
    using republished_restricted_rejected [OF _ _ sample_hosts _ rep send] rep by (simp add: n client_file_list) blast
qed

theorem authorised_client_resolves_witness:
  "\<exists>d de. resolve_hs_descriptor toy_ed_prims toy_curve de 20000 d [[5]] = Inr (Some \<lparr> ri_intro_pub = sv_intro_pub sample_service,
     ri_intro_host = Some ''10.0.0.1'', ri_intro_port = Some 80, ri_intro_node_id = replicate 32 0 \<rparr>)"
proof -
  let ?P = toy_ed_prims and ?s = sample_service and ?k = "replicate 32 1 :: bytes"
  let ?intro = "\<lparr> is_intro_pub = p_hex_encode ?P (sv_intro_pub ?s), is_intro_host = Some ''10.0.0.1'', is_intro_port = Some 80,
                 is_intro_node_id = [] \<rparr>"
  define ser :: intro_encoder where "ser = (\<lambda>i. if i = ?intro then Some [] else None)"
  define de :: intro_decoder where "de = (\<lambda>_. Some ?intro)"
  have js: "intro_json ser de" by (simp add: intro_json_def ser_def de_def)
  obtain d0 where d0: "descriptor_with_client_auth ?P ser (?k, replicate 12 2, [[9]]) (Some ''10.0.0.1'') (Some 80) [p_x25519_pub ?P [5]] ?s = Inr d0"
    by (simp add: descriptor_with_client_auth_def encrypt_intro_for_clients_def ser_def)
  obtain d where d: "sign_descriptor ?P toy_curve (sv_identity ?s) d0 20000 = Returns d"
    using sign_own_returns [OF toy_curve_ok] by blast
  have sep: "\<forall>block. hd_client_auth d0 = Some block \<longrightarrow> entries_separate ?P [5] (cb_clients block) ?k"
    using d0 unwrap_own [of ?P ?k "[5]" "[9]"]
    by (auto simp: descriptor_with_client_auth_def encrypt_intro_for_clients_def ser_def entries_separate_def)
  have pub: "length (sv_intro_pub ?s) = 32"
    using toy_ed_laws(4) by (simp add: sample_service_def service_from_identity_def dh_ok_def)
  have sid: "sv_hs_id ?s = identity_hs_id ?P (sv_identity ?s)" by (simp only: sample_service_id)
  from authorised_client_resolves [OF _ _ _ toy_curve_ok js sid pub d0 _ _ _ _ sep d, of 20000]
  show ?thesis by (simp add: sat_sub_def) blast
qed

definition other_descriptor :: hs_descriptor where
  "other_descriptor = (service_descriptor toy_ed_prims None None sample_service)
     \<lparr>hd_intro_pub := p_hex_encode toy_ed_prims (replicate 32 1), hd_intro_node_id := p_hex_encode toy_ed_prims (replicate 32 4)\<rparr>"

lemma other_descriptor_fields:
  "hd_hs_id other_descriptor = identity_hs_id toy_ed_prims [7]" "hd_client_auth other_descriptor = None"
  "hd_intro_pub other_descriptor = p_hex_encode toy_ed_prims (replicate 32 1)"
  "hd_intro_node_id other_descriptor = p_hex_encode toy_ed_prims (replicate 32 4)"
  by (simp_all add: other_descriptor_def service_descriptor_def sample_service_id)

lemma sample_epoch: "ck_epoch sample_clocks = 20000"
  by (simp add: ck_epoch_def sample_clocks_def hs_current_epoch_def EPOCH_DAY_SECS_def)

theorem lookup_accepts_other_service_witness:
  "\<exists>d c2. fst (lookup_finish Some sample_clocks ''r'' ''another service'' c2) = Some d \<and> hd_hs_id d \<noteq> ''another service''
    \<and> (\<exists>i. resolve_hs_descriptor toy_ed_prims toy_curve (\<lambda>_. None) 20000 d [] = Inr (Some i))"
proof -
  let ?c = "sample_node no_files (replicate 32 3) [2] []" and ?t = sample_clocks
  obtain d where d: "sign_descriptor toy_ed_prims toy_curve [7] other_descriptor (ck_epoch ?t) = Returns d"
    using sign_own_returns [OF toy_curve_ok] by blast
  obtain c1 where c1: "lookup_start toy_ed_prims toy_curve Some ?t ''r'' ''another service'' ?c = (None, c1)"
    by (simp add: lookup_start_def sample_node_def get_hs_def store_get_def Let_def)
  have "log_slice_ok ''another service''" by code_simp
  then obtain c2 where c2: "handle_hs_found id ?t ''r'' ''another service'' (Some d) c1 = Returns c2" using found_returns by blast
  have ep: "sat_sub 20000 1 \<le> ck_epoch ?t" "ck_epoch ?t \<le> 20000 + 1" by (simp_all add: sample_epoch sat_sub_def)
  have "length (identity_hs_id toy_ed_prims [7]) = 64" by (rule hs_id_text) simp_all
  then have "identity_hs_id toy_ed_prims [7] \<noteq> ''another service''" by auto
  then show ?thesis
    using lookup_accepts_other_service [OF _ toy_curve_ok other_descriptor_fields(1-3) _ other_descriptor_fields(4) _ d ep c1 c2,
        of "sample_clocks" "\<lambda>_. None"]
    by (intro exI [of _ d] exI [of _ c2]) (simp del: replicate_Suc)
qed

theorem refreshed_descriptor_refused_witness:
  "\<exists>d m. get_hs Some (identity_hs_id toy_ed_prims [7]) DHT_VALUE_TTL
    (hn_dht (handle_hs_register toy_ed_prims toy_curve (\<lambda>_. True) (\<lambda>_. None) id (sample_clocks\<lparr>ck_dht := 1200000\<rparr>) d m)) = None
    \<and> get_hs Some (identity_hs_id toy_ed_prims [7]) 1200000 (hn_dht m) = Some d"
proof -
  let ?m = "sample_node no_files (replicate 32 3) [2] []" and ?t = sample_clocks and ?i = "identity_hs_id toy_ed_prims [7]"
  let ?reg = "handle_hs_register toy_ed_prims toy_curve (\<lambda>_. True) (\<lambda>_. None) id"
  let ?t' = "?t\<lparr>ck_dht := 1200000\<rparr>"
  have c: "hn_replay ?m = sample_cache" by (simp add: sample_node_def)
  obtain d where d: "sign_descriptor toy_ed_prims toy_curve [7] other_descriptor 20000 = Returns d"
    using sign_own_returns [OF toy_curve_ok] by blast
  have ne: "p_hex_encode toy_ed_prims (replicate 32 1) \<noteq> []" by (simp add: hex_facts(3) [OF toy_ed_laws(1)] del: replicate_Suc)
  then have "check_auth other_descriptor = Inr ()" by (simp add: check_auth_def other_descriptor_fields)
  from sign_then_verify [OF _ toy_curve_ok other_descriptor_fields(1) this _ _ d, of 20000]
  have v: "verify_descriptor toy_ed_prims toy_curve (ck_epoch ?t) d = Inr ()" by (simp add: sample_epoch sat_sub_def)
  have i: "hd_hs_id d = ?i" using sign_descriptor_fields(1) [OF d] other_descriptor_fields(1) by simp
  have mk: "fst (mark (\<lambda>_. True) (\<lambda>_. None) (ck_unix ?t) (ck_unix ?t) (''hs:'' @ hd_hs_id d) (hn_replay ?m))" unfolding c by (rule sample_mark)
  have small: "length (rp_entries (hn_replay (?reg ?t d ?m))) < REPLAY_MAX_ENTRIES"
    using v by (simp add: handle_hs_register_def Let_def c sample_cache_def mark_def mark_with_ttl_def make_room_def
        append_to_log_def REPLAY_MAX_ENTRIES_def)
  have late: "\<forall>(t', d') \<in> set [(?t', d)]. hd_hs_id d' = hd_hs_id d \<and> ck_unix t' < sat_add (ck_unix ?t) (rp_default_ttl (hn_replay ?m))"
    by (simp add: c sample_cache_def sample_clocks_def sat_add_def)
  have ttl: "ck_dht ?t + DHT_VALUE_TTL \<le> DHT_VALUE_TTL" by (simp add: sample_clocks_def)
  have "get_hs Some (hd_hs_id d) DHT_VALUE_TTL (hn_dht (?reg ?t' d (?reg ?t d ?m))) = None"
    using refreshed_descriptor_refused [OF v mk refl small late, of "?t\<lparr>ck_dht := DHT_VALUE_TTL\<rparr>" Some] by (simp add: sample_clocks_def)
  moreover have "get_hs Some (hd_hs_id d) (ck_dht ?t') (hn_dht (?reg ?t d ?m)) = Some d"
    by (rule register_stores [OF v mk]) (simp_all add: sample_clocks_def)
  ultimately show ?thesis unfolding i by auto
qed

end
