(* ===== verification/Handshake.thy ===== *)
theory Handshake
  imports Session Cert Dht Guards PathSelect RelayDesc RateLimits
begin

section \<open>Links between nodes\<close>

text \<open>
  How a node comes to know a peer (phinet-core/src/node.rs): the handshake of the two roles over a byte stream
  (\<open>handle_incoming\<close>, \<open>connect\<close>, \<open>probe_relay\<close>), the registration of the peer, the rotation of certificates over an
  established link, and the routing-table messages. The dialled stream, the bytes that arrive on it, clocks,
  randomness and elapsed timeouts are arguments; a write to the stream succeeds. Serialisation of messages is a
  parameter as in \<open>Session\<close>.

  Shown: two nodes that shake hands register each other under the same keys, in a state from which the link is a
  queue; what the handshake does not prove about the peer; when a rotation is accepted; and what a rotation breaks.
\<close>

subsection \<open>Messages\<close>

record handshake =
  hk_version :: u32
  hk_cert :: wire_cert
  hk_pow :: admission_pow
  hk_ephem_pub :: string
  hk_mlkem :: string
  hk_static_pub :: string
  hk_listen_port :: u16

record cert_rotation =
  cr_old_node_id :: string
  cr_new_node_id :: string
  cr_new_cert_json :: string
  cr_seq :: u64
  cr_ts :: u64
  cr_link_sig :: string

record dht_peer =
  dp_node_id :: string
  dp_host :: string
  dp_port :: u16
  dp_cert :: wire_cert
  dp_static_pub :: string

text \<open>
  The variants of \<open>Message\<close> that these handlers build or take apart; the others are \<open>LmOther\<close>. The acknowledgement
  has the fields of a handshake but the version.
\<close>

datatype link_msg =
    LmPowChallenge string u32 string
  | LmClientHello string
  | LmHandshake handshake
  | LmHandshakeAck handshake
  | LmReject string
  | LmRelayDesc relay_descriptor
  | LmDhtFind string string
  | LmDhtFound string string "dht_peer list"
  | LmCertRotate cert_rotation
  | LmOther bytes

definition PROTOCOL_VERSION :: u32 where "PROTOCOL_VERSION = 2"

subsection \<open>State\<close>

text \<open>
  A \<open>PeerConn\<close>: what is known of the peer, the session, the frames handed to the writer. The atomic counters of the
  session are part of the value.
\<close>

record link_peer =
  lp_info :: "wire_cert peer_info"
  lp_session :: session
  lp_frames :: "bytes list"
  lp_last_seen :: u64
  lp_remote_ip :: "ip_addr option"

record link_node =
  ln_cert :: phi_cert
  ln_pow :: admission_pow
  ln_secret :: bytes
  ln_host :: string
  ln_port :: u16
  ln_family :: string
  ln_signing_key :: "bytes option"
  ln_peers :: "(bytes, link_peer) hmap"
  ln_routing :: "wire_cert routing_table"
  ln_contacts :: "(bytes, bytes) hmap"
  ln_guards :: "guard_entry list"
  ln_dos :: dos_guard
  ln_rotation_seq :: u64
  ln_seen_seqs :: "(bytes, u64) hmap"

definition ln_node_id :: "prims \<Rightarrow> link_node \<Rightarrow> bytes" where
  "ln_node_id P n = cert_node_id P (ln_cert n)"

text \<open>What a task draws or observes besides the bytes of the stream: the ephemeral secret, the challenge, the bases
  of primality tests, and which timed reads elapse.\<close>

record hs_draw =
  dr_ephem :: bytes
  dr_challenge :: bytes
  dr_bases :: "nat \<Rightarrow> nat list"
  dr_late :: "nat \<Rightarrow> bool"

type_synonym msg_encoder = "link_msg \<Rightarrow> bytes result"
type_synonym msg_decoder = "bytes \<Rightarrow> link_msg result"

text \<open>\<open>Display\<close> of an IPv6 address: the longest run of two or more zero segments is elided.\<close>

fun zero_span :: "u16 list \<Rightarrow> nat" where
  "zero_span (s # ss) = (if s = 0 then Suc (zero_span ss) else 0)"
| "zero_span [] = 0"

fun longest_zeros :: "nat \<Rightarrow> u16 list \<Rightarrow> nat \<times> nat" where
  "longest_zeros i [] = (i, 0)"
| "longest_zeros i (s # ss) =
     (let (j, l) = longest_zeros (Suc i) ss; k = zero_span (s # ss) in if l \<le> k then (i, k) else (j, l))"

fun show_segments :: "u16 list \<Rightarrow> string" where
  "show_segments [] = []"
| "show_segments [s] = show_hex (unat s)"
| "show_segments (s # ss) = show_hex (unat s) @ '':'' @ show_segments ss"

definition show_ipv6 :: "ipv6 \<Rightarrow> string" where
  "show_ipv6 a =
     (if take 6 a = [0, 0, 0, 0, 0, 0xFFFF]
      then ''::ffff:'' @ show_ipv4 (Ipv4 (ucast (drop_bit 8 (a ! 6))) (ucast (a ! 6)) (ucast (drop_bit 8 (a ! 7))) (ucast (a ! 7)))
      else let (i, l) = longest_zeros 0 a in
        if 1 < l then show_segments (take i a) @ ''::'' @ show_segments (drop (i + l) a) else show_segments a)"

fun show_ip :: "ip_addr \<Rightarrow> string" where
  "show_ip (V4 a) = show_ipv4 a"
| "show_ip (V6 a) = show_ipv6 a"

subsection \<open>Registration\<close>

text \<open>\<open>PeerConn::send_msg\<close>: seal, then hand the frame to the writer.\<close>

definition peer_send :: "prims \<Rightarrow> msg_encoder \<Rightarrow> link_msg \<Rightarrow> link_peer \<Rightarrow> link_peer" where
  "peer_send P enc m p =
     (case send_session P enc m (lp_session p) of
        (s, Inl e) \<Rightarrow> p\<lparr>lp_session := s\<rparr>
      | (s, Inr frame) \<Rightarrow> p\<lparr>lp_session := s, lp_frames := lp_frames p @ [frame]\<rparr>)"

definition own_descriptor :: "prims \<Rightarrow> u64 \<Rightarrow> link_node \<Rightarrow> relay_descriptor option" where
  "own_descriptor P now n =
     map_option (\<lambda>k. relay_desc_build P k (p_hex_encode P (ln_node_id P n)) (ln_host n) (ln_port n)
       (p_hex_encode P (p_x25519_pub P (ln_secret n))) (ln_family n) ''default'' now) (ln_signing_key n)"

definition note_guard :: "prims \<Rightarrow> u64 \<Rightarrow> bytes \<Rightarrow> string \<Rightarrow> u16 \<Rightarrow> guard_entry list \<Rightarrow> guard_entry list" where
  "note_guard P now i host port g = guard_mark_success P i (unat now) (snd (guard_add_candidate P i host port (unat now) g))"

definition greet :: "prims \<Rightarrow> msg_encoder \<Rightarrow> relay_descriptor option \<Rightarrow> link_peer \<Rightarrow> link_peer" where
  "greet P enc d p = (case d of None \<Rightarrow> p | Some d \<Rightarrow> peer_send P enc (LmRelayDesc d) p)"

definition register_peer ::
  "prims \<Rightarrow> msg_encoder \<Rightarrow> u64 \<Rightarrow> wire_cert peer_info \<Rightarrow> session \<Rightarrow> ip_addr option \<Rightarrow> link_node \<Rightarrow> link_node \<times> unit result" where
  "register_peer P enc now info s remote_ip n =
     (if pi_node_id info = ln_node_id P n then (n, Inl (Handshake ''self-connection rejected''))
      else if hm_get (ln_peers n) (pi_node_id info) \<noteq> None then (n, Inr ())
      else
        let peer = \<lparr> lp_info = info, lp_session = s, lp_frames = [], lp_last_seen = now, lp_remote_ip = remote_ip \<rparr>;
            contacts = (case hex_array P 32 (pi_static_pub info) of
                          Some pk \<Rightarrow> hm_insert (pi_node_id info) pk (ln_contacts n) | None \<Rightarrow> ln_contacts n)
        in (n\<lparr>ln_routing := add_peer info (ln_routing n),
              ln_peers := hm_insert (pi_node_id info) (greet P enc (own_descriptor P now n) peer) (ln_peers n),
              ln_contacts := contacts,
              ln_guards := note_guard P now (pi_node_id info) (pi_host info) (pi_port info) (ln_guards n)\<rparr>, Inr ()))"

text \<open>The reader task of a peer that went away.\<close>

definition reader_ended :: "bytes \<Rightarrow> link_node \<Rightarrow> link_node" where
  "reader_ended peer_id n = n\<lparr>ln_peers := hm_remove peer_id (ln_peers n)\<rparr>"

subsection \<open>The responder\<close>

definition own_handshake :: "prims \<Rightarrow> link_node \<Rightarrow> handshake" where
  "own_handshake P n = \<lparr> hk_version = PROTOCOL_VERSION, hk_cert = cert_to_wire P (ln_cert n), hk_pow = ln_pow n,
     hk_ephem_pub = [], hk_mlkem = [], hk_static_pub = p_hex_encode P (p_x25519_pub P (ln_secret n)),
     hk_listen_port = ln_port n \<rparr>"

type_synonym 'a exchange = "bytes \<times> 'a result outcome"

definition refuse :: "prims \<Rightarrow> msg_encoder \<Rightarrow> string \<Rightarrow> string \<Rightarrow> session \<Rightarrow> 'a exchange" where
  "refuse P enc reason text s =
     (case send_session P enc (LmReject reason) s of
        (_, Inl e) \<Rightarrow> ([], Returns (Inl e))
      | (_, Inr out) \<Rightarrow> (out, Returns (Inl (Handshake text))))"

definition answer_handshake ::
  "prims \<Rightarrow> argon2 \<Rightarrow> msg_encoder \<Rightarrow> msg_decoder \<Rightarrow> hs_draw \<Rightarrow> string \<Rightarrow> link_node \<Rightarrow> session \<Rightarrow> bytes
     \<Rightarrow> (session \<times> bytes \<times> wire_cert peer_info) exchange" where
  "answer_handshake P A enc dec d host n s stream =
     (if dr_late d 1 then ([], Returns (Inl (Handshake ''timeout'')))
      else case recv_session P dec s stream of
        (s1, rest, Inl e) \<Rightarrow> ([], Returns (Inl e))
      | (s1, rest, Inr (LmHandshake h)) \<Rightarrow>
          (case cert_from_wire P (hk_cert h) of
             Inl e \<Rightarrow> ([], Returns (Inl (Handshake ''cert'')))
           | Inr c \<Rightarrow>
               (case cert_verify (dr_bases d) c of
                  Panics \<Rightarrow> ([], Panics)
                | Returns ok \<Rightarrow>
                    if \<not> ok then refuse P enc ''invalid cert'' ''invalid cert'' s1
                    else if \<not> verify_admission A c (hk_pow h) then refuse P enc ''invalid pow'' ''invalid PoW'' s1
                    else
                      (case send_session P enc (LmHandshakeAck (own_handshake P n)) s1 of
                         (_, Inl e) \<Rightarrow> ([], Returns (Inl e))
                       | (s2, Inr out) \<Rightarrow>
                           (out, Returns (Inr (s2, rest, \<lparr> pi_node_id = cert_node_id P c, pi_host = host,
                             pi_port = hk_listen_port h, pi_cert = hk_cert h, pi_static_pub = hk_static_pub h \<rparr>))))))
      | (s1, rest, Inr _) \<Rightarrow> ([], Returns (Inl (Handshake ''expected HANDSHAKE''))))"

definition respond ::
  "prims \<Rightarrow> argon2 \<Rightarrow> msg_encoder \<Rightarrow> msg_decoder \<Rightarrow> hs_draw \<Rightarrow> string \<Rightarrow> link_node \<Rightarrow> bytes
     \<Rightarrow> (session \<times> bytes \<times> wire_cert peer_info) exchange" where
  "respond P A enc dec d host n stream =
     (case send_raw enc (LmPowChallenge (p_hex_encode P (dr_challenge d)) 256 (p_hex_encode P (p_x25519_pub P (dr_ephem d)))) of
        Inl e \<Rightarrow> ([], Returns (Inl e))
      | Inr out1 \<Rightarrow>
          if dr_late d 0 then (out1, Returns (Inl (Handshake ''timeout'')))
          else
            (case recv_raw dec stream of
               (_, Inl e) \<Rightarrow> (out1, Returns (Inl e))
             | (rest, Inr (LmClientHello ephem_pub)) \<Rightarrow>
                 (case hex_array P 32 ephem_pub of
                    None \<Rightarrow> (out1, Returns (Inl (Handshake ''bad client ephem_pub'')))
                  | Some peer \<Rightarrow>
                      (let (out2, r) = answer_handshake P A enc dec d host n
                             (session_new P (p_x25519 P (dr_ephem d) peer) False) rest
                       in (out1 @ out2, r)))
             | (_, Inr _) \<Rightarrow> (out1, Returns (Inl (Handshake ''expected CLIENT_HELLO'')))))"

text \<open>The slot of the address is released however the handler ends, a panic included.\<close>

definition handle_incoming ::
  "prims \<Rightarrow> argon2 \<Rightarrow> msg_encoder \<Rightarrow> msg_decoder \<Rightarrow> instant \<times> instant \<Rightarrow> u64 \<Rightarrow> hs_draw \<Rightarrow> ip_addr \<Rightarrow> link_node \<Rightarrow> bytes
     \<Rightarrow> link_node \<times> unit exchange" where
  "handle_incoming P A enc dec t now d ip n stream =
     (case allow_connection (fst t) ip (ln_dos n) of
        (False, g) \<Rightarrow> (n\<lparr>ln_dos := g\<rparr>, [], Returns (Inr ()))
      | (True, g) \<Rightarrow>
          let n1 = n\<lparr>ln_dos := release_connection (snd t) ip g\<rparr> in
          (case respond P A enc dec d (show_ip ip) n stream of
             (out, Panics) \<Rightarrow> (n1, out, Panics)
           | (out, Returns (Inl e)) \<Rightarrow> (n1, out, Returns (Inl e))
           | (out, Returns (Inr (s, _, info))) \<Rightarrow>
               (let (n2, r) = register_peer P enc now info s (Some ip) n1 in (n2, out, Returns r))))"

subsection \<open>The initiator\<close>

definition initiate ::
  "prims \<Rightarrow> msg_encoder \<Rightarrow> msg_decoder \<Rightarrow> hs_draw \<Rightarrow> link_node \<Rightarrow> bytes \<Rightarrow> (session \<times> bytes \<times> handshake) exchange" where
  "initiate P enc dec d n stream =
     (case recv_raw dec stream of
        (_, Inl e) \<Rightarrow> ([], Returns (Inl e))
      | (rest, Inr (LmPowChallenge _ _ server_ephem)) \<Rightarrow>
          (case hex_array P 32 server_ephem of
             None \<Rightarrow> ([], Returns (Inl (Handshake ''bad server ephem'')))
           | Some server \<Rightarrow>
               let s = session_new P (p_x25519 P (dr_ephem d) server) True in
               (case send_raw enc (LmClientHello (p_hex_encode P (p_x25519_pub P (dr_ephem d)))) of
                  Inl e \<Rightarrow> ([], Returns (Inl e))
                | Inr out1 \<Rightarrow>
                    (case send_session P enc (LmHandshake (own_handshake P n)) s of
                       (_, Inl e) \<Rightarrow> (out1, Returns (Inl e))
                     | (s1, Inr out2) \<Rightarrow>
                         (out1 @ out2,
                          Returns
                            (if dr_late d 0 then Inl (Handshake ''timeout'')
                             else case recv_session P dec s1 rest of
                                 (_, _, Inl e) \<Rightarrow> Inl e
                               | (s2, rest2, Inr (LmHandshakeAck a)) \<Rightarrow> Inr (s2, rest2, a)
                               | (_, _, Inr (LmReject reason)) \<Rightarrow> Inl (Handshake reason)
                               | (_, _, Inr _) \<Rightarrow> Inl (Handshake ''expected ACK''))))))
      | (_, Inr _) \<Rightarrow> ([], Returns (Inl (Handshake ''expected POW_CHALLENGE''))))"

text \<open>\<open>None\<close>: the transport could not dial.\<close>

definition connect ::
  "prims \<Rightarrow> msg_encoder \<Rightarrow> msg_decoder \<Rightarrow> u64 \<Rightarrow> hs_draw \<Rightarrow> string \<Rightarrow> u16 \<Rightarrow> link_node \<Rightarrow> bytes option
     \<Rightarrow> link_node \<times> unit exchange" where
  "connect P enc dec now d host port n dialled =
     (case dialled of
        None \<Rightarrow> (n, [], Returns (Inl (Handshake ''transport dial'')))
      | Some stream \<Rightarrow>
          (case initiate P enc dec d n stream of
             (out, Panics) \<Rightarrow> (n, out, Panics)
           | (out, Returns (Inl e)) \<Rightarrow> (n, out, Returns (Inl e))
           | (out, Returns (Inr (s, _, a))) \<Rightarrow>
               (case cert_from_wire P (hk_cert a) of
                  Inl e \<Rightarrow> (n, out, Returns (Inl e))
                | Inr c \<Rightarrow>
                    (let (n2, r) = register_peer P enc now \<lparr> pi_node_id = cert_node_id P c, pi_host = host, pi_port = port,
                           pi_cert = hk_cert a, pi_static_pub = hk_static_pub a \<rparr> s None n
                     in (n2, out, Returns r)))))"

definition probe_relay ::
  "prims \<Rightarrow> msg_encoder \<Rightarrow> msg_decoder \<Rightarrow> hs_draw \<Rightarrow> link_node \<Rightarrow> bytes option \<Rightarrow> bytes option" where
  "probe_relay P enc dec d n dialled =
     (case dialled of
        None \<Rightarrow> None
      | Some stream \<Rightarrow>
          (case snd (initiate P enc dec d n stream) of
             Returns (Inr (_, _, a)) \<Rightarrow>
               (case cert_from_wire P (hk_cert a) of Inr c \<Rightarrow> Some (cert_node_id P c) | Inl _ \<Rightarrow> None)
           | _ \<Rightarrow> None))"

text \<open>\<open>answers\<close> is what dialling the address of a peer yields.\<close>

definition verified_relays ::
  "prims \<Rightarrow> msg_encoder \<Rightarrow> msg_decoder \<Rightarrow> (wire_cert peer_info \<Rightarrow> hs_draw \<times> bytes option) \<Rightarrow> link_node \<Rightarrow> wire_cert peer_info list" where
  "verified_relays P enc dec answers n =
     filter (\<lambda>p. probe_relay P enc dec (fst (answers p)) n (snd (answers p)) = Some (pi_node_id p))
       (map (lp_info \<circ> snd) (ln_peers n))"

subsection \<open>One exchange over the stream\<close>

lemma serde_fitsE:
  assumes "serde_fits enc dec m"
  obtains b where "enc m = Inr b" "length b \<le> MAX_FRAME_SIZE" "dec b = Inr m"
  using assms by (auto simp: serde_fits_def)

lemma raw_exchange:
  assumes "serde_fits enc dec m"
  obtains out where "send_raw enc m = Inr out" "\<And>rest. recv_raw dec (out @ rest) = (rest, Inr m)"
proof -
  obtain b where b: "enc m = Inr b" "length b \<le> MAX_FRAME_SIZE" "dec b = Inr m" using assms by (rule serde_fitsE)
  have len: "unat (of_nat (length b) :: u32) = length b"
    using b(2) by (simp add: unat_of_nat MAX_FRAME_SIZE_def take_bit_nat_eq_self)
  show ?thesis
    by (rule that [of "to_le (of_nat (length b) :: u32) @ b"])
      (use b len in \<open>simp_all add: send_raw_def recv_raw_def read_exact_def\<close>)
qed

lemma sealed_exchange:
  assumes "aead_ok P" "feeds s r" "serde_fits enc dec m"
  obtains out k where "send_session P enc m s = (sent_cells k s, Inr out)"
    "\<And>rest. recv_session P dec r (out @ rest) = (got_cells k r, rest, Inr m)"
proof -
  obtain b where b: "enc m = Inr b" "length b \<le> MAX_FRAME_SIZE" "dec b = Inr m" using assms(3) by (rule serde_fitsE)
  show ?thesis
  proof (rule that [of "cells_for (length b)" "snd (encode_cells P s b)"])
    show "send_session P enc m s = (sent_cells (cells_for (length b)) s, Inr (snd (encode_cells P s b)))"
      using b(1) encode_cells_session [of P s b] by (simp add: send_session_def split_beta del: encode_cells_session)
    show "recv_session P dec r (snd (encode_cells P s b) @ rest) = (got_cells (cells_for (length b)) r, rest, Inr m)" for rest
      unfolding recv_session_def recv_loop_encode_cells [OF assms(1,2) b(2)] using b(3) by (simp add:)
  qed
qed

lemma session_keys_agree:
  "dh_ok P \<Longrightarrow> session_new P (p_x25519 P a (p_x25519_pub P b)) i = session_new P (p_x25519 P b (p_x25519_pub P a)) i"
  by (simp add: dh_ok_def)

text \<open>The four messages of a handshake.\<close>

definition handshake_msgs :: "prims \<Rightarrow> hs_draw \<Rightarrow> hs_draw \<Rightarrow> link_node \<Rightarrow> link_node \<Rightarrow> link_msg list" where
  "handshake_msgs P da db a b =
     [LmPowChallenge (p_hex_encode P (dr_challenge db)) 256 (p_hex_encode P (p_x25519_pub P (dr_ephem db))),
      LmClientHello (p_hex_encode P (p_x25519_pub P (dr_ephem da))),
      LmHandshake (own_handshake P a), LmHandshakeAck (own_handshake P b)]"

lemma static_pub_array [simp]:
  "hex_ok P \<Longrightarrow> dh_ok P \<Longrightarrow> hex_array P 32 (p_hex_encode P (p_x25519_pub P k)) = Some (p_x25519_pub P k)"
  by (simp add: dh_ok_def)

definition info_of :: "prims \<Rightarrow> string \<Rightarrow> u16 \<Rightarrow> link_node \<Rightarrow> wire_cert peer_info" where
  "info_of P host port n = \<lparr> pi_node_id = ln_node_id P n, pi_host = host, pi_port = port,
     pi_cert = cert_to_wire P (ln_cert n), pi_static_pub = p_hex_encode P (p_x25519_pub P (ln_secret n)) \<rparr>"

lemma handshake_run:
  assumes "hex_ok P" "dh_ok P" "kdf_ok P" "aead_ok P"
    and "\<forall>m \<in> set (handshake_msgs P da db a b). serde_fits enc dec m"
    and "\<not> dr_late da 0" "\<not> dr_late db 0" "\<not> dr_late db 1"
    and "cert_verify (dr_bases db) (ln_cert a) = Returns True" "verify_admission A (ln_cert a) (ln_pow a)"
  obtains wa wb sa sb where
    "initiate P enc dec da a wb = (wa, Returns (Inr (sa, [], own_handshake P b)))"
    "respond P A enc dec db host b wa = (wb, Returns (Inr (sb, [], info_of P host (ln_port a) a)))"
    "feeds sa sb" "feeds sb sa"
proof -
  define s where "s = session_new P (p_x25519 P (dr_ephem da) (p_x25519_pub P (dr_ephem db))) True"
  define r where "r = session_new P (p_x25519 P (dr_ephem da) (p_x25519_pub P (dr_ephem db))) False"
  have r: "session_new P (p_x25519 P (dr_ephem db) (p_x25519_pub P (dr_ephem da))) False = r"
    unfolding r_def by (rule session_keys_agree [OF assms(2)])
  have f: "feeds s r" "feeds r s" using assms(3) by (simp_all add: s_def r_def)
  have fits: "serde_fits enc dec (LmPowChallenge (p_hex_encode P (dr_challenge db)) 256 (p_hex_encode P (p_x25519_pub P (dr_ephem db))))"
      "serde_fits enc dec (LmClientHello (p_hex_encode P (p_x25519_pub P (dr_ephem da))))"
      "serde_fits enc dec (LmHandshake (own_handshake P a))" "serde_fits enc dec (LmHandshakeAck (own_handshake P b))"
    using assms(5) by (simp_all add: handshake_msgs_def)
  obtain o1 where o1: "send_raw enc (LmPowChallenge (p_hex_encode P (dr_challenge db)) 256 (p_hex_encode P (p_x25519_pub P (dr_ephem db)))) = Inr o1"
      "\<And>rest. recv_raw dec (o1 @ rest) = (rest, Inr (LmPowChallenge (p_hex_encode P (dr_challenge db)) 256 (p_hex_encode P (p_x25519_pub P (dr_ephem db)))))"
    using raw_exchange [OF fits(1)] by blast
  obtain o2 where o2: "send_raw enc (LmClientHello (p_hex_encode P (p_x25519_pub P (dr_ephem da)))) = Inr o2"
      "\<And>rest. recv_raw dec (o2 @ rest) = (rest, Inr (LmClientHello (p_hex_encode P (p_x25519_pub P (dr_ephem da)))))"
    using raw_exchange [OF fits(2)] by blast
  obtain o3 i where o3: "send_session P enc (LmHandshake (own_handshake P a)) s = (sent_cells i s, Inr o3)"
      "\<And>rest. recv_session P dec r (o3 @ rest) = (got_cells i r, rest, Inr (LmHandshake (own_handshake P a)))"
    using sealed_exchange [OF assms(4) f(1) fits(3)] by blast
  have f2: "feeds (got_cells i r) (sent_cells i s)" using f(2) by (simp add: feeds_def)
  obtain o4 j where o4: "send_session P enc (LmHandshakeAck (own_handshake P b)) (got_cells i r) = (sent_cells j (got_cells i r), Inr o4)"
      "\<And>rest. recv_session P dec (sent_cells i s) (o4 @ rest) = (got_cells j (sent_cells i s), rest, Inr (LmHandshakeAck (own_handshake P b)))"
    using sealed_exchange [OF assms(4) f2 fits(4)] by blast
  have cert: "cert_from_wire P (hk_cert (own_handshake P a)) = Inr (ln_cert a)"
    by (simp add: own_handshake_def cert_wire_roundtrip [OF assms(1)])
  show ?thesis
  proof (rule that)
    show "initiate P enc dec da a (o1 @ o4) = (o2 @ o3, Returns (Inr (got_cells j (sent_cells i s), [], own_handshake P b)))"
      using o1(2) o2(1) o3(1) o4(2) [of "[]"] assms(1,2,6) by (simp add: initiate_def s_def [symmetric])
    show "respond P A enc dec db host b (o2 @ o3) = (o1 @ o4, Returns (Inr (sent_cells j (got_cells i r), [], info_of P host (ln_port a) a)))"
      using o1(1) o2(2) o3(2) [of "[]"] o4(1) assms(1,2,7-10) cert
      by (simp add: respond_def answer_handshake_def r info_of_def ln_node_id_def) (simp add: own_handshake_def)
    show "feeds (got_cells j (sent_cells i s)) (sent_cells j (got_cells i r))"
        "feeds (sent_cells j (got_cells i r)) (got_cells j (sent_cells i s))"
      using f by (simp_all add: feeds_def)
  qed
qed

subsection \<open>Registration\<close>

text \<open>A link seen from one of its ends: what was handed to the writer is what the peer has to read.\<close>

definition peer_link :: "link_peer \<Rightarrow> link_peer \<Rightarrow> link_msg link" where
  "peer_link p q = \<lparr> lk_sender = lp_session p, lk_receiver = lp_session q, lk_wire = concat (lp_frames p), lk_sent = [], lk_got = [] \<rparr>"

definition greeting :: "relay_descriptor option \<Rightarrow> link_msg list" where
  "greeting d = (case d of None \<Rightarrow> [] | Some d \<Rightarrow> [LmRelayDesc d])"

definition new_peer :: "u64 \<Rightarrow> wire_cert peer_info \<Rightarrow> session \<Rightarrow> ip_addr option \<Rightarrow> link_peer" where
  "new_peer now info s remote_ip = \<lparr> lp_info = info, lp_session = s, lp_frames = [], lp_last_seen = now, lp_remote_ip = remote_ip \<rparr>"

lemma send_session_receives:
  "send_session P enc m s = (s', r) \<Longrightarrow> feeds x s' \<longleftrightarrow> feeds x s"
  by (auto simp: send_session_def feeds_def split_beta split: sum.splits)

lemma greet_receives: "feeds x (lp_session (greet P enc d p)) \<longleftrightarrow> feeds x (lp_session p)"
  by (auto simp: greet_def peer_send_def split: option.split prod.split sum.split dest: send_session_receives)

lemma greeted_link:
  assumes "feeds s r" "lp_session p = s" "lp_frames p = []" "lp_session q = r"
  shows "link_queue P enc (greeting d) (peer_link (greet P enc d p) (greet P enc d' q))"
proof -
  have "feeds s (lp_session (greet P enc d' q))" using assms by (simp add: greet_receives)
  moreover have "wire_of P enc s (greeting d) = (lp_session (greet P enc d p), concat (lp_frames (greet P enc d p)))"
    using assms(2,3) by (auto simp: greeting_def greet_def peer_send_def split: option.split prod.split sum.split)
  ultimately show ?thesis by (auto simp: link_queue_def peer_link_def)
qed

lemma register_new:
  assumes "hex_ok P" "dh_ok P" "ln_node_id P peer \<noteq> ln_node_id P n" "hm_get (ln_peers n) (ln_node_id P peer) = None"
  obtains n' where "register_peer P enc now (info_of P host port peer) s ip n = (n', Inr ())"
    "hm_get (ln_peers n') (ln_node_id P peer)
      = Some (greet P enc (own_descriptor P now n) (new_peer now (info_of P host port peer) s ip))"
    "hm_get (ln_contacts n') (ln_node_id P peer) = Some (p_x25519_pub P (ln_secret peer))"
    "ln_routing n' = add_peer (info_of P host port peer) (ln_routing n)"
  using assms by (auto simp: register_peer_def info_of_def new_peer_def Let_def update_conv')

subsection \<open>A handshake between two nodes\<close>

lemma respond_registers:
  assumes "hex_ok P" "dh_ok P" "respond P A enc dec db (show_ip ip) b wa = (wb, Returns (Inr (sb, rest, info_of P (show_ip ip) port a)))"
    and "fst (allow_connection (fst t) ip (ln_dos b))" "ln_node_id P a \<noteq> ln_node_id P b" "hm_get (ln_peers b) (ln_node_id P a) = None"
  obtains b' where "handle_incoming P A enc dec t now db ip b wa = (b', wb, Returns (Inr ()))"
    "hm_get (ln_peers b') (ln_node_id P a)
      = Some (greet P enc (own_descriptor P now b) (new_peer now (info_of P (show_ip ip) port a) sb (Some ip)))"
    "hm_get (ln_contacts b') (ln_node_id P a) = Some (p_x25519_pub P (ln_secret a))"
proof -
  obtain g where g: "allow_connection (fst t) ip (ln_dos b) = (True, g)" using assms(4) by (metis prod.collapse)
  define b1 where "b1 = b\<lparr>ln_dos := release_connection (snd t) ip g\<rparr>"
  have b1: "ln_node_id P b1 = ln_node_id P b" "ln_peers b1 = ln_peers b" "own_descriptor P now b1 = own_descriptor P now b"
    by (simp_all add: b1_def ln_node_id_def own_descriptor_def)
  have new: "ln_node_id P a \<noteq> ln_node_id P b1" "hm_get (ln_peers b1) (ln_node_id P a) = None" using assms(5,6) b1 by simp_all
  obtain b' where b': "register_peer P enc now (info_of P (show_ip ip) port a) sb (Some ip) b1 = (b', Inr ())"
      "hm_get (ln_peers b') (ln_node_id P a)
        = Some (greet P enc (own_descriptor P now b1) (new_peer now (info_of P (show_ip ip) port a) sb (Some ip)))"
      "hm_get (ln_contacts b') (ln_node_id P a) = Some (p_x25519_pub P (ln_secret a))"
    by (rule register_new [OF assms(1,2) new])
  show ?thesis
  proof (rule that)
    show "handle_incoming P A enc dec t now db ip b wa = (b', wb, Returns (Inr ()))"
      by (simp add: handle_incoming_def g assms(3) b'(1) b1_def [symmetric])
  qed (use b' b1 in simp_all)
qed

lemma connect_and_accept:
  assumes "hex_ok P" "dh_ok P" "kdf_ok P" "aead_ok P"
    and "\<forall>m \<in> set (handshake_msgs P da db a b). serde_fits enc dec m"
    and "\<not> dr_late da 0" "\<not> dr_late db 0" "\<not> dr_late db 1"
    and "cert_verify (dr_bases db) (ln_cert a) = Returns True" "verify_admission A (ln_cert a) (ln_pow a)"
    and "fst (allow_connection (fst t) ip (ln_dos b))" "ln_node_id P a \<noteq> ln_node_id P b"
    and "hm_get (ln_peers a) (ln_node_id P b) = None" "hm_get (ln_peers b) (ln_node_id P a) = None"
  obtains wa wb a' b' pa pb where
    "connect P enc dec now da host port a (Some wb) = (a', wa, Returns (Inr ()))"
    "handle_incoming P A enc dec t now' db ip b wa = (b', wb, Returns (Inr ()))"
    "hm_get (ln_peers a') (ln_node_id P b) = Some pa" "lp_info pa = info_of P host port b"
    "hm_get (ln_peers b') (ln_node_id P a) = Some pb" "lp_info pb = info_of P (show_ip ip) (ln_port a) a"
    "hm_get (ln_contacts a') (ln_node_id P b) = Some (p_x25519_pub P (ln_secret b))"
    "hm_get (ln_contacts b') (ln_node_id P a) = Some (p_x25519_pub P (ln_secret a))"
    "link_queue P enc (greeting (own_descriptor P now a)) (peer_link pa pb)"
    "link_queue P enc (greeting (own_descriptor P now' b)) (peer_link pb pa)"
proof -
  obtain wa wb sa sb where run: "initiate P enc dec da a wb = (wa, Returns (Inr (sa, [], own_handshake P b)))"
      "respond P A enc dec db (show_ip ip) b wa = (wb, Returns (Inr (sb, [], info_of P (show_ip ip) (ln_port a) a)))"
      "feeds sa sb" "feeds sb sa"
    by (rule handshake_run [OF assms(1-10)])
  obtain a' where a': "register_peer P enc now (info_of P host port b) sa None a = (a', Inr ())"
      "hm_get (ln_peers a') (ln_node_id P b)
        = Some (greet P enc (own_descriptor P now a) (new_peer now (info_of P host port b) sa None))"
      "hm_get (ln_contacts a') (ln_node_id P b) = Some (p_x25519_pub P (ln_secret b))"
    by (rule register_new [OF assms(1,2) assms(12) [symmetric] assms(13)])
  obtain b' where b': "handle_incoming P A enc dec t now' db ip b wa = (b', wb, Returns (Inr ()))"
      "hm_get (ln_peers b') (ln_node_id P a)
        = Some (greet P enc (own_descriptor P now' b) (new_peer now' (info_of P (show_ip ip) (ln_port a) a) sb (Some ip)))"
      "hm_get (ln_contacts b') (ln_node_id P a) = Some (p_x25519_pub P (ln_secret a))"
    by (rule respond_registers [OF assms(1,2) run(2) assms(11,12,14)])
  have cert: "cert_from_wire P (hk_cert (own_handshake P b)) = Inr (ln_cert b)"
    by (simp add: own_handshake_def cert_wire_roundtrip [OF assms(1)])
  have info: "\<lparr> pi_node_id = cert_node_id P (ln_cert b), pi_host = host, pi_port = port,
      pi_cert = hk_cert (own_handshake P b), pi_static_pub = hk_static_pub (own_handshake P b) \<rparr> = info_of P host port b"
    by (simp add: info_of_def own_handshake_def ln_node_id_def)
  show ?thesis
  proof (rule that)
    show "connect P enc dec now da host port a (Some wb) = (a', wa, Returns (Inr ()))"
      by (simp add: connect_def run(1) cert info a'(1))
    show "link_queue P enc (greeting (own_descriptor P now a))
        (peer_link (greet P enc (own_descriptor P now a) (new_peer now (info_of P host port b) sa None))
          (greet P enc (own_descriptor P now' b) (new_peer now' (info_of P (show_ip ip) (ln_port a) a) sb (Some ip))))"
      by (rule greeted_link [OF run(3)]) (simp_all add: new_peer_def)
    show "link_queue P enc (greeting (own_descriptor P now' b))
        (peer_link (greet P enc (own_descriptor P now' b) (new_peer now' (info_of P (show_ip ip) (ln_port a) a) sb (Some ip)))
          (greet P enc (own_descriptor P now a) (new_peer now (info_of P host port b) sa None)))"
      by (rule greeted_link [OF run(4)]) (simp_all add: new_peer_def)
  qed (use a' b' in \<open>simp_all add: greet_def peer_send_def new_peer_def split: option.split prod.split sum.split\<close>)
qed

text \<open>C35: A node that connects to another one with a valid certificate and proof of work ends the handshake registered
  there, and has registered it: each side stores the address it saw or dialled and the static key of the other, the
  two sessions mirror each other, and each direction of the link is a queue that holds the descriptor its sender
  published, if it has one, and nothing else.
\<close>

theorem handshake_agreement:
  assumes "hex_ok P" "dh_ok P" "kdf_ok P" "aead_ok P"
    and "\<forall>m \<in> set (handshake_msgs P da db a b). serde_fits enc dec m"
    and "\<not> dr_late da 0" "\<not> dr_late db 0" "\<not> dr_late db 1"
    and "cert_verify (dr_bases db) (ln_cert a) = Returns True" "verify_admission A (ln_cert a) (ln_pow a)"
    and "fst (allow_connection (fst t) ip (ln_dos b))" "ln_node_id P a \<noteq> ln_node_id P b"
    and "hm_get (ln_peers a) (ln_node_id P b) = None" "hm_get (ln_peers b) (ln_node_id P a) = None"
  shows "\<exists>wa wb a' b' pa pb.
      connect P enc dec now da host port a (Some wb) = (a', wa, Returns (Inr ()))
    \<and> handle_incoming P A enc dec t now' db ip b wa = (b', wb, Returns (Inr ()))
    \<and> hm_get (ln_peers a') (ln_node_id P b) = Some pa \<and> lp_info pa = info_of P host port b
    \<and> hm_get (ln_peers b') (ln_node_id P a) = Some pb \<and> lp_info pb = info_of P (show_ip ip) (ln_port a) a
    \<and> hm_get (ln_contacts a') (ln_node_id P b) = Some (p_x25519_pub P (ln_secret b))
    \<and> hm_get (ln_contacts b') (ln_node_id P a) = Some (p_x25519_pub P (ln_secret a))
    \<and> link_queue P enc (greeting (own_descriptor P now a)) (peer_link pa pb)
    \<and> link_queue P enc (greeting (own_descriptor P now' b)) (peer_link pb pa)"
  by (rule connect_and_accept [OF assms, where now = now and now' = now' and host = host and port = port]) blast

text \<open>A serialiser that knows the given messages.\<close>

definition table_enc :: "link_msg list \<Rightarrow> msg_encoder" where
  "table_enc ms m = (case position (\<lambda>x. x = m) ms of Some i \<Rightarrow> Inr [of_nat i] | None \<Rightarrow> Inl (Serde ''unknown''))"

definition table_dec :: "link_msg list \<Rightarrow> msg_decoder" where
  "table_dec ms b = (case b of [i] \<Rightarrow> if unat i < length ms then Inr (ms ! unat i) else Inl (Serde ''index'') | _ \<Rightarrow> Inl (Serde ''length''))"

lemma table_serde [simp]:
  assumes "m \<in> set ms" "length ms \<le> 255"
  shows "serde_fits (table_enc ms) (table_dec ms) m"
proof -
  obtain i where i: "position (\<lambda>x. x = m) ms = Some i" using assms(1) position_None_iff [of "\<lambda>x. x = m" ms] by auto
  from position_SomeD [OF i] have b: "i < length ms" "ms ! i = m" by auto
  then have "unat (of_nat i :: u8) = i" using assms(2) by (simp add: unat_of_nat take_bit_nat_eq_self)
  then show ?thesis by (simp add: serde_fits_def table_enc_def table_dec_def i b MAX_FRAME_SIZE_def)
qed

definition cert_11 :: phi_cert where
  "cert_11 = \<lparr> pc_n = 82, pc_phi = 40, pc_mu = 4, pc_j = 11, pc_dr = 4, pc_sg = 0, pc_bits = B256 \<rparr>"

definition sample_link_node :: "phi_cert \<Rightarrow> bytes \<Rightarrow> link_node" where
  "sample_link_node c secret = \<lparr> ln_cert = c, ln_pow = \<lparr> aw_hash = text_of (cert_canonical_bytes c), aw_salt = [],
       aw_params = argon_params_for B256 \<rparr>,
     ln_secret = secret, ln_host = ''10.0.0.1'', ln_port = 7700, ln_family = [], ln_signing_key = Some secret, ln_peers = [],
     ln_routing = rt_new (cert_node_id toy_prims c), ln_contacts = [], ln_guards = [], ln_dos = dos_new,
     ln_rotation_seq = 0, ln_seen_seqs = [] \<rparr>"

definition sample_draw :: "u8 \<Rightarrow> hs_draw" where
  "sample_draw x = \<lparr> dr_ephem = [x], dr_challenge = [x], dr_bases = (\<lambda>_. []), dr_late = (\<lambda>_. False) \<rparr>"

lemma sample_ids:
  "cert_node_id toy_prims cert_11 = replicate 31 0 @ [53]" "cert_node_id toy_prims (cheap_cert b) = replicate 31 0 @ [57]"
  by (simp_all add: cert_node_id_def cert_id_bytes_def cert_11_def cheap_cert_def toy_prims_def big_to_bytes.simps)

theorem handshake_agreement_witness:
  "\<exists>ms wa wb a' b'. connect toy_prims (table_enc ms) (table_dec ms) 100 (sample_draw 3) ''10.0.0.2'' 7700
       (sample_link_node (cheap_cert B256) [5]) (Some wb) = (a', wa, Returns (Inr ()))
    \<and> handle_incoming toy_prims toy_argon (table_enc ms) (table_dec ms) (0, 0) 100 (sample_draw 4) (V4 (Ipv4 10 0 0 1))
       (sample_link_node cert_11 [6]) wa = (b', wb, Returns (Inr ()))
    \<and> hm_get (ln_contacts b') (replicate 31 0 @ [57]) = Some (5 # replicate 31 0)"
proof -
  let ?a = "sample_link_node (cheap_cert B256) [5]" and ?b = "sample_link_node cert_11 [6]"
  let ?ms = "handshake_msgs toy_prims (sample_draw 3) (sample_draw 4) ?a ?b"
  have "\<forall>m \<in> set ?ms. serde_fits (table_enc ?ms) (table_dec ?ms) m" by (simp add: handshake_msgs_def)
  moreover have "verify_admission toy_argon (ln_cert ?a) (ln_pow ?a)"
    by (simp add: verify_admission_def toy_argon_def sample_link_node_def)
  moreover have ids: "ln_node_id toy_prims ?a = replicate 31 0 @ [57]" "ln_node_id toy_prims ?b = replicate 31 0 @ [53]"
    by (simp_all only: ln_node_id_def sample_link_node_def link_node.simps sample_ids)
  moreover have pub: "p_x25519_pub toy_prims (ln_secret ?a) = 5 # replicate 31 0"
    by (simp add: toy_prims_def sample_link_node_def)
  ultimately show ?thesis
    using handshake_agreement [of toy_prims "sample_draw 3" "sample_draw 4" ?a ?b "table_enc ?ms" "table_dec ?ms" toy_argon
        "(0, 0)" "V4 (Ipv4 10 0 0 1)" 100 "''10.0.0.2''" 7700 100]
    by (simp add: cheap_cert_verifies sample_draw_def sample_link_node_def dos_new_def allow_connection_def) blast
qed

text \<open>C36: The handshake does not show that the peer holds the key of its certificate. A node that has connected to
  another one can take the certificate and the proof of work of the acknowledgement, present them to a third node under
  its own keys, and is registered there under the identity of the node it connected to: the messages for that identity
  are from then on sealed for the thief.
\<close>

theorem handshake_proves_no_identity:
  assumes "hex_ok P" "dh_ok P" "kdf_ok P" "aead_ok P"
    and "initiate P enc dec d0 m stream = (out, Returns (Inr (s0, rest, ack)))" "cert_from_wire P (hk_cert ack) = Inr c"
    and "thief = m\<lparr>ln_cert := c, ln_pow := hk_pow ack\<rparr>"
    and "\<forall>x \<in> set (handshake_msgs P da db thief b). serde_fits enc dec x"
    and "\<not> dr_late da 0" "\<not> dr_late db 0" "\<not> dr_late db 1"
    and "cert_verify (dr_bases db) c = Returns True" "verify_admission A c (hk_pow ack)"
    and "fst (allow_connection (fst t) ip (ln_dos b))" "cert_node_id P c \<noteq> ln_node_id P b"
    and "hm_get (ln_peers b) (cert_node_id P c) = None"
  shows "\<exists>wa wb b' pb. handle_incoming P A enc dec t now db ip b wa = (b', wb, Returns (Inr ()))
    \<and> hm_get (ln_peers b') (cert_node_id P c) = Some pb \<and> pi_node_id (lp_info pb) = cert_node_id P c
    \<and> hm_get (ln_contacts b') (cert_node_id P c) = Some (p_x25519_pub P (ln_secret m))"
proof -
  have thief: "ln_cert thief = c" "ln_pow thief = hk_pow ack" "ln_node_id P thief = cert_node_id P c" "ln_secret thief = ln_secret m"
    using assms(7) by (simp_all add: ln_node_id_def)
  obtain wa wb sb where run: "respond P A enc dec db (show_ip ip) b wa
      = (wb, Returns (Inr (sb, [], info_of P (show_ip ip) (ln_port thief) thief)))"
    by (rule handshake_run [OF assms(1-4,8-11)]) (use assms(12,13) thief in auto)
  obtain b' where "handle_incoming P A enc dec t now db ip b wa = (b', wb, Returns (Inr ()))"
      "hm_get (ln_peers b') (cert_node_id P c) = Some (greet P enc (own_descriptor P now b)
        (new_peer now (info_of P (show_ip ip) (ln_port thief) thief) sb (Some ip)))"
      "hm_get (ln_contacts b') (cert_node_id P c) = Some (p_x25519_pub P (ln_secret m))"
    by (rule respond_registers [OF assms(1,2) run assms(14)]) (use assms(15,16) thief in auto)
  then show ?thesis
    by (intro exI [of _ wa] exI [of _ wb] exI [of _ b'] exI conjI)
      (auto simp: greet_def peer_send_def new_peer_def info_of_def thief split: option.split prod.split sum.split)
qed

lemma cert_11_verifies: "cert_verify r cert_11 = Returns True"
proof -
  have "is_prime ws 11" "is_prime ws 41" "\<not> is_prime ws 21" for ws by (simp_all add: is_prime_def SMALL_def)
  then show ?thesis by (simp add: cert_verify_def cert_11_def digital_root_def sophie_germain_def)
qed

theorem handshake_proves_no_identity_witness:
  "\<exists>ms wa wb b'. handle_incoming toy_prims toy_argon (table_enc ms) (table_dec ms) (0, 0) 100
       (sample_draw 4) (V4 (Ipv4 10 0 0 9)) (sample_link_node (cheap_cert B512) [7]) wa = (b', wb, Returns (Inr ()))
    \<and> hm_get (ln_contacts b') (replicate 31 0 @ [53]) = Some (5 # replicate 31 0)"
proof -
  let ?m = "sample_link_node (cheap_cert B256) [5]" and ?v = "sample_link_node cert_11 [6]"
    and ?b = "sample_link_node (cheap_cert B512) [7]"
  let ?thief = "?m\<lparr>ln_cert := cert_11, ln_pow := ln_pow ?v\<rparr>"
  let ?ms1 = "handshake_msgs toy_prims (sample_draw 3) (sample_draw 4) ?m ?v"
    and ?ms2 = "handshake_msgs toy_prims (sample_draw 3) (sample_draw 4) ?thief ?b"
  let ?ms = "?ms1 @ ?ms2"
  have fits: "\<forall>x \<in> set ?ms. serde_fits (table_enc ?ms) (table_dec ?ms) x"
    by (intro ballI table_serde) (simp_all add: handshake_msgs_def)
  have late: "\<not> dr_late (sample_draw x) k" for x k by (simp add: sample_draw_def)
  have pow: "verify_admission toy_argon (ln_cert ?m) (ln_pow ?m)" "verify_admission toy_argon cert_11 (ln_pow ?v)"
    by (simp_all add: verify_admission_def toy_argon_def sample_link_node_def)
  have certs: "cert_verify r (ln_cert ?m) = Returns True" for r by (simp add: sample_link_node_def cheap_cert_verifies)
  obtain wa wb sa where run: "initiate toy_prims (table_enc ?ms) (table_dec ?ms) (sample_draw 3) ?m wb
      = (wa, Returns (Inr (sa, [], own_handshake toy_prims ?v)))"
    by (rule handshake_run [of toy_prims "sample_draw 3" "sample_draw 4" ?m ?v "table_enc ?ms" "table_dec ?ms" toy_argon])
      (use fits late certs pow in auto)
  have ack: "cert_from_wire toy_prims (hk_cert (own_handshake toy_prims ?v)) = Inr cert_11"
      "hk_pow (own_handshake toy_prims ?v) = ln_pow ?v"
    by (simp_all add: own_handshake_def sample_link_node_def cert_wire_roundtrip)
  have "\<exists>wa wb b' pb. handle_incoming toy_prims toy_argon (table_enc ?ms) (table_dec ?ms) (0, 0) 100 (sample_draw 4)
        (V4 (Ipv4 10 0 0 9)) ?b wa = (b', wb, Returns (Inr ()))
      \<and> hm_get (ln_peers b') (cert_node_id toy_prims cert_11) = Some pb
      \<and> pi_node_id (lp_info pb) = cert_node_id toy_prims cert_11
      \<and> hm_get (ln_contacts b') (cert_node_id toy_prims cert_11) = Some (p_x25519_pub toy_prims (ln_secret ?m))"
  proof (rule handshake_proves_no_identity [OF _ _ _ _ run ack(1)])
    show "?thief = ?m\<lparr>ln_cert := cert_11, ln_pow := hk_pow (own_handshake toy_prims ?v)\<rparr>" by (simp only: ack(2))
    show "cert_node_id toy_prims cert_11 \<noteq> ln_node_id toy_prims ?b"
      by (simp add: ln_node_id_def sample_link_node_def sample_ids)
    show "verify_admission toy_argon cert_11 (hk_pow (own_handshake toy_prims ?v))" by (simp only: ack(2) pow(2))
    show "fst (allow_connection (fst (0, 0)) (V4 (Ipv4 10 0 0 9)) (ln_dos ?b))"
      by (simp add: sample_link_node_def dos_new_def allow_connection_def)
    show "hm_get (ln_peers ?b) (cert_node_id toy_prims cert_11) = None" by (simp add: sample_link_node_def)
  qed (use fits late cert_11_verifies in auto)
  moreover have "p_x25519_pub toy_prims (ln_secret ?m) = 5 # replicate 31 0"
    by (simp add: toy_prims_def sample_link_node_def)
  ultimately show ?thesis unfolding sample_ids by (simp only:) blast
qed

end
