(* ===== verification/Rotation.thy ===== *)
theory Rotation
  imports Handshake Com GuardSample
begin

section \<open>Rotating certificates and exchanging peers\<close>

text \<open>
  Messages on an established link (phinet-core/src/node.rs): the announcement of a new certificate
  (\<open>rotation_loop\<close>, \<open>compute_rotation_sig\<close>), its verification and application (\<open>verify_rotation\<close>,
  \<open>handle_cert_rotate\<close>), and the two routing-table messages. The JSON of a certificate is a pair of functions; the
  certificate that \<open>rotate\<close> found is an argument (\<open>Cert.cert_rotate\<close> is the search). Then the other operations on the
  same state: learning contacts, reaping silent peers (\<open>reap_dead_peers\<close>), keeping guards
  (\<open>maintain_guards_from_consensus\<close>, \<open>new_identity\<close>). The relation \<open>link_step\<close> has all of them, the handshakes
  included; each operation runs to its end before the next one starts, and a guard dial that times out has not reached
  the registration of the peer.

  Shown: an announcement of a peer is accepted and moves its entry to the new identity; the reader of a link keeps
  the identity it was started with, so a second announcement is ignored; what holds of the link state in every run; and
  a node that has rotated fails every handshake it initiates, because its proof of work is for the old certificate.
\<close>

subsection \<open>Announcing\<close>

definition compute_rotation_sig :: "prims \<Rightarrow> bytes \<Rightarrow> bytes \<Rightarrow> bytes \<Rightarrow> string \<Rightarrow> u64 \<Rightarrow> u64 \<Rightarrow> bytes" where
  "compute_rotation_sig P link_key old_node_id new_node_id new_cert_json seq ts =
     p_hmac_sha256 P link_key (ascii ''phinet-cert-rotate-v1:'' @ old_node_id @ new_node_id @ ascii new_cert_json
       @ to_be seq @ to_be ts)"

definition rotation_msg :: "prims \<Rightarrow> bytes \<Rightarrow> bytes \<Rightarrow> bytes \<Rightarrow> string \<Rightarrow> u64 \<Rightarrow> u64 \<Rightarrow> cert_rotation" where
  "rotation_msg P link_key old_id new_id json seq ts =
     \<lparr> cr_old_node_id = p_hex_encode P old_id, cr_new_node_id = p_hex_encode P new_id, cr_new_cert_json = json,
       cr_seq = seq, cr_ts = ts, cr_link_sig = p_hex_encode P (compute_rotation_sig P link_key old_id new_id json seq ts) \<rparr>"

definition rotation_round ::
  "prims \<Rightarrow> msg_encoder \<Rightarrow> (wire_cert \<Rightarrow> string option) \<Rightarrow> u64 \<Rightarrow> phi_cert option \<Rightarrow> link_node \<Rightarrow> link_node" where
  "rotation_round P enc ser ts rotated n =
     (case rotated of
        None \<Rightarrow> n
      | Some new_cert \<Rightarrow>
          (case ser (cert_to_wire P new_cert) of
             None \<Rightarrow> n
           | Some json \<Rightarrow>
               let seq = ln_rotation_seq n + 1;
                   announce = (\<lambda>peer. peer_send P enc (LmCertRotate (rotation_msg P (rotation_link_key P (lp_session peer))
                     (ln_node_id P n) (cert_node_id P new_cert) json seq ts)) peer)
               in n\<lparr>ln_rotation_seq := seq, ln_cert := new_cert,
                    ln_peers := map (\<lambda>(pid, peer). (pid, announce peer)) (ln_peers n)\<rparr>))"

subsection \<open>Accepting\<close>

definition hex32 :: "prims \<Rightarrow> string \<Rightarrow> string \<Rightarrow> string \<Rightarrow> bytes result" where
  "hex32 P bad_hex bad_length s =
     and_then (ok_or (Crypto bad_hex) (p_hex_decode P s)) (\<lambda>v. if length v \<noteq> 32 then Inl (Crypto bad_length) else Inr v)"

definition check_rotation_sig :: "prims \<Rightarrow> bytes \<Rightarrow> cert_rotation \<Rightarrow> bytes result" where
  "check_rotation_sig P link_key msg =
     and_then (hex32 P ''cert rotate: bad old_node_id hex'' ''cert rotate: old_node_id not 32 bytes'' (cr_old_node_id msg)) (\<lambda>old_id.
     and_then (hex32 P ''cert rotate: bad new_node_id hex'' ''cert rotate: new_node_id not 32 bytes'' (cr_new_node_id msg)) (\<lambda>new_id.
     and_then (hex32 P ''cert rotate: bad sig hex'' ''cert rotate: sig not 32 bytes'' (cr_link_sig msg)) (\<lambda>sig.
       if sig \<noteq> compute_rotation_sig P link_key old_id new_id (cr_new_cert_json msg) (cr_seq msg) (cr_ts msg)
       then Inl AuthFailed else Inr new_id)))"

definition verify_rotation ::
  "prims \<Rightarrow> (string \<Rightarrow> wire_cert option) \<Rightarrow> (nat \<Rightarrow> nat list) \<Rightarrow> bytes \<Rightarrow> cert_rotation \<Rightarrow> phi_cert result outcome" where
  "verify_rotation P de r link_key msg =
     (case check_rotation_sig P link_key msg of
        Inl e \<Rightarrow> Returns (Inl e)
      | Inr new_id \<Rightarrow>
          (case and_then (ok_or (Crypto ''cert rotate: json'') (de (cr_new_cert_json msg))) (cert_from_wire P) of
             Inl e \<Rightarrow> Returns (Inl e)
           | Inr new_cert \<Rightarrow>
               (case cert_verify r new_cert of
                  Panics \<Rightarrow> Panics
                | Returns ok \<Rightarrow>
                    Returns (if \<not> ok then Inl (Crypto ''cert rotate: math failed'')
                      else if cert_node_id P new_cert \<noteq> new_id then Inl (Crypto ''cert rotate: node_id binding mismatch'')
                      else Inr new_cert))))"

text \<open>\<open>src\<close> is the connection as the reader task holds it.\<close>

definition rekey_peer :: "prims \<Rightarrow> u64 \<Rightarrow> link_peer \<Rightarrow> bytes \<Rightarrow> bytes \<Rightarrow> wire_cert \<Rightarrow> link_node \<Rightarrow> link_node" where
  "rekey_peer P now src old_id new_id cert n =
     (case hm_get (ln_peers n) old_id of
        None \<Rightarrow> n
      | Some peer \<Rightarrow>
          let info = (lp_info peer)\<lparr>pi_node_id := new_id, pi_cert := cert\<rparr>;
              guards = (if is_guard P old_id (ln_guards n)
                        then note_guard P now new_id (pi_host (lp_info src)) (pi_port (lp_info src)) (ln_guards n)
                        else ln_guards n)
          in n\<lparr>ln_peers := hm_insert new_id (peer\<lparr>lp_info := info, lp_last_seen := now\<rparr>) (hm_remove old_id (ln_peers n)),
               ln_routing := add_peer info (snd (remove_peer old_id (ln_routing n))),
               ln_guards := guards\<rparr>)"

definition handle_cert_rotate ::
  "prims \<Rightarrow> (string \<Rightarrow> wire_cert option) \<Rightarrow> (nat \<Rightarrow> nat list) \<Rightarrow> u64 \<Rightarrow> cert_rotation \<Rightarrow> link_peer \<Rightarrow> link_node
     \<Rightarrow> link_node \<times> unit outcome" where
  "handle_cert_rotate P de r now msg src n =
     (case (hex_array P 32 (cr_old_node_id msg), hex_array P 32 (cr_new_node_id msg)) of
        (Some old_id, Some new_id) \<Rightarrow>
          if pi_node_id (lp_info src) \<noteq> old_id then (n, Returns ())
          else
            (case hm_get (ln_peers n) old_id of
               None \<Rightarrow> (n, Returns ())
             | Some peer \<Rightarrow>
                 let prev = (case hm_get (ln_seen_seqs n) old_id of Some q \<Rightarrow> q | None \<Rightarrow> 0) in
                 if cr_seq msg \<le> prev then (n, Returns ())
                 else
                   let n1 = n\<lparr>ln_seen_seqs := hm_insert old_id (cr_seq msg) (ln_seen_seqs n)\<rparr> in
                   (case verify_rotation P de r (rotation_link_key P (lp_session peer)) msg of
                      Panics \<Rightarrow> (n1, Panics)
                    | Returns (Inl _) \<Rightarrow> (n1, Returns ())
                    | Returns (Inr _) \<Rightarrow>
                        (case de (cr_new_cert_json msg) of
                           None \<Rightarrow> (n1, Returns ())
                         | Some cert \<Rightarrow> (rekey_peer P now src old_id new_id cert n1, Returns ()))))
      | _ \<Rightarrow> (n, Returns ()))"

subsection \<open>Routing-table messages\<close>

text \<open>The reply to \<open>DhtFind\<close>, handed to the connection it came from.\<close>

definition dht_peer_of :: "prims \<Rightarrow> wire_cert peer_info \<Rightarrow> dht_peer" where
  "dht_peer_of P p = \<lparr> dp_node_id = p_hex_encode P (pi_node_id p), dp_host = pi_host p, dp_port = pi_port p,
     dp_cert = pi_cert p, dp_static_pub = pi_static_pub p \<rparr>"

definition handle_dht_find :: "prims \<Rightarrow> msg_encoder \<Rightarrow> string \<Rightarrow> string \<Rightarrow> link_peer \<Rightarrow> link_node \<Rightarrow> link_peer" where
  "handle_dht_find P enc req_id target src n =
     (let t = (case hex_array P 32 target of Some t \<Rightarrow> t | None \<Rightarrow> replicate 32 0);
          nodes = map (dht_peer_of P) (closest t DHT_K (ln_routing n))
      in peer_send P enc (LmDhtFound req_id target nodes) src)"

fun handle_dht_found :: "prims \<Rightarrow> dht_peer list \<Rightarrow> link_node \<Rightarrow> link_node" where
  "handle_dht_found P [] n = n"
| "handle_dht_found P (d # ds) n =
     handle_dht_found P ds
       (case hex_array P 32 (dp_node_id d) of
          None \<Rightarrow> n
        | Some i \<Rightarrow> n\<lparr>ln_routing := add_peer \<lparr> pi_node_id = i, pi_host = dp_host d, pi_port = dp_port d,
            pi_cert = dp_cert d, pi_static_pub = dp_static_pub d \<rparr> (ln_routing n)\<rparr>)"

subsection \<open>Contacts, silent peers and guards\<close>

text \<open>What \<open>handle_com\<close> and \<open>com_add_contact\<close> learn about the static keys of others (the rest of the handler is
  \<open>ComNode.handle_com\<close>).\<close>

definition learn_contact :: "bytes \<Rightarrow> bytes \<Rightarrow> link_node \<Rightarrow> link_node" where
  "learn_contact i pub n = n\<lparr>ln_contacts := hm_insert i pub (ln_contacts n)\<rparr>"

definition handle_com_contact :: "prims \<Rightarrow> com_envelope \<Rightarrow> link_node \<Rightarrow> link_node" where
  "handle_com_contact P env n =
     (case open_com P (ln_secret n) (p_x25519_pub P (ln_secret n)) env of
        Inl _ \<Rightarrow> n
      | Inr opened \<Rightarrow> learn_contact (om_sender_id opened) (om_sender_pub opened) n)"

definition STALE_PEER_SECS :: u64 where "STALE_PEER_SECS = 90"

definition idle_secs :: "u64 \<Rightarrow> link_peer \<Rightarrow> u64" where
  "idle_secs now p = (if lp_last_seen p \<le> now then now - lp_last_seen p else 0)"

definition reap_peer :: "prims \<Rightarrow> nat \<Rightarrow> bytes \<Rightarrow> link_node \<Rightarrow> link_node" where
  "reap_peer P clock i n =
     n\<lparr>ln_peers := hm_remove i (ln_peers n), ln_routing := snd (remove_peer i (ln_routing n)),
       ln_guards := guard_mark_failure P i clock (ln_guards n)\<rparr>"

definition reap_dead_peers :: "prims \<Rightarrow> u64 \<Rightarrow> nat \<Rightarrow> link_node \<Rightarrow> bytes list \<times> link_node" where
  "reap_dead_peers P now clock n =
     (let dead = map fst (filter (\<lambda>(i, p). STALE_PEER_SECS < idle_secs now p) (ln_peers n))
      in (dead, fold (reap_peer P clock) dead n))"

text \<open>
  The first half of \<open>maintain_guards_from_consensus\<close>, which does not wait for anything: guards that are not in the
  consensus are dropped, the sample is extended, and its primary guards are offered.
\<close>

definition listed_ids :: "prims \<Rightarrow> bytes \<Rightarrow> peer_entry list \<Rightarrow> bytes list" where
  "listed_ids P me entries =
     filter (\<lambda>i. i \<noteq> me) (List.map_filter (\<lambda>p. hex_array P 32 (pe_node_id_hex p)) entries)"

definition offer_guard :: "prims \<Rightarrow> bytes \<Rightarrow> nat \<Rightarrow> string list \<Rightarrow> peer_entry \<Rightarrow> guard_entry list \<Rightarrow> guard_entry list" where
  "offer_guard P me now primary p g =
     (if pe_node_id_hex p \<notin> set primary then g
      else case hex_array P 32 (pe_node_id_hex p) of
          None \<Rightarrow> g
        | Some i \<Rightarrow> if i = me then g else snd (guard_add_candidate P i (pe_host p) (pe_port p) now g))"

definition pin_guards ::
  "prims \<Rightarrow> shuffle \<Rightarrow> nat \<Rightarrow> peer_entry list \<Rightarrow> sampled_set \<Rightarrow> link_node \<Rightarrow> sampled_set \<times> link_node" where
  "pin_guards P shuffle now entries smp n =
     (let me = ln_node_id P n;
          kept = snd (guard_retain_ids P (listed_ids P me entries) (ln_guards n));
          live = filter (\<lambda>s. s \<noteq> p_hex_encode P me) (map pe_node_id_hex entries);
          smp' = snd (maybe_extend shuffle live live now smp)
      in (smp', n\<lparr>ln_guards := fold (offer_guard P me now (ss_primary smp' live)) entries kept\<rparr>))"

text \<open>
  The second half: for each guard of the list as it was, in turn. \<open>linked\<close> are the peers as they were; a dial
  that times out has not reached the registration of the peer.
\<close>

record guard_dial =
  gd_draw :: hs_draw
  gd_now :: u64
  gd_stream :: "bytes option"
  gd_timeout :: bool
  gd_clock :: nat

definition dial_guard ::
  "prims \<Rightarrow> msg_encoder \<Rightarrow> msg_decoder \<Rightarrow> nat \<Rightarrow> bytes list \<Rightarrow> guard_entry \<Rightarrow> guard_dial \<Rightarrow> link_node
     \<Rightarrow> link_node \<times> unit outcome" where
  "dial_guard P enc dec now linked g d n =
     (case node_id_bytes P g of
        Inl _ \<Rightarrow> (n, Returns ())
      | Inr i \<Rightarrow>
          let ok = (\<lambda>n. n\<lparr>ln_guards := guard_mark_success P i (gd_clock d) (ln_guards n)\<rparr>);
              failed = (\<lambda>n. n\<lparr>ln_guards := guard_mark_failure P i (gd_clock d) (ln_guards n)\<rparr>)
          in if i \<in> set linked then (ok n, Returns ())
             else if \<not> should_try g now then (n, Returns ())
             else if gd_timeout d then (failed n, Returns ())
             else case connect P enc dec (gd_now d) (gd_draw d) (ge_host g) (ge_port g) n (gd_stream d) of
                 (n1, _, Returns (Inr _)) \<Rightarrow> (ok n1, Returns ())
               | (n1, _, Returns (Inl _)) \<Rightarrow> (failed n1, Returns ())
               | (n1, _, Panics) \<Rightarrow> (n1, Panics))"

fun dial_guards ::
  "prims \<Rightarrow> msg_encoder \<Rightarrow> msg_decoder \<Rightarrow> nat \<Rightarrow> bytes list \<Rightarrow> (guard_entry \<times> guard_dial) list \<Rightarrow> link_node
     \<Rightarrow> link_node \<times> unit outcome" where
  "dial_guards P enc dec now linked [] n = (n, Returns ())"
| "dial_guards P enc dec now linked ((g, d) # gs) n =
     (case dial_guard P enc dec now linked g d n of
        (n1, Panics) \<Rightarrow> (n1, Panics)
      | (n1, Returns _) \<Rightarrow> dial_guards P enc dec now linked gs n1)"

text \<open>\<open>entries\<close> are those of the cached consensus, if there is one; one dial is given for each guard.\<close>

definition maintain_guards ::
  "prims \<Rightarrow> msg_encoder \<Rightarrow> msg_decoder \<Rightarrow> shuffle \<Rightarrow> nat \<Rightarrow> nat \<Rightarrow> (nat \<Rightarrow> guard_dial) \<Rightarrow> peer_entry list option
     \<Rightarrow> sampled_set \<Rightarrow> link_node \<Rightarrow> sampled_set \<times> link_node \<times> unit outcome" where
  "maintain_guards P enc dec shuffle now dial_now dial entries smp n =
     (case entries of
        None \<Rightarrow> (smp, n, Returns ())
      | Some es \<Rightarrow>
          let (smp', n1) = pin_guards P shuffle now es smp n;
              gs = ln_guards n1
          in (smp', dial_guards P enc dec dial_now (map fst (ln_peers n1)) (zip gs (map dial [0..<length gs])) n1))"

definition new_identity ::
  "prims \<Rightarrow> msg_encoder \<Rightarrow> msg_decoder \<Rightarrow> shuffle \<Rightarrow> nat \<Rightarrow> nat \<Rightarrow> (nat \<Rightarrow> guard_dial) \<Rightarrow> peer_entry list option
     \<Rightarrow> sampled_set \<Rightarrow> link_node \<Rightarrow> sampled_set \<times> link_node \<times> unit outcome" where
  "new_identity P enc dec shuffle now dial_now dial entries smp n =
     maintain_guards P enc dec shuffle now dial_now dial entries smp
       (n\<lparr>ln_guards := snd (guard_retain_ids P [] (ln_guards n))\<rparr>)"

subsection \<open>Rotation between two nodes\<close>

lemma hm_get_map_values: "hm_get (map (\<lambda>(k, v). (k, f v)) m) k = map_option f (hm_get m k)"
  by (induction m) auto

text \<open>The two ends of a link hold mirrored keys.\<close>

definition mirrored :: "link_peer \<Rightarrow> link_peer \<Rightarrow> bool" where
  "mirrored p q \<longleftrightarrow> se_send_key (lp_session p) = se_recv_key (lp_session q) \<and> se_recv_key (lp_session p) = se_send_key (lp_session q)"

lemma mirrored_key: "mirrored p q \<Longrightarrow> rotation_link_key P (lp_session p) = rotation_link_key P (lp_session q)"
  by (simp add: mirrored_def rotation_link_key_agrees)

lemma send_session_keys:
  "send_session P enc m s = (s', r) \<Longrightarrow> se_send_key s' = se_send_key s \<and> se_recv_key s' = se_recv_key s"
  by (auto simp: send_session_def split_beta split: sum.splits)

lemma peer_send_mirrored [simp]: "mirrored (peer_send P enc m p) q \<longleftrightarrow> mirrored p q"
  by (auto simp: mirrored_def peer_send_def split: prod.split sum.split dest: send_session_keys)

lemma rotation_sends:
  assumes "ser (cert_to_wire P c) = Some json" "hm_get (ln_peers a) x = Some p"
  shows "hm_get (ln_peers (rotation_round P enc ser ts (Some c) a)) x
    = Some (peer_send P enc (LmCertRotate (rotation_msg P (rotation_link_key P (lp_session p)) (ln_node_id P a)
        (cert_node_id P c) json (ln_rotation_seq a + 1) ts)) p)"
  using assms by (simp add: rotation_round_def hm_get_map_values Let_def)

lemma rotation_state:
  assumes "ser (cert_to_wire P c) = Some json"
  shows "ln_cert (rotation_round P enc ser ts (Some c) a) = c"
    "ln_rotation_seq (rotation_round P enc ser ts (Some c) a) = ln_rotation_seq a + 1"
    "ln_node_id P (rotation_round P enc ser ts (Some c) a) = cert_node_id P c"
    "ln_pow (rotation_round P enc ser ts (Some c) a) = ln_pow a"
  using assms by (simp_all add: rotation_round_def ln_node_id_def Let_def)

lemma own_rotation_checks:
  assumes "hex_ok P" "kdf_ok P" "length i = 32" "length j = 32"
  shows "check_rotation_sig P key (rotation_msg P key i j json seq ts) = Inr j"
proof -
  have "length (compute_rotation_sig P key i j json seq ts) = 32" using assms(2) by (simp add: compute_rotation_sig_def kdf_ok_def)
  then show ?thesis using assms by (simp add: check_rotation_sig_def hex32_def rotation_msg_def hex_ok_def)
qed

lemma own_rotation_verifies:
  assumes "hex_ok P" "kdf_ok P" "sha256_ok P" "length i = 32" "de json = Some (cert_to_wire P c)" "cert_verify r c = Returns True"
  shows "verify_rotation P de r key (rotation_msg P key i (cert_node_id P c) json seq ts) = Returns (Inr c)"
proof -
  have "length (cert_node_id P c) = 32" using assms(3) by (simp add: cert_node_id_def sha256_ok_def)
  note own_rotation_checks [OF assms(1,2,4) this, of key json seq ts]
  then show ?thesis
    using assms(5,6) by (simp add: verify_rotation_def rotation_msg_def cert_wire_roundtrip [OF assms(1)])
qed

lemma rotation_applied:
  assumes "hex_ok P" "kdf_ok P" "sha256_ok P" "length i = 32" "de json = Some (cert_to_wire P c)" "cert_verify r c = Returns True"
    and "pi_node_id (lp_info src) = i" "hm_get (ln_peers b) i = Some p"
    and "(case hm_get (ln_seen_seqs b) i of Some q \<Rightarrow> q | None \<Rightarrow> 0) < seq"
  shows "handle_cert_rotate P de r now
      (rotation_msg P (rotation_link_key P (lp_session p)) i (cert_node_id P c) json seq ts) src b
    = (rekey_peer P now src i (cert_node_id P c) (cert_to_wire P c)
        (b\<lparr>ln_seen_seqs := hm_insert i seq (ln_seen_seqs b)\<rparr>), Returns ())"
proof -
  have "length (cert_node_id P c) = 32" using assms(3) by (simp add: cert_node_id_def sha256_ok_def)
  moreover note own_rotation_verifies [where de = de, OF assms(1-6), of "rotation_link_key P (lp_session p)" seq ts]
  moreover have "\<not> seq \<le> (case hm_get (ln_seen_seqs b) i of Some q \<Rightarrow> q | None \<Rightarrow> 0)" using assms(9) by simp
  ultimately show ?thesis
    using assms(1,4,5,7,8) by (simp add: handle_cert_rotate_def rotation_msg_def Let_def)
qed

lemma rekey_peer_moves:
  assumes "hm_get (ln_peers n) i = Some p" "i \<noteq> j"
  shows "hm_get (ln_peers (rekey_peer P now src i j cert n)) j
      = Some (p\<lparr>lp_info := (lp_info p)\<lparr>pi_node_id := j, pi_cert := cert\<rparr>, lp_last_seen := now\<rparr>)"
    "hm_wf (ln_peers n) \<Longrightarrow> hm_get (ln_peers (rekey_peer P now src i j cert n)) i = None"
    "ln_routing (rekey_peer P now src i j cert n)
      = add_peer ((lp_info p)\<lparr>pi_node_id := j, pi_cert := cert\<rparr>) (snd (remove_peer i (ln_routing n)))"
  using assms by (simp_all add: rekey_peer_def Let_def update_conv' delete_conv')

lemma rotation_of_other_ignored:
  assumes "pi_node_id (lp_info src) \<noteq> i" "hex_ok P" "length i = 32"
  shows "handle_cert_rotate P de r now (rotation_msg P key i j json seq ts) src n = (n, Returns ())"
  using assms by (simp add: handle_cert_rotate_def rotation_msg_def split: option.split)

text \<open>C37: The announcement a node sends to a peer when it rotates its certificate is accepted by that peer, whatever bases
  the peer draws: its entry moves to the new identity with the same session, queue and address, in the table of links
  and in the routing table, and the sequence number is recorded.
\<close>

theorem rotation_accepted:
  assumes "hex_ok P" "kdf_ok P" "sha256_ok P" "ser (cert_to_wire P c) = Some json" "de json = Some (cert_to_wire P c)"
    and "\<forall>r. cert_verify r c = Returns True" "cert_node_id P c \<noteq> ln_node_id P a"
    and "hm_get (ln_peers a) x = Some p" "hm_get (ln_peers b) (ln_node_id P a) = Some q" "mirrored p q"
    and "pi_node_id (lp_info q) = ln_node_id P a" "hm_wf (ln_peers b)"
    and "(case hm_get (ln_seen_seqs b) (ln_node_id P a) of Some s \<Rightarrow> s | None \<Rightarrow> 0) < ln_rotation_seq a + 1"
  shows "\<exists>msg b' q'. hm_get (ln_peers (rotation_round P enc ser ts (Some c) a)) x = Some (peer_send P enc (LmCertRotate msg) p)
    \<and> handle_cert_rotate P de r now msg q b = (b', Returns ())
    \<and> hm_get (ln_peers b') (ln_node_id P a) = None \<and> hm_get (ln_peers b') (cert_node_id P c) = Some q'
    \<and> lp_session q' = lp_session q \<and> lp_frames q' = lp_frames q \<and> pi_host (lp_info q') = pi_host (lp_info q)
    \<and> ln_routing b' = add_peer (lp_info q') (snd (remove_peer (ln_node_id P a) (ln_routing b)))
    \<and> hm_get (ln_seen_seqs b') (ln_node_id P a) = Some (ln_rotation_seq a + 1)"
proof -
  let ?key = "rotation_link_key P (lp_session q)" and ?i = "ln_node_id P a"
  let ?msg = "rotation_msg P ?key ?i (cert_node_id P c) json (ln_rotation_seq a + 1) ts"
  let ?b1 = "b\<lparr>ln_seen_seqs := hm_insert ?i (ln_rotation_seq a + 1) (ln_seen_seqs b)\<rparr>"
  have i: "length ?i = 32" using assms(3) by (simp add: ln_node_id_def cert_node_id_def sha256_ok_def)
  have sent: "hm_get (ln_peers (rotation_round P enc ser ts (Some c) a)) x = Some (peer_send P enc (LmCertRotate ?msg) p)"
    using rotation_sends [where ser = ser, OF assms(4,8)] mirrored_key [OF assms(10)] by metis
  have got: "handle_cert_rotate P de r now ?msg q b = (rekey_peer P now q ?i (cert_node_id P c) (cert_to_wire P c) ?b1, Returns ())"
    by (rule rotation_applied [where p = q and de = de]) (use assms i in auto)
  have q: "hm_get (ln_peers ?b1) ?i = Some q" using assms(9) by simp
  have wf: "hm_wf (ln_peers ?b1)" using assms(12) by simp
  note moved = rekey_peer_moves [OF q assms(7) [symmetric], of P now q "cert_to_wire P c"]
  show ?thesis
    by (intro exI [of _ ?msg] exI conjI, rule sent, rule got, rule moved(2) [OF wf], rule moved(1))
      (simp_all add: moved(3), simp add: rekey_peer_def q [simplified] Let_def update_conv')
qed

text \<open>After an accepted announcement, the reader of that link still holds the identity the link was registered under:
  the next announcement of the same node is ignored, and when the link ends the entry of the identity it had moved to
  is left in the table.
\<close>

theorem second_rotation_ignored:
  assumes "hex_ok P" "kdf_ok P" "sha256_ok P" "ser (cert_to_wire P c) = Some json" "de json = Some (cert_to_wire P c)"
    and "\<forall>r. cert_verify r c = Returns True" "cert_node_id P c \<noteq> ln_node_id P a"
    and "hm_get (ln_peers a) x = Some p" "hm_get (ln_peers b) (ln_node_id P a) = Some q" "mirrored p q"
    and "pi_node_id (lp_info q) = ln_node_id P a"
    and "(case hm_get (ln_seen_seqs b) (ln_node_id P a) of Some s \<Rightarrow> s | None \<Rightarrow> 0) < ln_rotation_seq a + 1"
    and "a1 = rotation_round P enc ser ts (Some c) a" "ser (cert_to_wire P c2) = Some json2"
  shows "\<exists>msg msg2 p1 b1. hm_get (ln_peers a1) x = Some p1 \<and> p1 = peer_send P enc (LmCertRotate msg) p
    \<and> handle_cert_rotate P de r now msg q b = (b1, Returns ())
    \<and> hm_get (ln_peers (rotation_round P enc ser ts2 (Some c2) a1)) x = Some (peer_send P enc (LmCertRotate msg2) p1)
    \<and> handle_cert_rotate P de r now2 msg2 q b1 = (b1, Returns ())
    \<and> hm_get (ln_peers (reader_ended (pi_node_id (lp_info q)) b1)) (cert_node_id P c) \<noteq> None"
proof -
  let ?i = "ln_node_id P a"
  let ?msg = "rotation_msg P (rotation_link_key P (lp_session q)) ?i (cert_node_id P c) json (ln_rotation_seq a + 1) ts"
  let ?b1 = "b\<lparr>ln_seen_seqs := hm_insert ?i (ln_rotation_seq a + 1) (ln_seen_seqs b)\<rparr>"
  let ?b2 = "rekey_peer P now q ?i (cert_node_id P c) (cert_to_wire P c) ?b1"
  let ?p1 = "peer_send P enc (LmCertRotate ?msg) p"
  have i: "length ?i = 32" "length (cert_node_id P c) = 32"
    using assms(3) by (simp_all add: ln_node_id_def cert_node_id_def sha256_ok_def)
  have sent: "hm_get (ln_peers a1) x = Some ?p1"
    using rotation_sends [where ser = ser, OF assms(4,8)] mirrored_key [OF assms(10)] assms(13) by metis
  have got: "handle_cert_rotate P de r now ?msg q b = (?b2, Returns ())"
    by (rule rotation_applied [where p = q and de = de]) (use assms i in auto)
  have q: "hm_get (ln_peers ?b1) ?i = Some q" using assms(9) by simp
  have id1: "ln_node_id P a1 = cert_node_id P c" using rotation_state(3) [where ser = ser, OF assms(4)] assms(13) by simp
  have ignored: "handle_cert_rotate P de r now2 (rotation_msg P key (cert_node_id P c) j json2 seq ts2) q ?b2 = (?b2, Returns ())"
    for key j seq by (rule rotation_of_other_ignored) (use assms(1,7,11) i in auto)
  have left: "hm_get (ln_peers (reader_ended (pi_node_id (lp_info q)) ?b2)) (cert_node_id P c) \<noteq> None"
    using rekey_peer_moves(1) [OF q assms(7) [symmetric]] assms(7,11) by (simp add: reader_ended_def delete_conv')
  show ?thesis
    by (intro exI conjI, rule sent, rule refl, rule got, rule rotation_sends [where ser = ser, OF assms(14) sent, unfolded id1], rule ignored, rule left)
qed

definition sample_link_peer :: "bytes \<Rightarrow> bool \<Rightarrow> link_peer" where
  "sample_link_peer i initiator = \<lparr> lp_info = \<lparr> pi_node_id = i, pi_host = ''10.0.0.1'', pi_port = 7700,
       pi_cert = cert_to_wire toy_prims cert_11, pi_static_pub = [] \<rparr>,
     lp_session = session_new toy_prims [1] initiator, lp_frames = [], lp_last_seen = 0, lp_remote_ip = None \<rparr>"

lemma sample_mirrored: "mirrored (sample_link_peer i True) (sample_link_peer j False)"
  by (simp add: mirrored_def sample_link_peer_def session_new_def Let_def)

theorem rotation_accepted_witness:
  "\<exists>msg b'. handle_cert_rotate toy_prims (\<lambda>_. Some (cert_to_wire toy_prims cert_11)) (\<lambda>_. []) 60 msg
       (sample_link_peer (replicate 31 0 @ [57]) False)
       (sample_link_node cert_11 [6]\<lparr>ln_peers := [(replicate 31 0 @ [57], sample_link_peer (replicate 31 0 @ [57]) False)]\<rparr>)
       = (b', Returns ())
    \<and> hm_get (ln_peers b') (replicate 31 0 @ [57]) = None \<and> hm_get (ln_peers b') (replicate 31 0 @ [53]) \<noteq> None"
proof -
  let ?i = "replicate 31 0 @ [57] :: bytes"
  let ?a = "sample_link_node (cheap_cert B256) [5]\<lparr>ln_peers := [([1], sample_link_peer [1] True)]\<rparr>"
    and ?b = "sample_link_node cert_11 [6]\<lparr>ln_peers := [(?i, sample_link_peer ?i False)]\<rparr>"
  have ids: "ln_node_id toy_prims ?a = ?i" "cert_node_id toy_prims cert_11 = replicate 31 0 @ [53]"
    by (simp_all add: ln_node_id_def sample_link_node_def sample_ids)
  show ?thesis
    using rotation_accepted [of toy_prims "\<lambda>_. Some ''json''" cert_11 "''json''" "\<lambda>_. Some (cert_to_wire toy_prims cert_11)" ?a
        "[1]" "sample_link_peer [1] True" ?b "sample_link_peer ?i False" "\<lambda>_. Inl Closed" 50 "\<lambda>_. []" 60]
    unfolding ids by (simp add: cert_11_verifies sample_mirrored) (auto simp: sample_link_peer_def sample_link_node_def hm_wf_def)
qed

subsection \<open>Handshakes after a rotation\<close>

lemma invalid_pow_refused:
  assumes "hex_ok P" "dh_ok P" "kdf_ok P" "aead_ok P"
    and "\<forall>m \<in> set (LmReject ''invalid pow'' # handshake_msgs P da db a b). serde_fits enc dec m"
    and "\<not> dr_late da 0" "\<not> dr_late db 0" "\<not> dr_late db 1"
    and "cert_verify (dr_bases db) (ln_cert a) = Returns True" "\<not> verify_admission A (ln_cert a) (ln_pow a)"
  obtains wa wb where
    "initiate P enc dec da a wb = (wa, Returns (Inl (Handshake ''invalid pow'')))"
    "respond P A enc dec db host b wa = (wb, Returns (Inl (Handshake ''invalid PoW'')))"
proof -
  define s where "s = session_new P (p_x25519 P (dr_ephem da) (p_x25519_pub P (dr_ephem db))) True"
  define r where "r = session_new P (p_x25519 P (dr_ephem da) (p_x25519_pub P (dr_ephem db))) False"
  have r: "session_new P (p_x25519 P (dr_ephem db) (p_x25519_pub P (dr_ephem da))) False = r"
    unfolding r_def by (rule session_keys_agree [OF assms(2)])
  have f: "feeds s r" "feeds r s" using assms(3) by (simp_all add: s_def r_def)
  have fits: "serde_fits enc dec (LmPowChallenge (p_hex_encode P (dr_challenge db)) 256 (p_hex_encode P (p_x25519_pub P (dr_ephem db))))"
      "serde_fits enc dec (LmClientHello (p_hex_encode P (p_x25519_pub P (dr_ephem da))))"
      "serde_fits enc dec (LmHandshake (own_handshake P a))" "serde_fits enc dec (LmReject ''invalid pow'')"
    using assms(5) by (simp_all add: handshake_msgs_def)
  obtain o1 where o1: "send_raw enc (LmPowChallenge (p_hex_encode P (dr_challenge db)) 256 (p_hex_encode P (p_x25519_pub P (dr_ephem db)))) = Inr o1"
      "\<And>rest. recv_raw dec (o1 @ rest) = (rest, Inr (LmPowChallenge (p_hex_encode P (dr_challenge db)) 256 (p_hex_encode P (p_x25519_pub P (dr_ephem db)))))"
    using raw_exchange [OF fits(1)] by blast
  obtain o2 where o2: "send_raw enc (LmClientHello (p_hex_encode P (p_x25519_pub P (dr_ephem da)))) = Inr o2"
      "\<And>rest. recv_raw dec (o2 @ rest) = (rest, Inr (LmClientHello (p_hex_encode P (p_x25519_pub P (dr_ephem da)))))"
    using raw_exchange [OF fits(2)] by blast
  obtain o3 i where o3: "send_session P enc (LmHandshake (own_handshake P a)) s = (sent_cells i s, Inr o3)"
      "\<And>rest. recv_session P dec r (o3 @ rest) = (got_cells i r, rest, Inr (LmHandshake (own_handshake P a)))"
    using sealed_exchange [OF assms(4) f(1) fits(3)] by blast
  have f2: "feeds (got_cells i r) (sent_cells i s)" using f(2) by (simp add: feeds_def)
  obtain o4 j where o4: "send_session P enc (LmReject ''invalid pow'') (got_cells i r) = (sent_cells j (got_cells i r), Inr o4)"
      "\<And>rest. recv_session P dec (sent_cells i s) (o4 @ rest) = (got_cells j (sent_cells i s), rest, Inr (LmReject ''invalid pow''))"
    using sealed_exchange [OF assms(4) f2 fits(4)] by blast
  have own: "cert_from_wire P (hk_cert (own_handshake P a)) = Inr (ln_cert a)" "hk_pow (own_handshake P a) = ln_pow a"
    by (simp_all add: own_handshake_def cert_wire_roundtrip [OF assms(1)])
  show ?thesis
  proof (rule that)
    show "initiate P enc dec da a (o1 @ o4) = (o2 @ o3, Returns (Inl (Handshake ''invalid pow'')))"
      using o1(2) o2(1) o3(1) o4(2) [of "[]"] assms(1,2,6) by (simp add: initiate_def s_def [symmetric])
    show "respond P A enc dec db host b (o2 @ o3) = (o1 @ o4, Returns (Inl (Handshake ''invalid PoW'')))"
      using o1(1) o2(2) o3(2) [of "[]"] o4(1) assms(1,2,7-10) own
      by (simp add: respond_def answer_handshake_def r refuse_def)
  qed
qed

theorem second_rotation_ignored_witness:
  "\<exists>msg msg2 b1. handle_cert_rotate toy_prims (\<lambda>_. Some (cert_to_wire toy_prims cert_11)) (\<lambda>_. []) 60 msg
       (sample_link_peer (replicate 31 0 @ [57]) False)
       (sample_link_node cert_11 [6]\<lparr>ln_peers := [(replicate 31 0 @ [57], sample_link_peer (replicate 31 0 @ [57]) False)]\<rparr>)
       = (b1, Returns ())
    \<and> handle_cert_rotate toy_prims (\<lambda>_. Some (cert_to_wire toy_prims cert_11)) (\<lambda>_. []) 60 msg2
       (sample_link_peer (replicate 31 0 @ [57]) False) b1 = (b1, Returns ())
    \<and> hm_get (ln_peers (reader_ended (replicate 31 0 @ [57]) b1)) (replicate 31 0 @ [53]) \<noteq> None"
proof -
  let ?i = "replicate 31 0 @ [57] :: bytes"
  let ?a = "sample_link_node (cheap_cert B256) [5]\<lparr>ln_peers := [([1], sample_link_peer [1] True)]\<rparr>"
    and ?b = "sample_link_node cert_11 [6]\<lparr>ln_peers := [(?i, sample_link_peer ?i False)]\<rparr>"
  have ids: "ln_node_id toy_prims ?a = ?i" "cert_node_id toy_prims cert_11 = replicate 31 0 @ [53]"
    by (simp_all add: ln_node_id_def sample_link_node_def sample_ids)
  show ?thesis
    using second_rotation_ignored [of toy_prims "\<lambda>_. Some ''json''" cert_11 "''json''" "\<lambda>_. Some (cert_to_wire toy_prims cert_11)" ?a
        "[1]" "sample_link_peer [1] True" ?b "sample_link_peer ?i False"
        "rotation_round toy_prims (\<lambda>_. Inl Closed) (\<lambda>_. Some ''json'') 50 (Some cert_11) ?a"
        "\<lambda>_. Inl Closed" 50 cert_11 "''json''" "\<lambda>_. []" 60 50 60]
    unfolding ids by (simp add: cert_11_verifies sample_mirrored) (auto simp: sample_link_peer_def sample_link_node_def)
qed

subsection \<open>The routing table\<close>

lemma dht_found_wf:
  assumes "table_wf (ln_routing n)"
  shows "table_wf (ln_routing (handle_dht_found P ds n)) \<and> rt_own_id (ln_routing (handle_dht_found P ds n)) = rt_own_id (ln_routing n)"
  using assms
proof (induction P ds n rule: handle_dht_found.induct)
  case (2 P d ds n)
  then show ?case by (simp add: add_peer_wf split: option.split)
qed simp

subsection \<open>The state of a node\<close>

definition link_wf :: "link_node \<Rightarrow> bool" where
  "link_wf n \<longleftrightarrow> hm_wf (ln_peers n) \<and> (\<forall>i p. hm_get (ln_peers n) i = Some p \<longrightarrow> pi_node_id (lp_info p) = i \<and> length i = 32)
     \<and> table_wf (ln_routing n) \<and> guards.pool_wf (ln_guards n)
     \<and> (\<forall>i k. hm_get (ln_contacts n) i = Some k \<longrightarrow> length k = 32)"

text \<open>
  What changes this state, each operation one step: a connection comes in, is dialled or ends; a node announces a
  certificate, follows an announcement, takes over routing entries; contacts are learned; silent peers are reaped;
  guards are pinned from a consensus, dialled or retired. \<open>step_traffic\<close> stands for all messages that only move a
  session, a queue, a clock or the rate limits of a connection, and for the setters of family and signing key.
\<close>

inductive link_step ::
  "prims \<Rightarrow> argon2 \<Rightarrow> msg_encoder \<Rightarrow> msg_decoder \<Rightarrow> (wire_cert \<Rightarrow> string option) \<Rightarrow> (string \<Rightarrow> wire_cert option)
     \<Rightarrow> link_node \<Rightarrow> link_node \<Rightarrow> bool"
  for P A enc dec ser de where
  step_incoming: "link_step P A enc dec ser de n (fst (handle_incoming P A enc dec t now d ip n stream))"
| step_dialled: "link_step P A enc dec ser de n (fst (connect P enc dec now d host port n dialled))"
| step_closed: "link_step P A enc dec ser de n (reader_ended i n)"
| step_rotates: "link_step P A enc dec ser de n (rotation_round P enc ser ts rotated n)"
| step_rotated: "link_step P A enc dec ser de n (fst (handle_cert_rotate P de r now msg src n))"
| step_found: "link_step P A enc dec ser de n (handle_dht_found P ds n)"
| step_message: "link_step P A enc dec ser de n (handle_com_contact P env n)"
| step_contact: "length pub = 32 \<Longrightarrow> link_step P A enc dec ser de n (learn_contact i pub n)"
| step_reaped: "link_step P A enc dec ser de n (snd (reap_dead_peers P now clock n))"
| step_pinned: "link_step P A enc dec ser de n (snd (pin_guards P shuffle clock entries smp n))"
| step_guard: "link_step P A enc dec ser de n (fst (dial_guard P enc dec clock linked g d n))"
| step_retired: "link_step P A enc dec ser de n (n\<lparr>ln_guards := snd (guard_retain_ids P keep (ln_guards n))\<rparr>)"
| step_traffic: "(\<And>i p. lp_info (f i p) = lp_info p) \<Longrightarrow> link_step P A enc dec ser de n
    (n\<lparr>ln_peers := map (\<lambda>(i, p). (i, f i p)) (ln_peers n), ln_dos := dos, ln_family := fam, ln_signing_key := k\<rparr>)"

text \<open>The loops that keep the guards are runs of these steps.\<close>

lemma dial_guards_run:
  "(link_step P A enc dec ser de)\<^sup>*\<^sup>* n (fst (dial_guards P enc dec clock linked gs n))"
proof (induction gs arbitrary: n)
  case (Cons x gs)
  obtain g d n1 r where e: "x = (g, d)" "dial_guard P enc dec clock linked g d n = (n1, r)" by (metis prod.exhaust)
  have "link_step P A enc dec ser de n n1" using step_guard [of P A enc dec ser de n clock linked g d] e(2) by simp
  then show ?case
    by (rule converse_rtranclp_into_rtranclp) (use Cons.IH [of n1] e in \<open>simp split: outcome.split\<close>)
qed simp

lemma maintain_guards_run:
  "(link_step P A enc dec ser de)\<^sup>*\<^sup>* n (fst (snd (maintain_guards P enc dec shuffle now dial_now dial entries smp n)))"
proof (cases entries)
  case (Some es)
  obtain smp' n1 where e: "pin_guards P shuffle now es smp n = (smp', n1)" by fastforce
  have "link_step P A enc dec ser de n n1" using step_pinned [of P A enc dec ser de n shuffle now es smp] e by simp
  then show ?thesis
    by (rule converse_rtranclp_into_rtranclp)
      (use dial_guards_run e in \<open>simp add: Some maintain_guards_def Let_def\<close>)
qed (simp add: maintain_guards_def)

lemma new_identity_run:
  "(link_step P A enc dec ser de)\<^sup>*\<^sup>* n (fst (snd (new_identity P enc dec shuffle now dial_now dial entries smp n)))"
  unfolding new_identity_def
  by (rule converse_rtranclp_into_rtranclp, rule step_retired) (rule maintain_guards_run)

lemma note_guard_wf: "guards.pool_wf g \<Longrightarrow> guards.pool_wf (note_guard P now i host port g)"
  unfolding note_guard_def guard_mark_success_def guard_add_candidate_def
  by (intro guards.update_wf guards.add_wf) simp_all

lemma greet_info [simp]: "lp_info (greet P enc d p) = lp_info p"
  by (simp add: greet_def peer_send_def split: option.split prod.split sum.split)

lemma peer_send_info [simp]: "lp_info (peer_send P enc m p) = lp_info p"
  by (simp add: peer_send_def split: prod.split sum.split)

lemma register_wf:
  assumes "link_wf n" "length (pi_node_id info) = 32"
  shows "link_wf (fst (register_peer P enc now info s ip n))"
proof (cases "pi_node_id info = ln_node_id P n \<or> hm_get (ln_peers n) (pi_node_id info) \<noteq> None")
  case True
  then show ?thesis using assms(1) by (auto simp: register_peer_def)
next
  case False
  have "hex_array P 32 s = Some k \<Longrightarrow> length k = 32" for s k by (simp add: hex_array_Some)
  then show ?thesis
    using False assms unfolding link_wf_def
    by (auto simp: register_peer_def Let_def update_conv' new_peer_def add_peer_wf note_guard_wf hm.wf_ins split: option.splits if_splits)
qed

lemma link_wf_dos [simp]: "link_wf (n\<lparr>ln_dos := g\<rparr>) = link_wf n"
  by (simp add: link_wf_def)

lemma respond_id:
  assumes "sha256_ok P" "respond P A enc dec d h n stream = (out, Returns (Inr (s, rest, info)))"
  shows "length (pi_node_id info) = 32"
  using assms
  by (auto simp: respond_def answer_handshake_def refuse_def cert_node_id_def sha256_ok_def
      split: sum.splits option.splits prod.splits link_msg.splits outcome.splits if_splits)

lemma handle_incoming_cases:
  assumes "sha256_ok P"
  obtains g where "fst (handle_incoming P A enc dec t now d ip n stream) = n\<lparr>ln_dos := g\<rparr>"
  | g info s where "length (pi_node_id info) = 32"
      "fst (handle_incoming P A enc dec t now d ip n stream) = fst (register_peer P enc now info s (Some ip) (n\<lparr>ln_dos := g\<rparr>))"
proof -
  obtain ok g where g: "allow_connection (fst t) ip (ln_dos n) = (ok, g)" by fastforce
  obtain out r where r: "respond P A enc dec d (show_ip ip) n stream = (out, r)" by fastforce
  show ?thesis
  proof (cases "\<exists>s rest info. ok \<and> r = Returns (Inr (s, rest, info))")
    case True
    then obtain s rest info where e: "ok" "r = Returns (Inr (s, rest, info))" by blast
    show ?thesis
      by (rule that(2) [where info = info and s = s and g = "release_connection (snd t) ip g"], rule respond_id [OF assms r [unfolded e(2)]])
        (use g r e in \<open>simp add: handle_incoming_def Let_def split_beta\<close>)
  next
    case False
    then have "fst (handle_incoming P A enc dec t now d ip n stream) = n\<lparr>ln_dos := if ok then release_connection (snd t) ip g else g\<rparr>"
      using g r by (cases ok; cases r) (simp_all add: handle_incoming_def Let_def split: sum.split)
    then show ?thesis by (rule that(1))
  qed
qed

lemma connect_cases:
  assumes "sha256_ok P"
  obtains "fst (connect P enc dec now d host port n dialled) = n"
  | info s where "length (pi_node_id info) = 32"
      "fst (connect P enc dec now d host port n dialled) = fst (register_peer P enc now info s None n)"
proof -
  have id: "length (cert_node_id P c) = 32" for c using assms by (simp add: cert_node_id_def sha256_ok_def)
  show ?thesis
  proof (cases dialled)
    case None
    then show ?thesis using that(1) by (simp add: connect_def)
  next
    case (Some stream)
    obtain out r where r: "initiate P enc dec d n stream = (out, r)" by fastforce
    show ?thesis
    proof (cases "\<exists>s rest a c. r = Returns (Inr (s, rest, a)) \<and> cert_from_wire P (hk_cert a) = Inr c")
      case True
      then obtain s rest a c where e: "r = Returns (Inr (s, rest, a))" "cert_from_wire P (hk_cert a) = Inr c" by blast
      show ?thesis
        by (rule that(2) [of "\<lparr> pi_node_id = cert_node_id P c, pi_host = host, pi_port = port,
              pi_cert = hk_cert a, pi_static_pub = hk_static_pub a \<rparr>" s])
          (use Some r e id in \<open>simp_all add: connect_def split_beta\<close>)
    next
      case False
      then show ?thesis using Some r that(1)
        by (cases r) (auto simp: connect_def split: sum.splits)
    qed
  qed
qed

lemma rotation_round_wf:
  assumes "link_wf n"
  shows "link_wf (rotation_round P enc ser ts rotated n)"
proof -
  have keys: "fst \<circ> (\<lambda>(k, v). (k, f v)) = fst" for f :: "link_peer \<Rightarrow> link_peer" by auto
  show ?thesis
    using assms unfolding rotation_round_def
    by (simp add: link_wf_def Let_def hm_get_map_values hm_wf_def keys split: option.split) auto
qed

lemma rekey_peer_wf:
  assumes "link_wf n" "length j = 32"
  shows "link_wf (rekey_peer P now src i j cert n)"
proof (cases "hm_get (ln_peers n) i")
  case (Some p)
  then show ?thesis
    using assms unfolding link_wf_def
    by (auto simp: rekey_peer_def Let_def update_conv' delete_conv' add_peer_wf remove_peer_wf note_guard_wf hm.wf_ins hm.wf_rem)
qed (use assms in \<open>simp add: rekey_peer_def\<close>)

lemma handle_cert_rotate_wf:
  assumes "link_wf n"
  shows "link_wf (fst (handle_cert_rotate P de r now msg src n))"
proof -
  have seen: "link_wf (n\<lparr>ln_seen_seqs := q\<rparr>)" for q using assms by (simp add: link_wf_def)
  have "hex_array P 32 s = Some k \<Longrightarrow> length k = 32" for s k by (simp add: hex_array_Some)
  then show ?thesis
    using assms seen
    by (auto simp: handle_cert_rotate_def Let_def intro!: rekey_peer_wf split: option.split sum.split outcome.split)
qed

lemma handle_com_contact_wf:
  assumes "link_wf n"
  shows "link_wf (handle_com_contact P env n)"
proof -
  have "length (om_sender_pub m) = 32" if "open_com P k b env = Inr m" for k b m
    using that by (auto simp: open_com_def Let_def and_then_Inr_iff slice_def split: if_splits sum.splits)
  then show ?thesis
    using assms by (auto simp: handle_com_contact_def learn_contact_def link_wf_def update_conv' split: sum.split)
qed

lemma reap_peer_wf: "link_wf n \<Longrightarrow> link_wf (reap_peer P clock i n)"
  unfolding link_wf_def reap_peer_def
  by (auto simp: delete_conv' remove_peer_wf hm.wf_rem guard_mark_failure_def guards.update_wf split: if_splits)

lemma remove_peer_own [simp]: "rt_own_id (snd (remove_peer i t)) = rt_own_id t"
  by (simp add: remove_peer_def Let_def split: prod.split)

lemma reap_peer_keeps [simp]:
  "ln_pow (reap_peer P clock i n) = ln_pow n" "ln_secret (reap_peer P clock i n) = ln_secret n"
  "rt_own_id (ln_routing (reap_peer P clock i n)) = rt_own_id (ln_routing n)"
  "ln_seen_seqs (reap_peer P clock i n) = ln_seen_seqs n"
  by (simp_all add: reap_peer_def)

lemma fold_preserves: "(\<And>x y. I y \<Longrightarrow> I (f x y)) \<Longrightarrow> I y \<Longrightarrow> I (fold f xs y)"
  by (induction xs arbitrary: y) auto

lemma pin_guards_wf:
  assumes "link_wf n"
  shows "link_wf (snd (pin_guards P shuffle clock entries smp n))"
proof -
  have "guards.pool_wf g \<Longrightarrow> guards.pool_wf (offer_guard P me clock primary p g)" for me primary p g
    by (simp add: offer_guard_def guard_add_candidate_def guards.add_wf split: option.split)
  moreover have "guards.pool_wf (snd (guard_retain_ids P keep (ln_guards n)))" for keep
    using assms by (simp add: link_wf_def guard_retain_ids_def Let_def guards.filter_wf)
  ultimately have "guards.pool_wf (fold (offer_guard P me clock primary) entries (snd (guard_retain_ids P keep (ln_guards n))))"
    for me primary keep by (rule fold_preserves [where I = guards.pool_wf])
  then show ?thesis using assms by (simp add: link_wf_def pin_guards_def Let_def)
qed

lemma mark_wf:
  "link_wf n \<Longrightarrow> link_wf (n\<lparr>ln_guards := guard_mark_success P i clock (ln_guards n)\<rparr>)"
  "link_wf n \<Longrightarrow> link_wf (n\<lparr>ln_guards := guard_mark_failure P i clock (ln_guards n)\<rparr>)"
  by (simp_all add: link_wf_def guard_mark_success_def guard_mark_failure_def guards.update_wf)

lemma connect_wf:
  assumes "sha256_ok P" "link_wf n"
  shows "link_wf (fst (connect P enc dec now d host port n dialled))"
  by (cases rule: connect_cases [OF assms(1), of enc dec now d host port n dialled]) (simp_all add: assms(2) register_wf)

lemma dial_guard_wf:
  assumes "sha256_ok P" "link_wf n"
  shows "link_wf (fst (dial_guard P enc dec clock linked g d n))"
proof -
  obtain n1 out r where e: "connect P enc dec (gd_now d) (gd_draw d) (ge_host g) (ge_port g) n (gd_stream d) = (n1, out, r)"
    by (metis prod.exhaust)
  with connect_wf [OF assms, of enc dec "gd_now d" "gd_draw d" "ge_host g" "ge_port g" "gd_stream d"] have "link_wf n1" by simp
  then show ?thesis using e assms(2) mark_wf by (simp add: dial_guard_def Let_def split: sum.split outcome.split)
qed

subsection \<open>Every run\<close>

text \<open>The last sequence number accepted for an identity, and what no step changes.\<close>

definition last_seq :: "link_node \<Rightarrow> bytes \<Rightarrow> u64" where
  "last_seq n i = (case hm_get (ln_seen_seqs n) i of Some q \<Rightarrow> q | None \<Rightarrow> 0)"

definition link_kept :: "link_node \<Rightarrow> link_node \<Rightarrow> bool" where
  "link_kept n n' \<longleftrightarrow> ln_pow n' = ln_pow n \<and> ln_secret n' = ln_secret n
     \<and> rt_own_id (ln_routing n') = rt_own_id (ln_routing n) \<and> (\<forall>i. last_seq n i \<le> last_seq n' i)"

lemma kept_refl [simp]: "link_kept n n" by (simp add: link_kept_def)

lemma kept_trans: "link_kept n n1 \<Longrightarrow> link_kept n1 n2 \<Longrightarrow> link_kept n n2"
  unfolding link_kept_def by (metis order_trans)

lemma kept_updates [simp]:
  "link_kept n (n1\<lparr>ln_guards := g\<rparr>) = link_kept n n1" "link_kept n (n1\<lparr>ln_dos := dos\<rparr>) = link_kept n n1"
  "link_kept (n\<lparr>ln_dos := dos\<rparr>) n1 = link_kept n n1" "link_kept n (n1\<lparr>ln_contacts := cs\<rparr>) = link_kept n n1"
  "link_kept n (n1\<lparr>ln_peers := ps\<rparr>) = link_kept n n1" "link_kept n (n1\<lparr>ln_family := f\<rparr>) = link_kept n n1"
  "link_kept n (n1\<lparr>ln_signing_key := k\<rparr>) = link_kept n n1" "link_kept n (n1\<lparr>ln_cert := c\<rparr>) = link_kept n n1"
  "link_kept n (n1\<lparr>ln_rotation_seq := q\<rparr>) = link_kept n n1"
  by (simp_all add: link_kept_def last_seq_def)

lemma kept_routing [simp]:
  "rt_own_id t = rt_own_id (ln_routing n1) \<Longrightarrow> link_kept n (n1\<lparr>ln_routing := t\<rparr>) = link_kept n n1"
  by (simp add: link_kept_def last_seq_def)

lemma register_kept [simp]: "link_kept n (fst (register_peer P enc now info s ip n1)) = link_kept n n1"
  by (simp add: register_peer_def Let_def)

lemma connect_kept:
  assumes "sha256_ok P"
  shows "link_kept n (fst (connect P enc dec now d host port n dialled))"
  by (cases rule: connect_cases [OF assms, of enc dec now d host port n dialled]) simp_all

lemma rotate_kept: "link_kept n (fst (handle_cert_rotate P de r now msg src n))"
proof -
  have seen: "link_kept n (n\<lparr>ln_seen_seqs := hm_insert i q (ln_seen_seqs n)\<rparr>)" if "last_seq n i < q" for i q
    using that by (auto simp: link_kept_def last_seq_def update_conv' less_imp_le)
  have rekey: "link_kept k (rekey_peer P now src i j c m)" if "link_kept k m" for k i j c m
    using that by (simp add: rekey_peer_def Let_def split: option.split)
  show ?thesis
    unfolding handle_cert_rotate_def Let_def last_seq_def [symmetric]
    using seen by (auto simp: not_le intro!: rekey split: option.split sum.split outcome.split)
qed

lemma found_kept: "link_kept n (handle_dht_found P ds n)"
proof (induction P ds n rule: handle_dht_found.induct)
  case (2 P d ds n)
  then show ?case by (auto split: option.splits elim: kept_trans [rotated])
qed simp

lemma link_step_wf:
  assumes "link_step P A enc dec ser de n n'" "link_wf n" "sha256_ok P"
  shows "link_wf n'"
  using assms(1)
proof cases
  case (step_incoming t now d ip stream)
  show ?thesis
    unfolding step_incoming
    by (cases rule: handle_incoming_cases [OF assms(3), of A enc dec t now d ip n stream]) (simp_all add: assms(2) register_wf)
next
  case (step_closed i)
  then show ?thesis using assms(2) by (auto simp: reader_ended_def link_wf_def delete_conv' hm.wf_rem split: if_splits)
next
  case (step_found ds)
  have "ln_peers (handle_dht_found P ds n) = ln_peers n \<and> ln_guards (handle_dht_found P ds n) = ln_guards n
      \<and> ln_contacts (handle_dht_found P ds n) = ln_contacts n"
    by (induction P ds n rule: handle_dht_found.induct) (auto split: option.split)
  then show ?thesis using step_found assms(2) dht_found_wf by (simp add: link_wf_def)
next
  case (step_contact pub i)
  then show ?thesis using assms(2) by (auto simp: learn_contact_def link_wf_def update_conv')
next
  case (step_reaped now clock)
  show ?thesis
    unfolding step_reaped reap_dead_peers_def Let_def snd_conv
    by (rule fold_preserves [where I = link_wf]) (simp_all add: reap_peer_wf assms(2))
next
  case (step_retired keep)
  then show ?thesis using assms(2) by (simp add: link_wf_def guard_retain_ids_def Let_def guards.filter_wf)
next
  case (step_traffic f dos fam k)
  have keys: "fst \<circ> (\<lambda>(i, p). (i, f i p)) = fst" by auto
  have "hm_get (map (\<lambda>(i, p). (i, f i p)) m) j = map_option (f j) (hm_get m j)" for m :: "(bytes, link_peer) hmap" and j
    by (induction m) auto
  then show ?thesis using assms(2) step_traffic by (simp add: link_wf_def hm_wf_def keys) auto
qed (use assms(2,3) connect_wf rotation_round_wf handle_cert_rotate_wf handle_com_contact_wf pin_guards_wf dial_guard_wf in simp_all)

lemma link_step_kept:
  assumes "link_step P A enc dec ser de n n'" "sha256_ok P"
  shows "link_kept n n'"
  using assms(1)
proof cases
  case (step_incoming t now d ip stream)
  show ?thesis
    unfolding step_incoming
    by (cases rule: handle_incoming_cases [OF assms(2), of A enc dec t now d ip n stream]) simp_all
next
  case (step_reaped now clock)
  have "link_kept n m \<Longrightarrow> link_kept n (reap_peer P clock i m)" for i m by (simp add: link_kept_def last_seq_def)
  then show ?thesis
    unfolding step_reaped reap_dead_peers_def Let_def snd_conv by (rule fold_preserves [where I = "link_kept n"]) simp_all
next
  case (step_guard clock linked g d)
  obtain n1 out r where e: "connect P enc dec (gd_now d) (gd_draw d) (ge_host g) (ge_port g) n (gd_stream d) = (n1, out, r)"
    by (metis prod.exhaust)
  with connect_kept [OF assms(2), of n enc dec "gd_now d" "gd_draw d" "ge_host g" "ge_port g" "gd_stream d"]
  have "link_kept n n1" by simp
  then show ?thesis unfolding step_guard using e by (simp add: dial_guard_def Let_def split: sum.split outcome.split)
qed (use assms(2) connect_kept rotate_kept found_kept in
    \<open>simp_all add: reader_ended_def rotation_round_def handle_com_contact_def learn_contact_def pin_guards_def Let_def
      split: option.split sum.split\<close>)

lemma link_run:
  assumes "(link_step P A enc dec ser de)\<^sup>*\<^sup>* n n'" "sha256_ok P"
  shows "link_kept n n' \<and> (link_wf n \<longrightarrow> link_wf n')"
  using assms(1)
proof (induction rule: rtranclp_induct)
  case (step y z)
  then show ?case using link_step_wf [OF step(2) _ assms(2)] link_step_kept [OF step(2) assms(2)] kept_trans by blast
qed simp

text \<open>C39: In every run of these operations, in any order, the link state of a node stays well formed: a connection is stored
  under the 32-byte identity of the peer it carries, once; the routing table keeps its invariant and stays the table of
  the identity the node started with; the guards are at most three and distinct; every contact key has 32 bytes. The
  static key and the proof of work of the node never change, and the sequence number last accepted from an identity
  never decreases.
\<close>

theorem link_state_well_formed:
  assumes "sha256_ok P" "(link_step P A enc dec ser de)\<^sup>*\<^sup>* n n'" "link_wf n"
  shows "hm_wf (ln_peers n') \<and> (\<forall>i p. hm_get (ln_peers n') i = Some p \<longrightarrow> pi_node_id (lp_info p) = i \<and> length i = 32)
    \<and> table_wf (ln_routing n') \<and> rt_own_id (ln_routing n') = rt_own_id (ln_routing n)
    \<and> length (ln_guards n') \<le> 3 \<and> distinct (map ge_node_id (ln_guards n'))
    \<and> (\<forall>i k. hm_get (ln_contacts n') i = Some k \<longrightarrow> length k = 32)
    \<and> ln_pow n' = ln_pow n \<and> ln_secret n' = ln_secret n
    \<and> (\<forall>i. last_seq n i \<le> last_seq n' i)"
proof -
  have "link_wf n'" "link_kept n n'" using link_run [OF assms(2,1)] assms(3) by blast+
  then show ?thesis
    unfolding link_wf_def link_kept_def guards.pool_wf_def unfolding MAX_GUARDS_def by (elim conjE) (intro conjI; assumption)
qed

lemma sample_link_wf: "link_wf (sample_link_node c k)"
  by (simp add: link_wf_def sample_link_node_def hm_wf_def table_wf_new guards.pool_wf_def)

lemma sample_accepts:
  obtains ms wa wb b' p where
    "handle_incoming toy_prims toy_argon (table_enc ms) (table_dec ms) (0, 0) 100 (sample_draw 4) (V4 (Ipv4 10 0 0 1))
       (sample_link_node cert_11 [6]) wa = (b', wb, Returns (Inr ()))"
    "hm_get (ln_peers b') (replicate 31 0 @ [57]) = Some p"
    "hm_get (ln_contacts b') (replicate 31 0 @ [57]) = Some (5 # replicate 31 0)"
proof -
  let ?a = "sample_link_node (cheap_cert B256) [5]" and ?b = "sample_link_node cert_11 [6]"
  let ?ms = "handshake_msgs toy_prims (sample_draw 3) (sample_draw 4) ?a ?b"
  have fits: "\<forall>m \<in> set ?ms. serde_fits (table_enc ?ms) (table_dec ?ms) m" by (simp add: handshake_msgs_def)
  have ids: "ln_node_id toy_prims ?a = replicate 31 0 @ [57]" "ln_node_id toy_prims ?b = replicate 31 0 @ [53]"
    by (simp_all only: ln_node_id_def sample_link_node_def link_node.simps sample_ids)
  have pub: "p_x25519_pub toy_prims (ln_secret ?a) = 5 # replicate 31 0"
    by (simp add: toy_prims_def sample_link_node_def)
  have hyps: "hex_ok toy_prims" "dh_ok toy_prims" "kdf_ok toy_prims" "aead_ok toy_prims"
      "\<not> dr_late (sample_draw 3) 0" "\<not> dr_late (sample_draw 4) 0" "\<not> dr_late (sample_draw 4) 1"
      "cert_verify (dr_bases (sample_draw 4)) (ln_cert ?a) = Returns True" "verify_admission toy_argon (ln_cert ?a) (ln_pow ?a)"
      "fst (allow_connection (fst (0, 0)) (V4 (Ipv4 10 0 0 1)) (ln_dos ?b))" "ln_node_id toy_prims ?a \<noteq> ln_node_id toy_prims ?b"
      "hm_get (ln_peers ?a) (ln_node_id toy_prims ?b) = None" "hm_get (ln_peers ?b) (ln_node_id toy_prims ?a) = None"
    unfolding ids by (simp_all add: verify_admission_def toy_argon_def sample_link_node_def sample_draw_def cheap_cert_verifies
        dos_new_def allow_connection_def)
  show ?thesis
  proof (rule connect_and_accept [where t = "(0, 0)" and now' = 100, OF hyps(1-4) fits hyps(5-13)])
    fix wa wb a' b' pa pb
    assume "handle_incoming toy_prims toy_argon (table_enc ?ms) (table_dec ?ms) (0, 0) 100 (sample_draw 4)
        (V4 (Ipv4 10 0 0 1)) ?b wa = (b', wb, Returns (Inr ()))"
      "hm_get (ln_peers b') (ln_node_id toy_prims ?a) = Some pb"
      "hm_get (ln_contacts b') (ln_node_id toy_prims ?a) = Some (p_x25519_pub toy_prims (ln_secret ?a))"
    then show thesis unfolding ids pub by (rule that)
  qed
qed

theorem link_state_well_formed_witness:
  "\<exists>ms n n'. (link_step toy_prims toy_argon (table_enc ms) (table_dec ms) (\<lambda>_. Some ''json'') (\<lambda>_. None))\<^sup>*\<^sup>*
      (sample_link_node cert_11 [6]) n'
    \<and> hm_get (ln_peers n') (replicate 31 0 @ [57]) \<noteq> None \<and> ln_cert n' = cheap_cert B512
    \<and> ln_pow n' = ln_pow (sample_link_node cert_11 [6]) \<and> table_wf (ln_routing n')"
proof -
  let ?n = "sample_link_node cert_11 [6]" and ?i = "replicate 31 0 @ [57] :: bytes" and ?ser = "\<lambda>_. Some ''json''"
  obtain ms wa wb b' p where b': "handle_incoming toy_prims toy_argon (table_enc ms) (table_dec ms) (0, 0) 100 (sample_draw 4)
      (V4 (Ipv4 10 0 0 1)) ?n wa = (b', wb, Returns (Inr ()))" "hm_get (ln_peers b') ?i = Some p"
    by (rule sample_accepts)
  let ?step = "link_step toy_prims toy_argon (table_enc ms) (table_dec ms) ?ser (\<lambda>_. None)"
  let ?n1 = "learn_contact [1] (replicate 32 9) b'"
  let ?n2 = "rotation_round toy_prims (table_enc ms) ?ser 50 (Some (cheap_cert B512)) ?n1"
  have "?step ?n b'" using step_incoming [of toy_prims toy_argon "table_enc ms" "table_dec ms" ?ser "\<lambda>_. None" ?n "(0, 0)"] b'(1)
    by (metis fst_conv)
  moreover have "?step b' ?n1" by (rule step_contact) simp
  moreover have "?step ?n1 ?n2" by (rule step_rotates)
  ultimately have run: "?step\<^sup>*\<^sup>* ?n ?n2" by (meson converse_rtranclp_into_rtranclp rtranclp.rtrancl_refl)
  have "hm_get (ln_peers ?n2) ?i \<noteq> None \<and> ln_cert ?n2 = cheap_cert B512"
    using b'(2) rotation_sends [where ser = ?ser and a = ?n1 and x = ?i] rotation_state(1) [where ser = ?ser]
    by (simp add: learn_contact_def)
  with run link_state_well_formed [OF toy_ok(1) run sample_link_wf] show ?thesis by blast
qed

subsection \<open>Handshakes after a rotation\<close>

text \<open>
  What the crate documents of \<open>verify_password\<close>: it hashes the password with the parameters and the salt that the text
  names and compares the result with the text.
\<close>

definition argon_recomputes :: "argon2 \<Rightarrow> bool" where
  "argon_recomputes A \<longleftrightarrow> (\<forall>p pass salt h. ag_params_ok A p \<and> ag_hash A p pass salt = Some h
     \<longrightarrow> ag_parse_ok A h \<and> (\<forall>pass'. ag_verify A pass' h \<longleftrightarrow> ag_hash A p pass' salt = Some h))"

lemma solved_for_another:
  assumes "argon_recomputes A" "solve_admission A salt c0 = Inr w"
  shows "verify_admission A c w \<longleftrightarrow> ag_hash A (argon_params_for (pc_bits c0)) (cert_canonical_bytes c) salt = Some (aw_hash w)"
proof -
  let ?p = "argon_params_for (pc_bits c0)"
  have w: "ag_params_ok A ?p" "ag_hash A ?p (cert_canonical_bytes c0) salt = Some (aw_hash w)" "aw_params w = ?p"
    using assms(2) by (auto simp: solve_admission_def Let_def and_then_Inr_iff split: if_splits)
  with assms(1) show ?thesis unfolding argon_recomputes_def verify_admission_def by metis
qed

text \<open>C38: A node solves its proof of work when it starts and keeps it. In every run after that, as soon as the certificate
  it holds is one whose hash, under the salt and parameters of the proof, is not the one it solved for, every handshake
  it initiates is refused by the responder, and neither side registers the other: a rotation, the only operation that
  replaces the certificate, takes the node off the network for new links.
\<close>

theorem rotated_node_refused:
  assumes "hex_ok P" "dh_ok P" "kdf_ok P" "aead_ok P" "sha256_ok P" "argon_recomputes A"
    and "solve_admission A salt (ln_cert n0) = Inr (ln_pow n0)" "(link_step P A enc dec ser de)\<^sup>*\<^sup>* n0 a"
    and "ag_hash A (argon_params_for (pc_bits (ln_cert n0))) (cert_canonical_bytes (ln_cert a)) salt
           \<noteq> ag_hash A (argon_params_for (pc_bits (ln_cert n0))) (cert_canonical_bytes (ln_cert n0)) salt"
    and "cert_verify (dr_bases db) (ln_cert a) = Returns True"
    and "\<forall>m \<in> set (LmReject ''invalid pow'' # handshake_msgs P da db a b). serde_fits enc dec m"
    and "\<not> dr_late da 0" "\<not> dr_late db 0" "\<not> dr_late db 1" "fst (allow_connection (fst t) ip (ln_dos b))"
  shows "\<exists>wa wb b1. connect P enc dec now da host port a (Some wb) = (a, wa, Returns (Inl (Handshake ''invalid pow'')))
    \<and> handle_incoming P A enc dec t now' db ip b wa = (b1, wb, Returns (Inl (Handshake ''invalid PoW'')))
    \<and> ln_peers b1 = ln_peers b \<and> ln_contacts b1 = ln_contacts b"
proof -
  have pow: "ln_pow a = ln_pow n0" using link_run [OF assms(8,5)] by (simp add: link_kept_def)
  have "ag_hash A (argon_params_for (pc_bits (ln_cert n0))) (cert_canonical_bytes (ln_cert n0)) salt = Some (aw_hash (ln_pow n0))"
    using assms(7) by (auto simp: solve_admission_def Let_def and_then_Inr_iff split: if_splits dest!: arg_cong [where f = aw_hash])
  with assms(9) have "\<not> verify_admission A (ln_cert a) (ln_pow a)"
    unfolding pow solved_for_another [OF assms(6,7)] by simp
  note bad = assms(10) this
  obtain wa wb where run: "initiate P enc dec da a wb = (wa, Returns (Inl (Handshake ''invalid pow'')))"
      "respond P A enc dec db (show_ip ip) b wa = (wb, Returns (Inl (Handshake ''invalid PoW'')))"
    by (rule invalid_pow_refused [OF assms(1-4) assms(11-14) bad])
  obtain g where g: "allow_connection (fst t) ip (ln_dos b) = (True, g)" using assms(15) by (metis prod.collapse)
  have "connect P enc dec now da host port a (Some wb) = (a, wa, Returns (Inl (Handshake ''invalid pow'')))"
    by (simp add: connect_def run(1))
  moreover have "handle_incoming P A enc dec t now' db ip b wa
      = (b\<lparr>ln_dos := release_connection (snd t) ip g\<rparr>, wb, Returns (Inl (Handshake ''invalid PoW'')))"
    by (simp add: handle_incoming_def run(2) g Let_def)
  ultimately show ?thesis by (intro exI conjI) (assumption | simp)+
qed

theorem rotated_node_refused_witness:
  "\<exists>ms a wa wb b1. ln_cert a = cert_11
    \<and> connect toy_prims (table_enc ms) (table_dec ms) 100 (sample_draw 3) ''10.0.0.2'' 7700 a (Some wb)
       = (a, wa, Returns (Inl (Handshake ''invalid pow'')))
    \<and> handle_incoming toy_prims toy_argon (table_enc ms) (table_dec ms) (0, 0) 100 (sample_draw 4) (V4 (Ipv4 10 0 0 1))
       (sample_link_node cert_11 [6]) wa = (b1, wb, Returns (Inl (Handshake ''invalid PoW'')))
    \<and> ln_peers b1 = []"
proof -
  let ?n = "sample_link_node (cheap_cert B256) [5]" and ?b = "sample_link_node cert_11 [6]"
  let ?ser = "\<lambda>w. Some ''json''" and ?de = "\<lambda>_. None"
  let ?ms = "LmReject ''invalid pow'' # handshake_msgs toy_prims (sample_draw 3) (sample_draw 4) (?n\<lparr>ln_cert := cert_11\<rparr>) ?b"
  let ?n1 = "rotation_round toy_prims (table_enc ?ms) ?ser 50 (Some (cheap_cert B512)) ?n"
  let ?a = "rotation_round toy_prims (table_enc ?ms) ?ser 60 (Some cert_11) ?n1"
  have own: "handshake_msgs toy_prims (sample_draw 3) (sample_draw 4) ?a ?b
      = handshake_msgs toy_prims (sample_draw 3) (sample_draw 4) (?n\<lparr>ln_cert := cert_11\<rparr>) ?b"
    by (simp add: rotation_round_def handshake_msgs_def own_handshake_def Let_def)
  have fits: "\<forall>m \<in> set (LmReject ''invalid pow'' # handshake_msgs toy_prims (sample_draw 3) (sample_draw 4) ?a ?b).
      serde_fits (table_enc ?ms) (table_dec ?ms) m"
    unfolding own by (intro ballI table_serde) (simp_all add: handshake_msgs_def)
  have argon: "argon_recomputes toy_argon" by (auto simp: argon_recomputes_def toy_argon_def)
  have solved: "solve_admission toy_argon [] (ln_cert ?n) = Inr (ln_pow ?n)"
    by (simp add: solve_admission_def toy_argon_def sample_link_node_def cheap_cert_def)
  have cert: "ln_cert ?a = cert_11" by (simp add: rotation_round_def Let_def)
  have new: "ag_hash toy_argon p (cert_canonical_bytes (ln_cert ?a)) [] \<noteq> ag_hash toy_argon p (cert_canonical_bytes (ln_cert ?n)) []" for p
    unfolding cert
    by (simp add: toy_argon_def cert_canonical_bytes_def cert_11_def cheap_cert_def sample_link_node_def big_to_bytes.simps)
  have run: "(link_step toy_prims toy_argon (table_enc ?ms) (table_dec ?ms) ?ser ?de)\<^sup>*\<^sup>* ?n ?a"
    by (rule converse_rtranclp_into_rtranclp, rule step_rotates, rule r_into_rtranclp, rule step_rotates)
  have rest: "\<not> dr_late (sample_draw x) k" "fst (allow_connection (fst (0, 0)) (V4 (Ipv4 10 0 0 1)) (ln_dos ?b))"
      "cert_verify (dr_bases (sample_draw 4)) (ln_cert ?a) = Returns True" "ln_peers ?b = []" for x k
    unfolding cert by (simp_all add: sample_link_node_def dos_new_def allow_connection_def sample_draw_def cert_11_verifies)
  have "\<exists>wa wb b1. connect toy_prims (table_enc ?ms) (table_dec ?ms) 100 (sample_draw 3) ''10.0.0.2'' 7700 ?a (Some wb)
        = (?a, wa, Returns (Inl (Handshake ''invalid pow'')))
      \<and> handle_incoming toy_prims toy_argon (table_enc ?ms) (table_dec ?ms) (0, 0) 100 (sample_draw 4) (V4 (Ipv4 10 0 0 1)) ?b wa
        = (b1, wb, Returns (Inl (Handshake ''invalid PoW'')))
      \<and> ln_peers b1 = ln_peers ?b \<and> ln_contacts b1 = ln_contacts ?b"
    by (rule rotated_node_refused [OF _ _ _ _ _ argon solved run new rest(3) fits rest(1) rest(1) rest(1) rest(2)]) simp_all
  with cert rest(4) show ?thesis by metis
qed

end
