(* ===== verification/HybridKem.thy ===== *)
theory HybridKem
  imports Session Utf8 SignedFields
begin

section \<open>Hybrid key encapsulation\<close>

text \<open>
  The hybrid of X25519 and ML-KEM-1024 of phinet-core/src/crypto.rs: key bundles, encapsulation, decapsulation, the
  transcript that is hashed into the key. ML-KEM is a parameter: key generation, encapsulation and decapsulation on
  encoded values, each with its randomness as an argument; the decoders accept every value of the right length.

  Shown: the two sides derive the same 64 bytes; a bundle or ciphertext without a valid ML-KEM part is refused by
  either side, never downgraded; and the bytes hashed into the transcript determine the bundle, the ephemeral key and
  the ciphertext.
\<close>

definition MLKEM_EK_BYTES :: nat where [simp]: "MLKEM_EK_BYTES = 1568"
definition MLKEM_CT_BYTES :: nat where [simp]: "MLKEM_CT_BYTES = 1568"
definition MLKEM_DK_BYTES :: nat where [simp]: "MLKEM_DK_BYTES = 3168"
definition MLKEM_SS_BYTES :: nat where [simp]: "MLKEM_SS_BYTES = 32"

record mlkem =
  km_generate :: "bytes \<Rightarrow> bytes \<times> bytes"
  km_encapsulate :: "bytes \<Rightarrow> bytes \<Rightarrow> (bytes \<times> bytes) option"
  km_decapsulate :: "bytes \<Rightarrow> bytes \<Rightarrow> bytes option"

text \<open>What the standard says of ML-KEM: sizes, and decapsulation of what was encapsulated.\<close>

definition mlkem_ok :: "mlkem \<Rightarrow> bool" where
  "mlkem_ok K \<longleftrightarrow> (\<forall>seed dk ek. km_generate K seed = (dk, ek) \<longrightarrow>
       length dk = MLKEM_DK_BYTES \<and> length ek = MLKEM_EK_BYTES
       \<and> (\<forall>rnd. \<exists>ct ss. km_encapsulate K ek rnd = Some (ct, ss) \<and> km_decapsulate K dk ct = Some ss
            \<and> length ct = MLKEM_CT_BYTES \<and> length ss = MLKEM_SS_BYTES))"

record wire_keys =
  wk_x25519_pub :: string
  wk_mlkem_ek :: string

record hybrid_ciphertext =
  hc_x25519_ephem_pub :: string
  hc_mlkem_ct :: string

definition generate_keypairs :: "prims \<Rightarrow> mlkem \<Rightarrow> bytes \<Rightarrow> bytes \<Rightarrow> wire_keys \<times> bytes \<times> bytes" where
  "generate_keypairs P K x_secret seed =
     (let (dk, ek) = km_generate K seed in
      (\<lparr> wk_x25519_pub = p_hex_encode P (p_x25519_pub P x_secret), wk_mlkem_ek = p_hex_encode P ek \<rparr>, dk, x_secret))"

definition parse_x25519_pub :: "prims \<Rightarrow> string \<Rightarrow> bytes result" where
  "parse_x25519_pub P s =
     and_then (ok_or (Crypto ''x25519 hex'') (p_hex_decode P s))
       (\<lambda>b. if length b = 32 then Inr b else Inl (Crypto ''x25519 wrong length''))"

definition encap_mlkem :: "prims \<Rightarrow> mlkem \<Rightarrow> bytes \<Rightarrow> string \<Rightarrow> (string \<times> bytes) result" where
  "encap_mlkem P K rnd ek_hex =
     (if ek_hex = [] then Inl (Crypto ''mlkem ek is empty (refusing silent downgrade)'')
      else and_then (ok_or (Crypto ''mlkem ek hex'') (p_hex_decode P ek_hex)) (\<lambda>ek.
        if length ek \<noteq> MLKEM_EK_BYTES then Inl (Crypto ''mlkem ek length'')
        else (case km_encapsulate K ek rnd of
                None \<Rightarrow> Inl (Crypto ''mlkem encapsulate failed'')
              | Some (ct, ss) \<Rightarrow> Inr (p_hex_encode P ct, ss))))"

definition decap_mlkem :: "prims \<Rightarrow> mlkem \<Rightarrow> bytes \<Rightarrow> string \<Rightarrow> bytes result" where
  "decap_mlkem P K dk ct_hex =
     (if ct_hex = [] then Inl (Crypto ''mlkem ct is empty (refusing silent downgrade)'')
      else if length dk \<noteq> MLKEM_DK_BYTES then Inl (Crypto ''mlkem dk length'')
      else and_then (ok_or (Crypto ''mlkem ct hex'') (p_hex_decode P ct_hex)) (\<lambda>ct.
        if length ct \<noteq> MLKEM_CT_BYTES then Inl (Crypto ''mlkem ct length'')
        else ok_or (Crypto ''mlkem decapsulate failed'') (km_decapsulate K dk ct)))"

definition lp_bytes :: "bytes \<Rightarrow> bytes" where
  "lp_bytes b = to_be (of_nat (length b) :: u32) @ b"

definition hex_or_empty :: "prims \<Rightarrow> string \<Rightarrow> bytes" where
  "hex_or_empty P s = (case p_hex_decode P s of Some b \<Rightarrow> b | None \<Rightarrow> [])"

definition transcript_bytes :: "prims \<Rightarrow> wire_keys \<Rightarrow> bytes \<Rightarrow> string \<Rightarrow> bytes" where
  "transcript_bytes P responder initiator_epub mlkem_ct_hex =
     lp_bytes (ascii ''phinet-hybrid-transcript-v1'') @ lp_bytes (hex_or_empty P (wk_x25519_pub responder))
       @ lp_bytes (hex_or_empty P (wk_mlkem_ek responder)) @ lp_bytes initiator_epub @ lp_bytes (hex_or_empty P mlkem_ct_hex)"

definition transcript_hash :: "prims \<Rightarrow> wire_keys \<Rightarrow> bytes \<Rightarrow> string \<Rightarrow> bytes" where
  "transcript_hash P responder initiator_epub mlkem_ct_hex =
     p_sha256 P (transcript_bytes P responder initiator_epub mlkem_ct_hex)"

definition combine_secrets :: "prims \<Rightarrow> bytes \<Rightarrow> bytes \<Rightarrow> bytes \<Rightarrow> bytes" where
  "combine_secrets P x k transcript =
     hkdf_derive P (ascii ''x25519'' @ lp_bytes x @ ascii ''mlkem '' @ lp_bytes k) transcript (ascii ''phinet-hybrid-v2-session'') 64"

definition hybrid_encapsulate ::
  "prims \<Rightarrow> mlkem \<Rightarrow> bytes \<Rightarrow> bytes \<Rightarrow> wire_keys \<Rightarrow> (hybrid_ciphertext \<times> bytes) result" where
  "hybrid_encapsulate P K our_e rnd peer =
     and_then (parse_x25519_pub P (wk_x25519_pub peer)) (\<lambda>peer_x.
     and_then (encap_mlkem P K rnd (wk_mlkem_ek peer)) (\<lambda>(ct_hex, ss).
       Inr (\<lparr> hc_x25519_ephem_pub = p_hex_encode P (p_x25519_pub P our_e), hc_mlkem_ct = ct_hex \<rparr>,
            combine_secrets P (p_x25519 P our_e peer_x) ss (transcript_hash P peer (p_x25519_pub P our_e) ct_hex))))"

definition hybrid_decapsulate ::
  "prims \<Rightarrow> mlkem \<Rightarrow> wire_keys \<Rightarrow> bytes \<Rightarrow> bytes \<Rightarrow> hybrid_ciphertext \<Rightarrow> bytes result" where
  "hybrid_decapsulate P K our_bundle x_secret dk ct =
     and_then (parse_x25519_pub P (hc_x25519_ephem_pub ct)) (\<lambda>peer_e.
     and_then (decap_mlkem P K dk (hc_mlkem_ct ct)) (\<lambda>ss.
     and_then (ok_or (Crypto ''x25519_ephem_pub hex'') (p_hex_decode P (hc_x25519_ephem_pub ct))) (\<lambda>epub.
       if length epub \<noteq> 32 then Inl (Crypto ''x25519_ephem_pub size'')
       else Inr (combine_secrets P (p_x25519 P x_secret peer_e) ss (transcript_hash P our_bundle epub (hc_mlkem_ct ct))))))"

subsection \<open>Agreement\<close>

lemma parse_own_pub [simp]:
  "hex_ok P \<Longrightarrow> dh_ok P \<Longrightarrow> parse_x25519_pub P (p_hex_encode P (p_x25519_pub P k)) = Inr (p_x25519_pub P k)"
  by (simp add: parse_x25519_pub_def hex_ok_def dh_ok_def)

lemma hex_encode_nonempty: "hex_ok P \<Longrightarrow> 0 < length b \<Longrightarrow> p_hex_encode P b \<noteq> []"
  unfolding hex_ok_def by (metis length_greater_0_conv mult_is_0 not_gr_zero zero_neq_numeral)

text \<open>C40: Encapsulating to a generated bundle succeeds whatever is drawn, and the holder of the bundle's secrets
  decapsulates the same 64 bytes from the ciphertext.
\<close>

theorem hybrid_agreement:
  assumes "hex_ok P" "dh_ok P" "kdf_ok P" "mlkem_ok K" "generate_keypairs P K x_secret seed = (bundle, dk, sec)"
  shows "\<exists>ct key. hybrid_encapsulate P K our_e rnd bundle = Inr (ct, key) \<and> hybrid_decapsulate P K bundle sec dk ct = Inr key
    \<and> length key = 64"
proof -
  obtain dk' ek where g: "km_generate K seed = (dk', ek)" by fastforce
  with assms(5) have b: "bundle = \<lparr> wk_x25519_pub = p_hex_encode P (p_x25519_pub P x_secret), wk_mlkem_ek = p_hex_encode P ek \<rparr>"
      "dk = dk'" "sec = x_secret"
    by (auto simp: generate_keypairs_def)
  obtain ct ss where k: "km_encapsulate K ek rnd = Some (ct, ss)" "km_decapsulate K dk ct = Some ss"
      "length ct = 1568" "length dk = 3168" "length ek = 1568"
    using assms(4) g b(2) unfolding mlkem_ok_def MLKEM_EK_BYTES_def MLKEM_CT_BYTES_def MLKEM_DK_BYTES_def by blast
  have "0 < length ek" "0 < length ct" by (simp_all add: k)
  then have ne: "p_hex_encode P ek \<noteq> []" "p_hex_encode P ct \<noteq> []"
    using hex_encode_nonempty [OF assms(1)] by blast+
  have dec: "p_hex_decode P (p_hex_encode P x) = Some x" for x using assms(1) by (simp add: hex_ok_def)
  have dh: "p_x25519 P x_secret (p_x25519_pub P our_e) = p_x25519 P our_e (p_x25519_pub P x_secret)" "length (p_x25519_pub P our_e) = 32"
    using assms(2) by (simp_all add: dh_ok_def)
  show ?thesis
    using assms(1-3) k ne
    by (simp add: hybrid_encapsulate_def hybrid_decapsulate_def encap_mlkem_def decap_mlkem_def dec dh b combine_secrets_def)
qed

definition toy_mlkem :: mlkem where
  "toy_mlkem = \<lparr> km_generate = (\<lambda>seed. (replicate 3168 0, replicate 1568 0)),
     km_encapsulate = (\<lambda>ek rnd. Some (replicate 1568 (foldl (+) 0 rnd), replicate 32 (foldl (+) 0 rnd))),
     km_decapsulate = (\<lambda>dk ct. Some (take 32 ct)) \<rparr>"

lemma toy_mlkem_ok: "mlkem_ok toy_mlkem"
  by (simp add: mlkem_ok_def toy_mlkem_def)

theorem hybrid_agreement_witness:
  "\<exists>ct key. hybrid_encapsulate toy_prims toy_mlkem [3] [7] (fst (generate_keypairs toy_prims toy_mlkem [5] [])) = Inr (ct, key)
    \<and> hybrid_decapsulate toy_prims toy_mlkem (fst (generate_keypairs toy_prims toy_mlkem [5] [])) [5] (replicate 3168 0) ct = Inr key"
proof -
  let ?b = "fst (generate_keypairs toy_prims toy_mlkem [5] [])"
  have "generate_keypairs toy_prims toy_mlkem [5] [] = (?b, replicate 3168 0, [5])"
    by (simp add: generate_keypairs_def toy_mlkem_def)
  from hybrid_agreement [OF _ _ _ toy_mlkem_ok this, of "[3]" "[7]"] show ?thesis by auto
qed

text \<open>There is no fallback to X25519 alone: a key comes out only when the ML-KEM part was present, of the full
  length, and processed.
\<close>

theorem hybrid_never_downgrades:
  "(hybrid_encapsulate P K our_e rnd peer = Inr r
      \<longrightarrow> (\<exists>ek ct ss. p_hex_decode P (wk_mlkem_ek peer) = Some ek \<and> length ek = MLKEM_EK_BYTES
            \<and> km_encapsulate K ek rnd = Some (ct, ss) \<and> hc_mlkem_ct (fst r) = p_hex_encode P ct))
   \<and> (hybrid_decapsulate P K bundle sec dk c = Inr key
      \<longrightarrow> (\<exists>ct ss. p_hex_decode P (hc_mlkem_ct c) = Some ct \<and> length ct = MLKEM_CT_BYTES \<and> length dk = MLKEM_DK_BYTES
            \<and> km_decapsulate K dk ct = Some ss))"
  by (auto simp: hybrid_encapsulate_def hybrid_decapsulate_def encap_mlkem_def decap_mlkem_def and_then_Inr_iff
      split: if_splits option.splits prod.splits)

theorem hybrid_never_downgrades_witness:
  "\<nexists>r. hybrid_encapsulate toy_prims toy_mlkem [3] [7] \<lparr> wk_x25519_pub = p_hex_encode toy_prims (5 # replicate 31 0), wk_mlkem_ek = [] \<rparr> = Inr r"
proof
  let ?peer = "\<lparr> wk_x25519_pub = p_hex_encode toy_prims (5 # replicate 31 0), wk_mlkem_ek = [] \<rparr>"
  assume "\<exists>r. hybrid_encapsulate toy_prims toy_mlkem [3] [7] ?peer = Inr r"
  then obtain r where r: "hybrid_encapsulate toy_prims toy_mlkem [3] [7] ?peer = Inr r" by blast
  obtain ek where "p_hex_decode toy_prims [] = Some ek" "length ek = 1568"
    using hybrid_never_downgrades [THEN conjunct1, rule_format, OF r] by auto
  moreover have "p_hex_decode toy_prims [] = Some []" by (simp add: toy_prims_def)
  ultimately show False by simp
qed

subsection \<open>The transcript\<close>

lemma unat_len32: "n < 2 ^ 32 \<Longrightarrow> unat (of_nat n :: u32) = n"
  by (simp add: unat_of_nat take_bit_nat_eq_self)

lemma lp_bytes_inject:
  assumes "length a < 2 ^ 32" "length b < 2 ^ 32" "lp_bytes a @ x = lp_bytes b @ y"
  shows "a = b \<and> x = y"
proof -
  have "(of_nat (length a) :: u32) = of_nat (length b)" "a @ x = b @ y" using assms(3) by (simp_all add: lp_bytes_def)
  moreover then have "length a = length b"
    using assms(1,2) unat_len32 by metis
  ultimately show ?thesis by simp
qed

text \<open>The bytes that are hashed into the key determine what was exchanged: two transcripts of decodable bundles
  and ciphertexts are equal only if the static key, the encapsulation key, the ephemeral key and the ciphertext are.
\<close>

theorem transcript_determines_exchange:
  assumes "p_hex_decode P (wk_x25519_pub r) = Some x" "p_hex_decode P (wk_mlkem_ek r) = Some k" "p_hex_decode P c = Some ct"
    and "p_hex_decode P (wk_x25519_pub r') = Some x'" "p_hex_decode P (wk_mlkem_ek r') = Some k'" "p_hex_decode P c' = Some ct'"
    and "\<forall>b \<in> {x, k, e, ct, x', k', e', ct'}. length b < 2 ^ 32"
    and "transcript_bytes P r e c = transcript_bytes P r' e' c'"
  shows "x = x' \<and> k = k' \<and> e = e' \<and> ct = ct'"
proof -
  have "lp_bytes x @ lp_bytes k @ lp_bytes e @ lp_bytes ct @ [] = lp_bytes x' @ lp_bytes k' @ lp_bytes e' @ lp_bytes ct' @ []"
    using assms(8) by (simp add: transcript_bytes_def hex_or_empty_def assms(1-6))
  then show ?thesis using assms(7) lp_bytes_inject by (metis insertCI)
qed

theorem transcript_determines_exchange_witness:
  "transcript_bytes toy_prims \<lparr> wk_x25519_pub = p_hex_encode toy_prims [1], wk_mlkem_ek = p_hex_encode toy_prims [2] \<rparr> [3] (p_hex_encode toy_prims [4])
     \<noteq> transcript_bytes toy_prims \<lparr> wk_x25519_pub = p_hex_encode toy_prims [1, 2], wk_mlkem_ek = p_hex_encode toy_prims [] \<rparr> [3] (p_hex_encode toy_prims [4])"
proof
  let ?r = "\<lparr> wk_x25519_pub = p_hex_encode toy_prims [1], wk_mlkem_ek = p_hex_encode toy_prims [2] \<rparr>"
    and ?s = "\<lparr> wk_x25519_pub = p_hex_encode toy_prims [1, 2], wk_mlkem_ek = p_hex_encode toy_prims [] \<rparr>"
  assume eq: "transcript_bytes toy_prims ?r [3] (p_hex_encode toy_prims [4]) = transcript_bytes toy_prims ?s [3] (p_hex_encode toy_prims [4])"
  have dec: "p_hex_decode toy_prims (p_hex_encode toy_prims b) = Some b" for b using toy_ok(2) by (simp add: hex_ok_def)
  have "[1::u8] = [1, 2] \<and> [2::u8] = [] \<and> [3::u8] = [3] \<and> [4::u8] = [4]"
    by (rule transcript_determines_exchange [OF _ _ _ _ _ _ _ eq]) (simp_all add: dec)
  then show False by simp
qed

end
