(* ===== verification/Spec2Isabelle.thy ===== *)
theory Spec2Isabelle
  imports OnionPath MgrInv Consensus PathSelect Vanguards GuardSample HsdirRing Dht ExitPolicy
    Session ComGossip Replay Board HsIdentity RelayDesc RateLimits Sched OnionCell Cert LinkWriter SiteStore SiteServe
    Puzzle HsService Rotation HybridKem
begin

text \<open>
  A verification development for PhiNet, an onion-routing overlay written in Rust
  (\<open>src/phinet-core/src/\<close>). A client builds a circuit through relays hop by hop (CREATE, then EXTEND2
  through the hops built so far, each with an ntor handshake), sends relay cells under one layer of
  encryption per hop, multiplexes streams over the circuit, and reaches hidden services by joining
  two circuits at a rendezvous relay. Which relays it uses comes from a consensus that directory
  authorities vote and sign.

  Theories, in the order they build on each other:

  \<^item> \<open>Prelude\<close>: bytes, slices, fixed-width big-endian integers, hash maps as association lists
    with distinct keys, errors; the named collections the other theories extend. \<open>StdNet\<close>: the part of
    \<open>std::net\<close> the code uses (parsing and printing of addresses and ports).
  \<^item> \<open>Circuit\<close> (\<open>circuit.rs\<close>): cells, relay cells, digests, onion layers, EXTEND2 bodies;
    wire-format round trips.
  \<^item> \<open>Ntor\<close> (\<open>ntor.rs\<close>), \<open>Rendezvous\<close> (\<open>rendezvous.rs\<close>): the handshakes and sealed messages; agreement
    of the two sides.
  \<^item> \<open>Streams\<close> (\<open>stream.rs\<close>), \<open>Congestion\<close> (\<open>congestion.rs\<close>), \<open>Padding\<close> (\<open>padding.rs\<close> and the
    pump of \<open>node.rs\<close>): flow control; state invariants and conservation of credit.
  \<^item> \<open>CircuitMgr\<close> (\<open>circuit_mgr.rs\<close> and the dispatch guard of \<open>node.rs\<close>): the state of a node's circuits
    and every operation on it. \<open>MgrInv\<close>: the callers in \<open>node.rs\<close> that write this state, the step relation of
    all of them, what holds after any run, and what holds besides as long as no circuit id or leg in use is used
    again, which the code does not check. \<open>OnionPath\<close>: an origin and the relays of its path composed, cell by
    cell, and the two ends of a rendezvous through the relay that joins them.
  \<^item> \<open>SharedRandom\<close> (\<open>shared_random.rs\<close>), \<open>Directory\<close> and \<open>Consensus\<close> (\<open>directory.rs\<close>): votes,
    signatures, merging; what a verified consensus guarantees.
  \<^item> \<open>PathSelect\<close> (\<open>path_select.rs\<close>), \<open>Guards\<close> (\<open>guards.rs\<close>), \<open>Vanguards\<close> (\<open>vanguards.rs\<close>),
    \<open>GuardSample\<close> (\<open>guard_sample.rs\<close>): choice of relays. The locale \<open>bounded_pool\<close> is the contract the
    two bounded relay sets share; it is interpreted on both.
  \<^item> \<open>HsdirRing\<close> (\<open>hsdir_ring.rs\<close>), \<open>Dht\<close> (\<open>dht.rs\<close>), \<open>ExitPolicy\<close> (\<open>exit_policy.rs\<close>).
  \<^item> \<open>Session\<close> (\<open>session.rs\<close>, the cells of \<open>wire.rs\<close>): the encrypted link between two nodes; it refines a
    queue of messages, and no nonce is used twice under a key.
  \<^item> \<open>Utf8\<close>: the string functions the code uses. \<open>Com\<close> (\<open>com.rs\<close>): sealed messages, groups, addresses,
    inbox and mailbox. \<open>ComNode\<close> (\<open>node.rs\<close>, \<open>wire.rs\<close>): the messaging handlers and senders of a node, one
    state transition each, and the lock of the groups the mail handler takes. \<open>ComGossip\<close>: nodes composed into
    a network; the locale \<open>gossip\<close> is the contract of a flooding handler, interpreted on the handler of the code.
  \<^item> \<open>LineLog\<close>: append-only files of lines. \<open>Replay\<close> (\<open>replay.rs\<close>) and \<open>Board\<close> (\<open>board.rs\<close> and its handlers in
    \<open>node.rs\<close>): state that survives any number of restarts through such a file, compaction included.
  \<^item> \<open>EdBlind\<close> (\<open>hs_blind.rs\<close>, the scalar part of \<open>hs_identity.rs\<close>), \<open>ClientAuth\<close> (\<open>client_auth.rs\<close>), \<open>HsIdentity\<close>
    (\<open>hs_identity.rs\<close>, \<open>HsDescriptor\<close> of \<open>wire.rs\<close>): blinded keys, client authorisation, and the descriptors
    of hidden services.
  \<^item> \<open>SignedFields\<close> (the framing of signed bytes), \<open>RelayDesc\<close> (\<open>relay_desc.rs\<close>, the descriptor store and gossip
    of \<open>node.rs\<close>): relay descriptors, whose signing keys stay pinned.
  \<^item> \<open>F64\<close> (rounding of \<open>f64\<close> as IEEE 754 prescribes), \<open>RateLimits\<close> (\<open>dos.rs\<close>, \<open>path_bias.rs\<close>,
    \<open>circuit_timing.rs\<close>) and \<open>Sched\<close> (\<open>circuit_sched.rs\<close>, \<open>circuit_pool.rs\<close>): limits, suspicion, timeouts and fair
    queues, with the floating-point results compared to exact ones.
  \<^item> \<open>OnionCell\<close> (\<open>onion.rs\<close> and its handler): messages through layered encryption.
  \<^item> \<open>Cert\<close> (\<open>cert.rs\<close>, \<open>pow.rs\<close>): the number-theoretic certificates of nodes and the admission proof of work.
  \<^item> \<open>LinkWriter\<close> (the writer task of \<open>node.rs\<close>): how sealed frames and circuit cells share one connection;
    what the peer reads as long as frames are queued in the order they were sealed (not enforced by the code).
  \<^item> \<open>SiteStore\<close> and \<open>SiteServe\<close> (\<open>store.rs\<close>, the request handler of \<open>node.rs\<close>): what a hosted site stores
    and serves.
  \<^item> \<open>Puzzle\<close> (the client puzzles of \<open>pow.rs\<close>) and \<open>HsService\<close> (\<open>hidden_service.rs\<close>, publishing, lookup and
    resolving in \<open>node.rs\<close>): from the registration of a hidden service to the address its client dials.
  \<^item> \<open>HybridKem\<close> (\<open>crypto.rs\<close>): the hybrid of X25519 and ML-KEM; agreement, no downgrade, what the transcript binds.
  \<^item> \<open>Handshake\<close> (\<open>handle_incoming\<close>, \<open>connect\<close>, \<open>register_peer\<close> of \<open>node.rs\<close>) and \<open>Rotation\<close> (its certificate rotation and
    routing-table messages): how two nodes come to share a link, what the handshake proves, what a rotation moves
    and breaks; the step relation of every writer of a node's link state (handshakes, rotation, learned contacts,
    reaping of dead peers, guard maintenance) and its invariant.

  Conventions. A struct is a record with prefixed fields, an enum a datatype, an integer a
  word of its width or a natural number with its bound in the invariant, a string the list of its
  bytes. A HashMap is an association list with distinct keys, so iteration order is a parameter of the
  state and results that must not depend on it are proved not to. Randomness, clocks, shuffles and the
  outcome of file operations are arguments. Errors are values of a sum type, their message the literal
  text of the source; a panic is the constructor \<open>Panics\<close> of the type \<open>outcome\<close>.
  Third-party cryptography is the record \<open>prims\<close> passed as first argument; what is assumed of it is named
  (\<open>dh_ok\<close>: Diffie-Hellman commutes; \<open>kdf_ok\<close>: HKDF returns the requested length; \<open>hex_ok\<close>: hex decodes what
  it encoded; \<open>aead_ok\<close>: what was sealed opens; \<open>aead_exact\<close>: only what was sealed opens; \<open>curve_ok\<close>: the
  group laws and the verification equation of Ed25519; \<open>aead_nonce_ok\<close>: a box does not open under another nonce;
  \<open>argon_ok\<close>: Argon2 verifies what it hashed; \<open>argon_recomputes\<close>: a hash string verifies a password
  exactly if hashing that password again with its salt and parameters gives the same string;
  \<open>mlkem_ok\<close>: sizes of ML-KEM-1024 and decapsulation of what was encapsulated), and \<open>toy_prims\<close> and \<open>toy_curve\<close> satisfy them, so
  the witnesses evaluate on concrete input. JSON is a pair of functions with the law \<open>json_lines\<close>: what was
  encoded decodes again and has no line break. A SHA-256 state is the list of bytes absorbed so far.

  Not modelled: sockets, task spawning and logging; the persistence of the guard sets, the vanguards
  and the authorities' keys; transports, the HTTP-like consensus fetch, HTML templates, the daemon, command line, browser and bandwidth scanner.
\<close>

end
